(* ===== verification/Age_Prelude.thy ===== *)
theory Age_Prelude
  imports Main "HOL-Library.Word" "HOL-Library.Multiset"
begin

text \<open>
  Shared vocabulary of the development: machine integers at the width the C code has them,
  errors as values, reads from a byte buffer that may leave the buffer, and the
  little-endian byte image of integers that \<open>memcpy\<close> of a \<open>uint32\<close> or \<open>int64\<close> produces
  on the platforms the extension is built for.

  A pointer into a byte buffer is modelled by the list of bytes from that address to the end
  of the allocation: pointer arithmetic is \<open>drop\<close>, and a read that needs more bytes than are
  left is \<open>BadAccess\<close>, so a theorem that an operation returns \<open>Inr\<close> also says that it
  stays inside the allocation.
\<close>

unbundle bit_operations_syntax

subsection \<open>Types\<close>

type_synonym byte = "8 word"
type_synonym int32 = "32 word"
type_synonym uint32 = "32 word"
type_synonym int64 = "64 word"
type_synonym uint64 = "64 word"

text \<open>\<open>Ereport\<close> carries the constant part of the message of an \<open>ereport(ERROR)\<close> or
  \<open>elog(ERROR)\<close>; \<open>BadAccess\<close> is an access outside the allocation or through a null pointer;
  \<open>OutOfFuel\<close> is the bound of a model function that recurses with fuel; \<open>Undefined\<close> is an operation
  to which the language gives no meaning.\<close>

datatype age_error = Ereport string | BadAccess | OutOfFuel | Undefined

type_synonym 'a result = "age_error + 'a"

named_theorems age_mem \<open>rewriting of buffer reads\<close>
named_theorems age_res \<open>rewriting of error-carrying results\<close>

definition bindE :: "'a result \<Rightarrow> ('a \<Rightarrow> 'b result) \<Rightarrow> 'b result" where
  "bindE m f = (case m of Inl e \<Rightarrow> Inl e | Inr x \<Rightarrow> f x)"

lemma bindE_simps [simp, age_res]:
  "bindE (Inl e) f = Inl e"
  "bindE (Inr x) f = f x"
  by (simp_all add: bindE_def)

lemma bindE_eq_Inr [age_res]:
  "bindE m f = Inr y \<longleftrightarrow> (\<exists>x. m = Inr x \<and> f x = Inr y)"
  by (cases m) auto

lemma bindE_eq_Inl [age_res]:
  "bindE m f = Inl e \<longleftrightarrow> m = Inl e \<or> (\<exists>x. m = Inr x \<and> f x = Inl e)"
  by (cases m) auto

lemma bindE_cong [fundef_cong]:
  "m = m' \<Longrightarrow> (\<And>x. m' = Inr x \<Longrightarrow> f x = f' x) \<Longrightarrow> bindE m f = bindE m' f'"
  by (cases m') auto

subsection \<open>Little-endian images\<close>

primrec le_bytes :: "nat \<Rightarrow> nat \<Rightarrow> byte list" where
  "le_bytes 0 n = []"
| "le_bytes (Suc k) n = of_nat n # le_bytes k (n div 256)"

primrec le_nat :: "byte list \<Rightarrow> nat" where
  "le_nat [] = 0"
| "le_nat (b # bs) = unat b + 256 * le_nat bs"

lemma length_le_bytes [simp]: "length (le_bytes k n) = k"
  by (induction k arbitrary: n) auto

lemma le_nat_le_bytes: "le_nat (le_bytes k n) = n mod 256 ^ k"
proof (induction k arbitrary: n)
  case 0
  then show ?case by simp
next
  case (Suc k)
  have "n mod 256 + 256 * (n div 256 mod 256 ^ k) = n mod (256 * 256 ^ k)"
    by (simp add: mod_mult2_eq)
  with Suc show ?case by (simp add: unat_of_nat)
qed

definition put_u32 :: "uint32 \<Rightarrow> byte list" where
  "put_u32 w = le_bytes 4 (unat w)"

definition put_u64 :: "uint64 \<Rightarrow> byte list" where
  "put_u64 w = le_bytes 8 (unat w)"

lemma length_put_u32 [simp]: "length (put_u32 w) = 4"
  by (simp add: put_u32_def)

lemma length_put_u64 [simp]: "length (put_u64 w) = 8"
  by (simp add: put_u64_def)

subsection \<open>Reads through a pointer\<close>

definition read_bytes :: "nat \<Rightarrow> byte list \<Rightarrow> byte list result" where
  "read_bytes n p = (if n \<le> length p then Inr (take n p) else Inl BadAccess)"

definition read_u32 :: "byte list \<Rightarrow> uint32 result" where
  "read_u32 p = bindE (read_bytes 4 p) (\<lambda>bs. Inr (of_nat (le_nat bs)))"

definition read_u64 :: "byte list \<Rightarrow> uint64 result" where
  "read_u64 p = bindE (read_bytes 8 p) (\<lambda>bs. Inr (of_nat (le_nat bs)))"

lemma read_bytes_append [simp, age_mem]: "length bs = n \<Longrightarrow> read_bytes n (bs @ rest) = Inr bs"
  by (simp add: read_bytes_def)

lemma le_nat_put_u32: "le_nat (put_u32 w) = unat w"
  using unsigned_less [of w, where 'a = nat] by (simp add: put_u32_def le_nat_le_bytes)

lemma le_nat_put_u64: "le_nat (put_u64 w) = unat w"
  using unsigned_less [of w, where 'a = nat] by (simp add: put_u64_def le_nat_le_bytes)

lemma read_u32_put [simp, age_mem]: "read_u32 (put_u32 w @ rest) = Inr w"
  by (simp add: read_u32_def le_nat_put_u32)

lemma read_u64_put [simp, age_mem]: "read_u64 (put_u64 w @ rest) = Inr w"
  by (simp add: read_u64_def le_nat_put_u64)

lemma read_u32_short: "length p < 4 \<Longrightarrow> read_u32 p = Inl BadAccess"
  by (simp add: read_u32_def read_bytes_def)

subsection \<open>Signed reading of words\<close>

lemma sint_word32:
  "sint (w :: 32 word) = (if unat w < 2 ^ 31 then int (unat w) else int (unat w) - 2 ^ 32)"
proof -
  have eq: "sint w = (int (unat w) + 2 ^ 31) mod 2 ^ 32 - 2 ^ 31"
    using int_word_sint [of "uint w", where 'a = 32] by simp
  have lt: "unat w < 2 ^ 32"
    using unsigned_less [of w, where 'a = nat] by simp
  show ?thesis
  proof (cases "unat w < 2 ^ 31")
    case True
    then show ?thesis by (simp add: eq del: uint_nat of_nat_unat)
  next
    case False
    have "(int (unat w) + 2 ^ 31) mod 2 ^ 32 = int (unat w) + 2 ^ 31 - 2 ^ 32"
      using False lt by (subst mod_pos_geq) (simp_all del: of_nat_unat)
    with False show ?thesis by (simp add: eq)
  qed
qed

lemma sint_word64:
  "sint (w :: 64 word) = (if unat w < 2 ^ 63 then int (unat w) else int (unat w) - 2 ^ 64)"
proof -
  have eq: "sint w = (int (unat w) + 2 ^ 63) mod 2 ^ 64 - 2 ^ 63"
    using int_word_sint [of "uint w", where 'a = 64] by simp
  have lt: "unat w < 2 ^ 64"
    using unsigned_less [of w, where 'a = nat] by simp
  show ?thesis
  proof (cases "unat w < 2 ^ 63")
    case True
    then show ?thesis by (simp add: eq del: uint_nat of_nat_unat)
  next
    case False
    have "(int (unat w) + 2 ^ 63) mod 2 ^ 64 = int (unat w) + 2 ^ 63 - 2 ^ 64"
      using False lt by (subst mod_pos_geq) (simp_all del: of_nat_unat)
    with False show ?thesis by (simp add: eq)
  qed
qed

lemma scast_32_64_nonneg: "unat (w :: 32 word) < 2 ^ 31 \<Longrightarrow> (scast w :: 64 word) = of_nat (unat w)"
proof -
  assume "unat w < 2 ^ 31"
  then have eq: "sint w = int (unat w)"
    by (simp only: sint_word32 if_True)
  have "(scast w :: 64 word) = of_int (sint w)"
    by (rule of_int_sint [symmetric])
  also have "\<dots> = of_nat (unat w)"
    by (simp only: eq of_int_of_nat_eq)
  finally show ?thesis .
qed

subsection \<open>Strictly sorted lists\<close>

lemma sorted_wrt_set_unique:
  assumes "sorted_wrt R xs" "sorted_wrt R ys" "set xs = set ys"
    and irr: "\<And>x. x \<in> set xs \<Longrightarrow> \<not> R x x" and asym: "\<And>x y. R x y \<Longrightarrow> \<not> R y x"
  shows "xs = ys"
  using assms(1-4)
proof (induction xs arbitrary: ys)
  case Nil
  then show ?case by simp
next
  case (Cons x xs)
  then obtain y ys' where ys: "ys = y # ys'" by (cases ys) auto
  have "x = y"
  proof (rule ccontr)
    assume "x \<noteq> y"
    have "set (x # xs) = set (y # ys')" using Cons.prems(3) ys by simp
    with \<open>x \<noteq> y\<close> have "x \<in> set ys'" "y \<in> set xs" by (auto simp: set_eq_iff)
    with Cons.prems(1,2) ys have "R y x" "R x y" by auto
    with asym show False by blast
  qed
  moreover have "x \<notin> set xs" "x \<notin> set ys'" using Cons.prems ys \<open>x = y\<close> by auto
  ultimately have "set xs = set ys'" using Cons.prems(3) ys by (simp add: insert_ident)
  with Cons ys \<open>x = y\<close> show ?case by auto
qed

end
