(* ===== verification/Graphid.thy ===== *)
theory Graphid
  imports Age_Prelude
begin

text \<open>
  The \<open>graphid\<close> type (\<open>src/include/utils/graphid.h\<close>, \<open>src/backend/utils/adt/graphid.c\<close>):
  a 64-bit identifier with a 16-bit label id above a 48-bit entry id, its constructor and
  projections, its text input and output, the comparison operators of its B-tree operator
  class, its hash, and the cache of the type's OID with the syscache callback that empties it.
\<close>

subsection \<open>Construction and projections\<close>

type_synonym graphid = int64

definition LABEL_ID_MIN :: int where "LABEL_ID_MIN = 1"
definition LABEL_ID_MAX :: int where "LABEL_ID_MAX = 65535"
definition ENTRY_ID_MIN :: int where "ENTRY_ID_MIN = 0"
definition ENTRY_ID_MAX :: int where "ENTRY_ID_MAX = 281474976710655"
definition ENTRY_ID_BITS :: nat where "ENTRY_ID_BITS = 32 + 16"
definition ENTRY_ID_MASK :: uint64 where "ENTRY_ID_MASK = 0x0000ffffffffffff"

definition label_id_is_valid :: "int32 \<Rightarrow> bool" where
  "label_id_is_valid l \<longleftrightarrow> sint l \<ge> LABEL_ID_MIN \<and> sint l \<le> LABEL_ID_MAX"

definition entry_id_is_valid :: "int64 \<Rightarrow> bool" where
  "entry_id_is_valid e \<longleftrightarrow> sint e \<ge> ENTRY_ID_MIN \<and> sint e \<le> ENTRY_ID_MAX"

definition make_graphid :: "int32 \<Rightarrow> int64 \<Rightarrow> graphid result" where
  "make_graphid label_id entry_id =
     (if \<not> label_id_is_valid label_id then Inl (Ereport ''label_id must be 1 .. 65535'')
      else if \<not> entry_id_is_valid entry_id
           then Inl (Ereport ''entry_id must be 0 .. 281474976710655'')
      else Inr (push_bit ENTRY_ID_BITS (scast label_id :: uint64) OR
                (entry_id AND ENTRY_ID_MASK)))"

definition GET_LABEL_ID :: "graphid \<Rightarrow> uint64" where
  "GET_LABEL_ID gid = drop_bit ENTRY_ID_BITS gid"

definition get_graphid_label_id :: "graphid \<Rightarrow> int32" where
  "get_graphid_label_id gid = ucast (drop_bit ENTRY_ID_BITS gid)"

definition get_graphid_entry_id :: "graphid \<Rightarrow> int64" where
  "get_graphid_entry_id gid = gid AND ENTRY_ID_MASK"

text \<open>The SQL function \<open>_graphid(label_id, entry_id)\<close>; \<open>None\<close> is a null argument.\<close>

definition sql_graphid :: "int32 option \<Rightarrow> int64 option \<Rightarrow> graphid result" where
  "sql_graphid l e =
     (case (l, e) of
        (Some label_id, Some entry_id) \<Rightarrow> make_graphid label_id entry_id
      | _ \<Rightarrow> Inl (Ereport ''label_id and entry_id must not be null''))"

subsection \<open>Text input and output\<close>

text \<open>\<open>strtol(str, \<dots>, 10)\<close> of the C library with a 64-bit \<open>long\<close>: white space, an optional
  sign, digits. The result is the value, whether \<open>errno\<close> was set to \<open>ERANGE\<close>, and the text
  \<open>endptr\<close> points at, which is the whole input when there are no digits.\<close>

definition isspace :: "char \<Rightarrow> bool" where
  "isspace c \<longleftrightarrow> of_char c = (32 :: nat) \<or> (9 \<le> (of_char c :: nat) \<and> (of_char c :: nat) \<le> 13)"

definition isdigit :: "char \<Rightarrow> bool" where
  "isdigit c \<longleftrightarrow> 48 \<le> (of_char c :: nat) \<and> (of_char c :: nat) \<le> 57"

definition digits_value :: "string \<Rightarrow> int" where
  "digits_value ds = foldl (\<lambda>acc c. acc * 10 + int (of_char c - 48)) 0 ds"

definition strtol :: "string \<Rightarrow> int \<times> bool \<times> string" where
  "strtol str =
     (let s = dropWhile isspace str;
          neg = (case s of [] \<Rightarrow> False | c # _ \<Rightarrow> c = CHR ''-'');
          s1 = (case s of [] \<Rightarrow> [] | c # cs \<Rightarrow> if c = CHR ''-'' \<or> c = CHR ''+'' then cs else s);
          ds = takeWhile isdigit s1;
          v = (if neg then - digits_value ds else digits_value ds)
      in if ds = [] then (0, False, str)
         else if v > 2 ^ 63 - 1 then (2 ^ 63 - 1, True, dropWhile isdigit s1)
         else if v < - (2 ^ 63) then (- (2 ^ 63), True, dropWhile isdigit s1)
         else (v, False, dropWhile isdigit s1))"

definition graphid_in :: "string \<Rightarrow> graphid result" where
  "graphid_in str =
     (let (i, erange, endptr) = strtol str
      in if erange \<or> length endptr = length str \<or> endptr \<noteq> []
         then Inl (Ereport ''invalid value for type graphid'')
         else Inr (word_of_int i))"

text \<open>\<open>pg_lltoa\<close> belongs to PostgreSQL and is a parameter.\<close>

definition graphid_out :: "(int64 \<Rightarrow> string) \<Rightarrow> graphid \<Rightarrow> string" where
  "graphid_out pg_lltoa gid = pg_lltoa gid"

subsection \<open>Comparison and hash\<close>

definition graphid_eq :: "graphid \<Rightarrow> graphid \<Rightarrow> bool" where "graphid_eq l r \<longleftrightarrow> l = r"
definition graphid_ne :: "graphid \<Rightarrow> graphid \<Rightarrow> bool" where "graphid_ne l r \<longleftrightarrow> l \<noteq> r"
definition graphid_lt :: "graphid \<Rightarrow> graphid \<Rightarrow> bool" where "graphid_lt l r \<longleftrightarrow> sint l < sint r"
definition graphid_gt :: "graphid \<Rightarrow> graphid \<Rightarrow> bool" where "graphid_gt l r \<longleftrightarrow> sint l > sint r"
definition graphid_le :: "graphid \<Rightarrow> graphid \<Rightarrow> bool" where "graphid_le l r \<longleftrightarrow> sint l \<le> sint r"
definition graphid_ge :: "graphid \<Rightarrow> graphid \<Rightarrow> bool" where "graphid_ge l r \<longleftrightarrow> sint l \<ge> sint r"

definition graphid_btree_cmp :: "graphid \<Rightarrow> graphid \<Rightarrow> int" where
  "graphid_btree_cmp lgid rgid =
     (if graphid_gt lgid rgid then 1 else if graphid_eq lgid rgid then 0 else -1)"

definition graphid_btree_fast_cmp :: "graphid \<Rightarrow> graphid \<Rightarrow> int" where
  "graphid_btree_fast_cmp lgid rgid =
     (if graphid_gt lgid rgid then 1 else if graphid_eq lgid rgid then 0 else -1)"

definition graphid_hash_cmp :: "graphid \<Rightarrow> int32" where
  "graphid_hash_cmp l = ucast (signed_drop_bit 32 l XOR l)"

subsection \<open>The OID cache\<close>

text \<open>The statics of \<open>graphid.c\<close>. The syscache lookups of the type names \<open>graphid\<close> and
  \<open>_graphid\<close> are parameters: the OIDs the catalog holds at the time of the call.\<close>

type_synonym Oid = nat

definition InvalidOid :: Oid where "InvalidOid = 0"

record graphid_oid_cache =
  g_GRAPHIDOID :: Oid
  g_GRAPHIDARRAYOID :: Oid
  graphid_oid_callback_registered :: bool

record type_catalog =
  cat_graphid :: Oid
  cat_graphid_array :: Oid

definition initialize_graphid_oid_cache :: "graphid_oid_cache \<Rightarrow> graphid_oid_cache" where
  "initialize_graphid_oid_cache st =
     (if graphid_oid_callback_registered st then st
      else st\<lparr>graphid_oid_callback_registered := True\<rparr>)"

definition clear_global_Oids_GRAPHID :: "graphid_oid_cache \<Rightarrow> graphid_oid_cache" where
  "clear_global_Oids_GRAPHID st =
     st\<lparr>g_GRAPHIDOID := InvalidOid, g_GRAPHIDARRAYOID := InvalidOid\<rparr>"

definition invalidate_graphid_oid_cache :: "graphid_oid_cache \<Rightarrow> graphid_oid_cache" where
  "invalidate_graphid_oid_cache st = clear_global_Oids_GRAPHID st"

definition get_GRAPHIDOID :: "type_catalog \<Rightarrow> graphid_oid_cache \<Rightarrow> Oid \<times> graphid_oid_cache" where
  "get_GRAPHIDOID cat st0 =
     (let st = initialize_graphid_oid_cache st0;
          st' = (if g_GRAPHIDOID st = InvalidOid then st\<lparr>g_GRAPHIDOID := cat_graphid cat\<rparr> else st)
      in (g_GRAPHIDOID st', st'))"

definition get_GRAPHIDARRAYOID ::
    "type_catalog \<Rightarrow> graphid_oid_cache \<Rightarrow> Oid \<times> graphid_oid_cache" where
  "get_GRAPHIDARRAYOID cat st0 =
     (let st = initialize_graphid_oid_cache st0;
          st' = (if g_GRAPHIDARRAYOID st = InvalidOid
                 then st\<lparr>g_GRAPHIDARRAYOID := cat_graphid_array cat\<rparr> else st)
      in (g_GRAPHIDARRAYOID st', st'))"

definition initial_graphid_oid_cache :: graphid_oid_cache where
  "initial_graphid_oid_cache =
     \<lparr>g_GRAPHIDOID = InvalidOid, g_GRAPHIDARRAYOID = InvalidOid,
      graphid_oid_callback_registered = False\<rparr>"

text \<open>A backend's history: accessor calls interleaved with catalog changes. A change of the
  catalog calls the callback when it is registered, as \<open>CacheRegisterSyscacheCallback\<close>
  promises.\<close>

inductive oid_step ::
    "type_catalog \<times> graphid_oid_cache \<Rightarrow> type_catalog \<times> graphid_oid_cache \<Rightarrow> bool" where
  get: "oid_step (cat, st) (cat, snd (get_GRAPHIDOID cat st))"
| get_array: "oid_step (cat, st) (cat, snd (get_GRAPHIDARRAYOID cat st))"
| clear: "oid_step (cat, st) (cat, clear_global_Oids_GRAPHID st)"
| catalog_change:
    "oid_step (cat, st)
       (cat', if graphid_oid_callback_registered st then invalidate_graphid_oid_cache st else st)"

inductive oid_reachable :: "type_catalog \<times> graphid_oid_cache \<Rightarrow> bool" where
  start: "oid_reachable (cat, initial_graphid_oid_cache)"
| step: "oid_reachable s \<Longrightarrow> oid_step s t \<Longrightarrow> oid_reachable t"

inductive_cases oid_stepE: "oid_step s t"

subsection \<open>Lemmas on the layout\<close>

lemmas graphid_consts =
  LABEL_ID_MIN_def LABEL_ID_MAX_def ENTRY_ID_MIN_def ENTRY_ID_MAX_def
  ENTRY_ID_BITS_def ENTRY_ID_MASK_def

lemma ENTRY_ID_MASK_mask: "ENTRY_ID_MASK = mask 48"
  by (simp add: ENTRY_ID_MASK_def mask_eq_exp_minus_1)

lemma valid_label_unat: "label_id_is_valid l \<longleftrightarrow> 1 \<le> unat l \<and> unat l < 2 ^ 16"
  using unsigned_less [of l, where 'a = nat]
  by (auto simp: label_id_is_valid_def graphid_consts sint_word32 simp del: of_nat_unat)

lemma valid_entry_unat: "entry_id_is_valid e \<longleftrightarrow> unat e < 2 ^ 48"
  using unsigned_less [of e, where 'a = nat]
  by (auto simp: entry_id_is_valid_def graphid_consts sint_word64 simp del: of_nat_unat)

lemma make_graphid_ok:
  assumes l: "label_id_is_valid l" and e: "entry_id_is_valid e"
  shows "\<exists>g. make_graphid l e = Inr g \<and> unat g = unat l * 2 ^ 48 + unat e"
proof -
  let ?hi = "push_bit ENTRY_ID_BITS (scast l :: uint64)"
  let ?lo = "e AND ENTRY_ID_MASK"
  have ul: "unat l < 2 ^ 16" and ue: "unat e < 2 ^ 48"
    using l e by (simp_all add: valid_label_unat valid_entry_unat)
  have sc: "(scast l :: uint64) = of_nat (unat l)"
    by (rule scast_32_64_nonneg) (use ul in simp)
  have uhi: "unat ?hi = unat l * 2 ^ 48"
  proof -
    have "unat ?hi = unat (of_nat (unat l * 2 ^ 48) :: uint64)"
      by (simp add: sc push_bit_eq_mult ENTRY_ID_BITS_def mult.commute)
    also have "\<dots> = unat l * 2 ^ 48"
      using ul by (subst unat_of_nat) (simp add: take_bit_nat_eq_self)
    finally show ?thesis .
  qed
  have lo: "?lo = e"
    using ue by (simp add: ENTRY_ID_MASK_mask word_unat_eq_iff unsigned_take_bit_eq
        take_bit_nat_eq_self del: unsigned_take_bit_eq [symmetric] flip: take_bit_eq_mask)
  have "?hi AND ?lo = 0"
    by (rule bit_eqI) (auto simp: bit_simps ENTRY_ID_MASK_mask ENTRY_ID_BITS_def)
  then have "unat (?hi OR ?lo) = unat (?hi + ?lo)"
    by (simp add: disjunctive_add_eq_or)
  also have "\<dots> = unat l * 2 ^ 48 + unat e"
    using ul ue by (subst unat_plus_if') (simp add: uhi lo)
  finally show ?thesis using l e by (auto simp: make_graphid_def)
qed

lemma unat_get_graphid_label_id: "unat (get_graphid_label_id g) = unat g div 2 ^ 48"
proof -
  have "unat g < 2 ^ 64" using unsigned_less [of g, where 'a = nat] by simp
  then have "unat g div 2 ^ 48 < 2 ^ 16" by simp
  then show ?thesis
    by (simp only: get_graphid_label_id_def ENTRY_ID_BITS_def unsigned_ucast_eq unat_drop_bit_eq)
       (simp add: take_bit_nat_eq_self drop_bit_eq_div)
qed

lemma unat_get_graphid_entry_id: "unat (get_graphid_entry_id g) = unat g mod 2 ^ 48"
proof -
  have "get_graphid_entry_id g = take_bit 48 g"
    by (simp only: get_graphid_entry_id_def ENTRY_ID_MASK_mask take_bit_eq_mask)
  then have "unat (get_graphid_entry_id g) = take_bit 48 (unat g)"
    by (simp only: unsigned_take_bit_eq)
  then show ?thesis by (simp only: take_bit_eq_mod)
qed

lemma graphid_parts: "unat g = unat (get_graphid_label_id g) * 2 ^ 48 + unat (get_graphid_entry_id g)"
  unfolding unat_get_graphid_label_id unat_get_graphid_entry_id by simp

lemma make_graphid_eq_Inr:
  "make_graphid l e = Inr g \<longleftrightarrow>
     label_id_is_valid l \<and> entry_id_is_valid e \<and> unat g = unat l * 2 ^ 48 + unat e"
proof
  assume "make_graphid l e = Inr g"
  then show "label_id_is_valid l \<and> entry_id_is_valid e \<and> unat g = unat l * 2 ^ 48 + unat e"
    using make_graphid_ok [of l e] by (auto simp: make_graphid_def split: if_splits)
next
  assume *: "label_id_is_valid l \<and> entry_id_is_valid e \<and> unat g = unat l * 2 ^ 48 + unat e"
  then obtain g' where "make_graphid l e = Inr g'" "unat g' = unat l * 2 ^ 48 + unat e"
    using make_graphid_ok by blast
  with * show "make_graphid l e = Inr g" by (simp add: word_unat_eq_iff)
qed

subsection \<open>Lemmas on the text form\<close>

text \<open>The decimal representation of an integer, which \<open>pg_lltoa\<close> is documented to write.\<close>

fun dec_nat :: "nat \<Rightarrow> string" where
  "dec_nat n = (if n < 10 then [char_of (48 + n)] else dec_nat (n div 10) @ [char_of (48 + n mod 10)])"

declare dec_nat.simps [simp del]

definition dec_int :: "int \<Rightarrow> string" where
  "dec_int i = (if i < 0 then CHR ''-'' # dec_nat (nat (- i)) else dec_nat (nat i))"

definition lltoa_spec :: "(int64 \<Rightarrow> string) \<Rightarrow> bool" where
  "lltoa_spec f \<longleftrightarrow> (\<forall>w. f w = dec_int (sint w))"

lemma isdigit_char_of: "d < 10 \<Longrightarrow> isdigit (char_of (48 + d :: nat))"
  by (simp add: isdigit_def of_char_of)

lemma isdigit_not_sign: "isdigit c \<Longrightarrow> \<not> isspace c \<and> c \<noteq> CHR ''-'' \<and> c \<noteq> CHR ''+''"
  by (auto simp: isdigit_def isspace_def)

lemma dec_nat_digits: "list_all isdigit (dec_nat n)"
proof (induction n rule: dec_nat.induct)
  case (1 n)
  then show ?case
    by (subst dec_nat.simps) (auto intro: isdigit_char_of)
qed

lemma dec_nat_nonempty: "dec_nat n \<noteq> []"
  by (subst dec_nat.simps) simp

lemma digits_value_dec_nat: "digits_value (dec_nat n) = int n"
proof (induction n rule: dec_nat.induct)
  case (1 n)
  show ?case
  proof (cases "n < 10")
    case True
    then show ?thesis
      by (subst dec_nat.simps) (simp add: digits_value_def of_char_of)
  next
    case False
    have "digits_value (dec_nat n) = digits_value (dec_nat (n div 10)) * 10 + int (n mod 10)"
      using False by (subst dec_nat.simps) (simp add: digits_value_def of_char_of)
    moreover have "int (n div 10) * 10 + int (n mod 10) = int n"
      by (simp add: zdiv_int zmod_int)
    ultimately show ?thesis using False 1 by simp
  qed
qed

lemma dec_nat_scan:
  "takeWhile isdigit (dec_nat n) = dec_nat n" "dropWhile isdigit (dec_nat n) = []"
  using dec_nat_digits by (auto simp: list_all_iff takeWhile_eq_all_conv dropWhile_eq_Nil_conv)

lemma dec_nat_hd: "\<exists>c cs. dec_nat n = c # cs \<and> isdigit c"
  using dec_nat_digits [of n] dec_nat_nonempty [of n] by (cases "dec_nat n") auto

lemma strtol_dec_int:
  assumes "- (2 ^ 63) \<le> i" "i < 2 ^ 63"
  shows "strtol (dec_int i) = (i, False, [])"
proof -
  obtain c cs where c: "dec_nat (nat (if i < 0 then - i else i)) = c # cs" "isdigit c"
    using dec_nat_hd by blast
  have sp: "dropWhile isspace (dec_int i) = dec_int i"
    using c isdigit_not_sign [OF c(2)] by (auto simp: dec_int_def isspace_def)
  show ?thesis
  proof (cases "i < 0")
    case True
    then show ?thesis
      using assms sp unfolding strtol_def
      by (simp add: dec_int_def Let_def dec_nat_scan dec_nat_nonempty digits_value_dec_nat)
  next
    case False
    then have eq: "dec_nat (nat i) = c # cs" "dec_int i = c # cs" using c by (simp_all add: dec_int_def)
    have scan: "takeWhile isdigit cs = cs" "dropWhile isdigit cs = []"
      using dec_nat_digits [of "nat i"] eq by (auto simp: list_all_iff)
    have "digits_value (c # cs) = i"
      using digits_value_dec_nat [of "nat i"] eq False by simp
    then show ?thesis
      using assms sp eq c(2) isdigit_not_sign [OF c(2)] unfolding strtol_def
      by (simp add: Let_def scan)
  qed
qed

lemma graphid_in_dec_int:
  assumes "- (2 ^ 63) \<le> i" "i < 2 ^ 63"
  shows "graphid_in (dec_int i) = Inr (word_of_int i)"
  using strtol_dec_int [OF assms] dec_nat_nonempty
  by (simp add: graphid_in_def dec_int_def split: if_splits)

subsection \<open>Lemmas on the order\<close>

lemma sint_graphid_low_label:
  assumes "unat (get_graphid_label_id g) < 2 ^ 15"
  shows "sint g = int (unat (get_graphid_label_id g)) * 2 ^ 48 + int (unat (get_graphid_entry_id g))"
proof -
  have "unat (get_graphid_entry_id g) < 2 ^ 48"
    by (simp add: unat_get_graphid_entry_id)
  then have "unat g < 2 ^ 63" using assms graphid_parts [of g] by simp
  then have "sint g = int (unat g)" by (simp only: sint_word64 if_True)
  then show ?thesis by (subst (asm) graphid_parts) (simp del: of_nat_unat)
qed

lemma lex_pack_less:
  fixes l1 e1 l2 e2 :: nat
  assumes "e1 < k" "e2 < k"
  shows "l1 * k + e1 < l2 * k + e2 \<longleftrightarrow> l1 < l2 \<or> (l1 = l2 \<and> e1 < e2)"
proof -
  have aux: "a < b \<Longrightarrow> x < k \<Longrightarrow> a * k + x < b * k + y" for a b x y :: nat
  proof -
    assume "a < b" "x < k"
    then have "a * k + x < Suc a * k" by simp
    also have "\<dots> \<le> b * k" using \<open>a < b\<close> by (intro mult_le_mono1) simp
    finally show "a * k + x < b * k + y" by simp
  qed
  show ?thesis
    using assms aux [of l1 l2 e1 e2] aux [of l2 l1 e2 e1]
    by (cases l1 l2 rule: linorder_cases) auto
qed

subsection \<open>Lemmas on the OID cache\<close>

definition oid_cache_ok :: "type_catalog \<times> graphid_oid_cache \<Rightarrow> bool" where
  "oid_cache_ok s \<longleftrightarrow>
     (let (cat, st) = s in
       (g_GRAPHIDOID st \<noteq> InvalidOid \<longrightarrow>
          graphid_oid_callback_registered st \<and> g_GRAPHIDOID st = cat_graphid cat) \<and>
       (g_GRAPHIDARRAYOID st \<noteq> InvalidOid \<longrightarrow>
          graphid_oid_callback_registered st \<and> g_GRAPHIDARRAYOID st = cat_graphid_array cat))"

lemmas oid_cache_defs =
  oid_cache_ok_def get_GRAPHIDOID_def get_GRAPHIDARRAYOID_def clear_global_Oids_GRAPHID_def
  invalidate_graphid_oid_cache_def initialize_graphid_oid_cache_def initial_graphid_oid_cache_def

lemma oid_step_ok: "oid_step s t \<Longrightarrow> oid_cache_ok s \<Longrightarrow> oid_cache_ok t"
  by (erule oid_stepE) (auto simp: oid_cache_defs Let_def)

lemma oid_reachable_ok: "oid_reachable s \<Longrightarrow> oid_cache_ok s"
proof (induction rule: oid_reachable.induct)
  case (start cat)
  show ?case by (simp add: oid_cache_defs)
next
  case (step s t)
  then show ?case by (blast intro: oid_step_ok)
qed

subsection \<open>Properties\<close>

text \<open>C1: a label id and an entry id in range survive packing into a graphid, and packing is
  the only way to get that graphid from valid parts (packing is injective).\<close>

theorem graphid_pack_roundtrip:
  assumes "label_id_is_valid l" "entry_id_is_valid e"
  shows "\<exists>g. make_graphid l e = Inr g \<and> get_graphid_label_id g = l \<and> get_graphid_entry_id g = e \<and>
           (\<forall>l' e'. make_graphid l' e' = Inr g \<longrightarrow> l' = l \<and> e' = e)"
proof -
  obtain g where g: "make_graphid l e = Inr g" "unat g = unat l * 2 ^ 48 + unat e"
    using make_graphid_ok [OF assms] by blast
  have parts: "get_graphid_label_id g' = l' \<and> get_graphid_entry_id g' = e'"
    if "make_graphid l' e' = Inr g'" for l' e' g'
  proof -
    from that have u: "unat g' = unat l' * 2 ^ 48 + unat e'" and e': "unat e' < 2 ^ 48"
      by (simp_all add: make_graphid_eq_Inr valid_entry_unat)
    show ?thesis
      using e' by (simp add: word_unat_eq_iff unat_get_graphid_label_id unat_get_graphid_entry_id u)
  qed
  show ?thesis using g(1) parts by blast
qed

theorem graphid_pack_roundtrip_witness:
  "label_id_is_valid 3 \<and> entry_id_is_valid 7 \<and>
   (\<exists>g. make_graphid 3 7 = Inr g \<and> get_graphid_label_id g = 3 \<and> get_graphid_entry_id g = 7 \<and>
           (\<forall>l' e'. make_graphid l' e' = Inr g \<longrightarrow> l' = 3 \<and> e' = 7))"
proof -
  have h: "label_id_is_valid 3" "entry_id_is_valid 7"
    by (simp_all add: label_id_is_valid_def entry_id_is_valid_def graphid_consts)
  show ?thesis using h graphid_pack_roundtrip [OF h] by blast
qed

text \<open>C2: the text form of every graphid reads back as that graphid.\<close>

theorem graphid_text_roundtrip:
  assumes "lltoa_spec pg_lltoa"
  shows "graphid_in (graphid_out pg_lltoa g) = Inr g"
proof -
  have "- (2 ^ 63) \<le> sint g" "sint g < 2 ^ 63"
    using sint_ge [of g] sint_lt [of g] by simp_all
  then have "graphid_in (dec_int (sint g)) = Inr (word_of_int (sint g))"
    by (rule graphid_in_dec_int)
  with assms show ?thesis by (simp add: graphid_out_def lltoa_spec_def)
qed

theorem graphid_text_roundtrip_witness:
  "lltoa_spec (\<lambda>w. dec_int (sint w)) \<and>
   graphid_in (graphid_out (\<lambda>w. dec_int (sint w)) 844424930131970) = Inr 844424930131970"
proof -
  have h: "lltoa_spec (\<lambda>w. dec_int (sint w))" by (simp add: lltoa_spec_def)
  show ?thesis using h graphid_text_roundtrip [OF h] by blast
qed

text \<open>For label ids below 32768 the B-tree order of graphids is the lexicographic order of
  label id and entry id, so all entities of a label are contiguous in an index.\<close>

theorem graphid_btree_lex:
  assumes "unat (get_graphid_label_id a) < 2 ^ 15" "unat (get_graphid_label_id b) < 2 ^ 15"
  shows "graphid_btree_cmp a b =
    (if get_graphid_label_id a \<noteq> get_graphid_label_id b
     then if get_graphid_label_id a < get_graphid_label_id b then -1 else 1
     else if get_graphid_entry_id a < get_graphid_entry_id b then -1
     else if get_graphid_entry_id a = get_graphid_entry_id b then 0 else 1)"
proof -
  let ?l = "\<lambda>g. unat (get_graphid_label_id g)" and ?e = "\<lambda>g. unat (get_graphid_entry_id g)"
  have e: "?e g < 2 ^ 48" for g by (simp add: unat_get_graphid_entry_id)
  have s: "sint x < sint y \<longleftrightarrow> ?l x < ?l y \<or> (?l x = ?l y \<and> ?e x < ?e y)"
    if "?l x < 2 ^ 15" "?l y < 2 ^ 15" for x y :: graphid
  proof -
    have "sint x < sint y \<longleftrightarrow> int (?l x * 2 ^ 48 + ?e x) < int (?l y * 2 ^ 48 + ?e y)"
      using that by (simp only: sint_graphid_low_label of_nat_add of_nat_mult of_nat_power of_nat_numeral)
    then show ?thesis by (simp only: of_nat_less_iff lex_pack_less [OF e e])
  qed
  have eq: "a = b \<longleftrightarrow> ?l a = ?l b \<and> ?e a = ?e b"
    using graphid_parts [of a] graphid_parts [of b] by (metis word_unat_eq_iff)
  show ?thesis
    using s [OF assms] s [OF assms(2) assms(1)] eq
    by (auto simp: graphid_btree_cmp_def graphid_gt_def graphid_eq_def word_unat_eq_iff word_less_nat_alt)
qed

theorem graphid_btree_lex_witness:
  "unat (get_graphid_label_id 844424930131970) < 2 ^ 15 \<and>
   unat (get_graphid_label_id 1125899906842625) < 2 ^ 15 \<and>
   graphid_btree_cmp 844424930131970 1125899906842625 = -1"
proof -
  have h: "unat (get_graphid_label_id 844424930131970) < 2 ^ 15"
    "unat (get_graphid_label_id 1125899906842625) < 2 ^ 15"
    by (simp_all add: unat_get_graphid_label_id)
  have "get_graphid_label_id 844424930131970 < get_graphid_label_id 1125899906842625"
    by (simp add: word_less_nat_alt unat_get_graphid_label_id)
  then show ?thesis using h graphid_btree_lex [OF h] by auto
qed

text \<open>C4: whatever calls and catalog changes a backend has seen, the OID accessor returns the
  OID the catalog holds now; a stale OID is never served.\<close>

theorem graphid_oid_never_stale:
  assumes "oid_reachable (cat, st)"
  shows "fst (get_GRAPHIDOID cat st) = cat_graphid cat \<and>
         fst (get_GRAPHIDARRAYOID cat st) = cat_graphid_array cat"
  using oid_reachable_ok [OF assms] by (auto simp: oid_cache_defs Let_def)

theorem graphid_oid_never_stale_witness:
  "oid_reachable (\<lparr>cat_graphid = 7, cat_graphid_array = 8\<rparr>, initial_graphid_oid_cache) \<and>
   fst (get_GRAPHIDOID \<lparr>cat_graphid = 7, cat_graphid_array = 8\<rparr> initial_graphid_oid_cache) = 7"
proof -
  have h: "oid_reachable (\<lparr>cat_graphid = 7, cat_graphid_array = 8\<rparr>, initial_graphid_oid_cache)"
    by (rule oid_reachable.start)
  show ?thesis using h graphid_oid_never_stale [OF h] by simp
qed

end
