(* ===== verification/Graphid_DS.thy ===== *)
theory Graphid_DS
  imports Graphid
begin

text \<open>
  The graphid containers of \<open>src/backend/utils/adt/age_graphid_ds.c\<close>: the linked
  \<open>ListGraphId\<close> (adjacency lists and stacks, over an explicit heap of \<open>GraphIdNode\<close> cells) and
  the array-based \<open>GraphIdStack\<close> of the VLE depth-first search. The stack contract both
  promise is the locale \<open>lifo_stack\<close>; both implementations interpret it.
\<close>

subsection \<open>The stack contract\<close>

primrec push_all :: "('s \<Rightarrow> 'a \<Rightarrow> 's result) \<Rightarrow> 's \<Rightarrow> 'a list \<Rightarrow> 's result" where
  "push_all push s [] = Inr s"
| "push_all push s (x # xs) = bindE (push s x) (\<lambda>s'. push_all push s' xs)"

primrec pop_n :: "('s \<Rightarrow> ('a \<times> 's) result) \<Rightarrow> nat \<Rightarrow> 's \<Rightarrow> ('a list \<times> 's) result" where
  "pop_n pop 0 s = Inr ([], s)"
| "pop_n pop (Suc n) s =
     bindE (pop s) (\<lambda>(x, s'). bindE (pop_n pop n s') (\<lambda>(xs, s''). Inr (x # xs, s'')))"

locale lifo_stack =
  fixes rep :: "'s \<Rightarrow> 'a list \<Rightarrow> bool"
    and push :: "'s \<Rightarrow> 'a \<Rightarrow> 's result"
    and pop :: "'s \<Rightarrow> ('a \<times> 's) result"
    and size_of :: "'s \<Rightarrow> int"
  assumes push_rep: "rep s xs \<Longrightarrow> \<exists>s'. push s x = Inr s' \<and> rep s' (x # xs)"
    and pop_rep: "rep s (x # xs) \<Longrightarrow> \<exists>s'. pop s = Inr (x, s') \<and> rep s' xs"
    and size_rep: "rep s xs \<Longrightarrow> size_of s = int (length xs)"
begin

lemma push_all_rep: "rep s zs \<Longrightarrow> \<exists>s'. push_all push s xs = Inr s' \<and> rep s' (rev xs @ zs)"
proof (induction xs arbitrary: s zs)
  case Nil
  then show ?case by simp
next
  case (Cons x xs)
  from push_rep [OF Cons.prems] obtain s1 where "push s x = Inr s1" "rep s1 (x # zs)" by blast
  with Cons.IH show ?case by fastforce
qed

lemma pop_n_rep: "rep s (xs @ zs) \<Longrightarrow> \<exists>s'. pop_n pop (length xs) s = Inr (xs, s') \<and> rep s' zs"
proof (induction xs arbitrary: s)
  case Nil
  then show ?case by simp
next
  case (Cons x xs)
  from pop_rep Cons.prems obtain s1 where "pop s = Inr (x, s1)" "rep s1 (xs @ zs)"
    by fastforce
  with Cons.IH show ?case by fastforce
qed

lemma push_all_pop_n:
  assumes "rep s zs"
  shows "\<exists>s' s''. push_all push s xs = Inr s' \<and> size_of s' = int (length xs + length zs) \<and>
           pop_n pop (length xs) s' = Inr (rev xs, s'') \<and> rep s'' zs"
proof -
  from push_all_rep [OF assms] obtain s' where s': "push_all push s xs = Inr s'" "rep s' (rev xs @ zs)"
    by blast
  moreover from pop_n_rep [OF s'(2)] obtain s'' where
    "pop_n pop (length xs) s' = Inr (rev xs, s'')" "rep s'' zs" by auto
  moreover have "size_of s' = int (length xs + length zs)" using size_rep [OF s'(2)] by simp
  ultimately show ?thesis by blast
qed

end

subsection \<open>The linked list: cells and heap\<close>

record GraphIdNode =
  node_id :: graphid
  node_next :: "nat option"

record ListGraphId =
  lg_head :: "nat option"
  lg_tail :: "nat option"
  lg_size :: int

text \<open>The cells allocated with \<open>palloc\<close>; \<open>brk\<close> is above every address handed out. A pointer
  is \<open>None\<close> for \<open>NULL\<close>.\<close>

record node_heap =
  cells :: "nat \<rightharpoonup> GraphIdNode"
  brk :: nat

definition palloc_node :: "node_heap \<Rightarrow> GraphIdNode \<Rightarrow> nat \<times> node_heap" where
  "palloc_node h n = (brk h, h\<lparr>cells := (cells h)(brk h \<mapsto> n), brk := Suc (brk h)\<rparr>)"

definition deref :: "node_heap \<Rightarrow> nat option \<Rightarrow> GraphIdNode result" where
  "deref h p = (case p of None \<Rightarrow> Inl BadAccess
     | Some a \<Rightarrow> (case cells h a of None \<Rightarrow> Inl BadAccess | Some n \<Rightarrow> Inr n))"

definition store_next :: "node_heap \<Rightarrow> nat option \<Rightarrow> nat option \<Rightarrow> node_heap result" where
  "store_next h p q = bindE (deref h p) (\<lambda>n.
     Inr (h\<lparr>cells := (cells h)(the p \<mapsto> n\<lparr>node_next := q\<rparr>)\<rparr>))"

definition pfree_node :: "node_heap \<Rightarrow> nat option \<Rightarrow> node_heap result" where
  "pfree_node h p = (case p of None \<Rightarrow> Inr h
     | Some a \<Rightarrow> (case cells h a of None \<Rightarrow> Inl BadAccess
                 | Some _ \<Rightarrow> Inr (h\<lparr>cells := (cells h)(a := None)\<rparr>)))"

subsection \<open>The linked list: operations\<close>

definition next_GraphIdNode :: "node_heap \<Rightarrow> nat option \<Rightarrow> nat option result" where
  "next_GraphIdNode h node = bindE (deref h node) (\<lambda>n. Inr (node_next n))"

definition get_graphid :: "node_heap \<Rightarrow> nat option \<Rightarrow> graphid result" where
  "get_graphid h node = bindE (deref h node) (\<lambda>n. Inr (node_id n))"

definition get_stack_size :: "ListGraphId \<Rightarrow> int" where
  "get_stack_size stack = lg_size stack"

definition peek_stack_head :: "ListGraphId option \<Rightarrow> nat option" where
  "peek_stack_head stack = (case stack of None \<Rightarrow> None | Some s \<Rightarrow> lg_head s)"

definition peek_stack_tail :: "ListGraphId \<Rightarrow> nat option" where
  "peek_stack_tail stack = lg_tail stack"

definition get_list_head :: "ListGraphId \<Rightarrow> nat option" where
  "get_list_head l = lg_head l"

definition get_list_size :: "ListGraphId \<Rightarrow> int" where
  "get_list_size l = lg_size l"

definition append_graphid ::
    "node_heap \<Rightarrow> ListGraphId option \<Rightarrow> graphid \<Rightarrow> (node_heap \<times> ListGraphId) result" where
  "append_graphid h container i =
     (let (new_node, h1) = palloc_node h \<lparr>node_id = i, node_next = None\<rparr> in
      case container of
        None \<Rightarrow> Inr (h1, \<lparr>lg_head = Some new_node, lg_tail = Some new_node, lg_size = 1\<rparr>)
      | Some c \<Rightarrow> bindE (store_next h1 (lg_tail c) (Some new_node)) (\<lambda>h2.
          Inr (h2, c\<lparr>lg_tail := Some new_node, lg_size := lg_size c + 1\<rparr>)))"

text \<open>The loop of \<open>free_ListGraphId\<close>: each round frees one cell, so \<open>brk\<close> rounds are enough
  (\<open>free_nodes_chain\<close> below).\<close>

primrec free_nodes ::
    "nat \<Rightarrow> node_heap \<Rightarrow> nat option \<Rightarrow> int \<Rightarrow> (node_heap \<times> int) result" where
  "free_nodes 0 h cur sz = (if cur = None then Inr (h, sz) else Inl OutOfFuel)"
| "free_nodes (Suc k) h cur sz =
     (if cur = None then Inr (h, sz)
      else bindE (next_GraphIdNode h cur) (\<lambda>next_node.
           bindE (pfree_node h cur) (\<lambda>h'. free_nodes k h' next_node (sz - 1))))"

definition free_ListGraphId :: "node_heap \<Rightarrow> ListGraphId option \<Rightarrow> (node_heap \<times> int) result" where
  "free_ListGraphId h container =
     (case container of None \<Rightarrow> Inr (h, 0)
      | Some c \<Rightarrow> free_nodes (brk h) h (lg_head c) (lg_size c))"

definition new_graphid_stack :: ListGraphId where
  "new_graphid_stack = \<lparr>lg_head = None, lg_tail = None, lg_size = 0\<rparr>"

definition free_graphid_stack ::
    "node_heap \<Rightarrow> ListGraphId option \<Rightarrow> (node_heap \<times> ListGraphId) result" where
  "free_graphid_stack h stack =
     (case stack of None \<Rightarrow> Inl (Ereport ''free_graphid_stack: NULL stack'')
      | Some s \<Rightarrow> bindE (free_nodes (brk h) h (lg_head s) (lg_size s)) (\<lambda>(h', _).
          Inr (h', s\<lparr>lg_head := None, lg_tail := None, lg_size := 0\<rparr>)))"

definition push_graphid_stack ::
    "node_heap \<Rightarrow> ListGraphId option \<Rightarrow> graphid \<Rightarrow> (node_heap \<times> ListGraphId) result" where
  "push_graphid_stack h stack i =
     (case stack of None \<Rightarrow> Inl (Ereport ''push_graphid_stack: NULL stack'')
      | Some s \<Rightarrow>
          (let (new_node, h1) = palloc_node h \<lparr>node_id = i, node_next = lg_head s\<rparr>
           in Inr (h1, s\<lparr>lg_head := Some new_node, lg_size := lg_size s + 1\<rparr>)))"

definition pop_graphid_stack ::
    "node_heap \<Rightarrow> ListGraphId option \<Rightarrow> (graphid \<times> node_heap \<times> ListGraphId) result" where
  "pop_graphid_stack h stack =
     (case stack of None \<Rightarrow> Inl (Ereport ''pop_graphid_stack: NULL stack'')
      | Some s \<Rightarrow>
          if lg_size s \<le> 0 then Inl (Ereport ''pop_graphid_stack: empty stack'')
          else bindE (deref h (lg_head s)) (\<lambda>node.
               bindE (pfree_node h (lg_head s)) (\<lambda>h'.
               Inr (node_id node, h', s\<lparr>lg_head := node_next node, lg_size := lg_size s - 1\<rparr>))))"

subsection \<open>The array stack\<close>

text \<open>The array has \<open>capacity\<close> cells; \<open>None\<close> is a cell never written.\<close>

record GraphIdStack =
  gs_array :: "graphid option list"
  gs_size :: int
  gs_capacity :: int

definition GID_STACK_INITIAL_CAPACITY :: int where "GID_STACK_INITIAL_CAPACITY = 64"

definition new_gid_stack :: GraphIdStack where
  "new_gid_stack =
     \<lparr>gs_array = replicate (nat GID_STACK_INITIAL_CAPACITY) None, gs_size = 0,
      gs_capacity = GID_STACK_INITIAL_CAPACITY\<rparr>"

definition repalloc_array :: "'a option list \<Rightarrow> nat \<Rightarrow> 'a option list" where
  "repalloc_array a n = take n a @ replicate (n - length a) None"

definition array_read :: "'a option list \<Rightarrow> int \<Rightarrow> 'a result" where
  "array_read a i =
     (if 0 \<le> i \<and> i < int (length a)
      then (case a ! nat i of None \<Rightarrow> Inl BadAccess | Some x \<Rightarrow> Inr x) else Inl BadAccess)"

definition array_write :: "'a option list \<Rightarrow> int \<Rightarrow> 'a \<Rightarrow> 'a option list result" where
  "array_write a i x =
     (if 0 \<le> i \<and> i < int (length a) then Inr (a[nat i := Some x]) else Inl BadAccess)"

definition gid_stack_push :: "GraphIdStack \<Rightarrow> graphid \<Rightarrow> GraphIdStack result" where
  "gid_stack_push s i =
     (let s1 = (if gs_size s \<ge> gs_capacity s
                then s\<lparr>gs_capacity := gs_capacity s * 2,
                       gs_array := repalloc_array (gs_array s) (nat (gs_capacity s * 2))\<rparr>
                else s)
      in bindE (array_write (gs_array s1) (gs_size s1) i) (\<lambda>a.
         Inr (s1\<lparr>gs_array := a, gs_size := gs_size s1 + 1\<rparr>)))"

definition gid_stack_pop :: "GraphIdStack \<Rightarrow> (graphid \<times> GraphIdStack) result" where
  "gid_stack_pop s =
     (let s1 = s\<lparr>gs_size := gs_size s - 1\<rparr>
      in bindE (array_read (gs_array s1) (gs_size s1)) (\<lambda>x. Inr (x, s1)))"

definition gid_stack_peek :: "GraphIdStack \<Rightarrow> graphid result" where
  "gid_stack_peek s = array_read (gs_array s) (gs_size s - 1)"

definition gid_stack_is_empty :: "GraphIdStack \<Rightarrow> bool" where
  "gid_stack_is_empty s \<longleftrightarrow> gs_size s = 0"

definition gid_stack_size :: "GraphIdStack \<Rightarrow> int" where
  "gid_stack_size s = gs_size s"

definition gid_stack_get :: "GraphIdStack \<Rightarrow> int \<Rightarrow> graphid result" where
  "gid_stack_get s i = array_read (gs_array s) i"

subsection \<open>Lists in the heap\<close>

text \<open>\<open>chain m p as xs\<close>: from \<open>p\<close> the cells at the addresses \<open>as\<close> are linked in this order
  and hold the ids \<open>xs\<close>; the last one has a null successor.\<close>

fun chain :: "(nat \<rightharpoonup> GraphIdNode) \<Rightarrow> nat option \<Rightarrow> nat list \<Rightarrow> graphid list \<Rightarrow> bool" where
  "chain m p [] [] \<longleftrightarrow> p = None"
| "chain m p (a # as) (x # xs) \<longleftrightarrow>
     p = Some a \<and> (\<exists>n. m a = Some n \<and> node_id n = x \<and> chain m (node_next n) as xs)"
| "chain m p _ _ \<longleftrightarrow> False"

definition heap_ok :: "node_heap \<Rightarrow> bool" where
  "heap_ok h \<longleftrightarrow> (\<forall>a. cells h a \<noteq> None \<longrightarrow> a < brk h)"

definition stack_at :: "node_heap \<Rightarrow> ListGraphId \<Rightarrow> nat list \<Rightarrow> graphid list \<Rightarrow> bool" where
  "stack_at h s as xs \<longleftrightarrow>
     heap_ok h \<and> distinct as \<and> chain (cells h) (lg_head s) as xs \<and> lg_size s = int (length xs)"

definition list_at :: "node_heap \<Rightarrow> ListGraphId \<Rightarrow> nat list \<Rightarrow> graphid list \<Rightarrow> bool" where
  "list_at h l as xs \<longleftrightarrow> stack_at h l as xs \<and> as \<noteq> [] \<and> lg_tail l = Some (last as)"

lemma chain_length: "chain m p as xs \<Longrightarrow> length as = length xs"
  by (induction m p as xs rule: chain.induct) auto

lemma chain_dom: "chain m p as xs \<Longrightarrow> a \<in> set as \<Longrightarrow> m a \<noteq> None"
  by (induction m p as xs rule: chain.induct) auto

lemma chain_cong: "chain m p as xs \<Longrightarrow> (\<And>a. a \<in> set as \<Longrightarrow> m' a = m a) \<Longrightarrow> chain m' p as xs"
  by (induction m p as xs rule: chain.induct) auto

lemma chain_Nil_ids [simp]: "chain m p as [] \<longleftrightarrow> as = [] \<and> p = None"
  by (cases as) auto

lemma chain_Cons_ids:
  "chain m p as (x # xs) \<longleftrightarrow>
     (\<exists>a as' n. as = a # as' \<and> p = Some a \<and> m a = Some n \<and> node_id n = x \<and> chain m (node_next n) as' xs)"
  by (cases as) auto

lemma chain_None [simp]: "chain m None as xs \<longleftrightarrow> as = [] \<and> xs = []"
  by (cases as; cases xs) auto

lemma chain_below: "heap_ok h \<Longrightarrow> chain (cells h) p as xs \<Longrightarrow> set as \<subseteq> {..<brk h}"
  using chain_dom by (fastforce simp: heap_ok_def)

lemma chain_length_brk:
  assumes "heap_ok h" "chain (cells h) p as xs" "distinct as"
  shows "length as \<le> brk h"
proof -
  have "card (set as) \<le> card {..<brk h}"
    by (rule card_mono) (use chain_below [OF assms(1,2)] in auto)
  then show ?thesis using assms(3) by (simp add: distinct_card)
qed

lemma chain_append_cell:
  assumes "chain m p as xs" "distinct as" "as \<noteq> []" "b \<notin> set as"
    and "m (last as) = Some n"
    and "m' = m(b \<mapsto> \<lparr>node_id = x, node_next = None\<rparr>, last as \<mapsto> n\<lparr>node_next := Some b\<rparr>)"
  shows "chain m' p (as @ [b]) (xs @ [x])"
  using assms
proof (induction m p as xs arbitrary: m' rule: chain.induct)
  case (2 m p a as y ys)
  show ?case
  proof (cases "as = []")
    case True
    with 2 show ?thesis by (auto simp: chain_length dest: chain_length)
  next
    case False
    from 2(2) obtain k where k: "p = Some a" "m a = Some k" "node_id k = y"
      "chain m (node_next k) as ys" by auto
    have "chain m' (node_next k) (as @ [b]) (ys @ [x])"
      by (rule 2(1)) (use 2 False k in auto)
    moreover have "m' a = Some k"
      using 2 False k by auto
    ultimately show ?thesis using k by simp
  qed
qed auto

subsection \<open>The linked stack meets the contract\<close>

lemmas node_ops =
  palloc_node_def deref_def store_next_def pfree_node_def next_GraphIdNode_def get_graphid_def

definition linked_stack_rep :: "node_heap \<times> ListGraphId \<Rightarrow> graphid list \<Rightarrow> bool" where
  "linked_stack_rep hs xs \<longleftrightarrow> (\<exists>as. stack_at (fst hs) (snd hs) as xs)"

definition linked_push :: "node_heap \<times> ListGraphId \<Rightarrow> graphid \<Rightarrow> (node_heap \<times> ListGraphId) result" where
  "linked_push hs x = push_graphid_stack (fst hs) (Some (snd hs)) x"

definition linked_pop ::
    "node_heap \<times> ListGraphId \<Rightarrow> (graphid \<times> node_heap \<times> ListGraphId) result" where
  "linked_pop hs = pop_graphid_stack (fst hs) (Some (snd hs))"

lemma push_graphid_stack_at:
  assumes "stack_at h s as xs"
  shows "\<exists>h' s'. push_graphid_stack h (Some s) x = Inr (h', s') \<and>
           stack_at h' s' (brk h # as) (x # xs) \<and> lg_tail s' = lg_tail s \<and>
           (\<forall>a. a \<noteq> brk h \<longrightarrow> cells h' a = cells h a)"
proof -
  from assms have fresh: "brk h \<notin> set as"
    using chain_below [of h "lg_head s" as xs] by (auto simp: stack_at_def)
  have "chain ((cells h)(brk h \<mapsto> \<lparr>node_id = x, node_next = lg_head s\<rparr>)) (lg_head s) as xs"
    by (rule chain_cong [of "cells h"]) (use assms fresh in \<open>auto simp: stack_at_def\<close>)
  then show ?thesis
    using assms fresh
    by (auto simp: push_graphid_stack_def palloc_node_def stack_at_def heap_ok_def less_Suc_eq)
qed

lemma pop_graphid_stack_at:
  assumes "stack_at h s as (x # xs)"
  shows "\<exists>h' s'. pop_graphid_stack h (Some s) = Inr (x, h', s') \<and> stack_at h' s' (tl as) xs \<and>
           cells h' = (cells h)(hd as := None)"
proof -
  from assms obtain a as' n where n: "as = a # as'" "lg_head s = Some a" "cells h a = Some n"
    "node_id n = x" "chain (cells h) (node_next n) as' xs"
    by (auto simp: stack_at_def chain_Cons_ids)
  have "chain ((cells h)(a := None)) (node_next n) as' xs"
    by (rule chain_cong [of "cells h"]) (use assms n in \<open>auto simp: stack_at_def\<close>)
  then show ?thesis
    using assms n by (auto simp: pop_graphid_stack_def node_ops stack_at_def heap_ok_def)
qed

interpretation linked: lifo_stack linked_stack_rep linked_push linked_pop "\<lambda>hs. get_stack_size (snd hs)"
proof
  fix s :: "node_heap \<times> ListGraphId" and xs x
  assume "linked_stack_rep s xs"
  then show "\<exists>s'. linked_push s x = Inr s' \<and> linked_stack_rep s' (x # xs)"
    using push_graphid_stack_at by (fastforce simp: linked_stack_rep_def linked_push_def)
next
  fix s :: "node_heap \<times> ListGraphId" and xs x
  assume "linked_stack_rep s (x # xs)"
  then show "\<exists>s'. linked_pop s = Inr (x, s') \<and> linked_stack_rep s' xs"
    using pop_graphid_stack_at by (fastforce simp: linked_stack_rep_def linked_pop_def)
next
  fix s :: "node_heap \<times> ListGraphId" and xs
  assume "linked_stack_rep s xs"
  then show "get_stack_size (snd s) = int (length xs)"
    by (auto simp: linked_stack_rep_def stack_at_def get_stack_size_def)
qed

subsection \<open>The array stack meets the contract\<close>

definition gid_stack_rep :: "GraphIdStack \<Rightarrow> graphid list \<Rightarrow> bool" where
  "gid_stack_rep s xs \<longleftrightarrow>
     int (length (gs_array s)) = gs_capacity s \<and> 0 < gs_capacity s \<and>
     gs_size s = int (length xs) \<and> length xs \<le> length (gs_array s) \<and>
     take (length xs) (gs_array s) = map Some (rev xs)"

lemma gid_stack_rep_new: "gid_stack_rep new_gid_stack []"
  by (simp add: gid_stack_rep_def new_gid_stack_def GID_STACK_INITIAL_CAPACITY_def)

lemma take_update_snoc: "n < length a \<Longrightarrow> take (Suc n) (a[n := y]) = take n a @ [y]"
  by (simp add: take_Suc_conv_app_nth)

lemma gid_stack_push_rep:
  assumes "gid_stack_rep s xs"
  shows "\<exists>s'. gid_stack_push s x = Inr s' \<and> gid_stack_rep s' (x # xs)"
proof -
  define s1 where "s1 = (if gs_size s \<ge> gs_capacity s
    then s\<lparr>gs_capacity := gs_capacity s * 2,
           gs_array := repalloc_array (gs_array s) (nat (gs_capacity s * 2))\<rparr> else s)"
  have r: "gid_stack_rep s1 xs" and room: "length xs < length (gs_array s1)"
    using assms by (auto simp: gid_stack_rep_def s1_def repalloc_array_def)
  have "gid_stack_push s x =
      Inr (s1\<lparr>gs_array := (gs_array s1)[length xs := Some x], gs_size := gs_size s1 + 1\<rparr>)"
    using r room by (simp add: gid_stack_push_def s1_def [symmetric] array_write_def gid_stack_rep_def)
  moreover have "gid_stack_rep (s1\<lparr>gs_array := (gs_array s1)[length xs := Some x],
      gs_size := gs_size s1 + 1\<rparr>) (x # xs)"
    using r room take_update_snoc [OF room, of "Some x"] by (simp add: gid_stack_rep_def)
  ultimately show ?thesis by blast
qed

lemma gid_stack_nth:
  assumes "gid_stack_rep s xs" "i < length xs"
  shows "gid_stack_get s (int i) = Inr (rev xs ! i)"
proof -
  have "take (length xs) (gs_array s) ! i = map Some (rev xs) ! i"
    using assms(1) by (simp add: gid_stack_rep_def)
  then have "gs_array s ! i = Some (rev xs ! i)"
    using assms(2) by simp
  then show ?thesis
    using assms by (simp add: gid_stack_get_def array_read_def gid_stack_rep_def)
qed

lemma gid_stack_pop_rep:
  assumes "gid_stack_rep s (x # xs)"
  shows "\<exists>s'. gid_stack_pop s = Inr (x, s') \<and> gid_stack_rep s' xs"
proof -
  have "array_read (gs_array s) (int (length xs)) = Inr x"
    using gid_stack_nth [OF assms, of "length xs"] by (simp add: gid_stack_get_def nth_append)
  moreover have "take (length xs) (gs_array s) = map Some (rev xs)"
  proof -
    have "take (length xs) (take (Suc (length xs)) (gs_array s)) =
        take (length xs) (map Some (rev xs) @ [Some x])"
      using assms by (simp add: gid_stack_rep_def)
    then show ?thesis by (simp add: min_def)
  qed
  ultimately show ?thesis using assms by (auto simp: gid_stack_pop_def gid_stack_rep_def)
qed

interpretation gid: lifo_stack gid_stack_rep gid_stack_push gid_stack_pop gid_stack_size
proof
  show "gid_stack_rep s xs \<Longrightarrow> gid_stack_size s = int (length xs)" for s xs
    by (simp add: gid_stack_size_def gid_stack_rep_def)
qed (fact gid_stack_push_rep gid_stack_pop_rep)+

subsection \<open>Properties\<close>



text \<open>The linked stack has the same behaviour over the heap.\<close>

theorem linked_stack_lifo:
  assumes "linked_stack_rep s zs"
  shows "\<exists>s' s''. push_all linked_push s xs = Inr s' \<and>
           get_stack_size (snd s') = int (length xs + length zs) \<and>
           pop_n linked_pop (length xs) s' = Inr (rev xs, s'') \<and> linked_stack_rep s'' zs"
  using assms by (rule linked.push_all_pop_n)

lemma linked_stack_rep_new: "linked_stack_rep (\<lparr>cells = Map.empty, brk = 0\<rparr>, new_graphid_stack) []"
  by (simp add: linked_stack_rep_def stack_at_def heap_ok_def new_graphid_stack_def)

theorem linked_stack_lifo_witness:
  "linked_stack_rep (\<lparr>cells = Map.empty, brk = 0\<rparr>, new_graphid_stack) [] \<and>
   (\<exists>s' s''. push_all linked_push (\<lparr>cells = Map.empty, brk = 0\<rparr>, new_graphid_stack) [4, 5] = Inr s' \<and>
      get_stack_size (snd s') = int (length [4, 5 :: graphid] + length ([] :: graphid list)) \<and>
      pop_n linked_pop (length [4, 5 :: graphid]) s' = Inr (rev [4, 5], s'') \<and>
      linked_stack_rep s'' [])"
  using linked_stack_rep_new linked_stack_lifo [OF linked_stack_rep_new, of "[4, 5]"] by blast

text \<open>Appending to a valid list, or to a null container, adds the id at the end, keeps the
  list valid and leaves every cell of other lists as it was.\<close>

theorem append_graphid_appends:
  assumes "list_at h l as xs"
  shows "\<exists>h' l'. append_graphid h (Some l) i = Inr (h', l') \<and> list_at h' l' (as @ [brk h]) (xs @ [i]) \<and>
           get_list_size l' = int (length xs) + 1 \<and>
           (\<forall>a. a \<notin> set as \<and> a \<noteq> brk h \<longrightarrow> cells h' a = cells h a)"
proof -
  have st: "heap_ok h" "distinct as" "chain (cells h) (lg_head l) as xs" "lg_size l = int (length xs)"
    and tl: "as \<noteq> []" "lg_tail l = Some (last as)"
    using assms by (auto simp: list_at_def stack_at_def)
  have below: "set as \<subseteq> {..<brk h}" using chain_below [OF st(1,3)] .
  then have fresh: "brk h \<notin> set as" by auto
  have "last as \<in> set as" using tl by simp
  then obtain n where n: "cells h (last as) = Some n" using chain_dom [OF st(3)] by fastforce
  have lb: "last as < brk h" "last as \<noteq> brk h" using below \<open>last as \<in> set as\<close> by auto
  let ?m = "(cells h)(brk h \<mapsto> \<lparr>node_id = i, node_next = None\<rparr>, last as \<mapsto> n\<lparr>node_next := Some (brk h)\<rparr>)"
  have "chain ?m (lg_head l) (as @ [brk h]) (xs @ [i])"
    by (rule chain_append_cell [OF st(3,2) tl(1) fresh n refl])
  then show ?thesis
    using st tl lb n fresh
    by (auto simp: append_graphid_def node_ops list_at_def stack_at_def heap_ok_def
        get_list_size_def less_Suc_eq)
qed

lemma append_graphid_null:
  assumes "heap_ok h"
  shows "\<exists>h' l'. append_graphid h None i = Inr (h', l') \<and> list_at h' l' [brk h] [i]"
  using assms by (auto simp: append_graphid_def palloc_node_def list_at_def stack_at_def heap_ok_def
      less_Suc_eq chain_Cons_ids)

theorem append_graphid_appends_witness:
  "list_at \<lparr>cells = [0 \<mapsto> \<lparr>node_id = 9, node_next = None\<rparr>], brk = 1\<rparr>
      \<lparr>lg_head = Some 0, lg_tail = Some 0, lg_size = 1\<rparr> [0] [9] \<and>
   (\<exists>h' l'. append_graphid \<lparr>cells = [0 \<mapsto> \<lparr>node_id = 9, node_next = None\<rparr>], brk = 1\<rparr>
      (Some \<lparr>lg_head = Some 0, lg_tail = Some 0, lg_size = 1\<rparr>) 10 = Inr (h', l') \<and>
      list_at h' l' [0, 1] [9, 10])"
proof -
  have h: "list_at \<lparr>cells = [0 \<mapsto> \<lparr>node_id = 9, node_next = None\<rparr>], brk = 1\<rparr>
      \<lparr>lg_head = Some 0, lg_tail = Some 0, lg_size = 1\<rparr> [0] [9]"
    by (simp add: list_at_def stack_at_def heap_ok_def)
  show ?thesis using h append_graphid_appends [OF h, of 10] by auto
qed

lemma free_nodes_chain:
  assumes "chain (cells h) p as xs" "distinct as" "length as \<le> k"
  shows "free_nodes k h p sz =
    Inr (h\<lparr>cells := (\<lambda>a. if a \<in> set as then None else cells h a)\<rparr>, sz - int (length as))"
  using assms
proof (induction k arbitrary: h p as xs sz)
  case 0
  then show ?case by (cases xs) simp_all
next
  case (Suc k)
  show ?case
  proof (cases as)
    case Nil
    with Suc.prems show ?thesis by (cases xs) simp_all
  next
    case (Cons a as')
    with Suc.prems obtain n x xs' where n: "xs = x # xs'" "p = Some a" "cells h a = Some n"
      "chain (cells h) (node_next n) as' xs'" by (cases xs) auto
    let ?h = "h\<lparr>cells := (cells h)(a := None)\<rparr>"
    have c: "chain (cells ?h) (node_next n) as' xs'"
      by (rule chain_cong [OF n(4)]) (use Suc.prems Cons in auto)
    have "free_nodes (Suc k) h p sz = free_nodes k ?h (node_next n) (sz - 1)"
      using n by (simp add: node_ops)
    also have "\<dots> = Inr (?h\<lparr>cells := (\<lambda>b. if b \<in> set as' then None else cells ?h b)\<rparr>,
        sz - 1 - int (length as'))"
      by (rule Suc.IH [OF c]) (use Suc.prems Cons in auto)
    finally show ?thesis using Cons by (auto simp: fun_eq_iff)
  qed
qed

text \<open>C8: freeing a list releases exactly its own cells, without touching a freed cell, and the
  size counter is zero at the end, as the assertion in the code says.\<close>

theorem free_ListGraphId_exact:
  assumes "stack_at h l as xs"
  shows "free_ListGraphId h (Some l) =
    Inr (h\<lparr>cells := (\<lambda>a. if a \<in> set as then None else cells h a)\<rparr>, 0)"
proof -
  have st: "heap_ok h" "distinct as" "chain (cells h) (lg_head l) as xs" "lg_size l = int (length xs)"
    using assms by (auto simp: stack_at_def)
  show ?thesis
    using free_nodes_chain [OF st(3,2) chain_length_brk [OF st(1,3,2)]] st(4) chain_length [OF st(3)]
    by (simp add: free_ListGraphId_def)
qed

theorem free_ListGraphId_exact_witness:
  "stack_at \<lparr>cells = [0 \<mapsto> \<lparr>node_id = 9, node_next = None\<rparr>, 1 \<mapsto> \<lparr>node_id = 5, node_next = None\<rparr>],
             brk = 2\<rparr> \<lparr>lg_head = Some 0, lg_tail = Some 0, lg_size = 1\<rparr> [0] [9] \<and>
   (\<exists>h'. free_ListGraphId
      \<lparr>cells = [0 \<mapsto> \<lparr>node_id = 9, node_next = None\<rparr>, 1 \<mapsto> \<lparr>node_id = 5, node_next = None\<rparr>],
       brk = 2\<rparr> (Some \<lparr>lg_head = Some 0, lg_tail = Some 0, lg_size = 1\<rparr>) = Inr (h', 0) \<and>
      cells h' 0 = None \<and> cells h' 1 = Some \<lparr>node_id = 5, node_next = None\<rparr>)"
proof -
  have h: "stack_at \<lparr>cells = [0 \<mapsto> \<lparr>node_id = 9, node_next = None\<rparr>, 1 \<mapsto> \<lparr>node_id = 5, node_next = None\<rparr>],
             brk = 2\<rparr> \<lparr>lg_head = Some 0, lg_tail = Some 0, lg_size = 1\<rparr> [0] [9]"
    by (auto simp: stack_at_def heap_ok_def)
  show ?thesis using h free_ListGraphId_exact [OF h] by auto
qed

text \<open>A stack built by pushing on a new stack has no tail: \<open>peek_stack_tail\<close> returns a null
  pointer on it however many ids it holds, and \<open>append_graphid\<close> on it goes through that null
  pointer. The list operations and the stack operations cannot be mixed on one container.\<close>

lemma push_all_linked_tail:
  "push_all linked_push (h, s) xs = Inr (h', s') \<Longrightarrow> lg_tail s' = lg_tail s"
proof (induction xs arbitrary: h s)
  case (Cons x xs)
  obtain h1 s1 where p: "linked_push (h, s) x = Inr (h1, s1)" "lg_tail s1 = lg_tail s"
    by (simp add: linked_push_def push_graphid_stack_def palloc_node_def)
  with Cons.prems have "push_all linked_push (h1, s1) xs = Inr (h', s')" by simp
  with p(2) show ?case using Cons.IH by simp
qed simp

theorem pushed_stack_has_no_tail:
  assumes "push_all linked_push (h, new_graphid_stack) xs = Inr (h', s')"
  shows "peek_stack_tail s' = None \<and> append_graphid h' (Some s') i = Inl BadAccess"
  using push_all_linked_tail [OF assms]
  by (simp add: new_graphid_stack_def peek_stack_tail_def append_graphid_def palloc_node_def
      store_next_def deref_def)

theorem pushed_stack_has_no_tail_witness:
  "\<exists>h' s'. push_all linked_push (\<lparr>cells = Map.empty, brk = 0\<rparr>, new_graphid_stack) [4, 5] = Inr (h', s') \<and>
     get_stack_size s' = 2 \<and> peek_stack_tail s' = None \<and> append_graphid h' (Some s') 6 = Inl BadAccess"
proof -
  obtain h' s' where h: "push_all linked_push (\<lparr>cells = Map.empty, brk = 0\<rparr>, new_graphid_stack) [4, 5] = Inr (h', s')"
    and sz: "get_stack_size s' = 2"
    using linked.push_all_rep [OF linked_stack_rep_new, of "[4, 5]"] linked.size_rep by fastforce
  show ?thesis using h sz pushed_stack_has_no_tail [OF h, of 6] by blast
qed

end
