(* ===== verification/Agtype_Value.thy ===== *)
theory Agtype_Value
  imports Graphid
begin

text \<open>
  The data model of agtype (\<open>src/include/utils/agtype.h\<close>): the in-memory \<open>agtype_value\<close>, the
  32-bit \<open>agtentry\<close> words and container headers of the on-disk form with their masks and
  access macros, the offset arithmetic over an entry array (\<open>get_agtype_offset\<close>,
  \<open>get_agtype_length\<close> of \<open>src/backend/utils/adt/agtype_util.c\<close>), and the PostgreSQL routines
  the agtype code calls, as the parameter record \<open>pg_env\<close>.
\<close>

subsection \<open>In-memory values\<close>

text \<open>Strings are byte strings. A \<open>Numeric\<close> is the byte image of its varlena. A float is its
  IEEE 754 bit pattern. An object, vertex or edge holds key, value and the pair's \<open>order\<close>
  field. \<open>AGTV_BINARY len data\<close> points at a container inside a datum: \<open>data\<close> is the memory
  from there to the end of the datum.\<close>

datatype agtype_value =
    AGTV_NULL
  | AGTV_STRING "byte list"
  | AGTV_NUMERIC "byte list"
  | AGTV_INTEGER int64
  | AGTV_FLOAT uint64
  | AGTV_BOOL bool
  | AGTV_VERTEX "(byte list \<times> agtype_value \<times> nat) list"
  | AGTV_EDGE "(byte list \<times> agtype_value \<times> nat) list"
  | AGTV_PATH "agtype_value list"
  | AGTV_ARRAY bool "agtype_value list"
  | AGTV_OBJECT "(byte list \<times> agtype_value \<times> nat) list"
  | AGTV_BINARY int "byte list"

type_synonym agtype_pair = "byte list \<times> agtype_value \<times> nat"

abbreviation pair_key :: "agtype_pair \<Rightarrow> byte list" where "pair_key p \<equiv> fst p"
abbreviation pair_value :: "agtype_pair \<Rightarrow> agtype_value" where "pair_value p \<equiv> fst (snd p)"
abbreviation pair_order :: "agtype_pair \<Rightarrow> nat" where "pair_order p \<equiv> snd (snd p)"

datatype agtype_value_type =
    Type_NULL | Type_STRING | Type_NUMERIC | Type_INTEGER | Type_FLOAT | Type_BOOL
  | Type_VERTEX | Type_EDGE | Type_PATH | Type_ARRAY | Type_OBJECT | Type_BINARY

fun agtv_type :: "agtype_value \<Rightarrow> agtype_value_type" where
  "agtv_type AGTV_NULL = Type_NULL"
| "agtv_type (AGTV_STRING _) = Type_STRING"
| "agtv_type (AGTV_NUMERIC _) = Type_NUMERIC"
| "agtv_type (AGTV_INTEGER _) = Type_INTEGER"
| "agtv_type (AGTV_FLOAT _) = Type_FLOAT"
| "agtv_type (AGTV_BOOL _) = Type_BOOL"
| "agtv_type (AGTV_VERTEX _) = Type_VERTEX"
| "agtv_type (AGTV_EDGE _) = Type_EDGE"
| "agtv_type (AGTV_PATH _) = Type_PATH"
| "agtv_type (AGTV_ARRAY _ _) = Type_ARRAY"
| "agtv_type (AGTV_OBJECT _) = Type_OBJECT"
| "agtv_type (AGTV_BINARY _ _) = Type_BINARY"

fun IS_A_AGTYPE_SCALAR :: "agtype_value \<Rightarrow> bool" where
  "IS_A_AGTYPE_SCALAR (AGTV_ARRAY _ _) = False"
| "IS_A_AGTYPE_SCALAR (AGTV_OBJECT _) = False"
| "IS_A_AGTYPE_SCALAR (AGTV_BINARY _ _) = False"
| "IS_A_AGTYPE_SCALAR _ = True"

datatype agtype_iterator_token =
    WAGT_DONE | WAGT_KEY | WAGT_VALUE | WAGT_ELEM
  | WAGT_BEGIN_ARRAY | WAGT_END_ARRAY | WAGT_BEGIN_OBJECT | WAGT_END_OBJECT

text \<open>The test \<open>tok < WAGT_BEGIN_ARRAY\<close> on the enumeration.\<close>

fun token_before_begin_array :: "agtype_iterator_token \<Rightarrow> bool" where
  "token_before_begin_array WAGT_DONE = True"
| "token_before_begin_array WAGT_KEY = True"
| "token_before_begin_array WAGT_VALUE = True"
| "token_before_begin_array WAGT_ELEM = True"
| "token_before_begin_array _ = False"

subsection \<open>PostgreSQL routines\<close>

text \<open>
  \<open>pg_varsize\<close> is \<open>VARSIZE\<close> of the varlena a pointer addresses. \<open>pg_qsort_arg cmp xs\<close> is the
  sorted array together with the pairs of elements the comparator was called on (the
  comparator of the object code records through its third argument whether it was ever
  called on equal keys). The other fields are the SQL-callable routines of the same name.
\<close>

record pg_env =
  pg_varsize :: "byte list \<Rightarrow> nat"
  pg_qsort_arg :: "(agtype_pair \<Rightarrow> agtype_pair \<Rightarrow> int) \<Rightarrow> agtype_pair list \<Rightarrow>
                   agtype_pair list \<times> (agtype_pair \<times> agtype_pair) list"
  pg_numeric_cmp :: "byte list \<Rightarrow> byte list \<Rightarrow> int"
  pg_numeric_eq :: "byte list \<Rightarrow> byte list \<Rightarrow> bool"
  pg_varstr_cmp :: "byte list \<Rightarrow> byte list \<Rightarrow> int"
  pg_int8_numeric :: "int64 \<Rightarrow> byte list"
  pg_float8_numeric :: "uint64 \<Rightarrow> byte list result"

text \<open>What the code relies on: the size word of a numeric delimits it wherever it is stored.\<close>

definition numeric_ok :: "pg_env \<Rightarrow> byte list \<Rightarrow> bool" where
  "numeric_ok env n \<longleftrightarrow> (\<forall>rest. pg_varsize env (n @ rest) = length n)"

text \<open>The contract of \<open>qsort_arg\<close> for a comparator that is a strict total order on the
  elements: the result is a permutation, every two neighbours are in order, and the comparator
  was called on every two neighbours.\<close>

definition strict_order_on :: "('a \<Rightarrow> 'a \<Rightarrow> int) \<Rightarrow> 'a set \<Rightarrow> bool" where
  "strict_order_on cmp S \<longleftrightarrow>
     (\<forall>x \<in> S. \<forall>y \<in> S. x \<noteq> y \<longrightarrow> (cmp x y < 0 \<longleftrightarrow> cmp y x > 0) \<and> cmp x y \<noteq> 0) \<and>
     (\<forall>x \<in> S. \<forall>y \<in> S. \<forall>z \<in> S.
        cmp x y < 0 \<longrightarrow> cmp y z < 0 \<longrightarrow> x \<noteq> y \<longrightarrow> y \<noteq> z \<longrightarrow> x \<noteq> z \<and> cmp x z < 0)"

definition qsort_ok ::
    "((agtype_pair \<Rightarrow> agtype_pair \<Rightarrow> int) \<Rightarrow> agtype_pair list \<Rightarrow>
       agtype_pair list \<times> (agtype_pair \<times> agtype_pair) list) \<Rightarrow> bool" where
  "qsort_ok qs \<longleftrightarrow> (\<forall>cmp xs ys calls. qs cmp xs = (ys, calls) \<longrightarrow>
     strict_order_on cmp (set xs) \<longrightarrow> distinct xs \<longrightarrow>
     mset ys = mset xs \<and> sorted_wrt (\<lambda>x y. cmp x y < 0) ys \<and>
     (\<forall>i. Suc i < length ys \<longrightarrow>
        (ys ! i, ys ! Suc i) \<in> set calls \<or> (ys ! Suc i, ys ! i) \<in> set calls))"

lemma strict_order_on_subset: "strict_order_on cmp T \<Longrightarrow> S \<subseteq> T \<Longrightarrow> strict_order_on cmp S"
  unfolding strict_order_on_def subset_iff by blast

lemma strict_order_onD:
  assumes "strict_order_on cmp S" "x \<in> S" "y \<in> S" "x \<noteq> y"
  shows "cmp x y < 0 \<longleftrightarrow> \<not> cmp y x < 0" "cmp x y \<noteq> 0" "cmp x y < 0 \<longleftrightarrow> cmp y x > 0"
proof -
  note c = conjunct1 [OF assms(1) [unfolded strict_order_on_def], rule_format]
  have "(cmp x y < 0 \<longleftrightarrow> cmp y x > 0) \<and> cmp x y \<noteq> 0" by (rule c [OF assms(2-4)])
  moreover have "(cmp y x < 0 \<longleftrightarrow> cmp x y > 0) \<and> cmp y x \<noteq> 0"
    by (rule c [OF assms(3) assms(2) assms(4) [symmetric]])
  ultimately show "cmp x y < 0 \<longleftrightarrow> \<not> cmp y x < 0" "cmp x y \<noteq> 0" "cmp x y < 0 \<longleftrightarrow> cmp y x > 0"
    by linarith+
qed

lemma strict_order_on_trans:
  assumes "strict_order_on cmp S" "x \<in> S" "y \<in> S" "z \<in> S" "cmp x y < 0" "cmp y z < 0" "x \<noteq> y" "y \<noteq> z"
  shows "x \<noteq> z \<and> cmp x z < 0"
  using assms unfolding strict_order_on_def by blast

subsection \<open>Entries and headers\<close>

type_synonym agtentry = uint32

definition AGTENTRY_OFFLENMASK :: uint32 where "AGTENTRY_OFFLENMASK = 0x0FFFFFFF"
definition AGTENTRY_TYPEMASK :: uint32 where "AGTENTRY_TYPEMASK = 0x70000000"
definition AGTENTRY_HAS_OFF :: uint32 where "AGTENTRY_HAS_OFF = 0x80000000"
definition AGTENTRY_IS_STRING :: uint32 where "AGTENTRY_IS_STRING = 0x00000000"
definition AGTENTRY_IS_NUMERIC :: uint32 where "AGTENTRY_IS_NUMERIC = 0x10000000"
definition AGTENTRY_IS_BOOL_FALSE :: uint32 where "AGTENTRY_IS_BOOL_FALSE = 0x20000000"
definition AGTENTRY_IS_BOOL_TRUE :: uint32 where "AGTENTRY_IS_BOOL_TRUE = 0x30000000"
definition AGTENTRY_IS_NULL :: uint32 where "AGTENTRY_IS_NULL = 0x40000000"
definition AGTENTRY_IS_CONTAINER :: uint32 where "AGTENTRY_IS_CONTAINER = 0x50000000"
definition AGTENTRY_IS_AGTYPE :: uint32 where "AGTENTRY_IS_AGTYPE = 0x70000000"

definition AGTE_OFFLENFLD :: "agtentry \<Rightarrow> uint32" where
  "AGTE_OFFLENFLD e = e AND AGTENTRY_OFFLENMASK"
definition AGTE_HAS_OFF :: "agtentry \<Rightarrow> bool" where
  "AGTE_HAS_OFF e \<longleftrightarrow> e AND AGTENTRY_HAS_OFF \<noteq> 0"
definition AGTE_TYPE :: "agtentry \<Rightarrow> uint32" where
  "AGTE_TYPE e = e AND AGTENTRY_TYPEMASK"
definition AGTE_IS_STRING :: "agtentry \<Rightarrow> bool" where
  "AGTE_IS_STRING e \<longleftrightarrow> AGTE_TYPE e = AGTENTRY_IS_STRING"
definition AGTE_IS_NUMERIC :: "agtentry \<Rightarrow> bool" where
  "AGTE_IS_NUMERIC e \<longleftrightarrow> AGTE_TYPE e = AGTENTRY_IS_NUMERIC"
definition AGTE_IS_CONTAINER :: "agtentry \<Rightarrow> bool" where
  "AGTE_IS_CONTAINER e \<longleftrightarrow> AGTE_TYPE e = AGTENTRY_IS_CONTAINER"
definition AGTE_IS_NULL :: "agtentry \<Rightarrow> bool" where
  "AGTE_IS_NULL e \<longleftrightarrow> AGTE_TYPE e = AGTENTRY_IS_NULL"
definition AGTE_IS_BOOL_TRUE :: "agtentry \<Rightarrow> bool" where
  "AGTE_IS_BOOL_TRUE e \<longleftrightarrow> AGTE_TYPE e = AGTENTRY_IS_BOOL_TRUE"
definition AGTE_IS_BOOL_FALSE :: "agtentry \<Rightarrow> bool" where
  "AGTE_IS_BOOL_FALSE e \<longleftrightarrow> AGTE_TYPE e = AGTENTRY_IS_BOOL_FALSE"
definition AGTE_IS_AGTYPE :: "agtentry \<Rightarrow> bool" where
  "AGTE_IS_AGTYPE e \<longleftrightarrow> AGTE_TYPE e = AGTENTRY_IS_AGTYPE"

definition AGTE_ADVANCE_OFFSET :: "uint32 \<Rightarrow> agtentry \<Rightarrow> uint32" where
  "AGTE_ADVANCE_OFFSET offset agte =
     (if AGTE_HAS_OFF agte then AGTE_OFFLENFLD agte else offset + AGTE_OFFLENFLD agte)"

definition AGT_OFFSET_STRIDE :: nat where "AGT_OFFSET_STRIDE = 32"

definition AGT_CMASK :: uint32 where "AGT_CMASK = 0x0FFFFFFF"
definition AGT_FSCALAR :: uint32 where "AGT_FSCALAR = 0x10000000"
definition AGT_FOBJECT :: uint32 where "AGT_FOBJECT = 0x20000000"
definition AGT_FARRAY :: uint32 where "AGT_FARRAY = 0x40000000"
definition AGT_FBINARY :: uint32 where "AGT_FBINARY = 0x80000000"

definition AGT_HEADER_INTEGER :: uint32 where "AGT_HEADER_INTEGER = 0"
definition AGT_HEADER_FLOAT :: uint32 where "AGT_HEADER_FLOAT = 1"
definition AGT_HEADER_VERTEX :: uint32 where "AGT_HEADER_VERTEX = 2"
definition AGT_HEADER_EDGE :: uint32 where "AGT_HEADER_EDGE = 3"
definition AGT_HEADER_PATH :: uint32 where "AGT_HEADER_PATH = 4"

lemmas agtentry_consts =
  AGTENTRY_OFFLENMASK_def AGTENTRY_TYPEMASK_def AGTENTRY_HAS_OFF_def AGTENTRY_IS_STRING_def
  AGTENTRY_IS_NUMERIC_def AGTENTRY_IS_BOOL_FALSE_def AGTENTRY_IS_BOOL_TRUE_def
  AGTENTRY_IS_NULL_def AGTENTRY_IS_CONTAINER_def AGTENTRY_IS_AGTYPE_def

lemmas agte_macros =
  AGTE_IS_STRING_def AGTE_IS_NUMERIC_def AGTE_IS_CONTAINER_def AGTE_IS_NULL_def
  AGTE_IS_BOOL_TRUE_def AGTE_IS_BOOL_FALSE_def AGTE_IS_AGTYPE_def

lemmas agt_header_consts =
  AGT_HEADER_INTEGER_def AGT_HEADER_FLOAT_def AGT_HEADER_VERTEX_def AGT_HEADER_EDGE_def
  AGT_HEADER_PATH_def

subsection \<open>Containers in memory\<close>

text \<open>A pointer to an \<open>agtype_container\<close> is the memory from its header on.\<close>

definition container_header :: "byte list \<Rightarrow> uint32 result" where
  "container_header c = read_u32 c"

definition container_child :: "byte list \<Rightarrow> nat \<Rightarrow> agtentry result" where
  "container_child c i = read_u32 (drop (4 + 4 * i) c)"

text \<open>The address of \<open>&children[n]\<close>, where the data of a container with \<open>n\<close> entries starts.\<close>

definition container_data :: "byte list \<Rightarrow> nat \<Rightarrow> byte list" where
  "container_data c n = drop (4 + 4 * n) c"

definition header_size :: "uint32 \<Rightarrow> nat" where
  "header_size h = unat (h AND AGT_CMASK)"
definition header_is_scalar :: "uint32 \<Rightarrow> bool" where
  "header_is_scalar h \<longleftrightarrow> h AND AGT_FSCALAR \<noteq> 0"
definition header_is_object :: "uint32 \<Rightarrow> bool" where
  "header_is_object h \<longleftrightarrow> h AND AGT_FOBJECT \<noteq> 0"
definition header_is_array :: "uint32 \<Rightarrow> bool" where
  "header_is_array h \<longleftrightarrow> h AND AGT_FARRAY \<noteq> 0"

text \<open>\<open>INTALIGN\<close>, and the pointer \<open>base + n\<close>.\<close>

definition INTALIGN :: "nat \<Rightarrow> nat" where
  "INTALIGN n = (n + 3) div 4 * 4"

primrec get_agtype_offset_loop :: "byte list \<Rightarrow> nat \<Rightarrow> uint32 \<Rightarrow> uint32 result" where
  "get_agtype_offset_loop c 0 offset = Inr offset"
| "get_agtype_offset_loop c (Suc i) offset =
     bindE (container_child c i) (\<lambda>e.
       let offset' = offset + AGTE_OFFLENFLD e
       in if AGTE_HAS_OFF e then Inr offset' else get_agtype_offset_loop c i offset')"

definition get_agtype_offset :: "byte list \<Rightarrow> nat \<Rightarrow> uint32 result" where
  "get_agtype_offset c index = get_agtype_offset_loop c index 0"

definition get_agtype_length :: "byte list \<Rightarrow> nat \<Rightarrow> uint32 result" where
  "get_agtype_length c index =
     bindE (container_child c index) (\<lambda>e.
       if AGTE_HAS_OFF e
       then bindE (get_agtype_offset c index) (\<lambda>off. Inr (AGTE_OFFLENFLD e - off))
       else Inr (AGTE_OFFLENFLD e))"

subsection \<open>Lemmas on alignment\<close>

lemma INTALIGN_ge: "n \<le> INTALIGN n"
  by (simp add: INTALIGN_def)

lemma INTALIGN_dvd [simp]: "4 dvd INTALIGN n"
  by (simp add: INTALIGN_def)

lemma INTALIGN_less: "INTALIGN n < n + 4"
  by (simp add: INTALIGN_def)

lemma INTALIGN_id: "4 dvd n \<Longrightarrow> INTALIGN n = n"
  by (auto simp: INTALIGN_def elim!: dvdE)

lemma INTALIGN_add_dvd: "4 dvd p \<Longrightarrow> INTALIGN (p + n) = p + INTALIGN n"
proof -
  assume "4 dvd p"
  then obtain k where p: "p = 4 * k" by (auto elim: dvdE)
  have "(4 * k + n + 3) div 4 = k + (n + 3) div 4"
    by (metis add.assoc add.commute div_mult_self4 zero_neq_numeral)
  then show ?thesis by (simp add: INTALIGN_def p algebra_simps)
qed

end
