(* ===== verification/Agtype_Entries.thy ===== *)
theory Agtype_Entries
  imports Agtype_Value
begin

text \<open>
  What an entry array means. \<open>mk_entries\<close> is the array the writers produce for children of
  given type bits and lengths: every 32nd entry stores an end offset, the others a length.
  The lemmas show that on such an array \<open>get_agtype_offset\<close>, \<open>get_agtype_length\<close> and
  \<open>AGTE_ADVANCE_OFFSET\<close> compute the start and the length of every child, whichever of the two
  forms its entry has.
\<close>

subsection \<open>Fields of one entry\<close>

definition entry_type_bits :: "uint32 \<Rightarrow> bool" where
  "entry_type_bits t \<longleftrightarrow> t AND AGTENTRY_TYPEMASK = t"

definition fits :: "nat \<Rightarrow> bool" where
  "fits n \<longleftrightarrow> n \<le> unat AGTENTRY_OFFLENMASK"

lemma fits_iff: "fits n \<longleftrightarrow> n < 2 ^ 28"
  by (auto simp: fits_def AGTENTRY_OFFLENMASK_def)

lemma fits_mono: "fits n \<Longrightarrow> m \<le> n \<Longrightarrow> fits m"
  by (simp add: fits_def)

lemma OFFLENMASK_mask: "AGTENTRY_OFFLENMASK = mask 28"
  by (simp add: AGTENTRY_OFFLENMASK_def mask_eq_exp_minus_1)

lemma fits_unat [simp]: "fits n \<Longrightarrow> unat (of_nat n :: uint32) = n"
  by (subst unat_of_nat) (simp add: fits_iff take_bit_nat_eq_self)

lemma fits_and_mask: "fits n \<Longrightarrow> (of_nat n :: uint32) AND AGTENTRY_OFFLENMASK = of_nat n"
  by (simp only: OFFLENMASK_mask flip: take_bit_eq_mask)
     (simp add: word_unat_eq_iff unsigned_take_bit_eq take_bit_nat_eq_self fits_iff
        del: take_bit_of_nat)

lemma mask_disjoint: "AGTENTRY_TYPEMASK AND AGTENTRY_OFFLENMASK = 0"
  "AGTENTRY_OFFLENMASK AND AGTENTRY_TYPEMASK = 0"
  "AGTENTRY_TYPEMASK AND AGTENTRY_HAS_OFF = 0"
  "AGTENTRY_OFFLENMASK AND AGTENTRY_HAS_OFF = 0"
  "AGTENTRY_HAS_OFF AND AGTENTRY_TYPEMASK = 0"
  "AGTENTRY_HAS_OFF AND AGTENTRY_OFFLENMASK = 0"
  "AGTENTRY_HAS_OFF \<noteq> 0"
  by (simp_all add: agtentry_consts)

lemma type_bits_and:
  assumes "entry_type_bits t"
  shows "t AND AGTENTRY_OFFLENMASK = 0" "t AND AGTENTRY_HAS_OFF = 0" "t AND AGTENTRY_TYPEMASK = t"
proof -
  have t: "t = t AND AGTENTRY_TYPEMASK" using assms by (simp add: entry_type_bits_def)
  show "t AND AGTENTRY_OFFLENMASK = 0"
    by (subst t) (simp only: and.assoc mask_disjoint and_zero_eq)
  show "t AND AGTENTRY_HAS_OFF = 0"
    by (subst t) (simp only: and.assoc mask_disjoint and_zero_eq)
  show "t AND AGTENTRY_TYPEMASK = t" using t by simp
qed

lemma len_bits_and:
  assumes "fits n"
  shows "(of_nat n :: uint32) AND AGTENTRY_TYPEMASK = 0" "(of_nat n :: uint32) AND AGTENTRY_HAS_OFF = 0"
proof -
  have n: "(of_nat n :: uint32) = of_nat n AND AGTENTRY_OFFLENMASK" using fits_and_mask [OF assms] by simp
  show "(of_nat n :: uint32) AND AGTENTRY_TYPEMASK = 0"
    by (subst n) (simp only: and.assoc mask_disjoint and_zero_eq)
  show "(of_nat n :: uint32) AND AGTENTRY_HAS_OFF = 0"
    by (subst n) (simp only: and.assoc mask_disjoint and_zero_eq)
qed

lemma plain_entry_fields [simp]:
  assumes "entry_type_bits t" "fits n"
  shows "AGTE_OFFLENFLD (t OR of_nat n) = of_nat n"
    and "AGTE_TYPE (t OR of_nat n) = t"
    and "\<not> AGTE_HAS_OFF (t OR of_nat n)"
  by (simp_all add: AGTE_OFFLENFLD_def AGTE_TYPE_def AGTE_HAS_OFF_def bit.conj_disj_distrib2
      type_bits_and [OF assms(1)] len_bits_and [OF assms(2)] fits_and_mask [OF assms(2)])

lemma offset_entry_fields [simp]:
  assumes "entry_type_bits t" "fits n"
  shows "AGTE_OFFLENFLD (t OR of_nat n OR AGTENTRY_HAS_OFF) = of_nat n"
    and "AGTE_TYPE (t OR of_nat n OR AGTENTRY_HAS_OFF) = t"
    and "AGTE_HAS_OFF (t OR of_nat n OR AGTENTRY_HAS_OFF)"
  by (simp_all add: AGTE_OFFLENFLD_def AGTE_TYPE_def AGTE_HAS_OFF_def bit.conj_disj_distrib2
      type_bits_and [OF assms(1)] len_bits_and [OF assms(2)] fits_and_mask [OF assms(2)] mask_disjoint)

lemma entry_type_bits_consts [simp]:
  "entry_type_bits AGTENTRY_IS_STRING" "entry_type_bits AGTENTRY_IS_NUMERIC"
  "entry_type_bits AGTENTRY_IS_BOOL_FALSE" "entry_type_bits AGTENTRY_IS_BOOL_TRUE"
  "entry_type_bits AGTENTRY_IS_NULL" "entry_type_bits AGTENTRY_IS_CONTAINER"
  "entry_type_bits AGTENTRY_IS_AGTYPE"
  by (simp_all add: entry_type_bits_def agtentry_consts)

subsection \<open>The array of a container\<close>

fun mk_entries :: "nat \<Rightarrow> nat \<Rightarrow> (uint32 \<times> nat) list \<Rightarrow> agtentry list" where
  "mk_entries i tot [] = []"
| "mk_entries i tot ((t, n) # ms) =
     (if i mod AGT_OFFSET_STRIDE = 0 then t OR of_nat (tot + n) OR AGTENTRY_HAS_OFF
      else t OR of_nat n) # mk_entries (Suc i) (tot + n) ms"

definition start_of :: "(uint32 \<times> nat) list \<Rightarrow> nat \<Rightarrow> nat" where
  "start_of ms i = sum_list (map snd (take i ms))"

definition metas_ok :: "(uint32 \<times> nat) list \<Rightarrow> bool" where
  "metas_ok ms \<longleftrightarrow> (\<forall>m \<in> set ms. entry_type_bits (fst m)) \<and> fits (start_of ms (length ms))"

lemma length_mk_entries [simp]: "length (mk_entries i tot ms) = length ms"
  by (induction i tot ms rule: mk_entries.induct) auto

lemma mk_entries_nth:
  "k < length ms \<Longrightarrow> mk_entries i tot ms ! k =
     (if (i + k) mod AGT_OFFSET_STRIDE = 0
      then fst (ms ! k) OR of_nat (tot + start_of ms (Suc k)) OR AGTENTRY_HAS_OFF
      else fst (ms ! k) OR of_nat (snd (ms ! k)))"
proof (induction i tot ms arbitrary: k rule: mk_entries.induct)
  case (2 i tot t n ms)
  then show ?case by (cases k) (auto simp: start_of_def add.assoc)
qed simp

lemma mk_entries_append:
  "mk_entries i tot (ms @ ns) =
     mk_entries i tot ms @ mk_entries (i + length ms) (tot + start_of ms (length ms)) ns"
  by (induction i tot ms rule: mk_entries.induct) (auto simp: start_of_def add.assoc)

lemma start_of_0 [simp]: "start_of ms 0 = 0"
  by (simp add: start_of_def)

lemma start_of_Suc: "i < length ms \<Longrightarrow> start_of ms (Suc i) = start_of ms i + snd (ms ! i)"
  by (simp add: start_of_def take_Suc_conv_app_nth)

lemma start_of_mono: "i \<le> j \<Longrightarrow> start_of ms i \<le> start_of ms j"
proof -
  assume "i \<le> j"
  then have "take j ms = take i ms @ take (j - i) (drop i ms)"
    by (metis le_add_diff_inverse take_add)
  then show ?thesis by (simp add: start_of_def)
qed

lemma start_of_le_total: "start_of ms i \<le> start_of ms (length ms)"
proof (cases "i \<le> length ms")
  case True
  then show ?thesis by (rule start_of_mono)
next
  case False
  then show ?thesis by (simp add: start_of_def)
qed

lemma metas_ok_start: "metas_ok ms \<Longrightarrow> fits (start_of ms i)"
  using fits_mono start_of_le_total unfolding metas_ok_def by blast

lemma metas_ok_nth:
  assumes "metas_ok ms" "i < length ms"
  shows "entry_type_bits (fst (ms ! i))" "fits (snd (ms ! i))"
  using assms start_of_Suc [OF assms(2)] metas_ok_start [OF assms(1), of "Suc i"]
  by (auto simp: metas_ok_def intro: fits_mono)

definition entry_at :: "(uint32 \<times> nat) list \<Rightarrow> nat \<Rightarrow> agtentry" where
  "entry_at ms i = mk_entries 0 0 ms ! i"

lemma entry_at_fields:
  assumes "metas_ok ms" "i < length ms"
  shows "AGTE_TYPE (entry_at ms i) = fst (ms ! i)"
    and "AGTE_HAS_OFF (entry_at ms i) \<Longrightarrow> AGTE_OFFLENFLD (entry_at ms i) = of_nat (start_of ms (Suc i))"
    and "\<not> AGTE_HAS_OFF (entry_at ms i) \<Longrightarrow> AGTE_OFFLENFLD (entry_at ms i) = of_nat (snd (ms ! i))"
  using metas_ok_nth [OF assms] metas_ok_start [OF assms(1), of "Suc i"] assms(2)
  by (auto simp: entry_at_def mk_entries_nth)

lemma entry_at_advance:
  assumes "metas_ok ms" "i < length ms"
  shows "AGTE_ADVANCE_OFFSET (of_nat (start_of ms i)) (entry_at ms i) = of_nat (start_of ms (Suc i))"
  using entry_at_fields [OF assms] start_of_Suc [OF assms(2)]
  by (cases "AGTE_HAS_OFF (entry_at ms i)") (simp_all add: AGTE_ADVANCE_OFFSET_def)

subsection \<open>Reading the array\<close>

text \<open>The memory of a container: header, entries, data, and whatever follows.\<close>

definition cont_bytes :: "uint32 \<Rightarrow> (uint32 \<times> nat) list \<Rightarrow> byte list \<Rightarrow> byte list" where
  "cont_bytes hdr ms data = put_u32 hdr @ concat (map put_u32 (mk_entries 0 0 ms)) @ data"

lemma length_concat_put_u32 [simp]: "length (concat (map put_u32 es)) = 4 * length es"
  by (induction es) auto

lemma drop_concat_put_u32:
  "i < length es \<Longrightarrow> drop (4 * i) (concat (map put_u32 es)) = put_u32 (es ! i) @ concat (map put_u32 (drop (Suc i) es))"
proof (induction es arbitrary: i)
  case (Cons e es)
  then show ?case by (cases i) auto
qed simp

lemma container_header_cont [simp]: "container_header (cont_bytes hdr ms data @ rest) = Inr hdr"
  by (simp add: container_header_def cont_bytes_def)

lemma container_child_cont [simp]:
  assumes "i < length ms"
  shows "container_child (cont_bytes hdr ms data @ rest) i = Inr (entry_at ms i)"
proof -
  let ?es = "mk_entries 0 0 ms"
  have "drop (4 + 4 * i) (cont_bytes hdr ms data @ rest) =
      drop (4 * i) (concat (map put_u32 ?es) @ data @ rest)"
    by (simp add: cont_bytes_def add.commute flip: drop_drop)
  also have "\<dots> = put_u32 (?es ! i) @ concat (map put_u32 (drop (Suc i) ?es)) @ data @ rest"
    using assms drop_concat_put_u32 [of i ?es] by simp
  finally show ?thesis by (simp add: container_child_def entry_at_def)
qed

lemma container_data_cont [simp]:
  "length ms = n \<Longrightarrow> container_data (cont_bytes hdr ms data @ rest) n = data @ rest"
  by (simp add: container_data_def cont_bytes_def)

lemma get_agtype_offset_loop_cont:
  assumes "metas_ok ms" "i \<le> length ms"
  shows "get_agtype_offset_loop (cont_bytes hdr ms data @ rest) i acc = Inr (acc + of_nat (start_of ms i))"
  using assms(2)
proof (induction i arbitrary: acc)
  case (Suc i)
  then have i: "i < length ms" by simp
  show ?case
    using Suc entry_at_fields [OF assms(1) i] start_of_Suc [OF i] i
    by (simp add: Let_def add.assoc add.commute)
qed simp

lemma get_agtype_offset_cont [simp]:
  "metas_ok ms \<Longrightarrow> i \<le> length ms \<Longrightarrow>
     get_agtype_offset (cont_bytes hdr ms data @ rest) i = Inr (of_nat (start_of ms i))"
  by (simp add: get_agtype_offset_def get_agtype_offset_loop_cont)

lemma get_agtype_length_cont [simp]:
  assumes "metas_ok ms" "i < length ms"
  shows "get_agtype_length (cont_bytes hdr ms data @ rest) i = Inr (of_nat (snd (ms ! i)))"
  using assms entry_at_fields [OF assms] start_of_Suc [OF assms(2)]
  by (cases "AGTE_HAS_OFF (entry_at ms i)") (simp_all add: get_agtype_length_def)

subsection \<open>Container headers\<close>

lemma header_flags:
  assumes "fits n"
  shows "header_size (of_nat n OR AGT_FARRAY) = n" "header_size (of_nat n OR AGT_FOBJECT) = n"
    "header_is_array (of_nat n OR AGT_FARRAY)" "\<not> header_is_array (of_nat n OR AGT_FOBJECT)"
    "header_is_object (of_nat n OR AGT_FOBJECT)" "\<not> header_is_object (of_nat n OR AGT_FARRAY)"
    "\<not> header_is_scalar (of_nat n OR AGT_FARRAY)" "\<not> header_is_scalar (of_nat n OR AGT_FOBJECT)"
proof -
  have m: "(of_nat n :: uint32) AND AGT_CMASK = of_nat n"
    using fits_and_mask [OF assms] by (simp add: AGT_CMASK_def AGTENTRY_OFFLENMASK_def)
  have d: "AGT_CMASK AND AGT_FARRAY = 0" "AGT_CMASK AND AGT_FOBJECT = 0" "AGT_CMASK AND AGT_FSCALAR = 0"
    by (simp_all add: AGT_CMASK_def AGT_FARRAY_def AGT_FOBJECT_def AGT_FSCALAR_def)
  have z: "(of_nat n :: uint32) AND AGT_FARRAY = 0" "(of_nat n :: uint32) AND AGT_FOBJECT = 0"
    "(of_nat n :: uint32) AND AGT_FSCALAR = 0"
    by (subst m [symmetric], simp only: and.assoc d and_zero_eq)+
  show "header_size (of_nat n OR AGT_FARRAY) = n" "header_size (of_nat n OR AGT_FOBJECT) = n"
    "header_is_array (of_nat n OR AGT_FARRAY)" "\<not> header_is_array (of_nat n OR AGT_FOBJECT)"
    "header_is_object (of_nat n OR AGT_FOBJECT)" "\<not> header_is_object (of_nat n OR AGT_FARRAY)"
    "\<not> header_is_scalar (of_nat n OR AGT_FARRAY)" "\<not> header_is_scalar (of_nat n OR AGT_FOBJECT)"
    using assms m z
    by (simp_all add: header_size_def header_is_array_def header_is_object_def header_is_scalar_def
        bit.conj_disj_distrib2 AGT_CMASK_def AGT_FARRAY_def AGT_FOBJECT_def AGT_FSCALAR_def)
qed

end
