(* ===== verification/Agtype_Build.thy ===== *)
theory Agtype_Build
  imports Agtype_Value
begin

text \<open>
  Building in-memory values from a token sequence (\<open>src/backend/utils/adt/agtype_util.c\<close>):
  the parse-state stack with \<open>append_key\<close>, \<open>append_value\<close>, \<open>append_element\<close> and
  \<open>push_agtype_value_scalar\<close>, and the normal form of objects that \<open>uniqueify_agtype_object\<close>
  establishes: keys sorted by length and then by bytes, no key twice, the last pair of a key
  kept.
\<close>

subsection \<open>Key order and unique-ification\<close>

fun memcmp :: "byte list \<Rightarrow> byte list \<Rightarrow> int" where
  "memcmp (a # as) (b # bs) = (if a = b then memcmp as bs else if a < b then -1 else 1)"
| "memcmp _ _ = 0"

definition length_compare_agtype_string_value :: "byte list \<Rightarrow> byte list \<Rightarrow> int" where
  "length_compare_agtype_string_value a b =
     (if length a = length b then memcmp a b else if length a > length b then 1 else -1)"

definition length_compare_agtype_pair :: "agtype_pair \<Rightarrow> agtype_pair \<Rightarrow> int" where
  "length_compare_agtype_pair pa pb =
     (let res = length_compare_agtype_string_value (pair_key pa) (pair_key pb)
      in if res = 0 then if pair_order pa > pair_order pb then -1 else 1 else res)"

text \<open>The flag the comparator sets through its third argument.\<close>

definition compare_sets_binequal :: "agtype_pair \<times> agtype_pair \<Rightarrow> bool" where
  "compare_sets_binequal c \<longleftrightarrow>
     length_compare_agtype_string_value (pair_key (fst c)) (pair_key (snd c)) = 0"

text \<open>The compaction loop: a pair is copied down unless its key is that of the last pair kept.\<close>

fun uniq_pairs :: "agtype_pair list \<Rightarrow> agtype_pair list" where
  "uniq_pairs (r # p # ps) =
     (if length_compare_agtype_string_value (pair_key p) (pair_key r) \<noteq> 0
      then r # uniq_pairs (p # ps) else uniq_pairs (r # ps))"
| "uniq_pairs ps = ps"

definition uniqueify_agtype_object :: "pg_env \<Rightarrow> agtype_pair list \<Rightarrow> agtype_pair list" where
  "uniqueify_agtype_object env pairs =
     (let (sorted_pairs, has_non_uniq) =
            (if length pairs > 1
             then let (ys, calls) = pg_qsort_arg env length_compare_agtype_pair pairs
                  in (ys, list_ex compare_sets_binequal calls)
             else (pairs, False))
      in if has_non_uniq then uniq_pairs sorted_pairs else sorted_pairs)"

subsection \<open>The parse state\<close>

text \<open>One frame per open container. \<open>PS_OBJECT\<close> holds the complete pairs and the key (with its
  order) that \<open>append_key\<close> wrote after them; \<open>ps_size\<close> is the allocated number of slots;
  \<open>ps_last_updated\<close> is the slot \<open>last_updated_value\<close> points at.\<close>

datatype parse_cont =
    PS_ARRAY bool "agtype_value list"
  | PS_OBJECT "agtype_pair list" "(byte list \<times> nat) option"

record agtype_parse_state =
  ps_cont :: parse_cont
  ps_size :: nat
  ps_last_updated :: "nat option"

fun cont_val :: "parse_cont \<Rightarrow> agtype_value" where
  "cont_val (PS_ARRAY raw es) = AGTV_ARRAY raw es"
| "cont_val (PS_OBJECT ps k) = AGTV_OBJECT ps"

text \<open>\<open>Min(MaxAllocSize / sizeof(agtype_value), AGT_CMASK)\<close> and its pair counterpart with
  PostgreSQL's \<open>MaxAllocSize = 0x3fffffff\<close>, 32-byte values and 72-byte pairs (LP64).\<close>

definition AGTYPE_MAX_ELEMS :: nat where "AGTYPE_MAX_ELEMS = min (0x3fffffff div 32) 0x0FFFFFFF"
definition AGTYPE_MAX_PAIRS :: nat where "AGTYPE_MAX_PAIRS = min (0x3fffffff div 72) 0x0FFFFFFF"

definition append_key :: "agtype_parse_state \<Rightarrow> byte list \<Rightarrow> agtype_parse_state result" where
  "append_key st k =
     (case ps_cont st of
        PS_ARRAY _ _ \<Rightarrow> Inl BadAccess
      | PS_OBJECT pairs _ \<Rightarrow>
          if length pairs \<ge> AGTYPE_MAX_PAIRS
          then Inl (Ereport ''number of agtype object pairs exceeds the maximum allowed'')
          else let st' = (if length pairs \<ge> ps_size st then st\<lparr>ps_size := ps_size st * 2\<rparr> else st)
               in if length pairs < ps_size st'
                  then Inr (st'\<lparr>ps_cont := PS_OBJECT pairs (Some (k, length pairs))\<rparr>)
                  else Inl BadAccess)"

definition append_value :: "agtype_parse_state \<Rightarrow> agtype_value \<Rightarrow> agtype_parse_state result" where
  "append_value st v =
     (case ps_cont st of
        PS_OBJECT pairs (Some (k, ord)) \<Rightarrow>
          if length pairs < ps_size st
          then Inr (st\<lparr>ps_cont := PS_OBJECT (pairs @ [(k, v, ord)]) None,
                       ps_last_updated := Some (length pairs)\<rparr>)
          else Inl BadAccess
      | _ \<Rightarrow> Inl BadAccess)"

definition append_element :: "agtype_parse_state \<Rightarrow> agtype_value \<Rightarrow> agtype_parse_state result" where
  "append_element st v =
     (case ps_cont st of
        PS_OBJECT _ _ \<Rightarrow> Inl BadAccess
      | PS_ARRAY raw es \<Rightarrow>
          if length es \<ge> AGTYPE_MAX_ELEMS
          then Inl (Ereport ''number of agtype array elements exceeds the maximum allowed'')
          else let st' = (if length es \<ge> ps_size st then st\<lparr>ps_size := ps_size st * 2\<rparr> else st)
               in if length es < ps_size st'
                  then Inr (st'\<lparr>ps_cont := PS_ARRAY raw (es @ [v]), ps_last_updated := Some (length es)\<rparr>)
                  else Inl BadAccess)"

text \<open>The tail of the \<open>WAGT_END_*\<close> cases: pop the frame and hand its value to the parent.\<close>

definition pop_state ::
    "agtype_parse_state list \<Rightarrow> agtype_value \<Rightarrow> (agtype_value option \<times> agtype_parse_state list) result" where
  "pop_state parents v =
     (case parents of
        [] \<Rightarrow> Inr (Some v, [])
      | p # ps \<Rightarrow>
          bindE (case ps_cont p of PS_ARRAY _ _ \<Rightarrow> append_element p v | PS_OBJECT _ _ \<Rightarrow> append_value p v)
            (\<lambda>p'. Inr (Some v, p' # ps)))"

definition push_agtype_value_scalar ::
    "pg_env \<Rightarrow> agtype_parse_state list \<Rightarrow> agtype_iterator_token \<Rightarrow> agtype_value option \<Rightarrow>
     (agtype_value option \<times> agtype_parse_state list) result" where
  "push_agtype_value_scalar env pstate seq v =
     (case seq of
        WAGT_BEGIN_ARRAY \<Rightarrow>
          (let (raw, n) = (case v of Some (AGTV_ARRAY r es) \<Rightarrow> (r, length es) | _ \<Rightarrow> (False, 0));
               st = \<lparr>ps_cont = PS_ARRAY raw [], ps_size = (if n > 0 then n else 4), ps_last_updated = None\<rparr>
           in Inr (Some (cont_val (ps_cont st)), st # pstate))
      | WAGT_BEGIN_OBJECT \<Rightarrow>
          (let st = \<lparr>ps_cont = PS_OBJECT [] None, ps_size = 4, ps_last_updated = None\<rparr>
           in Inr (Some (cont_val (ps_cont st)), st # pstate))
      | WAGT_DONE \<Rightarrow> Inl (Ereport ''unrecognized agtype sequential processing token'')
      | _ \<Rightarrow>
          (case pstate of [] \<Rightarrow> Inl BadAccess | st # ps \<Rightarrow>
            (case seq of
               WAGT_KEY \<Rightarrow>
                 (case v of Some (AGTV_STRING k) \<Rightarrow> bindE (append_key st k) (\<lambda>st'. Inr (None, st' # ps))
                  | _ \<Rightarrow> Inl BadAccess)
             | WAGT_VALUE \<Rightarrow>
                 (case v of Some x \<Rightarrow> bindE (append_value st x) (\<lambda>st'. Inr (None, st' # ps))
                  | None \<Rightarrow> Inl BadAccess)
             | WAGT_ELEM \<Rightarrow>
                 (case v of Some x \<Rightarrow> bindE (append_element st x) (\<lambda>st'. Inr (None, st' # ps))
                  | None \<Rightarrow> Inl BadAccess)
             | WAGT_END_OBJECT \<Rightarrow>
                 (case ps_cont st of
                    PS_OBJECT pairs k \<Rightarrow> pop_state ps (AGTV_OBJECT (uniqueify_agtype_object env pairs))
                  | PS_ARRAY _ _ \<Rightarrow> Inl BadAccess)
             | _ \<Rightarrow> pop_state ps (cont_val (ps_cont st)))))"

lemma push_scalar_simps [simp]:
  "push_agtype_value_scalar env ps WAGT_BEGIN_ARRAY None =
     Inr (Some (AGTV_ARRAY False []),
          \<lparr>ps_cont = PS_ARRAY False [], ps_size = 4, ps_last_updated = None\<rparr> # ps)"
  "push_agtype_value_scalar env ps WAGT_BEGIN_ARRAY (Some (AGTV_ARRAY r es)) =
     Inr (Some (AGTV_ARRAY r []),
          \<lparr>ps_cont = PS_ARRAY r [], ps_size = (if es \<noteq> [] then length es else 4),
           ps_last_updated = None\<rparr> # ps)"
  "push_agtype_value_scalar env ps WAGT_BEGIN_OBJECT x =
     Inr (Some (AGTV_OBJECT []),
          \<lparr>ps_cont = PS_OBJECT [] None, ps_size = 4, ps_last_updated = None\<rparr> # ps)"
  "push_agtype_value_scalar env (st # ps) WAGT_KEY (Some (AGTV_STRING k)) =
     bindE (append_key st k) (\<lambda>st'. Inr (None, st' # ps))"
  "push_agtype_value_scalar env (st # ps) WAGT_VALUE (Some v) =
     bindE (append_value st v) (\<lambda>st'. Inr (None, st' # ps))"
  "push_agtype_value_scalar env (st # ps) WAGT_ELEM (Some v) =
     bindE (append_element st v) (\<lambda>st'. Inr (None, st' # ps))"
  "push_agtype_value_scalar env (st # ps) WAGT_END_ARRAY x = pop_state ps (cont_val (ps_cont st))"
  by (simp_all add: push_agtype_value_scalar_def)

lemma push_scalar_end_object [simp]:
  "ps_cont st = PS_OBJECT pairs k \<Longrightarrow>
   push_agtype_value_scalar env (st # ps) WAGT_END_OBJECT x =
     pop_state ps (AGTV_OBJECT (uniqueify_agtype_object env pairs))"
  by (simp add: push_agtype_value_scalar_def)

subsection \<open>Lemmas on the key order\<close>

lemma memcmp_refl [simp]: "memcmp a a = 0"
  by (induction a) auto

lemma memcmp_eq_0: "length a = length b \<Longrightarrow> memcmp a b = 0 \<longleftrightarrow> a = b"
  by (induction a b rule: memcmp.induct) auto

lemma memcmp_swap: "memcmp a b = - memcmp b a"
  by (induction a b rule: memcmp.induct) (auto simp: not_less_iff_gr_or_eq)

lemma memcmp_trans: "length a = length b \<Longrightarrow> length b = length c \<Longrightarrow>
    memcmp a b < 0 \<Longrightarrow> memcmp b c < 0 \<Longrightarrow> memcmp a c < 0"
proof (induction a b arbitrary: c rule: memcmp.induct)
  case (1 x xs y ys)
  then obtain z zs where "c = z # zs" by (cases c) auto
  with 1 show ?case by (auto split: if_splits)
qed auto

abbreviation key_cmp :: "byte list \<Rightarrow> byte list \<Rightarrow> int" where
  "key_cmp \<equiv> length_compare_agtype_string_value"

lemma key_cmp_eq_0 [simp]: "key_cmp a b = 0 \<longleftrightarrow> a = b"
  by (auto simp: length_compare_agtype_string_value_def memcmp_eq_0)

lemma key_cmp_refl [simp]: "key_cmp a a = 0"
  by simp

lemma key_cmp_swap: "key_cmp a b = - key_cmp b a"
  using memcmp_swap [of a b] by (auto simp: length_compare_agtype_string_value_def)

lemma key_cmp_trans: "key_cmp a b < 0 \<Longrightarrow> key_cmp b c < 0 \<Longrightarrow> key_cmp a c < 0"
  using memcmp_trans [of a b c] by (auto simp: length_compare_agtype_string_value_def split: if_splits)

lemma key_cmp_total: "key_cmp a b < 0 \<or> a = b \<or> key_cmp b a < 0"
  using key_cmp_swap [of a b] key_cmp_eq_0 [of a b] by linarith

definition keys_sorted :: "agtype_pair list \<Rightarrow> bool" where
  "keys_sorted ps \<longleftrightarrow> sorted_wrt (\<lambda>p q. key_cmp (pair_key p) (pair_key q) < 0) ps"

subsection \<open>Lemmas on unique-ification\<close>

definition pair_before :: "agtype_pair \<Rightarrow> agtype_pair \<Rightarrow> bool" where
  "pair_before p q \<longleftrightarrow> key_cmp (pair_key p) (pair_key q) < 0 \<or>
     (pair_key p = pair_key q \<and> pair_order p > pair_order q)"

lemma length_compare_agtype_pair_neg:
  "length_compare_agtype_pair p q < 0 \<longleftrightarrow> pair_before p q"
  by (auto simp: length_compare_agtype_pair_def pair_before_def Let_def)

lemma pair_before_irrefl: "\<not> pair_before p p"
  by (simp add: pair_before_def)

lemma pair_before_trans: "pair_before x y \<Longrightarrow> pair_before y z \<Longrightarrow> pair_before x z"
  unfolding pair_before_def
  using key_cmp_trans [of "pair_key x" "pair_key y" "pair_key z"] by (elim disjE conjE) simp_all

lemma length_compare_agtype_pair_pos:
  "pair_order p \<noteq> pair_order q \<Longrightarrow>
     length_compare_agtype_pair p q \<noteq> 0 \<and> (length_compare_agtype_pair p q < 0 \<longleftrightarrow> length_compare_agtype_pair q p > 0)"
  using key_cmp_swap [of "pair_key p" "pair_key q"] key_cmp_eq_0 [of "pair_key p" "pair_key q"]
  by (simp add: length_compare_agtype_pair_def Let_def)

text \<open>The pairs that survive: those of their key observed last.\<close>

definition last_by :: "('a \<Rightarrow> 'k) \<Rightarrow> ('a \<Rightarrow> nat) \<Rightarrow> 'a list \<Rightarrow> 'a \<Rightarrow> bool" where
  "last_by k ord ys x \<longleftrightarrow> x \<in> set ys \<and> (\<forall>y \<in> set ys. k y = k x \<longrightarrow> y = x \<or> ord y < ord x)"

abbreviation last_of_key :: "agtype_pair list \<Rightarrow> agtype_pair \<Rightarrow> bool" where
  "last_of_key \<equiv> last_by (\<lambda>p. pair_key p) (\<lambda>p. pair_order p)"

lemma last_by_drop:
  "k p = k r \<Longrightarrow> ord p < ord r \<Longrightarrow> last_by k ord (r # p # ps) x \<longleftrightarrow> last_by k ord (r # ps) x"
  unfolding last_by_def by (simp, rule iffI) (auto dest: less_trans)

lemma last_by_Cons:
  "(\<And>y. y \<in> set ys \<Longrightarrow> k y \<noteq> k r) \<Longrightarrow> last_by k ord (r # ys) x \<longleftrightarrow> x = r \<or> last_by k ord ys x"
  unfolding last_by_def by (simp, rule iffI) (auto, metis)

lemma uniq_pairs_spec:
  "sorted_wrt pair_before ys \<Longrightarrow>
     keys_sorted (uniq_pairs ys) \<and> (\<forall>x. x \<in> set (uniq_pairs ys) \<longleftrightarrow> last_of_key ys x)"
proof (induction ys rule: uniq_pairs.induct)
  case (1 r p ps)
  show ?case
  proof (cases "pair_key p = pair_key r")
    case True
    then have u: "uniq_pairs (r # p # ps) = uniq_pairs (r # ps)" by simp
    have lt: "pair_order p < pair_order r"
      using 1(3) True by (auto simp: pair_before_def)
    have "sorted_wrt pair_before (r # ps)" using 1(3) by simp
    with 1(2) True show ?thesis
      unfolding u last_by_drop [where k = "\<lambda>p. pair_key p" and ord = "\<lambda>p. pair_order p", OF True lt] by simp
  next
    case False
    then have u: "uniq_pairs (r # p # ps) = r # uniq_pairs (p # ps)" by simp
    have rp: "key_cmp (pair_key r) (pair_key p) < 0"
      using 1(3) False by (auto simp: pair_before_def)
    have lt: "key_cmp (pair_key r) (pair_key y) < 0" if "y \<in> set (p # ps)" for y
      using that 1(3) rp key_cmp_trans [OF rp] by (auto simp: pair_before_def)
    have ne: "pair_key y \<noteq> pair_key r" if "y \<in> set (p # ps)" for y
      using lt [OF that] by auto
    have st: "sorted_wrt pair_before (p # ps)" using 1(3) by simp
    have IH: "keys_sorted (uniq_pairs (p # ps))" "\<And>x. x \<in> set (uniq_pairs (p # ps)) \<longleftrightarrow> last_of_key (p # ps) x"
      using 1(1) [OF _ st] False by (simp_all only: key_cmp_eq_0 not_False_eq_True)
    have "\<And>x. last_of_key (p # ps) x \<Longrightarrow> key_cmp (pair_key r) (pair_key x) < 0"
      using lt by (simp add: last_by_def)
    with IH(1) have "keys_sorted (r # uniq_pairs (p # ps))"
      unfolding keys_sorted_def by (simp add: IH(2) del: uniq_pairs.simps)
    then show ?thesis
      unfolding u
      using last_by_Cons [of "p # ps" "\<lambda>p. pair_key p" r "\<lambda>p. pair_order p", OF ne] IH(2)
      by (simp only: set_simps insert_iff simp_thms)
  qed
qed (auto simp: keys_sorted_def last_by_def)

lemma uniq_pairs_id:
  assumes "\<And>i. Suc i < length ys \<Longrightarrow> pair_key (ys ! i) \<noteq> pair_key (ys ! Suc i)"
  shows "uniq_pairs ys = ys"
  using assms
proof (induction ys rule: uniq_pairs.induct)
  case (1 r p ps)
  have "pair_key r \<noteq> pair_key p" using 1(3) [of 0] by simp
  moreover have "uniq_pairs (p # ps) = p # ps"
    using 1(3) [of "Suc _"] \<open>pair_key r \<noteq> pair_key p\<close> by (intro 1(1)) fastforce+
  ultimately show ?case by simp
qed auto

lemma qsort_okD:
  assumes "qsort_ok qs" "qs cmp xs = (ys, calls)" "distinct xs" "strict_order_on cmp (set xs)"
  shows "mset ys = mset xs" "sorted_wrt (\<lambda>x y. cmp x y < 0) ys"
    "\<And>i. Suc i < length ys \<Longrightarrow> (ys ! i, ys ! Suc i) \<in> set calls \<or> (ys ! Suc i, ys ! i) \<in> set calls"
  using assms unfolding qsort_ok_def by (metis (no_types))+

lemma strict_order_pairs:
  assumes "inj_on pair_order S"
  shows "strict_order_on length_compare_agtype_pair S"
  unfolding strict_order_on_def
proof (intro conjI ballI impI)
  fix x y assume "x \<in> S" "y \<in> S" "x \<noteq> y"
  with assms have "pair_order x \<noteq> pair_order y" by (meson inj_onD)
  then show "length_compare_agtype_pair x y < 0 \<longleftrightarrow> length_compare_agtype_pair y x > 0"
    "length_compare_agtype_pair x y \<noteq> 0"
    using length_compare_agtype_pair_pos by blast+
next
  fix x y z assume "length_compare_agtype_pair x y < 0" "length_compare_agtype_pair y z < 0"
  then show "x \<noteq> z" "length_compare_agtype_pair x z < 0"
    using pair_before_trans [of x y z] pair_before_irrefl unfolding length_compare_agtype_pair_neg by blast+
qed

lemma uniqueify_is_uniq_pairs:
  assumes "qsort_ok (pg_qsort_arg env)" "distinct (map pair_order ps)"
  shows "\<exists>ys. mset ys = mset ps \<and> sorted_wrt pair_before ys \<and> uniqueify_agtype_object env ps = uniq_pairs ys"
proof (cases "length ps > 1")
  case False
  then have "sorted_wrt pair_before ps \<and> uniq_pairs ps = ps" by (cases ps rule: uniq_pairs.cases) auto
  with False show ?thesis by (auto simp: uniqueify_agtype_object_def)
next
  case True
  obtain ys calls where q: "pg_qsort_arg env length_compare_agtype_pair ps = (ys, calls)" by fastforce
  have d: "distinct ps" "inj_on pair_order (set ps)" using assms(2) by (simp_all add: distinct_map)
  note res = qsort_okD [OF assms(1) q d(1) strict_order_pairs [OF d(2)]]
  have st: "sorted_wrt pair_before ys"
    using res(2) by (simp only: length_compare_agtype_pair_neg)
  have "uniqueify_agtype_object env ps = uniq_pairs ys"
  proof (cases "list_ex compare_sets_binequal calls")
    case True
    with \<open>length ps > 1\<close> q show ?thesis by (simp add: uniqueify_agtype_object_def)
  next
    case False
    have "pair_key (ys ! i) \<noteq> pair_key (ys ! Suc i)" if "Suc i < length ys" for i
    proof -
      have "\<not> compare_sets_binequal c" if "c \<in> set calls" for c
        using False that by (simp add: list_ex_iff)
      from this [of "(ys ! i, ys ! Suc i)"] this [of "(ys ! Suc i, ys ! i)"] res(3) [OF that] show ?thesis
        by (auto simp: compare_sets_binequal_def)
    qed
    then have "uniq_pairs ys = ys" by (rule uniq_pairs_id)
    with False \<open>length ps > 1\<close> q show ?thesis by (simp add: uniqueify_agtype_object_def)
  qed
  with res(1) st show ?thesis by (intro exI [of _ ys]) simp
qed

subsection \<open>Insertion sort as an instance of the sorting contract\<close>

fun insort_calls :: "('a \<Rightarrow> 'a \<Rightarrow> int) \<Rightarrow> 'a \<Rightarrow> 'a list \<Rightarrow> 'a list \<times> ('a \<times> 'a) list" where
  "insort_calls cmp x [] = ([x], [])"
| "insort_calls cmp x (y # ys) =
     (if cmp x y < 0 then (x # y # ys, [(x, y)])
      else let (zs, cs) = insort_calls cmp x ys in (y # zs, (x, y) # cs))"

fun isort_calls :: "('a \<Rightarrow> 'a \<Rightarrow> int) \<Rightarrow> 'a list \<Rightarrow> 'a list \<times> ('a \<times> 'a) list" where
  "isort_calls cmp [] = ([], [])"
| "isort_calls cmp (x # xs) =
     (let (ys, cs) = isort_calls cmp xs; (zs, ds) = insort_calls cmp x ys in (zs, cs @ ds))"

text \<open>Neighbours of a list that a trace has compared.\<close>

fun nbrs_in :: "('a \<times> 'a) set \<Rightarrow> 'a list \<Rightarrow> bool" where
  "nbrs_in C (x # y # ys) \<longleftrightarrow> ((x, y) \<in> C \<or> (y, x) \<in> C) \<and> nbrs_in C (y # ys)"
| "nbrs_in C _ \<longleftrightarrow> True"

lemma nbrs_in_nth: "nbrs_in C ys \<Longrightarrow> Suc i < length ys \<Longrightarrow> (ys ! i, ys ! Suc i) \<in> C \<or> (ys ! Suc i, ys ! i) \<in> C"
proof (induction C ys arbitrary: i rule: nbrs_in.induct)
  case (1 C x y ys)
  then show ?case by (cases i) auto
qed auto

lemma nbrs_in_mono: "nbrs_in C ys \<Longrightarrow> C \<subseteq> D \<Longrightarrow> nbrs_in D ys"
  by (induction C ys rule: nbrs_in.induct) auto

lemma nbrs_in_Cons: "nbrs_in C ys \<Longrightarrow> (ys \<noteq> [] \<Longrightarrow> (x, hd ys) \<in> C \<or> (hd ys, x) \<in> C) \<Longrightarrow> nbrs_in C (x # ys)"
  by (cases ys) auto

lemma insort_calls_mset: "mset (fst (insort_calls cmp x ys)) = add_mset x (mset ys)"
  by (induction ys) (auto simp: split_beta Let_def)

lemma insort_calls_set: "set (fst (insort_calls cmp x ys)) = insert x (set ys)"
  using insort_calls_mset [of cmp x ys] by (metis set_mset_add_mset_insert set_mset_mset)

lemma insort_calls_nbrs:
  assumes "nbrs_in C ys"
  shows "nbrs_in (C \<union> set (snd (insort_calls cmp x ys))) (fst (insort_calls cmp x ys)) \<and>
    (fst (insort_calls cmp x ys) \<noteq> [] \<longrightarrow> hd (fst (insort_calls cmp x ys)) = x \<or>
       (ys \<noteq> [] \<and> hd (fst (insort_calls cmp x ys)) = hd ys))"
  using assms
proof (induction ys)
  case (Cons y ys)
  let ?r = "insort_calls cmp x ys"
  have y: "nbrs_in C ys" using Cons.prems by (cases ys) auto
  note IH = Cons.IH [OF y]
  have "nbrs_in (C \<union> insert (x, y) (set (snd ?r))) (y # fst ?r)"
    using IH Cons.prems
    by (intro nbrs_in_Cons) (auto elim!: nbrs_in_mono, (cases ys; auto)+)
  moreover have "nbrs_in (insert (x, y) C) (y # ys)"
    using Cons.prems by (auto elim: nbrs_in_mono)
  ultimately show ?case using Cons.prems by (auto simp: split_beta Let_def)
qed simp

lemma insort_calls_sorted:
  assumes "sorted_wrt (\<lambda>a b. cmp a b < 0) ys" "x \<notin> set ys" "strict_order_on cmp (insert x (set ys))"
  shows "sorted_wrt (\<lambda>a b. cmp a b < 0) (fst (insort_calls cmp x ys))"
  using assms
proof (induction ys)
  case (Cons y ys)
  have neq: "x \<noteq> y" "x \<notin> set ys" using Cons.prems(2) by auto
  note so = Cons.prems(3)
  show ?case
  proof (cases "cmp x y < 0")
    case True
    have "cmp x z < 0" if z: "z \<in> set ys" for z
    proof (cases "y = z")
      case False
      have "cmp y z < 0" using Cons.prems(1) z by simp
      then show ?thesis using strict_order_on_trans [OF so, of x y z] True z neq(1) False by simp
    qed (use True in simp)
    with True Cons.prems(1) show ?thesis by simp
  next
    case False
    then have yx: "cmp y x < 0" using strict_order_onD(1) [OF so, of y x] neq by simp
    have "sorted_wrt (\<lambda>a b. cmp a b < 0) (fst (insort_calls cmp x ys))"
      using Cons.prems(1) neq(2) by (intro Cons.IH strict_order_on_subset [OF so]) auto
    with False yx Cons.prems(1) show ?thesis
      by (simp add: split_beta Let_def insort_calls_set)
  qed
qed simp

lemma isort_calls_mset: "mset (fst (isort_calls cmp xs)) = mset xs"
  by (induction xs) (auto simp: split_beta Let_def insort_calls_mset)

lemma isort_calls_nbrs: "nbrs_in (set (snd (isort_calls cmp xs))) (fst (isort_calls cmp xs))"
  by (induction xs) (simp_all add: split_beta Let_def insort_calls_nbrs)

lemma isort_calls_sorted:
  assumes "strict_order_on cmp (set xs)" "distinct xs"
  shows "sorted_wrt (\<lambda>x y. cmp x y < 0) (fst (isort_calls cmp xs))"
  using assms
proof (induction xs)
  case (Cons x xs)
  have s: "set (fst (isort_calls cmp xs)) = set xs"
    using isort_calls_mset [of cmp xs] by (metis set_mset_mset)
  have "sorted_wrt (\<lambda>x y. cmp x y < 0) (fst (isort_calls cmp xs))"
    using Cons.prems(2) by (intro Cons.IH strict_order_on_subset [OF Cons.prems(1)]) auto
  then have "sorted_wrt (\<lambda>x y. cmp x y < 0) (fst (insort_calls cmp x (fst (isort_calls cmp xs))))"
    using Cons.prems s by (intro insort_calls_sorted) simp_all
  then show ?case by (simp add: split_beta Let_def)
qed simp

lemma isort_calls_ok: "qsort_ok isort_calls"
  unfolding qsort_ok_def
proof (intro allI impI conjI)
  fix cmp :: "agtype_pair \<Rightarrow> agtype_pair \<Rightarrow> int" and xs ys calls
  assume "isort_calls cmp xs = (ys, calls)"
  then have e: "ys = fst (isort_calls cmp xs)" "calls = snd (isort_calls cmp xs)" by simp_all
  assume "strict_order_on cmp (set xs)" "distinct xs"
  then show "sorted_wrt (\<lambda>x y. cmp x y < 0) ys" unfolding e by (rule isort_calls_sorted)
  show "mset ys = mset xs" by (simp add: e isort_calls_mset)
  show "(ys ! i, ys ! Suc i) \<in> set calls \<or> (ys ! Suc i, ys ! i) \<in> set calls" if "Suc i < length ys" for i
    using nbrs_in_nth [OF isort_calls_nbrs] that unfolding e by blast
qed

subsection \<open>Building an object by pushing its pairs\<close>

fun push_all :: "pg_env \<Rightarrow> agtype_parse_state list \<Rightarrow> agtype_value option \<Rightarrow>
    (agtype_iterator_token \<times> agtype_value option) list \<Rightarrow> (agtype_value option \<times> agtype_parse_state list) result" where
  "push_all env ps res [] = Inr (res, ps)"
| "push_all env ps res ((t, v) # ts) =
     bindE (push_agtype_value_scalar env ps t v) (\<lambda>(res', ps'). push_all env ps' res' ts)"

lemma push_all_append [simp]:
  "push_all env ps res (ts @ us) = bindE (push_all env ps res ts) (\<lambda>(res', ps'). push_all env ps' res' us)"
  by (induction ts arbitrary: ps res) (auto simp: bindE_def split: sum.splits)

fun number_pairs :: "nat \<Rightarrow> (byte list \<times> agtype_value) list \<Rightarrow> agtype_pair list" where
  "number_pairs n [] = []"
| "number_pairs n ((k, v) # kvs) = (k, v, n) # number_pairs (Suc n) kvs"

fun pair_tokens :: "(byte list \<times> agtype_value) list \<Rightarrow> (agtype_iterator_token \<times> agtype_value option) list" where
  "pair_tokens [] = []"
| "pair_tokens ((k, v) # kvs) = (WAGT_KEY, Some (AGTV_STRING k)) # (WAGT_VALUE, Some v) # pair_tokens kvs"

lemma length_number_pairs [simp]: "length (number_pairs n kvs) = length kvs"
  by (induction n kvs rule: number_pairs.induct) auto

lemma number_pairs_append: "number_pairs n (xs @ ys) = number_pairs n xs @ number_pairs (n + length xs) ys"
  by (induction n xs rule: number_pairs.induct) auto

lemma number_pairs_order: "map pair_order (number_pairs n kvs) = [n..<n + length kvs]"
  by (induction n kvs rule: number_pairs.induct) (auto simp: upt_conv_Cons simp del: upt_Suc)

lemma number_pairs_bound: "x \<in> set (number_pairs n kvs) \<Longrightarrow> pair_order x < n + length kvs"
proof -
  assume "x \<in> set (number_pairs n kvs)"
  then have "pair_order x \<in> set (map pair_order (number_pairs n kvs))" by simp
  then show ?thesis unfolding number_pairs_order by simp
qed

lemma push_pairs:
  assumes "ps_cont st = PS_OBJECT pairs None" "0 < ps_size st" "length pairs \<le> ps_size st"
    "length pairs + length kvs \<le> AGTYPE_MAX_PAIRS"
  shows "\<exists>st' r. push_all env (st # ps) res (pair_tokens kvs) = Inr (r, st' # ps) \<and>
           ps_cont st' = PS_OBJECT (pairs @ number_pairs (length pairs) kvs) None"
  using assms
proof (induction kvs arbitrary: st pairs res)
  case Nil
  then show ?case by simp
next
  case (Cons kv kvs)
  obtain k v where kv: "kv = (k, v)" by fastforce
  let ?sz = "if length pairs \<ge> ps_size st then ps_size st * 2 else ps_size st"
  let ?st1 = "st\<lparr>ps_size := ?sz, ps_cont := PS_OBJECT pairs (Some (k, length pairs))\<rparr>"
  let ?st2 = "?st1\<lparr>ps_cont := PS_OBJECT (pairs @ [(k, v, length pairs)]) None, ps_last_updated := Some (length pairs)\<rparr>"
  have lt: "length pairs < ?sz" using Cons.prems by auto
  have k1: "append_key st k = Inr ?st1"
    using Cons.prems lt by (auto simp: append_key_def Let_def)
  have k2: "append_value ?st1 v = Inr ?st2" using lt by (simp add: append_value_def)
  have "\<exists>st' r. push_all env (?st2 # ps) None (pair_tokens kvs) = Inr (r, st' # ps) \<and>
      ps_cont st' = PS_OBJECT ((pairs @ [(k, v, length pairs)]) @ number_pairs (length (pairs @ [(k, v, length pairs)])) kvs) None"
    using lt Cons.prems by (intro Cons.IH) (simp_all split: if_splits)
  with k1 k2 show ?case by (simp add: kv)
qed

definition pairs_map :: "agtype_pair list \<Rightarrow> byte list \<Rightarrow> agtype_value option" where
  "pairs_map ps = map_of (map (\<lambda>p. (pair_key p, pair_value p)) ps)"

lemma keys_sorted_distinct: "keys_sorted ps \<Longrightarrow> distinct (map pair_key ps)"
  unfolding keys_sorted_def by (induction ps) (auto simp: image_iff)

lemma pairs_map_iff: "keys_sorted ps \<Longrightarrow> pairs_map ps k = Some v \<longleftrightarrow> (\<exists>ord. (k, v, ord) \<in> set ps)"
proof -
  assume "keys_sorted ps"
  then have "distinct (map fst (map (\<lambda>p. (pair_key p, pair_value p)) ps))"
    using keys_sorted_distinct by (simp add: comp_def)
  then show ?thesis unfolding pairs_map_def by (subst map_of_eq_Some_iff) (force simp: image_iff)+
qed

lemma last_of_key_number_pairs:
  "(\<exists>ord. last_of_key (number_pairs n kvs) (k, v, ord)) \<longleftrightarrow> map_of (rev kvs) k = Some v"
proof (induction kvs rule: rev_induct)
  case Nil
  then show ?case by (simp add: last_by_def)
next
  case (snoc kv kvs)
  obtain k' v' where kv: "kv = (k', v')" by fastforce
  let ?N = "n + length kvs"
  have lt: "pair_order y < ?N" if "y \<in> set (number_pairs n kvs)" for y by (rule number_pairs_bound [OF that])
  have "last_of_key (number_pairs n kvs @ [(k', v', ?N)]) (k, v, ord) \<longleftrightarrow>
      (if k = k' then v = v' \<and> ord = ?N else last_of_key (number_pairs n kvs) (k, v, ord))" for ord
  proof (cases "k = k'")
    case True
    have "v = v' \<and> ord = ?N" if l: "last_of_key (number_pairs n kvs @ [(k', v', ?N)]) (k, v, ord)"
    proof -
      have "(k, v, ord) = (k', v', ?N) \<or> pair_order (k, v, ord) < ?N" "(k', v', ?N) = (k, v, ord) \<or> ?N < ord"
        using l lt True by (auto simp: last_by_def)
      then show ?thesis by auto
    qed
    moreover have "last_of_key (number_pairs n kvs @ [(k', v', ?N)]) (k', v', ?N)"
      using lt by (simp add: last_by_def)
    ultimately show ?thesis using True by auto
  next
    case False
    then show ?thesis by (auto simp: last_by_def)
  qed
  then show ?case
    using snoc by (cases "k = k'") (auto simp: kv number_pairs_append)
qed

text \<open>The pairs that remain, of pairs numbered in the order they were pushed.\<close>

lemma uniqueify_numbered:
  assumes "qsort_ok (pg_qsort_arg env)"
  shows "keys_sorted (uniqueify_agtype_object env (number_pairs 0 kvs))" "pairs_map (uniqueify_agtype_object env (number_pairs 0 kvs)) = map_of (rev kvs)"
    "set (uniqueify_agtype_object env (number_pairs 0 kvs)) \<subseteq> set (number_pairs 0 kvs)"
proof -
  obtain ys where ys: "mset ys = mset (number_pairs 0 kvs)" "sorted_wrt pair_before ys"
      "uniqueify_agtype_object env (number_pairs 0 kvs) = uniq_pairs ys"
    using uniqueify_is_uniq_pairs [OF assms, of "number_pairs 0 kvs"] number_pairs_order [of 0 kvs] by auto
  note u = uniq_pairs_spec [OF ys(2)]
  have s: "set ys = set (number_pairs 0 kvs)" using ys(1) by (rule mset_eq_setD)
  have "pairs_map (uniq_pairs ys) k = Some v \<longleftrightarrow> map_of (rev kvs) k = Some v" for k v
    using u last_of_key_number_pairs [of 0 kvs k v]
    by (simp add: pairs_map_iff last_by_def s)
  then show "pairs_map (uniqueify_agtype_object env (number_pairs 0 kvs)) = map_of (rev kvs)"
    unfolding ys(3) by (intro ext) (metis option.exhaust)
  show "keys_sorted (uniqueify_agtype_object env (number_pairs 0 kvs))" "set (uniqueify_agtype_object env (number_pairs 0 kvs)) \<subseteq> set (number_pairs 0 kvs)"
    using u s unfolding ys(3) by (auto simp: last_by_def)
qed


text \<open>Duplicate keys: pushing \<open>a:1, bb:2, a:3\<close> gives \<open>a:3, bb:2\<close>.\<close>

definition isort_env :: pg_env where
  "isort_env = \<lparr>pg_varsize = (\<lambda>m. le_nat (take 4 m) div 4), pg_qsort_arg = isort_calls, pg_numeric_cmp = memcmp,
     pg_numeric_eq = (=), pg_varstr_cmp = memcmp, pg_int8_numeric = (\<lambda>i. []), pg_float8_numeric = (\<lambda>f. Inr [])\<rparr>"

lemma isort_env_qsort [simp]: "qsort_ok (pg_qsort_arg isort_env)"
  by (simp add: isort_env_def isort_calls_ok)


end
