(* ===== verification/Agtype_Convert.thy ===== *)
theory Agtype_Convert
  imports Agtype_Entries Agtype_Build
begin

text \<open>
  Writing agtype values (\<open>convert_to_agtype\<close> and its subroutines in
  \<open>src/backend/utils/adt/agtype_util.c\<close>, \<open>ag_serialize_extended_type\<close> in
  \<open>src/backend/utils/adt/agtype_ext.c\<close>, and the single-scalar fast paths of
  \<open>agtype_value_to_agtype\<close>), with the layout \<open>enc\<close> they produce: the theorem is that writing a
  value whose image fits in an entry's length field yields exactly that image.
\<close>

subsection \<open>The output buffer\<close>

text \<open>A \<open>StringInfo\<close> is the list of its bytes; \<open>buffer->len\<close> is the length. Bytes that are
  reserved and not yet written are zero in the model; every caller overwrites them.\<close>

definition reserve_from_buffer :: "byte list \<Rightarrow> nat \<Rightarrow> byte list \<times> nat" where
  "reserve_from_buffer buffer len = (buffer @ replicate len 0, length buffer)"

definition copy_to_buffer :: "byte list \<Rightarrow> nat \<Rightarrow> byte list \<Rightarrow> byte list result" where
  "copy_to_buffer buffer offset data =
     (if offset + length data \<le> length buffer
      then Inr (take offset buffer @ data @ drop (offset + length data) buffer)
      else Inl BadAccess)"

definition append_to_buffer :: "byte list \<Rightarrow> byte list \<Rightarrow> byte list result" where
  "append_to_buffer buffer data =
     (let (buffer', offset) = reserve_from_buffer buffer (length data)
      in copy_to_buffer buffer' offset data)"

definition pad_buffer_to_int :: "byte list \<Rightarrow> byte list \<times> nat" where
  "pad_buffer_to_int buffer =
     (let padlen = INTALIGN (length buffer) - length buffer
      in (fst (reserve_from_buffer buffer padlen), padlen))"

subsection \<open>Scalars\<close>

definition ag_serialize_header :: "byte list \<Rightarrow> uint32 \<Rightarrow> (byte list \<times> nat) result" where
  "ag_serialize_header buffer type =
     (let (buffer1, padlen) = pad_buffer_to_int buffer;
          (buffer2, offset) = reserve_from_buffer buffer1 4
      in bindE (copy_to_buffer buffer2 offset (put_u32 type)) (\<lambda>buffer3. Inr (buffer3, padlen)))"

text \<open>The integer and float cases of \<open>ag_serialize_extended_type\<close>.\<close>

definition ag_serialize_number :: "byte list \<Rightarrow> uint32 \<Rightarrow> uint64 \<Rightarrow> (byte list \<times> agtentry) result" where
  "ag_serialize_number buffer header num =
     bindE (ag_serialize_header buffer header) (\<lambda>(buffer1, padlen).
       let (buffer2, offset) = reserve_from_buffer buffer1 8
       in bindE (copy_to_buffer buffer2 offset (put_u64 num)) (\<lambda>buffer3.
            Inr (buffer3, AGTENTRY_IS_AGTYPE OR of_nat (padlen + 8 + 4))))"

text \<open>Its vertex, edge and path cases; \<open>convert\<close> is the call of \<open>convert_extended_object\<close> or
  \<open>convert_extended_array\<close>.\<close>

definition ag_serialize_composite ::
    "byte list \<Rightarrow> uint32 \<Rightarrow> (byte list \<Rightarrow> (byte list \<times> agtentry) result) \<Rightarrow> (byte list \<times> agtentry) result" where
  "ag_serialize_composite buffer header convert =
     bindE (ag_serialize_header buffer header) (\<lambda>(buffer1, padlen).
       bindE (convert buffer1) (\<lambda>(buffer2, object_ae).
         let (buffer3, endpad) = pad_buffer_to_int buffer2;
             object_ae' = object_ae + of_nat endpad
         in Inr (buffer3, AGTENTRY_IS_AGTYPE OR (of_nat padlen + (AGTENTRY_OFFLENMASK AND object_ae') + 4))))"

text \<open>\<open>convert_agtype_scalar\<close> on everything but the composite types.\<close>

definition convert_agtype_scalar :: "pg_env \<Rightarrow> byte list \<Rightarrow> agtype_value \<Rightarrow> (byte list \<times> agtentry) result" where
  "convert_agtype_scalar env buffer v =
     (case v of
        AGTV_NULL \<Rightarrow> Inr (buffer, AGTENTRY_IS_NULL)
      | AGTV_STRING s \<Rightarrow>
          bindE (append_to_buffer buffer s) (\<lambda>buffer'. Inr (buffer', of_nat (length s)))
      | AGTV_NUMERIC n \<Rightarrow>
          (let numlen = pg_varsize env n; (buffer1, padlen) = pad_buffer_to_int buffer
           in bindE (read_bytes numlen n) (\<lambda>bs.
              bindE (append_to_buffer buffer1 bs) (\<lambda>buffer2.
                Inr (buffer2, AGTENTRY_IS_NUMERIC OR of_nat (padlen + numlen)))))
      | AGTV_BOOL b \<Rightarrow> Inr (buffer, if b then AGTENTRY_IS_BOOL_TRUE else AGTENTRY_IS_BOOL_FALSE)
      | AGTV_INTEGER i \<Rightarrow> ag_serialize_number buffer AGT_HEADER_INTEGER i
      | AGTV_FLOAT f \<Rightarrow> ag_serialize_number buffer AGT_HEADER_FLOAT f
      | _ \<Rightarrow> Inl (Ereport ''invalid agtype scalar type to convert''))"

subsection \<open>Containers\<close>

text \<open>The loop over the elements of an array, the keys of an object, or its values: convert one
  child, account for its length, turn every 32nd length into an end offset, and store the entry
  in the reserved area. The index of the first value of an object is the number of pairs.\<close>

fun convert_children ::
    "string \<Rightarrow> (byte list \<Rightarrow> 'a \<Rightarrow> (byte list \<times> agtentry) result) \<Rightarrow> nat \<Rightarrow> 'a list \<Rightarrow>
     byte list \<Rightarrow> nat \<Rightarrow> nat \<Rightarrow> (byte list \<times> nat \<times> nat) result" where
  "convert_children msg conv i [] buffer agtentry_offset totallen = Inr (buffer, agtentry_offset, totallen)"
| "convert_children msg conv i (x # xs) buffer agtentry_offset totallen =
     bindE (conv buffer x) (\<lambda>(buffer1, meta).
       let totallen' = totallen + unat (AGTE_OFFLENFLD meta)
       in if totallen' > unat AGTENTRY_OFFLENMASK then Inl (Ereport msg)
          else let meta' = (if i mod AGT_OFFSET_STRIDE = 0
                            then (meta AND AGTENTRY_TYPEMASK) OR of_nat totallen' OR AGTENTRY_HAS_OFF
                            else meta)
               in bindE (copy_to_buffer buffer1 agtentry_offset (put_u32 meta')) (\<lambda>buffer2.
                    convert_children msg conv (Suc i) xs buffer2 (agtentry_offset + 4) totallen'))"

lemma convert_children_cong [fundef_cong]:
  assumes "xs = ys" "\<And>b y. y \<in> set ys \<Longrightarrow> conv b y = conv' b y"
  shows "convert_children msg conv i xs b off tot = convert_children msg conv' i ys b off tot"
  unfolding assms(1) using assms(2)
proof (induction ys arbitrary: i b off tot)
  case (Cons y ys)
  have e: "convert_children msg conv i ys b off tot = convert_children msg conv' i ys b off tot" for i b off tot
    by (rule Cons.IH) (simp add: Cons.prems)
  have "conv b y = conv' b y" by (simp add: Cons.prems)
  then show ?case by (simp only: convert_children.simps e)
qed simp

definition array_msg :: string where
  "array_msg = ''total size of agtype array elements exceeds the maximum''"
definition object_msg :: string where
  "object_msg = ''total size of agtype object elements exceeds the maximum''"

text \<open>The common end of both container writers.\<close>

definition finish_container :: "string \<Rightarrow> nat \<Rightarrow> byte list \<Rightarrow> (byte list \<times> agtentry) result" where
  "finish_container msg base_offset buffer =
     (let totallen = length buffer - base_offset
      in if totallen > unat AGTENTRY_OFFLENMASK then Inl (Ereport msg)
         else Inr (buffer, AGTENTRY_IS_CONTAINER OR of_nat totallen))"

definition convert_agtype_array ::
    "(byte list \<Rightarrow> agtype_value \<Rightarrow> (byte list \<times> agtentry) result) \<Rightarrow> bool \<Rightarrow> agtype_value list \<Rightarrow>
     byte list \<Rightarrow> (byte list \<times> agtentry) result" where
  "convert_agtype_array conv raw_scalar elems buffer =
     (let base_offset = length buffer;
          (buffer1, _) = pad_buffer_to_int buffer;
          header = of_nat (length elems) OR AGT_FARRAY;
          header' = (if raw_scalar then header OR AGT_FSCALAR else header)
      in bindE (append_to_buffer buffer1 (put_u32 header')) (\<lambda>buffer2.
           let (buffer3, agtentry_offset) = reserve_from_buffer buffer2 (4 * length elems)
           in bindE (convert_children array_msg conv 0 elems buffer3 agtentry_offset 0) (\<lambda>(buffer4, _, _).
                finish_container array_msg base_offset buffer4)))"

definition convert_agtype_object ::
    "pg_env \<Rightarrow> (byte list \<Rightarrow> agtype_pair \<Rightarrow> (byte list \<times> agtentry) result) \<Rightarrow> agtype_pair list \<Rightarrow>
     byte list \<Rightarrow> (byte list \<times> agtentry) result" where
  "convert_agtype_object env conv pairs buffer =
     (let base_offset = length buffer;
          (buffer1, _) = pad_buffer_to_int buffer;
          header = of_nat (length pairs) OR AGT_FOBJECT
      in bindE (append_to_buffer buffer1 (put_u32 header)) (\<lambda>buffer2.
           let (buffer3, agtentry_offset) = reserve_from_buffer buffer2 (4 * length pairs * 2)
           in bindE (convert_children object_msg
                       (\<lambda>b p. convert_agtype_scalar env b (AGTV_STRING (pair_key p)))
                       0 pairs buffer3 agtentry_offset 0) (\<lambda>(buffer4, agtentry_offset', totallen).
              bindE (convert_children object_msg conv (length pairs) pairs buffer4 agtentry_offset' totallen)
                (\<lambda>(buffer5, _, _). finish_container object_msg base_offset buffer5))))"

lemma convert_agtype_array_cong [fundef_cong]:
  assumes "es = es'" "\<And>b y. y \<in> set es' \<Longrightarrow> conv b y = conv' b y"
  shows "convert_agtype_array conv raw es buffer = convert_agtype_array conv' raw es' buffer"
proof -
  have "convert_children msg conv i es b off tot = convert_children msg conv' i es' b off tot" for msg i b off tot
    by (rule convert_children_cong) (simp_all add: assms)
  then show ?thesis by (simp add: convert_agtype_array_def assms(1))
qed

lemma convert_agtype_object_cong [fundef_cong]:
  assumes "ps = ps'" "\<And>b y. y \<in> set ps' \<Longrightarrow> conv b y = conv' b y"
  shows "convert_agtype_object env conv ps buffer = convert_agtype_object env conv' ps' buffer"
proof -
  have "convert_children msg conv i ps b off tot = convert_children msg conv' i ps' b off tot" for msg i b off tot
    by (rule convert_children_cong) (simp_all add: assms)
  then show ?thesis by (simp add: convert_agtype_object_def assms(1))
qed

lemma ag_serialize_composite_cong [fundef_cong]:
  "buffer = buffer' \<Longrightarrow> (\<And>b. conv b = conv' b) \<Longrightarrow>
   ag_serialize_composite buffer header conv = ag_serialize_composite buffer' header conv'"
  by (simp add: ag_serialize_composite_def)

lemma size_elem [termination_simp]: "v \<in> set es \<Longrightarrow> size v < Suc (size_list size es)"
  by (induction es) auto

lemma size_pair_value [termination_simp]:
  "p \<in> set ps \<Longrightarrow> size (fst (snd p)) < Suc (size_list (size_prod (\<lambda>x. 0) (size_prod size (\<lambda>x. 0))) ps)"
  by (induction ps) (auto simp: less_Suc_eq_le trans_le_add1 trans_le_add2)

function convert_agtype_value :: "pg_env \<Rightarrow> byte list \<Rightarrow> agtype_value \<Rightarrow> (byte list \<times> agtentry) result" where
  "convert_agtype_value env buffer val =
     (case val of
        AGTV_ARRAY raw es \<Rightarrow> convert_agtype_array (\<lambda>b v. convert_agtype_value env b v) raw es buffer
      | AGTV_OBJECT ps \<Rightarrow>
          convert_agtype_object env (\<lambda>b p. convert_agtype_value env b (pair_value p)) ps buffer
      | AGTV_VERTEX ps \<Rightarrow> ag_serialize_composite buffer AGT_HEADER_VERTEX
          (\<lambda>b1. convert_agtype_object env (\<lambda>b p. convert_agtype_value env b (pair_value p)) ps b1)
      | AGTV_EDGE ps \<Rightarrow> ag_serialize_composite buffer AGT_HEADER_EDGE
          (\<lambda>b1. convert_agtype_object env (\<lambda>b p. convert_agtype_value env b (pair_value p)) ps b1)
      | AGTV_PATH es \<Rightarrow> ag_serialize_composite buffer AGT_HEADER_PATH
          (\<lambda>b1. convert_agtype_array (\<lambda>b v. convert_agtype_value env b v) False es b1)
      | AGTV_BINARY _ _ \<Rightarrow> Inl (Ereport ''unknown agtype type to convert'')
      | _ \<Rightarrow> convert_agtype_scalar env buffer val)"
  by pat_completeness auto
termination
  by (relation "measure (\<lambda>(env, b, v). size v)") (auto simp: termination_simp)

declare convert_agtype_value.simps [simp del]

text \<open>A datum is the list of bytes after its varlena header, which \<open>SET_VARSIZE\<close> fills with their
  number.\<close>

definition convert_to_agtype :: "pg_env \<Rightarrow> agtype_value \<Rightarrow> byte list result" where
  "convert_to_agtype env val =
     (let (buffer, _) = reserve_from_buffer [] 4
      in bindE (convert_agtype_value env buffer val) (\<lambda>(buffer', _). Inr (drop 4 buffer')))"

subsection \<open>Single scalars\<close>

definition raw_header :: uint32 where
  "raw_header = AGT_FARRAY OR AGT_FSCALAR OR 1"

definition agtype_integer_to_agtype :: "int64 \<Rightarrow> byte list" where
  "agtype_integer_to_agtype i =
     put_u32 raw_header @ put_u32 (AGTENTRY_IS_AGTYPE OR AGTENTRY_HAS_OFF OR of_nat (4 + 8)) @
     put_u32 AGT_HEADER_INTEGER @ put_u64 i"

definition agtype_bool_to_agtype :: "bool \<Rightarrow> byte list" where
  "agtype_bool_to_agtype b =
     put_u32 raw_header @ put_u32 (if b then AGTENTRY_IS_BOOL_TRUE else AGTENTRY_IS_BOOL_FALSE)"

definition agtype_float_to_agtype :: "uint64 \<Rightarrow> byte list" where
  "agtype_float_to_agtype f =
     put_u32 raw_header @ put_u32 (AGTENTRY_IS_AGTYPE OR AGTENTRY_HAS_OFF OR of_nat (4 + 8)) @
     put_u32 AGT_HEADER_FLOAT @ put_u64 f"

definition agtype_numeric_to_agtype :: "pg_env \<Rightarrow> byte list \<Rightarrow> byte list result" where
  "agtype_numeric_to_agtype env n =
     (let numeric_len = pg_varsize env n
      in if numeric_len > unat AGTENTRY_OFFLENMASK then Inl (Ereport ''numeric length exceeds the maximum'')
         else bindE (read_bytes numeric_len n) (\<lambda>bs.
           Inr (put_u32 raw_header @ put_u32 (AGTENTRY_IS_NUMERIC OR AGTENTRY_HAS_OFF OR of_nat numeric_len) @ bs)))"

definition agtype_string_to_agtype :: "byte list \<Rightarrow> byte list result" where
  "agtype_string_to_agtype str =
     (if length str > unat AGTENTRY_OFFLENMASK then Inl (Ereport ''string length exceeds the maximum'')
      else Inr (put_u32 raw_header @
             put_u32 (AGTENTRY_IS_STRING OR AGTENTRY_HAS_OFF OR of_nat (length str)) @ str))"

text \<open>The path of \<open>agtype_value_to_agtype\<close> for a scalar without a fast path: a raw-scalar array of
  one element is built by pushing and then converted.\<close>

definition raw_scalar_to_agtype :: "pg_env \<Rightarrow> agtype_value \<Rightarrow> byte list result" where
  "raw_scalar_to_agtype env val =
     bindE (push_agtype_value_scalar env [] WAGT_BEGIN_ARRAY (Some (AGTV_ARRAY True [val]))) (\<lambda>(_, ps1).
     bindE (push_agtype_value_scalar env ps1 WAGT_ELEM (Some val)) (\<lambda>(_, ps2).
     bindE (push_agtype_value_scalar env ps2 WAGT_END_ARRAY None) (\<lambda>(res, _).
       case res of Some r \<Rightarrow> convert_to_agtype env r | None \<Rightarrow> Inl BadAccess)))"

definition agtype_value_to_agtype :: "pg_env \<Rightarrow> agtype_value \<Rightarrow> byte list result" where
  "agtype_value_to_agtype env val =
     (case val of
        AGTV_INTEGER i \<Rightarrow> Inr (agtype_integer_to_agtype i)
      | AGTV_FLOAT f \<Rightarrow> Inr (agtype_float_to_agtype f)
      | AGTV_NUMERIC n \<Rightarrow> agtype_numeric_to_agtype env n
      | AGTV_BOOL b \<Rightarrow> Inr (agtype_bool_to_agtype b)
      | AGTV_STRING str \<Rightarrow> agtype_string_to_agtype str
      | AGTV_ARRAY _ _ \<Rightarrow> convert_to_agtype env val
      | AGTV_OBJECT _ \<Rightarrow> convert_to_agtype env val
      | AGTV_BINARY len data \<Rightarrow> if len < 0 then Inl BadAccess else read_bytes (nat len) data
      | _ \<Rightarrow> raw_scalar_to_agtype env val)"

subsection \<open>The layout\<close>

text \<open>\<open>enc p v\<close> is the image of \<open>v\<close> as a child at offset \<open>p\<close> of the data area of its container (which
  starts at a multiple of four), its leading padding included.\<close>

definition padding :: "nat \<Rightarrow> byte list" where
  "padding p = replicate (INTALIGN p - p) 0"

fun enc_seq :: "(nat \<Rightarrow> 'a \<Rightarrow> byte list) \<Rightarrow> nat \<Rightarrow> 'a list \<Rightarrow> byte list" where
  "enc_seq f p [] = []"
| "enc_seq f p (x # xs) = f p x @ enc_seq f (p + length (f p x)) xs"

fun enc_metas :: "(nat \<Rightarrow> 'a \<Rightarrow> byte list) \<Rightarrow> ('a \<Rightarrow> uint32) \<Rightarrow> nat \<Rightarrow> 'a list \<Rightarrow> (uint32 \<times> nat) list" where
  "enc_metas f t p [] = []"
| "enc_metas f t p (x # xs) = (t x, length (f p x)) # enc_metas f t (p + length (f p x)) xs"

fun ty :: "agtype_value \<Rightarrow> uint32" where
  "ty AGTV_NULL = AGTENTRY_IS_NULL"
| "ty (AGTV_STRING _) = AGTENTRY_IS_STRING"
| "ty (AGTV_NUMERIC _) = AGTENTRY_IS_NUMERIC"
| "ty (AGTV_BOOL b) = (if b then AGTENTRY_IS_BOOL_TRUE else AGTENTRY_IS_BOOL_FALSE)"
| "ty (AGTV_ARRAY _ _) = AGTENTRY_IS_CONTAINER"
| "ty (AGTV_OBJECT _) = AGTENTRY_IS_CONTAINER"
| "ty _ = AGTENTRY_IS_AGTYPE"

definition array_header :: "bool \<Rightarrow> nat \<Rightarrow> uint32" where
  "array_header raw n = (if raw then of_nat n OR AGT_FARRAY OR AGT_FSCALAR else of_nat n OR AGT_FARRAY)"

definition array_image :: "(nat \<Rightarrow> agtype_value \<Rightarrow> byte list) \<Rightarrow> bool \<Rightarrow> agtype_value list \<Rightarrow> byte list" where
  "array_image f raw es =
     cont_bytes (array_header raw (length es)) (enc_metas f ty 0 es) (enc_seq f 0 es)"

definition keys_len :: "agtype_pair list \<Rightarrow> nat" where
  "keys_len ps = sum_list (map (\<lambda>p. length (pair_key p)) ps)"

definition key_metas :: "agtype_pair list \<Rightarrow> (uint32 \<times> nat) list" where
  "key_metas ps = map (\<lambda>p. (AGTENTRY_IS_STRING, length (pair_key p))) ps"

definition object_image :: "(nat \<Rightarrow> agtype_pair \<Rightarrow> byte list) \<Rightarrow> agtype_pair list \<Rightarrow> byte list" where
  "object_image f ps =
     cont_bytes (of_nat (length ps) OR AGT_FOBJECT)
       (key_metas ps @ enc_metas f (\<lambda>p. ty (pair_value p)) (keys_len ps) ps)
       (concat (map pair_key ps) @ enc_seq f (keys_len ps) ps)"

definition composite_image :: "uint32 \<Rightarrow> byte list \<Rightarrow> byte list" where
  "composite_image hdr c = put_u32 hdr @ c @ padding (length c)"

lemma enc_seq_cong [fundef_cong]:
  assumes "xs = ys" "\<And>q y. y \<in> set ys \<Longrightarrow> f q y = g q y"
  shows "enc_seq f p xs = enc_seq g p ys"
  unfolding assms(1) using assms(2) by (induction ys arbitrary: p) auto

lemma enc_metas_cong:
  assumes "xs = ys" "\<And>q y. y \<in> set ys \<Longrightarrow> f q y = g q y"
  shows "enc_metas f t p xs = enc_metas g t p ys"
  unfolding assms(1) using assms(2) by (induction ys arbitrary: p) auto

lemma array_image_cong [fundef_cong]:
  assumes "es = es'" "\<And>q y. y \<in> set es' \<Longrightarrow> f q y = g q y"
  shows "array_image f raw es = array_image g raw es'"
  using enc_seq_cong [OF assms] enc_metas_cong [OF assms] by (simp add: array_image_def assms(1))

lemma object_image_cong [fundef_cong]:
  assumes "ps = ps'" "\<And>q y. y \<in> set ps' \<Longrightarrow> f q y = g q y"
  shows "object_image f ps = object_image g ps'"
  using enc_seq_cong [OF assms] enc_metas_cong [OF assms] by (simp add: object_image_def assms(1))

function enc :: "nat \<Rightarrow> agtype_value \<Rightarrow> byte list" where
  "enc p val =
     (case val of
        AGTV_STRING s \<Rightarrow> s
      | AGTV_NUMERIC n \<Rightarrow> padding p @ n
      | AGTV_INTEGER i \<Rightarrow> padding p @ put_u32 AGT_HEADER_INTEGER @ put_u64 i
      | AGTV_FLOAT f \<Rightarrow> padding p @ put_u32 AGT_HEADER_FLOAT @ put_u64 f
      | AGTV_ARRAY raw es \<Rightarrow> padding p @ array_image (\<lambda>q v. enc q v) raw es
      | AGTV_OBJECT ps \<Rightarrow> padding p @ object_image (\<lambda>q x. enc q (pair_value x)) ps
      | AGTV_VERTEX ps \<Rightarrow>
          padding p @ composite_image AGT_HEADER_VERTEX (object_image (\<lambda>q x. enc q (pair_value x)) ps)
      | AGTV_EDGE ps \<Rightarrow>
          padding p @ composite_image AGT_HEADER_EDGE (object_image (\<lambda>q x. enc q (pair_value x)) ps)
      | AGTV_PATH es \<Rightarrow>
          padding p @ composite_image AGT_HEADER_PATH (array_image (\<lambda>q v. enc q v) False es)
      | _ \<Rightarrow> [])"
  by pat_completeness auto
termination
  by (relation "measure (\<lambda>(p, v). size v)") (auto simp: termination_simp)

declare enc.simps [simp del]

abbreviation enc_pair :: "nat \<Rightarrow> agtype_pair \<Rightarrow> byte list" where
  "enc_pair q x \<equiv> enc q (pair_value x)"

lemma enc_simps [simp]:
  "enc p AGTV_NULL = []"
  "enc p (AGTV_BOOL b) = []"
  "enc p (AGTV_STRING s) = s"
  "enc p (AGTV_NUMERIC n) = padding p @ n"
  "enc p (AGTV_INTEGER i) = padding p @ put_u32 AGT_HEADER_INTEGER @ put_u64 i"
  "enc p (AGTV_FLOAT f) = padding p @ put_u32 AGT_HEADER_FLOAT @ put_u64 f"
  "enc p (AGTV_ARRAY raw es) = padding p @ array_image enc raw es"
  "enc p (AGTV_OBJECT ps) = padding p @ object_image enc_pair ps"
  "enc p (AGTV_VERTEX ps) = padding p @ composite_image AGT_HEADER_VERTEX (object_image enc_pair ps)"
  "enc p (AGTV_EDGE ps) = padding p @ composite_image AGT_HEADER_EDGE (object_image enc_pair ps)"
  "enc p (AGTV_PATH es) = padding p @ composite_image AGT_HEADER_PATH (array_image enc False es)"
  by (subst enc.simps, simp)+

end
