(* ===== verification/Agtype_Encode.thy ===== *)
theory Agtype_Encode
  imports Agtype_Convert
begin

text \<open>
  The writers produce the layout: for every value whose image fits in an entry's length field,
  \<open>convert_agtype_value\<close> appends exactly \<open>enc\<close> to its buffer and returns the matching entry, and
  the single-scalar fast paths agree with the generic path byte for byte, except for booleans.
\<close>

subsection \<open>Induction over values\<close>

fun kids :: "agtype_value \<Rightarrow> agtype_value list" where
  "kids (AGTV_VERTEX ps) = map (\<lambda>p. pair_value p) ps"
| "kids (AGTV_EDGE ps) = map (\<lambda>p. pair_value p) ps"
| "kids (AGTV_OBJECT ps) = map (\<lambda>p. pair_value p) ps"
| "kids (AGTV_PATH es) = es"
| "kids (AGTV_ARRAY raw es) = es"
| "kids _ = []"

lemma size_kids: "w \<in> set (kids v) \<Longrightarrow> size w < size v"
  by (cases v) (auto dest: size_elem size_pair_value)

lemma kids_induct [case_names kids]:
  assumes "\<And>v. (\<And>w. w \<in> set (kids v) \<Longrightarrow> P w) \<Longrightarrow> P v"
  shows "P v"
proof (induction v rule: measure_induct_rule [where f = size])
  case (less v)
  show ?case by (rule assms) (rule less, erule size_kids)
qed

text \<open>Values the writers accept: no \<open>AGTV_BINARY\<close> inside, and \<open>VARSIZE_ANY\<close> of every numeric is
  the length of its image.\<close>

function writable :: "pg_env \<Rightarrow> agtype_value \<Rightarrow> bool" where
  "writable env v \<longleftrightarrow>
     (case v of AGTV_BINARY _ _ \<Rightarrow> False | AGTV_NUMERIC n \<Rightarrow> pg_varsize env n = length n | _ \<Rightarrow> True) \<and>
     (\<forall>w \<in> set (kids v). writable env w)"
  by pat_completeness auto
termination by (relation "measure (\<lambda>(env, v). size v)") (auto simp: size_kids)

declare writable.simps [simp del]

lemma writable_kids: "writable env v \<Longrightarrow> w \<in> set (kids v) \<Longrightarrow> writable env w"
  by (subst (asm) writable.simps) simp

lemma writable_BINARY [simp]: "\<not> writable env (AGTV_BINARY len d)"
  by (subst writable.simps) simp

lemma writable_NUMERIC [simp]: "writable env (AGTV_NUMERIC n) \<longleftrightarrow> pg_varsize env n = length n"
  by (subst writable.simps) simp

lemma writable_scalars [simp]:
  "writable env AGTV_NULL" "writable env (AGTV_STRING s)" "writable env (AGTV_INTEGER i)"
  "writable env (AGTV_FLOAT f)" "writable env (AGTV_BOOL b)"
  by (subst writable.simps, simp)+

subsection \<open>Buffer operations\<close>

lemma INTALIGN_mod4:
  assumes "m mod 4 = n mod 4"
  shows "INTALIGN m - m = INTALIGN n - n"
proof -
  have "INTALIGN k - k = (4 - k mod 4) mod 4" for k
  proof -
    have k: "k = k div 4 * 4 + k mod 4" by simp
    have e: "INTALIGN k = k div 4 * 4 + INTALIGN (k mod 4)"
      using INTALIGN_add_dvd [of "k div 4 * 4" "k mod 4"] by simp
    have "k mod 4 = 0 \<or> k mod 4 = 1 \<or> k mod 4 = 2 \<or> k mod 4 = 3" by linarith
    then have "INTALIGN (k mod 4) - k mod 4 = (4 - k mod 4) mod 4" by (elim disjE) (simp_all add: INTALIGN_def)
    moreover have "INTALIGN k - k = INTALIGN (k mod 4) - k mod 4" using e k by linarith
    ultimately show ?thesis by simp
  qed
  with assms show ?thesis by simp
qed

lemma INTALIGN_pad: "INTALIGN p = p + (INTALIGN p - p)"
  using INTALIGN_ge [of p] by simp

lemma length_padding [simp]: "length (padding p) = INTALIGN p - p"
  by (simp add: padding_def)

lemma append_to_buffer [simp]: "append_to_buffer b d = Inr (b @ d)"
  by (simp add: append_to_buffer_def reserve_from_buffer_def copy_to_buffer_def)

lemma copy_to_buffer_mid:
  "length pre = off \<Longrightarrow> length old = length d \<Longrightarrow>
     copy_to_buffer (pre @ old @ post) off d = Inr (pre @ d @ post)"
  by (simp add: copy_to_buffer_def)

lemma copy_reserved [simp]: "length d = n \<Longrightarrow> copy_to_buffer (b @ replicate n 0) (length b) d = Inr (b @ d)"
  by (simp add: copy_to_buffer_def)

lemma pad_buffer [simp]:
  assumes "length b mod 4 = p mod 4"
  shows "pad_buffer_to_int b = (b @ padding p, INTALIGN p - p)"
  using INTALIGN_mod4 [OF assms]
  by (simp add: pad_buffer_to_int_def reserve_from_buffer_def padding_def Let_def)

lemma ag_serialize_header_eq [simp]:
  "length b mod 4 = p mod 4 \<Longrightarrow>
     ag_serialize_header b h = Inr (b @ padding p @ put_u32 h, INTALIGN p - p)"
  using copy_reserved [of "put_u32 h" 4 "b @ padding p"]
  by (simp add: ag_serialize_header_def reserve_from_buffer_def)

lemma ag_serialize_number_eq [simp]:
  "length b mod 4 = p mod 4 \<Longrightarrow>
     ag_serialize_number b h w =
       Inr (b @ padding p @ put_u32 h @ put_u64 w, AGTENTRY_IS_AGTYPE OR of_nat (INTALIGN p - p + 12))"
  using copy_reserved [of "put_u64 w" 8 "b @ padding p @ put_u32 h"]
  by (simp add: ag_serialize_number_def reserve_from_buffer_def add.commute)

subsection \<open>The loop over children\<close>

lemma entry_type_ty [simp]: "entry_type_bits (ty v)"
  by (cases v) auto

lemma length_enc_metas [simp]: "length (enc_metas f t p xs) = length xs"
  by (induction xs arbitrary: p) auto

lemma convert_children_enc:
  assumes "\<And>q x b. x \<in> set xs \<Longrightarrow> length b mod 4 = q mod 4 \<Longrightarrow> fits (length (f q x)) \<Longrightarrow>
       conv b x = Inr (b @ f q x, t x OR of_nat (length (f q x)))"
    and "\<And>x. x \<in> set xs \<Longrightarrow> entry_type_bits (t x)"
    and "length (pre @ hole @ body) mod 4 = p mod 4" "fits (p + length (enc_seq f p xs))"
    and "length hole = 4 * length xs + extra"
  shows "convert_children msg conv i xs (pre @ hole @ body) (length pre) p =
    Inr (pre @ concat (map put_u32 (mk_entries i p (enc_metas f t p xs))) @ drop (4 * length xs) hole @ body @ enc_seq f p xs,
         length pre + 4 * length xs, p + length (enc_seq f p xs))"
  using assms
proof (induction xs arbitrary: pre hole body p i)
  case Nil
  then show ?case by simp
next
  case (Cons x xs)
  let ?n = "length (f p x)"
  define m where "m = (if i mod AGT_OFFSET_STRIDE = 0 then t x OR of_nat (p + ?n) OR AGTENTRY_HAS_OFF else t x OR of_nat ?n)"
  have fit: "fits ?n" "fits (p + ?n)" using Cons.prems(4) by (auto elim: fits_mono)
  have tb: "entry_type_bits (t x)" using Cons.prems(2) by simp
  have c: "conv (pre @ hole @ body) x = Inr ((pre @ hole @ body) @ f p x, t x OR of_nat ?n)"
    using Cons.prems(1) [of x "pre @ hole @ body" p] Cons.prems(3) fit by simp
  have h: "hole = take 4 hole @ drop 4 hole" "length (take 4 hole) = 4" using Cons.prems(5) by auto
  have hx: "take 4 hole @ drop 4 hole @ rest = hole @ rest" for rest
    by (metis append.assoc append_take_drop_id)
  have cp: "copy_to_buffer (pre @ hole @ body @ f p x) (length pre) (put_u32 m) =
      Inr ((pre @ put_u32 m) @ drop 4 hole @ (body @ f p x))"
    using copy_to_buffer_mid [of pre "length pre" "take 4 hole" "put_u32 m" "drop 4 hole @ body @ f p x"] h(2)
    by (simp only: hx length_put_u32 append_assoc refl simp_thms)
  have IH: "convert_children msg conv (Suc i) xs ((pre @ put_u32 m) @ drop 4 hole @ (body @ f p x)) (length (pre @ put_u32 m)) (p + ?n) =
    Inr ((pre @ put_u32 m) @ concat (map put_u32 (mk_entries (Suc i) (p + ?n) (enc_metas f t (p + ?n) xs))) @
           drop (4 * length xs) (drop 4 hole) @ (body @ f p x) @ enc_seq f (p + ?n) xs,
         length (pre @ put_u32 m) + 4 * length xs, (p + ?n) + length (enc_seq f (p + ?n) xs))"
  proof (rule Cons.IH)
    have "length ((pre @ put_u32 m) @ drop 4 hole @ body @ f p x) = length (pre @ hole @ body) + ?n"
      using Cons.prems(5) by simp
    then show "length ((pre @ put_u32 m) @ drop 4 hole @ body @ f p x) mod 4 = (p + ?n) mod 4"
      using mod_add_cong [OF Cons.prems(3) refl, of ?n] by metis
  qed (use Cons.prems in \<open>auto simp: add.assoc\<close>)
  have le: "\<not> p + ?n > unat AGTENTRY_OFFLENMASK" using fit(2) by (simp add: fits_def)
  have mt: "(t x OR of_nat ?n) AND AGTENTRY_TYPEMASK = t x"
    using plain_entry_fields(2) [OF tb fit(1)] by (simp add: AGTE_TYPE_def)
  have u: "unat (AGTE_OFFLENFLD (t x OR of_nat ?n)) = ?n" using tb fit(1) by simp
  have step: "convert_children msg conv i (x # xs) (pre @ hole @ body) (length pre) p =
      bindE (copy_to_buffer (pre @ hole @ body @ f p x) (length pre) (put_u32 m))
        (\<lambda>b. convert_children msg conv (Suc i) xs b (length pre + 4) (p + ?n))"
    by (simp add: c u le mt Let_def m_def del: of_nat_add)
  have "mk_entries i p (enc_metas f t p (x # xs)) = m # mk_entries (Suc i) (p + ?n) (enc_metas f t (p + ?n) xs)"
    by (simp add: m_def del: of_nat_add)
  then show ?case
    unfolding step cp using IH by (simp add: add.assoc add.commute)
qed

subsection \<open>Containers\<close>

lemma aligned_after_padding: "length b mod 4 = p mod 4 \<Longrightarrow> (length b + (INTALIGN p - p)) mod 4 = 0"
proof -
  assume "length b mod 4 = p mod 4"
  then have "(length b + (INTALIGN p - p)) mod 4 = (p + (INTALIGN p - p)) mod 4"
    by (metis mod_add_left_eq)
  also have "\<dots> = INTALIGN p mod 4" using INTALIGN_pad [of p] by simp
  finally show ?thesis by (simp add: dvd_imp_mod_0)
qed

lemma length_cont_bytes [simp]: "length (cont_bytes hdr ms data) = 4 + 4 * length ms + length data"
  by (simp add: cont_bytes_def)

lemma length_array_image [simp]: "length (array_image f raw es) = 4 + 4 * length es + length (enc_seq f 0 es)"
  by (simp add: array_image_def)

lemma length_keys [simp]: "length (concat (map pair_key ps)) = keys_len ps"
  by (induction ps) (auto simp: keys_len_def)

lemma length_object_image [simp]:
  "length (object_image f ps) = 4 + 8 * length ps + keys_len ps + length (enc_seq f (keys_len ps) ps)"
  by (simp add: object_image_def key_metas_def)

lemma finish_container_eq [simp]:
  "fits (length w) \<Longrightarrow> finish_container msg (length b) (b @ w) = Inr (b @ w, AGTENTRY_IS_CONTAINER OR of_nat (length w))"
  by (simp add: finish_container_def fits_def)

definition writes :: "(byte list \<Rightarrow> 'a \<Rightarrow> (byte list \<times> agtentry) result) \<Rightarrow> (nat \<Rightarrow> 'a \<Rightarrow> byte list) \<Rightarrow> ('a \<Rightarrow> uint32) \<Rightarrow> 'a \<Rightarrow> bool" where
  "writes conv f t x \<longleftrightarrow> (\<forall>q b. length b mod 4 = q mod 4 \<longrightarrow> fits (length (f q x)) \<longrightarrow>
     conv b x = Inr (b @ f q x, t x OR of_nat (length (f q x))))"

lemma convert_children_writes:
  assumes "\<And>x. x \<in> set xs \<Longrightarrow> writes conv f t x" "\<And>x. x \<in> set xs \<Longrightarrow> entry_type_bits (t x)"
    and "length (pre @ hole @ body) mod 4 = p mod 4" "fits (p + length (enc_seq f p xs))"
    and "length hole = 4 * length xs + extra" "length pre = off"
  shows "convert_children msg conv i xs (pre @ hole @ body) off p =
    Inr (pre @ concat (map put_u32 (mk_entries i p (enc_metas f t p xs))) @ drop (4 * length xs) hole @ body @ enc_seq f p xs,
         off + 4 * length xs, p + length (enc_seq f p xs))"
  unfolding assms(6) [symmetric]
  by (rule convert_children_enc) (use assms in \<open>auto simp: writes_def\<close>)

lemma convert_agtype_array_enc:
  assumes "\<And>x. x \<in> set es \<Longrightarrow> writes conv f ty x" "length b mod 4 = p mod 4"
    and "fits (length (padding p @ array_image f raw es))"
  shows "convert_agtype_array conv raw es b =
    Inr (b @ padding p @ array_image f raw es,
         AGTENTRY_IS_CONTAINER OR of_nat (length (padding p @ array_image f raw es)))"
proof -
  let ?pre = "b @ padding p @ put_u32 (array_header raw (length es))"
  let ?hole = "replicate (4 * length es) 0"
  have fit: "fits (0 + length (enc_seq f 0 es))" using assms(3) by (rule fits_mono) simp
  have "length (?pre @ ?hole @ []) = length b + (INTALIGN p - p) + 4 * (1 + length es)" by simp
  then have al: "length (?pre @ ?hole @ []) mod 4 = 0 mod 4"
    using aligned_after_padding [OF assms(2)] by (simp only: mod_mult_self2 mod_0)
  have "convert_children array_msg conv 0 es (?pre @ ?hole @ []) (length ?pre) 0 =
    Inr (?pre @ concat (map put_u32 (mk_entries 0 0 (enc_metas f ty 0 es))) @ drop (4 * length es) ?hole @ [] @ enc_seq f 0 es,
         length ?pre + 4 * length es, 0 + length (enc_seq f 0 es))"
    by (rule convert_children_writes [where extra = 0])
       (use assms(1) al fit in \<open>simp_all del: length_append\<close>)
  then have cc: "convert_children array_msg conv 0 es (?pre @ ?hole) (length ?pre) 0 =
    Inr (b @ padding p @ array_image f raw es, length ?pre + 4 * length es, length (enc_seq f 0 es))"
    by (simp add: array_image_def cont_bytes_def)
  show ?thesis
    using cc finish_container_eq [OF assms(3), of array_msg b]
    by (cases raw) (simp_all add: convert_agtype_array_def pad_buffer [OF assms(2)] reserve_from_buffer_def
        Let_def array_header_def or.assoc del: length_append)
qed

lemma key_seq: "enc_seq (\<lambda>q x. pair_key x) p ps = concat (map pair_key ps)"
  by (induction ps arbitrary: p) auto

lemma key_metas_eq: "enc_metas (\<lambda>q x. pair_key x) (\<lambda>x. AGTENTRY_IS_STRING) p ps = key_metas ps"
  by (induction ps arbitrary: p) (auto simp: key_metas_def)

lemma length_key_metas [simp]: "length (key_metas ps) = length ps"
  by (simp add: key_metas_def)

lemma start_of_key_metas [simp]: "start_of (key_metas ps) (length ps) = keys_len ps"
  by (simp add: start_of_def key_metas_def keys_len_def comp_def)

lemma writes_key: "writes (\<lambda>b x. convert_agtype_scalar env b (AGTV_STRING (pair_key x))) (\<lambda>q x. pair_key x)
    (\<lambda>x. AGTENTRY_IS_STRING) x"
  by (simp add: writes_def convert_agtype_scalar_def AGTENTRY_IS_STRING_def)

lemma convert_agtype_object_enc:
  assumes "\<And>x. x \<in> set ps \<Longrightarrow> writes conv f (\<lambda>x. ty (pair_value x)) x" "length b mod 4 = p mod 4"
    and "fits (length (padding p @ object_image f ps))"
  shows "convert_agtype_object env conv ps b =
    Inr (b @ padding p @ object_image f ps,
         AGTENTRY_IS_CONTAINER OR of_nat (length (padding p @ object_image f ps)))"
proof -
  let ?n = "length ps" and ?K = "keys_len ps"
  let ?pre = "b @ padding p @ put_u32 (of_nat ?n OR AGT_FOBJECT)"
  let ?ke = "concat (map put_u32 (mk_entries 0 0 (key_metas ps)))"
  let ?keys = "concat (map pair_key ps)"
  let ?hole = "replicate (8 * ?n) 0" and ?hole' = "replicate (4 * ?n) 0"
  let ?ve = "concat (map put_u32 (mk_entries ?n ?K (enc_metas f (\<lambda>x. ty (pair_value x)) ?K ps)))"
  have fit: "fits (0 + ?K)" "fits (?K + length (enc_seq f ?K ps))"
    by (rule fits_mono [OF assms(3)], simp)+
  have "length (?pre @ ?hole @ []) = length b + (INTALIGN p - p) + 4 * (1 + 2 * ?n)" by simp
  then have al: "length (?pre @ ?hole @ []) mod 4 = 0 mod 4"
    using aligned_after_padding [OF assms(2)] by (simp only: mod_mult_self2 mod_0)
  have "length ((?pre @ ?ke) @ ?hole' @ ?keys) = length (?pre @ ?hole @ []) + ?K" by simp
  then have al2: "length ((?pre @ ?ke) @ ?hole' @ ?keys) mod 4 = ?K mod 4"
    using al by (metis mod_add_left_eq add_0 mod_0)
  have "convert_children object_msg (\<lambda>b x. convert_agtype_scalar env b (AGTV_STRING (pair_key x))) 0 ps (?pre @ ?hole @ []) (length ?pre) 0 =
    Inr (?pre @ concat (map put_u32 (mk_entries 0 0 (enc_metas (\<lambda>q x. pair_key x) (\<lambda>x. AGTENTRY_IS_STRING) 0 ps))) @
           drop (4 * ?n) ?hole @ [] @ enc_seq (\<lambda>q x. pair_key x) 0 ps,
         length ?pre + 4 * ?n, 0 + length (enc_seq (\<lambda>q x. pair_key x) 0 ps))"
    by (rule convert_children_writes [where extra = "4 * ?n"])
       (use al fit(1) in \<open>simp_all add: writes_key key_seq del: length_append\<close>)
  then have c1: "convert_children object_msg (\<lambda>b x. convert_agtype_scalar env b (AGTV_STRING (pair_key x))) 0 ps (?pre @ ?hole) (length ?pre) 0 =
    Inr ((?pre @ ?ke) @ ?hole' @ ?keys, length (?pre @ ?ke), ?K)"
    by (simp add: key_metas_eq key_seq)
  have c2: "convert_children object_msg conv ?n ps ((?pre @ ?ke) @ ?hole' @ ?keys) (length (?pre @ ?ke)) ?K =
    Inr ((?pre @ ?ke) @ ?ve @ drop (4 * ?n) ?hole' @ ?keys @ enc_seq f ?K ps,
         length (?pre @ ?ke) + 4 * ?n, ?K + length (enc_seq f ?K ps))"
    by (rule convert_children_writes [where extra = 0])
       (use assms(1) al2 fit(2) in \<open>simp_all del: length_append\<close>)
  have im: "padding p @ object_image f ps = padding p @ put_u32 (of_nat ?n OR AGT_FOBJECT) @ ?ke @ ?ve @ ?keys @ enc_seq f ?K ps"
    by (simp add: object_image_def cont_bytes_def mk_entries_append)
  show ?thesis
    using c1 c2 finish_container_eq [OF assms(3), of object_msg b]
    by (simp add: convert_agtype_object_def pad_buffer [OF assms(2)] reserve_from_buffer_def Let_def im mult.commute
        del: length_append)
qed

subsection \<open>Values\<close>

lemma entry_or_add: "entry_type_bits t \<Longrightarrow> fits n \<Longrightarrow> t OR of_nat n = t + of_nat n"
proof -
  assume t: "entry_type_bits t" and n: "fits n"
  have "t AND of_nat n = t AND (AGTENTRY_OFFLENMASK AND of_nat n)"
    using fits_and_mask [OF n] by (simp add: and.commute)
  also have "\<dots> = 0" using type_bits_and(1) [OF t] by (simp flip: and.assoc)
  finally show ?thesis by (simp add: disjunctive_add_eq_or)
qed

lemma ag_serialize_composite_enc:
  assumes "length b mod 4 = p mod 4" "4 dvd length (b @ padding p @ put_u32 h) \<Longrightarrow>
      conv (b @ padding p @ put_u32 h) = Inr ((b @ padding p @ put_u32 h) @ c, AGTENTRY_IS_CONTAINER OR of_nat (length c))"
    and "fits (length (padding p @ composite_image h c))"
  shows "ag_serialize_composite b h conv =
    Inr (b @ padding p @ composite_image h c,
         AGTENTRY_IS_AGTYPE OR of_nat (length (padding p @ composite_image h c)))"
proof -
  let ?b1 = "b @ padding p @ put_u32 h"
  have "length ?b1 = length b + (INTALIGN p - p) + 4 * 1" by simp
  then have m: "length ?b1 mod 4 = 0"
    using aligned_after_padding [OF assms(1)] by (simp only: mod_mult_self2)
  then have al: "4 dvd length ?b1" by (simp only: dvd_eq_mod_eq_0)
  have "length (?b1 @ c) = length ?b1 + length c" by simp
  then have al2: "length (?b1 @ c) mod 4 = length c mod 4"
    using m by (metis mod_add_left_eq add_0)
  let ?e = "INTALIGN (length c) - length c"
  have fit: "fits (length c)" "fits (length c + ?e)"
    by (rule fits_mono [OF assms(3)], simp add: composite_image_def)+
  have e: "(AGTENTRY_IS_CONTAINER OR of_nat (length c)) + of_nat ?e = AGTENTRY_IS_CONTAINER OR of_nat (length c + ?e)"
    using entry_or_add [of AGTENTRY_IS_CONTAINER, OF _ fit(1)] entry_or_add [of AGTENTRY_IS_CONTAINER, OF _ fit(2)]
    by (simp add: add.assoc)
  have f: "AGTENTRY_OFFLENMASK AND (AGTENTRY_IS_CONTAINER OR of_nat (length c + ?e)) = of_nat (length c + ?e)"
    using plain_entry_fields(1) [of AGTENTRY_IS_CONTAINER, OF _ fit(2)] by (simp add: AGTE_OFFLENFLD_def and.commute)
  show ?thesis
    using assms(2) [OF al] pad_buffer [OF al2] e f
    by (simp add: ag_serialize_composite_def ag_serialize_header_eq [OF assms(1)] composite_image_def Let_def
        add.assoc add.commute add.left_commute del: pad_buffer)
qed

lemma convert_agtype_value_writes: "writable env v \<Longrightarrow> writes (convert_agtype_value env) enc ty v"
proof (induction v rule: kids_induct)
  case (kids v)
  have wk: "writes (convert_agtype_value env) enc ty w" if "w \<in> set (kids v)" for w
    by (rule kids.IH [OF that writable_kids [OF kids.prems that]])
  then have wp: "writes (\<lambda>b x. convert_agtype_value env b (pair_value x)) enc_pair (\<lambda>x. ty (pair_value x)) x"
    if "pair_value x \<in> set (kids v)" for x
    using that by (simp add: writes_def)
  show ?case
    unfolding writes_def
  proof (intro allI impI)
    fix q :: nat and b :: "byte list" assume m: "length b mod 4 = q mod 4" and fit: "fits (length (enc q v))"
    have obj: "convert_agtype_object env (\<lambda>b x. convert_agtype_value env b (pair_value x)) ps b' =
        Inr (b' @ padding q' @ object_image enc_pair ps,
             AGTENTRY_IS_CONTAINER OR of_nat (length (padding q' @ object_image enc_pair ps)))"
      if "kids v = map (\<lambda>p. pair_value p) ps" "length b' mod 4 = q' mod 4"
        "fits (length (padding q' @ object_image enc_pair ps))" for ps b' q'
      by (rule convert_agtype_object_enc [OF wp]) (use that in auto)
    have arr: "convert_agtype_array (convert_agtype_value env) raw es b' =
        Inr (b' @ padding q' @ array_image enc raw es,
             AGTENTRY_IS_CONTAINER OR of_nat (length (padding q' @ array_image enc raw es)))"
      if "kids v = es" "length b' mod 4 = q' mod 4"
        "fits (length (padding q' @ array_image enc raw es))" for raw es b' q'
      by (rule convert_agtype_array_enc [OF wk]) (use that in auto)
    have p0: "padding 0 @ c = c" for c by (simp add: padding_def INTALIGN_def)
    note obj0 = obj [where q' = 0, unfolded p0] and arr0 = arr [where q' = 0, unfolded p0]
    have comp: "ag_serialize_composite b h conv = Inr (b @ padding q @ composite_image h c,
         AGTENTRY_IS_AGTYPE OR of_nat (length (padding q @ composite_image h c)))"
      if "fits (length (padding q @ composite_image h c))"
        "\<And>b'. length b' mod 4 = 0 mod 4 \<Longrightarrow> fits (length c) \<Longrightarrow>
          conv b' = Inr (b' @ c, AGTENTRY_IS_CONTAINER OR of_nat (length c))"
      for h conv c
    proof (rule ag_serialize_composite_enc [OF m _ that(1)])
      assume "4 dvd length (b @ padding q @ put_u32 h)"
      moreover have "fits (length c)" by (rule fits_mono [OF that(1)]) (simp add: composite_image_def)
      ultimately show "conv (b @ padding q @ put_u32 h) =
          Inr ((b @ padding q @ put_u32 h) @ c, AGTENTRY_IS_CONTAINER OR of_nat (length c))"
        by (intro that(2)) (simp_all only: dvd_eq_mod_eq_0 mod_0)
    qed
    show "convert_agtype_value env b v = Inr (b @ enc q v, ty v OR of_nat (length (enc q v)))"
    proof (cases v)
      case (AGTV_VERTEX ps)
      then show ?thesis
        using comp [OF _ obj0 [of ps], of AGT_HEADER_VERTEX] fit
        by (subst convert_agtype_value.simps) (simp del: length_append)
    next
      case (AGTV_EDGE ps)
      then show ?thesis
        using comp [OF _ obj0 [of ps], of AGT_HEADER_EDGE] fit
        by (subst convert_agtype_value.simps) (simp del: length_append)
    next
      case (AGTV_PATH es)
      then show ?thesis
        using comp [OF _ arr0 [of es _ False], of AGT_HEADER_PATH] fit
        by (subst convert_agtype_value.simps) (simp del: length_append)
    next
      case (AGTV_ARRAY raw es)
      then show ?thesis
        using arr [of es b q raw, OF _ m] fit by (subst convert_agtype_value.simps) (simp del: length_append)
    next
      case (AGTV_OBJECT ps)
      then show ?thesis
        using obj [of ps b q, OF _ m] fit by (subst convert_agtype_value.simps) (simp del: length_append)
    qed (use kids.prems m fit in \<open>subst convert_agtype_value.simps,
           simp add: convert_agtype_scalar_def pad_buffer [OF m] read_bytes_def AGTENTRY_IS_STRING_def Let_def\<close>)+
  qed
qed

subsection \<open>Whole datums\<close>

lemma padding_0 [simp]: "padding 0 = []"
  by (simp add: padding_def INTALIGN_def)

lemma convert_to_agtype_enc:
  assumes "writable env v" "fits (length (enc 0 v))"
  shows "convert_to_agtype env v = Inr (enc 0 v)"
  using convert_agtype_value_writes [OF assms(1), unfolded writes_def, rule_format, of "replicate 4 0" 0] assms(2)
  by (simp add: convert_to_agtype_def reserve_from_buffer_def)

lemma writable_ARRAY: "writable env (AGTV_ARRAY raw es) \<longleftrightarrow> (\<forall>v \<in> set es. writable env v)"
  by (subst writable.simps) simp

lemma raw_scalar_to_agtype_enc:
  assumes "writable env v" "fits (length (array_image enc True [v]))"
  shows "raw_scalar_to_agtype env v = Inr (array_image enc True [v])"
proof -
  have "convert_to_agtype env (AGTV_ARRAY True [v]) = Inr (enc 0 (AGTV_ARRAY True [v]))"
    by (rule convert_to_agtype_enc) (use assms in \<open>simp_all add: writable_ARRAY\<close>)
  then show ?thesis
    by (simp add: raw_scalar_to_agtype_def append_element_def pop_state_def AGTYPE_MAX_ELEMS_def)
qed

lemma raw_image:
  "array_image enc True [v] =
     put_u32 raw_header @ put_u32 (ty v OR of_nat (length (enc 0 v)) OR AGTENTRY_HAS_OFF) @ enc 0 v"
  by (simp add: array_image_def cont_bytes_def AGT_OFFSET_STRIDE_def array_header_def raw_header_def or.commute or.left_commute)



lemma scalar_image:
  assumes "writable env v" "IS_A_AGTYPE_SCALAR v" "agtv_type v \<noteq> Type_BOOL" "fits (length (array_image enc True [v]))"
  shows "agtype_value_to_agtype env v = Inr (array_image enc True [v])"
proof -
  have "fits (length (enc 0 v))" by (rule fits_mono [OF assms(4)]) simp
  then show ?thesis
    using assms raw_scalar_to_agtype_enc [OF assms(1,4)]
    by (cases v)
       (simp_all add: agtype_value_to_agtype_def agtype_integer_to_agtype_def agtype_float_to_agtype_def
         agtype_numeric_to_agtype_def agtype_string_to_agtype_def raw_image read_bytes_def fits_def Let_def
         or.commute or.left_commute)
qed

text \<open>Every scalar but a boolean is stored as a one-element raw-scalar array, and the fast paths
  for integers, floats, numerics and strings produce the same bytes as the generic path that pushes
  the scalar into an array and converts it.\<close>

theorem scalar_fast_paths_agree:
  assumes "writable env v" "IS_A_AGTYPE_SCALAR v" "agtv_type v \<noteq> Type_BOOL"
    and "fits (length (array_image enc True [v]))"
  shows "agtype_value_to_agtype env v = raw_scalar_to_agtype env v \<and>
         agtype_value_to_agtype env v = Inr (array_image enc True [v])"
  using raw_scalar_to_agtype_enc [OF assms(1,4)] scalar_image [OF assms] by simp

theorem scalar_fast_paths_agree_witness:
  "agtype_value_to_agtype isort_env (AGTV_INTEGER (-5)) = raw_scalar_to_agtype isort_env (AGTV_INTEGER (-5)) \<and>
   agtype_value_to_agtype isort_env (AGTV_INTEGER (-5)) = Inr (array_image enc True [AGTV_INTEGER (-5)])"
  by (rule scalar_fast_paths_agree) (simp_all add: fits_iff)

text \<open>A boolean's fast path stores an entry without the end-offset bit that the generic path
  sets, so the two images of one boolean differ in exactly that bit.\<close>

theorem bool_fast_path_differs:
  "agtype_value_to_agtype env (AGTV_BOOL b) = Inr (put_u32 raw_header @ put_u32 (ty (AGTV_BOOL b))) \<and>
   raw_scalar_to_agtype env (AGTV_BOOL b) =
     Inr (put_u32 raw_header @ put_u32 (ty (AGTV_BOOL b) OR AGTENTRY_HAS_OFF)) \<and>
   agtype_value_to_agtype env (AGTV_BOOL b) \<noteq> raw_scalar_to_agtype env (AGTV_BOOL b)"
proof -
  have "fits (length (array_image enc True [AGTV_BOOL b]))" by (simp add: fits_iff)
  then have r: "raw_scalar_to_agtype env (AGTV_BOOL b) =
      Inr (put_u32 raw_header @ put_u32 (ty (AGTV_BOOL b) OR AGTENTRY_HAS_OFF))"
    using raw_scalar_to_agtype_enc [of env "AGTV_BOOL b"] by (simp add: raw_image)
  have "le_nat (put_u32 (ty (AGTV_BOOL b))) \<noteq> le_nat (put_u32 (ty (AGTV_BOOL b) OR AGTENTRY_HAS_OFF))"
    by (simp add: le_nat_put_u32 agtentry_consts)
  then have "put_u32 (ty (AGTV_BOOL b)) \<noteq> put_u32 (ty (AGTV_BOOL b) OR AGTENTRY_HAS_OFF)" by metis
  then show ?thesis by (simp add: r agtype_value_to_agtype_def agtype_bool_to_agtype_def)
qed

end
