(* ===== verification/Agtype_Read.thy ===== *)
theory Agtype_Read
  imports Agtype_Encode
begin

text \<open>
  Reading agtype datums (\<open>src/backend/utils/adt/agtype_util.c\<close>,
  \<open>src/backend/utils/adt/agtype_ext.c\<close>): \<open>fill_agtype_value\<close>, the iterator state machine
  \<open>agtype_iterator_next\<close>, \<open>push_agtype_value\<close> (which unpacks nested containers),
  \<open>ag_deserialize_extended_type\<close>, and the look-ups by key and by index. A composite is
  deserialized by iterating over a container whose children may be composites again, so
  \<open>fill_agtype_value\<close> takes fuel; it bounds both the nesting of composites and the number of
  tokens of one iteration.
\<close>

subsection \<open>Iterators\<close>

datatype agt_iterator_state = AGTI_ARRAY_START | AGTI_ARRAY_ELEM | AGTI_OBJECT_START | AGTI_OBJECT_KEY | AGTI_OBJECT_VALUE

text \<open>\<open>*it\<close> is a list: its head is the current iterator, its tail the chain of parents, and the empty
  list is \<open>NULL\<close>. The pointer \<open>children\<close> is that of the container.\<close>

record agtype_iterator =
  it_container :: "byte list"
  it_num_elems :: nat
  it_is_scalar :: bool
  it_data_proper :: "byte list"
  it_curr_index :: nat
  it_curr_data_offset :: uint32
  it_curr_value_offset :: uint32
  it_state :: agt_iterator_state

definition iterator_from_container :: "byte list \<Rightarrow> agtype_iterator result" where
  "iterator_from_container c =
     bindE (container_header c) (\<lambda>h.
       let n = header_size h;
           kind = h AND (AGT_FARRAY OR AGT_FOBJECT)
       in if kind = AGT_FARRAY
          then Inr \<lparr>it_container = c, it_num_elems = n, it_is_scalar = header_is_scalar h,
                    it_data_proper = container_data c n, it_curr_index = 0, it_curr_data_offset = 0,
                    it_curr_value_offset = 0, it_state = AGTI_ARRAY_START\<rparr>
          else if kind = AGT_FOBJECT
          then Inr \<lparr>it_container = c, it_num_elems = n, it_is_scalar = False,
                    it_data_proper = container_data c (n * 2), it_curr_index = 0, it_curr_data_offset = 0,
                    it_curr_value_offset = 0, it_state = AGTI_OBJECT_START\<rparr>
          else Inl (Ereport ''unknown type of agtype container''))"

text \<open>\<open>iterator_from_container\<close> for the recursion into a nested container.\<close>

definition agtype_iterator_init :: "byte list \<Rightarrow> agtype_iterator list result" where
  "agtype_iterator_init c = bindE (iterator_from_container c) (\<lambda>it. Inr [it])"

text \<open>The two start states; entering a nested container jumps here within one call.\<close>

definition iterator_start ::
    "agtype_iterator \<Rightarrow> agtype_iterator list \<Rightarrow> (agtype_iterator_token \<times> agtype_value \<times> agtype_iterator list) result" where
  "iterator_start it parents =
     (case it_state it of
        AGTI_ARRAY_START \<Rightarrow>
          Inr (WAGT_BEGIN_ARRAY, AGTV_ARRAY (it_is_scalar it) (replicate (it_num_elems it) AGTV_NULL),
               it\<lparr>it_curr_index := 0, it_curr_data_offset := 0, it_curr_value_offset := 0,
                  it_state := AGTI_ARRAY_ELEM\<rparr> # parents)
      | AGTI_OBJECT_START \<Rightarrow>
          bindE (get_agtype_offset (it_container it) (it_num_elems it)) (\<lambda>off.
            Inr (WAGT_BEGIN_OBJECT, AGTV_OBJECT (replicate (it_num_elems it) ([], AGTV_NULL, 0)),
                 it\<lparr>it_curr_index := 0, it_curr_data_offset := 0, it_curr_value_offset := off,
                    it_state := AGTI_OBJECT_KEY\<rparr> # parents))
      | _ \<Rightarrow> Inl (Ereport ''invalid iterator state''))"

text \<open>Hand a child that was just read to the caller, or step into it.\<close>

definition iterator_child ::
    "bool \<Rightarrow> agtype_iterator_token \<Rightarrow> agtype_value \<Rightarrow> agtype_iterator \<Rightarrow> agtype_iterator list \<Rightarrow>
     (agtype_iterator_token \<times> agtype_value \<times> agtype_iterator list) result" where
  "iterator_child skip_nested tok v it parents =
     (if \<not> IS_A_AGTYPE_SCALAR v \<and> \<not> skip_nested
      then case v of
             AGTV_BINARY len data \<Rightarrow> bindE (iterator_from_container data) (\<lambda>ch. iterator_start ch (it # parents))
           | _ \<Rightarrow> Inl BadAccess
      else Inr (tok, v, it # parents))"

text \<open>\<open>agtype_iterator_next\<close>, with the call of \<open>fill_agtype_value\<close> as an argument.\<close>

type_synonym fill_fun = "byte list \<Rightarrow> nat \<Rightarrow> byte list \<Rightarrow> uint32 \<Rightarrow> agtype_value result"

definition agtype_iterator_next ::
    "fill_fun \<Rightarrow> agtype_iterator list \<Rightarrow> bool \<Rightarrow>
     (agtype_iterator_token \<times> agtype_value \<times> agtype_iterator list) result" where
  "agtype_iterator_next fill its skip_nested =
     (case its of
        [] \<Rightarrow> Inr (WAGT_DONE, AGTV_NULL, [])
      | it # parents \<Rightarrow>
          (let c = it_container it; i = it_curr_index it; n = it_num_elems it; data = it_data_proper it
           in case it_state it of
                AGTI_ARRAY_ELEM \<Rightarrow>
                  if i \<ge> n then Inr (WAGT_END_ARRAY, AGTV_NULL, parents)
                  else bindE (fill c i data (it_curr_data_offset it)) (\<lambda>v.
                       bindE (container_child c i) (\<lambda>e.
                         iterator_child skip_nested WAGT_ELEM v
                           (it\<lparr>it_curr_data_offset := AGTE_ADVANCE_OFFSET (it_curr_data_offset it) e,
                               it_curr_index := Suc i\<rparr>) parents))
              | AGTI_OBJECT_KEY \<Rightarrow>
                  if i \<ge> n then Inr (WAGT_END_OBJECT, AGTV_NULL, parents)
                  else bindE (fill c i data (it_curr_data_offset it)) (\<lambda>v.
                         case v of AGTV_STRING _ \<Rightarrow> Inr (WAGT_KEY, v, it\<lparr>it_state := AGTI_OBJECT_VALUE\<rparr> # parents)
                         | _ \<Rightarrow> Inl (Ereport ''unexpected agtype type as object key''))
              | AGTI_OBJECT_VALUE \<Rightarrow>
                  bindE (fill c (i + n) data (it_curr_value_offset it)) (\<lambda>v.
                  bindE (container_child c i) (\<lambda>ke.
                  bindE (container_child c (i + n)) (\<lambda>ve.
                    iterator_child skip_nested WAGT_VALUE v
                      (it\<lparr>it_state := AGTI_OBJECT_KEY,
                          it_curr_data_offset := AGTE_ADVANCE_OFFSET (it_curr_data_offset it) ke,
                          it_curr_value_offset := AGTE_ADVANCE_OFFSET (it_curr_value_offset it) ve,
                          it_curr_index := Suc i\<rparr>) parents)))
              | _ \<Rightarrow> iterator_start it parents))"

subsection \<open>Draining an iterator into a parse state\<close>

text \<open>The loop \<open>while ((tok = agtype_iterator_next(&it, &v, skip)) != WAGT_DONE) push(...)\<close>.\<close>

primrec drain ::
    "(agtype_iterator list \<Rightarrow> (agtype_iterator_token \<times> agtype_value \<times> agtype_iterator list) result) \<Rightarrow>
     (agtype_parse_state list \<Rightarrow> agtype_iterator_token \<Rightarrow> agtype_value option \<Rightarrow>
        (agtype_value option \<times> agtype_parse_state list) result) \<Rightarrow>
     nat \<Rightarrow> agtype_iterator list \<Rightarrow> agtype_parse_state list \<Rightarrow> agtype_value option \<Rightarrow>
     (agtype_value option \<times> agtype_parse_state list) result" where
  "drain nxt push 0 its ps res = Inl OutOfFuel"
| "drain nxt push (Suc fuel) its ps res =
     bindE (nxt its) (\<lambda>(tok, v, its').
       if tok = WAGT_DONE then Inr (res, ps)
       else bindE (push ps tok (if token_before_begin_array tok then Some v else None)) (\<lambda>(res', ps').
              drain nxt push fuel its' ps' res'))"

definition push_agtype_value ::
    "pg_env \<Rightarrow> fill_fun \<Rightarrow> nat \<Rightarrow> agtype_parse_state list \<Rightarrow> agtype_iterator_token \<Rightarrow> agtype_value option \<Rightarrow>
     (agtype_value option \<times> agtype_parse_state list) result" where
  "push_agtype_value env fill fuel pstate seq agtval =
     (case agtval of
        Some (AGTV_BINARY len data) \<Rightarrow>
          if seq = WAGT_ELEM \<or> seq = WAGT_VALUE
          then bindE (agtype_iterator_init data) (\<lambda>its.
                 drain (\<lambda>its. agtype_iterator_next fill its False) (push_agtype_value_scalar env) fuel its pstate None)
          else push_agtype_value_scalar env pstate seq agtval
      | _ \<Rightarrow> push_agtype_value_scalar env pstate seq agtval)"

subsection \<open>Reading one child\<close>

text \<open>\<open>result->type = type; result->val = parsed->val\<close>: the payload of an object or array under
  another tag.\<close>

fun retag :: "agtype_value_type \<Rightarrow> agtype_value \<Rightarrow> agtype_value result" where
  "retag Type_VERTEX (AGTV_OBJECT ps) = Inr (AGTV_VERTEX ps)"
| "retag Type_EDGE (AGTV_OBJECT ps) = Inr (AGTV_EDGE ps)"
| "retag Type_PATH (AGTV_ARRAY raw es) = Inr (AGTV_PATH es)"
| "retag _ _ = Inl BadAccess"

definition ag_deserialize_composite ::
    "pg_env \<Rightarrow> fill_fun \<Rightarrow> nat \<Rightarrow> byte list \<Rightarrow> agtype_value_type \<Rightarrow> agtype_value result" where
  "ag_deserialize_composite env fill fuel base type =
     bindE (agtype_iterator_init (drop 4 base)) (\<lambda>its.
     bindE (drain (\<lambda>its. agtype_iterator_next fill its True) (push_agtype_value env fill fuel) fuel its [] None)
       (\<lambda>(res, _). case res of Some r \<Rightarrow> retag type r | None \<Rightarrow> Inl BadAccess))"

definition ag_deserialize_extended_type ::
    "pg_env \<Rightarrow> fill_fun \<Rightarrow> nat \<Rightarrow> byte list \<Rightarrow> uint32 \<Rightarrow> agtype_value result" where
  "ag_deserialize_extended_type env fill fuel base_addr offset =
     (let base = drop (INTALIGN (unat offset)) base_addr
      in bindE (read_u32 base) (\<lambda>agt_header.
           if agt_header = AGT_HEADER_INTEGER then bindE (read_u64 (drop 4 base)) (\<lambda>i. Inr (AGTV_INTEGER i))
           else if agt_header = AGT_HEADER_FLOAT then bindE (read_u64 (drop 4 base)) (\<lambda>f. Inr (AGTV_FLOAT f))
           else if agt_header = AGT_HEADER_VERTEX then ag_deserialize_composite env fill fuel base Type_VERTEX
           else if agt_header = AGT_HEADER_EDGE then ag_deserialize_composite env fill fuel base Type_EDGE
           else if agt_header = AGT_HEADER_PATH then ag_deserialize_composite env fill fuel base Type_PATH
           else Inl (Ereport ''Invalid AGT header value'')))"

text \<open>The body of \<open>fill_agtype_value\<close>; \<open>ext\<close> is the call of \<open>ag_deserialize_extended_type\<close>.\<close>

definition fill_body :: "pg_env \<Rightarrow> (byte list \<Rightarrow> uint32 \<Rightarrow> agtype_value result) \<Rightarrow> fill_fun" where
  "fill_body env ext container index base_addr offset =
     bindE (container_child container index) (\<lambda>entry.
       if AGTE_IS_NULL entry then Inr AGTV_NULL
       else if AGTE_IS_STRING entry then
         bindE (get_agtype_length container index) (\<lambda>len.
         bindE (read_bytes (unat len) (drop (unat offset) base_addr)) (\<lambda>s. Inr (AGTV_STRING s)))
       else if AGTE_IS_NUMERIC entry then
         (let numeric = drop (INTALIGN (unat offset)) base_addr
          in bindE (read_bytes (pg_varsize env numeric) numeric) (\<lambda>n. Inr (AGTV_NUMERIC n)))
       else if AGTE_IS_AGTYPE entry then ext base_addr offset
       else if AGTE_IS_BOOL_TRUE entry then Inr (AGTV_BOOL True)
       else if AGTE_IS_BOOL_FALSE entry then Inr (AGTV_BOOL False)
       else bindE (get_agtype_length container index) (\<lambda>len.
              Inr (AGTV_BINARY (int (unat len) - int (INTALIGN (unat offset) - unat offset))
                     (drop (INTALIGN (unat offset)) base_addr))))"

primrec fill_agtype_value :: "pg_env \<Rightarrow> nat \<Rightarrow> fill_fun" where
  "fill_agtype_value env 0 = (\<lambda>container index base_addr offset. Inl OutOfFuel)"
| "fill_agtype_value env (Suc fuel) =
     fill_body env (ag_deserialize_extended_type env (fill_agtype_value env fuel) fuel)"

text \<open>\<open>fill_agtype_value_no_copy\<close> points into the container instead of copying strings and numerics, and
  decodes integers and floats in place; a value is modelled by its contents, so only the control
  flow differs.\<close>

definition fill_agtype_value_no_copy :: "pg_env \<Rightarrow> nat \<Rightarrow> fill_fun" where
  "fill_agtype_value_no_copy env fuel =
     (case fuel of
        0 \<Rightarrow> (\<lambda>container index base_addr offset. Inl OutOfFuel)
      | Suc n \<Rightarrow> fill_body env (\<lambda>base_addr offset.
          let base = drop (INTALIGN (unat offset)) base_addr
          in bindE (read_u32 base) (\<lambda>agt_header.
               if agt_header = AGT_HEADER_INTEGER then bindE (read_u64 (drop 4 base)) (\<lambda>i. Inr (AGTV_INTEGER i))
               else if agt_header = AGT_HEADER_FLOAT then bindE (read_u64 (drop 4 base)) (\<lambda>f. Inr (AGTV_FLOAT f))
               else ag_deserialize_extended_type env (fill_agtype_value env n) n base_addr offset)))"

subsection \<open>Elements by index\<close>

definition get_ith_agtype_value_from_container ::
    "pg_env \<Rightarrow> nat \<Rightarrow> byte list \<Rightarrow> nat \<Rightarrow> agtype_value option result" where
  "get_ith_agtype_value_from_container env fuel container i =
     bindE (container_header container) (\<lambda>h.
       if \<not> header_is_array h then Inl (Ereport ''container is not an agtype array'')
       else let nelements = header_size h; base_addr = container_data container nelements
            in if i \<ge> nelements then Inr None
               else bindE (get_agtype_offset container i) (\<lambda>off.
                    bindE (fill_agtype_value env fuel container i base_addr off) (\<lambda>v. Inr (Some v))))"

definition needs_free :: "agtype_value \<Rightarrow> bool" where
  "needs_free v \<longleftrightarrow> agtv_type v \<in> {Type_VERTEX, Type_EDGE, Type_PATH}"

definition get_ith_agtype_value_from_container_no_copy ::
    "pg_env \<Rightarrow> nat \<Rightarrow> byte list \<Rightarrow> nat \<Rightarrow> (agtype_value \<times> bool) option result" where
  "get_ith_agtype_value_from_container_no_copy env fuel container i =
     bindE (container_header container) (\<lambda>h.
       if \<not> header_is_array h then Inl (Ereport ''container is not an agtype array'')
       else let nelements = header_size h
            in if i \<ge> nelements then Inr None
               else let base_addr = container_data container nelements
                    in bindE (get_agtype_offset container i) (\<lambda>off.
                       bindE (fill_agtype_value_no_copy env fuel container i base_addr off) (\<lambda>v.
                         Inr (Some (v, needs_free v)))))"

text \<open>The type of an element, from its entry and, for the extended types, its type header.\<close>

definition get_ith_agtype_value_type :: "byte list \<Rightarrow> nat \<Rightarrow> agtype_value_type result" where
  "get_ith_agtype_value_type container i =
     bindE (container_header container) (\<lambda>h.
       if \<not> header_is_array h then Inl (Ereport ''container is not an agtype array'')
       else let nelements = header_size h
            in if i \<ge> nelements then Inl (Ereport ''index out of bounds'')
               else bindE (container_child container i) (\<lambda>entry.
                 let t = entry AND AGTENTRY_TYPEMASK
                 in if t = AGTENTRY_IS_STRING then Inr Type_STRING
                    else if t = AGTENTRY_IS_NUMERIC then Inr Type_NUMERIC
                    else if t = AGTENTRY_IS_AGTYPE then
                      bindE (get_agtype_offset container i) (\<lambda>off.
                      bindE (read_u32 (drop (INTALIGN (unat off)) (container_data container nelements))) (\<lambda>agt_header.
                        if agt_header = AGT_HEADER_INTEGER then Inr Type_INTEGER
                        else if agt_header = AGT_HEADER_FLOAT then Inr Type_FLOAT
                        else if agt_header = AGT_HEADER_VERTEX then Inr Type_VERTEX
                        else if agt_header = AGT_HEADER_EDGE then Inr Type_EDGE
                        else if agt_header = AGT_HEADER_PATH then Inr Type_PATH
                        else Inl (Ereport ''unexpected agt_header type'')))
                    else if t = AGTENTRY_IS_BOOL_TRUE then Inr Type_BOOL
                    else if t = AGTENTRY_IS_BOOL_FALSE then Inr Type_BOOL
                    else if t = AGTENTRY_IS_NULL then Inr Type_NULL
                    else if t = AGTENTRY_IS_CONTAINER then Inr Type_BINARY
                    else Inl (Ereport ''unexpected agtentry type'')))"

end
