(* ===== verification/Agtype_Compare.thy ===== *)
theory Agtype_Compare
  imports Agtype_Read
begin

text \<open>
  Equality, ordering and hashing of agtype values and containers
  (\<open>src/backend/utils/adt/agtype_util.c\<close>). A \<open>float8\<close> is its IEEE 754 binary64 bit pattern: C's
  comparison of two doubles that are not NaN is the comparison of their signed magnitudes, and
  the conversion of an \<open>int64\<close> rounds to nearest, ties to even.
\<close>

subsection \<open>Floats\<close>

definition f_abs :: "uint64 \<Rightarrow> nat" where
  "f_abs w = unat w mod 2 ^ 63"

definition f_neg :: "uint64 \<Rightarrow> bool" where
  "f_neg w \<longleftrightarrow> unat w \<ge> 2 ^ 63"

definition f_isnan :: "uint64 \<Rightarrow> bool" where
  "f_isnan w \<longleftrightarrow> f_abs w > 0x7FF0000000000000"

definition f_key :: "uint64 \<Rightarrow> int" where
  "f_key w = (if f_neg w then - int (f_abs w) else int (f_abs w))"

text \<open>The magnitude of an integer as a double: exponent and rounded mantissa.\<close>

fun log2_floor :: "nat \<Rightarrow> nat" where
  "log2_floor n = (if n < 2 then 0 else Suc (log2_floor (n div 2)))"

declare log2_floor.simps [simp del]

definition f_of_nat :: "nat \<Rightarrow> nat" where
  "f_of_nat n =
     (if n = 0 then 0
      else let e = log2_floor n
           in if e \<le> 52 then (e + 1022) * 2 ^ 52 + n * 2 ^ (52 - e)
              else let sh = e - 52; q = n div 2 ^ sh; r = n mod 2 ^ sh; half = 2 ^ (sh - 1);
                       q' = (if r > half \<or> r = half \<and> odd q then q + 1 else q)
                   in (e + 1022) * 2 ^ 52 + q')"

definition int8_float :: "int64 \<Rightarrow> uint64" where
  "int8_float i =
     (if sint i < 0 then of_nat (2 ^ 63 + f_of_nat (nat (- sint i))) else of_nat (f_of_nat (nat (sint i))))"

definition compare_two_floats_orderability :: "uint64 \<Rightarrow> uint64 \<Rightarrow> int" where
  "compare_two_floats_orderability lhs rhs =
     (if f_isnan lhs then if f_isnan rhs then 0 else 1
      else if f_isnan rhs then -1
      else if f_key lhs > f_key rhs then 1
      else if f_key lhs < f_key rhs then -1
      else 0)"

subsection \<open>Scalar values\<close>

definition VERTEX_NUM_FIELDS :: nat where "VERTEX_NUM_FIELDS = 3"
definition EDGE_NUM_FIELDS :: nat where "EDGE_NUM_FIELDS = 5"

text \<open>\<open>AGTYPE_VERTEX_GET_ID(v)->val.int_value\<close>: the first of exactly three fields, read as an
  integer.\<close>

fun int_value :: "agtype_value \<Rightarrow> int64 result" where
  "int_value (AGTV_INTEGER i) = Inr i"
| "int_value _ = Inl BadAccess"

definition AGTYPE_VERTEX_GET_ID :: "agtype_pair list \<Rightarrow> agtype_value result" where
  "AGTYPE_VERTEX_GET_ID ps =
     (if length ps \<noteq> VERTEX_NUM_FIELDS then Inl (Ereport ''invalid vertex structure'')
      else Inr (pair_value (ps ! 0)))"

definition AGTYPE_EDGE_GET_ID :: "agtype_pair list \<Rightarrow> agtype_value result" where
  "AGTYPE_EDGE_GET_ID ps =
     (if length ps \<noteq> EDGE_NUM_FIELDS then Inl (Ereport ''invalid edge structure'')
      else Inr (pair_value (ps ! 0)))"

definition compare_int64 :: "int64 \<Rightarrow> int64 \<Rightarrow> int" where
  "compare_int64 a b = (if a = b then 0 else if sint a > sint b then 1 else -1)"

text \<open>The comparison of two graphids fetched by a field macro.\<close>

definition compare_ids :: "agtype_value result \<Rightarrow> agtype_value result \<Rightarrow> int result" where
  "compare_ids a b =
     bindE a (\<lambda>x. bindE (int_value x) (\<lambda>i.
     bindE b (\<lambda>y. bindE (int_value y) (\<lambda>j. Inr (compare_int64 i j)))))"

definition is_numeric_result :: "agtype_value \<Rightarrow> agtype_value \<Rightarrow> bool" where
  "is_numeric_result lhs rhs \<longleftrightarrow>
     (let l = agtv_type lhs; r = agtv_type rhs
      in (l = Type_NUMERIC \<or> r = Type_NUMERIC) \<and>
         (l = Type_INTEGER \<or> l = Type_FLOAT \<or> r = Type_INTEGER \<or> r = Type_FLOAT) \<or>
         l = Type_NUMERIC \<and> r = Type_NUMERIC)"

definition get_numeric_datum_from_agtype_value :: "pg_env \<Rightarrow> agtype_value \<Rightarrow> byte list result" where
  "get_numeric_datum_from_agtype_value env v =
     (case v of
        AGTV_INTEGER i \<Rightarrow> Inr (pg_int8_numeric env i)
      | AGTV_FLOAT f \<Rightarrow> pg_float8_numeric env f
      | AGTV_NUMERIC n \<Rightarrow> Inr n
      | _ \<Rightarrow> Inl BadAccess)"

definition equals_agtype_scalar_value :: "pg_env \<Rightarrow> agtype_value \<Rightarrow> agtype_value \<Rightarrow> bool result" where
  "equals_agtype_scalar_value env a b =
     (case (a, b) of
        (AGTV_NULL, AGTV_NULL) \<Rightarrow> Inr True
      | (AGTV_STRING s, AGTV_STRING t) \<Rightarrow> Inr (length_compare_agtype_string_value s t = 0)
      | (AGTV_NUMERIC m, AGTV_NUMERIC n) \<Rightarrow> Inr (pg_numeric_eq env m n)
      | (AGTV_BOOL x, AGTV_BOOL y) \<Rightarrow> Inr (x = y)
      | (AGTV_INTEGER i, AGTV_INTEGER j) \<Rightarrow> Inr (i = j)
      | (AGTV_FLOAT f, AGTV_FLOAT g) \<Rightarrow> Inr (\<not> f_isnan f \<and> \<not> f_isnan g \<and> f_key f = f_key g)
      | (AGTV_VERTEX ps, AGTV_VERTEX qs) \<Rightarrow>
          bindE (compare_ids (AGTYPE_VERTEX_GET_ID ps) (AGTYPE_VERTEX_GET_ID qs)) (\<lambda>c. Inr (c = 0))
      | _ \<Rightarrow> if agtv_type a = agtv_type b then Inl (Ereport ''invalid agtype scalar type for equals'')
             else Inl (Ereport ''agtype input scalars must be of same type''))"

definition sgn_result :: "int \<Rightarrow> int" where
  "sgn_result r = (if r > 0 then 1 else if r < 0 then -1 else 0)"

text \<open>The loop over the elements of two paths of equal length.\<close>

fun compare_elems :: "(agtype_value \<Rightarrow> agtype_value \<Rightarrow> int result) \<Rightarrow> agtype_value list \<Rightarrow> agtype_value list \<Rightarrow> int result" where
  "compare_elems cmp (x # xs) (y # ys) =
     bindE (cmp x y) (\<lambda>res. if res \<noteq> 0 then Inr res else compare_elems cmp xs ys)"
| "compare_elems cmp _ _ = Inr 0"

lemma compare_elems_cong [fundef_cong]:
  "xs = xs' \<Longrightarrow> ys = ys' \<Longrightarrow> (\<And>x y. x \<in> set xs' \<Longrightarrow> cmp x y = cmp' x y) \<Longrightarrow>
   compare_elems cmp xs ys = compare_elems cmp' xs' ys'"
proof (induction cmp xs ys arbitrary: xs' ys' rule: compare_elems.induct)
  case (1 cmp x xs y ys)
  then show ?case by (auto simp: bindE_def split: sum.splits)
qed auto

function compare_agtype_scalar_values :: "pg_env \<Rightarrow> agtype_value \<Rightarrow> agtype_value \<Rightarrow> int result" where
  "compare_agtype_scalar_values env a b =
     (case (a, b) of
        (AGTV_NULL, AGTV_NULL) \<Rightarrow> Inr 0
      | (AGTV_STRING s, AGTV_STRING t) \<Rightarrow> Inr (sgn_result (pg_varstr_cmp env s t))
      | (AGTV_NUMERIC m, AGTV_NUMERIC n) \<Rightarrow> Inr (pg_numeric_cmp env m n)
      | (AGTV_BOOL x, AGTV_BOOL y) \<Rightarrow> Inr (if x = y then 0 else if x then 1 else -1)
      | (AGTV_INTEGER i, AGTV_INTEGER j) \<Rightarrow> Inr (compare_int64 i j)
      | (AGTV_FLOAT f, AGTV_FLOAT g) \<Rightarrow> Inr (compare_two_floats_orderability f g)
      | (AGTV_VERTEX ps, AGTV_VERTEX qs) \<Rightarrow> compare_ids (AGTYPE_VERTEX_GET_ID ps) (AGTYPE_VERTEX_GET_ID qs)
      | (AGTV_EDGE ps, AGTV_EDGE qs) \<Rightarrow> compare_ids (AGTYPE_EDGE_GET_ID ps) (AGTYPE_EDGE_GET_ID qs)
      | (AGTV_PATH xs, AGTV_PATH ys) \<Rightarrow>
          if length xs \<noteq> length ys then Inr (if length xs > length ys then 1 else -1)
          else compare_elems (\<lambda>x y. compare_agtype_scalar_values env x y) xs ys
      | (AGTV_INTEGER i, AGTV_FLOAT g) \<Rightarrow> Inr (compare_two_floats_orderability (int8_float i) g)
      | (AGTV_FLOAT f, AGTV_INTEGER j) \<Rightarrow> Inr (compare_two_floats_orderability f (int8_float j))
      | _ \<Rightarrow>
          if agtv_type a = agtv_type b then Inl (Ereport ''invalid agtype scalar type for compare'')
          else if is_numeric_result a b
          then bindE (get_numeric_datum_from_agtype_value env a) (\<lambda>l.
               bindE (get_numeric_datum_from_agtype_value env b) (\<lambda>r. Inr (pg_numeric_cmp env l r)))
          else Inl (Ereport ''agtype input scalar type mismatch''))"
  by pat_completeness auto
termination by (relation "measure (\<lambda>(env, a, b). size a)") (auto simp: size_elem)

declare compare_agtype_scalar_values.simps [simp del]

definition get_type_sort_priority :: "agtype_value_type \<Rightarrow> int" where
  "get_type_sort_priority t =
     (case t of
        Type_PATH \<Rightarrow> 0 | Type_EDGE \<Rightarrow> 1 | Type_VERTEX \<Rightarrow> 2 | Type_OBJECT \<Rightarrow> 3 | Type_ARRAY \<Rightarrow> 4
      | Type_STRING \<Rightarrow> 5 | Type_BOOL \<Rightarrow> 6 | Type_NUMERIC \<Rightarrow> 7 | Type_INTEGER \<Rightarrow> 7 | Type_FLOAT \<Rightarrow> 7
      | Type_NULL \<Rightarrow> 8 | Type_BINARY \<Rightarrow> -1)"

definition comparable_types :: "agtype_value_type \<Rightarrow> agtype_value_type \<Rightarrow> bool" where
  "comparable_types a b \<longleftrightarrow> a = b \<or>
     a \<in> {Type_INTEGER, Type_FLOAT, Type_NUMERIC} \<and> b \<in> {Type_INTEGER, Type_FLOAT, Type_NUMERIC}"

definition type_order :: "agtype_value \<Rightarrow> agtype_value \<Rightarrow> int" where
  "type_order a b = (if get_type_sort_priority (agtv_type a) < get_type_sort_priority (agtv_type b) then -1 else 1)"

subsection \<open>Containers\<close>

definition compare_agtype_scalar_containers :: "pg_env \<Rightarrow> nat \<Rightarrow> byte list \<Rightarrow> byte list \<Rightarrow> int result" where
  "compare_agtype_scalar_containers env fuel a b =
     bindE (fill_agtype_value_no_copy env fuel a 0 (container_data a 1) 0) (\<lambda>va.
     bindE (fill_agtype_value_no_copy env fuel b 0 (container_data b 1) 0) (\<lambda>vb.
       if comparable_types (agtv_type va) (agtv_type vb) then compare_agtype_scalar_values env va vb
       else Inr (type_order va vb)))"

definition is_end :: "agtype_iterator_token \<Rightarrow> bool" where
  "is_end t \<longleftrightarrow> t = WAGT_END_ARRAY \<or> t = WAGT_END_OBJECT"

text \<open>Advance an iterator and read the value's type: an end token leaves the old value in place.\<close>

definition advance :: "fill_fun \<Rightarrow> agtype_iterator list \<Rightarrow> agtype_value \<Rightarrow> agtype_value result" where
  "advance fill its v =
     bindE (agtype_iterator_next fill its False) (\<lambda>(t, v', _). Inr (if is_end t \<or> t = WAGT_DONE then v else v'))"

text \<open>One round of the loop: the result so far, or \<open>None\<close> to stop with equality.\<close>

definition compare_step ::
    "pg_env \<Rightarrow> fill_fun \<Rightarrow> agtype_iterator_token \<Rightarrow> agtype_value \<Rightarrow> agtype_iterator list \<Rightarrow>
     agtype_iterator_token \<Rightarrow> agtype_value \<Rightarrow> agtype_iterator list \<Rightarrow> int option result" where
  "compare_step env fill ra va ita rb vb itb =
     (if ra = rb then
        if ra = WAGT_DONE then Inr None
        else if is_end ra then Inr (Some 0)
        else if comparable_types (agtv_type va) (agtv_type vb) then
          (case (va, vb) of
             (AGTV_ARRAY raw_a _, AGTV_ARRAY raw_b _) \<Rightarrow>
               if raw_a \<noteq> raw_b
               then if raw_a then bindE (advance fill ita va) (\<lambda>va'. Inr (Some (type_order va' vb)))
                    else bindE (advance fill itb vb) (\<lambda>vb'. Inr (Some (type_order va vb')))
               else Inr (Some 0)
           | (AGTV_OBJECT _, _) \<Rightarrow> Inr (Some 0)
           | (AGTV_BINARY _ _, _) \<Rightarrow> Inl (Ereport ''unexpected AGTV_BINARY value'')
           | _ \<Rightarrow> bindE (compare_agtype_scalar_values env va vb) (\<lambda>r. Inr (Some r)))
        else Inr (Some (type_order va vb))
      else if is_end ra then Inr (Some (-1))
      else if is_end rb then Inr (Some 1)
      else if agtv_type va = Type_ARRAY \<and> agtv_type vb = Type_OBJECT
        then bindE (advance fill ita va) (\<lambda>va'. Inr (Some (type_order va' vb)))
      else if agtv_type va = Type_OBJECT \<and> agtv_type vb = Type_ARRAY
        then bindE (advance fill itb vb) (\<lambda>vb'. Inr (Some (type_order va vb')))
      else Inr (Some (type_order va vb)))"

primrec compare_loop :: "pg_env \<Rightarrow> fill_fun \<Rightarrow> nat \<Rightarrow> agtype_iterator list \<Rightarrow> agtype_iterator list \<Rightarrow> int result" where
  "compare_loop env fill 0 ita itb = Inl OutOfFuel"
| "compare_loop env fill (Suc n) ita itb =
     bindE (agtype_iterator_next fill ita False) (\<lambda>(ra, va, ita').
     bindE (agtype_iterator_next fill itb False) (\<lambda>(rb, vb, itb').
     bindE (compare_step env fill ra va ita' rb vb itb') (\<lambda>r.
       case r of None \<Rightarrow> Inr 0 | Some res \<Rightarrow> if res = 0 then compare_loop env fill n ita' itb' else Inr res)))"

definition compare_agtype_containers_orderability :: "pg_env \<Rightarrow> nat \<Rightarrow> byte list \<Rightarrow> byte list \<Rightarrow> int result" where
  "compare_agtype_containers_orderability env fuel a b =
     bindE (container_header a) (\<lambda>ha. bindE (container_header b) (\<lambda>hb.
       if header_is_scalar ha \<and> header_is_scalar hb then compare_agtype_scalar_containers env fuel a b
       else bindE (agtype_iterator_init a) (\<lambda>ita. bindE (agtype_iterator_init b) (\<lambda>itb.
              compare_loop env (fill_agtype_value env fuel) fuel ita itb))))"

end
