(* ===== verification/Agtype_Float.thy ===== *)
theory Agtype_Float
  imports Agtype_Compare "HOL-Library.Signed_Division"
begin

text \<open>
  C's arithmetic on \<open>double\<close>, which the operators of \<open>src/backend/utils/adt/agtype_ops.c\<close> use, as IEEE 754 binary64
  with rounding to nearest, ties to even. A double is its bit pattern. Every finite double is a whole number of the least
  positive double, \<open>2 ^ -1074\<close>, its \<open>f_units\<close>; an operation computes the exact result as a fraction of such units and
  rounds it with \<open>f_round\<close>, which is shown to give the nearest double. Which of the NaNs an operation returns is not fixed
  by the language; it is the parameter \<open>nan\<close>.
\<close>

definition F_INF :: nat where "F_INF = 0x7FF0000000000000"

definition f_finite :: "uint64 \<Rightarrow> bool" where
  "f_finite w \<longleftrightarrow> f_abs w < F_INF"

definition f_isinf :: "uint64 \<Rightarrow> bool" where
  "f_isinf w \<longleftrightarrow> f_abs w = F_INF"

text \<open>The magnitude of the pattern \<open>b\<close> in units: below \<open>2 ^ 53\<close> the pattern itself, then a mantissa of 53 bits that is shifted.\<close>

definition f_units :: "nat \<Rightarrow> nat" where
  "f_units b = (if b div 2 ^ 52 = 0 then b else (2 ^ 52 + b mod 2 ^ 52) * 2 ^ (b div 2 ^ 52 - 1))"

definition f_value :: "uint64 \<Rightarrow> int" where
  "f_value w = (if f_neg w then - int (f_units (f_abs w)) else int (f_units (f_abs w)))"

text \<open>The pattern nearest to \<open>n / d\<close> units, with the even mantissa of two that are equally near; infinity beyond the range.\<close>

definition f_shift :: "nat \<Rightarrow> nat" where
  "f_shift q = (if q < 2 ^ 53 then 0 else log2_floor q - 52)"

definition round_half_even :: "nat \<Rightarrow> nat \<Rightarrow> nat" where
  "round_half_even n d = (let q = n div d; r = n mod d in if 2 * r > d \<or> 2 * r = d \<and> odd q then q + 1 else q)"

definition f_round :: "nat \<Rightarrow> nat \<Rightarrow> nat" where
  "f_round n d = (let k = f_shift (n div d) in min F_INF (k * 2 ^ 52 + round_half_even n (d * 2 ^ k)))"

definition f_make :: "bool \<Rightarrow> nat \<Rightarrow> uint64" where
  "f_make neg b = of_nat ((if neg then 2 ^ 63 else 0) + b)"

definition f_minus :: "uint64 \<Rightarrow> uint64" where
  "f_minus w = f_make (\<not> f_neg w) (f_abs w)"

definition f_add :: "(uint64 \<Rightarrow> uint64 \<Rightarrow> uint64) \<Rightarrow> uint64 \<Rightarrow> uint64 \<Rightarrow> uint64" where
  "f_add nan a b =
     (if f_isnan a \<or> f_isnan b \<or> f_isinf a \<and> f_isinf b \<and> f_neg a \<noteq> f_neg b then nan a b
      else if f_isinf a then a
      else if f_isinf b then b
      else let s = f_value a + f_value b
           in if s = 0 then f_make (f_neg a \<and> f_neg b) 0 else f_make (s < 0) (f_round (nat \<bar>s\<bar>) 1))"

definition f_sub :: "(uint64 \<Rightarrow> uint64 \<Rightarrow> uint64) \<Rightarrow> uint64 \<Rightarrow> uint64 \<Rightarrow> uint64" where
  "f_sub nan a b = (if f_isnan b then nan a b else f_add nan a (f_minus b))"

definition f_mul :: "(uint64 \<Rightarrow> uint64 \<Rightarrow> uint64) \<Rightarrow> uint64 \<Rightarrow> uint64 \<Rightarrow> uint64" where
  "f_mul nan a b =
     (if f_isnan a \<or> f_isnan b \<or> f_isinf a \<and> f_abs b = 0 \<or> f_abs a = 0 \<and> f_isinf b then nan a b
      else f_make (f_neg a \<noteq> f_neg b)
        (if f_isinf a \<or> f_isinf b then F_INF else f_round (f_units (f_abs a) * f_units (f_abs b)) (2 ^ 1074)))"

definition f_div :: "(uint64 \<Rightarrow> uint64 \<Rightarrow> uint64) \<Rightarrow> uint64 \<Rightarrow> uint64 \<Rightarrow> uint64" where
  "f_div nan a b =
     (if f_isnan a \<or> f_isnan b \<or> f_isinf a \<and> f_isinf b \<or> f_abs a = 0 \<and> f_abs b = 0 then nan a b
      else f_make (f_neg a \<noteq> f_neg b)
        (if f_isinf a \<or> f_abs b = 0 then F_INF
         else if f_isinf b then 0
         else f_round (f_units (f_abs a) * 2 ^ 1074) (f_units (f_abs b))))"

definition fmod :: "(uint64 \<Rightarrow> uint64 \<Rightarrow> uint64) \<Rightarrow> uint64 \<Rightarrow> uint64 \<Rightarrow> uint64" where
  "fmod nan a b =
     (if f_isnan a \<or> f_isnan b \<or> f_isinf a \<or> f_abs b = 0 then nan a b
      else if f_isinf b then a
      else f_make (f_neg a) (f_round (f_units (f_abs a) mod f_units (f_abs b)) 1))"

subsection \<open>Rounding gives the nearest double\<close>

lemma log2_floor_bounds: "0 < n \<Longrightarrow> 2 ^ log2_floor n \<le> n \<and> n < 2 ^ Suc (log2_floor n)"
proof (induction n rule: log2_floor.induct)
  case (1 n)
  show ?case
  proof (cases "n < 2")
    case True
    with 1 show ?thesis by (subst (1 2) log2_floor.simps) simp
  next
    case False
    then have "2 ^ log2_floor (n div 2) \<le> n div 2 \<and> n div 2 < 2 ^ Suc (log2_floor (n div 2))" using 1(1) by simp
    then show ?thesis using False by (subst (1 2) log2_floor.simps) auto
  qed
qed

lemma f_shift_bounds: "q < 2 ^ (53 + f_shift q)" "f_shift q \<noteq> 0 \<Longrightarrow> 2 ^ (52 + f_shift q) \<le> q"
proof -
  have "q < 2 ^ (53 + f_shift q) \<and> (f_shift q \<noteq> 0 \<longrightarrow> 2 ^ (52 + f_shift q) \<le> q)"
  proof (cases "q < 2 ^ 53")
    case False
    then have "0 < q" by (intro gr0I) simp
    note b = log2_floor_bounds [OF this]
    have "\<not> q < 2 ^ 53" by (rule False)
    with b have "(2::nat) ^ 53 < 2 ^ Suc (log2_floor q)" by linarith
    then have "53 < Suc (log2_floor q)" by (rule power_less_imp_less_exp [rotated]) simp
    then have "53 + f_shift q = Suc (log2_floor q)" "52 + f_shift q = log2_floor q" using False by (simp_all add: f_shift_def)
    with b show ?thesis by metis
  qed (simp add: f_shift_def)
  then show "q < 2 ^ (53 + f_shift q)" "f_shift q \<noteq> 0 \<Longrightarrow> 2 ^ (52 + f_shift q) \<le> q" by blast+
qed

text \<open>The unbounded pattern of \<open>f_round\<close> stands for the rounded mantissa, shifted.\<close>

lemma f_units_pattern: "q \<le> 2 ^ 53 \<Longrightarrow> k = 0 \<or> 2 ^ 52 \<le> q \<Longrightarrow> f_units (k * 2 ^ 52 + q) = q * 2 ^ k"
proof -
  assume q: "q \<le> 2 ^ 53" "k = 0 \<or> 2 ^ 52 \<le> q"
  define M where "M = (2::nat) ^ 52"
  have M: "0 < M" "(2::nat) ^ 53 = 2 * M" by (simp_all add: M_def)
  have u: "f_units b = (if b div M = 0 then b else (M + b mod M) * 2 ^ (b div M - 1))" for b by (simp add: f_units_def M_def)
  consider "q < M" | "M \<le> q" "q < 2 * M" | "q = 2 * M" using q(1) M by linarith
  then have "f_units (k * M + q) = q * 2 ^ k"
  proof cases
    case 1
    with q(2) show ?thesis by (simp add: u M_def)
  next
    case 2
    then obtain m where m: "q = M + m" "m < M" using le_Suc_ex [OF 2(1)] by auto
    then have "k * M + q = m + (k + 1) * M" by simp
    moreover have "(m + (k + 1) * M) div M = k + 1" "(m + (k + 1) * M) mod M = m" using m(2) M(1) by (simp_all only: div_mult_self1 mod_mult_self1 mod_less div_less)
    ultimately show ?thesis using m(1) by (simp only: u) simp
  next
    case 3
    have "((k + 2) * M) div M = k + 2" "((k + 2) * M) mod M = 0" using M(1) by simp_all
    moreover have "k * M + q = (k + 2) * M" using 3 by simp
    ultimately show ?thesis using 3 by (simp only: u) simp
  qed
  then show ?thesis by (simp add: M_def)
qed

text \<open>How far \<open>u\<close> units are from \<open>n / d\<close>, as a multiple of \<open>1 / d\<close>.\<close>

definition f_dist :: "nat \<Rightarrow> nat \<Rightarrow> nat \<Rightarrow> int" where
  "f_dist n d u = \<bar>int u * int d - int n\<bar>"

lemma round_half_even_nearest:
  assumes "0 < d"
  shows "f_dist n d (round_half_even n d) \<le> f_dist n d j"
    "f_dist n d (round_half_even n d) = f_dist n d j \<Longrightarrow> j \<noteq> round_half_even n d \<Longrightarrow> even (round_half_even n d)"
proof -
  define a r where "a = n div d" and "r = n mod d"
  let ?q = "round_half_even n d"
  have n: "n = a * d + r" and r: "r < d" using assms by (simp_all add: a_def r_def)
  have q: "?q = (if 2 * r > d \<or> 2 * r = d \<and> odd a then a + 1 else a)" by (simp add: round_half_even_def Let_def a_def r_def)
  have lo: "f_dist n d j = int r + int i * int d" if "a = j + i" for j i
  proof -
    have "int j * int d - int n = - (int r + int i * int d)" using that by (simp add: n algebra_simps)
    then show ?thesis by (simp add: f_dist_def del: minus_add_distrib)
  qed
  have hi: "f_dist n d j = int d - int r + int i * int d" if "j = a + 1 + i" for j i
  proof -
    have "int j * int d - int n = (int d - int r) + int i * int d" using that by (simp add: n algebra_simps)
    moreover have "0 \<le> (int d - int r) + int i * int d" using r by simp
    ultimately show ?thesis by (simp add: f_dist_def)
  qed
  have a: "f_dist n d a = int r" "f_dist n d (a + 1) = int d - int r" using lo [of a 0] hi [of "a + 1" 0] by simp_all
  have far: "f_dist n d j \<ge> int r + int d \<or> f_dist n d j \<ge> 2 * int d - int r" if j: "j \<noteq> a" "j \<noteq> a + 1"
  proof -
    have m: "int d \<le> int (Suc i) * int d" for i by (simp add: distrib_right)
    from j consider "j < a" | "a + 1 < j" by linarith
    then show ?thesis
    proof cases
      case 1
      then obtain i where "a = j + Suc i" by (auto dest: less_imp_Suc_add)
      from lo [OF this] m [of i] show ?thesis by linarith
    next
      case 2
      then obtain i where "j = a + 1 + Suc i" by (auto dest: less_imp_Suc_add)
      from hi [OF this] m [of i] show ?thesis by linarith
    qed
  qed
  have "f_dist n d ?q \<le> f_dist n d j \<and> (f_dist n d ?q = f_dist n d j \<longrightarrow> j \<noteq> ?q \<longrightarrow> even ?q)"
  proof (cases "2 * r > d \<or> 2 * r = d \<and> odd a")
    case True
    then have e: "?q = a + 1" "f_dist n d ?q = int d - int r" using a by (simp_all only: q if_True)
    consider "j = a" | "j = a + 1" | "j \<noteq> a" "j \<noteq> a + 1" by blast
    then show ?thesis
    proof cases
      case 1
      then have "f_dist n d j = int r" by (simp add: a(1))
      with True e show ?thesis by auto
    next
      case 3
      from far [OF this] True e r show ?thesis by linarith
    qed (use e in simp)
  next
    case False
    then have e: "?q = a" "f_dist n d ?q = int r" using a by (simp_all only: q if_False)
    consider "j = a" | "j = a + 1" | "j \<noteq> a" "j \<noteq> a + 1" by blast
    then show ?thesis
    proof cases
      case 2
      then have "f_dist n d j = int d - int r" using a(2) by (simp only:)
      with False e show ?thesis by auto
    next
      case 3
      from far [OF this] False e r show ?thesis by linarith
    qed (use e in simp)
  qed
  then show "f_dist n d ?q \<le> f_dist n d j" "f_dist n d ?q = f_dist n d j \<Longrightarrow> j \<noteq> ?q \<Longrightarrow> even ?q" by blast+
qed

text \<open>Beside the multiples of a power of two there are only smaller doubles.\<close>

lemma f_units_multiple: "2 ^ k dvd f_units b \<or> f_units b < 2 ^ (52 + k)"
proof -
  define M where "M = (2::nat) ^ 52"
  have M: "0 < M" by (simp add: M_def)
  let ?e = "b div M - 1"
  have u: "f_units b = (if b div M = 0 then b else (M + b mod M) * 2 ^ ?e)" by (simp add: f_units_def M_def)
  have p: "2 ^ (52 + k) = M * 2 ^ k" by (simp add: M_def power_add)
  show ?thesis
  proof (cases "b div M = 0 \<or> ?e < k")
    case True
    have "f_units b < M * 2 ^ k"
    proof (cases "b div M = 0")
      case True
      then have "b < M" using M by (simp add: div_eq_0_iff)
      then show ?thesis using True by (simp add: u) (metis le_trans linorder_not_le mult.right_neutral mult_le_mono2 one_le_numeral one_le_power)
    next
      case False
      with True obtain i where i: "k = ?e + Suc i" using less_imp_add_positive by (metis gr0_conv_Suc)
      have "(M + b mod M) * 2 ^ ?e < (2 * M) * 2 ^ ?e" using M by simp
      also have "\<dots> \<le> M * 2 ^ k" by (subst i) (simp add: power_add)
      finally show ?thesis using False by (simp add: u)
    qed
    then show ?thesis by (simp only: p) simp
  next
    case False
    then show ?thesis by (simp add: u le_imp_power_dvd dvd_mult)
  qed
qed

text \<open>Rounding as the standard has it: the nearest value of all that have a mantissa of 53 bits, with no bound on the exponent, the even one of
  two that are equally near; infinity when that value is out of range.\<close>

definition rounded :: "nat \<Rightarrow> nat \<Rightarrow> nat \<Rightarrow> bool" where
  "rounded n d b \<longleftrightarrow> (\<exists>r. b = min F_INF r \<and> (\<forall>c. f_dist n d (f_units r) \<le> f_dist n d (f_units c) \<and>
     (f_dist n d (f_units r) = f_dist n d (f_units c) \<longrightarrow> f_units c \<noteq> f_units r \<longrightarrow> even r)))"

lemma f_dist_scale: "f_dist n d (u * s) = f_dist n (d * s) u"
  by (simp add: f_dist_def algebra_simps)

lemma round_half_even_bounds:
  assumes "0 < d" "n div d < m" shows "round_half_even n d \<le> m" "n div d \<le> round_half_even n d"
  using assms(2) by (auto simp: round_half_even_def Let_def)

lemma f_round_rounded:
  assumes d: "0 < d"
  shows "rounded n d (f_round n d)"
proof -
  define k where "k = f_shift (n div d)"
  define D where "D = d * 2 ^ k"
  define q where "q = round_half_even n D"
  let ?r = "k * 2 ^ 52 + q"
  have D: "0 < D" using d by (simp add: D_def)
  have dv: "n div D = (n div d) div 2 ^ k" by (simp add: D_def div_mult2_eq)
  have b: "n div d < 2 ^ 53 * 2 ^ k" "k \<noteq> 0 \<Longrightarrow> 2 ^ 52 * 2 ^ k \<le> n div d"
    using f_shift_bounds [of "n div d"] unfolding k_def power_add by auto
  have "n div D < 2 ^ 53" using b(1) unfolding dv by (simp only: less_mult_imp_div_less)
  then have hi: "q \<le> 2 ^ 53" using round_half_even_bounds(1) [OF D] unfolding q_def by blast
  have lo: "2 ^ 52 \<le> n div D" if "k \<noteq> 0" using b(2) [OF that] unfolding dv by (subst less_eq_div_iff_mult_less_eq) simp_all
  have "k = 0 \<or> 2 ^ 52 \<le> q" using lo round_half_even_bounds(2) [OF D, of n "Suc (n div D)"] unfolding q_def by fastforce
  with hi have u: "f_units ?r = q * 2 ^ k" by (intro f_units_pattern)
  have near: "f_dist n d (f_units ?r) \<le> f_dist n d (f_units c) \<and> (f_dist n d (f_units ?r) = f_dist n d (f_units c) \<longrightarrow> f_units c \<noteq> f_units ?r \<longrightarrow> even q)" for c
    using f_units_multiple [of k c]
  proof
    assume "2 ^ k dvd f_units c"
    then obtain j where j: "f_units c = j * 2 ^ k" by (metis dvd_def mult.commute)
    show ?thesis unfolding u j f_dist_scale D_def [symmetric] unfolding q_def using round_half_even_nearest [OF D, of n j] by auto
  next
    assume c: "f_units c < 2 ^ (52 + k)"
    show ?thesis
    proof (cases "k = 0")
      case True
      show ?thesis using round_half_even_nearest [OF D, of n "f_units c"] unfolding u f_dist_scale D_def [symmetric] unfolding q_def using True D_def by auto
    next
      case False
      have "2 ^ 52 * D \<le> n div D * D" by (rule mult_le_mono1 [OF lo [OF False]])
      then have n: "2 ^ 52 * D \<le> n" using div_times_less_eq_dividend [of n D] by (rule le_trans)
      have "f_units c * d < 2 ^ 52 * D" using c d unfolding D_def power_add by (metis mult.assoc mult.commute mult_less_cancel2)
      with n have "f_dist n D (2 ^ 52) < f_dist n d (f_units c)" unfolding f_dist_def by (simp only: of_nat_mult [symmetric])
      then show ?thesis using round_half_even_nearest(1) [OF D, of n "2 ^ 52"] unfolding u f_dist_scale D_def [symmetric] unfolding q_def by linarith
    qed
  qed
  have "even ?r \<longleftrightarrow> even q" by simp
  moreover have "f_round n d = min F_INF ?r" by (simp add: f_round_def Let_def k_def D_def q_def)
  ultimately show ?thesis unfolding rounded_def using near by (intro exI [of _ ?r]) simp
qed

subsection \<open>The operations on finite doubles\<close>

text \<open>The double \<open>w\<close> is \<open>n / d\<close> units, rounded, with the sign of \<open>n\<close>.\<close>

definition near :: "uint64 \<Rightarrow> int \<Rightarrow> nat \<Rightarrow> bool" where
  "near w n d \<longleftrightarrow> rounded (nat \<bar>n\<bar>) d (f_abs w) \<and> (n \<noteq> 0 \<longrightarrow> (f_neg w \<longleftrightarrow> n < 0))"

lemma f_round_le: "f_round n d \<le> F_INF"
  by (simp add: f_round_def Let_def)

lemma f_make_fields:
  assumes "b \<le> F_INF" shows "f_abs (f_make s b) = b" "f_neg (f_make s b) = s"
proof -
  have b: "b < 2 ^ 63" using assms by (simp add: F_INF_def)
  then have "unat (f_make s b) = (if s then 2 ^ 63 else 0) + b" unfolding f_make_def by (subst unat_of_nat) auto
  then show "f_abs (f_make s b) = b" "f_neg (f_make s b) = s" using b by (auto simp: f_abs_def f_neg_def)
qed

lemma f_finite_simps: "f_finite w \<Longrightarrow> \<not> f_isnan w" "f_finite w \<Longrightarrow> \<not> f_isinf w"
  by (simp_all add: f_finite_def f_isnan_def f_isinf_def F_INF_def)

lemma f_minus_fields:
  assumes "f_finite w" shows "f_finite (f_minus w)" "f_value (f_minus w) = - f_value w" "f_neg (f_minus w) \<longleftrightarrow> \<not> f_neg w"
proof -
  have "f_abs w \<le> F_INF" using assms by (simp add: f_finite_def)
  note f = f_make_fields [OF this]
  show "f_finite (f_minus w)" "f_value (f_minus w) = - f_value w" "f_neg (f_minus w) \<longleftrightarrow> \<not> f_neg w"
    using assms by (simp_all add: f_finite_def f_minus_def f_value_def f)
qed

lemma f_units_0 [simp]: "f_units b = 0 \<longleftrightarrow> b = 0"
  by (auto simp: f_units_def)

lemma f_units_zero [simp]: "f_units 0 = 0"
  by simp

lemma f_units_pos [simp]: "0 < f_units b \<longleftrightarrow> 0 < b"
  using f_units_0 [of b] by (metis neq0_conv)

lemma f_value_0: "f_value w = 0 \<longleftrightarrow> f_abs w = 0"
  by (simp add: f_value_def)

lemma f_value_sign: "f_value w \<noteq> 0 \<Longrightarrow> f_neg w \<longleftrightarrow> f_value w < 0"
  by (simp add: f_value_def split: if_splits)

lemma f_value_abs: "nat \<bar>f_value w\<bar> = f_units (f_abs w)"
  by (simp add: f_value_def)

lemma near_make:
  assumes "0 < d" "m = nat \<bar>n\<bar>" "n \<noteq> 0 \<Longrightarrow> s \<longleftrightarrow> n < 0"
  shows "near (f_make s (f_round m d)) n d"
  using assms f_round_rounded [OF assms(1), of m] f_make_fields [OF f_round_le, of s m d] by (auto simp: near_def)

lemma rounded_0: "0 < d \<Longrightarrow> rounded 0 d 0"
  using f_round_rounded [of d 0] by (simp add: f_round_def f_shift_def round_half_even_def)

lemma f_add_near:
  assumes "f_finite a" "f_finite b" shows "near (f_add nan a b) (f_value a + f_value b) 1"
proof (cases "f_value a + f_value b = 0")
  case True
  then have "f_add nan a b = f_make (f_neg a \<and> f_neg b) 0" using assms by (simp add: f_add_def f_finite_simps)
  then show ?thesis using True f_make_fields [of 0] rounded_0 [of 1] by (simp add: near_def)
next
  case False
  then have "f_add nan a b = f_make (f_value a + f_value b < 0) (f_round (nat \<bar>f_value a + f_value b\<bar>) 1)" using assms by (simp add: f_add_def f_finite_simps Let_def)
  then show ?thesis using near_make [of 1 _ "f_value a + f_value b"] by simp
qed

lemma f_sub_near:
  assumes "f_finite a" "f_finite b" shows "near (f_sub nan a b) (f_value a - f_value b) 1"
  using f_add_near [OF assms(1) f_minus_fields(1) [OF assms(2)], of nan] assms by (simp add: f_sub_def f_finite_simps f_minus_fields)

lemma f_mul_near:
  assumes "f_finite a" "f_finite b" shows "near (f_mul nan a b) (f_value a * f_value b) (2 ^ 1074)"
proof -
  define U where "U = (2::nat) ^ 1074"
  have U: "0 < U" by (simp only: U_def zero_less_power zero_less_numeral)
  have e: "f_mul nan a b = f_make (f_neg a \<noteq> f_neg b) (f_round (f_units (f_abs a) * f_units (f_abs b)) U)"
    using assms by (simp only: f_mul_def f_finite_simps U_def) simp
  have m: "f_units (f_abs a) * f_units (f_abs b) = nat \<bar>f_value a * f_value b\<bar>" by (simp add: abs_mult nat_mult_distrib f_value_abs)
  have sg: "(f_neg a \<noteq> f_neg b) \<longleftrightarrow> f_value a * f_value b < 0" if "f_value a * f_value b \<noteq> 0"
    using that f_value_sign [of a] f_value_sign [of b] by (auto simp: mult_less_0_iff)
  show ?thesis unfolding U_def [symmetric] e m by (rule near_make [OF U refl sg])
qed

lemma f_div_near:
  assumes "f_finite a" "f_finite b" "f_abs b \<noteq> 0" shows "near (f_div nan a b) (f_value a * 2 ^ 1074 * sgn (f_value b)) (nat \<bar>f_value b\<bar>)"
proof -
  define U where "U = (2::nat) ^ 1074"
  have U: "0 < U" "(2::int) ^ 1074 = int U" by (simp_all only: U_def of_nat_power of_nat_numeral zero_less_power zero_less_numeral)
  have e: "f_div nan a b = f_make (f_neg a \<noteq> f_neg b) (f_round (f_units (f_abs a) * U) (f_units (f_abs b)))"
    using assms by (simp only: f_div_def f_finite_simps U_def) simp
  have b: "f_value b \<noteq> 0" using assms(3) by (simp add: f_value_0)
  then have m: "f_units (f_abs a) * U = nat \<bar>f_value a * int U * sgn (f_value b)\<bar>" by (simp add: abs_mult nat_mult_distrib f_value_abs)
  have sg: "(f_neg a \<noteq> f_neg b) \<longleftrightarrow> f_value a * int U * sgn (f_value b) < 0" if "f_value a * int U * sgn (f_value b) \<noteq> 0"
    using that U(1) b f_value_sign [of a] f_value_sign [of b] by (auto simp: mult_less_0_iff zero_less_mult_iff sgn_if split: if_splits)
  have p: "0 < f_units (f_abs b)" using assms(3) by simp
  show ?thesis unfolding U(2) f_value_abs e m by (rule near_make [OF p refl sg])
qed

subsection \<open>The remainder is exact\<close>

lemma f_units_form: "\<exists>m k. f_units b = m * 2 ^ k \<and> m < 2 ^ 53"
proof (cases "b div 2 ^ 52 = 0")
  case True
  then have "b < 2 ^ 52" by (simp add: div_eq_0_iff)
  then show ?thesis using True by (intro exI [of _ b] exI [of _ 0]) (simp add: f_units_def)
next
  case False
  have "2 ^ 52 + b mod 2 ^ 52 < 2 ^ 53" using mod_less_divisor [of "2 ^ 52" b] by simp
  then show ?thesis using False unfolding f_units_def by (metis (no_types, lifting))
qed

lemma representable: "m < 2 ^ 53 \<Longrightarrow> \<exists>c. f_units c = m * 2 ^ k"
proof (induction k arbitrary: m)
  case 0
  then show ?case using f_units_pattern [of m 0] by auto
next
  case (Suc k)
  show ?case
  proof (cases "2 ^ 52 \<le> m")
    case True
    then show ?thesis using Suc.prems f_units_pattern [of m "Suc k"] by (metis less_imp_le_nat)
  next
    case False
    then have "2 * m < 2 ^ 53" by simp
    from Suc.IH [OF this] show ?thesis by (simp add: mult.assoc mult.left_commute)
  qed
qed

lemma f_units_mod: "\<exists>c. f_units c = f_units a mod f_units b"
proof (cases "b = 0")
  case False
  obtain A i where a: "f_units a = A * 2 ^ i" "A < 2 ^ 53" using f_units_form by blast
  obtain B j where b: "f_units b = B * 2 ^ j" "B < 2 ^ 53" using f_units_form by blast
  have B: "0 < B" using False b(1) f_units_0 [of b] by (cases B) auto
  show ?thesis
  proof (cases "j \<le> i")
    case True
    then obtain e where e: "i = j + e" using le_Suc_ex by blast
    have "f_units a mod f_units b = (A * 2 ^ e mod B) * 2 ^ j" by (simp add: a b e power_add mult.left_commute mult.commute mod_mult_mult1)
    moreover have "A * 2 ^ e mod B < 2 ^ 53" using B b(2) mod_less_divisor [OF B, of "A * 2 ^ e"] by (rule_tac less_trans)
    ultimately show ?thesis using representable by metis
  next
    case False
    then obtain e where e: "j = i + e" using le_Suc_ex [of i j] by auto
    have "f_units a mod f_units b = (A mod (B * 2 ^ e)) * 2 ^ i" by (simp add: a b e power_add mult.left_commute mult.commute mod_mult_mult1)
    moreover have "A mod (B * 2 ^ e) < 2 ^ 53" using a(2) mod_less_eq_dividend [of A "B * 2 ^ e"] by (rule le_less_trans [rotated])
    ultimately show ?thesis using representable by metis
  qed
next
  case True
  then have "f_units b = 0" by simp
  then show ?thesis by (intro exI [of _ a]) simp
qed

lemma f_units_finite:
  "b < F_INF \<Longrightarrow> f_units b < 2 ^ 52 * 2 ^ 2046" "F_INF \<le> b \<Longrightarrow> 2 ^ 52 * 2 ^ 2046 \<le> f_units b"
proof -
  define M E where "M = (2::nat) ^ 52" and "E = (2046::nat)"
  have M: "0 < M" "F_INF = Suc E * M" by (simp_all add: M_def E_def F_INF_def)
  have u: "f_units b = (if b div M = 0 then b else (M + b mod M) * 2 ^ (b div M - 1))" by (simp add: f_units_def M_def)
  show "f_units b < 2 ^ 52 * 2 ^ 2046" if "b < F_INF"
  proof (cases "b div M = 0")
    case True
    then have "f_units b < M" using M(1) by (simp add: u div_eq_0_iff)
    also have "M \<le> M * 2 ^ E" by simp
    finally show ?thesis by (simp only: M_def E_def)
  next
    case False
    have "b div M < Suc E" using that M by (simp add: less_mult_imp_div_less)
    then obtain x where x: "E = (b div M - 1) + Suc x" using False less_imp_add_positive [of "b div M - 1" E] by (auto simp: gr0_conv_Suc)
    have "f_units b = (M + b mod M) * 2 ^ (b div M - 1)" using False by (simp add: u)
    also have "\<dots> < (2 * M) * 2 ^ (b div M - 1)" using M(1) by simp
    also have "\<dots> \<le> M * 2 ^ E" by (subst x) (simp add: power_add)
    finally show ?thesis by (simp only: M_def E_def)
  qed
  show "2 ^ 52 * 2 ^ 2046 \<le> f_units b" if "F_INF \<le> b"
  proof -
    have "Suc E \<le> b div M" using that M by (simp add: less_eq_div_iff_mult_less_eq)
    then have "M * 2 ^ E \<le> (M + b mod M) * 2 ^ (b div M - 1)" by (intro mult_le_mono power_increasing) simp_all
    moreover have "f_units b = (M + b mod M) * 2 ^ (b div M - 1)" using \<open>Suc E \<le> b div M\<close> by (simp add: u)
    ultimately show ?thesis by (simp only: M_def E_def)
  qed
qed

lemma f_round_exact:
  assumes "f_units c = n" "n < 2 ^ 52 * 2 ^ 2046" shows "f_units (f_round n 1) = n" "f_round n 1 < F_INF"
proof -
  obtain r where r: "f_round n 1 = min F_INF r" "f_dist n 1 (f_units r) \<le> f_dist n 1 (f_units c)"
    using f_round_rounded [of 1 n] unfolding rounded_def by auto
  then have u: "f_units r = n" using assms(1) by (simp add: f_dist_def)
  then have "r < F_INF" using f_units_finite(2) [of r] assms(2) by linarith
  then show "f_units (f_round n 1) = n" "f_round n 1 < F_INF" using r(1) u by simp_all
qed

lemma fmod_exact:
  assumes "f_finite a" "f_finite b" "f_abs b \<noteq> 0"
  shows "f_finite (fmod nan a b)" "f_value (fmod nan a b) = f_value a smod f_value b" "f_neg (fmod nan a b) \<longleftrightarrow> f_neg a"
proof -
  let ?n = "f_units (f_abs a) mod f_units (f_abs b)"
  have e: "fmod nan a b = f_make (f_neg a) (f_round ?n 1)" using assms by (simp add: fmod_def f_finite_simps)
  obtain c where c: "f_units c = ?n" using f_units_mod by blast
  have "?n \<le> f_units (f_abs a)" by (rule mod_less_eq_dividend)
  then have lt: "?n < 2 ^ 52 * 2 ^ 2046" by (rule le_less_trans [OF _ f_units_finite(1)]) (use assms(1) in \<open>simp add: f_finite_def\<close>)
  note x = f_round_exact [OF c lt] f_make_fields [OF f_round_le, of "f_neg a" ?n 1]
  show "f_finite (fmod nan a b)" "f_neg (fmod nan a b) \<longleftrightarrow> f_neg a" using x by (simp_all add: e f_finite_def)
  have "f_value (fmod nan a b) = (if f_neg a then - int ?n else int ?n)" using x by (simp only: e f_value_def)
  also have "\<dots> = f_value a smod f_value b" by (auto simp: smod_int_alt_def f_value_def zmod_int sgn_if)
  finally show "f_value (fmod nan a b) = f_value a smod f_value b" .
qed

end
