(* ===== verification/Agtype_Find.thy ===== *)
theory Agtype_Find
  imports Agtype_Compare
begin

text \<open>
  Searching a container (\<open>find_agtype_value_from_container\<close> and its no-copy variant), containment
  (\<open>agtype_deep_contains\<close>) and hashing of scalars (\<open>agtype_hash_scalar_value\<close>,
  \<open>agtype_hash_scalar_value_extended\<close>) from \<open>src/backend/utils/adt/agtype_util.c\<close>.
\<close>

subsection \<open>Search\<close>

text \<open>The scan of an array: \<open>matches\<close> is the test on an element just read.\<close>

primrec find_scan ::
    "(agtype_value \<Rightarrow> bool result) \<Rightarrow> fill_fun \<Rightarrow> byte list \<Rightarrow> byte list \<Rightarrow> nat \<Rightarrow> nat \<Rightarrow> uint32 \<Rightarrow> agtype_value option result" where
  "find_scan matches fill c base i 0 offset = Inr None"
| "find_scan matches fill c base i (Suc left) offset =
     bindE (fill c i base offset) (\<lambda>v.
     bindE (matches v) (\<lambda>m.
       if m then Inr (Some v)
       else bindE (container_child c i) (\<lambda>e.
              find_scan matches fill c base (Suc i) left (AGTE_ADVANCE_OFFSET offset e))))"

text \<open>The candidate key at an index, read in place.\<close>

definition key_at :: "byte list \<Rightarrow> byte list \<Rightarrow> nat \<Rightarrow> byte list result" where
  "key_at c base i =
     bindE (get_agtype_offset c i) (\<lambda>off.
     bindE (get_agtype_length c i) (\<lambda>len. read_bytes (unat len) (drop (unat off) base)))"

text \<open>The binary search over the keys of an object; the result is the index of the pair.\<close>

function find_key :: "byte list \<Rightarrow> byte list \<Rightarrow> byte list \<Rightarrow> nat \<Rightarrow> nat \<Rightarrow> nat option result" where
  "find_key c base key stop_low stop_high =
     (if stop_low < stop_high then
        let stop_middle = stop_low + (stop_high - stop_low) div 2
        in bindE (key_at c base stop_middle) (\<lambda>candidate.
             let difference = length_compare_agtype_string_value candidate key
             in if difference = 0 then Inr (Some stop_middle)
                else if difference < 0 then find_key c base key (stop_middle + 1) stop_high
                else find_key c base key stop_low stop_middle)
      else Inr None)"
  by pat_completeness auto
termination by (relation "measure (\<lambda>(c, base, key, low, high). high - low)") auto

declare find_key.simps [simp del]

definition find_agtype_value_with ::
    "(agtype_value \<Rightarrow> agtype_value \<Rightarrow> bool result) \<Rightarrow> fill_fun \<Rightarrow> byte list \<Rightarrow> uint32 \<Rightarrow> agtype_value \<Rightarrow> agtype_value option result" where
  "find_agtype_value_with eq fill c flags key =
     bindE (container_header c) (\<lambda>h.
       let count = header_size h
       in if count = 0 then Inr None
          else if flags AND AGT_FARRAY \<noteq> 0 \<and> header_is_array h then
            find_scan (\<lambda>v. if agtv_type key = agtv_type v then eq key v else Inr False)
              fill c (container_data c count) 0 count 0
          else if flags AND AGT_FOBJECT \<noteq> 0 \<and> header_is_object h then
            (case key of
               AGTV_STRING k \<Rightarrow>
                 let base = container_data c (count * 2)
                 in bindE (find_key c base k 0 count) (\<lambda>r.
                    case r of
                      None \<Rightarrow> Inr None
                    | Some m \<Rightarrow>
                        let index = m + count
                        in bindE (get_agtype_offset c index) (\<lambda>off.
                           bindE (fill c index base off) (\<lambda>v. Inr (Some v))))
             | _ \<Rightarrow> Inl BadAccess)
          else Inr None)"

definition find_agtype_value_from_container ::
    "pg_env \<Rightarrow> nat \<Rightarrow> byte list \<Rightarrow> uint32 \<Rightarrow> agtype_value \<Rightarrow> agtype_value option result" where
  "find_agtype_value_from_container env fuel =
     find_agtype_value_with (equals_agtype_scalar_value env) (fill_agtype_value env fuel)"

text \<open>The no-copy variant compares with \<open>compare_agtype_scalar_values\<close> and reports \<open>needs_free\<close>.\<close>

definition find_agtype_value_from_container_no_copy ::
    "pg_env \<Rightarrow> nat \<Rightarrow> byte list \<Rightarrow> uint32 \<Rightarrow> agtype_value \<Rightarrow> (agtype_value \<times> bool) option result" where
  "find_agtype_value_from_container_no_copy env fuel c flags key =
     bindE (find_agtype_value_with (\<lambda>k v. bindE (compare_agtype_scalar_values env k v) (\<lambda>r. Inr (r = 0)))
              (fill_agtype_value_no_copy env fuel) c flags key)
       (\<lambda>r. Inr (map_option (\<lambda>v. (v, needs_free v)) r))"

subsection \<open>Containment\<close>

text \<open>The state of an iteration is threaded through; \<open>rec\<close> is the recursive call on two nested
  containers, given by their memory.\<close>

text \<open>The first step of the array case when a container is met: the elements of the left side that
  are containers.\<close>

primrec lhs_containers :: "fill_fun \<Rightarrow> nat \<Rightarrow> agtype_iterator list \<Rightarrow> byte list list result" where
  "lhs_containers fill 0 its = Inr []"
| "lhs_containers fill (Suc n) its =
     bindE (agtype_iterator_next fill its True) (\<lambda>(_, v, its').
     bindE (lhs_containers fill n its') (\<lambda>cs.
       Inr (case v of AGTV_BINARY _ d \<Rightarrow> d # cs | _ \<Rightarrow> cs)))"

fun contains_any :: "(byte list \<Rightarrow> byte list \<Rightarrow> bool result) \<Rightarrow> byte list list \<Rightarrow> byte list \<Rightarrow> bool result" where
  "contains_any rec [] d = Inr False"
| "contains_any rec (c # cs) d = bindE (rec c d) (\<lambda>b. if b then Inr True else contains_any rec cs d)"

text \<open>The loop over the right array; \<open>conts\<close> is \<open>lhs_conts\<close> once it has been filled.\<close>

primrec contains_array ::
    "pg_env \<Rightarrow> nat \<Rightarrow> (byte list \<Rightarrow> byte list \<Rightarrow> bool result) \<Rightarrow> nat \<Rightarrow> byte list \<Rightarrow> nat \<Rightarrow> agtype_iterator list \<Rightarrow>
     byte list list option \<Rightarrow> agtype_iterator list \<Rightarrow> bool result" where
  "contains_array env F rec 0 lc num vits conts cits = Inl OutOfFuel"
| "contains_array env F rec (Suc n) lc num vits conts cits =
     bindE (agtype_iterator_next (fill_agtype_value env F) cits True) (\<lambda>(rcont, vcont, cits').
       if rcont = WAGT_END_ARRAY then Inr True
       else if IS_A_AGTYPE_SCALAR vcont then
         bindE (find_agtype_value_from_container env F lc AGT_FARRAY vcont) (\<lambda>r.
           case r of None \<Rightarrow> Inr False | Some _ \<Rightarrow> contains_array env F rec n lc num vits conts cits')
       else (case vcont of
               AGTV_BINARY _ d \<Rightarrow>
                 bindE (case conts of Some cs \<Rightarrow> Inr cs | None \<Rightarrow> lhs_containers (fill_agtype_value env F) num vits) (\<lambda>cs.
                   if cs = [] then Inr False
                   else bindE (contains_any rec cs d) (\<lambda>b.
                     if b then contains_array env F rec n lc num vits (Some cs) cits' else Inr False))
             | _ \<Rightarrow> Inl BadAccess))"

text \<open>The loop over the right object.\<close>

primrec contains_object ::
    "pg_env \<Rightarrow> nat \<Rightarrow> (byte list \<Rightarrow> byte list \<Rightarrow> bool result) \<Rightarrow> bool \<Rightarrow> nat \<Rightarrow> byte list \<Rightarrow> agtype_iterator list \<Rightarrow> bool result" where
  "contains_object env F rec skip_nested 0 lc cits = Inl OutOfFuel"
| "contains_object env F rec skip_nested (Suc n) lc cits =
     bindE (agtype_iterator_next (fill_agtype_value env F) cits False) (\<lambda>(rcont, vkey, cits').
       if rcont = WAGT_END_OBJECT then Inr True
       else bindE (find_agtype_value_from_container env F lc AGT_FOBJECT vkey) (\<lambda>r.
         case r of
           None \<Rightarrow> Inr False
         | Some lhs_val \<Rightarrow>
             bindE (agtype_iterator_next (fill_agtype_value env F) cits' True) (\<lambda>(_, vcont, cits'').
               if agtv_type lhs_val \<noteq> agtv_type vcont then Inr False
               else if IS_A_AGTYPE_SCALAR lhs_val then
                 bindE (equals_agtype_scalar_value env lhs_val vcont) (\<lambda>e.
                   if e then contains_object env F rec skip_nested n lc cits'' else Inr False)
               else (case (lhs_val, vcont) of
                       (AGTV_BINARY _ ld, AGTV_BINARY _ cd) \<Rightarrow>
                         if skip_nested then
                           bindE (compare_agtype_containers_orderability env F ld cd) (\<lambda>r.
                             if r = 0 then contains_object env F rec skip_nested n lc cits'' else Inr False)
                         else bindE (rec ld cd) (\<lambda>b.
                                if b then contains_object env F rec skip_nested n lc cits'' else Inr False)
                     | _ \<Rightarrow> Inl BadAccess))))"

primrec agtype_deep_contains :: "pg_env \<Rightarrow> nat \<Rightarrow> byte list \<Rightarrow> byte list \<Rightarrow> bool \<Rightarrow> bool result" where
  "agtype_deep_contains env 0 val rhs skip_nested = Inl OutOfFuel"
| "agtype_deep_contains env (Suc F) val rhs skip_nested =
     bindE (agtype_iterator_init val) (\<lambda>vits0.
     bindE (agtype_iterator_init rhs) (\<lambda>cits0.
     bindE (agtype_iterator_next (fill_agtype_value env F) vits0 False) (\<lambda>(rval, vval, vits).
     bindE (agtype_iterator_next (fill_agtype_value env F) cits0 False) (\<lambda>(rcont, vcont, cits).
       if rval \<noteq> rcont then Inr False
       else (case (vval, vcont) of
               (AGTV_OBJECT lps, AGTV_OBJECT cps) \<Rightarrow>
                 if length lps < length cps then Inr False
                 else contains_object env F (\<lambda>l c. agtype_deep_contains env F l c False) skip_nested F val cits
             | (AGTV_ARRAY lraw les, AGTV_ARRAY craw ces) \<Rightarrow>
                 if lraw \<and> \<not> craw then Inr False
                 else contains_array env F (\<lambda>l c. agtype_deep_contains env F l c False) F val (length les) vits None cits
             | _ \<Rightarrow> Inl (Ereport ''invalid agtype container type''))))))"

subsection \<open>Hashing\<close>

text \<open>The hash routines of PostgreSQL, and the macro that rotates both halves of a 64-bit hash.\<close>

record pg_hash =
  pg_hash_any :: "byte list \<Rightarrow> uint32"
  pg_hash_numeric :: "byte list \<Rightarrow> uint32"
  pg_hashint8 :: "int64 \<Rightarrow> uint32"
  pg_hashfloat8 :: "uint64 \<Rightarrow> uint32"
  pg_hash_any_extended :: "byte list \<Rightarrow> uint64 \<Rightarrow> uint64"
  pg_hash_numeric_extended :: "byte list \<Rightarrow> uint64 \<Rightarrow> uint64"
  pg_hashcharextended :: "bool \<Rightarrow> uint64 \<Rightarrow> uint64"
  pg_hashint8extended :: "int64 \<Rightarrow> uint64 \<Rightarrow> uint64"
  pg_hashfloat8extended :: "uint64 \<Rightarrow> uint64 \<Rightarrow> uint64"
  ROTATE_HIGH_AND_LOW_32BITS :: "uint64 \<Rightarrow> uint64"

definition agtype_hash_scalar_value :: "pg_hash \<Rightarrow> agtype_value \<Rightarrow> uint32 \<Rightarrow> uint32 result" where
  "agtype_hash_scalar_value hs v hash =
     bindE (case v of
              AGTV_NULL \<Rightarrow> Inr 1
            | AGTV_STRING s \<Rightarrow> Inr (pg_hash_any hs s)
            | AGTV_NUMERIC n \<Rightarrow> Inr (pg_hash_numeric hs n)
            | AGTV_BOOL b \<Rightarrow> Inr (if b then 2 else 4)
            | AGTV_INTEGER i \<Rightarrow> Inr (pg_hashint8 hs i)
            | AGTV_FLOAT f \<Rightarrow> Inr (pg_hashfloat8 hs f)
            | _ \<Rightarrow> Inl (Ereport ''invalid agtype scalar type to compute hash''))
       (\<lambda>tmp. Inr ((push_bit 1 hash OR drop_bit 31 hash) XOR tmp))"

primrec hash_elems :: "(agtype_value \<Rightarrow> uint64 \<Rightarrow> uint64 result) \<Rightarrow> agtype_value list \<Rightarrow> uint64 \<Rightarrow> uint64 result" where
  "hash_elems f [] tmp = Inr tmp"
| "hash_elems f (x # xs) tmp = bindE (f x tmp) (\<lambda>tmp'. hash_elems f xs tmp')"

lemma hash_elems_cong [fundef_cong]:
  "xs = ys \<Longrightarrow> (\<And>x t. x \<in> set ys \<Longrightarrow> f x t = g x t) \<Longrightarrow> tmp = tmp' \<Longrightarrow> hash_elems f xs tmp = hash_elems g ys tmp'"
proof (induction ys arbitrary: xs tmp tmp')
  case (Cons y ys)
  then show ?case by (auto simp: bindE_def split: sum.splits)
qed simp

function agtype_hash_scalar_value_extended :: "pg_hash \<Rightarrow> agtype_value \<Rightarrow> uint64 \<Rightarrow> uint64 \<Rightarrow> uint64 result" where
  "agtype_hash_scalar_value_extended hs v hash seed =
     bindE (case v of
              AGTV_NULL \<Rightarrow> Inr (seed + 1)
            | AGTV_STRING s \<Rightarrow> Inr (pg_hash_any_extended hs s seed)
            | AGTV_NUMERIC n \<Rightarrow> Inr (pg_hash_numeric_extended hs n seed)
            | AGTV_BOOL b \<Rightarrow> Inr (if seed \<noteq> 0 then pg_hashcharextended hs b seed else if b then 2 else 4)
            | AGTV_INTEGER i \<Rightarrow> Inr (pg_hashint8extended hs i seed)
            | AGTV_FLOAT f \<Rightarrow> Inr (pg_hashfloat8extended hs f seed)
            | AGTV_VERTEX ps \<Rightarrow>
                bindE (AGTYPE_VERTEX_GET_ID ps) (\<lambda>x. bindE (int_value x) (\<lambda>i. Inr (pg_hashint8extended hs (int8_float i) seed)))
            | AGTV_EDGE ps \<Rightarrow>
                bindE (AGTYPE_EDGE_GET_ID ps) (\<lambda>x. bindE (int_value x) (\<lambda>i. Inr (pg_hashint8extended hs (int8_float i) seed)))
            | AGTV_PATH es \<Rightarrow> hash_elems (\<lambda>x t. agtype_hash_scalar_value_extended hs x t seed) es 0
            | _ \<Rightarrow> Inl (Ereport ''invalid agtype scalar type to compute hash extended''))
       (\<lambda>tmp. Inr (ROTATE_HIGH_AND_LOW_32BITS hs hash XOR tmp))"
  by pat_completeness auto
termination by (relation "measure (\<lambda>(hs, v, h, s). size v)") (auto simp: size_elem)

declare agtype_hash_scalar_value_extended.simps [simp del]

end
