(* ===== verification/Agtype_Roundtrip.thy ===== *)
theory Agtype_Roundtrip
  imports Agtype_Read
begin

text \<open>
  Reading back what was written: on the layout \<open>enc\<close> every child is found where its entry says,
  the iterator state machine visits the children in order, and deserializing gives the value that
  was stored, for every nesting of containers and composites.
\<close>

subsection \<open>Children of a stored container\<close>

text \<open>Entry \<open>i\<close> of \<open>c\<close> has type bits \<open>t\<close> and describes the bytes \<open>img\<close> at offset \<open>off\<close>, with \<open>tail\<close> behind them; and the
  same with the image of a value.\<close>

definition image_at :: "byte list \<Rightarrow> nat \<Rightarrow> byte list \<Rightarrow> nat \<Rightarrow> uint32 \<Rightarrow> byte list \<Rightarrow> byte list \<Rightarrow> bool" where
  "image_at c i data off t img tail \<longleftrightarrow>
     (\<exists>e. container_child c i = Inr e \<and> AGTE_TYPE e = t \<and>
          AGTE_ADVANCE_OFFSET (of_nat off) e = of_nat (off + length img)) \<and>
     get_agtype_length c i = Inr (of_nat (length img)) \<and>
     get_agtype_offset c i = Inr (of_nat off) \<and>
     fits (off + length img) \<and> drop off data = img @ tail"

definition holds_child :: "byte list \<Rightarrow> nat \<Rightarrow> byte list \<Rightarrow> nat \<Rightarrow> agtype_value \<Rightarrow> byte list \<Rightarrow> bool" where
  "holds_child c i data off v tail \<longleftrightarrow>
     (\<exists>e. container_child c i = Inr e \<and> AGTE_TYPE e = ty v \<and>
          AGTE_ADVANCE_OFFSET (of_nat off) e = of_nat (off + length (enc off v))) \<and>
     get_agtype_length c i = Inr (of_nat (length (enc off v))) \<and>
     get_agtype_offset c i = Inr (of_nat off) \<and>
     fits (off + length (enc off v)) \<and> drop off data = enc off v @ tail"

lemma start_of_enc_metas: "start_of (enc_metas f t p xs) i = length (enc_seq f p (take i xs))"
proof (induction xs arbitrary: p i)
  case (Cons x xs)
  then show ?case by (cases i) (auto simp: start_of_def)
qed (simp add: start_of_def)

lemma enc_metas_nth:
  "i < length xs \<Longrightarrow>
   enc_metas f t p xs ! i = (t (xs ! i), length (f (p + length (enc_seq f p (take i xs))) (xs ! i)))"
proof (induction xs arbitrary: p i)
  case (Cons x xs)
  then show ?case by (cases i) (auto simp: add.assoc)
qed simp

lemma drop_enc_seq:
  "i < length xs \<Longrightarrow>
   drop (length (enc_seq f p (take i xs))) (enc_seq f p xs @ rest) =
     f (p + length (enc_seq f p (take i xs))) (xs ! i) @
     enc_seq f (p + length (enc_seq f p (take (Suc i) xs))) (drop (Suc i) xs) @ rest"
proof (induction xs arbitrary: p i)
  case (Cons x xs)
  then show ?case by (cases i) (auto simp: add.assoc)
qed simp

lemma enc_seq_take_Suc:
  "i < length xs \<Longrightarrow>
   length (enc_seq f p (take (Suc i) xs)) =
     length (enc_seq f p (take i xs)) + length (f (p + length (enc_seq f p (take i xs))) (xs ! i))"
proof (induction xs arbitrary: p i)
  case (Cons x xs)
  then show ?case by (cases i) (auto simp: add.assoc)
qed simp

lemma holds_child_image: "holds_child c i data off v tail = image_at c i data off (ty v) (enc off v) tail"
  by (simp add: holds_child_def image_at_def)

lemma cont_image_at:
  assumes "metas_ok ms" "i < length ms" "ms ! i = (t, length img)" "start_of ms i = off"
    and "drop off (data @ rest) = img @ tail"
  shows "image_at (cont_bytes hdr ms data @ rest) i (data @ rest) off t img tail"
proof -
  have s: "start_of ms (Suc i) = off + length img"
    using start_of_Suc [OF assms(2)] assms(3,4) by simp
  have "fits (off + length img)" using metas_ok_start [OF assms(1), of "Suc i"] s by simp
  then show ?thesis
    using entry_at_fields(1) [OF assms(1,2)] entry_at_advance [OF assms(1,2)] assms s
    unfolding image_at_def by (simp del: of_nat_add)
qed

lemma cont_child:
  assumes "metas_ok ms" "i < length ms" "ms ! i = (ty v, length (enc off v))" "start_of ms i = off"
    and "drop off (data @ rest) = enc off v @ tail"
  shows "holds_child (cont_bytes hdr ms data @ rest) i (data @ rest) off v tail"
  unfolding holds_child_image by (rule cont_image_at [OF assms])

subsection \<open>Images of arrays and objects\<close>

abbreviation array_metas :: "agtype_value list \<Rightarrow> (uint32 \<times> nat) list" where
  "array_metas es \<equiv> enc_metas enc ty 0 es"

text \<open>An object whose values have the images \<open>f\<close>.\<close>

abbreviation object_metas_of :: "(nat \<Rightarrow> agtype_pair \<Rightarrow> byte list) \<Rightarrow> agtype_pair list \<Rightarrow> (uint32 \<times> nat) list" where
  "object_metas_of f ps \<equiv> key_metas ps @ enc_metas f (\<lambda>x. ty (pair_value x)) (keys_len ps) ps"

abbreviation object_data_of :: "(nat \<Rightarrow> agtype_pair \<Rightarrow> byte list) \<Rightarrow> agtype_pair list \<Rightarrow> byte list" where
  "object_data_of f ps \<equiv> concat (map pair_key ps) @ enc_seq f (keys_len ps) ps"

abbreviation object_metas :: "agtype_pair list \<Rightarrow> (uint32 \<times> nat) list" where
  "object_metas ps \<equiv> object_metas_of enc_pair ps"

abbreviation object_data :: "agtype_pair list \<Rightarrow> byte list" where
  "object_data ps \<equiv> object_data_of enc_pair ps"

definition elem_off :: "agtype_value list \<Rightarrow> nat \<Rightarrow> nat" where
  "elem_off es i = length (enc_seq enc 0 (take i es))"

definition key_off :: "agtype_pair list \<Rightarrow> nat \<Rightarrow> nat" where
  "key_off ps i = keys_len (take i ps)"

definition val_off_of :: "(nat \<Rightarrow> agtype_pair \<Rightarrow> byte list) \<Rightarrow> agtype_pair list \<Rightarrow> nat \<Rightarrow> nat" where
  "val_off_of f ps i = keys_len ps + length (enc_seq f (keys_len ps) (take i ps))"

abbreviation val_off :: "agtype_pair list \<Rightarrow> nat \<Rightarrow> nat" where
  "val_off ps i \<equiv> val_off_of enc_pair ps i"

lemma enc_metas_types: "m \<in> set (enc_metas f t p xs) \<Longrightarrow> \<exists>x \<in> set xs. fst m = t x"
  by (induction xs arbitrary: p) auto

lemma array_metas_ok: "fits (length (array_image enc raw es)) \<Longrightarrow> metas_ok (array_metas es)"
  unfolding metas_ok_def
  by (auto simp: start_of_enc_metas dest!: enc_metas_types elim: fits_mono)

lemma object_metas_ok: "fits (length (object_image f ps)) \<Longrightarrow> metas_ok (object_metas_of f ps)"
proof -
  assume f: "fits (length (object_image f ps))"
  have "start_of (object_metas_of f ps) (length (object_metas_of f ps)) = length (object_data_of f ps)"
    using start_of_key_metas [of ps] start_of_enc_metas [of f "\<lambda>x. ty (pair_value x)" "keys_len ps" ps "length ps"]
    by (simp add: start_of_def)
  moreover have "fits (length (object_data_of f ps))" by (rule fits_mono [OF f]) simp
  moreover have "\<forall>m \<in> set (object_metas_of f ps). entry_type_bits (fst m)"
    by (auto simp: key_metas_def dest!: enc_metas_types)
  ultimately show ?thesis by (simp add: metas_ok_def)
qed

lemma array_child:
  assumes "fits (length (array_image enc raw es))" "i < length es"
  shows "\<exists>rst. holds_child (array_image enc raw es @ rest) i (enc_seq enc 0 es @ rest) (elem_off es i) (es ! i) rst"
proof -
  have "drop (elem_off es i) (enc_seq enc 0 es @ rest) =
      enc (elem_off es i) (es ! i) @ enc_seq enc (0 + length (enc_seq enc 0 (take (Suc i) es))) (drop (Suc i) es) @ rest"
    using drop_enc_seq [OF assms(2), of enc 0 rest] by (simp add: elem_off_def)
  then show ?thesis
    unfolding array_image_def
    by (intro exI, rule_tac cont_child [OF array_metas_ok [OF assms(1)]])
       (simp_all add: assms(2) enc_metas_nth start_of_enc_metas elem_off_def)
qed

lemma elem_off_Suc: "i < length es \<Longrightarrow> elem_off es (Suc i) = elem_off es i + length (enc (elem_off es i) (es ! i))"
  using enc_seq_take_Suc [of i es enc 0] by (simp add: elem_off_def)

lemma key_off_Suc: "i < length ps \<Longrightarrow> key_off ps (Suc i) = key_off ps i + length (pair_key (ps ! i))"
  by (simp add: key_off_def keys_len_def take_Suc_conv_app_nth)

lemma val_off_of_Suc: "i < length ps \<Longrightarrow> val_off_of f ps (Suc i) = val_off_of f ps i + length (f (val_off_of f ps i) (ps ! i))"
  using enc_seq_take_Suc [of i ps f "keys_len ps"] by (simp add: val_off_of_def)

lemma object_key_child:
  assumes "fits (length (object_image f ps))" "i < length ps"
  shows "\<exists>rst. holds_child (object_image f ps @ rest) i (object_data_of f ps @ rest) (key_off ps i)
           (AGTV_STRING (pair_key (ps ! i))) rst"
proof -
  have "concat (map pair_key ps) = concat (map pair_key (take i ps)) @ pair_key (ps ! i) @ concat (map pair_key (drop (Suc i) ps))"
    by (subst (1) id_take_nth_drop [OF assms(2)]) simp
  then have "drop (key_off ps i) (object_data_of f ps @ rest) =
      pair_key (ps ! i) @ concat (map pair_key (drop (Suc i) ps)) @ enc_seq f (keys_len ps) ps @ rest"
    by (simp add: key_off_def)
  moreover have "start_of (object_metas_of f ps) i = key_off ps i"
    using assms(2) by (simp add: start_of_def key_off_def keys_len_def key_metas_def take_map comp_def)
  ultimately show ?thesis
    unfolding object_image_def
    by (intro exI, rule_tac cont_child [OF object_metas_ok [OF assms(1)]])
       (use assms(2) in \<open>simp_all add: nth_append key_metas_def\<close>)
qed

lemma object_value_image:
  assumes "fits (length (object_image f ps))" "i < length ps"
  shows "\<exists>rst. image_at (object_image f ps @ rest) (i + length ps) (object_data_of f ps @ rest) (val_off_of f ps i)
           (ty (pair_value (ps ! i))) (f (val_off_of f ps i) (ps ! i)) rst"
proof -
  have "drop (val_off_of f ps i) (object_data_of f ps @ rest) =
      f (val_off_of f ps i) (ps ! i) @
      enc_seq f (keys_len ps + length (enc_seq f (keys_len ps) (take (Suc i) ps))) (drop (Suc i) ps) @ rest"
    using drop_enc_seq [OF assms(2), of f "keys_len ps" rest] by (simp add: val_off_of_def)
  moreover have "start_of (object_metas_of f ps) (i + length ps) = val_off_of f ps i"
    using start_of_key_metas [of ps] start_of_enc_metas [of f "\<lambda>x. ty (pair_value x)" "keys_len ps" ps i]
    by (simp add: start_of_def val_off_of_def)
  ultimately show ?thesis
    unfolding object_image_def
    by (intro exI, rule_tac cont_image_at [OF object_metas_ok [OF assms(1)]])
       (use assms(2) in \<open>simp_all add: nth_append enc_metas_nth val_off_of_def\<close>)
qed

lemma object_value_child:
  assumes "fits (length (object_image enc_pair ps))" "i < length ps"
  shows "\<exists>rst. holds_child (object_image enc_pair ps @ rest) (i + length ps) (object_data ps @ rest) (val_off ps i)
           (pair_value (ps ! i)) rst"
  unfolding holds_child_image by (rule object_value_image [OF assms])

subsection \<open>Well-formed values and their normal form\<close>

text \<open>What the parser and the builders produce: keys in storage order, element counts within the
  parse-state limits, numerics whose size word delimits them, and the raw-scalar mark nowhere
  inside. Reading renumbers the \<open>order\<close> fields, which storage does not keep.\<close>

definition pairs_ok :: "agtype_pair list \<Rightarrow> bool" where
  "pairs_ok ps \<longleftrightarrow> keys_sorted ps \<and> length ps \<le> AGTYPE_MAX_PAIRS"

definition elems_ok :: "agtype_value list \<Rightarrow> bool" where
  "elems_ok es \<longleftrightarrow> length es \<le> AGTYPE_MAX_ELEMS"

function wf_value :: "pg_env \<Rightarrow> agtype_value \<Rightarrow> bool" where
  "wf_value env v \<longleftrightarrow>
     (case v of
        AGTV_BINARY _ _ \<Rightarrow> False
      | AGTV_NUMERIC n \<Rightarrow> numeric_ok env n
      | AGTV_ARRAY raw es \<Rightarrow> \<not> raw \<and> elems_ok es
      | AGTV_PATH es \<Rightarrow> elems_ok es
      | AGTV_OBJECT ps \<Rightarrow> pairs_ok ps
      | AGTV_VERTEX ps \<Rightarrow> pairs_ok ps
      | AGTV_EDGE ps \<Rightarrow> pairs_ok ps
      | _ \<Rightarrow> True) \<and> (\<forall>w \<in> set (kids v). wf_value env w)"
  by pat_completeness auto
termination by (relation "measure (\<lambda>(env, v). size v)") (auto simp: size_kids)

declare wf_value.simps [simp del]

lemma wf_value_kids: "wf_value env v \<Longrightarrow> w \<in> set (kids v) \<Longrightarrow> wf_value env w"
  by (subst (asm) wf_value.simps) simp

lemma wf_value_simps [simp]:
  "\<not> wf_value env (AGTV_BINARY len d)"
  "wf_value env AGTV_NULL" "wf_value env (AGTV_STRING s)" "wf_value env (AGTV_BOOL b)"
  "wf_value env (AGTV_INTEGER i)" "wf_value env (AGTV_FLOAT f)"
  "wf_value env (AGTV_NUMERIC n) \<longleftrightarrow> numeric_ok env n"
  "wf_value env (AGTV_ARRAY raw es) \<longleftrightarrow> \<not> raw \<and> elems_ok es \<and> (\<forall>w \<in> set es. wf_value env w)"
  "wf_value env (AGTV_PATH es) \<longleftrightarrow> elems_ok es \<and> (\<forall>w \<in> set es. wf_value env w)"
  "wf_value env (AGTV_OBJECT ps) \<longleftrightarrow> pairs_ok ps \<and> (\<forall>p \<in> set ps. wf_value env (pair_value p))"
  "wf_value env (AGTV_VERTEX ps) \<longleftrightarrow> pairs_ok ps \<and> (\<forall>p \<in> set ps. wf_value env (pair_value p))"
  "wf_value env (AGTV_EDGE ps) \<longleftrightarrow> pairs_ok ps \<and> (\<forall>p \<in> set ps. wf_value env (pair_value p))"
  by (subst wf_value.simps, simp)+

lemma wf_writable: "wf_value env v \<Longrightarrow> writable env v"
proof (induction v rule: kids_induct)
  case (kids v)
  have "\<forall>w \<in> set (kids v). writable env w" using kids wf_value_kids by blast
  moreover have "numeric_ok env n \<Longrightarrow> pg_varsize env n = length n" for n
    unfolding numeric_ok_def by (metis append_Nil2)
  ultimately show ?case using kids.prems by (subst writable.simps) (cases v; simp)
qed

definition renumber :: "(agtype_value \<Rightarrow> agtype_value) \<Rightarrow> agtype_pair list \<Rightarrow> agtype_pair list" where
  "renumber f ps = number_pairs 0 (map (\<lambda>p. (pair_key p, f (pair_value p))) ps)"

lemma renumber_cong [fundef_cong]:
  "ps = ps' \<Longrightarrow> (\<And>p. p \<in> set ps' \<Longrightarrow> f (pair_value p) = g (pair_value p)) \<Longrightarrow> renumber f ps = renumber g ps'"
  unfolding renumber_def by (metis (mono_tags, lifting) map_eq_conv)

function norm :: "agtype_value \<Rightarrow> agtype_value" where
  "norm v =
     (case v of
        AGTV_ARRAY raw es \<Rightarrow> AGTV_ARRAY raw (map norm es)
      | AGTV_PATH es \<Rightarrow> AGTV_PATH (map norm es)
      | AGTV_OBJECT ps \<Rightarrow> AGTV_OBJECT (renumber norm ps)
      | AGTV_VERTEX ps \<Rightarrow> AGTV_VERTEX (renumber norm ps)
      | AGTV_EDGE ps \<Rightarrow> AGTV_EDGE (renumber norm ps)
      | _ \<Rightarrow> v)"
  by pat_completeness auto
termination by (relation "measure size") (auto simp: termination_simp)

declare norm.simps [simp del]

lemma norm_simps [simp]:
  "norm AGTV_NULL = AGTV_NULL" "norm (AGTV_STRING s) = AGTV_STRING s" "norm (AGTV_NUMERIC n) = AGTV_NUMERIC n"
  "norm (AGTV_INTEGER i) = AGTV_INTEGER i" "norm (AGTV_FLOAT f) = AGTV_FLOAT f" "norm (AGTV_BOOL b) = AGTV_BOOL b"
  "norm (AGTV_BINARY l d) = AGTV_BINARY l d"
  "norm (AGTV_ARRAY raw es) = AGTV_ARRAY raw (map norm es)"
  "norm (AGTV_PATH es) = AGTV_PATH (map norm es)"
  "norm (AGTV_OBJECT ps) = AGTV_OBJECT (renumber norm ps)"
  "norm (AGTV_VERTEX ps) = AGTV_VERTEX (renumber norm ps)"
  "norm (AGTV_EDGE ps) = AGTV_EDGE (renumber norm ps)"
  by (subst norm.simps, simp)+

text \<open>\<open>toks\<close> is the number of tokens of a nested iteration over a value (1 for a scalar); \<open>need\<close> is
  fuel that is enough to read it.\<close>

function toks :: "agtype_value \<Rightarrow> nat" where
  "toks v =
     (case v of
        AGTV_ARRAY raw es \<Rightarrow> 2 + sum_list (map toks es)
      | AGTV_OBJECT ps \<Rightarrow> 2 + sum_list (map (\<lambda>p. 1 + toks (pair_value p)) ps)
      | _ \<Rightarrow> 1)"
  by pat_completeness auto
termination by (relation "measure size") (auto simp: termination_simp)

function need :: "agtype_value \<Rightarrow> nat" where
  "need v = 4 + 2 * length (kids v) + toks v + sum_list (map need (kids v)) "
  by pat_completeness auto
termination by (relation "measure size") (auto simp: size_kids)

declare toks.simps [simp del] need.simps [simp del]

lemma toks_simps [simp]:
  "toks (AGTV_ARRAY raw es) = 2 + sum_list (map toks es)"
  "toks (AGTV_OBJECT ps) = 2 + sum_list (map (\<lambda>p. 1 + toks (pair_value p)) ps)"
  "IS_A_AGTYPE_SCALAR v \<Longrightarrow> toks v = 1"
  by (subst toks.simps, simp, (cases v; simp)?)+

lemma toks_pos: "0 < toks v"
  by (subst toks.simps) (simp split: agtype_value.splits)

lemma need_kid: "w \<in> set (kids v) \<Longrightarrow> need w < need v"
  using member_le_sum_list [of "need w" "map need (kids v)"] by (subst (2) need.simps) simp

lemma need_toks: "toks v < need v"
  by (subst need.simps) simp

subsection \<open>Iterators over stored containers\<close>

lemma header_bits:
  assumes "fits n" "m AND AGT_CMASK = 0"
  shows "(of_nat n :: uint32) AND m = 0"
proof -
  have "(of_nat n :: uint32) AND AGT_CMASK = of_nat n"
    using fits_and_mask [OF assms(1)] by (simp add: AGT_CMASK_def AGTENTRY_OFFLENMASK_def)
  then have "(of_nat n :: uint32) AND m = of_nat n AND (AGT_CMASK AND m)" by (metis and.assoc)
  with assms(2) show ?thesis by (simp add: and.commute)
qed

lemmas agt_flags = AGT_CMASK_def AGT_FARRAY_def AGT_FOBJECT_def AGT_FSCALAR_def

lemma array_header_fields:
  assumes "fits n"
  shows "array_header raw n AND (AGT_FARRAY OR AGT_FOBJECT) = AGT_FARRAY"
    "header_size (array_header raw n) = n" "header_is_scalar (array_header raw n) = raw"
    "header_is_array (array_header raw n)" "\<not> header_is_object (array_header raw n)"
proof -
  have m: "(of_nat n :: uint32) AND AGT_CMASK = of_nat n"
    using fits_and_mask [OF assms] by (simp add: AGT_CMASK_def AGTENTRY_OFFLENMASK_def)
  note z = header_bits [OF assms]
  show "array_header raw n AND (AGT_FARRAY OR AGT_FOBJECT) = AGT_FARRAY"
    "header_size (array_header raw n) = n" "header_is_scalar (array_header raw n) = raw"
    "header_is_array (array_header raw n)" "\<not> header_is_object (array_header raw n)"
    using m assms
    by (simp_all add: array_header_def header_size_def header_is_scalar_def header_is_array_def header_is_object_def
        bit.conj_disj_distrib2 z agt_flags)
qed

lemma object_header_fields:
  assumes "fits n"
  shows "(of_nat n OR AGT_FOBJECT) AND (AGT_FARRAY OR AGT_FOBJECT) = AGT_FOBJECT"
    "header_size (of_nat n OR AGT_FOBJECT) = n"
  using header_flags [OF assms] header_bits [OF assms, of "AGT_FARRAY OR AGT_FOBJECT"]
  by (simp_all add: bit.conj_disj_distrib2 agt_flags)

definition array_it :: "bool \<Rightarrow> agtype_value list \<Rightarrow> byte list \<Rightarrow> nat \<Rightarrow> agt_iterator_state \<Rightarrow> agtype_iterator" where
  "array_it raw es rest i state =
     \<lparr>it_container = array_image enc raw es @ rest, it_num_elems = length es, it_is_scalar = raw,
      it_data_proper = enc_seq enc 0 es @ rest, it_curr_index = i,
      it_curr_data_offset = of_nat (elem_off es i), it_curr_value_offset = 0, it_state = state\<rparr>"

definition object_it_of ::
    "(nat \<Rightarrow> agtype_pair \<Rightarrow> byte list) \<Rightarrow> agtype_pair list \<Rightarrow> byte list \<Rightarrow> nat \<Rightarrow> uint32 \<Rightarrow> agt_iterator_state \<Rightarrow> agtype_iterator" where
  "object_it_of f ps rest i voff state =
     \<lparr>it_container = object_image f ps @ rest, it_num_elems = length ps, it_is_scalar = False,
      it_data_proper = object_data_of f ps @ rest, it_curr_index = i,
      it_curr_data_offset = of_nat (key_off ps i), it_curr_value_offset = voff, it_state = state\<rparr>"

abbreviation object_it :: "agtype_pair list \<Rightarrow> byte list \<Rightarrow> nat \<Rightarrow> uint32 \<Rightarrow> agt_iterator_state \<Rightarrow> agtype_iterator" where
  "object_it ps \<equiv> object_it_of enc_pair ps"

lemma off_0 [simp]: "elem_off es 0 = 0" "key_off ps 0 = 0" "val_off_of f ps 0 = keys_len ps"
  by (simp_all add: elem_off_def key_off_def keys_len_def val_off_of_def)

lemma iterator_from_array:
  assumes "fits (length (array_image enc raw es))"
  shows "iterator_from_container (array_image enc raw es @ rest) = Inr (array_it raw es rest 0 AGTI_ARRAY_START)"
proof -
  have "fits (length es)" by (rule fits_mono [OF assms]) simp
  note h = array_header_fields [OF this]
  show ?thesis
    unfolding iterator_from_container_def array_it_def array_image_def
    by (simp add: h Let_def)
qed

lemma iterator_from_object:
  assumes "fits (length (object_image f ps))"
  shows "iterator_from_container (object_image f ps @ rest) = Inr (object_it_of f ps rest 0 0 AGTI_OBJECT_START)"
proof -
  have "fits (length ps)" by (rule fits_mono [OF assms]) simp
  note h = object_header_fields [OF this]
  have "AGT_FOBJECT \<noteq> AGT_FARRAY" by (simp add: agt_flags)
  then show ?thesis
    unfolding iterator_from_container_def object_it_of_def object_image_def
    by (simp add: h Let_def)
qed

lemma start_array: "iterator_start (array_it raw es rest 0 AGTI_ARRAY_START) its =
    Inr (WAGT_BEGIN_ARRAY, AGTV_ARRAY raw (replicate (length es) AGTV_NULL), array_it raw es rest 0 AGTI_ARRAY_ELEM # its)"
  by (simp add: iterator_start_def array_it_def)

lemma start_object:
  assumes "fits (length (object_image f ps))"
  shows "iterator_start (object_it_of f ps rest 0 0 AGTI_OBJECT_START) its =
    Inr (WAGT_BEGIN_OBJECT, AGTV_OBJECT (replicate (length ps) ([], AGTV_NULL, 0)),
         object_it_of f ps rest 0 (of_nat (val_off_of f ps 0)) AGTI_OBJECT_KEY # its)"
proof -
  have "start_of (object_metas_of f ps) (length ps) = keys_len ps"
    using start_of_key_metas [of ps] by (simp add: start_of_def)
  then have "get_agtype_offset (object_image f ps @ rest) (length ps) = Inr (of_nat (keys_len ps))"
    using get_agtype_offset_cont [OF object_metas_ok [OF assms], of "length ps"] by (simp add: object_image_def)
  then show ?thesis by (simp add: iterator_start_def object_it_of_def)
qed

subsection \<open>One step of an iteration\<close>

fun cimage :: "agtype_value \<Rightarrow> byte list" where
  "cimage (AGTV_ARRAY raw es) = array_image enc raw es"
| "cimage (AGTV_OBJECT ps) = object_image enc_pair ps"
| "cimage _ = []"

definition shallow :: "agtype_value \<Rightarrow> byte list \<Rightarrow> agtype_value" where
  "shallow v rst = (if IS_A_AGTYPE_SCALAR v then norm v else AGTV_BINARY (int (length (cimage v))) (cimage v @ rst))"

definition reads :: "fill_fun \<Rightarrow> agtype_value \<Rightarrow> bool" where
  "reads fill v \<longleftrightarrow> (\<forall>c i data off rst. holds_child c i data off v rst \<longrightarrow>
     fill c i data (of_nat off) = Inr (shallow v rst))"

lemma readsD: "reads fill v \<Longrightarrow> holds_child c i data off v rst \<Longrightarrow> fill c i data (of_nat off) = Inr (shallow v rst)"
  unfolding reads_def by blast

lemma next_start: "it_state it \<in> {AGTI_ARRAY_START, AGTI_OBJECT_START} \<Longrightarrow>
    agtype_iterator_next fill (it # its) skip = iterator_start it its"
  by (auto simp: agtype_iterator_next_def Let_def)

lemma next_array_elem:
  assumes "reads fill (es ! i)" "i < length es" "fits (length (array_image enc raw es))"
  shows "\<exists>rst. agtype_iterator_next fill (array_it raw es rest i AGTI_ARRAY_ELEM # its) skip =
    iterator_child skip WAGT_ELEM (shallow (es ! i) rst) (array_it raw es rest (Suc i) AGTI_ARRAY_ELEM) its"
proof -
  obtain rst where h: "holds_child (array_image enc raw es @ rest) i (enc_seq enc 0 es @ rest) (elem_off es i) (es ! i) rst"
    using array_child [OF assms(3,2)] by blast
  then obtain e where e: "container_child (array_image enc raw es @ rest) i = Inr e"
      "AGTE_ADVANCE_OFFSET (of_nat (elem_off es i)) e = of_nat (elem_off es (Suc i))"
    unfolding holds_child_def elem_off_Suc [OF assms(2)] by blast
  have "fill (array_image enc raw es @ rest) i (enc_seq enc 0 es @ rest) (of_nat (elem_off es i)) = Inr (shallow (es ! i) rst)"
    by (rule readsD [OF assms(1) h])
  with e assms(2) show ?thesis
    by (intro exI [of _ rst]) (simp add: agtype_iterator_next_def array_it_def Let_def)
qed

lemma next_array_end:
  "agtype_iterator_next fill (array_it raw es rest (length es) AGTI_ARRAY_ELEM # its) skip = Inr (WAGT_END_ARRAY, AGTV_NULL, its)"
  by (simp add: agtype_iterator_next_def array_it_def)

lemma next_object_key:
  assumes "reads fill (AGTV_STRING (pair_key (ps ! i)))" "i < length ps" "fits (length (object_image f ps))"
  shows "agtype_iterator_next fill (object_it_of f ps rest i voff AGTI_OBJECT_KEY # its) skip =
    Inr (WAGT_KEY, AGTV_STRING (pair_key (ps ! i)), object_it_of f ps rest i voff AGTI_OBJECT_VALUE # its)"
proof -
  obtain rst where h: "holds_child (object_image f ps @ rest) i (object_data_of f ps @ rest) (key_off ps i)
           (AGTV_STRING (pair_key (ps ! i))) rst"
    using object_key_child [OF assms(3,2)] by blast
  have "fill (object_image f ps @ rest) i (object_data_of f ps @ rest) (of_nat (key_off ps i)) = Inr (AGTV_STRING (pair_key (ps ! i)))"
    using readsD [OF assms(1) h] by (simp add: shallow_def)
  with assms(2) show ?thesis by (simp add: agtype_iterator_next_def object_it_of_def Let_def)
qed

lemma next_object_image:
  assumes "i < length ps" "fits (length (object_image f ps))"
    and r: "\<And>c i' data off rst. image_at c i' data off (ty (pair_value (ps ! i))) (f off (ps ! i)) rst \<Longrightarrow> fill c i' data (of_nat off) = Inr (x rst)"
  shows "\<exists>rst. agtype_iterator_next fill (object_it_of f ps rest i (of_nat (val_off_of f ps i)) AGTI_OBJECT_VALUE # its) skip =
    iterator_child skip WAGT_VALUE (x rst) (object_it_of f ps rest (Suc i) (of_nat (val_off_of f ps (Suc i))) AGTI_OBJECT_KEY) its"
proof -
  let ?c = "object_image f ps @ rest" and ?d = "object_data_of f ps @ rest"
  obtain rst where h: "image_at ?c (i + length ps) ?d (val_off_of f ps i) (ty (pair_value (ps ! i))) (f (val_off_of f ps i) (ps ! i)) rst"
    using object_value_image [OF assms(2,1)] by blast
  then obtain e where e: "container_child ?c (i + length ps) = Inr e"
      "AGTE_ADVANCE_OFFSET (of_nat (val_off_of f ps i)) e = of_nat (val_off_of f ps (Suc i))"
    unfolding image_at_def val_off_of_Suc [OF assms(1)] by blast
  obtain rst' where "holds_child ?c i ?d (key_off ps i) (AGTV_STRING (pair_key (ps ! i))) rst'"
    using object_key_child [OF assms(2,1)] by blast
  then obtain k where k: "container_child ?c i = Inr k"
      "AGTE_ADVANCE_OFFSET (of_nat (key_off ps i)) k = of_nat (key_off ps (Suc i))"
    unfolding holds_child_def key_off_Suc [OF assms(1)] by auto
  from r [OF h] e k assms(1) show ?thesis
    by (intro exI [of _ rst]) (simp add: agtype_iterator_next_def object_it_of_def Let_def)
qed

lemma next_object_value:
  assumes "reads fill (pair_value (ps ! i))" "i < length ps" "fits (length (object_image enc_pair ps))"
  shows "\<exists>rst. agtype_iterator_next fill (object_it ps rest i (of_nat (val_off ps i)) AGTI_OBJECT_VALUE # its) skip =
    iterator_child skip WAGT_VALUE (shallow (pair_value (ps ! i)) rst)
      (object_it ps rest (Suc i) (of_nat (val_off ps (Suc i))) AGTI_OBJECT_KEY) its"
  by (rule next_object_image [OF assms(2,3)]) (rule readsD [OF assms(1)], simp add: holds_child_image)

lemma next_object_end:
  "agtype_iterator_next fill (object_it_of f ps rest (length ps) voff AGTI_OBJECT_KEY # its) skip = Inr (WAGT_END_OBJECT, AGTV_NULL, its)"
  by (simp add: agtype_iterator_next_def object_it_of_def)

end
