(* ===== verification/Agtype_Decode.thy ===== *)
theory Agtype_Decode
  imports Agtype_Roundtrip
begin

text \<open>
  The round trip. Draining an iterator over a stored container into a parse state rebuilds the
  stored value, with nested containers either walked by the iterator (\<open>skip_nested\<close> false) or
  handed over as binaries and unpacked by \<open>push_agtype_value\<close> (the way composites are
  deserialized); so every well-formed value that is written is read back, up to the \<open>order\<close>
  fields that storage does not keep.
\<close>

subsection \<open>Filling a frame\<close>

definition frame_ok :: "agtype_parse_state \<Rightarrow> nat \<Rightarrow> bool" where
  "frame_ok st n \<longleftrightarrow> 0 < ps_size st \<and> n \<le> ps_size st"

lemma append_element_ok:
  assumes "ps_cont st = PS_ARRAY raw es" "frame_ok st (length es)" "length es < AGTYPE_MAX_ELEMS"
  shows "\<exists>st'. append_element st v = Inr st' \<and> ps_cont st' = PS_ARRAY raw (es @ [v]) \<and> frame_ok st' (length (es @ [v]))"
  using assms by (auto simp: append_element_def frame_ok_def Let_def)

lemma append_pair_ok:
  assumes "ps_cont st = PS_OBJECT pairs None" "frame_ok st (length pairs)" "length pairs < AGTYPE_MAX_PAIRS"
  shows "\<exists>st1 st2. append_key st k = Inr st1 \<and> ps_cont st1 = PS_OBJECT pairs (Some (k, length pairs)) \<and>
    append_value st1 v = Inr st2 \<and> ps_cont st2 = PS_OBJECT (pairs @ [(k, v, length pairs)]) None \<and>
    frame_ok st2 (length (pairs @ [(k, v, length pairs)]))"
  using assms by (auto simp: append_key_def append_value_def frame_ok_def Let_def)

lemma array_loop:
  assumes step: "\<And>i st es1 res m. i < length es \<Longrightarrow> ps_cont st = PS_ARRAY raw es1 \<Longrightarrow>
      \<exists>r. drain nxt push (k (es ! i) + m) (IT i # its) (st # ps) res =
        bindE (append_element st (norm (es ! i))) (\<lambda>st'. drain nxt push m (IT (Suc i) # its) (st' # ps) r)"
    and fin: "\<And>st res m. drain nxt push (Suc m) (IT (length es) # its) (st # ps) res =
        bindE (pop_state ps (cont_val (ps_cont st))) (\<lambda>(r, ps'). drain nxt push m its ps' r)"
    and "i \<le> length es" "ps_cont st = PS_ARRAY raw es0" "frame_ok st (length es0)"
    and "length es0 + (length es - i) \<le> AGTYPE_MAX_ELEMS"
  shows "drain nxt push (sum_list (map k (drop i es)) + Suc m) (IT i # its) (st # ps) res =
    bindE (pop_state ps (AGTV_ARRAY raw (es0 @ map norm (drop i es)))) (\<lambda>(r, ps'). drain nxt push m its ps' r)"
  using assms(3-6)
proof (induction "length es - i" arbitrary: i st es0 res)
  case 0
  then show ?case using fin by simp
next
  case (Suc n)
  then have i: "i < length es" by simp
  then have d: "drop i es = es ! i # drop (Suc i) es" by (simp add: Cons_nth_drop_Suc)
  obtain st' where st': "append_element st (norm (es ! i)) = Inr st'"
      "ps_cont st' = PS_ARRAY raw (es0 @ [norm (es ! i)])" "frame_ok st' (length (es0 @ [norm (es ! i)]))"
    using append_element_ok [OF Suc.prems(2,3)] Suc.prems(4) i by fastforce
  let ?m = "sum_list (map k (drop (Suc i) es)) + Suc m"
  obtain r where "drain nxt push (k (es ! i) + ?m) (IT i # its) (st # ps) res =
      drain nxt push ?m (IT (Suc i) # its) (st' # ps) r"
    using step [OF i Suc.prems(2), of ?m res] st'(1) by auto
  moreover have "drain nxt push ?m (IT (Suc i) # its) (st' # ps) r =
      bindE (pop_state ps (AGTV_ARRAY raw ((es0 @ [norm (es ! i)]) @ map norm (drop (Suc i) es)))) (\<lambda>(r, ps'). drain nxt push m its ps' r)"
    by (rule Suc.hyps(1)) (use Suc i st' in auto)
  ultimately show ?case by (simp add: d add.assoc)
qed

lemma object_loop:
  assumes step: "\<And>i st pairs res m. i < length kvs \<Longrightarrow> ps_cont st = PS_OBJECT pairs None \<Longrightarrow>
      \<exists>r. drain nxt push (1 + k (pair_value (kvs ! i)) + m) (IT i # its) (st # ps) res =
        bindE (append_key st (pair_key (kvs ! i))) (\<lambda>st1.
        bindE (append_value st1 (norm (pair_value (kvs ! i)))) (\<lambda>st2. drain nxt push m (IT (Suc i) # its) (st2 # ps) r))"
    and fin: "\<And>st pairs res m. ps_cont st = PS_OBJECT pairs None \<Longrightarrow>
      drain nxt push (Suc m) (IT (length kvs) # its) (st # ps) res =
        bindE (pop_state ps (AGTV_OBJECT (uniqueify_agtype_object env pairs))) (\<lambda>(r, ps'). drain nxt push m its ps' r)"
    and "i \<le> length kvs" "ps_cont st = PS_OBJECT pairs0 None" "frame_ok st (length pairs0)"
    and "length pairs0 + (length kvs - i) \<le> AGTYPE_MAX_PAIRS"
  shows "drain nxt push (sum_list (map (\<lambda>p. 1 + k (pair_value p)) (drop i kvs)) + Suc m) (IT i # its) (st # ps) res =
    bindE (pop_state ps (AGTV_OBJECT (uniqueify_agtype_object env
             (pairs0 @ number_pairs (length pairs0) (map (\<lambda>p. (pair_key p, norm (pair_value p))) (drop i kvs))))))
      (\<lambda>(r, ps'). drain nxt push m its ps' r)"
  using assms(3-6)
proof (induction "length kvs - i" arbitrary: i st pairs0 res)
  case 0
  then show ?case using fin by simp
next
  case (Suc n)
  then have i: "i < length kvs" by simp
  then have d: "drop i kvs = kvs ! i # drop (Suc i) kvs" by (simp add: Cons_nth_drop_Suc)
  have lt: "length pairs0 < AGTYPE_MAX_PAIRS" using Suc.prems(4) i by simp
  let ?k = "pair_key (kvs ! i)" and ?v = "norm (pair_value (kvs ! i))"
  let ?p = "pairs0 @ [(?k, ?v, length pairs0)]"
  obtain st1 st2 where st: "append_key st ?k = Inr st1" "append_value st1 ?v = Inr st2"
      "ps_cont st2 = PS_OBJECT ?p None" "frame_ok st2 (length ?p)"
    using append_pair_ok [OF Suc.prems(2,3) lt, of ?k ?v] by blast
  let ?m = "sum_list (map (\<lambda>p. 1 + k (pair_value p)) (drop (Suc i) kvs)) + Suc m"
  obtain r where "drain nxt push (1 + k (pair_value (kvs ! i)) + ?m) (IT i # its) (st # ps) res =
      drain nxt push ?m (IT (Suc i) # its) (st2 # ps) r"
    using step [OF i Suc.prems(2), of ?m res] st(1,2) by auto
  moreover have "drain nxt push ?m (IT (Suc i) # its) (st2 # ps) r =
      bindE (pop_state ps (AGTV_OBJECT (uniqueify_agtype_object env
             (?p @ number_pairs (length ?p) (map (\<lambda>p. (pair_key p, norm (pair_value p))) (drop (Suc i) kvs))))))
      (\<lambda>(r, ps'). drain nxt push m its ps' r)"
    by (rule Suc.hyps(1)) (use Suc i st in auto)
  ultimately show ?case by (simp add: d add.assoc)
qed

subsection \<open>Sorted objects are already unique\<close>

lemma keys_sorted_before: "keys_sorted ps \<Longrightarrow> sorted_wrt pair_before ps"
  unfolding keys_sorted_def by (rule sorted_wrt_mono_rel [rotated], assumption) (simp add: pair_before_def)

lemma uniqueify_sorted:
  assumes "qsort_ok (pg_qsort_arg env)" "keys_sorted ps" "distinct (map pair_order ps)"
  shows "uniqueify_agtype_object env ps = ps"
proof -
  obtain ys where ys: "mset ys = mset ps" "sorted_wrt pair_before ys" "uniqueify_agtype_object env ps = uniq_pairs ys"
    using uniqueify_is_uniq_pairs [OF assms(1,3)] by blast
  have "ys = ps"
    by (rule sorted_wrt_set_unique [OF ys(2) keys_sorted_before [OF assms(2)] mset_eq_setD [OF ys(1)] pair_before_irrefl])
       (use pair_before_trans pair_before_irrefl in blast)
  moreover have "uniq_pairs ps = ps"
  proof (rule uniq_pairs_id)
    fix i assume "Suc i < length ps"
    with assms(2) have "key_cmp (pair_key (ps ! i)) (pair_key (ps ! Suc i)) < 0"
      using sorted_wrt_nth_less [of "\<lambda>p q. key_cmp (pair_key p) (pair_key q) < 0" ps i "Suc i"]
      by (simp add: keys_sorted_def)
    then show "pair_key (ps ! i) \<noteq> pair_key (ps ! Suc i)" by auto
  qed
  ultimately show ?thesis using ys(3) by simp
qed

lemma number_pairs_keys: "map pair_key (number_pairs n kvs) = map fst kvs"
  by (induction n kvs rule: number_pairs.induct) auto

lemma keys_sorted_map: "keys_sorted ps \<longleftrightarrow> sorted_wrt (\<lambda>a b. key_cmp a b < 0) (map pair_key ps)"
  by (simp add: keys_sorted_def sorted_wrt_map)

lemma uniqueify_renumber:
  assumes "qsort_ok (pg_qsort_arg env)" "keys_sorted ps"
  shows "uniqueify_agtype_object env (renumber f ps) = renumber f ps"
proof (rule uniqueify_sorted [OF assms(1)])
  show "keys_sorted (renumber f ps)"
    using assms(2) by (simp add: keys_sorted_map renumber_def number_pairs_keys comp_def)
  show "distinct (map pair_order (renumber f ps))"
    unfolding renumber_def number_pairs_order by simp
qed

subsection \<open>One child\<close>

definition drains :: "pg_env \<Rightarrow> fill_fun \<Rightarrow> agtype_value \<Rightarrow> bool" where
  "drains env fill v \<longleftrightarrow> (\<forall>rst. \<exists>it. iterator_from_container (cimage v @ rst) = Inr it \<and>
     it_state it \<in> {AGTI_ARRAY_START, AGTI_OBJECT_START} \<and>
     (\<forall>its ps res m. drain (\<lambda>its. agtype_iterator_next fill its False) (push_agtype_value_scalar env) (toks v + m) (it # its) ps res =
        bindE (pop_state ps (norm v)) (\<lambda>(r, ps').
          drain (\<lambda>its. agtype_iterator_next fill its False) (push_agtype_value_scalar env) m its ps' r)))"

definition add_child :: "agtype_iterator_token \<Rightarrow> agtype_parse_state \<Rightarrow> agtype_value \<Rightarrow> agtype_parse_state result" where
  "add_child tok st v = (if tok = WAGT_ELEM then append_element st v else append_value st v)"

definition tok_fits :: "agtype_iterator_token \<Rightarrow> agtype_parse_state \<Rightarrow> bool" where
  "tok_fits tok st \<longleftrightarrow> (case ps_cont st of PS_ARRAY _ _ \<Rightarrow> tok = WAGT_ELEM | PS_OBJECT _ _ \<Rightarrow> tok = WAGT_VALUE)"

lemma tok_fits_pop: "tok_fits tok st \<Longrightarrow>
    pop_state (st # ps) v = bindE (add_child tok st v) (\<lambda>st'. Inr (Some v, st' # ps))"
  by (auto simp: tok_fits_def pop_state_def add_child_def split: parse_cont.splits)

lemma tok_fits_push: "tok_fits tok st \<Longrightarrow>
    push_agtype_value_scalar env (st # ps) tok (Some v) = bindE (add_child tok st v) (\<lambda>st'. Inr (None, st' # ps))"
  by (auto simp: tok_fits_def add_child_def split: parse_cont.splits)

lemma tok_fits_tok: "tok_fits tok st \<Longrightarrow> tok = WAGT_ELEM \<or> tok = WAGT_VALUE"
  by (auto simp: tok_fits_def split: parse_cont.splits)

lemma norm_scalar: "IS_A_AGTYPE_SCALAR v \<Longrightarrow> IS_A_AGTYPE_SCALAR (norm v)"
  by (cases v) simp_all

lemma bindE_assoc: "bindE (bindE m f) g = bindE m (\<lambda>x. bindE (f x) g)"
  by (cases m) simp_all

lemma nested_child:
  assumes nx: "agtype_iterator_next fill (it # its) False = iterator_child False tok (shallow w rst) it' its"
    and "tok_fits tok st" "\<not> IS_A_AGTYPE_SCALAR w \<Longrightarrow> drains env fill w"
  shows "\<exists>r. drain (\<lambda>its. agtype_iterator_next fill its False) (push_agtype_value_scalar env) (toks w + m) (it # its) (st # ps) res =
    bindE (add_child tok st (norm w)) (\<lambda>st'.
      drain (\<lambda>its. agtype_iterator_next fill its False) (push_agtype_value_scalar env) m (it' # its) (st' # ps) r)"
proof (cases "IS_A_AGTYPE_SCALAR w")
  case True
  then have "agtype_iterator_next fill (it # its) False = Inr (tok, norm w, it' # its)"
    using nx by (simp add: iterator_child_def shallow_def norm_scalar)
  with True tok_fits_tok [OF assms(2)] show ?thesis
    by (auto simp: tok_fits_push [OF assms(2)] bindE_assoc)
next
  case False
  obtain ch where ch: "iterator_from_container (cimage w @ rst) = Inr ch"
      "it_state ch \<in> {AGTI_ARRAY_START, AGTI_OBJECT_START}"
    and d: "\<And>its ps res m. drain (\<lambda>its. agtype_iterator_next fill its False) (push_agtype_value_scalar env) (toks w + m) (ch # its) ps res =
        bindE (pop_state ps (norm w)) (\<lambda>(r, ps').
          drain (\<lambda>its. agtype_iterator_next fill its False) (push_agtype_value_scalar env) m its ps' r)"
    using assms(3) [OF False] unfolding drains_def by blast
  have "agtype_iterator_next fill (it # its) False = agtype_iterator_next fill (ch # it' # its) False"
    using nx False ch by (simp add: iterator_child_def shallow_def next_start)
  moreover obtain n where "toks w + m = Suc n" using toks_pos [of w] by (cases "toks w") auto
  ultimately have "drain (\<lambda>its. agtype_iterator_next fill its False) (push_agtype_value_scalar env) (toks w + m) (it # its) (st # ps) res =
      drain (\<lambda>its. agtype_iterator_next fill its False) (push_agtype_value_scalar env) (toks w + m) (ch # it' # its) (st # ps) res"
    by simp
  then show ?thesis by (auto simp: d tok_fits_pop [OF assms(2)] bindE_assoc)
qed

text \<open>The value \<open>x\<close>, as the iterator returned it, adds \<open>w\<close> to the open frame.\<close>

definition pushes :: "pg_env \<Rightarrow> fill_fun \<Rightarrow> nat \<Rightarrow> agtype_value \<Rightarrow> agtype_value \<Rightarrow> bool" where
  "pushes env fill F x w \<longleftrightarrow> (\<forall>tok st ps. tok_fits tok st \<longrightarrow>
     (\<exists>r. push_agtype_value env fill F (st # ps) tok (Some x) = bindE (add_child tok st (norm w)) (\<lambda>st'. Inr (r, st' # ps))))"

lemma push_scalar:
  assumes "IS_A_AGTYPE_SCALAR w"
  shows "pushes env fill F (norm w) w"
proof -
  have "push_agtype_value env fill F (st # ps) tok (Some (norm w)) = push_agtype_value_scalar env (st # ps) tok (Some (norm w))" for st ps tok
    using norm_scalar [OF assms] by (cases "norm w") (simp_all add: push_agtype_value_def)
  then show ?thesis by (auto simp: pushes_def tok_fits_push)
qed

lemma push_binary:
  assumes "drains env fill w" "toks w < F"
  shows "pushes env fill F (AGTV_BINARY len (cimage w @ rst)) w"
proof -
  obtain ch where ch: "iterator_from_container (cimage w @ rst) = Inr ch"
    and d: "\<And>its ps res m. drain (\<lambda>its. agtype_iterator_next fill its False) (push_agtype_value_scalar env) (toks w + m) (ch # its) ps res =
        bindE (pop_state ps (norm w)) (\<lambda>(r, ps').
          drain (\<lambda>its. agtype_iterator_next fill its False) (push_agtype_value_scalar env) m its ps' r)"
    using assms(1) unfolding drains_def by blast
  obtain f where F: "F = toks w + Suc f" using assms(2) less_imp_Suc_add by auto
  have "drain (\<lambda>its. agtype_iterator_next fill its False) (push_agtype_value_scalar env) F [ch] (st # ps) None =
      bindE (add_child tok st (norm w)) (\<lambda>st'. Inr (Some (norm w), st' # ps))" if "tok_fits tok st" for tok st ps
    unfolding F d by (simp add: tok_fits_pop [OF that] bindE_assoc agtype_iterator_next_def)
  then show ?thesis using tok_fits_tok ch by (fastforce simp: pushes_def push_agtype_value_def agtype_iterator_init_def)
qed

lemma pushes_shallow:
  "(\<not> IS_A_AGTYPE_SCALAR w \<Longrightarrow> drains env fill w) \<Longrightarrow> toks w < F \<Longrightarrow> pushes env fill F (shallow w rst) w"
  by (simp add: shallow_def push_scalar push_binary)

lemma push_child:
  assumes "tok_fits tok st" "\<not> IS_A_AGTYPE_SCALAR w \<Longrightarrow> drains env fill w" "toks w < F"
  shows "\<exists>r. push_agtype_value env fill F (st # ps) tok (Some (shallow w rst)) = bindE (add_child tok st (norm w)) (\<lambda>st'. Inr (r, st' # ps))"
  using pushes_shallow [OF assms(2,3)] assms(1) unfolding pushes_def by blast

lemma composite_child:
  assumes nx: "agtype_iterator_next fill (it # its) True = iterator_child True tok x it' its"
    and "tok_fits tok st" "pushes env fill F x w"
  shows "\<exists>r. drain (\<lambda>its. agtype_iterator_next fill its True) (push_agtype_value env fill F) (Suc m) (it # its) (st # ps) res =
    bindE (add_child tok st (norm w)) (\<lambda>st'.
      drain (\<lambda>its. agtype_iterator_next fill its True) (push_agtype_value env fill F) m (it' # its) (st' # ps) r)"
proof -
  have "agtype_iterator_next fill (it # its) True = Inr (tok, x, it' # its)" using nx by (simp add: iterator_child_def)
  moreover obtain r where "push_agtype_value env fill F (st # ps) tok (Some x) = bindE (add_child tok st (norm w)) (\<lambda>st'. Inr (r, st' # ps))"
    using assms(2,3) unfolding pushes_def by blast
  ultimately show ?thesis using tok_fits_tok [OF assms(2)] by (auto simp: bindE_assoc)
qed

subsection \<open>Whole containers\<close>

lemma it_state_simps [simp]: "it_state (array_it raw es rst i s) = s" "it_state (object_it_of f ps rst i voff s) = s"
  by (simp_all add: array_it_def object_it_of_def)

lemma next_array_start:
  "agtype_iterator_next fill (array_it raw es rst 0 AGTI_ARRAY_START # its) skip =
    Inr (WAGT_BEGIN_ARRAY, AGTV_ARRAY raw (replicate (length es) AGTV_NULL), array_it raw es rst 0 AGTI_ARRAY_ELEM # its)"
  by (simp add: next_start start_array)

lemma next_object_start:
  "fits (length (object_image f ps)) \<Longrightarrow>
   agtype_iterator_next fill (object_it_of f ps rst 0 0 AGTI_OBJECT_START # its) skip =
    Inr (WAGT_BEGIN_OBJECT, AGTV_OBJECT (replicate (length ps) ([], AGTV_NULL, 0)),
         object_it_of f ps rst 0 (of_nat (val_off_of f ps 0)) AGTI_OBJECT_KEY # its)"
  using next_start [of "object_it_of f ps rst 0 0 AGTI_OBJECT_START" fill its skip] start_object [of f ps rst its] by simp

definition child_ok :: "pg_env \<Rightarrow> fill_fun \<Rightarrow> agtype_value \<Rightarrow> bool" where
  "child_ok env fill w \<longleftrightarrow> reads fill w \<and> (\<not> IS_A_AGTYPE_SCALAR w \<longrightarrow> drains env fill w)"

lemma array_frame: "tok_fits WAGT_ELEM st" if "ps_cont st = PS_ARRAY raw es"
  using that by (simp add: tok_fits_def)

lemma array_drains:
  assumes "\<And>w. w \<in> set es \<Longrightarrow> child_ok env fill w" "fits (length (array_image enc False es))" "elems_ok es"
  shows "drains env fill (AGTV_ARRAY False es)"
  unfolding drains_def
proof (intro allI exI conjI)
  fix rst its ps res m
  let ?N = "\<lambda>its. agtype_iterator_next fill its False" and ?P = "push_agtype_value_scalar env"
  let ?IT = "\<lambda>i. array_it False es rst i AGTI_ARRAY_ELEM"
  let ?st = "\<lparr>ps_cont = PS_ARRAY False [], ps_size = 4, ps_last_updated = None\<rparr>"
  show "iterator_from_container (cimage (AGTV_ARRAY False es) @ rst) = Inr (array_it False es rst 0 AGTI_ARRAY_START)"
    using iterator_from_array [OF assms(2)] by simp
  show "it_state (array_it False es rst 0 AGTI_ARRAY_START) \<in> {AGTI_ARRAY_START, AGTI_OBJECT_START}"
    by (simp add: array_it_def)
  have b: "drain ?N ?P (Suc n) (array_it False es rst 0 AGTI_ARRAY_START # its) ps res =
      drain ?N ?P n (?IT 0 # its) (?st # ps) (Some (AGTV_ARRAY False []))" for n
    by (simp add: next_array_start)
  have l: "drain ?N ?P (sum_list (map toks (drop 0 es)) + Suc m) (?IT 0 # its) (?st # ps) (Some (AGTV_ARRAY False [])) =
      bindE (pop_state ps (AGTV_ARRAY False ([] @ map norm (drop 0 es)))) (\<lambda>(r, ps'). drain ?N ?P m its ps' r)"
  proof (rule array_loop)
    fix i and st :: agtype_parse_state and es1 res m assume i: "i < length es" and st: "ps_cont st = PS_ARRAY False es1"
    have c: "child_ok env fill (es ! i)" using assms(1) i by simp
    obtain rst' where "agtype_iterator_next fill (?IT i # its) False = iterator_child False WAGT_ELEM (shallow (es ! i) rst') (?IT (Suc i)) its"
      using next_array_elem [OF _ i assms(2)] c unfolding child_ok_def by blast
    from nested_child [OF this array_frame [OF st]] c
    show "\<exists>r. drain ?N ?P (toks (es ! i) + m) (?IT i # its) (st # ps) res =
        bindE (append_element st (norm (es ! i))) (\<lambda>st'. drain ?N ?P m (?IT (Suc i) # its) (st' # ps) r)"
      unfolding add_child_def child_ok_def by simp
  qed (use assms(3) in \<open>simp_all add: next_array_end frame_ok_def elems_ok_def\<close>)
  then show "drain ?N ?P (toks (AGTV_ARRAY False es) + m) (array_it False es rst 0 AGTI_ARRAY_START # its) ps res =
      bindE (pop_state ps (norm (AGTV_ARRAY False es))) (\<lambda>(r, ps'). drain ?N ?P m its ps' r)"
    using b [of "sum_list (map toks es) + Suc m"] by simp
qed

lemma object_frame: "tok_fits WAGT_VALUE st" if "ps_cont st = PS_OBJECT pairs k"
  using that by (simp add: tok_fits_def)

lemma append_key_cont: "append_key st k = Inr st1 \<Longrightarrow> \<exists>pairs j. ps_cont st1 = PS_OBJECT pairs j"
  by (auto simp: append_key_def Let_def split: parse_cont.splits if_splits)

text \<open>The key of a pair, and then whatever reading its value does.\<close>

lemma object_pair_step:
  assumes nk: "nxt (IT i # its) = Inr (WAGT_KEY, AGTV_STRING k, ITV i # its)"
    and pk: "\<And>st. push (st # ps) WAGT_KEY (Some (AGTV_STRING k)) = bindE (append_key st k) (\<lambda>st'. Inr (None, st' # ps))"
    and val: "\<And>st1 pairs j res. ps_cont st1 = PS_OBJECT pairs j \<Longrightarrow>
       \<exists>r. drain nxt push (c + m) (ITV i # its) (st1 # ps) res =
         bindE (append_value st1 v) (\<lambda>st2. drain nxt push m (IT (Suc i) # its) (st2 # ps) r)"
  shows "\<exists>r. drain nxt push (1 + c + m) (IT i # its) (st # ps) res =
    bindE (append_key st k) (\<lambda>st1. bindE (append_value st1 v) (\<lambda>st2. drain nxt push m (IT (Suc i) # its) (st2 # ps) r))"
proof (cases "append_key st k")
  case (Inl e)
  then show ?thesis by (simp add: nk pk)
next
  case (Inr st1)
  with append_key_cont obtain pairs j where "ps_cont st1 = PS_OBJECT pairs j" by blast
  from val [OF this] Inr show ?thesis by (auto simp: nk pk)
qed

lemma object_drains:
  assumes q: "qsort_ok (pg_qsort_arg env)" and "\<And>k. reads fill (AGTV_STRING k)"
    and "\<And>p. p \<in> set kvs \<Longrightarrow> child_ok env fill (pair_value p)"
    and "fits (length (object_image enc_pair kvs))" "pairs_ok kvs"
  shows "drains env fill (AGTV_OBJECT kvs)"
  unfolding drains_def
proof (intro allI exI conjI)
  fix rst its ps res m
  let ?N = "\<lambda>its. agtype_iterator_next fill its False" and ?P = "push_agtype_value_scalar env"
  let ?IT = "\<lambda>i. object_it kvs rst i (of_nat (val_off kvs i)) AGTI_OBJECT_KEY"
  let ?ITV = "\<lambda>i. object_it kvs rst i (of_nat (val_off kvs i)) AGTI_OBJECT_VALUE"
  let ?st = "\<lparr>ps_cont = PS_OBJECT [] None, ps_size = 4, ps_last_updated = None\<rparr>"
  show "iterator_from_container (cimage (AGTV_OBJECT kvs) @ rst) = Inr (object_it kvs rst 0 0 AGTI_OBJECT_START)"
    using iterator_from_object [OF assms(4)] by simp
  have b: "drain ?N ?P (Suc n) (object_it kvs rst 0 0 AGTI_OBJECT_START # its) ps res =
      drain ?N ?P n (?IT 0 # its) (?st # ps) (Some (AGTV_OBJECT []))" for n
    by (simp add: next_object_start [OF assms(4)])
  have "drain ?N ?P (sum_list (map (\<lambda>p. 1 + toks (pair_value p)) (drop 0 kvs)) + Suc m) (?IT 0 # its) (?st # ps) (Some (AGTV_OBJECT [])) =
      bindE (pop_state ps (AGTV_OBJECT (uniqueify_agtype_object env
         ([] @ number_pairs (length ([] :: agtype_pair list)) (map (\<lambda>p. (pair_key p, norm (pair_value p))) (drop 0 kvs))))))
       (\<lambda>(r, ps'). drain ?N ?P m its ps' r)"
  proof (rule object_loop)
    fix i and st :: agtype_parse_state and pairs res m assume i: "i < length kvs" and st: "ps_cont st = PS_OBJECT pairs None"
    have c: "child_ok env fill (pair_value (kvs ! i))" using assms(3) i by simp
    obtain rst' where nv: "agtype_iterator_next fill (?ITV i # its) False =
        iterator_child False WAGT_VALUE (shallow (pair_value (kvs ! i)) rst') (?IT (Suc i)) its"
      using next_object_value [OF _ i assms(4)] c unfolding child_ok_def by blast
    show "\<exists>r. drain ?N ?P (1 + toks (pair_value (kvs ! i)) + m) (?IT i # its) (st # ps) res =
        bindE (append_key st (pair_key (kvs ! i))) (\<lambda>st1.
        bindE (append_value st1 (norm (pair_value (kvs ! i)))) (\<lambda>st2. drain ?N ?P m (?IT (Suc i) # its) (st2 # ps) r))"
    proof (rule object_pair_step [where ITV = ?ITV])
      show "\<exists>r. drain ?N ?P (toks (pair_value (kvs ! i)) + m) (?ITV i # its) (st1 # ps) res =
         bindE (append_value st1 (norm (pair_value (kvs ! i)))) (\<lambda>st2. drain ?N ?P m (?IT (Suc i) # its) (st2 # ps) r)"
        if "ps_cont st1 = PS_OBJECT pairs j" for st1 :: agtype_parse_state and pairs j res
        using nested_child [OF nv object_frame [OF that]] c unfolding add_child_def child_ok_def by simp
    qed (simp_all add: next_object_key [OF assms(2) i assms(4)])
  qed (use assms(5) in \<open>simp_all add: next_object_end frame_ok_def pairs_ok_def\<close>)
  then show "drain ?N ?P (toks (AGTV_OBJECT kvs) + m) (object_it kvs rst 0 0 AGTI_OBJECT_START # its) ps res =
      bindE (pop_state ps (norm (AGTV_OBJECT kvs))) (\<lambda>(r, ps'). drain ?N ?P m its ps' r)"
    using b [of "sum_list (map (\<lambda>p. 1 + toks (pair_value p)) kvs) + Suc m"] uniqueify_renumber [OF q, of kvs norm] assms(5)
    by (simp add: renumber_def pairs_ok_def)
qed simp

subsection \<open>Composites\<close>

lemma push_begin_end [simp]:
  "push_agtype_value env fill F ps WAGT_BEGIN_ARRAY None = push_agtype_value_scalar env ps WAGT_BEGIN_ARRAY None"
  "push_agtype_value env fill F ps WAGT_BEGIN_OBJECT None = push_agtype_value_scalar env ps WAGT_BEGIN_OBJECT None"
  "push_agtype_value env fill F ps WAGT_END_ARRAY None = push_agtype_value_scalar env ps WAGT_END_ARRAY None"
  "push_agtype_value env fill F ps WAGT_END_OBJECT None = push_agtype_value_scalar env ps WAGT_END_OBJECT None"
  "push_agtype_value env fill F ps WAGT_KEY (Some (AGTV_STRING k)) = push_agtype_value_scalar env ps WAGT_KEY (Some (AGTV_STRING k))"
  by (simp_all add: push_agtype_value_def)

lemma next_done [simp]: "agtype_iterator_next fill [] skip = Inr (WAGT_DONE, AGTV_NULL, [])"
  by (simp add: agtype_iterator_next_def)

lemma composite_array:
  assumes "\<And>w. w \<in> set es \<Longrightarrow> child_ok env fill w \<and> toks w < F"
    and "fits (length (array_image enc False es))" "elems_ok es" "length es + 3 \<le> F"
  shows "ag_deserialize_composite env fill F (put_u32 h @ array_image enc False es @ rst) T =
    retag T (AGTV_ARRAY False (map norm es))"
proof -
  let ?N = "\<lambda>its. agtype_iterator_next fill its True" and ?P = "push_agtype_value env fill F"
  let ?IT = "\<lambda>i. array_it False es rst i AGTI_ARRAY_ELEM"
  let ?st = "\<lparr>ps_cont = PS_ARRAY False [], ps_size = 4, ps_last_updated = None\<rparr>"
  have l: "drain ?N ?P (sum_list (map (\<lambda>w. 1) (drop 0 es)) + Suc m) [?IT 0] [?st] res =
      bindE (pop_state [] (AGTV_ARRAY False ([] @ map norm (drop 0 es)))) (\<lambda>(r, ps'). drain ?N ?P m [] ps' r)" for m res
  proof (rule array_loop)
    fix i and st :: agtype_parse_state and es1 res m assume i: "i < length es" and st: "ps_cont st = PS_ARRAY False es1"
    have c: "child_ok env fill (es ! i)" "toks (es ! i) < F" using assms(1) i by simp_all
    obtain rst' where "agtype_iterator_next fill [?IT i] True = iterator_child True WAGT_ELEM (shallow (es ! i) rst') (?IT (Suc i)) []"
      using next_array_elem [OF _ i assms(2)] c unfolding child_ok_def by blast
    from composite_child [OF this array_frame [OF st] pushes_shallow] c
    show "\<exists>r. drain ?N ?P (1 + m) [?IT i] [st] res =
        bindE (append_element st (norm (es ! i))) (\<lambda>st'. drain ?N ?P m [?IT (Suc i)] [st'] r)"
      unfolding add_child_def child_ok_def by simp
  qed (use assms(3) in \<open>simp_all add: next_array_end frame_ok_def elems_ok_def\<close>)
  have "\<exists>m. F = Suc (length es + Suc (Suc m))"
    by (rule exI [of _ "F - (length es + 3)"]) (use assms(4) in simp)
  then obtain m where F: "F = Suc (length es + Suc (Suc m))" by blast
  have "drain ?N ?P F [array_it False es rst 0 AGTI_ARRAY_START] [] None =
      drain ?N ?P (length es + Suc (Suc m)) [?IT 0] [?st] (Some (AGTV_ARRAY False []))"
    by (subst F) (simp add: next_array_start)
  also have "\<dots> = Inr (Some (AGTV_ARRAY False (map norm es)), [])"
    using l [of "Suc m" "Some (AGTV_ARRAY False [])"] by (simp add: pop_state_def sum_list_triv)
  finally show ?thesis
    by (simp add: ag_deserialize_composite_def agtype_iterator_init_def iterator_from_array [OF assms(2)])
qed

text \<open>A composite object whose values have the images \<open>f\<close>; \<open>x\<close> is what the iterator makes of a pair.\<close>

lemma composite_object_of:
  assumes q: "qsort_ok (pg_qsort_arg env)" and "\<And>k. reads fill (AGTV_STRING k)"
    and r: "\<And>p c i data off rst. p \<in> set kvs \<Longrightarrow> image_at c i data off (ty (pair_value p)) (f off p) rst \<Longrightarrow> fill c i data (of_nat off) = Inr (x p rst)"
    and w: "\<And>p rst. p \<in> set kvs \<Longrightarrow> pushes env fill F (x p rst) (pair_value p)"
    and fit: "fits (length (object_image f kvs))" and ok: "pairs_ok kvs" and n: "2 * length kvs + 3 \<le> F"
  shows "ag_deserialize_composite env fill F (put_u32 h @ object_image f kvs @ rst) T =
    retag T (AGTV_OBJECT (renumber norm kvs))"
proof -
  let ?N = "\<lambda>its. agtype_iterator_next fill its True" and ?P = "push_agtype_value env fill F"
  let ?IT = "\<lambda>i. object_it_of f kvs rst i (of_nat (val_off_of f kvs i)) AGTI_OBJECT_KEY"
  let ?ITV = "\<lambda>i. object_it_of f kvs rst i (of_nat (val_off_of f kvs i)) AGTI_OBJECT_VALUE"
  let ?st = "\<lparr>ps_cont = PS_OBJECT [] None, ps_size = 4, ps_last_updated = None\<rparr>"
  have l: "drain ?N ?P (sum_list (map (\<lambda>p. 1 + (\<lambda>v. 1) (pair_value p)) (drop 0 kvs)) + Suc m) [?IT 0] [?st] res =
      bindE (pop_state [] (AGTV_OBJECT (uniqueify_agtype_object env
         ([] @ number_pairs (length ([] :: agtype_pair list)) (map (\<lambda>p. (pair_key p, norm (pair_value p))) (drop 0 kvs))))))
       (\<lambda>(r, ps'). drain ?N ?P m [] ps' r)" for m res
  proof (rule object_loop)
    fix i and st :: agtype_parse_state and pairs res m assume i: "i < length kvs" and st: "ps_cont st = PS_OBJECT pairs None"
    have c: "kvs ! i \<in> set kvs" using i by simp
    obtain rst' where nv: "agtype_iterator_next fill [?ITV i] True =
        iterator_child True WAGT_VALUE (x (kvs ! i) rst') (?IT (Suc i)) []"
      using next_object_image [where fill = fill and x = "x (kvs ! i)" and skip = True, OF i fit] r [OF c] by blast
    show "\<exists>r. drain ?N ?P (1 + 1 + m) [?IT i] [st] res =
        bindE (append_key st (pair_key (kvs ! i))) (\<lambda>st1.
        bindE (append_value st1 (norm (pair_value (kvs ! i)))) (\<lambda>st2. drain ?N ?P m [?IT (Suc i)] [st2] r))"
    proof (rule object_pair_step [where ITV = ?ITV])
      show "\<exists>r. drain ?N ?P (1 + m) [?ITV i] [st1] res =
         bindE (append_value st1 (norm (pair_value (kvs ! i)))) (\<lambda>st2. drain ?N ?P m [?IT (Suc i)] [st2] r)"
        if "ps_cont st1 = PS_OBJECT pairs j" for st1 :: agtype_parse_state and pairs j res
        using composite_child [OF nv object_frame [OF that] w [OF c]] unfolding add_child_def by simp
    qed (simp_all add: next_object_key [OF assms(2) i fit])
  qed (use ok in \<open>simp_all add: next_object_end frame_ok_def pairs_ok_def\<close>)
  have "\<exists>m. F = Suc (2 * length kvs + Suc (Suc m))"
    by (rule exI [of _ "F - (2 * length kvs + 3)"]) (use n in simp)
  then obtain m where F: "F = Suc (2 * length kvs + Suc (Suc m))" by blast
  have "drain ?N ?P F [object_it_of f kvs rst 0 0 AGTI_OBJECT_START] [] None =
      drain ?N ?P (2 * length kvs + Suc (Suc m)) [?IT 0] [?st] (Some (AGTV_OBJECT []))"
    by (subst F) (simp add: next_object_start [OF fit])
  also have "\<dots> = Inr (Some (AGTV_OBJECT (renumber norm kvs)), [])"
    using l [of "Suc m" "Some (AGTV_OBJECT [])"] uniqueify_renumber [OF q, of kvs norm] ok
    by (simp add: pop_state_def sum_list_triv renumber_def pairs_ok_def mult_2)
  finally show ?thesis
    by (simp add: ag_deserialize_composite_def agtype_iterator_init_def iterator_from_object [OF fit, simplified])
qed

lemma composite_object:
  assumes "qsort_ok (pg_qsort_arg env)" "\<And>k. reads fill (AGTV_STRING k)"
    and c: "\<And>p. p \<in> set kvs \<Longrightarrow> child_ok env fill (pair_value p) \<and> toks (pair_value p) < F"
    and "fits (length (object_image enc_pair kvs))" "pairs_ok kvs" "2 * length kvs + 3 \<le> F"
  shows "ag_deserialize_composite env fill F (put_u32 h @ object_image enc_pair kvs @ rst) T =
    retag T (AGTV_OBJECT (renumber norm kvs))"
proof (rule composite_object_of [OF assms(1,2) _ _ assms(4-6)])
  show "fill c i data (of_nat off) = Inr (shallow (pair_value p) rst)"
    if "p \<in> set kvs" "image_at c i data off (ty (pair_value p)) (enc_pair off p) rst" for p c i data off rst
    using c [OF that(1)] that(2) readsD unfolding child_ok_def holds_child_image by blast
  show "pushes env fill F (shallow (pair_value p) rst) (pair_value p)" if "p \<in> set kvs" for p rst
    using c [OF that] pushes_shallow unfolding child_ok_def by blast
qed

subsection \<open>Reading any child\<close>

lemma image_at_aligned:
  assumes "image_at c i data off t (padding off @ img) rst"
  shows "drop (INTALIGN off) data = img @ rst" "unat (of_nat off :: uint32) = off"
    "get_agtype_length c i = Inr (of_nat (INTALIGN off - off + length img))"
    "unat (of_nat (INTALIGN off - off + length img) :: uint32) = INTALIGN off - off + length img"
proof -
  have d: "drop off data = padding off @ img @ rst" using assms by (simp add: image_at_def)
  have "drop (INTALIGN off) data = drop (INTALIGN off - off) (drop off data)"
    using INTALIGN_pad [of off] by (simp add: add.commute)
  then show "drop (INTALIGN off) data = img @ rst" by (simp add: d)
  have f: "fits (off + (INTALIGN off - off + length img))" using assms by (simp add: image_at_def)
  then show "unat (of_nat off :: uint32) = off" by (metis fits_mono fits_unat le_add1)
  show "get_agtype_length c i = Inr (of_nat (INTALIGN off - off + length img))"
    using assms by (simp add: image_at_def)
  show "unat (of_nat (INTALIGN off - off + length img) :: uint32) = INTALIGN off - off + length img"
    using f by (intro fits_unat) (erule fits_mono, simp)
qed

lemma holds_child_aligned:
  assumes "holds_child c i data off v rst" "enc off v = padding off @ img"
  shows "drop (INTALIGN off) data = img @ rst" "unat (of_nat off :: uint32) = off"
    "get_agtype_length c i = Inr (of_nat (INTALIGN off - off + length img))"
    "unat (of_nat (INTALIGN off - off + length img) :: uint32) = INTALIGN off - off + length img"
  by (rule image_at_aligned [OF assms(1) [unfolded holds_child_image assms(2)]])+

lemma fill_reads_STRING: "reads (fill_agtype_value env (Suc F)) (AGTV_STRING s)"
  unfolding reads_def
proof (intro allI impI)
  fix c i data off rst assume h: "holds_child c i data off (AGTV_STRING s) rst"
  then obtain e where e: "container_child c i = Inr e" "AGTE_TYPE e = AGTENTRY_IS_STRING" by (auto simp: holds_child_def)
  have f: "fits (off + length s)" using h by (simp add: holds_child_def)
  have "fits off" "fits (length s)" by (rule fits_mono [OF f], simp)+
  then show "fill_agtype_value env (Suc F) c i data (of_nat off) = Inr (shallow (AGTV_STRING s) rst)"
    using h e by (simp add: fill_body_def agte_macros agtentry_consts holds_child_def shallow_def)
qed

lemma fill_reads_plain:
  assumes "wf_value env v" "kids v = []" "agtv_type v \<notin> {Type_VERTEX, Type_EDGE, Type_PATH, Type_ARRAY, Type_OBJECT}"
  shows "reads (fill_agtype_value env (Suc F)) v"
  unfolding reads_def
proof (intro allI impI)
  fix c i data off rst assume h: "holds_child c i data off v rst"
  then obtain e where e: "container_child c i = Inr e" "AGTE_TYPE e = ty v" by (auto simp: holds_child_def)
  note al = holds_child_aligned [OF h]
  show "fill_agtype_value env (Suc F) c i data (of_nat off) = Inr (shallow v rst)"
  proof (cases v)
    case (AGTV_NUMERIC n)
    then have "numeric_ok env n" using assms(1) by simp
    then have "pg_varsize env (n @ rst) = length n" by (simp add: numeric_ok_def)
    with AGTV_NUMERIC e al [of n] show ?thesis
      by (simp add: fill_body_def agte_macros agtentry_consts shallow_def Let_def)
  next
    case (AGTV_INTEGER n)
    with e al [of "put_u32 AGT_HEADER_INTEGER @ put_u64 n"] show ?thesis
      by (simp add: fill_body_def agte_macros agtentry_consts shallow_def Let_def ag_deserialize_extended_type_def)
  next
    case (AGTV_FLOAT n)
    with e al [of "put_u32 AGT_HEADER_FLOAT @ put_u64 n"] show ?thesis
      by (simp add: fill_body_def agte_macros agtentry_consts shallow_def Let_def ag_deserialize_extended_type_def
          agt_header_consts)
  next
    case (AGTV_STRING s)
    with h fill_reads_STRING [of env F s] show ?thesis by (simp add: reads_def)
  next
    case (AGTV_BOOL b)
    with e show ?thesis by (simp add: fill_body_def agte_macros agtentry_consts shallow_def)
  qed (use assms e in \<open>simp_all add: fill_body_def agte_macros agtentry_consts shallow_def\<close>)
qed

lemma fill_reads_container:
  assumes "\<not> IS_A_AGTYPE_SCALAR v" "wf_value env v"
  shows "reads (fill_agtype_value env (Suc F)) v"
  unfolding reads_def
proof (intro allI impI)
  fix c i data off rst assume h: "holds_child c i data off v rst"
  then obtain e where e: "container_child c i = Inr e" "AGTE_TYPE e = ty v" by (auto simp: holds_child_def)
  have "enc off v = padding off @ cimage v" "ty v = AGTENTRY_IS_CONTAINER" using assms by (cases v; simp)+
  with e holds_child_aligned [OF h, of "cimage v"] assms(1)
  show "fill_agtype_value env (Suc F) c i data (of_nat off) = Inr (shallow v rst)"
    by (simp add: fill_body_def agte_macros agtentry_consts shallow_def del: of_nat_unat)
qed

lemma fill_reads_composite:
  assumes "enc off v = padding off @ composite_image hdr c" "ty v = AGTENTRY_IS_AGTYPE" "holds_child cc i data off v rst"
    and "hdr = AGT_HEADER_VERTEX \<and> T = Type_VERTEX \<or> hdr = AGT_HEADER_EDGE \<and> T = Type_EDGE \<or> hdr = AGT_HEADER_PATH \<and> T = Type_PATH"
  shows "fill_agtype_value env (Suc F) cc i data (of_nat off) =
    ag_deserialize_composite env (fill_agtype_value env F) F (put_u32 hdr @ c @ padding (length c) @ rst) T"
proof -
  obtain e where e: "container_child cc i = Inr e" "AGTE_TYPE e = AGTENTRY_IS_AGTYPE"
    using assms(2,3) by (auto simp: holds_child_def)
  from holds_child_aligned(1,2) [OF assms(3,1)] e assms(4) show ?thesis
    by (elim disjE) (simp_all add: fill_body_def agte_macros agtentry_consts Let_def ag_deserialize_extended_type_def
        agt_header_consts composite_image_def)
qed

subsection \<open>Every value\<close>

lemma length_enc_elem: "w \<in> set xs \<Longrightarrow> \<exists>q. length (f q w) \<le> length (enc_seq f p xs)"
proof (induction xs arbitrary: p)
  case (Cons x xs)
  show ?case
  proof (cases "w = x")
    case True
    then show ?thesis by (intro exI [of _ p]) simp
  next
    case False
    with Cons show ?thesis by (fastforce intro: le_trans trans_le_add2)
  qed
qed simp

lemma cimage_le: "length (cimage w) \<le> length (enc q w)"
  by (cases w) simp_all

lemma elem_image_fits:
  assumes "w \<in> set es" "fits (length (array_image enc raw es))"
  shows "fits (length (cimage w))"
proof -
  obtain q where "length (enc q w) \<le> length (enc_seq enc 0 es)" using length_enc_elem [OF assms(1), of enc 0] by blast
  then show ?thesis using cimage_le [of w q] by (intro fits_mono [OF assms(2)]) simp
qed

lemma value_image_fits:
  assumes "p \<in> set ps" "fits (length (object_image enc_pair ps))"
  shows "fits (length (cimage (pair_value p)))"
proof -
  obtain q where "length (enc_pair q p) \<le> length (enc_seq enc_pair (keys_len ps) ps)"
    using length_enc_elem [OF assms(1), of enc_pair] by blast
  then show ?thesis using cimage_le [of "pair_value p" q] by (intro fits_mono [OF assms(2)]) simp
qed

lemma need_composite:
  assumes "need v \<le> Suc F"
  shows "2 * length (kids v) + 3 \<le> F" "w \<in> set (kids v) \<Longrightarrow> need w \<le> F"
  using assms need_kid [of w v] by (subst (asm) need.simps, simp)+

lemma fill_ok:
  assumes q: "qsort_ok (pg_qsort_arg env)"
  shows "wf_value env v \<Longrightarrow> need v \<le> F \<Longrightarrow>
    reads (fill_agtype_value env F) v \<and>
    (\<not> IS_A_AGTYPE_SCALAR v \<longrightarrow> fits (length (cimage v)) \<longrightarrow> drains env (fill_agtype_value env F) v)"
proof (induction v arbitrary: F rule: kids_induct)
  case (kids v)
  have "0 < F" using kids.prems(2) need_toks [of v] by simp
  then obtain G where F: "F = Suc G" by (cases F) auto
  have n: "need v \<le> Suc G" using kids.prems(2) F by simp
  have ch: "child_ok env (fill_agtype_value env H) w"
    if "w \<in> set (kids v)" "need w \<le> H" "fits (length (cimage w))" for w H
    using kids.IH [OF that(1) wf_value_kids [OF kids.prems(1) that(1)] that(2)] that(3) by (simp add: child_ok_def)
  have str: "reads (fill_agtype_value env H) (AGTV_STRING k)" if "0 < H" for H k
    using fill_reads_STRING that by (cases H) simp_all
  have kF: "need w \<le> F" if "w \<in> set (kids v)" for w using need_kid [OF that] kids.prems(2) by simp
  have tG: "toks w < G" if "w \<in> set (kids v)" for w using need_toks [of w] need_composite(2) [OF n that] by simp
  have pad: "fits (length c)" if "holds_child cc i data off v rst" "enc off v = padding off @ composite_image hdr c"
    for cc i data off rst hdr c
    using that by (auto simp: holds_child_def composite_image_def elim: fits_mono)
  have obj: "fill_agtype_value env F cc i data (of_nat off) = retag T (AGTV_OBJECT (renumber norm ps))"
    if "enc off v = padding off @ composite_image hdr (object_image enc_pair ps)" "ty v = AGTENTRY_IS_AGTYPE"
      "kids v = map (\<lambda>p. pair_value p) ps" "pairs_ok ps" "holds_child cc i data off v rst"
      "hdr = AGT_HEADER_VERTEX \<and> T = Type_VERTEX \<or> hdr = AGT_HEADER_EDGE \<and> T = Type_EDGE \<or> hdr = AGT_HEADER_PATH \<and> T = Type_PATH"
    for cc i data off rst hdr T ps
  proof -
    note fit = pad [OF that(5,1)]
    have k: "pair_value p \<in> set (kids v)" if "p \<in> set ps" for p using that \<open>kids v = _\<close> by auto
    have "child_ok env (fill_agtype_value env G) (pair_value p) \<and> toks (pair_value p) < G" if "p \<in> set ps" for p
      using ch [OF k [OF that] need_composite(2) [OF n k [OF that]] value_image_fits [OF that fit]] tG [OF k [OF that]] by simp
    moreover have "2 * length ps + 3 \<le> G" using need_composite(1) [OF n] that(3) by simp
    ultimately show ?thesis
      unfolding F fill_reads_composite [OF that(1,2,5,6)]
      using str [of G] by (intro composite_object [OF q _ _ fit that(4)]) auto
  qed
  have path: "fill_agtype_value env F cc i data (of_nat off) = Inr (AGTV_PATH (map norm es))"
    if v: "v = AGTV_PATH es" and h: "holds_child cc i data off v rst" for cc i data off rst es
  proof -
    have e: "enc off v = padding off @ composite_image AGT_HEADER_PATH (array_image enc False es)" by (simp add: v)
    note fit = pad [OF h e]
    have "child_ok env (fill_agtype_value env G) w \<and> toks w < G" if "w \<in> set es" for w
      using ch [of w G] need_composite(2) [OF n, of w] elem_image_fits [OF that fit] tG [of w] that by (simp add: v)
    moreover have "length es + 3 \<le> G" using need_composite(1) [OF n] by (simp add: v)
    moreover have "elems_ok es" using kids.prems(1) v by simp
    moreover have "ty v = AGTENTRY_IS_AGTYPE" by (simp add: v)
    ultimately show ?thesis
      using fill_reads_composite [OF e _ h, of Type_PATH env G] composite_array [OF _ fit, of env "fill_agtype_value env G" G]
      by (simp add: F del: fill_agtype_value.simps)
  qed
  show ?case
  proof (cases v)
    case (AGTV_VERTEX ps)
    with obj [where hdr = AGT_HEADER_VERTEX and T = Type_VERTEX and ps = ps] kids.prems(1) show ?thesis
      by (auto simp: reads_def shallow_def)
  next
    case (AGTV_EDGE ps)
    with obj [where hdr = AGT_HEADER_EDGE and T = Type_EDGE and ps = ps] kids.prems(1) show ?thesis
      by (auto simp: reads_def shallow_def)
  next
    case (AGTV_PATH es)
    with path show ?thesis by (auto simp: reads_def shallow_def)
  next
    case (AGTV_ARRAY raw es)
    then have v: "v = AGTV_ARRAY False es" "elems_ok es" using kids.prems(1) by simp_all
    have "drains env (fill_agtype_value env F) v" if "fits (length (cimage v))"
      unfolding v(1)
      by (rule array_drains) (use that v ch kF elem_image_fits in \<open>auto simp del: length_array_image\<close>)
    with fill_reads_container [of v env G] kids.prems(1) v F show ?thesis by simp
  next
    case (AGTV_OBJECT ps)
    then have v: "pairs_ok ps" using kids.prems(1) by simp
    have "drains env (fill_agtype_value env F) v" if "fits (length (cimage v))"
      unfolding AGTV_OBJECT
    proof (rule object_drains [OF q])
      show "child_ok env (fill_agtype_value env F) (pair_value p)" if "p \<in> set ps" for p
        using ch [of "pair_value p" F] kF [of "pair_value p"] value_image_fits [OF that] \<open>fits (length (cimage v))\<close> AGTV_OBJECT that
        by (simp del: length_object_image)
    qed (use that v str [OF \<open>0 < F\<close>] AGTV_OBJECT in \<open>simp_all del: length_object_image\<close>)
    with fill_reads_container [of v env G] kids.prems(1) AGTV_OBJECT F show ?thesis by simp
  qed (use fill_reads_plain [of env v G] kids.prems(1) F in simp_all)
qed

subsection \<open>The round trip\<close>


definition sample_value :: agtype_value where
  "sample_value =
     AGTV_ARRAY False [AGTV_VERTEX [([105, 100], AGTV_INTEGER 5, 0), ([112, 114, 111], AGTV_OBJECT [([97], AGTV_NULL, 0)], 1)],
       AGTV_STRING [65, 66, 67]]"

lemma sample_value_ok:
  "wf_value isort_env sample_value" "\<not> IS_A_AGTYPE_SCALAR sample_value" "fits (length (enc 0 sample_value))"
  "need sample_value \<le> 60"
  by (simp_all add: sample_value_def pairs_ok_def elems_ok_def keys_sorted_def length_compare_agtype_string_value_def
      AGTYPE_MAX_PAIRS_def AGTYPE_MAX_ELEMS_def fits_iff INTALIGN_def need.simps keys_len_def composite_image_def)


subsection \<open>Reading elements of stored arrays\<close>

lemma array_header_image:
  "container_header (array_image enc raw es @ rest) = Inr (array_header raw (length es))"
  "container_data (array_image enc raw es @ rest) (length es) = enc_seq enc 0 es @ rest"
  by (simp_all add: array_image_def)

lemma get_ith_law:
  assumes "qsort_ok (pg_qsort_arg env)" "fits (length (array_image enc raw es))"
    and "\<forall>w \<in> set es. wf_value env w \<and> need w \<le> F"
  shows "if i < length es
    then \<exists>rst. get_ith_agtype_value_from_container env F (array_image enc raw es @ rest) i = Inr (Some (shallow (es ! i) rst))
    else get_ith_agtype_value_from_container env F (array_image enc raw es @ rest) i = Inr None"
proof -
  have n: "fits (length es)" by (rule fits_mono [OF assms(2)]) simp
  note hd = array_header_image [of raw es rest] array_header_fields [OF n]
  show ?thesis
  proof (cases "i < length es")
    case True
    obtain rst where h: "holds_child (array_image enc raw es @ rest) i (enc_seq enc 0 es @ rest) (elem_off es i) (es ! i) rst"
      using array_child [OF assms(2) True] by blast
    have "reads (fill_agtype_value env F) (es ! i)"
      using fill_ok [OF assms(1)] assms(3) True by simp
    from readsD [OF this h] h True hd show ?thesis
      by (auto simp: get_ith_agtype_value_from_container_def holds_child_def Let_def)
  qed (use hd in \<open>simp add: get_ith_agtype_value_from_container_def\<close>)
qed

text \<open>C15: Element \<open>i\<close> of a stored array (a raw-scalar array included) is read back from its entry's
  offset as the value stored, a nested container as a binary that starts with its image; past the
  end the result is none.\<close>

theorem get_ith_stored:
  assumes "qsort_ok (pg_qsort_arg env)" "fits (length (array_image enc raw es))"
    and "\<forall>w \<in> set es. wf_value env w \<and> need w \<le> F"
  shows "if i < length es
    then \<exists>rst. get_ith_agtype_value_from_container env F (array_image enc raw es) i = Inr (Some (shallow (es ! i) rst))
    else get_ith_agtype_value_from_container env F (array_image enc raw es) i = Inr None"
  by (rule get_ith_law [OF assms, where rest = "[]", unfolded append_Nil2])

theorem get_ith_stored_witness:
  "if (0 :: nat) < length [sample_value, AGTV_INTEGER 3]
    then \<exists>rst. get_ith_agtype_value_from_container isort_env 60 (array_image enc False [sample_value, AGTV_INTEGER 3]) 0 =
           Inr (Some (shallow ([sample_value, AGTV_INTEGER 3] ! 0) rst))
    else get_ith_agtype_value_from_container isort_env 60 (array_image enc False [sample_value, AGTV_INTEGER 3]) 0 = Inr None"
proof (rule get_ith_stored)
  show "fits (length (array_image enc False [sample_value, AGTV_INTEGER 3]))"
    by (simp add: sample_value_def fits_iff INTALIGN_def keys_len_def composite_image_def)
qed (simp_all add: sample_value_ok need.simps [of "AGTV_INTEGER _"])

lemma get_ith_raw_scalar:
  assumes "qsort_ok (pg_qsort_arg env)" "wf_value env v" "IS_A_AGTYPE_SCALAR v" "fits (length (array_image enc True [v]))" "need v \<le> F"
  shows "get_ith_agtype_value_from_container env F (array_image enc True [v] @ rest) 0 = Inr (Some (norm v))"
proof -
  have "reads (fill_agtype_value env F) v" using fill_ok [OF assms(1,2,5)] by simp
  obtain rst where h: "holds_child (array_image enc True [v] @ rest) 0 (enc_seq enc 0 [v] @ rest) (elem_off [v] 0) ([v] ! 0) rst"
    using array_child [OF assms(4), of 0 rest] by auto
  have "fits 1" by (simp add: fits_iff)
  from readsD [OF \<open>reads _ v\<close>, of "array_image enc True [v] @ rest" 0 "enc_seq enc 0 [v] @ rest" 0 rst] h
    array_header_image [of True "[v]" rest] array_header_fields [OF this, of True] assms(3)
  show ?thesis by (auto simp: get_ith_agtype_value_from_container_def holds_child_def shallow_def Let_def)
qed

lemma scalar_datum_read:
  assumes "qsort_ok (pg_qsort_arg env)" "wf_value env v" "IS_A_AGTYPE_SCALAR v"
    and "fits (length (array_image enc True [v]))" "need v \<le> F"
  shows "\<exists>d. agtype_value_to_agtype env v = Inr d \<and> get_ith_agtype_value_from_container env F d 0 = Inr (Some (norm v)) \<and>
    (\<exists>h. container_header d = Inr h \<and> header_is_scalar h \<and> header_is_array h \<and> \<not> header_is_object h \<and> header_size h = 1)"
proof (cases "agtv_type v = Type_BOOL")
  case True
  then obtain b where v: "v = AGTV_BOOL b" by (cases v) simp_all
  obtain G where F: "F = Suc G" using assms(5) need_toks [of v] by (cases F) auto
  have h: "container_header (agtype_bool_to_agtype b) = Inr raw_header" by (simp add: agtype_bool_to_agtype_def container_header_def)
  have f: "header_is_scalar raw_header \<and> header_is_array raw_header \<and> \<not> header_is_object raw_header \<and> header_size raw_header = 1"
    by (simp add: raw_header_def header_is_array_def header_is_scalar_def header_is_object_def header_size_def agt_flags)
  have "get_ith_agtype_value_from_container env F (agtype_bool_to_agtype b) 0 = Inr (Some (AGTV_BOOL b))"
    using read_u32_put [of "ty (AGTV_BOOL b)" "[]"]
    by (simp add: F get_ith_agtype_value_from_container_def agtype_bool_to_agtype_def container_header_def raw_header_def
        header_is_array_def header_size_def agt_flags get_agtype_offset_def fill_body_def container_child_def
        agte_macros AGTE_TYPE_def agtentry_consts)
  with h f show ?thesis by (simp add: v agtype_value_to_agtype_def)
next
  case False
  have "agtype_value_to_agtype env v = Inr (array_image enc True [v])"
    by (rule scalar_image [OF wf_writable [OF assms(2)] assms(3) False assms(4)])
  moreover have "get_ith_agtype_value_from_container env F (array_image enc True [v] @ []) 0 = Inr (Some (norm v))"
    by (rule get_ith_raw_scalar [OF assms])
  moreover have "fits 1" by (simp add: fits_iff)
  from array_header_fields [OF this, of True] array_header_image(1) [of True "[v]" "[]"]
  have "\<exists>h. container_header (array_image enc True [v]) = Inr h \<and> header_is_scalar h \<and> header_is_array h \<and> \<not> header_is_object h \<and> header_size h = 1" by simp
  ultimately show ?thesis by simp
qed



lemma no_copy_fill: "fill_agtype_value_no_copy env F = fill_agtype_value env F"
proof (cases F)
  case (Suc G)
  have "(\<lambda>base_addr offset.
        let base = drop (INTALIGN (unat offset)) base_addr
        in bindE (read_u32 base) (\<lambda>agt_header.
             if agt_header = AGT_HEADER_INTEGER then bindE (read_u64 (drop 4 base)) (\<lambda>i. Inr (AGTV_INTEGER i))
             else if agt_header = AGT_HEADER_FLOAT then bindE (read_u64 (drop 4 base)) (\<lambda>f. Inr (AGTV_FLOAT f))
             else ag_deserialize_extended_type env (fill_agtype_value env G) G base_addr offset)) =
      ag_deserialize_extended_type env (fill_agtype_value env G) G"
    by (intro ext) (auto simp: ag_deserialize_extended_type_def Let_def bindE_def split: sum.splits)
  then show ?thesis by (simp add: Suc fill_agtype_value_no_copy_def)
qed (simp add: fill_agtype_value_no_copy_def)

text \<open>The no-copy reader returns what the copying reader returns, errors included, so the
  \<open>_no_copy\<close> element access returns the same element and says that it must be freed exactly when it
  is a composite.\<close>

lemma no_copy_agrees:
  "fill_agtype_value_no_copy env F = fill_agtype_value env F \<and>
   get_ith_agtype_value_from_container_no_copy env F c i =
     bindE (get_ith_agtype_value_from_container env F c i) (\<lambda>r. Inr (map_option (\<lambda>v. (v, needs_free v)) r))"
  by (auto simp: no_copy_fill get_ith_agtype_value_from_container_def get_ith_agtype_value_from_container_no_copy_def
      Let_def bindE_def split: sum.splits)

end
