(* ===== verification/Agtype_Order.thy ===== *)
theory Agtype_Order
  imports Agtype_Compare Agtype_Decode
begin

text \<open>
  The order that \<open>compare_agtype_scalar_values\<close> and \<open>compare_agtype_containers_orderability\<close>
  define, which the B-tree operator class is built on: antisymmetry, transitivity within a type,
  the agreement of stored scalars with their values, and the two places where the order is not
  consistent.
\<close>

subsection \<open>The order of scalars\<close>

text \<open>What the comparison relies on: \<open>numeric_cmp\<close> returns -1, 0 or 1 and orders numerics, and the sign
  of \<open>varstr_cmp\<close> orders strings.\<close>

definition sign_order :: "('a \<Rightarrow> 'a \<Rightarrow> int) \<Rightarrow> bool" where
  "sign_order f \<longleftrightarrow> (\<forall>a b. f a b < 0 \<longleftrightarrow> f b a > 0) \<and> (\<forall>a b c. f a b \<le> 0 \<longrightarrow> f b c \<le> 0 \<longrightarrow> f a c \<le> 0)"

definition cmp_env_ok :: "pg_env \<Rightarrow> bool" where
  "cmp_env_ok env \<longleftrightarrow> sign_order (pg_varstr_cmp env) \<and> sign_order (pg_numeric_cmp env) \<and>
     (\<forall>m n. pg_numeric_cmp env m n \<in> {-1, 0, 1})"

lemma sign_orderD:
  assumes "sign_order f"
  shows "f a b < 0 \<longleftrightarrow> f b a > 0" "f a b = 0 \<longleftrightarrow> f b a = 0" "f a b \<le> 0 \<Longrightarrow> f b c \<le> 0 \<Longrightarrow> f a c \<le> 0"
proof -
  have s: "\<And>a b. f a b < 0 \<longleftrightarrow> f b a > 0" using assms unfolding sign_order_def by blast
  show "f a b < 0 \<longleftrightarrow> f b a > 0" by (rule s)
  show "f a b = 0 \<longleftrightarrow> f b a = 0" using s [of a b] s [of b a] by linarith
  show "f a b \<le> 0 \<Longrightarrow> f b c \<le> 0 \<Longrightarrow> f a c \<le> 0" using assms unfolding sign_order_def by blast
qed

lemma numeric_cmp_swap: "cmp_env_ok env \<Longrightarrow> pg_numeric_cmp env m n = - pg_numeric_cmp env n m"
proof -
  assume "cmp_env_ok env"
  then have s: "sign_order (pg_numeric_cmp env)" and r: "pg_numeric_cmp env m n \<in> {-1, 0, 1}" "pg_numeric_cmp env n m \<in> {-1, 0, 1}"
    unfolding cmp_env_ok_def by blast+
  show ?thesis using r sign_orderD(1) [OF s, of m n] sign_orderD(1) [OF s, of n m] by auto
qed

lemma sgn_result_swap: "sign_order f \<Longrightarrow> sgn_result (f a b) = - sgn_result (f b a)"
  using sign_orderD(1) [of f a b] sign_orderD(1) [of f b a] by (auto simp: sgn_result_def)

lemma compare_int64_swap: "compare_int64 a b = - compare_int64 b a"
proof -
  have "a = b \<longleftrightarrow> sint a = sint b" by (metis signed_word_eqI)
  then show ?thesis unfolding compare_int64_def by (auto simp: not_less_iff_gr_or_eq)
qed

lemma compare_floats_swap: "compare_two_floats_orderability a b = - compare_two_floats_orderability b a"
  by (simp add: compare_two_floats_orderability_def)

lemma compare_elems_swap:
  assumes "\<And>x y r. x \<in> set xs \<Longrightarrow> cmp x y = Inr r \<Longrightarrow> cmp y x = Inr (- r)"
  shows "length xs = length ys \<Longrightarrow> compare_elems cmp xs ys = Inr r \<Longrightarrow> compare_elems cmp ys xs = Inr (- r)"
  using assms
proof (induction xs arbitrary: ys)
  case (Cons x xs)
  then obtain y zs where y: "ys = y # zs" by (cases ys) auto
  from Cons.prems(2) y obtain c where c: "cmp x y = Inr c" by (auto simp: age_res)
  then have "cmp y x = Inr (- c)" using Cons.prems(3) [of x y c] by simp
  then show ?case using c Cons y by (auto split: if_splits)
qed simp

lemma compare_ids_swap: "compare_ids a b = Inr r \<Longrightarrow> compare_ids b a = Inr (- r)"
proof -
  assume "compare_ids a b = Inr r"
  then obtain x i y j where "a = Inr x" "int_value x = Inr i" "b = Inr y" "int_value y = Inr j" "r = compare_int64 i j"
    by (auto simp: compare_ids_def age_res)
  then show ?thesis by (simp add: compare_ids_def compare_int64_swap [of j i])
qed

text \<open>The branches of the comparison.\<close>

lemma compare_scalar_simps [simp]:
  "compare_agtype_scalar_values env AGTV_NULL AGTV_NULL = Inr 0"
  "compare_agtype_scalar_values env (AGTV_STRING s) (AGTV_STRING t) = Inr (sgn_result (pg_varstr_cmp env s t))"
  "compare_agtype_scalar_values env (AGTV_NUMERIC m) (AGTV_NUMERIC n) = Inr (pg_numeric_cmp env m n)"
  "compare_agtype_scalar_values env (AGTV_BOOL x) (AGTV_BOOL y) = Inr (if x = y then 0 else if x then 1 else -1)"
  "compare_agtype_scalar_values env (AGTV_INTEGER i) (AGTV_INTEGER j) = Inr (compare_int64 i j)"
  "compare_agtype_scalar_values env (AGTV_FLOAT f) (AGTV_FLOAT g) = Inr (compare_two_floats_orderability f g)"
  "compare_agtype_scalar_values env (AGTV_VERTEX ps) (AGTV_VERTEX qs) = compare_ids (AGTYPE_VERTEX_GET_ID ps) (AGTYPE_VERTEX_GET_ID qs)"
  "compare_agtype_scalar_values env (AGTV_EDGE ps) (AGTV_EDGE qs) = compare_ids (AGTYPE_EDGE_GET_ID ps) (AGTYPE_EDGE_GET_ID qs)"
  "compare_agtype_scalar_values env (AGTV_PATH xs) (AGTV_PATH ys) =
     (if length xs \<noteq> length ys then Inr (if length xs > length ys then 1 else -1)
      else compare_elems (compare_agtype_scalar_values env) xs ys)"
  "compare_agtype_scalar_values env (AGTV_INTEGER i) (AGTV_FLOAT g) = Inr (compare_two_floats_orderability (int8_float i) g)"
  "compare_agtype_scalar_values env (AGTV_FLOAT f) (AGTV_INTEGER j) = Inr (compare_two_floats_orderability f (int8_float j))"
  by (subst compare_agtype_scalar_values.simps, simp)+

lemma compare_scalar_mixed:
  assumes "agtv_type a \<noteq> agtv_type b" "\<not> (agtv_type a \<in> {Type_INTEGER, Type_FLOAT} \<and> agtv_type b \<in> {Type_INTEGER, Type_FLOAT})"
  shows "compare_agtype_scalar_values env a b =
    (if is_numeric_result a b
     then bindE (get_numeric_datum_from_agtype_value env a) (\<lambda>l.
          bindE (get_numeric_datum_from_agtype_value env b) (\<lambda>r. Inr (pg_numeric_cmp env l r)))
     else Inl (Ereport ''agtype input scalar type mismatch''))"
  using assms by (subst compare_agtype_scalar_values.simps) (cases a; cases b; simp)

lemma compare_scalar_same_invalid:
  "agtv_type a = agtv_type b \<Longrightarrow> agtv_type a \<in> {Type_ARRAY, Type_OBJECT, Type_BINARY} \<Longrightarrow>
   compare_agtype_scalar_values env a b = Inl (Ereport ''invalid agtype scalar type for compare'')"
  by (subst compare_agtype_scalar_values.simps) (cases a; cases b; simp)

lemma is_numeric_result_swap: "is_numeric_result a b = is_numeric_result b a"
  by (auto simp: is_numeric_result_def Let_def)

lemma compare_scalar_swap:
  assumes ok: "cmp_env_ok env"
  shows "compare_agtype_scalar_values env a b = Inr r \<Longrightarrow> compare_agtype_scalar_values env b a = Inr (- r)"
proof (induction a arbitrary: b r rule: kids_induct)
  case (kids a)
  have vs: "sign_order (pg_varstr_cmp env)" using ok by (simp add: cmp_env_ok_def)
  show ?case
  proof (cases "agtv_type a = agtv_type b")
    case True
    show ?thesis
    proof (cases a)
      case (AGTV_PATH xs)
      with True obtain ys where b: "b = AGTV_PATH ys" by (cases b) simp_all
      have "compare_elems (compare_agtype_scalar_values env) ys xs = Inr (- r)"
        if "length xs = length ys" "compare_elems (compare_agtype_scalar_values env) xs ys = Inr r"
        by (rule compare_elems_swap [OF _ that]) (use kids.IH AGTV_PATH in simp)
      with kids.prems show ?thesis by (auto simp: AGTV_PATH b split: if_splits)
    next
      case (AGTV_STRING s)
      with True obtain t where "b = AGTV_STRING t" by (cases b) simp_all
      with kids.prems AGTV_STRING show ?thesis using sgn_result_swap [OF vs, of t s] by simp
    next
      case (AGTV_NUMERIC m)
      with True obtain n where "b = AGTV_NUMERIC n" by (cases b) simp_all
      with kids.prems AGTV_NUMERIC show ?thesis using numeric_cmp_swap [OF ok, of n m] by simp
    next
      case (AGTV_INTEGER i)
      with True obtain j where "b = AGTV_INTEGER j" by (cases b) simp_all
      with kids.prems AGTV_INTEGER show ?thesis using compare_int64_swap [of j i] by simp
    next
      case (AGTV_FLOAT f)
      with True obtain g where "b = AGTV_FLOAT g" by (cases b) simp_all
      with kids.prems AGTV_FLOAT show ?thesis using compare_floats_swap [of g f] by simp
    next
      case (AGTV_VERTEX ps)
      with True obtain qs where "b = AGTV_VERTEX qs" by (cases b) simp_all
      with kids.prems AGTV_VERTEX show ?thesis by (simp add: compare_ids_swap)
    next
      case (AGTV_EDGE ps)
      with True obtain qs where "b = AGTV_EDGE qs" by (cases b) simp_all
      with kids.prems AGTV_EDGE show ?thesis by (simp add: compare_ids_swap)
    next
      case AGTV_NULL
      with True kids.prems show ?thesis by (cases b) simp_all
    next
      case (AGTV_BOOL x)
      with True kids.prems show ?thesis by (cases b) (auto split: if_splits)
    qed (use True kids.prems compare_scalar_same_invalid [OF True] in simp_all)
  next
    case F: False
    show ?thesis
    proof (cases "agtv_type a \<in> {Type_INTEGER, Type_FLOAT} \<and> agtv_type b \<in> {Type_INTEGER, Type_FLOAT}")
      case True
      with F consider i f where "a = AGTV_INTEGER i" "b = AGTV_FLOAT f" | i f where "a = AGTV_FLOAT f" "b = AGTV_INTEGER i"
        by (cases a; cases b) auto
      then show ?thesis
      proof cases
        case (1 i f)
        then show ?thesis using kids.prems compare_floats_swap [of f "int8_float i"] by simp
      next
        case (2 i f)
        then show ?thesis using kids.prems compare_floats_swap [of "int8_float i" f] by simp
      qed
    next
      case False
      note m = compare_scalar_mixed [of a b env, OF F False] and m' = compare_scalar_mixed [of b a env]
      from kids.prems obtain x y where "is_numeric_result a b" "get_numeric_datum_from_agtype_value env a = Inr x"
          "get_numeric_datum_from_agtype_value env b = Inr y" "r = pg_numeric_cmp env x y"
        unfolding m by (auto simp: age_res split: if_splits)
      then show ?thesis using F False numeric_cmp_swap [OF ok, of y x]
        by (subst m') (auto simp: is_numeric_result_swap [of b a])
    qed
  qed
qed

lemma sign_order_int64: "compare_int64 a b \<le> 0 \<longleftrightarrow> sint a \<le> sint b"
proof -
  have "a = b \<longleftrightarrow> sint a = sint b" by (metis signed_word_eqI)
  then show ?thesis by (auto simp: compare_int64_def)
qed

lemma compare_floats_trans:
  "compare_two_floats_orderability a b \<le> 0 \<Longrightarrow> compare_two_floats_orderability b c \<le> 0 \<Longrightarrow>
   compare_two_floats_orderability a c \<le> 0"
  by (auto simp: compare_two_floats_orderability_def split: if_splits)

lemma compare_ids_trans:
  assumes "compare_ids a b = Inr x" "compare_ids b c = Inr y" "x \<le> 0" "y \<le> 0"
  shows "\<exists>z. compare_ids a c = Inr z \<and> z \<le> 0"
proof -
  from assms(1) obtain p i q j where ab: "a = Inr p" "int_value p = Inr i" "b = Inr q" "int_value q = Inr j" "x = compare_int64 i j"
    by (auto simp: compare_ids_def age_res)
  with assms(2) obtain r k where bc: "c = Inr r" "int_value r = Inr k" "y = compare_int64 j k"
    by (auto simp: compare_ids_def age_res)
  have "sint i \<le> sint k" using assms(3,4) ab bc by (simp add: sign_order_int64)
  with ab bc show ?thesis by (simp add: compare_ids_def sign_order_int64)
qed

lemma sgn_result_le: "sgn_result r \<le> 0 \<longleftrightarrow> r \<le> 0"
  by (simp add: sgn_result_def)

text \<open>C18: The scalar comparison is antisymmetric wherever it returns: swapping the arguments negates the
  result, across all type combinations it accepts (the mixed numeric ones and paths included).\<close>

theorem compare_scalar_antisym:
  assumes "cmp_env_ok env" "compare_agtype_scalar_values env a b = Inr r"
  shows "compare_agtype_scalar_values env b a = Inr (- r)"
  using compare_scalar_swap assms by blast

text \<open>C19: Within one scalar type other than path the comparison is transitive, as a B-tree needs.\<close>

theorem compare_scalar_trans:
  assumes "cmp_env_ok env" "agtv_type a = agtv_type b" "agtv_type b = agtv_type c" "agtv_type a \<noteq> Type_PATH"
    and "compare_agtype_scalar_values env a b = Inr x" "x \<le> 0"
    and "compare_agtype_scalar_values env b c = Inr y" "y \<le> 0"
  shows "\<exists>z. compare_agtype_scalar_values env a c = Inr z \<and> z \<le> 0"
proof -
  have vs: "sign_order (pg_varstr_cmp env)" and nm: "sign_order (pg_numeric_cmp env)"
    using assms(1) by (simp_all add: cmp_env_ok_def)
  show ?thesis
  proof (cases a)
    case (AGTV_STRING s)
    with assms(2,3) obtain t u where bc: "b = AGTV_STRING t" "c = AGTV_STRING u" by (cases b; cases c) simp_all
    have "pg_varstr_cmp env s t \<le> 0" "pg_varstr_cmp env t u \<le> 0" using assms(5-8) AGTV_STRING bc sgn_result_le by auto
    with AGTV_STRING bc sign_orderD(3) [OF vs, of s t u] show ?thesis by (simp add: sgn_result_le)
  next
    case (AGTV_NUMERIC s)
    with assms(2,3) obtain t u where bc: "b = AGTV_NUMERIC t" "c = AGTV_NUMERIC u" by (cases b; cases c) simp_all
    with assms AGTV_NUMERIC sign_orderD(3) [OF nm, of s t u] show ?thesis by simp
  next
    case (AGTV_INTEGER s)
    with assms(2,3) obtain t u where bc: "b = AGTV_INTEGER t" "c = AGTV_INTEGER u" by (cases b; cases c) simp_all
    have "sint s \<le> sint t" "sint t \<le> sint u" using assms(5-8) AGTV_INTEGER bc sign_order_int64 by auto
    with AGTV_INTEGER bc show ?thesis by (simp add: sign_order_int64)
  next
    case (AGTV_FLOAT s)
    with assms(2,3) obtain t u where bc: "b = AGTV_FLOAT t" "c = AGTV_FLOAT u" by (cases b; cases c) simp_all
    with assms AGTV_FLOAT compare_floats_trans [of s t u] show ?thesis by simp
  next
    case (AGTV_BOOL s)
    with assms(2,3) obtain t u where bc: "b = AGTV_BOOL t" "c = AGTV_BOOL u" by (cases b; cases c) simp_all
    with assms AGTV_BOOL show ?thesis by (auto split: if_splits)
  next
    case (AGTV_VERTEX s)
    with assms(2,3) obtain t u where bc: "b = AGTV_VERTEX t" "c = AGTV_VERTEX u" by (cases b; cases c) simp_all
    with assms AGTV_VERTEX compare_ids_trans show ?thesis by simp
  next
    case (AGTV_EDGE s)
    with assms(2,3) obtain t u where bc: "b = AGTV_EDGE t" "c = AGTV_EDGE u" by (cases b; cases c) simp_all
    with assms AGTV_EDGE compare_ids_trans show ?thesis by simp
  next
    case AGTV_NULL
    with assms(2,3) have "b = AGTV_NULL" "c = AGTV_NULL" by (cases b; cases c; simp)+
    with AGTV_NULL show ?thesis by simp
  qed (use assms(2-5) compare_scalar_same_invalid [OF assms(2)] in simp_all)
qed

lemma sign_order_memcmp_len: "sign_order length_compare_agtype_string_value"
proof -
  have "key_cmp a c \<le> 0" if "key_cmp a b \<le> 0" "key_cmp b c \<le> 0" for a b c
  proof (cases "key_cmp a b = 0 \<or> key_cmp b c = 0")
    case True
    then show ?thesis using that by auto
  next
    case False
    then show ?thesis using that key_cmp_trans [of a b c] by linarith
  qed
  moreover have "key_cmp a b < 0 \<longleftrightarrow> key_cmp b a > 0" for a b using key_cmp_swap [of a b] by linarith
  ultimately show ?thesis unfolding sign_order_def by blast
qed

text \<open>An instance of the contract: byte strings compared by length and bytes.\<close>

definition cmp_env :: pg_env where
  "cmp_env = isort_env\<lparr>pg_varstr_cmp := length_compare_agtype_string_value,
     pg_numeric_cmp := (\<lambda>m n. sgn_result (length_compare_agtype_string_value m n))\<rparr>"

lemma cmp_env_ok: "cmp_env_ok cmp_env"
proof -
  have "sign_order (\<lambda>m n. sgn_result (length_compare_agtype_string_value m n))"
    unfolding sign_order_def
  proof (intro conjI allI impI)
    fix a b c
    show "sgn_result (key_cmp a b) < 0 \<longleftrightarrow> sgn_result (key_cmp b a) > 0"
      using key_cmp_swap [of a b] by (auto simp: sgn_result_def)
    assume "sgn_result (key_cmp a b) \<le> 0" "sgn_result (key_cmp b c) \<le> 0"
    then show "sgn_result (key_cmp a c) \<le> 0"
      using sign_orderD(3) [OF sign_order_memcmp_len, of a b c] by (simp add: sgn_result_le)
  qed
  then show ?thesis using sign_order_memcmp_len by (simp add: cmp_env_ok_def cmp_env_def sgn_result_def)
qed

lemmas float_eval = compare_two_floats_orderability_def int8_float_def f_of_nat_def log2_floor.simps Let_def
  f_isnan_def f_abs_def f_key_def f_neg_def unat_of_nat

theorem compare_scalar_antisym_witness:
  "compare_agtype_scalar_values cmp_env (AGTV_FLOAT 0x4000000000000000) (AGTV_INTEGER 1) = Inr (- (-1))"
proof (rule compare_scalar_antisym [OF cmp_env_ok])
  show "compare_agtype_scalar_values cmp_env (AGTV_INTEGER 1) (AGTV_FLOAT 0x4000000000000000) = Inr (-1)"
    by (simp add: float_eval)
qed

theorem compare_scalar_trans_witness:
  "\<exists>z. compare_agtype_scalar_values cmp_env (AGTV_INTEGER (-4)) (AGTV_INTEGER 9) = Inr z \<and> z \<le> 0"
  by (rule compare_scalar_trans [OF cmp_env_ok, of _ "AGTV_INTEGER 3" _ "-1" "-1"]) (simp_all add: compare_int64_def)


subsection \<open>The order of containers\<close>

lemma init_array: "fits (length (array_image enc raw es)) \<Longrightarrow>
    agtype_iterator_init (array_image enc raw es) = Inr [array_it raw es [] 0 AGTI_ARRAY_START]"
  using iterator_from_array [of raw es "[]"] by (simp add: agtype_iterator_init_def)

lemma init_object: "fits (length (object_image enc_pair ps)) \<Longrightarrow>
    agtype_iterator_init (object_image enc_pair ps) = Inr [object_it ps [] 0 0 AGTI_OBJECT_START]"
  using iterator_from_object [of enc_pair ps "[]"] by (simp add: agtype_iterator_init_def)

lemma object_header_not_scalar: "fits n \<Longrightarrow> \<not> header_is_scalar (of_nat n OR AGT_FOBJECT)"
  using header_flags by blast

lemma object_header_image: "container_header (object_image enc_pair ps @ rest) = Inr (of_nat (length ps) OR AGT_FOBJECT)"
  using container_header_cont [of "of_nat (length ps) OR AGT_FOBJECT" "object_metas ps" "object_data ps" rest]
  by (simp add: object_image_def)

lemma compare_array_object:
  assumes "fits (length (array_image enc False es))" "fits (length (object_image enc_pair ps))" "0 < F"
    and "advance (fill_agtype_value env F) [array_it False es [] 0 AGTI_ARRAY_ELEM] (AGTV_ARRAY False (replicate (length es) AGTV_NULL)) = Inr w"
    and "type_order w (AGTV_OBJECT (replicate (length ps) ([], AGTV_NULL, 0))) = r"
  shows "compare_agtype_containers_orderability env F (array_image enc False es) (object_image enc_pair ps) = Inr r"
proof -
  have n: "fits (length es)" "fits (length ps)" by (rule fits_mono [OF assms(1)], simp, rule fits_mono [OF assms(2)], simp)
  obtain G where F: "F = Suc G" using assms(3) by (cases F) auto
  have r: "r \<noteq> 0" using assms(5) by (simp add: type_order_def split: if_splits)
  have "compare_loop env (fill_agtype_value env F) F [array_it False es [] 0 AGTI_ARRAY_START] [object_it ps [] 0 0 AGTI_OBJECT_START] = Inr r"
    using assms(4,5) r
    by (subst (2) F) (simp add: next_array_start next_object_start [OF assms(2)] compare_step_def is_end_def)
  then show ?thesis
    using array_header_image(1) [of False es "[]"] array_header_fields(3) [OF n(1), of False]
    by (simp add: compare_agtype_containers_orderability_def object_header_image [where rest = "[]", unfolded append_Nil2] init_array [OF assms(1)] init_object [OF assms(2)])
qed

text \<open>C21: The container order has a cycle: when exactly one of two containers is an array and the other an
  object, the array is ranked by the type of its first element, so for every vertex \<open>v\<close>
  \<open>[] > {}\<close> and \<open>[v] < {}\<close> although \<open>[] < [v]\<close>.\<close>

theorem array_object_order_cycle:
  assumes "qsort_ok (pg_qsort_arg env)" "wf_value env (AGTV_VERTEX vs)" "need (AGTV_VERTEX vs) \<le> F"
    and "fits (length (array_image enc False [AGTV_VERTEX vs]))"
  shows "compare_agtype_containers_orderability env F (array_image enc False []) (object_image enc_pair []) = Inr 1 \<and>
    compare_agtype_containers_orderability env F (array_image enc False [AGTV_VERTEX vs]) (object_image enc_pair []) = Inr (-1) \<and>
    compare_agtype_containers_orderability env F (array_image enc False []) (array_image enc False [AGTV_VERTEX vs]) = Inr (-1)"
proof (intro conjI)
  let ?v = "AGTV_VERTEX vs" and ?fill = "fill_agtype_value env F"
  have f0: "fits (length (array_image enc False []))" "fits (length (object_image enc_pair []))" by (simp_all add: fits_iff keys_len_def)
  obtain G where F: "F = Suc (Suc G)"
    using assms(3) by (subst (asm) need.simps) (cases F; cases "F - 1"; simp)
  have reads: "reads ?fill ?v" using fill_ok [OF assms(1-3)] by simp
  have e: "agtype_iterator_next ?fill [array_it False [?v] [] 0 AGTI_ARRAY_ELEM] False =
      Inr (WAGT_ELEM, norm ?v, [array_it False [?v] [] (Suc 0) AGTI_ARRAY_ELEM])"
    using next_array_elem [of ?fill "[?v]" 0 False "[]" "[]" False] reads assms(4)
    by (auto simp: iterator_child_def shallow_def)
  show "compare_agtype_containers_orderability env F (array_image enc False []) (object_image enc_pair []) = Inr 1"
    by (rule compare_array_object [OF f0, where w = "AGTV_ARRAY False []"])
       (simp_all add: F advance_def is_end_def next_array_end [of _ False "[]", simplified] type_order_def get_type_sort_priority_def)
  show "compare_agtype_containers_orderability env F (array_image enc False [?v]) (object_image enc_pair []) = Inr (-1)"
    by (rule compare_array_object [OF assms(4) f0(2), where w = "norm ?v"])
       (simp_all add: F advance_def is_end_def e [unfolded F] type_order_def get_type_sort_priority_def del: fill_agtype_value.simps)
  have "fits 0" "fits 1" by (simp_all add: fits_iff)
  then show "compare_agtype_containers_orderability env F (array_image enc False []) (array_image enc False [?v]) = Inr (-1)"
    using array_header_image(1) [of False "[]" "[]"] array_header_image(1) [of False "[?v]" "[]"]
      array_header_fields(3) [of 0 False] array_header_fields(3) [of 1 False]
      next_array_end [of ?fill False "[]" "[]" "[]" False]
    by (simp add: compare_agtype_containers_orderability_def init_array [OF f0(1)] init_array [OF assms(4)])
       (simp add: F compare_step_def is_end_def comparable_types_def next_array_start e [unfolded F] del: fill_agtype_value.simps)
qed

theorem array_object_order_cycle_witness:
  "compare_agtype_containers_orderability isort_env 40 (array_image enc False []) (object_image enc_pair []) = Inr 1 \<and>
   compare_agtype_containers_orderability isort_env 40 (array_image enc False [AGTV_VERTEX [([105, 100], AGTV_INTEGER 5, 0)]]) (object_image enc_pair []) = Inr (-1) \<and>
   compare_agtype_containers_orderability isort_env 40 (array_image enc False []) (array_image enc False [AGTV_VERTEX [([105, 100], AGTV_INTEGER 5, 0)]]) = Inr (-1)"
  by (rule array_object_order_cycle)
     (simp_all add: pairs_ok_def keys_sorted_def AGTYPE_MAX_PAIRS_def fits_iff INTALIGN_def need.simps keys_len_def composite_image_def)

lemma compare_stored_scalars:
  assumes "qsort_ok (pg_qsort_arg env)"
    and "wf_value env a" "IS_A_AGTYPE_SCALAR a" "need a \<le> F" "fits (length (array_image enc True [a]))"
    and "wf_value env b" "IS_A_AGTYPE_SCALAR b" "need b \<le> F" "fits (length (array_image enc True [b]))"
  shows "compare_agtype_containers_orderability env F (array_image enc True [a]) (array_image enc True [b]) =
    (if comparable_types (agtv_type a) (agtv_type b) then compare_agtype_scalar_values env (norm a) (norm b)
     else Inr (type_order a b))"
proof -
  have fill: "fill_agtype_value_no_copy env F (array_image enc True [v]) 0 (container_data (array_image enc True [v]) 1) 0 = Inr (norm v)"
    if v: "wf_value env v" "IS_A_AGTYPE_SCALAR v" "need v \<le> F" "fits (length (array_image enc True [v]))" for v
  proof -
    obtain rst where "holds_child (array_image enc True [v] @ []) 0 (enc_seq enc 0 [v] @ []) (elem_off [v] 0) ([v] ! 0) rst"
      using array_child [OF v(4), of 0 "[]"] by auto
    then have "fill_agtype_value env F (array_image enc True [v]) 0 (enc_seq enc 0 [v]) (of_nat 0) = Inr (shallow v rst)"
      using fill_ok [OF assms(1) v(1,3)] readsD [of "fill_agtype_value env F" v "array_image enc True [v]" 0 "enc_seq enc 0 [v]" 0 rst]
      by simp
    moreover have "fill_agtype_value_no_copy env F = fill_agtype_value env F" by (rule no_copy_fill)
    ultimately show ?thesis using v(2) array_header_image(2) [of True "[v]" "[]"] by (simp add: shallow_def)
  qed
  have t: "agtv_type (norm v) = agtv_type v" for v by (cases v) simp_all
  have "fits 1" by (simp add: fits_iff)
  then show ?thesis
    using fill [OF assms(2-5)] fill [OF assms(6-9)] array_header_image(1) [of True "[a]" "[]"] array_header_image(1) [of True "[b]" "[]"]
      array_header_fields(3) [of 1 True]
    by (simp add: compare_agtype_containers_orderability_def compare_agtype_scalar_containers_def t type_order_def)
qed

text \<open>C22: Comparing two stored scalars compares the values they were written from, or their types'
  ranks when the types are not comparable.\<close>

theorem scalar_containers_compare_values:
  assumes "qsort_ok (pg_qsort_arg env)"
    and "wf_value env a" "IS_A_AGTYPE_SCALAR a" "need a \<le> F" "fits (length (array_image enc True [a]))"
    and "wf_value env b" "IS_A_AGTYPE_SCALAR b" "need b \<le> F" "fits (length (array_image enc True [b]))"
  shows "compare_agtype_containers_orderability env F (array_image enc True [a]) (array_image enc True [b]) =
    (if comparable_types (agtv_type a) (agtv_type b) then compare_agtype_scalar_values env (norm a) (norm b)
     else Inr (type_order a b))"
  by (rule compare_stored_scalars [OF assms])

theorem scalar_containers_compare_values_witness:
  "compare_agtype_containers_orderability cmp_env 9 (array_image enc True [AGTV_INTEGER 4]) (array_image enc True [AGTV_STRING [65]]) =
    (if comparable_types (agtv_type (AGTV_INTEGER 4)) (agtv_type (AGTV_STRING [65]))
     then compare_agtype_scalar_values cmp_env (norm (AGTV_INTEGER 4)) (norm (AGTV_STRING [65]))
     else Inr (type_order (AGTV_INTEGER 4) (AGTV_STRING [65])))"
  by (rule scalar_containers_compare_values) (simp_all add: cmp_env_def fits_iff need.simps)

end
