(* ===== verification/Agtype_Search.thy ===== *)
theory Agtype_Search
  imports Agtype_Find Agtype_Order
begin

text \<open>
  Searching stored containers: the binary search over the keys of a stored object finds a key
  exactly when the object has it, and returns that pair's value; the scan of a stored array, where
  the copying and the no-copy variant differ.
\<close>

subsection \<open>Binary search\<close>

lemma find_key_correct:
  assumes keys: "\<And>i. i < length ks \<Longrightarrow> key_at c base i = Inr (ks ! i)"
    and sorted: "sorted_wrt (\<lambda>a b. key_cmp a b < 0) ks"
    and "high \<le> length ks" "\<And>i. i < low \<Longrightarrow> i < length ks \<Longrightarrow> key_cmp (ks ! i) k < 0"
    and "\<And>i. high \<le> i \<Longrightarrow> i < length ks \<Longrightarrow> key_cmp (ks ! i) k > 0"
  shows "\<exists>r. find_key c base k low high = Inr r \<and>
    (case r of Some i \<Rightarrow> i < length ks \<and> ks ! i = k | None \<Rightarrow> k \<notin> set ks)"
  using assms(3-5)
proof (induction "high - low" arbitrary: low high rule: less_induct)
  case less
  show ?case
  proof (cases "low < high")
    case False
    have "ks ! i \<noteq> k" if i: "i < length ks" for i
    proof (cases "i < low")
      case True
      then show ?thesis using less.prems(2) [OF True i] by auto
    next
      case F: False
      with False have "high \<le> i" by simp
      then show ?thesis using less.prems(3) [OF _ i] by auto
    qed
    then have "k \<notin> set ks" by (auto simp: in_set_conv_nth)
    with False show ?thesis by (subst find_key.simps) simp
  next
    case True
    let ?m = "low + (high - low) div 2"
    have m: "low \<le> ?m" "?m < high" "?m < length ks" using True less.prems(1) by linarith+
    have ord: "key_cmp (ks ! i) (ks ! j) < 0" if "i < j" "j < length ks" for i j
      using sorted_wrt_nth_less [OF sorted that] .
    consider "key_cmp (ks ! ?m) k = 0" | "key_cmp (ks ! ?m) k < 0" | "key_cmp (ks ! ?m) k > 0" by linarith
    then show ?thesis
    proof cases
      case 1
      then show ?thesis using True m keys [OF m(3)] by (subst find_key.simps) (simp add: Let_def)
    next
      case 2
      have lo: "key_cmp (ks ! i) k < 0" if "i < ?m + 1" "i < length ks" for i
      proof (cases "i = ?m")
        case False
        then have "i < ?m" using that by simp
        then show ?thesis using key_cmp_trans [OF ord [OF _ m(3)] 2] by simp
      qed (use 2 in simp)
      have "\<exists>r. find_key c base k (?m + 1) high = Inr r \<and>
          (case r of Some i \<Rightarrow> i < length ks \<and> ks ! i = k | None \<Rightarrow> k \<notin> set ks)"
        by (rule less.hyps [OF _ less.prems(1)]) (use m lo less.prems(3) in auto)
      then show ?thesis using True keys [OF m(3)] 2 m(3) by (subst find_key.simps) (simp add: Let_def)
    next
      case 3
      have hi: "key_cmp (ks ! i) k > 0" if "?m \<le> i" "i < length ks" for i
      proof (cases "i = ?m")
        case False
        then have "?m < i" using that by simp
        moreover have "key_cmp k (ks ! ?m) < 0" using 3 key_cmp_swap [of k "ks ! ?m"] by linarith
        ultimately have "key_cmp k (ks ! i) < 0" using key_cmp_trans ord that by blast
        then show ?thesis using key_cmp_swap [of k "ks ! i"] by linarith
      qed (use 3 in simp)
      have "\<exists>r. find_key c base k low ?m = Inr r \<and>
          (case r of Some i \<Rightarrow> i < length ks \<and> ks ! i = k | None \<Rightarrow> k \<notin> set ks)"
        by (rule less.hyps) (use m hi less.prems(2) in auto)
      then show ?thesis using True keys [OF m(3)] 3 m(3) by (subst find_key.simps) (simp add: Let_def)
    qed
  qed
qed

lemma key_at_stored:
  assumes "fits (length (object_image enc_pair ps))" "i < length ps"
  shows "key_at (object_image enc_pair ps @ rest) (object_data ps @ rest) i = Inr (pair_key (ps ! i))"
proof -
  obtain rst where h: "holds_child (object_image enc_pair ps @ rest) i (object_data ps @ rest) (key_off ps i) (AGTV_STRING (pair_key (ps ! i))) rst"
    using object_key_child [OF assms] by blast
  have f: "fits (key_off ps i + length (pair_key (ps ! i)))" using h by (simp add: holds_child_def)
  have "fits (key_off ps i)" "fits (length (pair_key (ps ! i)))" by (rule fits_mono [OF f], simp)+
  then show ?thesis using h by (simp add: key_at_def holds_child_def)
qed

lemma keys_nth_sorted: "keys_sorted ps \<Longrightarrow> sorted_wrt (\<lambda>a b. key_cmp a b < 0) (map pair_key ps)"
  by (simp add: keys_sorted_map)

lemma find_key_stored:
  assumes "fits (length (object_image enc_pair ps))" "keys_sorted ps"
  shows "\<exists>r. find_key (object_image enc_pair ps @ rest) (object_data ps @ rest) k 0 (length ps) = Inr r \<and>
    (case r of Some i \<Rightarrow> i < length ps \<and> pair_key (ps ! i) = k \<and> pairs_map ps k = Some (pair_value (ps ! i))
     | None \<Rightarrow> pairs_map ps k = None)"
proof -
  obtain r where r: "find_key (object_image enc_pair ps @ rest) (object_data ps @ rest) k 0 (length ps) = Inr r"
    and c: "case r of Some i \<Rightarrow> i < length (map pair_key ps) \<and> map pair_key ps ! i = k | None \<Rightarrow> k \<notin> set (map pair_key ps)"
    using find_key_correct [of "map pair_key ps" "object_image enc_pair ps @ rest" "object_data ps @ rest" "length ps" 0 k]
      key_at_stored [OF assms(1), where rest = rest] keys_nth_sorted [OF assms(2)] by auto
  have "pairs_map ps k = Some (pair_value (ps ! i))" if "i < length ps" "pair_key (ps ! i) = k" for i
    using pairs_map_iff [OF assms(2), of k "pair_value (ps ! i)"] that
    by (metis nth_mem prod.collapse)
  moreover have "pairs_map ps k = None" if "k \<notin> set (map pair_key ps)"
    using that by (simp add: pairs_map_def map_of_eq_None_iff image_image)
  ultimately show ?thesis using r c by (cases r) auto
qed

lemma object_header_object: "fits n \<Longrightarrow> header_is_object (of_nat n OR AGT_FOBJECT) \<and> \<not> header_is_array (of_nat n OR AGT_FOBJECT)"
  using header_flags by blast

lemma object_data_image: "container_data (object_image enc_pair ps @ rest) (length ps * 2) = object_data ps @ rest"
proof -
  have "length (object_metas ps) = length ps * 2" by simp
  from container_data_cont [OF this, of "of_nat (length ps) OR AGT_FOBJECT" "object_data ps" rest]
  show ?thesis by (simp add: object_image_def)
qed

lemma find_object_with:
  assumes "fits (length (object_image enc_pair ps))" "keys_sorted ps" "\<And>p. p \<in> set ps \<Longrightarrow> reads fill (pair_value p)"
  shows "case pairs_map ps k of
      None \<Rightarrow> find_agtype_value_with eq fill (object_image enc_pair ps @ rest) AGT_FOBJECT (AGTV_STRING k) = Inr None
    | Some v \<Rightarrow> \<exists>rst. find_agtype_value_with eq fill (object_image enc_pair ps @ rest) AGT_FOBJECT (AGTV_STRING k) = Inr (Some (shallow v rst))"
proof -
  have n: "fits (length ps)" by (rule fits_mono [OF assms(1)]) simp
  note hd = object_header_image [of ps rest] object_header_object [OF n] object_header_fields(2) [OF n]
  have fl: "AGT_FOBJECT AND AGT_FARRAY = 0" "AGT_FOBJECT AND AGT_FOBJECT \<noteq> 0" by (simp_all add: agt_flags)
  obtain r where r: "find_key (object_image enc_pair ps @ rest) (object_data ps @ rest) k 0 (length ps) = Inr r"
    and c: "case r of Some i \<Rightarrow> i < length ps \<and> pair_key (ps ! i) = k \<and> pairs_map ps k = Some (pair_value (ps ! i))
     | None \<Rightarrow> pairs_map ps k = None"
    using find_key_stored [OF assms(1,2)] by blast
  show ?thesis
  proof (cases r)
    case None
    with c r hd fl show ?thesis
      by (simp add: find_agtype_value_with_def Let_def object_data_image)
  next
    case (Some i)
    with c have i: "i < length ps" and v: "pairs_map ps k = Some (pair_value (ps ! i))" by auto
    obtain rst where h: "holds_child (object_image enc_pair ps @ rest) (i + length ps) (object_data ps @ rest) (val_off ps i) (pair_value (ps ! i)) rst"
      using object_value_child [OF assms(1) i] by blast
    have "reads fill (pair_value (ps ! i))" using assms(3) i by simp
    from readsD [OF this h] h r Some i hd fl v show ?thesis
      by (auto simp: find_agtype_value_with_def Let_def object_data_image holds_child_def)
  qed
qed

text \<open>C23: Looking a key up in a stored object finds the value stored under it, by binary search over the
  length-then-bytes order of the keys, and reports none exactly when the object has no such key;
  a nested container comes back as a binary that starts with its image.\<close>

theorem find_in_stored_object:
  assumes "qsort_ok (pg_qsort_arg env)" "fits (length (object_image enc_pair ps))" "pairs_ok ps"
    and "\<forall>p \<in> set ps. wf_value env (pair_value p) \<and> need (pair_value p) \<le> F"
  shows "case pairs_map ps k of
      None \<Rightarrow> find_agtype_value_from_container env F (object_image enc_pair ps) AGT_FOBJECT (AGTV_STRING k) = Inr None
    | Some v \<Rightarrow> \<exists>rst. find_agtype_value_from_container env F (object_image enc_pair ps) AGT_FOBJECT (AGTV_STRING k) =
        Inr (Some (shallow v rst))"
  unfolding find_agtype_value_from_container_def
proof (rule find_object_with [OF assms(2), where rest = "[]", unfolded append_Nil2])
  show "keys_sorted ps" using assms(3) by (simp add: pairs_ok_def)
  show "reads (fill_agtype_value env F) (pair_value p)" if "p \<in> set ps" for p
    using fill_ok [OF assms(1)] assms(4) that by blast
qed

theorem find_in_stored_object_witness:
  "case pairs_map [([97], AGTV_INTEGER 1, 0), ([98, 98], AGTV_NULL, 1)] [98, 98] of
      None \<Rightarrow> find_agtype_value_from_container isort_env 9 (object_image enc_pair [([97], AGTV_INTEGER 1, 0), ([98, 98], AGTV_NULL, 1)])
                AGT_FOBJECT (AGTV_STRING [98, 98]) = Inr None
    | Some v \<Rightarrow> \<exists>rst. find_agtype_value_from_container isort_env 9 (object_image enc_pair [([97], AGTV_INTEGER 1, 0), ([98, 98], AGTV_NULL, 1)])
        AGT_FOBJECT (AGTV_STRING [98, 98]) = Inr (Some (shallow v rst))"
  by (rule find_in_stored_object)
     (simp_all add: pairs_ok_def keys_sorted_def length_compare_agtype_string_value_def AGTYPE_MAX_PAIRS_def fits_iff
       INTALIGN_def need.simps keys_len_def)

subsection \<open>The two variants\<close>

text \<open>Asked for a key of an object, the copying and the no-copy search return the same value for every
  container and key, errors included, and the no-copy search asks for the value to be freed exactly
  when it is a composite.\<close>

lemma find_variants_agree_on_objects:
  "find_agtype_value_from_container_no_copy env F c AGT_FOBJECT (AGTV_STRING k) =
    bindE (find_agtype_value_from_container env F c AGT_FOBJECT (AGTV_STRING k))
      (\<lambda>r. Inr (map_option (\<lambda>v. (v, needs_free v)) r))"
proof -
  have fl: "AGT_FOBJECT AND AGT_FARRAY = 0" by (simp add: agt_flags)
  then have "find_agtype_value_with eq fill c AGT_FOBJECT key = find_agtype_value_with eq' fill c AGT_FOBJECT key" for eq eq' fill key
    by (cases "container_header c") (simp_all add: find_agtype_value_with_def Let_def)
  from this [of "equals_agtype_scalar_value env" _ _ "\<lambda>k v. bindE (compare_agtype_scalar_values env k v) (\<lambda>r. Inr (r = 0))"]
  show ?thesis
    unfolding find_agtype_value_from_container_no_copy_def find_agtype_value_from_container_def no_copy_fill by simp
qed

lemma find_singleton:
  assumes "reads fill v" "fits (length (array_image enc raw [v]))" "IS_A_AGTYPE_SCALAR v"
  shows "find_agtype_value_with eq fill (array_image enc raw [v]) AGT_FARRAY key =
    (if agtv_type key = agtv_type (norm v)
     then bindE (eq key (norm v)) (\<lambda>m. Inr (if m then Some (norm v) else None)) else Inr None)"
proof -
  obtain rst where h: "holds_child (array_image enc raw [v] @ []) 0 (enc_seq enc 0 [v] @ []) (elem_off [v] 0) ([v] ! 0) rst"
    using array_child [OF assms(2), of 0 "[]"] by auto
  then have c: "fill (array_image enc raw [v]) 0 (enc_seq enc 0 [v]) 0 = Inr (norm v)"
    using readsD [OF assms(1), of "array_image enc raw [v]" 0 "enc_seq enc 0 [v]" 0 rst] assms(3) by (simp add: shallow_def)
  obtain e where e: "container_child (array_image enc raw [v]) 0 = Inr e" using h by (auto simp: holds_child_def)
  have "fits 1" by (simp add: fits_iff)
  note hd = array_header_fields [OF this, of raw] array_header_image [of raw "[v]" "[]"]
  have fl: "AGT_FARRAY AND AGT_FARRAY \<noteq> 0" by (simp add: agt_flags)
  show ?thesis using c e hd fl
    by (simp add: find_agtype_value_with_def Let_def bindE_def split: sum.splits)
qed

text \<open>On arrays the two variants disagree: for an edge stored in an array the copying search raises
  an error (equality is not defined on edges) where the no-copy search finds it, and a NaN is found
  by the no-copy search only.\<close>

theorem find_variants_differ_on_arrays:
  assumes "qsort_ok (pg_qsort_arg env)" "wf_value env (AGTV_EDGE es)" "need (AGTV_EDGE es) \<le> F"
    and "fits (length (array_image enc False [AGTV_EDGE es]))"
    and "compare_agtype_scalar_values env (AGTV_EDGE es) (norm (AGTV_EDGE es)) = Inr 0"
  shows "find_agtype_value_from_container env F (array_image enc False [AGTV_EDGE es]) AGT_FARRAY (AGTV_EDGE es) =
      Inl (Ereport ''invalid agtype scalar type for equals'') \<and>
    find_agtype_value_from_container_no_copy env F (array_image enc False [AGTV_EDGE es]) AGT_FARRAY (AGTV_EDGE es) =
      Inr (Some (norm (AGTV_EDGE es), True)) \<and>
    find_agtype_value_from_container env F (array_image enc False [AGTV_FLOAT 0x7FF8000000000000]) AGT_FARRAY
      (AGTV_FLOAT 0x7FF8000000000000) = Inr None \<and>
    find_agtype_value_from_container_no_copy env F (array_image enc False [AGTV_FLOAT 0x7FF8000000000000]) AGT_FARRAY
      (AGTV_FLOAT 0x7FF8000000000000) = Inr (Some (AGTV_FLOAT 0x7FF8000000000000, False))"
proof -
  let ?n = "AGTV_FLOAT 0x7FF8000000000000"
  have F: "need ?n \<le> F" using assms(3) by (subst (asm) need.simps) (simp add: need.simps)
  have r: "reads (fill_agtype_value env F) (AGTV_EDGE es)" "reads (fill_agtype_value env F) ?n"
    using fill_ok [OF assms(1-3)] fill_ok [OF assms(1) _ F] by simp_all
  have f: "fits (length (array_image enc False [?n]))" by (simp add: fits_iff)
  have nan: "f_isnan 0x7FF8000000000000" by (simp add: f_isnan_def f_abs_def)
  show ?thesis
    using assms(5) nan
    by (simp add: find_agtype_value_from_container_def find_agtype_value_from_container_no_copy_def no_copy_fill
        find_singleton [OF r(1) assms(4)] find_singleton [OF r(2) f] equals_agtype_scalar_value_def needs_free_def
        compare_two_floats_orderability_def)
qed

definition sample_edge :: "agtype_pair list" where
  "sample_edge =
     [([105, 100], AGTV_INTEGER 7, 0), ([108, 97, 98, 101, 108], AGTV_STRING [75], 1),
      ([101, 110, 100, 95, 105, 100], AGTV_INTEGER 2, 2), ([115, 116, 97, 114, 116, 95, 105, 100], AGTV_INTEGER 1, 3),
      ([112, 114, 111, 112, 101, 114, 116, 105, 101, 115], AGTV_OBJECT [], 4)]"

lemma sample_edge_ok:
  "wf_value isort_env (AGTV_EDGE sample_edge)" "need (AGTV_EDGE sample_edge) \<le> 60"
  "fits (length (array_image enc False [AGTV_EDGE sample_edge]))"
  "compare_agtype_scalar_values isort_env (AGTV_EDGE sample_edge) (norm (AGTV_EDGE sample_edge)) = Inr 0"
  by (simp_all add: sample_edge_def pairs_ok_def keys_sorted_def length_compare_agtype_string_value_def AGTYPE_MAX_PAIRS_def
      fits_iff INTALIGN_def need.simps keys_len_def composite_image_def compare_ids_def AGTYPE_EDGE_GET_ID_def
      EDGE_NUM_FIELDS_def renumber_def compare_int64_def)

theorem find_variants_differ_on_arrays_witness:
  "find_agtype_value_from_container isort_env 60 (array_image enc False [AGTV_EDGE sample_edge]) AGT_FARRAY (AGTV_EDGE sample_edge) =
      Inl (Ereport ''invalid agtype scalar type for equals'') \<and>
    find_agtype_value_from_container_no_copy isort_env 60 (array_image enc False [AGTV_EDGE sample_edge]) AGT_FARRAY (AGTV_EDGE sample_edge) =
      Inr (Some (norm (AGTV_EDGE sample_edge), True)) \<and>
    find_agtype_value_from_container isort_env 60 (array_image enc False [AGTV_FLOAT 0x7FF8000000000000]) AGT_FARRAY
      (AGTV_FLOAT 0x7FF8000000000000) = Inr None \<and>
    find_agtype_value_from_container_no_copy isort_env 60 (array_image enc False [AGTV_FLOAT 0x7FF8000000000000]) AGT_FARRAY
      (AGTV_FLOAT 0x7FF8000000000000) = Inr (Some (AGTV_FLOAT 0x7FF8000000000000, False))"
  by (rule find_variants_differ_on_arrays) (simp_all only: sample_edge_ok isort_env_qsort)

end
