(* ===== verification/Agtype_Contains.thy ===== *)
theory Agtype_Contains
  imports Agtype_Search
begin

text \<open>
  Containment of stored agtypes: \<open>agtype_deep_contains\<close>, which walks two serialized containers with iterators and
  searches the left one by binary search or scan, decides the structural containment \<open>contains\<close> of the values
  stored, for all values built from scalars, arrays and objects.
\<close>

subsection \<open>The specification\<close>

definition same_scalar :: "pg_env \<Rightarrow> agtype_value \<Rightarrow> agtype_value \<Rightarrow> bool" where
  "same_scalar env a b \<longleftrightarrow> agtv_type a = agtv_type b \<and> equals_agtype_scalar_value env a b = Inr True"

function contains :: "pg_env \<Rightarrow> agtype_value \<Rightarrow> agtype_value \<Rightarrow> bool" where
  "contains env l r =
     (case r of
        AGTV_OBJECT rs \<Rightarrow>
          (case l of
             AGTV_OBJECT ls \<Rightarrow> \<forall>p \<in> set rs. case pairs_map ls (pair_key p) of None \<Rightarrow> False | Some w \<Rightarrow> contains env w (pair_value p)
           | _ \<Rightarrow> False)
      | AGTV_ARRAY rraw rs \<Rightarrow>
          (case l of
             AGTV_ARRAY lraw ls \<Rightarrow> (lraw \<longrightarrow> rraw) \<and> (\<forall>v \<in> set rs. \<exists>w \<in> set ls. contains env w v)
           | _ \<Rightarrow> False)
      | _ \<Rightarrow> same_scalar env l r)"
  by pat_completeness auto
termination by (relation "measure (\<lambda>(env, l, r). size r)") (auto simp: size_elem size_pair_value)

declare contains.simps [simp del]

lemma contains_simps:
  "contains env l (AGTV_OBJECT rs) \<longleftrightarrow> (case l of
     AGTV_OBJECT ls \<Rightarrow> \<forall>p \<in> set rs. case pairs_map ls (pair_key p) of None \<Rightarrow> False | Some w \<Rightarrow> contains env w (pair_value p) | _ \<Rightarrow> False)"
  "contains env l (AGTV_ARRAY rraw es) \<longleftrightarrow> (case l of
     AGTV_ARRAY lraw ls \<Rightarrow> (lraw \<longrightarrow> rraw) \<and> (\<forall>v \<in> set es. \<exists>w \<in> set ls. contains env w v) | _ \<Rightarrow> False)"
  by (subst contains.simps, simp cong: agtype_value.case_cong option.case_cong)+

lemma contains_scalar: "IS_A_AGTYPE_SCALAR r \<Longrightarrow> contains env l r \<longleftrightarrow> same_scalar env l r"
  by (subst contains.simps) (cases r; simp)

text \<open>Values without vertices, edges and paths.\<close>

function plain :: "agtype_value \<Rightarrow> bool" where
  "plain v \<longleftrightarrow> agtv_type v \<notin> {Type_VERTEX, Type_EDGE, Type_PATH, Type_BINARY} \<and> (\<forall>w \<in> set (kids v). plain w)"
  by pat_completeness auto
termination by (relation "measure size") (auto simp: size_kids)

declare plain.simps [simp del]

lemma plain_eqs [simp]:
  "plain AGTV_NULL" "plain (AGTV_STRING s)" "plain (AGTV_NUMERIC m)" "plain (AGTV_INTEGER i)" "plain (AGTV_FLOAT f)" "plain (AGTV_BOOL b)"
  "plain (AGTV_ARRAY raw es) \<longleftrightarrow> (\<forall>w \<in> set es. plain w)"
  "plain (AGTV_OBJECT ps) \<longleftrightarrow> (\<forall>p \<in> set ps. plain (pair_value p))"
  by (subst plain.simps, simp)+

lemma plain_kids: "plain v \<Longrightarrow> w \<in> set (kids v) \<Longrightarrow> plain w"
  by (subst (asm) plain.simps) simp

lemma plain_norm: "plain v \<Longrightarrow> IS_A_AGTYPE_SCALAR v \<Longrightarrow> norm v = v"
  by (subst (asm) plain.simps) (cases v; simp)

text \<open>Equality of scalars of the same type is decided without an error, and is symmetric when it is on numerics.\<close>

lemma equals_decides:
  assumes "plain a" "plain b" "IS_A_AGTYPE_SCALAR a" "IS_A_AGTYPE_SCALAR b" "agtv_type a = agtv_type b" "symp (pg_numeric_eq env)"
  shows "equals_agtype_scalar_value env a b = Inr (same_scalar env a b)" "equals_agtype_scalar_value env b a = Inr (same_scalar env a b)"
proof -
  have n: "pg_numeric_eq env m n = pg_numeric_eq env n m" for m n using assms(6) by (auto simp: symp_def)
  have key: "length_compare_agtype_string_value s t = 0 \<longleftrightarrow> length_compare_agtype_string_value t s = 0" for s t
    using key_cmp_eq_0 by metis
  have p: "agtv_type a \<notin> {Type_VERTEX, Type_EDGE, Type_PATH, Type_BINARY}" using assms(1) by (subst (asm) plain.simps) simp
  have "equals_agtype_scalar_value env b a = equals_agtype_scalar_value env a b \<and> (\<exists>e. equals_agtype_scalar_value env a b = Inr e)"
  proof (cases a)
    case (AGTV_STRING s)
    with assms(5) obtain t where "b = AGTV_STRING t" by (cases b) simp_all
    with AGTV_STRING key [of s t] show ?thesis by (simp add: equals_agtype_scalar_value_def)
  next
    case (AGTV_NUMERIC m)
    with assms(5) obtain k where "b = AGTV_NUMERIC k" by (cases b) simp_all
    with AGTV_NUMERIC n [of m k] show ?thesis by (simp add: equals_agtype_scalar_value_def)
  next
    case (AGTV_INTEGER i)
    with assms(5) obtain j where "b = AGTV_INTEGER j" by (cases b) simp_all
    with AGTV_INTEGER show ?thesis by (auto simp: equals_agtype_scalar_value_def)
  next
    case (AGTV_FLOAT f)
    with assms(5) obtain g where "b = AGTV_FLOAT g" by (cases b) simp_all
    with AGTV_FLOAT show ?thesis by (auto simp: equals_agtype_scalar_value_def)
  next
    case (AGTV_BOOL x)
    with assms(5) obtain y where "b = AGTV_BOOL y" by (cases b) simp_all
    with AGTV_BOOL show ?thesis by (auto simp: equals_agtype_scalar_value_def)
  next
    case AGTV_NULL
    with assms(5) have "b = AGTV_NULL" by (cases b) simp_all
    with AGTV_NULL show ?thesis by (auto simp: equals_agtype_scalar_value_def intro: exI [of _ True])
  qed (use assms(3) p in simp_all)
  then obtain e where "equals_agtype_scalar_value env b a = Inr e" "equals_agtype_scalar_value env a b = Inr e" by auto
  then show "equals_agtype_scalar_value env a b = Inr (same_scalar env a b)" "equals_agtype_scalar_value env b a = Inr (same_scalar env a b)"
    using assms(5) by (simp_all add: same_scalar_def)
qed

text \<open>The value a root container stands for: a raw scalar is stored as an array of one element.\<close>

fun unraw :: "agtype_value \<Rightarrow> agtype_value" where
  "unraw (AGTV_ARRAY raw es) = AGTV_ARRAY False es"
| "unraw v = v"

lemma kids_unraw [simp]: "kids (unraw v) = kids v" "IS_A_AGTYPE_SCALAR (unraw v) = IS_A_AGTYPE_SCALAR v"
  by (cases v; simp)+

definition stored :: "pg_env \<Rightarrow> agtype_value \<Rightarrow> bool" where
  "stored env v \<longleftrightarrow> wf_value env (unraw v) \<and> \<not> IS_A_AGTYPE_SCALAR v \<and> fits (length (cimage v)) \<and> (\<forall>w \<in> set (kids v). plain w)"

lemma stored_cases:
  assumes "stored env v"
  obtains (arr) raw es where "v = AGTV_ARRAY raw es" "\<forall>w \<in> set es. wf_value env w \<and> plain w" "fits (length (array_image enc raw es))"
  | (obj) ps where "v = AGTV_OBJECT ps" "pairs_ok ps" "\<forall>p \<in> set ps. wf_value env (pair_value p) \<and> plain (pair_value p)" "fits (length (object_image enc_pair ps))"
  using assms by (cases v) (auto simp: stored_def)

lemma stored_kid:
  assumes "stored env v" "w \<in> set (kids v)" "\<not> IS_A_AGTYPE_SCALAR w"
  shows "stored env w"
  using assms(1)
proof (cases rule: stored_cases)
  case (arr raw es)
  then have "wf_value env w" "plain w" "fits (length (cimage w))" using assms(2) elem_image_fits [of w es raw] by auto
  moreover have "unraw w = w" using \<open>wf_value env w\<close> by (cases w) auto
  ultimately show ?thesis using assms(3) plain_kids by (simp add: stored_def)
next
  case (obj ps)
  then obtain p where p: "p \<in> set ps" "w = pair_value p" using assms(2) by auto
  then have "wf_value env w" "plain w" "fits (length (cimage w))" using obj value_image_fits [of p ps] by auto
  moreover have "unraw w = w" using \<open>wf_value env w\<close> by (cases w) auto
  ultimately show ?thesis using assms(3) plain_kids by (simp add: stored_def)
qed

subsection \<open>Scanning an array\<close>

lemma shallow_type: "plain v \<Longrightarrow> agtv_type (shallow v rst) = (if IS_A_AGTYPE_SCALAR v then agtv_type v else Type_BINARY)"
  by (simp add: shallow_def plain_norm)

lemma find_scan_stored:
  assumes "\<forall>w \<in> set es. reads fill w \<and> plain w" "fits (length (array_image enc raw es))" "plain key" "IS_A_AGTYPE_SCALAR key"
    and eq: "\<And>v. v \<in> set es \<Longrightarrow> IS_A_AGTYPE_SCALAR v \<Longrightarrow> agtv_type key = agtv_type v \<Longrightarrow> eq key v = Inr (same_scalar env v key)"
  shows "i \<le> length es \<Longrightarrow> \<exists>r. find_scan (\<lambda>v. if agtv_type key = agtv_type v then eq key v else Inr False) fill
      (array_image enc raw es @ rest) (enc_seq enc 0 es @ rest) i (length es - i) (of_nat (elem_off es i)) = Inr r \<and>
    (r \<noteq> None \<longleftrightarrow> (\<exists>w \<in> set (drop i es). contains env w key))"
proof (induction "length es - i" arbitrary: i)
  case 0
  then show ?case by simp
next
  case (Suc n)
  then have i: "i < length es" by simp
  let ?v = "es ! i" let ?m = "\<lambda>v. if agtv_type key = agtv_type v then eq key v else Inr False"
  have v: "reads fill ?v" "plain ?v" "?v \<in> set es" using assms(1) i by simp_all
  obtain rst where h: "holds_child (array_image enc raw es @ rest) i (enc_seq enc 0 es @ rest) (elem_off es i) ?v rst"
    using array_child [OF assms(2) i] by blast
  then obtain e where e: "container_child (array_image enc raw es @ rest) i = Inr e"
    "AGTE_ADVANCE_OFFSET (of_nat (elem_off es i)) e = of_nat (elem_off es (Suc i))"
    unfolding holds_child_def elem_off_Suc [OF i] by blast
  have f: "fill (array_image enc raw es @ rest) i (enc_seq enc 0 es @ rest) (of_nat (elem_off es i)) = Inr (shallow ?v rst)"
    by (rule readsD [OF v(1) h])
  have "contains env ?v key \<longleftrightarrow> same_scalar env ?v key" by (rule contains_scalar [OF assms(4)])
  moreover have "?m (shallow ?v rst) = Inr (same_scalar env ?v key)"
  proof (cases "IS_A_AGTYPE_SCALAR ?v")
    case True
    then have "shallow ?v rst = ?v" using v(2) by (simp add: shallow_def plain_norm)
    with eq [OF v(3) True] show ?thesis by (simp add: same_scalar_def)
  next
    case False
    then have "agtv_type key \<noteq> agtv_type ?v" "agtv_type key \<noteq> Type_BINARY" using assms(4) by (cases key; cases ?v; simp)+
    with False v(2) show ?thesis by (simp add: shallow_type same_scalar_def)
  qed
  ultimately have m: "?m (shallow ?v rst) = Inr (contains env ?v key)" by simp
  have d: "drop i es = ?v # drop (Suc i) es" using i by (rule Cons_nth_drop_Suc [symmetric])
  have l: "length es - i = Suc (length es - Suc i)" using i by simp
  have "n = length es - Suc i" "Suc i \<le> length es" using Suc.hyps(2) i by simp_all
  from Suc.hyps(1) [OF this] obtain r where r: "find_scan ?m fill (array_image enc raw es @ rest) (enc_seq enc 0 es @ rest) (Suc i)
      (length es - Suc i) (of_nat (elem_off es (Suc i))) = Inr r" "r \<noteq> None \<longleftrightarrow> (\<exists>w \<in> set (drop (Suc i) es). contains env w key)" by blast
  show ?case
  proof (cases "contains env ?v key")
    case True
    then show ?thesis unfolding l d using f m by simp
  next
    case False
    then show ?thesis unfolding l d using f m e r by (simp del: of_nat_Suc)
  qed
qed

lemma find_array_stored:
  assumes "\<forall>w \<in> set es. reads (fill_agtype_value env F) w \<and> plain w" "fits (length (array_image enc raw es))" "plain key" "IS_A_AGTYPE_SCALAR key" "symp (pg_numeric_eq env)"
  shows "\<exists>r. find_agtype_value_from_container env F (array_image enc raw es @ rest) AGT_FARRAY key = Inr r \<and> (r \<noteq> None \<longleftrightarrow> (\<exists>w \<in> set es. contains env w key))"
proof (cases "es = []")
  case True
  then show ?thesis
    using array_header_image(1) [of raw "[]" rest] array_header_fields [of 0 raw] by (simp add: find_agtype_value_from_container_def find_agtype_value_with_def fits_iff)
next
  case False
  have n: "fits (length es)" by (rule fits_mono [OF assms(2)]) simp
  note hd = array_header_fields [OF n, of raw] array_header_image [of raw es rest]
  have fl: "AGT_FARRAY AND AGT_FARRAY \<noteq> 0" by (simp add: agt_flags)
  have "\<exists>r. find_scan (\<lambda>v. if agtv_type key = agtv_type v then equals_agtype_scalar_value env key v else Inr False) (fill_agtype_value env F)
      (array_image enc raw es @ rest) (enc_seq enc 0 es @ rest) 0 (length es - 0) (of_nat (elem_off es 0)) = Inr r \<and>
    (r \<noteq> None \<longleftrightarrow> (\<exists>w \<in> set (drop 0 es). contains env w key))"
    using assms equals_decides(2) by (intro find_scan_stored) auto
  then show ?thesis using False hd fl by (simp add: find_agtype_value_from_container_def find_agtype_value_with_def Let_def)
qed

subsection \<open>The two loops\<close>

function dneed :: "agtype_value \<Rightarrow> nat" where
  "dneed v = need v + 4 + length (kids v) + sum_list (map dneed (kids v))"
  by pat_completeness auto
termination by (relation "measure size") (auto simp: size_kids)

declare dneed.simps [simp del]

lemma dneed_kid: "w \<in> set (kids v) \<Longrightarrow> dneed w + 4 \<le> dneed v"
  using member_le_sum_list [of "dneed w" "map dneed (kids v)"] by (subst (2) dneed.simps) simp

lemma dneed_bounds: "need v \<le> dneed v" "length (kids v) + 4 \<le> dneed v"
  by (subst dneed.simps, simp)+

text \<open>What the recursive call does on nested containers.\<close>

definition decides :: "pg_env \<Rightarrow> (byte list \<Rightarrow> byte list \<Rightarrow> bool result) \<Rightarrow> agtype_value \<Rightarrow> agtype_value \<Rightarrow> bool" where
  "decides env rec l r \<longleftrightarrow> (\<forall>rl rr. \<not> IS_A_AGTYPE_SCALAR l \<longrightarrow> \<not> IS_A_AGTYPE_SCALAR r \<longrightarrow> rec (cimage l @ rl) (cimage r @ rr) = Inr (contains env l r))"

lemma pairs_map_value: "pairs_map ls k = Some w \<Longrightarrow> \<exists>p \<in> set ls. pair_key p = k \<and> pair_value p = w"
  by (auto simp: pairs_map_def dest!: map_of_SomeD)

lemma scalar_type: "IS_A_AGTYPE_SCALAR v \<Longrightarrow> agtv_type v \<notin> {Type_ARRAY, Type_OBJECT, Type_BINARY}"
  by (cases v) simp_all

lemma container_type: "plain v \<Longrightarrow> \<not> IS_A_AGTYPE_SCALAR v \<Longrightarrow> agtv_type v \<in> {Type_ARRAY, Type_OBJECT}"
  by (subst (asm) plain.simps) (cases v; simp)

lemma scalar_mismatch:
  assumes "plain w" "plain v" "IS_A_AGTYPE_SCALAR w \<noteq> IS_A_AGTYPE_SCALAR v"
  shows "agtv_type (shallow w rl) \<noteq> agtv_type (shallow v rr)" "\<not> contains env w v"
proof -
  show "agtv_type (shallow w rl) \<noteq> agtv_type (shallow v rr)"
    using assms scalar_type [of w] scalar_type [of v] by (auto simp: shallow_type)
  show "\<not> contains env w v"
  proof (cases "IS_A_AGTYPE_SCALAR v")
    case True
    then show ?thesis using assms scalar_type [of v] container_type [of w] by (auto simp: contains_scalar same_scalar_def)
  next
    case False
    then have "IS_A_AGTYPE_SCALAR w" "agtv_type v \<in> {Type_ARRAY, Type_OBJECT}" using assms(2,3) container_type by simp_all
    then show ?thesis by (cases v; cases w; simp add: contains_simps)
  qed
qed

lemma contains_object_law:
  assumes ls: "\<forall>p \<in> set ls. reads (fill_agtype_value env (Suc G)) (pair_value p) \<and> plain (pair_value p)" "keys_sorted ls" "fits (length (object_image enc_pair ls))"
    and rs: "\<forall>p \<in> set rs. reads (fill_agtype_value env (Suc G)) (pair_value p) \<and> plain (pair_value p)" "fits (length (object_image enc_pair rs))"
    and rec: "\<And>p q. p \<in> set ls \<Longrightarrow> q \<in> set rs \<Longrightarrow> decides env rec (pair_value p) (pair_value q)"
    and sym: "symp (pg_numeric_eq env)"
  shows "i \<le> length rs \<Longrightarrow> length rs - i < n \<Longrightarrow>
    contains_object env (Suc G) rec False n (object_image enc_pair ls @ rl) (object_it rs rr i (of_nat (val_off rs i)) AGTI_OBJECT_KEY # its) =
    Inr (\<forall>p \<in> set (drop i rs). case pairs_map ls (pair_key p) of None \<Rightarrow> False | Some w \<Rightarrow> contains env w (pair_value p))"
proof (induction n arbitrary: i)
  case (Suc n)
  let ?fill = "fill_agtype_value env (Suc G)" let ?lc = "object_image enc_pair ls @ rl"
  show ?case
  proof (cases "i = length rs")
    case True
    then show ?thesis using next_object_end [of ?fill enc_pair rs rr] by (simp del: fill_agtype_value.simps)
  next
    case False
    with Suc.prems have i: "i < length rs" by simp
    let ?p = "rs ! i" let ?v = "pair_value ?p" let ?k = "pair_key ?p"
    have v: "reads ?fill ?v" "plain ?v" "?p \<in> set rs" using rs(1) i by simp_all
    have d: "drop i rs = ?p # drop (Suc i) rs" using i by (rule Cons_nth_drop_Suc [symmetric])
    note nk = next_object_key [OF fill_reads_STRING i rs(2), of env G rr "of_nat (val_off rs i)" its False]
    obtain rst where "agtype_iterator_next ?fill (object_it rs rr i (of_nat (val_off rs i)) AGTI_OBJECT_VALUE # its) True =
        iterator_child True WAGT_VALUE (shallow ?v rst) (object_it rs rr (Suc i) (of_nat (val_off rs (Suc i))) AGTI_OBJECT_KEY) its"
      using next_object_value [OF v(1) i rs(2)] by blast
    then have nv: "agtype_iterator_next ?fill (object_it rs rr i (of_nat (val_off rs i)) AGTI_OBJECT_VALUE # its) True =
        Inr (WAGT_VALUE, shallow ?v rst, object_it rs rr (Suc i) (of_nat (val_off rs (Suc i))) AGTI_OBJECT_KEY # its)" by (simp add: iterator_child_def)
    have IH: "contains_object env (Suc G) rec False n ?lc (object_it rs rr (Suc i) (of_nat (val_off rs (Suc i))) AGTI_OBJECT_KEY # its) =
      Inr (\<forall>p \<in> set (drop (Suc i) rs). case pairs_map ls (pair_key p) of None \<Rightarrow> False | Some w \<Rightarrow> contains env w (pair_value p))"
      using Suc.prems i by (intro Suc.IH) simp_all
    have find: "case pairs_map ls ?k of
        None \<Rightarrow> find_agtype_value_from_container env (Suc G) ?lc AGT_FOBJECT (AGTV_STRING ?k) = Inr None
      | Some w \<Rightarrow> \<exists>rst. find_agtype_value_from_container env (Suc G) ?lc AGT_FOBJECT (AGTV_STRING ?k) = Inr (Some (shallow w rst))"
      unfolding find_agtype_value_from_container_def using ls by (intro find_object_with) simp_all
    note S = contains_object.simps(2) [of env "Suc G" rec False n ?lc "object_it rs rr i (of_nat (val_off rs i)) AGTI_OBJECT_KEY # its", unfolded nk bindE_simps prod.case]
    show ?thesis
    proof (cases "pairs_map ls ?k")
      case None
      with find show ?thesis unfolding S d by simp
    next
      case (Some w)
      with find obtain rl' where w: "find_agtype_value_from_container env (Suc G) ?lc AGT_FOBJECT (AGTV_STRING ?k) = Inr (Some (shallow w rl'))" by auto
      from pairs_map_value [OF Some] obtain q where q: "q \<in> set ls" "pair_value q = w" by blast
      then have pw: "plain w" using ls(1) by auto
      have "contains_object env (Suc G) rec False (Suc n) ?lc (object_it rs rr i (of_nat (val_off rs i)) AGTI_OBJECT_KEY # its) =
        (if contains env w ?v then contains_object env (Suc G) rec False n ?lc (object_it rs rr (Suc i) (of_nat (val_off rs (Suc i))) AGTI_OBJECT_KEY # its)
         else Inr False)"
      proof (cases "IS_A_AGTYPE_SCALAR w \<longleftrightarrow> IS_A_AGTYPE_SCALAR ?v")
        case False
        then have "agtv_type (shallow w rl') \<noteq> agtv_type (shallow ?v rst)" "\<not> contains env w ?v"
          using scalar_mismatch [OF pw v(2)] by simp_all
        then show ?thesis unfolding S w bindE_simps option.case nv prod.case by simp
      next
        case same: True
        show ?thesis
        proof (cases "IS_A_AGTYPE_SCALAR ?v")
          case True
          then have s: "shallow w rl' = w" "shallow ?v rst = ?v" "IS_A_AGTYPE_SCALAR w" using pw v(2) same by (simp_all add: shallow_def plain_norm)
          show ?thesis
          proof (cases "agtv_type w = agtv_type ?v")
            case ty: True
            note eq = equals_decides(1) [OF pw v(2) s(3) True ty sym]
            show ?thesis unfolding S w bindE_simps option.case nv prod.case s using ty s(3) eq by (simp add: contains_scalar [OF True])
          next
            case ty: False
            then show ?thesis unfolding S w bindE_simps option.case nv prod.case s by (simp add: contains_scalar [OF True] same_scalar_def)
          qed
        next
          case False
          then have "\<not> IS_A_AGTYPE_SCALAR w" using same by simp
          with False rec [OF q(1) v(3)] q(2) have r: "rec (cimage w @ rl') (cimage ?v @ rst) = Inr (contains env w ?v)" by (simp add: decides_def)
          show ?thesis unfolding S w bindE_simps option.case nv prod.case using False \<open>\<not> IS_A_AGTYPE_SCALAR w\<close> r by (simp add: shallow_def)
        qed
      qed
      with IH Some show ?thesis unfolding d by simp
    qed
  qed
qed simp

text \<open>The containers among the elements of the left array.\<close>

definition images :: "agtype_value list \<Rightarrow> byte list list \<Rightarrow> bool" where
  "images ws cs \<longleftrightarrow> list_all2 (\<lambda>w c. \<exists>rst. c = cimage w @ rst) (filter (\<lambda>w. \<not> IS_A_AGTYPE_SCALAR w) ws) cs"

lemma lhs_containers_law:
  assumes "\<forall>w \<in> set es. reads fill w \<and> plain w" "fits (length (array_image enc raw es))"
  shows "i \<le> length es \<Longrightarrow> \<exists>cs. lhs_containers fill (length es - i) (array_it raw es rest i AGTI_ARRAY_ELEM # its) = Inr cs \<and> images (drop i es) cs"
proof (induction "length es - i" arbitrary: i)
  case 0
  then show ?case by (simp add: images_def)
next
  case (Suc n)
  then have i: "i < length es" by simp
  let ?w = "es ! i"
  have w: "reads fill ?w" "plain ?w" using assms(1) i by simp_all
  obtain rst where "agtype_iterator_next fill (array_it raw es rest i AGTI_ARRAY_ELEM # its) True =
      iterator_child True WAGT_ELEM (shallow ?w rst) (array_it raw es rest (Suc i) AGTI_ARRAY_ELEM) its"
    using next_array_elem [OF w(1) i assms(2)] by blast
  then have nx: "agtype_iterator_next fill (array_it raw es rest i AGTI_ARRAY_ELEM # its) True =
      Inr (WAGT_ELEM, shallow ?w rst, array_it raw es rest (Suc i) AGTI_ARRAY_ELEM # its)" by (simp add: iterator_child_def)
  have d: "drop i es = ?w # drop (Suc i) es" using i by (rule Cons_nth_drop_Suc [symmetric])
  have l: "length es - i = Suc (length es - Suc i)" using i by simp
  have "n = length es - Suc i" "Suc i \<le> length es" using Suc.hyps(2) i by simp_all
  from Suc.hyps(1) [OF this] obtain cs where cs: "lhs_containers fill (length es - Suc i) (array_it raw es rest (Suc i) AGTI_ARRAY_ELEM # its) = Inr cs"
    "images (drop (Suc i) es) cs" by blast
  show ?case
  proof (cases "IS_A_AGTYPE_SCALAR ?w")
    case True
    then have "shallow ?w rst = ?w" "\<And>x y. ?w \<noteq> AGTV_BINARY x y" using w(2) by (auto simp: shallow_def plain_norm)
    then show ?thesis unfolding l d using nx cs True by (cases ?w) (auto simp: images_def)
  next
    case False
    then show ?thesis unfolding l d using nx cs by (auto simp: images_def shallow_def)
  qed
qed

lemma contains_any_law:
  assumes "\<And>w. w \<in> set ws \<Longrightarrow> decides env rec w v" "\<not> IS_A_AGTYPE_SCALAR v" "images ws cs" "\<forall>w \<in> set ws. plain w" "plain v"
  shows "contains_any rec cs (cimage v @ rr) = Inr (\<exists>w \<in> set ws. contains env w v)"
proof -
  let ?ws = "filter (\<lambda>w. \<not> IS_A_AGTYPE_SCALAR w) ws"
  have "contains_any rec cs (cimage v @ rr) = Inr (\<exists>w \<in> set us. contains env w v)"
    if "list_all2 (\<lambda>w c. \<exists>rst. c = cimage w @ rst) us cs" "set us \<subseteq> set ?ws" for us
    using that
  proof (induction rule: list_all2_induct)
    case (Cons w us c cs)
    then obtain rst where c: "c = cimage w @ rst" by blast
    have "rec c (cimage v @ rr) = Inr (contains env w v)" using assms(1,2) Cons.prems by (auto simp: c decides_def)
    with Cons show ?case by auto
  qed simp
  from this [of ?ws] assms(3) have "contains_any rec cs (cimage v @ rr) = Inr (\<exists>w \<in> set ?ws. contains env w v)" by (simp add: images_def)
  moreover have "\<not> contains env w v" if "w \<in> set ws" "IS_A_AGTYPE_SCALAR w" for w using scalar_mismatch(2) [of w v env] assms(2,4,5) that by auto
  ultimately show ?thesis by auto
qed

lemma contains_array_law:
  assumes ls: "\<forall>w \<in> set ls. reads (fill_agtype_value env (Suc G)) w \<and> plain w" "fits (length (array_image enc lraw ls))"
    and rs: "\<forall>w \<in> set rs. reads (fill_agtype_value env (Suc G)) w \<and> plain w" "fits (length (array_image enc rraw rs))"
    and rec: "\<And>p q. p \<in> set ls \<Longrightarrow> q \<in> set rs \<Longrightarrow> decides env rec p q"
    and sym: "symp (pg_numeric_eq env)"
  shows "i \<le> length rs \<Longrightarrow> length rs - i < n \<Longrightarrow> (\<forall>cs. conts = Some cs \<longrightarrow> images ls cs) \<Longrightarrow>
    contains_array env (Suc G) rec n (array_image enc lraw ls @ rl) (length ls) (array_it lraw ls rl 0 AGTI_ARRAY_ELEM # its0) conts
      (array_it rraw rs rr i AGTI_ARRAY_ELEM # its) = Inr (\<forall>v \<in> set (drop i rs). \<exists>w \<in> set ls. contains env w v)"
proof (induction n arbitrary: i conts)
  case (Suc n)
  let ?fill = "fill_agtype_value env (Suc G)" let ?lc = "array_image enc lraw ls @ rl" let ?vits = "array_it lraw ls rl 0 AGTI_ARRAY_ELEM # its0"
  show ?case
  proof (cases "i = length rs")
    case True
    then show ?thesis using next_array_end [of ?fill rraw rs rr its True] by (simp del: fill_agtype_value.simps)
  next
    case False
    with Suc.prems have i: "i < length rs" by simp
    let ?v = "rs ! i" let ?next = "array_it rraw rs rr (Suc i) AGTI_ARRAY_ELEM # its"
    have v: "reads ?fill ?v" "plain ?v" "?v \<in> set rs" using rs(1) i by simp_all
    have d: "drop i rs = ?v # drop (Suc i) rs" using i by (rule Cons_nth_drop_Suc [symmetric])
    obtain rst where "agtype_iterator_next ?fill (array_it rraw rs rr i AGTI_ARRAY_ELEM # its) True =
        iterator_child True WAGT_ELEM (shallow ?v rst) (array_it rraw rs rr (Suc i) AGTI_ARRAY_ELEM) its"
      using next_array_elem [OF v(1) i rs(2)] by blast
    then have nv: "agtype_iterator_next ?fill (array_it rraw rs rr i AGTI_ARRAY_ELEM # its) True = Inr (WAGT_ELEM, shallow ?v rst, ?next)"
      by (simp add: iterator_child_def)
    have IH: "contains_array env (Suc G) rec n ?lc (length ls) ?vits conts' ?next = Inr (\<forall>v \<in> set (drop (Suc i) rs). \<exists>w \<in> set ls. contains env w v)"
      if "\<forall>cs. conts' = Some cs \<longrightarrow> images ls cs" for conts' using Suc.prems i that by (intro Suc.IH) simp_all
    note S = contains_array.simps(2) [of env "Suc G" rec n ?lc "length ls" ?vits conts "array_it rraw rs rr i AGTI_ARRAY_ELEM # its", unfolded nv bindE_simps prod.case]
    show ?thesis
    proof (cases "IS_A_AGTYPE_SCALAR ?v")
      case True
      then have s: "shallow ?v rst = ?v" using v(2) by (simp add: shallow_def plain_norm)
      obtain r where r: "find_agtype_value_from_container env (Suc G) ?lc AGT_FARRAY ?v = Inr r" "r \<noteq> None \<longleftrightarrow> (\<exists>w \<in> set ls. contains env w ?v)"
        using find_array_stored [OF ls v(2) True sym] by blast
      show ?thesis unfolding S s d using True r IH [OF Suc.prems(3)] by (cases r) (simp_all del: contains_array.simps)
    next
      case False
      obtain cs where cs: "(case conts of Some cs \<Rightarrow> Inr cs | None \<Rightarrow> lhs_containers ?fill (length ls) ?vits) = Inr cs" "images ls cs"
        using Suc.prems(3) lhs_containers_law [OF ls, of 0 rl its0] by (cases conts) auto
      have any: "contains_any rec cs (cimage ?v @ rst) = Inr (\<exists>w \<in> set ls. contains env w ?v)"
        using rec v(2,3) False cs(2) ls(1) by (intro contains_any_law) simp_all
      have "cs = [] \<Longrightarrow> \<not> (\<exists>w \<in> set ls. contains env w ?v)" using any by simp
      then show ?thesis unfolding S d using False cs any IH [of "Some cs"] by (auto simp: shallow_def simp del: contains_array.simps)
    qed
  qed
qed simp

subsection \<open>Containment\<close>

lemma contains_length:
  assumes "contains env (AGTV_OBJECT ls) (AGTV_OBJECT rs)" "keys_sorted rs"
  shows "length rs \<le> length ls"
proof -
  have "pair_key p \<in> pair_key ` set ls" if "p \<in> set rs" for p
  proof -
    from assms(1) that have "pairs_map ls (pair_key p) \<noteq> None" by (auto simp: contains_simps dest!: bspec split: option.splits)
    with pairs_map_value [of ls "pair_key p"] show ?thesis by (metis image_eqI not_None_eq)
  qed
  then have "pair_key ` set rs \<subseteq> pair_key ` set ls" by blast
  then have "card (pair_key ` set rs) \<le> card (pair_key ` set ls)" by (simp add: card_mono)
  moreover have "distinct (map pair_key rs)" by (rule keys_sorted_distinct [OF assms(2)])
  then have "card (pair_key ` set rs) = length rs" by (metis distinct_card length_map list.set_map)
  moreover have "card (pair_key ` set ls) \<le> length ls" by (metis card_length length_map list.set_map)
  ultimately show ?thesis by simp
qed

lemma deep_contains_law:
  assumes q: "qsort_ok (pg_qsort_arg env)" and sym: "symp (pg_numeric_eq env)"
  shows "stored env l \<Longrightarrow> stored env r \<Longrightarrow> dneed l + dneed r \<le> F \<Longrightarrow>
    agtype_deep_contains env F (cimage l @ rl) (cimage r @ rr) False = Inr (contains env l r)"
proof (induction r arbitrary: l F rl rr rule: kids_induct)
  case (kids r)
  obtain G where F: "F = Suc (Suc G)" using kids.prems(3) dneed_bounds(2) [of r] by (metis add_leE le_Suc_ex add_Suc_right numeral_eq_Suc pred_numeral_simps(2) plus_nat.add_Suc)
  let ?rec = "\<lambda>a b. agtype_deep_contains env (Suc G) a b False"
  have rd: "reads (fill_agtype_value env (Suc G)) w" if "w \<in> set (kids l) \<or> w \<in> set (kids r)" "wf_value env w" for w
  proof -
    have "need w \<le> Suc G" using that(1) dneed_kid [of w l] dneed_kid [of w r] dneed_bounds(1) [of w] kids.prems(3) F by auto
    from fill_ok [OF q that(2) this] show ?thesis by (rule conjunct1)
  qed
  have rec: "decides env ?rec p w" if "p \<in> set (kids l)" "w \<in> set (kids r)" for p w
    unfolding decides_def
  proof (intro allI impI)
    fix rl rr assume n: "\<not> IS_A_AGTYPE_SCALAR p" "\<not> IS_A_AGTYPE_SCALAR w"
    have "dneed p + dneed w \<le> Suc G" using dneed_kid [OF that(1)] dneed_kid [OF that(2)] kids.prems(3) F by simp
    then show "?rec (cimage p @ rl) (cimage w @ rr) = Inr (contains env p w)"
      by (rule kids.IH [OF that(2) stored_kid [OF kids.prems(1) that(1) n(1)] stored_kid [OF kids.prems(2) that(2) n(2)]])
  qed
  have len: "length (kids r) < Suc G" using dneed_bounds(2) [of r] kids.prems(3) F by simp
  from kids.prems(2) show ?case
  proof (cases rule: stored_cases)
    case r: (arr rraw rs)
    from kids.prems(1) show ?thesis
    proof (cases rule: stored_cases)
      case l: (arr lraw ls)
      have "contains_array env (Suc G) ?rec (Suc G) (array_image enc lraw ls @ rl) (length ls) (array_it lraw ls rl 0 AGTI_ARRAY_ELEM # []) None
          (array_it rraw rs rr 0 AGTI_ARRAY_ELEM # []) = Inr (\<forall>v \<in> set (drop 0 rs). \<exists>w \<in> set ls. contains env w v)"
        using l r rd rec len sym by (intro contains_array_law) auto
      with l(1) r(1) show ?thesis
        by (auto simp: F agtype_iterator_init_def iterator_from_array [OF l(3)] iterator_from_array [OF r(3)] next_array_start contains_simps
            simp del: contains_array.simps fill_agtype_value.simps)
    next
      case l: (obj ls)
      with r(1) show ?thesis
        by (simp add: F agtype_iterator_init_def iterator_from_object [OF l(4)] iterator_from_array [OF r(3)] next_array_start next_object_start [OF l(4)] contains_simps
            del: fill_agtype_value.simps off_0)
    qed
  next
    case r: (obj rs)
    from kids.prems(1) show ?thesis
    proof (cases rule: stored_cases)
      case l: (arr lraw ls)
      with r(1) show ?thesis
        by (simp add: F agtype_iterator_init_def iterator_from_object [OF r(4)] iterator_from_array [OF l(3)] next_array_start next_object_start [OF r(4)] contains_simps
            del: fill_agtype_value.simps off_0)
    next
      case l: (obj ls)
      have sorted: "keys_sorted ls" "keys_sorted rs" using l(2) r(2) by (simp_all add: pairs_ok_def)
      have "contains_object env (Suc G) ?rec False (Suc G) (object_image enc_pair ls @ rl) (object_it rs rr 0 (of_nat (val_off rs 0)) AGTI_OBJECT_KEY # []) =
          Inr (\<forall>p \<in> set (drop 0 rs). case pairs_map ls (pair_key p) of None \<Rightarrow> False | Some w \<Rightarrow> contains env w (pair_value p))"
        using l r rd rec len sym sorted by (intro contains_object_law) auto
      also have "(\<forall>p \<in> set (drop 0 rs). case pairs_map ls (pair_key p) of None \<Rightarrow> False | Some w \<Rightarrow> contains env w (pair_value p)) = contains env l r"
        by (simp add: l(1) r(1) contains_simps)
      finally show ?thesis using l(1) r(1) contains_length [of env ls rs] sorted(2)
        by (simp add: F agtype_iterator_init_def iterator_from_object [OF l(4)] iterator_from_object [OF r(4)] next_object_start [OF l(4)] next_object_start [OF r(4)]
            del: contains_object.simps fill_agtype_value.simps off_0) (metis not_le)
    qed
  qed
qed



end
