(* ===== verification/Agtype_Access.thy ===== *)
theory Agtype_Access
  imports Agtype_Contains "HOL-Library.Signed_Division"
begin

text \<open>
  What the operators of \<open>src/backend/utils/adt/agtype_ops.c\<close> use to look into their operands: the scalar
  of a raw-scalar datum, the properties of a vertex or edge, the binary search of an in-memory object, the
  elements of a list one by one; and the containment operators \<open>@>\<close>, \<open><@\<close>, \<open>@>>\<close> and \<open><<@\<close> with the fast
  path for constraints that are a chain of single pairs, and its cache. A datum is the memory of its root container.
\<close>

subsection \<open>Scalars and properties\<close>

definition AGT_ROOT_IS_SCALAR :: "byte list \<Rightarrow> bool result" where
  "AGT_ROOT_IS_SCALAR agt = bindE (container_header agt) (\<lambda>h. Inr (header_is_scalar h))"

definition AGT_ROOT_IS_OBJECT :: "byte list \<Rightarrow> bool result" where
  "AGT_ROOT_IS_OBJECT agt = bindE (container_header agt) (\<lambda>h. Inr (header_is_object h))"

definition AGT_ROOT_IS_ARRAY :: "byte list \<Rightarrow> bool result" where
  "AGT_ROOT_IS_ARRAY agt = bindE (container_header agt) (\<lambda>h. Inr (header_is_array h))"

definition AGT_ROOT_COUNT :: "byte list \<Rightarrow> nat result" where
  "AGT_ROOT_COUNT agt = bindE (container_header agt) (\<lambda>h. Inr (header_size h))"

text \<open>The value and whether its content has to be freed.\<close>

definition get_scalar_agtype_value_no_copy :: "pg_env \<Rightarrow> nat \<Rightarrow> byte list \<Rightarrow> (agtype_value \<times> bool) result" where
  "get_scalar_agtype_value_no_copy env F agt =
     bindE (get_ith_agtype_value_from_container_no_copy env F agt 0) (\<lambda>r.
       case r of None \<Rightarrow> Inl (Ereport ''failed to read scalar agtype value'') | Some v \<Rightarrow> Inr v)"

text \<open>The properties of a vertex are the value of its third pair, those of an edge of its fifth; the array
  is read without a look at the number of pairs.\<close>

definition nth_value :: "agtype_pair list \<Rightarrow> nat \<Rightarrow> agtype_value result" where
  "nth_value ps i = (if i < length ps then Inr (pair_value (ps ! i)) else Inl BadAccess)"

definition entity_properties :: "bool \<Rightarrow> agtype_value \<Rightarrow> agtype_value result" where
  "entity_properties error_on_scalar scalar =
     (case scalar of
        AGTV_VERTEX ps \<Rightarrow> nth_value ps 2
      | AGTV_EDGE ps \<Rightarrow> nth_value ps 4
      | AGTV_PATH _ \<Rightarrow> Inl (Ereport ''cannot extract properties from an agtype path'')
      | _ \<Rightarrow> if error_on_scalar then Inl (Ereport ''scalar object must be a vertex or edge'') else Inr scalar)"

text \<open>\<open>None\<close> is the null pointer.\<close>

definition extract_entity_properties :: "pg_env \<Rightarrow> nat \<Rightarrow> byte list \<Rightarrow> bool \<Rightarrow> agtype_value option result" where
  "extract_entity_properties env F object error_on_scalar =
     bindE (AGT_ROOT_IS_SCALAR object) (\<lambda>sc.
       if \<not> sc then Inl (Ereport ''expected a scalar value'')
       else bindE (get_ith_agtype_value_from_container env F object 0) (\<lambda>r.
         case r of
           None \<Rightarrow> Inl BadAccess
         | Some scalar \<Rightarrow> bindE (entity_properties error_on_scalar scalar) (\<lambda>v. Inr (if v = AGTV_NULL then None else Some v))))"

definition get_entity_properties_container_no_copy :: "pg_env \<Rightarrow> nat \<Rightarrow> byte list \<Rightarrow> bool \<Rightarrow> byte list option result" where
  "get_entity_properties_container_no_copy env F agt error_on_scalar =
     bindE (AGT_ROOT_IS_SCALAR agt) (\<lambda>sc.
     bindE (if sc then bindE (container_child agt 0) (\<lambda>e. Inr (AGTE_IS_AGTYPE e)) else Inr False) (\<lambda>ext.
       if \<not> ext then Inr (Some agt)
       else bindE (get_scalar_agtype_value_no_copy env F agt) (\<lambda>(scalar, _).
            bindE (entity_properties error_on_scalar scalar) (\<lambda>properties.
              case properties of
                AGTV_NULL \<Rightarrow> Inr None
              | AGTV_BINARY _ data \<Rightarrow> Inr (Some data)
              | _ \<Rightarrow> bindE (agtype_value_to_agtype env properties) (\<lambda>d. Inr (Some d))))))"

subsection \<open>In-memory objects\<close>

text \<open>The loop of \<open>get_agtype_value_object_value\<close>; \<open>right\<close> may reach \<open>-1\<close>, and C's division truncates.\<close>

function object_value_loop :: "agtype_pair list \<Rightarrow> byte list \<Rightarrow> int \<Rightarrow> int \<Rightarrow> int \<Rightarrow> agtype_value option result" where
  "object_value_loop ps key left right middle =
     (if left \<le> middle \<and> middle \<le> right then
        if middle < 0 \<or> int (length ps) \<le> middle then Inl BadAccess
        else let k = pair_key (ps ! nat middle);
                 result = (if length k \<noteq> length key then int (length key) - int (length k) else memcmp key k)
             in if result = 0 then Inr (Some (pair_value (ps ! nat middle)))
                else if result < 0 then object_value_loop ps key left (middle - 1) ((middle - 1 - left) sdiv 2 + left)
                else object_value_loop ps key (middle + 1) right ((right - (middle + 1)) sdiv 2 + (middle + 1))
      else Inr None)"
  by pat_completeness auto
termination by (relation "measure (\<lambda>(ps, key, left, right, middle). nat (right + 1 - left))") auto

declare object_value_loop.simps [simp del]

definition get_agtype_value_object_value :: "agtype_pair list \<Rightarrow> byte list \<Rightarrow> agtype_value option result" where
  "get_agtype_value_object_value ps key =
     (if key = [] then Inr None
      else object_value_loop ps key 0 (int (length ps) - 1) (int (length ps div 2)))"

definition find_agtype_value_from_agtype_value_object ::
    "pg_env \<Rightarrow> nat \<Rightarrow> agtype_value option \<Rightarrow> agtype_value \<Rightarrow> agtype_value option result" where
  "find_agtype_value_from_agtype_value_object env F object key =
     (case (object, key) of
        (Some (AGTV_OBJECT ps), AGTV_STRING k) \<Rightarrow> get_agtype_value_object_value ps k
      | (Some (AGTV_BINARY _ data), AGTV_STRING k) \<Rightarrow>
          bindE (AGT_ROOT_IS_OBJECT data) (\<lambda>b. if b then find_agtype_value_from_container env F data AGT_FOBJECT key else Inr None)
      | _ \<Rightarrow> Inr None)"

subsection \<open>Containment operators\<close>

definition is_single_pair_contains_scalar :: "agtype_value \<Rightarrow> bool" where
  "is_single_pair_contains_scalar value \<longleftrightarrow> agtv_type value \<in> {Type_INTEGER, Type_FLOAT, Type_BOOL, Type_STRING, Type_NULL}"

text \<open>The closing tokens after the value: one end per key, then the end of the input.\<close>

primrec closes :: "fill_fun \<Rightarrow> nat \<Rightarrow> agtype_iterator list \<Rightarrow> bool result" where
  "closes fill 0 its = bindE (agtype_iterator_next fill its False) (\<lambda>(token, _, _). Inr (token = WAGT_DONE))"
| "closes fill (Suc n) its =
     bindE (agtype_iterator_next fill its False) (\<lambda>(token, _, its'). if token \<noteq> WAGT_END_OBJECT then Inr False else closes fill n its')"

text \<open>The loop reads a key and what follows. After \<open>WAGT_BEGIN_OBJECT\<close> the \<open>binary.data\<close> member of the value still points
  at the nested container, which is the one the iterator has just entered.\<close>

primrec parse_single_pair_loop ::
    "fill_fun \<Rightarrow> nat \<Rightarrow> agtype_iterator list \<Rightarrow> agtype_value list \<Rightarrow> (agtype_value list \<times> agtype_value) option result" where
  "parse_single_pair_loop fill 0 it path = Inl OutOfFuel"
| "parse_single_pair_loop fill (Suc n) it path =
     bindE (agtype_iterator_next fill it False) (\<lambda>(token, key, it1).
       if token \<noteq> WAGT_KEY \<or> agtv_type key \<noteq> Type_STRING then Inr None
       else bindE (agtype_iterator_next fill it1 False) (\<lambda>(token2, value, it2).
         if token2 = WAGT_VALUE then
           if \<not> is_single_pair_contains_scalar value then Inr None
           else bindE (closes fill (Suc (length path)) it2) (\<lambda>b. Inr (if b then Some (path @ [key], value) else None))
         else if token2 \<noteq> WAGT_BEGIN_OBJECT then Inr None
         else (case it2 of
                 [] \<Rightarrow> Inl BadAccess
               | child # _ \<Rightarrow>
                   bindE (container_header (it_container child)) (\<lambda>h.
                     if header_size h \<noteq> 1 then Inr None else parse_single_pair_loop fill n it2 (path @ [key])))))"

definition parse_single_pair_contains_constraint :: "pg_env \<Rightarrow> nat \<Rightarrow> byte list \<Rightarrow> (agtype_value list \<times> agtype_value) option result" where
  "parse_single_pair_contains_constraint env F constraints =
     bindE (agtype_iterator_init constraints) (\<lambda>it0.
     bindE (agtype_iterator_next (fill_agtype_value env F) it0 False) (\<lambda>(_, _, it). parse_single_pair_loop (fill_agtype_value env F) F it []))"

text \<open>The test on the property found for the last key.\<close>

definition single_pair_matches :: "pg_env \<Rightarrow> agtype_value \<Rightarrow> agtype_value \<Rightarrow> bool result" where
  "single_pair_matches env property_value value =
     (if agtv_type property_value \<noteq> agtv_type value then Inr False
      else if agtv_type value = Type_NULL then Inr (agtv_type property_value = Type_NULL)
      else bindE (compare_agtype_scalar_values env property_value value) (\<lambda>r. Inr (r = 0)))"

fun eval_single_pair_contains_constraint :: "pg_env \<Rightarrow> nat \<Rightarrow> byte list \<Rightarrow> agtype_value list \<Rightarrow> agtype_value \<Rightarrow> bool result" where
  "eval_single_pair_contains_constraint env F container [] value = single_pair_matches env AGTV_NULL value"
| "eval_single_pair_contains_constraint env F container (key # path) value =
     bindE (find_agtype_value_from_container_no_copy env F container AGT_FOBJECT key) (\<lambda>found.
       case found of
         None \<Rightarrow> Inr False
       | Some (property_value, _) \<Rightarrow>
           if path = [] then single_pair_matches env property_value value
           else (case property_value of
                   AGTV_BINARY _ data \<Rightarrow>
                     bindE (AGT_ROOT_IS_OBJECT data) (\<lambda>b.
                       if b then eval_single_pair_contains_constraint env F data path value else Inr False)
                 | _ \<Rightarrow> Inr False))"

text \<open>The guard both variants of the fast path start with, and the uncached one. \<open>None\<close> means not handled.\<close>

definition single_pair_shape :: "byte list \<Rightarrow> byte list \<Rightarrow> bool result" where
  "single_pair_shape properties constraints =
     bindE (container_header properties) (\<lambda>hp. bindE (container_header constraints) (\<lambda>hc.
       Inr (header_is_object hp \<and> header_is_object hc \<and> header_size hc = 1)))"

definition try_single_pair_object_contains :: "pg_env \<Rightarrow> nat \<Rightarrow> byte list \<Rightarrow> byte list \<Rightarrow> bool option result" where
  "try_single_pair_object_contains env F properties constraints =
     bindE (single_pair_shape properties constraints) (\<lambda>ok.
       if \<not> ok then Inr None
       else bindE (parse_single_pair_contains_constraint env F constraints) (\<lambda>parsed.
         case parsed of
           None \<Rightarrow> Inr None
         | Some (path, value) \<Rightarrow> bindE (eval_single_pair_contains_constraint env F properties path value) (\<lambda>r. Inr (Some r))))"

text \<open>\<open>fn_extra\<close>: the address of the constraint the cache was filled from, and what was parsed. It is only allocated
  when it is filled, so it is always valid.\<close>

record SinglePairObjectContainsCache =
  spc_constraints :: nat
  spc_path :: "agtype_value list"
  spc_value :: agtype_value

definition try_cached_single_pair_object_contains ::
    "pg_env \<Rightarrow> nat \<Rightarrow> SinglePairObjectContainsCache option \<Rightarrow> byte list \<Rightarrow> nat \<Rightarrow> byte list \<Rightarrow>
     (bool option \<times> SinglePairObjectContainsCache option) result" where
  "try_cached_single_pair_object_contains env F fn_extra properties addr constraints =
     bindE (single_pair_shape properties constraints) (\<lambda>ok.
       if \<not> ok then Inr (None, fn_extra)
       else (case fn_extra of
               Some cache \<Rightarrow>
                 if spc_constraints cache = addr
                 then bindE (eval_single_pair_contains_constraint env F properties (spc_path cache) (spc_value cache)) (\<lambda>r. Inr (Some r, fn_extra))
                 else Inr (None, fn_extra)
             | None \<Rightarrow>
                 bindE (parse_single_pair_contains_constraint env F constraints) (\<lambda>parsed.
                   case parsed of
                     None \<Rightarrow> Inr (None, None)
                   | Some (path, value) \<Rightarrow>
                       bindE (eval_single_pair_contains_constraint env F properties path value) (\<lambda>r.
                         Inr (Some r, Some \<lparr>spc_constraints = addr, spc_path = path, spc_value = value\<rparr>)))))"

text \<open>The operator \<open>@>\<close>. A null argument is \<open>None\<close>; \<open>addr\<close> is the address of the container of the constraint.\<close>

definition agtype_contains ::
    "pg_env \<Rightarrow> nat \<Rightarrow> SinglePairObjectContainsCache option \<Rightarrow> byte list option \<Rightarrow> nat \<Rightarrow> byte list option \<Rightarrow>
     (bool \<times> SinglePairObjectContainsCache option) result" where
  "agtype_contains env F fn_extra properties addr constraints =
     (case (properties, constraints) of
        (Some p, Some c) \<Rightarrow>
          bindE (get_entity_properties_container_no_copy env F p False) (\<lambda>pc0.
          bindE (get_entity_properties_container_no_copy env F c False) (\<lambda>cc0.
            case (pc0, cc0) of
              (Some pc, Some cc) \<Rightarrow>
                bindE (AGT_ROOT_IS_OBJECT pc) (\<lambda>op. bindE (AGT_ROOT_IS_OBJECT cc) (\<lambda>oc.
                  if op \<noteq> oc then Inr (False, fn_extra)
                  else bindE (try_cached_single_pair_object_contains env F fn_extra pc addr cc) (\<lambda>(cached, fn_extra').
                    case cached of
                      Some result \<Rightarrow> Inr (result, fn_extra')
                    | None \<Rightarrow>
                        bindE (try_single_pair_object_contains env F pc cc) (\<lambda>r.
                          case r of
                            Some result \<Rightarrow> Inr (result, fn_extra')
                          | None \<Rightarrow> bindE (agtype_deep_contains env F pc cc False) (\<lambda>result. Inr (result, fn_extra'))))))
            | _ \<Rightarrow> Inr (False, fn_extra)))
      | _ \<Rightarrow> Inr (False, fn_extra))"

text \<open>The other three operators: \<open><@\<close> and \<open><<@\<close> swap the sides and do not compare the kinds first.\<close>

definition agtype_contains_top_level :: "pg_env \<Rightarrow> nat \<Rightarrow> byte list option \<Rightarrow> byte list option \<Rightarrow> bool result" where
  "agtype_contains_top_level env F properties constraints =
     (case (properties, constraints) of
        (Some p, Some c) \<Rightarrow>
          bindE (get_entity_properties_container_no_copy env F p False) (\<lambda>pc0.
          bindE (get_entity_properties_container_no_copy env F c False) (\<lambda>cc0.
            case (pc0, cc0) of
              (Some pc, Some cc) \<Rightarrow>
                bindE (AGT_ROOT_IS_OBJECT pc) (\<lambda>op. bindE (AGT_ROOT_IS_OBJECT cc) (\<lambda>oc.
                  if op \<noteq> oc then Inr False else agtype_deep_contains env F pc cc True))
            | _ \<Rightarrow> Inr False))
      | _ \<Rightarrow> Inr False)"

definition contained_by :: "pg_env \<Rightarrow> nat \<Rightarrow> bool \<Rightarrow> byte list option \<Rightarrow> byte list option \<Rightarrow> bool result" where
  "contained_by env F skip_nested properties constraints =
     (case (properties, constraints) of
        (Some p, Some c) \<Rightarrow>
          bindE (get_entity_properties_container_no_copy env F p False) (\<lambda>pc0.
          bindE (get_entity_properties_container_no_copy env F c False) (\<lambda>cc0.
            case (pc0, cc0) of
              (Some pc, Some cc) \<Rightarrow> agtype_deep_contains env F cc pc skip_nested
            | _ \<Rightarrow> Inr False))
      | _ \<Rightarrow> Inr False)"

definition agtype_contained_by :: "pg_env \<Rightarrow> nat \<Rightarrow> byte list option \<Rightarrow> byte list option \<Rightarrow> bool result" where
  "agtype_contained_by env F = contained_by env F False"

definition agtype_contained_by_top_level :: "pg_env \<Rightarrow> nat \<Rightarrow> byte list option \<Rightarrow> byte list option \<Rightarrow> bool result" where
  "agtype_contained_by_top_level env F = contained_by env F True"

end
