(* ===== verification/Agtype_Lex.thy ===== *)
theory Agtype_Lex
  imports Age_Prelude
begin

text \<open>
  The lexer of agtype text (\<open>src/backend/utils/adt/agtype_parser.c\<close>): white space, punctuation,
  numbers, strings with their escapes, and words; and \<open>escape_agtype\<close> of
  \<open>src/backend/utils/adt/agtype.c\<close>, which prints strings. A position is an index into the input;
  \<open>lx_after\<close> is what lies in memory behind the input (a terminating zero byte for a C string,
  nothing for the payload of a \<open>text\<close> datum).
\<close>

subsection \<open>Character classes\<close>

definition ch_space :: byte where "ch_space = 32"
definition ch_tab :: byte where "ch_tab = 9"
definition ch_nl :: byte where "ch_nl = 10"
definition ch_cr :: byte where "ch_cr = 13"
definition ch_bs :: byte where "ch_bs = 8"
definition ch_ff :: byte where "ch_ff = 12"
definition ch_quote :: byte where "ch_quote = 34"
definition ch_backslash :: byte where "ch_backslash = 92"
definition ch_slash :: byte where "ch_slash = 47"
definition ch_minus :: byte where "ch_minus = 45"
definition ch_plus :: byte where "ch_plus = 43"
definition ch_dot :: byte where "ch_dot = 46"
definition ch_0 :: byte where "ch_0 = 48"

lemmas ch_defs = ch_space_def ch_tab_def ch_nl_def ch_cr_def ch_bs_def ch_ff_def ch_quote_def ch_backslash_def
  ch_slash_def ch_minus_def ch_plus_def ch_dot_def ch_0_def

definition is_ws :: "byte \<Rightarrow> bool" where
  "is_ws c \<longleftrightarrow> c = ch_space \<or> c = ch_tab \<or> c = ch_nl \<or> c = ch_cr"

definition is_digit :: "byte \<Rightarrow> bool" where
  "is_digit c \<longleftrightarrow> 48 \<le> c \<and> c \<le> 57"

definition is_digit19 :: "byte \<Rightarrow> bool" where
  "is_digit19 c \<longleftrightarrow> 49 \<le> c \<and> c \<le> 57"

definition is_letter :: "byte \<Rightarrow> bool" where
  "is_letter c \<longleftrightarrow> 97 \<le> c \<and> c \<le> 122 \<or> 65 \<le> c \<and> c \<le> 90"

definition AGTYPE_ALPHANUMERIC_CHAR :: "byte \<Rightarrow> bool" where
  "AGTYPE_ALPHANUMERIC_CHAR c \<longleftrightarrow> is_letter c \<or> is_digit c \<or> c = 95 \<or> 128 \<le> c"

subsection \<open>Numbers\<close>

text \<open>\<open>agtype_lex_number\<close>: each part advances over the remaining input; the result is the number of
  bytes consumed, whether a decimal point or exponent was seen, and the error flag.\<close>

definition lex_digits :: "byte list \<Rightarrow> nat" where
  "lex_digits s = length (takeWhile is_digit s)"

definition num_part2 :: "byte list \<Rightarrow> nat \<times> bool" where
  "num_part2 s =
     (case s of
        [] \<Rightarrow> (0, True)
      | c # cs \<Rightarrow> if c = ch_0 then (1, False)
                   else if is_digit19 c then (1 + lex_digits cs, False) else (0, True))"

definition num_part3 :: "byte list \<Rightarrow> nat \<times> bool \<times> bool" where
  "num_part3 s =
     (case s of
        c # cs \<Rightarrow> if c = ch_dot
                   then (case cs of
                           [] \<Rightarrow> (1, True, True)
                         | d # _ \<Rightarrow> if is_digit d then (1 + lex_digits cs, True, False) else (1, True, True))
                   else (0, False, False)
      | [] \<Rightarrow> (0, False, False))"

definition num_part4 :: "byte list \<Rightarrow> nat \<times> bool \<times> bool" where
  "num_part4 s =
     (case s of
        c # cs \<Rightarrow> if c = 101 \<or> c = 69
                   then let (n, ds) = (case cs of d # ds \<Rightarrow> if d = ch_plus \<or> d = ch_minus then (2, ds) else (1, cs) | [] \<Rightarrow> (1, cs))
                        in (case ds of
                              [] \<Rightarrow> (n, True, True)
                            | d # _ \<Rightarrow> if is_digit d then (n + lex_digits ds, True, False) else (n, True, True))
                   else (0, False, False)
      | [] \<Rightarrow> (0, False, False))"

definition agtype_lex_number :: "byte list \<Rightarrow> nat \<times> bool \<times> bool" where
  "agtype_lex_number s =
     (let (n2, e2) = num_part2 s;
          s3 = drop n2 s; (n3, f3, e3) = num_part3 s3;
          s4 = drop n3 s3; (n4, f4, e4) = num_part4 s4;
          s5 = drop n4 s4; n5 = length (takeWhile AGTYPE_ALPHANUMERIC_CHAR s5)
      in (n2 + n3 + n4 + n5, f3 \<or> f4, e2 \<or> e3 \<or> e4 \<or> n5 > 0))"

definition is_valid_agtype_number :: "byte list \<Rightarrow> bool" where
  "is_valid_agtype_number str =
     (if str = [] then False
      else let s = (if hd str = ch_minus then tl str else str);
               (total_len, _, numeric_error) = agtype_lex_number s
           in \<not> numeric_error \<and> total_len = length s)"

subsection \<open>Strings\<close>

text \<open>What the server provides: whether the database encoding is UTF-8, the encoder of one code point
  (\<open>unicode_to_utf8\<close> with \<open>pg_utf_mblen\<close>), \<open>pg_strncasecmp(s, t, len) == 0\<close>, and whether
  \<open>check_stack_depth\<close> passes when the parser is that deeply nested.\<close>

record pg_text =
  db_is_utf8 :: bool
  unicode_to_utf8 :: "nat \<Rightarrow> byte list"
  pg_strncase_eq :: "byte list \<Rightarrow> byte list \<Rightarrow> bool"
  pg_stack_ok :: "int \<Rightarrow> bool"

definition err_token :: age_error where "err_token = Ereport ''Token is invalid.''"
definition err_low_surrogate :: age_error where
  "err_low_surrogate = Ereport ''Unicode low surrogate must follow a high surrogate.''"

definition hex_value :: "byte \<Rightarrow> nat option" where
  "hex_value c =
     (if is_digit c then Some (unat c - 48)
      else if 97 \<le> c \<and> c \<le> 102 then Some (unat c - 97 + 10)
      else if 65 \<le> c \<and> c \<le> 70 then Some (unat c - 65 + 10)
      else None)"

text \<open>The four hexadecimal digits after \<open>\u\<close>.\<close>

fun lex_hex :: "nat \<Rightarrow> nat \<Rightarrow> byte list \<Rightarrow> (nat \<times> byte list) result" where
  "lex_hex 0 ch s = Inr (ch, s)"
| "lex_hex (Suc n) ch [] = Inl err_token"
| "lex_hex (Suc n) ch (c # s) =
     (case hex_value c of
        Some d \<Rightarrow> lex_hex n (ch * 16 + d) s
      | None \<Rightarrow> Inl (Ereport ''must be followed by four hexadecimal digits.''))"

text \<open>A code point from an escape: surrogates are combined, the rest is appended to \<open>strval\<close>. The
  result is the new \<open>strval\<close> and the pending high surrogate.\<close>

definition lex_unicode :: "pg_text \<Rightarrow> nat \<Rightarrow> byte list \<Rightarrow> nat option \<Rightarrow> (byte list \<times> nat option) result" where
  "lex_unicode tx ch sv hi =
     (if 0xd800 \<le> ch \<and> ch \<le> 0xdbff then
        (case hi of Some _ \<Rightarrow> Inl (Ereport ''Unicode high surrogate must not follow a high surrogate.'')
         | None \<Rightarrow> Inr (sv, Some ((ch mod 0x400) * 0x400)))
      else
        bindE (if 0xdc00 \<le> ch \<and> ch \<le> 0xdfff
               then (case hi of None \<Rightarrow> Inl err_low_surrogate | Some h \<Rightarrow> Inr (0x10000 + h + ch mod 0x400))
               else (case hi of None \<Rightarrow> Inr ch | Some _ \<Rightarrow> Inl err_low_surrogate))
          (\<lambda>cp. if cp = 0 then Inl (Ereport ''unsupported Unicode escape sequence'')
                else if db_is_utf8 tx then Inr (sv @ unicode_to_utf8 tx cp, None)
                else if cp \<le> 0x7f then Inr (sv @ [of_nat cp], None)
                else Inl (Ereport ''unsupported Unicode escape sequence'')))"

definition simple_escape :: "byte \<Rightarrow> byte option" where
  "simple_escape c =
     (if c = ch_quote \<or> c = ch_backslash \<or> c = ch_slash then Some c
      else if c = 98 then Some ch_bs
      else if c = 102 then Some ch_ff
      else if c = 110 then Some ch_nl
      else if c = 114 then Some ch_cr
      else if c = 116 then Some ch_tab
      else None)"

definition err_escape :: age_error where "err_escape = Ereport ''Escape sequence is invalid.''"

text \<open>\<open>agtype_lex_string\<close> from the byte after the opening quote: \<open>sv\<close> is \<open>strval\<close> (\<open>None\<close> when the
  caller does not want de-escaping) and \<open>hi\<close> the pending high surrogate. The result is the input
  after the closing quote and the final \<open>strval\<close>.\<close>

function agtype_lex_string :: "pg_text \<Rightarrow> byte list \<Rightarrow> byte list option \<Rightarrow> nat option \<Rightarrow> (byte list \<times> byte list option) result" where
  "agtype_lex_string tx s sv hi =
     (case s of
        [] \<Rightarrow> Inl err_token
      | c # cs \<Rightarrow>
          if c = ch_quote then (case hi of None \<Rightarrow> Inr (cs, sv) | Some _ \<Rightarrow> Inl err_low_surrogate)
          else if c < 32 then Inl (Ereport ''Character must be escaped.'')
          else if c = ch_backslash then
            (case cs of
               [] \<Rightarrow> Inl err_token
             | e # es \<Rightarrow>
                 if e = 117 then
                   bindE (lex_hex 4 0 es) (\<lambda>(ch, rest).
                     if length rest \<le> length es then
                       (case sv of
                          None \<Rightarrow> agtype_lex_string tx rest None hi
                        | Some v \<Rightarrow> bindE (lex_unicode tx ch v hi) (\<lambda>(v', hi'). agtype_lex_string tx rest (Some v') hi'))
                     else Inl BadAccess)
                 else
                   (case sv of
                      None \<Rightarrow> if simple_escape e = None \<and> e \<noteq> 0 then Inl err_escape
                              else agtype_lex_string tx es None hi
                    | Some v \<Rightarrow>
                        (case hi of Some _ \<Rightarrow> Inl err_low_surrogate
                         | None \<Rightarrow> (case simple_escape e of
                             None \<Rightarrow> Inl err_escape
                           | Some d \<Rightarrow> agtype_lex_string tx es (Some (v @ [d])) hi))))
          else (case sv of
                  None \<Rightarrow> agtype_lex_string tx cs None hi
                | Some v \<Rightarrow> (case hi of Some _ \<Rightarrow> Inl err_low_surrogate
                    | None \<Rightarrow> agtype_lex_string tx cs (Some (v @ [c])) hi)))"
  by pat_completeness auto
termination by (relation "measure (\<lambda>(tx, s, sv, hi). length s)") auto

declare agtype_lex_string.simps [simp del]

subsection \<open>Tokens\<close>

datatype agtype_token_type =
    AGTYPE_TOKEN_INVALID | AGTYPE_TOKEN_STRING | AGTYPE_TOKEN_INTEGER | AGTYPE_TOKEN_FLOAT | AGTYPE_TOKEN_NUMERIC
  | AGTYPE_TOKEN_OBJECT_START | AGTYPE_TOKEN_OBJECT_END | AGTYPE_TOKEN_ARRAY_START | AGTYPE_TOKEN_ARRAY_END
  | AGTYPE_TOKEN_COMMA | AGTYPE_TOKEN_COLON | AGTYPE_TOKEN_ANNOTATION | AGTYPE_TOKEN_IDENTIFIER
  | AGTYPE_TOKEN_TRUE | AGTYPE_TOKEN_FALSE | AGTYPE_TOKEN_NULL | AGTYPE_TOKEN_END

text \<open>\<open>lx_rest\<close> is the input from \<open>token_terminator\<close> on; \<open>lx_token\<close> is the text of the current token
  (from \<open>token_start\<close> to \<open>token_terminator\<close>), \<open>None\<close> at the end of the input.\<close>

record agtype_lex_context =
  lx_rest :: "byte list"
  lx_after :: "byte list"
  lx_token :: "byte list option"
  token_type :: agtype_token_type
  lex_level :: int
  line_number :: nat
  strval :: "byte list option"

definition make_agtype_lex_context_cstring_len :: "byte list \<Rightarrow> byte list \<Rightarrow> bool \<Rightarrow> agtype_lex_context" where
  "make_agtype_lex_context_cstring_len str after need_escapes =
     \<lparr>lx_rest = str, lx_after = after, lx_token = None, token_type = AGTYPE_TOKEN_INVALID, lex_level = 0,
      line_number = 1, strval = (if need_escapes then Some [] else None)\<rparr>"

text \<open>The token is the first \<open>n\<close> bytes of \<open>s\<close>.\<close>

definition set_token :: "agtype_lex_context \<Rightarrow> byte list \<Rightarrow> nat \<Rightarrow> agtype_token_type \<Rightarrow> agtype_lex_context" where
  "set_token lx s n t = lx\<lparr>lx_rest := drop n s, lx_token := Some (take n s), token_type := t\<rparr>"

definition lex_number_token :: "agtype_lex_context \<Rightarrow> byte list \<Rightarrow> nat \<Rightarrow> agtype_lex_context result" where
  "lex_number_token lx s skip =
     (let (n, is_float, error) = agtype_lex_number (drop skip s)
      in if error then Inl err_token
         else Inr (set_token lx s (skip + n) (if is_float then AGTYPE_TOKEN_FLOAT else AGTYPE_TOKEN_INTEGER)))"

definition str_inf :: "byte list" where "str_inf = [105, 110, 102]"
definition str_Infinity :: "byte list" where "str_Infinity = [73, 110, 102, 105, 110, 105, 116, 121]"
definition str_NaN :: "byte list" where "str_NaN = [78, 97, 78]"
definition str_true :: "byte list" where "str_true = [116, 114, 117, 101]"
definition str_false :: "byte list" where "str_false = [102, 97, 108, 115, 101]"
definition str_null :: "byte list" where "str_null = [110, 117, 108, 108]"

text \<open>The type of a word.\<close>

definition word_type :: "pg_text \<Rightarrow> byte list \<Rightarrow> agtype_token_type" where
  "word_type tx w =
     (if length w = 3 \<and> (pg_strncase_eq tx w str_NaN \<or> pg_strncase_eq tx w str_inf) then AGTYPE_TOKEN_FLOAT
      else if length w = 4 \<and> w = str_true then AGTYPE_TOKEN_TRUE
      else if length w = 4 \<and> w = str_null then AGTYPE_TOKEN_NULL
      else if length w = 5 \<and> w = str_false then AGTYPE_TOKEN_FALSE
      else if length w = 8 \<and> pg_strncase_eq tx w str_Infinity then AGTYPE_TOKEN_FLOAT
      else AGTYPE_TOKEN_IDENTIFIER)"

text \<open>The byte at \<open>s + 1\<close>, which is read without comparing the position with the input length.\<close>

definition byte_after :: "agtype_lex_context \<Rightarrow> byte list \<Rightarrow> byte result" where
  "byte_after lx s = (case drop 1 s @ lx_after lx of [] \<Rightarrow> Inl BadAccess | c # _ \<Rightarrow> Inr c)"

definition agtype_lex :: "pg_text \<Rightarrow> agtype_lex_context \<Rightarrow> agtype_lex_context result" where
  "agtype_lex tx lx0 =
     (let ws = takeWhile is_ws (lx_rest lx0);
          s = drop (length ws) (lx_rest lx0);
          lx = lx0\<lparr>line_number := line_number lx0 + length (filter (\<lambda>c. c = ch_nl) ws)\<rparr>
      in case s of
           [] \<Rightarrow> Inr (lx\<lparr>lx_rest := [], lx_token := None, token_type := AGTYPE_TOKEN_END\<rparr>)
         | c # cs \<Rightarrow>
             if c = 123 then Inr (set_token lx s 1 AGTYPE_TOKEN_OBJECT_START)
             else if c = 125 then Inr (set_token lx s 1 AGTYPE_TOKEN_OBJECT_END)
             else if c = 91 then Inr (set_token lx s 1 AGTYPE_TOKEN_ARRAY_START)
             else if c = 93 then Inr (set_token lx s 1 AGTYPE_TOKEN_ARRAY_END)
             else if c = 44 then Inr (set_token lx s 1 AGTYPE_TOKEN_COMMA)
             else if c = 58 then
               (if cs \<noteq> [] \<and> hd cs = 58 then Inr (set_token lx s 2 AGTYPE_TOKEN_ANNOTATION)
                else Inr (set_token lx s 1 AGTYPE_TOKEN_COLON))
             else if c = ch_quote then
               bindE (agtype_lex_string tx cs (map_option (\<lambda>_. []) (strval lx)) None) (\<lambda>(rest, sv).
                 Inr ((set_token lx s (length s - length rest) AGTYPE_TOKEN_STRING)\<lparr>strval := sv\<rparr>))
             else if c = ch_minus then
               bindE (byte_after lx s) (\<lambda>d.
                 if d = 105 \<or> d = 73 then
                   (let w = takeWhile is_letter cs
                    in if length w = 3 \<and> pg_strncase_eq tx w str_inf \<or> length w = 8 \<and> pg_strncase_eq tx w str_Infinity
                       then Inr (set_token lx s (1 + length w) AGTYPE_TOKEN_FLOAT)
                       else Inl err_token)
                 else lex_number_token lx s 1)
             else if is_digit c then lex_number_token lx s 0
             else (let w = takeWhile AGTYPE_ALPHANUMERIC_CHAR s
                   in if w = [] then Inl err_token else Inr (set_token lx s (length w) (word_type tx w))))"

subsection \<open>Printing strings\<close>

definition hex_digit :: "nat \<Rightarrow> byte" where
  "hex_digit n = (if n < 10 then of_nat (48 + n) else of_nat (87 + n))"

definition escape_char :: "byte \<Rightarrow> byte list" where
  "escape_char c =
     (if c = ch_bs then [ch_backslash, 98]
      else if c = ch_ff then [ch_backslash, 102]
      else if c = ch_nl then [ch_backslash, 110]
      else if c = ch_cr then [ch_backslash, 114]
      else if c = ch_tab then [ch_backslash, 116]
      else if c = ch_quote then [ch_backslash, ch_quote]
      else if c = ch_backslash then [ch_backslash, ch_backslash]
      else if c < 32 then [ch_backslash, 117, 48, 48, hex_digit (unat c div 16), hex_digit (unat c mod 16)]
      else [c])"

definition escape_agtype :: "byte list \<Rightarrow> byte list \<Rightarrow> byte list" where
  "escape_agtype buf str = buf @ [ch_quote] @ concat (map escape_char str) @ [ch_quote]"

definition is_decimal_needed_len :: "byte list \<Rightarrow> bool" where
  "is_decimal_needed_len numstr =
     (let s = (case numstr of c # cs \<Rightarrow> if c = ch_minus then cs else numstr | [] \<Rightarrow> []) in list_all is_digit s)"

end
