(* ===== verification/Agtype_Text.thy ===== *)
theory Agtype_Text
  imports Agtype_Lex
begin

text \<open>
  What the lexer promises: the numbers it accepts are those of the grammar in the comment before
  \<open>agtype_lex_number\<close>, it undoes \<open>escape_agtype\<close>, and every token it returns is a non-empty piece of
  the input.
\<close>

subsection \<open>The number grammar\<close>

text \<open>Parts (2), (3) and (4) of the comment before \<open>agtype_lex_number\<close>.\<close>

definition int_part :: "byte list \<Rightarrow> bool" where
  "int_part s \<longleftrightarrow> s = [ch_0] \<or> (\<exists>d ds. s = d # ds \<and> is_digit19 d \<and> (\<forall>c \<in> set ds. is_digit c))"

definition digits1 :: "byte list \<Rightarrow> bool" where
  "digits1 s \<longleftrightarrow> s \<noteq> [] \<and> (\<forall>c \<in> set s. is_digit c)"

definition frac_part :: "byte list \<Rightarrow> bool" where
  "frac_part s \<longleftrightarrow> s = [] \<or> (\<exists>ds. s = ch_dot # ds \<and> digits1 ds)"

definition exp_part :: "byte list \<Rightarrow> bool" where
  "exp_part s \<longleftrightarrow> s = [] \<or>
     (\<exists>e sign ds. s = e # sign @ ds \<and> (e = 101 \<or> e = 69) \<and> sign \<in> {[], [ch_plus], [ch_minus]} \<and> digits1 ds)"

definition agtype_number :: "byte list \<Rightarrow> bool" where
  "agtype_number s \<longleftrightarrow>
     (\<exists>m i f x. s = m @ i @ f @ x \<and> m \<in> {[], [ch_minus]} \<and> int_part i \<and> frac_part f \<and> exp_part x)"

lemma digit_not_punct:
  "is_digit c \<Longrightarrow> c \<noteq> ch_dot \<and> c \<noteq> 101 \<and> c \<noteq> 69 \<and> c \<noteq> ch_plus \<and> c \<noteq> ch_minus"
  by (auto simp: is_digit_def ch_defs)

lemma digit19_digit: "is_digit19 c \<Longrightarrow> is_digit c \<and> c \<noteq> ch_0"
  using order_trans [of 48 49 c] by (auto simp: is_digit_def is_digit19_def ch_defs)

lemma digit_alnum: "is_digit c \<Longrightarrow> AGTYPE_ALPHANUMERIC_CHAR c"
  by (simp add: AGTYPE_ALPHANUMERIC_CHAR_def)

lemma punct_not_digit [simp]: "\<not> is_digit ch_dot" "\<not> is_digit 101" "\<not> is_digit 69" "\<not> is_digit ch_plus" "\<not> is_digit ch_minus"
  by (simp_all add: is_digit_def ch_defs)

lemma lex_digits_append:
  "\<forall>c \<in> set ds. is_digit c \<Longrightarrow> rest = [] \<or> \<not> is_digit (hd rest) \<Longrightarrow> lex_digits (ds @ rest) = length ds"
  unfolding lex_digits_def by (cases rest) (simp_all add: takeWhile_append2 takeWhile_eq_all_conv [THEN iffD2])

text \<open>What a part may be followed by for it to end where the lexer ends it.\<close>

definition stops :: "byte list \<Rightarrow> bool" where
  "stops rest \<longleftrightarrow> rest = [] \<or> \<not> AGTYPE_ALPHANUMERIC_CHAR (hd rest)"

lemma stops_Nil [simp]: "stops []" by (simp add: stops_def)

lemma stops_no_digit: "stops rest \<Longrightarrow> rest = [] \<or> \<not> is_digit (hd rest)"
  unfolding stops_def using digit_alnum by blast

lemma stops_no_exp: "stops rest \<Longrightarrow> rest = [] \<or> hd rest \<noteq> 101 \<and> hd rest \<noteq> 69"
  by (auto simp: stops_def AGTYPE_ALPHANUMERIC_CHAR_def is_letter_def)

lemma num_part2_ok:
  "int_part i \<Longrightarrow> i = [ch_0] \<or> rest = [] \<or> \<not> is_digit (hd rest) \<Longrightarrow> num_part2 (i @ rest) = (length i, False)"
  unfolding int_part_def num_part2_def
  by (elim disjE exE conjE) (simp_all add: lex_digits_append digit19_digit lex_digits_append [where rest = "[]", simplified])

lemma num_part3_ok:
  assumes "frac_part f" "rest = [] \<or> \<not> is_digit (hd rest)" "rest = [] \<or> hd rest \<noteq> ch_dot"
  shows "num_part3 (f @ rest) = (length f, f \<noteq> [], False)"
proof (cases "f = []")
  case True
  with assms(3) show ?thesis by (cases rest) (simp_all add: num_part3_def)
next
  case False
  with assms(1) obtain d ds where f: "f = ch_dot # d # ds" "\<forall>c \<in> set (d # ds). is_digit c"
    by (auto simp: frac_part_def digits1_def neq_Nil_conv)
  with lex_digits_append [OF f(2) assms(2)] show ?thesis by (simp add: num_part3_def)
qed

lemma num_part4_ok:
  assumes "exp_part x" "stops rest"
  shows "num_part4 (x @ rest) = (length x, x \<noteq> [], False)"
proof (cases "x = []")
  case True
  with stops_no_exp [OF assms(2)] show ?thesis by (cases rest) (simp_all add: num_part4_def)
next
  case False
  with assms(1) obtain e sign d ds where x: "x = e # sign @ d # ds" "e = 101 \<or> e = 69"
      "sign \<in> {[], [ch_plus], [ch_minus]}" and ds: "\<forall>c \<in> set (d # ds). is_digit c"
    unfolding exp_part_def digits1_def by (metis list.exhaust)
  with lex_digits_append [OF ds stops_no_digit [OF assms(2)]] digit_not_punct [of d] show ?thesis
    by (auto simp: num_part4_def)
qed

lemma agtype_lex_number_ok:
  assumes "int_part i" "frac_part f" "exp_part x" "stops rest" "rest = [] \<or> hd rest \<noteq> ch_dot"
  shows "agtype_lex_number (i @ f @ x @ rest) = (length (i @ f @ x), f \<noteq> [] \<or> x \<noteq> [], False)"
proof -
  have xr: "x @ rest = [] \<or> \<not> is_digit (hd (x @ rest))"
    using assms(3) stops_no_digit [OF assms(4)] by (cases "x = []") (auto simp: exp_part_def)
  have xd: "x @ rest = [] \<or> hd (x @ rest) \<noteq> ch_dot"
    using assms(3,5) by (cases "x = []") (auto simp: exp_part_def ch_defs)
  have fr: "f @ x @ rest = [] \<or> \<not> is_digit (hd (f @ x @ rest))"
    using assms(2) xr by (cases "f = []") (auto simp: frac_part_def)
  have "takeWhile AGTYPE_ALPHANUMERIC_CHAR rest = []"
    using assms(4) by (cases rest) (simp_all add: stops_def)
  then show ?thesis
    using num_part2_ok [OF assms(1) disjI2 [OF fr]] num_part3_ok [OF assms(2) xr xd] num_part4_ok [OF assms(3,4)]
    by (simp add: agtype_lex_number_def)
qed

lemma lex_digits_take: "\<forall>c \<in> set (take (lex_digits s) s). is_digit c"
  unfolding lex_digits_def by (metis set_takeWhileD takeWhile_eq_take)

lemma num_part2D: "num_part2 s = (n, False) \<Longrightarrow> int_part (take n s)"
  using lex_digits_take [of "tl s"]
  by (cases s) (auto simp: num_part2_def int_part_def split: if_splits)

lemma digits1_take:
  assumes "s \<noteq> []" "is_digit (hd s)"
  shows "digits1 (take (lex_digits s) s)"
proof -
  have "lex_digits s > 0" using assms by (cases s) (simp_all add: lex_digits_def)
  with assms(1) lex_digits_take [of s] show ?thesis by (simp add: digits1_def)
qed

lemma num_part3D:
  assumes "num_part3 s = (n, b, False)"
  shows "frac_part (take n s)"
proof (cases "\<exists>d cs. s = ch_dot # d # cs \<and> is_digit d")
  case True
  then obtain d cs where s: "s = ch_dot # d # cs" "is_digit d" by blast
  with assms have "n = Suc (lex_digits (d # cs))" by (simp add: num_part3_def)
  with s digits1_take [of "d # cs"] show ?thesis by (simp add: frac_part_def)
next
  case False
  with assms have "n = 0" by (simp add: num_part3_def split: list.splits if_splits)
  then show ?thesis by (simp add: frac_part_def)
qed

lemma num_part4D:
  assumes "num_part4 s = (n, b, False)"
  shows "exp_part (take n s)"
proof (cases "\<exists>e sign ds. s = e # sign @ ds \<and> (e = 101 \<or> e = 69) \<and> sign \<in> {[], [ch_plus], [ch_minus]} \<and>
    ds \<noteq> [] \<and> is_digit (hd ds)")
  case True
  then obtain e sign d ds where s: "s = e # sign @ d # ds" "e = 101 \<or> e = 69" "sign \<in> {[], [ch_plus], [ch_minus]}" "is_digit d"
    by (metis list.exhaust list.sel(1))
  with assms digit_not_punct [of d] have n: "n = Suc (length sign + lex_digits (d # ds))"
    by (auto simp: num_part4_def)
  have "take n s = e # sign @ take (lex_digits (d # ds)) (d # ds)"
    unfolding n s(1) by simp
  then show ?thesis
    unfolding exp_part_def using s(2-4) digits1_take [of "d # ds"] by auto
next
  case False
  have "n = 0"
  proof (cases s)
    case Nil
    with assms show ?thesis by (simp add: num_part4_def)
  next
    case (Cons c cs)
    have no: "\<not> is_digit (hd ds)" if "c = 101 \<or> c = 69" "cs = sign @ ds" "ds \<noteq> []" "sign \<in> {[], [ch_plus], [ch_minus]}" for sign ds
      using False Cons that by blast
    show ?thesis
      using assms Cons no [of "[]" cs] no [of "[hd cs]" "tl cs"]
      by (cases cs; cases "tl cs") (auto simp: num_part4_def split: if_splits)
  qed
  then show ?thesis by (simp add: exp_part_def)
qed

lemma agtype_lex_numberD:
  assumes "agtype_lex_number s = (n, b, False)"
  shows "\<exists>i f x. take n s = i @ f @ x \<and> int_part i \<and> frac_part f \<and> exp_part x"
proof -
  obtain n2 e2 where p2: "num_part2 s = (n2, e2)" by (rule prod.exhaust)
  obtain n3 f3 e3 where p3: "num_part3 (drop n2 s) = (n3, f3, e3)" by (rule prod_cases3)
  obtain n4 f4 e4 where p4: "num_part4 (drop n3 (drop n2 s)) = (n4, f4, e4)" by (rule prod_cases3)
  have n: "n = n2 + n3 + n4" "\<not> e2" "\<not> e3" "\<not> e4"
    using assms unfolding agtype_lex_number_def Let_def p2 p3 p4 prod.case by auto
  have t: "take n s = take n2 s @ take n3 (drop n2 s) @ take n4 (drop n3 (drop n2 s))"
    by (simp add: n(1) take_add add.assoc)
  have i: "int_part (take n2 s)" using p2 n(2) by (simp add: num_part2D)
  have f: "frac_part (take n3 (drop n2 s))" using p3 n(3) by (simp add: num_part3D)
  have x: "exp_part (take n4 (drop n3 (drop n2 s)))" using p4 n(4) by (simp add: num_part4D)
  show ?thesis using t i f x by blast
qed

lemma int_part_hd: "int_part i \<Longrightarrow> i \<noteq> [] \<and> hd i \<noteq> ch_minus"
  unfolding int_part_def by (auto dest: digit19_digit simp: ch_defs is_digit_def)

text \<open>C26: \<open>is_valid_agtype_number\<close> accepts exactly the strings of the number grammar: an optional
  minus sign; a single 0 or digits that do not begin with 0; an optional point with at least one
  digit; an optional exponent with an optional sign and at least one digit.\<close>

theorem is_valid_agtype_number_iff: "is_valid_agtype_number str \<longleftrightarrow> agtype_number str"
proof (cases "str = []")
  case True
  then show ?thesis using int_part_hd by (auto simp: is_valid_agtype_number_def agtype_number_def)
next
  case False
  define m where "m = (if hd str = ch_minus then [ch_minus] else [])"
  define s where "s = (if hd str = ch_minus then tl str else str)"
  have str: "str = m @ s" "m \<in> {[], [ch_minus]}"
    using False by (cases str; simp add: m_def s_def)+
  have valid: "is_valid_agtype_number str \<longleftrightarrow> (\<exists>b. agtype_lex_number s = (length s, b, False))"
    using False by (auto simp: is_valid_agtype_number_def s_def [symmetric] Let_def split: prod.splits)
  have "(\<exists>b. agtype_lex_number s = (length s, b, False)) \<longleftrightarrow>
      (\<exists>i f x. s = i @ f @ x \<and> int_part i \<and> frac_part f \<and> exp_part x)" (is "_ \<longleftrightarrow> ?g s")
    using agtype_lex_numberD [of s "length s"] agtype_lex_number_ok [where rest = "[]"] by fastforce
  moreover have "?g s \<longleftrightarrow> agtype_number str"
  proof
    show "?g s \<Longrightarrow> agtype_number str" using str unfolding agtype_number_def by blast
  next
    assume "agtype_number str"
    then obtain m' i f x where g: "str = m' @ i @ f @ x" "m' \<in> {[], [ch_minus]}"
        "int_part i" "frac_part f" "exp_part x"
      unfolding agtype_number_def by blast
    then have "s = i @ f @ x" using int_part_hd [OF g(3)] by (auto simp: s_def)
    with g(3-5) show "?g s" by blast
  qed
  ultimately show ?thesis using valid by simp
qed

subsection \<open>Strings\<close>

text \<open>What the code relies on: UTF-8 encodes an ASCII code point as itself.\<close>

definition utf8_ascii :: "pg_text \<Rightarrow> bool" where
  "utf8_ascii tx \<longleftrightarrow> (db_is_utf8 tx \<longrightarrow> (\<forall>cp < 128. unicode_to_utf8 tx cp = [of_nat cp]))"

lemma hex_value_digit: "n < 16 \<Longrightarrow> hex_value (hex_digit n) = Some n"
proof -
  assume "n < 16"
  then have "n \<in> set [0..<16]" by simp
  moreover have "list_all (\<lambda>n. hex_value (hex_digit n) = Some n) [0..<16]"
    by code_simp
  ultimately show ?thesis by (auto simp: list_all_iff)
qed

lemma lex_hex_control:
  "unat c < 32 \<Longrightarrow> lex_hex 4 0 ([48, 48, hex_digit (unat c div 16), hex_digit (unat c mod 16)] @ s) = Inr (unat (c :: byte), s)"
proof -
  assume c: "unat c < 32"
  have "hex_value 48 = Some 0" by (simp add: hex_value_def is_digit_def)
  moreover have "hex_value (hex_digit (unat c div 16)) = Some (unat c div 16)" using c by (intro hex_value_digit) simp
  moreover have "hex_value (hex_digit (unat c mod 16)) = Some (unat c mod 16)" by (intro hex_value_digit) simp
  moreover have four: "(4 :: nat) = Suc (Suc (Suc (Suc 0)))" by simp
  ultimately show ?thesis unfolding four by simp
qed

lemma lex_unicode_control:
  assumes "utf8_ascii tx" "0 < unat c" "unat c < 32"
  shows "lex_unicode tx (unat (c :: byte)) v None = Inr (v @ [c], None)"
  using assms unfolding lex_unicode_def utf8_ascii_def by simp

lemma backslash_code: "ch_backslash \<noteq> ch_quote" "\<not> ch_backslash < 32"
  by (simp_all add: ch_defs)

lemma lex_string_escape_char:
  assumes "utf8_ascii tx" "c \<noteq> 0"
  shows "agtype_lex_string tx (escape_char c @ s) (Some v) None = agtype_lex_string tx s (Some (v @ [c])) None"
proof -
  consider (special) "c \<in> {ch_bs, ch_ff, ch_nl, ch_cr, ch_tab, ch_quote, ch_backslash}"
    | (control) "c \<notin> {ch_bs, ch_ff, ch_nl, ch_cr, ch_tab, ch_quote, ch_backslash}" "c < 32"
    | (plain) "c \<notin> {ch_bs, ch_ff, ch_nl, ch_cr, ch_tab, ch_quote, ch_backslash}" "\<not> c < 32"
    by blast
  then show ?thesis
  proof cases
    case special
    then obtain e where e: "escape_char c = [ch_backslash, e]" "simple_escape e = Some c" "e \<noteq> 117"
      unfolding insert_iff empty_iff
      by (elim disjE) (simp_all add: escape_char_def simple_escape_def ch_defs)
    show ?thesis unfolding e(1)
      by (subst agtype_lex_string.simps) (simp add: e(2,3) backslash_code)
  next
    case control
    have c: "0 < unat c" "unat c < 32" using assms(2) control(2) by (simp_all add: unat_gt_0 word_less_nat_alt)
    have esc: "escape_char c = [ch_backslash, 117, 48, 48, hex_digit (unat c div 16), hex_digit (unat c mod 16)]"
      using control by (simp add: escape_char_def)
    show ?thesis unfolding esc
      by (subst agtype_lex_string.simps)
        (simp add: backslash_code lex_hex_control [OF c(2), simplified] lex_unicode_control [OF assms(1) c])
  next
    case plain
    then show ?thesis
      by (subst agtype_lex_string.simps) (auto simp: escape_char_def)
  qed
qed

lemma lex_string_escaped:
  assumes "utf8_ascii tx" "0 \<notin> set str"
  shows "agtype_lex_string tx (concat (map escape_char str) @ ch_quote # rest) (Some v) None = Inr (rest, Some (v @ str))"
  using assms(2)
proof (induction str arbitrary: v)
  case Nil
  then show ?case by (subst agtype_lex_string.simps) simp
next
  case (Cons c str)
  then have "c \<noteq> 0" by simp
  from Cons lex_string_escape_char [OF assms(1) this] show ?case by simp
qed

lemma lex_hex_suffix: "lex_hex n ch s = Inr (ch', rest) \<Longrightarrow> \<exists>u. s = u @ rest"
  by (induction n ch s rule: lex_hex.induct) (auto split: option.splits)

lemma agtype_lex_string_rest:
  "agtype_lex_string tx s sv hi = Inr (rest, sv') \<Longrightarrow> \<exists>u. s = u @ rest \<and> u \<noteq> [] \<and> (sv' = None \<longleftrightarrow> sv = None)"
proof (induction "length s" arbitrary: s sv hi rule: less_induct)
  case less
  note once = less.prems [unfolded agtype_lex_string.simps [of tx s sv hi]]
  obtain c cs where s: "s = c # cs" and "\<not> (c \<noteq> ch_quote \<and> c < 32)"
    using once by (auto split: list.splits if_splits)
  then consider (quote) "c = ch_quote" | (esc) "c = ch_backslash" | (plain) "c \<noteq> ch_quote" "c \<noteq> ch_backslash" "\<not> c < 32"
    by blast
  then show ?case
  proof cases
    case quote
    with once s have "rest = cs \<and> sv' = sv" by (simp split: option.splits)
    with s show ?thesis by auto
  next
    case plain
    with once s obtain sv1 where "agtype_lex_string tx cs sv1 hi = Inr (rest, sv')" "sv1 = None \<longleftrightarrow> sv = None"
      by (auto split: option.splits)
    with less.hyps [of cs] s show ?thesis by fastforce
  next
    case esc
    with once s obtain e es where cs: "cs = e # es"
      by (auto simp: backslash_code split: list.splits)
    show ?thesis
    proof (cases "e = 117")
      case True
      with once s esc cs obtain r1 sv1 hi1 ch where r1: "lex_hex 4 0 es = Inr (ch, r1)"
          "agtype_lex_string tx r1 sv1 hi1 = Inr (rest, sv')" "sv1 = None \<longleftrightarrow> sv = None"
        by (cases sv) (auto simp: backslash_code bindE_eq_Inr split: if_splits)
      from lex_hex_suffix [OF r1(1)] obtain u where u: "es = u @ r1" by blast
      with less.hyps [of r1, OF _ r1(2)] s cs r1(3) show ?thesis by fastforce
    next
      case False
      with once s esc cs obtain sv1 where "agtype_lex_string tx es sv1 hi = Inr (rest, sv')" "sv1 = None \<longleftrightarrow> sv = None"
        by (auto simp: backslash_code split: option.splits if_splits)
      with less.hyps [of es] s cs show ?thesis by fastforce
    qed
  qed
qed

text \<open>C27: printing a string with \<open>escape_agtype\<close> and lexing the result gives the string back, for
  every string without zero bytes, and leaves the input after it.\<close>

theorem escape_lex_roundtrip:
  assumes "utf8_ascii tx" "0 \<notin> set str"
    and "lx_rest lx = escape_agtype [] str @ rest" "strval lx = Some old"
  shows "agtype_lex tx lx = Inr (lx\<lparr>lx_rest := rest, lx_token := Some (escape_agtype [] str),
           token_type := AGTYPE_TOKEN_STRING, strval := Some str\<rparr>)"
proof -
  have "\<not> is_ws ch_quote" by (simp add: is_ws_def ch_defs)
  with assms(3) have tw: "takeWhile is_ws (lx_rest lx) = []" by (simp add: escape_agtype_def)
  have lx: "lx_rest lx = ch_quote # concat (map escape_char str) @ ch_quote # rest"
    using assms(3) by (simp add: escape_agtype_def)
  have q: "ch_quote \<notin> {123, 125, 91, 93, 44, 58}" by (simp add: ch_defs)
  show ?thesis
    unfolding agtype_lex_def Let_def tw
    using q by (simp add: lx assms(4) lex_string_escaped [OF assms(1,2), of _ "[]"] set_token_def escape_agtype_def)
qed

text \<open>A server with UTF-8 as database encoding and ASCII case folding.\<close>

definition utf8_encode :: "nat \<Rightarrow> byte list" where
  "utf8_encode cp =
     (if cp < 0x80 then [of_nat cp]
      else if cp < 0x800 then [of_nat (0xC0 + cp div 0x40), of_nat (0x80 + cp mod 0x40)]
      else if cp < 0x10000
      then [of_nat (0xE0 + cp div 0x1000), of_nat (0x80 + cp div 0x40 mod 0x40), of_nat (0x80 + cp mod 0x40)]
      else [of_nat (0xF0 + cp div 0x40000), of_nat (0x80 + cp div 0x1000 mod 0x40),
            of_nat (0x80 + cp div 0x40 mod 0x40), of_nat (0x80 + cp mod 0x40)])"

definition ascii_lower :: "byte \<Rightarrow> byte" where
  "ascii_lower c = (if 65 \<le> c \<and> c \<le> 90 then c + 32 else c)"

definition utf8_server :: pg_text where
  "utf8_server = \<lparr>db_is_utf8 = True, unicode_to_utf8 = utf8_encode,
     pg_strncase_eq = (\<lambda>s t. map ascii_lower s = map ascii_lower t), pg_stack_ok = (\<lambda>n. n < 10000)\<rparr>"

lemma utf8_server_ascii: "utf8_ascii utf8_server"
  by (simp add: utf8_ascii_def utf8_server_def utf8_encode_def)

text \<open>Witness of C27: the string tab, quote, a.\<close>

theorem escape_lex_roundtrip_witness:
  "agtype_lex utf8_server (make_agtype_lex_context_cstring_len (escape_agtype [] [ch_tab, ch_quote, 97] @ [44]) [0] True) =
   Inr \<lparr>lx_rest = [44], lx_after = [0], lx_token = Some (escape_agtype [] [ch_tab, ch_quote, 97]),
        token_type = AGTYPE_TOKEN_STRING, lex_level = 0, line_number = 1, strval = Some [ch_tab, ch_quote, 97]\<rparr>"
proof -
  have "0 \<notin> set [ch_tab, ch_quote, 97]" by (simp add: ch_defs)
  from escape_lex_roundtrip [OF utf8_server_ascii this, where rest = "[44]" and old = "[]" and
      lx = "make_agtype_lex_context_cstring_len (escape_agtype [] [ch_tab, ch_quote, 97] @ [44]) [0] True"]
  show ?thesis by (simp add: make_agtype_lex_context_cstring_len_def)
qed

subsection \<open>Tokens\<close>

lemma is_digit_no_dot_num: "agtype_lex_number s = (n, b, False) \<Longrightarrow> take n s \<noteq> []"
  using agtype_lex_numberD [of s n b] int_part_hd by fastforce

lemma lex_number_token_ok:
  assumes "lex_number_token lx s skip = Inr lx'"
  shows "\<exists>n t. take n s \<noteq> [] \<and> t \<noteq> AGTYPE_TOKEN_END \<and> lx' = set_token lx s n t"
proof -
  obtain n f where n: "agtype_lex_number (drop skip s) = (n, f, False)"
      and lx': "lx' = set_token lx s (skip + n) (if f then AGTYPE_TOKEN_FLOAT else AGTYPE_TOKEN_INTEGER)"
    using assms by (auto simp: lex_number_token_def split: prod.splits if_splits)
  from is_digit_no_dot_num [OF n] have "take (skip + n) s \<noteq> []" by (auto simp: take_add)
  with lx' show ?thesis by (cases f) auto
qed

lemma word_type_not_end: "word_type tx w \<noteq> AGTYPE_TOKEN_END"
  by (simp add: word_type_def)

lemma set_token_strval_same: "set_token lx s n t = (set_token lx s n t)\<lparr>strval := strval lx\<rparr>"
  by (simp add: set_token_def)

definition is_token_of :: "agtype_lex_context \<Rightarrow> byte list \<Rightarrow> agtype_lex_context \<Rightarrow> bool" where
  "is_token_of lx s lx' \<longleftrightarrow> (\<exists>n t sv. take n s \<noteq> [] \<and> t \<noteq> AGTYPE_TOKEN_END \<and> (sv = None \<longleftrightarrow> strval lx = None) \<and>
     lx' = (set_token lx s n t)\<lparr>strval := sv\<rparr>)"

lemma is_token_ofI: "take n s \<noteq> [] \<Longrightarrow> t \<noteq> AGTYPE_TOKEN_END \<Longrightarrow> is_token_of lx s (set_token lx s n t)"
  unfolding is_token_of_def using set_token_strval_same by blast

lemma string_token:
  assumes r: "agtype_lex_string tx cs sv None = Inr (rest, sv')" and sv: "sv = None \<longleftrightarrow> strval lx = None"
  shows "is_token_of lx (c # cs) ((set_token lx (c # cs) (length (c # cs) - length rest) AGTYPE_TOKEN_STRING)\<lparr>strval := sv'\<rparr>)"
proof -
  from agtype_lex_string_rest [OF r] obtain u where "cs = u @ rest" "sv' = None \<longleftrightarrow> sv = None" by blast
  moreover from this have "take (length (c # cs) - length rest) (c # cs) \<noteq> []" by simp
  ultimately show ?thesis
    unfolding is_token_of_def using sv agtype_token_type.distinct by metis
qed

lemma agtype_lex_split:
  assumes "agtype_lex tx lx0 = Inr lx'"
  defines "s \<equiv> dropWhile is_ws (lx_rest lx0)"
  defines "lx \<equiv> lx0\<lparr>line_number := line_number lx0 + length (filter (\<lambda>c. c = ch_nl) (takeWhile is_ws (lx_rest lx0)))\<rparr>"
  shows "s = [] \<and> lx' = lx\<lparr>lx_rest := [], lx_token := None, token_type := AGTYPE_TOKEN_END\<rparr> \<or> is_token_of lx s lx'"
proof (cases s)
  case Nil
  with assms(1) show ?thesis
    by (simp add: agtype_lex_def Let_def dropWhile_eq_drop [symmetric] s_def [symmetric] lx_def [symmetric])
next
  case (Cons c cs)
  have p: "is_token_of lx s (set_token lx s n t)" if "0 < n" "t \<noteq> AGTYPE_TOKEN_END" for n t
    using that Cons by (intro is_token_ofI) simp_all
  have num: "is_token_of lx s lx'" if "lex_number_token lx s k = Inr lx'" for k
    using lex_number_token_ok [OF that] is_token_ofI by blast
  have str: "is_token_of lx s ((set_token lx s (length s - length rest) AGTYPE_TOKEN_STRING)\<lparr>strval := sv'\<rparr>)"
    if "agtype_lex_string tx cs (map_option (\<lambda>_. []) (strval lx)) None = Inr (rest, sv')" for rest sv'
    using string_token [OF that] unfolding Cons by simp
  have "drop (length (takeWhile is_ws (lx_rest lx0))) (lx_rest lx0) = s"
    by (simp add: s_def dropWhile_eq_drop)
  note lexed = assms(1) [unfolded agtype_lex_def Let_def this lx_def [symmetric], unfolded Cons list.case, folded Cons]
  have "is_token_of lx s lx'"
    using lexed
    by (simp only: split: if_split_asm)
      (auto simp: p word_type_not_end bindE_eq_Inr split: if_split_asm intro: num str)
  then show ?thesis ..
qed

text \<open>C28: each call of \<open>agtype_lex\<close> skips white space and returns the next non-empty piece of the
  input as the token, or the end token exactly when nothing but white space is left; the nesting
  level and whether strings are de-escaped do not change.\<close>

theorem agtype_lex_token:
  assumes "agtype_lex tx lx = Inr lx'"
  shows "\<exists>ws tok. lx_rest lx = ws @ tok @ lx_rest lx' \<and> (\<forall>c \<in> set ws. is_ws c) \<and>
           (if token_type lx' = AGTYPE_TOKEN_END then lx_token lx' = None \<and> tok = [] \<and> lx_rest lx' = []
            else lx_token lx' = Some tok \<and> tok \<noteq> [] \<and> \<not> is_ws (hd tok)) \<and>
           lex_level lx' = lex_level lx \<and> (strval lx' = None \<longleftrightarrow> strval lx = None)"
proof -
  define ws where "ws = takeWhile is_ws (lx_rest lx)"
  define s where "s = dropWhile is_ws (lx_rest lx)"
  have in_eq: "lx_rest lx = ws @ s" and ws: "\<forall>c \<in> set ws. is_ws c"
    by (auto simp: ws_def s_def dest: set_takeWhileD)
  from agtype_lex_split [OF assms] show ?thesis
  proof
    assume "dropWhile is_ws (lx_rest lx) = [] \<and> lx' = lx\<lparr>line_number := line_number lx + length (filter (\<lambda>c. c = ch_nl) (takeWhile is_ws (lx_rest lx))),
      lx_rest := [], lx_token := None, token_type := AGTYPE_TOKEN_END\<rparr>"
    with in_eq ws show ?thesis by (intro exI [of _ ws] exI [of _ "[]"]) (simp add: s_def)
  next
    assume "is_token_of (lx\<lparr>line_number := line_number lx + length (filter (\<lambda>c. c = ch_nl) (takeWhile is_ws (lx_rest lx)))\<rparr>)
      (dropWhile is_ws (lx_rest lx)) lx'"
    then obtain n where tok: "take n s \<noteq> []" "token_type lx' \<noteq> AGTYPE_TOKEN_END" "lx_token lx' = Some (take n s)"
        "lx_rest lx' = drop n s" "lex_level lx' = lex_level lx" "strval lx' = None \<longleftrightarrow> strval lx = None"
      unfolding s_def [symmetric] is_token_of_def by (elim exE conjE) (rule that, simp_all add: set_token_def)
    have "s \<noteq> []" "\<not> is_ws (hd s)" using tok(1) hd_dropWhile [of is_ws "lx_rest lx"] by (auto simp: s_def)
    with in_eq ws tok show ?thesis by (intro exI [of _ ws] exI [of _ "take n s"]) simp
  qed
qed

text \<open>Witness of C28: a blank and the number 7 before a comma.\<close>

theorem agtype_lex_token_witness:
  "\<exists>lx' ws tok. agtype_lex utf8_server (make_agtype_lex_context_cstring_len [32, 55, 44] [0] True) = Inr lx' \<and>
     [32, 55, 44] = ws @ tok @ lx_rest lx' \<and> lx_token lx' = Some tok"
proof -
  have "agtype_lex utf8_server (make_agtype_lex_context_cstring_len [32, 55, 44] [0] True) =
      Inr \<lparr>lx_rest = [44], lx_after = [0], lx_token = Some [55], token_type = AGTYPE_TOKEN_INTEGER, lex_level = 0,
           line_number = 1, strval = Some []\<rparr>"
    by code_simp
  from agtype_lex_token [OF this] this show ?thesis
    by (auto simp: make_agtype_lex_context_cstring_len_def)
qed

end
