(* ===== verification/Agtype_Parse.thy ===== *)
theory Agtype_Parse
  imports Agtype_Parser
begin

text \<open>
  Termination of the parser: every parsing routine consumes input, so fuel beyond the number of
  input bytes is never exhausted and does not change the result; the nesting level of the lexer is
  restored by every routine.
\<close>

subsection \<open>Consumption\<close>

text \<open>The bytes not yet lexed, and one for a pending token.\<close>

definition todo :: "agtype_lex_context \<Rightarrow> nat" where
  "todo lx = length (lx_rest lx) + (if token_type lx = AGTYPE_TOKEN_END then 0 else 1)"

text \<open>The end token is only met at the end of the input.\<close>

definition end_ok :: "agtype_lex_context \<Rightarrow> bool" where
  "end_ok lx \<longleftrightarrow> (token_type lx = AGTYPE_TOKEN_END \<longrightarrow> lx_rest lx = [])"

lemma todo_level [simp]: "todo (lx\<lparr>lex_level := n\<rparr>) = todo lx" "end_ok (lx\<lparr>lex_level := n\<rparr>) = end_ok lx"
  by (simp_all add: todo_def end_ok_def)

lemma agtype_lex_todo:
  assumes "agtype_lex tx lx = Inr lx'"
  shows "lex_level lx' = lex_level lx" "todo lx' \<le> length (lx_rest lx)" "end_ok lx'"
proof -
  have "length (dropWhile is_ws (lx_rest lx)) \<le> length (lx_rest lx)" by (rule length_dropWhile_le)
  moreover from this have "Suc (length (dropWhile is_ws (lx_rest lx)) - n) \<le> length (lx_rest lx)"
    if "take n (dropWhile is_ws (lx_rest lx)) \<noteq> []" for n
    using that by (cases "dropWhile is_ws (lx_rest lx)"; cases n) auto
  ultimately show "lex_level lx' = lex_level lx" "todo lx' \<le> length (lx_rest lx)" "end_ok lx'"
    using agtype_lex_split [OF assms] unfolding is_token_of_def
    by (elim disjE exE conjE; simp add: todo_def end_ok_def set_token_def)+
qed

lemma lex_accept_todo:
  assumes "lex_accept tx lx token want = Inr (ok, s, lx')" "token \<noteq> AGTYPE_TOKEN_END"
  shows "lex_level lx' = lex_level lx" "ok \<Longrightarrow> todo lx' < todo lx" "\<not> ok \<Longrightarrow> lx' = lx" "end_ok lx \<Longrightarrow> end_ok lx'"
  using assms agtype_lex_todo [of tx lx lx']
  by (auto simp: lex_accept_def bindE_eq_Inr todo_def [of lx] split: if_splits)

lemma lex_expect_todo:
  assumes "lex_expect tx ctx lx token = Inr lx'" "token \<noteq> AGTYPE_TOKEN_END"
  shows "lex_level lx' = lex_level lx" "todo lx' < todo lx" "end_ok lx \<Longrightarrow> end_ok lx'"
  using assms lex_accept_todo [OF _ assms(2), of tx lx False True _ lx']
  by (auto simp: lex_expect_def bindE_eq_Inr split: if_splits)

lemma lex_annotation_todo:
  assumes "lex_annotation tx want lx = Inr (a, lx')"
  shows "lex_level lx' = lex_level lx" "todo lx' \<le> todo lx" "end_ok lx \<Longrightarrow> end_ok lx'"
proof -
  obtain ok s lx1 ok' s' where 1: "lex_accept tx lx AGTYPE_TOKEN_ANNOTATION False = Inr (ok, s, lx1)"
      and 2: "lex_accept tx lx1 AGTYPE_TOKEN_IDENTIFIER want = Inr (ok', s', lx')"
    using assms by (auto simp: lex_annotation_def bindE_eq_Inr split: if_splits)
  from lex_accept_todo [OF 1] lex_accept_todo [OF 2] show "lex_level lx' = lex_level lx" "todo lx' \<le> todo lx" "end_ok lx \<Longrightarrow> end_ok lx'"
    by (cases ok; cases ok'; simp)+
qed

definition keeps :: "'st parser \<Rightarrow> bool" where
  "keeps p \<longleftrightarrow> (\<forall>lx st lx' st'. p (lx, st) = Inr (lx', st') \<longrightarrow> todo lx' \<le> todo lx \<and> lex_level lx' = lex_level lx \<and> (end_ok lx \<longrightarrow> end_ok lx'))"

definition shrinks :: "'st parser \<Rightarrow> bool" where
  "shrinks p \<longleftrightarrow> (\<forall>lx st lx' st'. p (lx, st) = Inr (lx', st') \<longrightarrow> todo lx' < todo lx \<and> lex_level lx' = lex_level lx \<and> (end_ok lx \<longrightarrow> end_ok lx'))"

lemma keepsD: "keeps p \<Longrightarrow> p (lx, st) = Inr (lx', st') \<Longrightarrow> todo lx' \<le> todo lx \<and> lex_level lx' = lex_level lx \<and> (end_ok lx \<longrightarrow> end_ok lx')"
  unfolding keeps_def by blast

lemma shrinksD: "shrinks p \<Longrightarrow> p (lx, st) = Inr (lx', st') \<Longrightarrow> todo lx' < todo lx \<and> lex_level lx' = lex_level lx \<and> (end_ok lx \<longrightarrow> end_ok lx')"
  unfolding shrinks_def by blast

lemma keeps_annotation: "keeps (parse_annotation tx sem)"
  unfolding keeps_def
  by (auto simp: parse_annotation_def bindE_eq_Inr split: if_splits dest: lex_annotation_todo)

lemma shrinks_scalar: "shrinks (parse_scalar tx sem)"
  unfolding shrinks_def
proof (intro allI impI)
  fix lx st lx' st' assume "parse_scalar tx sem (lx, st) = Inr (lx', st')"
  then obtain ok val lx1 annotation where tok: "is_scalar_token (token_type lx)"
      and 1: "lex_accept tx lx (token_type lx) (sem_scalar sem \<noteq> None) = Inr (ok, val, lx1)"
      and 2: "parse_scalar_annotation tx (sem_scalar sem \<noteq> None) lx1 = Inr (annotation, lx')"
    by (auto simp: parse_scalar_def Let_def lex_peek_def bindE_eq_Inr split: if_splits)
  have "token_type lx \<noteq> AGTYPE_TOKEN_END" using tok by (auto simp: is_scalar_token_def)
  moreover have "ok" using 1 by (auto simp: lex_accept_def bindE_eq_Inr)
  ultimately have "todo lx1 < todo lx \<and> lex_level lx1 = lex_level lx \<and> (end_ok lx \<longrightarrow> end_ok lx1)" using lex_accept_todo [OF 1] by blast
  moreover have "todo lx' \<le> todo lx1 \<and> lex_level lx' = lex_level lx1 \<and> (end_ok lx1 \<longrightarrow> end_ok lx')"
    using 2 lex_annotation_todo by (auto simp: parse_scalar_annotation_def split: if_splits)
  ultimately show "todo lx' < todo lx \<and> lex_level lx' = lex_level lx \<and> (end_ok lx \<longrightarrow> end_ok lx')" by simp
qed

lemma shrinks_element: "shrinks v \<Longrightarrow> shrinks (parse_array_element tx sem v)"
  unfolding shrinks_def
  by (fastforce simp: parse_array_element_def Let_def bindE_eq_Inr)

lemma shrinks_field:
  assumes "shrinks v"
  shows "shrinks (parse_object_field tx sem v)"
  unfolding shrinks_def
proof (intro allI impI)
  fix lx st lx' st' assume "parse_object_field tx sem v (lx, st) = Inr (lx', st')"
  then obtain w s lx1 lx2 st1 st2 where
      1: "lex_accept tx lx AGTYPE_TOKEN_STRING w = Inr (True, s, lx1)"
      and 2: "lex_expect tx AGTYPE_PARSE_OBJECT_LABEL lx1 AGTYPE_TOKEN_COLON = Inr lx2"
      and 3: "v (lx2, st1) = Inr (lx', st2)"
    by (auto simp: parse_object_field_def Let_def bindE_eq_Inr split: if_splits)
  from lex_accept_todo [OF 1] lex_expect_todo [OF 2] shrinksD [OF assms 3]
  show "todo lx' < todo lx \<and> lex_level lx' = lex_level lx \<and> (end_ok lx \<longrightarrow> end_ok lx')" by simp
qed

lemma keeps_comma_loop:
  assumes "shrinks body"
  shows "keeps (comma_loop tx body fuel)"
proof (induction fuel)
  case 0
  then show ?case by (simp add: keeps_def)
next
  case (Suc fuel)
  show ?case
    unfolding keeps_def
  proof (intro allI impI)
    fix lx st lx' st' assume "comma_loop tx body (Suc fuel) (lx, st) = Inr (lx', st')"
    then obtain ok s lx1 where 1: "lex_accept tx lx AGTYPE_TOKEN_COMMA False = Inr (ok, s, lx1)"
        and 2: "if ok then bindE (body (lx1, st)) (comma_loop tx body fuel) = Inr (lx', st') else (lx1, st) = (lx', st')"
      by (auto simp: bindE_eq_Inr split: if_splits)
    show "todo lx' \<le> todo lx \<and> lex_level lx' = lex_level lx \<and> (end_ok lx \<longrightarrow> end_ok lx')"
    proof (cases ok)
      case True
      with 2 obtain lx2 st2 where 3: "body (lx1, st) = Inr (lx2, st2)" "comma_loop tx body fuel (lx2, st2) = Inr (lx', st')"
        by (auto simp: bindE_eq_Inr)
      from lex_accept_todo [OF 1] True shrinksD [OF assms 3(1)] keepsD [OF Suc 3(2)] show ?thesis by simp
    next
      case False
      with 2 lex_accept_todo [OF 1] show ?thesis by simp
    qed
  qed
qed

lemma keeps_bind: "shrinks p \<Longrightarrow> keeps q \<Longrightarrow> bindE (p (lx, st)) q = Inr (lx', st') \<Longrightarrow>
    todo lx' \<le> todo lx \<and> lex_level lx' = lex_level lx \<and> (end_ok lx \<longrightarrow> end_ok lx')"
  by (fastforce simp: bindE_eq_Inr dest: shrinksD keepsD)

lemma keeps_fields:
  assumes "shrinks v"
  shows "keeps (parse_fields tx sem v fuel)"
  unfolding keeps_def
  by (auto simp: parse_fields_def split: if_splits
      dest: keeps_bind [OF shrinks_field [OF assms] keeps_comma_loop [OF shrinks_field [OF assms]]])

lemma keeps_elements:
  assumes "shrinks v"
  shows "keeps (parse_elements tx sem v fuel)"
  unfolding keeps_def
  by (auto simp: parse_elements_def split: if_splits
      dest: keeps_bind [OF shrinks_element [OF assms] keeps_comma_loop [OF shrinks_element [OF assms]]])

text \<open>The shape of both container routines.\<close>

lemma container_shrinks:
  assumes "lex_expect tx ctx1 (lx\<lparr>lex_level := lex_level lx + 1\<rparr>) t1 = Inr lx1" "t1 \<noteq> AGTYPE_TOKEN_END"
    and "keeps body" "body (lx1, st1) = Inr (lx2, st2)"
    and "lex_expect tx ctx2 lx2 t2 = Inr lx3" "t2 \<noteq> AGTYPE_TOKEN_END"
    and "parse_annotation tx sem (lx3\<lparr>lex_level := lex_level lx3 - 1\<rparr>, st3) = Inr (lx', st')"
  shows "todo lx' < todo lx \<and> lex_level lx' = lex_level lx \<and> (end_ok lx \<longrightarrow> end_ok lx')"
  using lex_expect_todo [OF assms(1,2)] keepsD [OF assms(3,4)] lex_expect_todo [OF assms(5,6)]
    keepsD [OF keeps_annotation assms(7)] by simp

lemma shrinks_object: "shrinks v \<Longrightarrow> shrinks (parse_object tx sem v fuel)"
  unfolding shrinks_def [of "parse_object tx sem v fuel"]
  by (auto simp: parse_object_def bindE_eq_Inr dest!: container_shrinks [OF _ _ keeps_fields])

lemma shrinks_array: "shrinks v \<Longrightarrow> shrinks (parse_array tx sem v fuel)"
  unfolding shrinks_def [of "parse_array tx sem v fuel"]
  by (auto simp: parse_array_def bindE_eq_Inr dest!: container_shrinks [OF _ _ keeps_elements])

lemma shrinks_value: "shrinks (parse_value tx sem fuel)"
proof (induction fuel)
  case 0
  then show ?case by (simp add: shrinks_def)
next
  case (Suc fuel)
  show ?case
    unfolding shrinks_def
    by (auto split: if_splits
        dest: shrinksD [OF shrinks_object [OF Suc]] shrinksD [OF shrinks_array [OF Suc]] shrinksD [OF shrinks_scalar])
qed

subsection \<open>Enough fuel\<close>

definition enough :: "nat \<Rightarrow> 'st parser \<Rightarrow> bool" where
  "enough n p \<longleftrightarrow> (\<forall>lx st. todo lx < n \<longrightarrow> p (lx, st) \<noteq> Inl OutOfFuel)"

text \<open>Actions that do not run out of fuel themselves.\<close>

definition sem_total :: "'st agtype_sem_action \<Rightarrow> bool" where
  "sem_total sem \<longleftrightarrow>
     (\<forall>f st. f \<in> set_option (sem_object_start sem) \<union> set_option (sem_object_end sem) \<union>
              set_option (sem_array_start sem) \<union> set_option (sem_array_end sem) \<longrightarrow> f st \<noteq> Inl OutOfFuel) \<and>
     (\<forall>f s b st. f \<in> set_option (sem_object_field_start sem) \<union> set_option (sem_object_field_end sem) \<longrightarrow>
        f s b st \<noteq> Inl OutOfFuel) \<and>
     (\<forall>f b st. f \<in> set_option (sem_array_element_start sem) \<union> set_option (sem_array_element_end sem) \<longrightarrow>
        f b st \<noteq> Inl OutOfFuel) \<and>
     (\<forall>f s t a st. f \<in> set_option (sem_scalar sem) \<longrightarrow> f s t a st \<noteq> Inl OutOfFuel) \<and>
     (\<forall>f a st. f \<in> set_option (sem_annotation sem) \<longrightarrow> f a st \<noteq> Inl OutOfFuel)"

lemma sem_total_simps:
  assumes "sem_total sem"
  shows "call0 (sem_object_start sem) st \<noteq> Inl OutOfFuel" "call0 (sem_object_end sem) st \<noteq> Inl OutOfFuel"
    "call0 (sem_array_start sem) st \<noteq> Inl OutOfFuel" "call0 (sem_array_end sem) st \<noteq> Inl OutOfFuel"
    "(case sem_object_field_start sem of None \<Rightarrow> Inr st | Some f \<Rightarrow> f s b st) \<noteq> Inl OutOfFuel"
    "(case sem_object_field_end sem of None \<Rightarrow> Inr st | Some f \<Rightarrow> f s b st) \<noteq> Inl OutOfFuel"
    "call (sem_array_element_start sem) b st \<noteq> Inl OutOfFuel" "call (sem_array_element_end sem) b st \<noteq> Inl OutOfFuel"
    "(case sem_scalar sem of None \<Rightarrow> Inr st | Some f \<Rightarrow> f s t a st) \<noteq> Inl OutOfFuel"
    "call (sem_annotation sem) a st \<noteq> Inl OutOfFuel"
  using assms by (auto simp: sem_total_def call_def call0_def split: option.splits)

lemma bindE_total: "m \<noteq> Inl OutOfFuel \<Longrightarrow> (\<And>x. m = Inr x \<Longrightarrow> f x \<noteq> Inl OutOfFuel) \<Longrightarrow> bindE m f \<noteq> Inl OutOfFuel"
  by (cases m) auto

lemma case_prod_total: "(\<And>a b. p = (a, b) \<Longrightarrow> f a b \<noteq> x) \<Longrightarrow> case_prod f p \<noteq> x"
  by (cases p) simp

lemma if_total: "(c \<Longrightarrow> a \<noteq> x) \<Longrightarrow> (\<not> c \<Longrightarrow> b \<noteq> x) \<Longrightarrow> (if c then a else b) \<noteq> x"
  by simp

lemma lex_hex_total: "lex_hex n ch s \<noteq> Inl OutOfFuel"
  by (induction n ch s rule: lex_hex.induct) (auto simp: err_token_def split: option.splits)

lemma lex_unicode_total: "lex_unicode tx ch v hi \<noteq> Inl OutOfFuel"
  by (auto simp: lex_unicode_def err_low_surrogate_def bindE_eq_Inl split: option.splits if_splits)

lemma agtype_lex_string_total: "agtype_lex_string tx s sv hi \<noteq> Inl OutOfFuel"
proof (induction "length s" arbitrary: s sv hi rule: less_induct)
  case less
  have IH: "length r < length s \<Longrightarrow> agtype_lex_string tx r sv' hi' \<noteq> Inl OutOfFuel" for r sv' hi'
    using less by blast
  show ?case
  proof (cases s)
    case Nil
    then show ?thesis by (subst agtype_lex_string.simps) (simp add: err_token_def)
  next
    case (Cons c cs)
    note IH = IH [unfolded Cons]
    show ?thesis
      unfolding Cons
      by (subst agtype_lex_string.simps)
        (auto simp: err_token_def err_low_surrogate_def err_escape_def IH lex_hex_total lex_unicode_total bindE_eq_Inl
          split: list.splits option.splits)
  qed
qed

lemma number_token_total: "lex_number_token lx s k \<noteq> Inl OutOfFuel"
  by (auto simp: lex_number_token_def err_token_def split: prod.splits)

lemma byte_after_total: "byte_after lx s \<noteq> Inl OutOfFuel"
  by (simp add: byte_after_def split: list.splits)

lemma agtype_lex_total: "agtype_lex tx lx \<noteq> Inl OutOfFuel"
proof -
  define s where "s = drop (length (takeWhile is_ws (lx_rest lx))) (lx_rest lx)"
  show ?thesis
    unfolding agtype_lex_def Let_def s_def [symmetric]
  proof (cases s, goal_cases)
    case (2 c cs)
    show ?case
      unfolding 2 list.case
      by (intro if_total bindE_total agtype_lex_string_total number_token_total byte_after_total; simp add: err_token_def split: prod.splits)
  qed simp
qed

lemma lex_accept_total [simp]: "lex_accept tx lx t w \<noteq> Inl OutOfFuel"
  by (auto simp: lex_accept_def Let_def bindE_eq_Inl agtype_lex_total)

lemma report_parse_error_total [simp]: "report_parse_error ctx lx \<noteq> OutOfFuel"
  by (simp add: report_parse_error_def)

lemma lex_expect_total [simp]: "lex_expect tx ctx lx t \<noteq> Inl OutOfFuel"
  by (auto simp: lex_expect_def bindE_eq_Inl)

lemma lex_annotation_total [simp]: "lex_annotation tx w lx \<noteq> Inl OutOfFuel"
  by (auto simp: lex_annotation_def bindE_eq_Inl err_annotation_def)

lemma annotation_total: "sem_total sem \<Longrightarrow> parse_annotation tx sem p \<noteq> Inl OutOfFuel"
  by (auto simp: parse_annotation_def bindE_eq_Inl sem_total_simps split: prod.splits)

lemma scalar_total: "sem_total sem \<Longrightarrow> parse_scalar tx sem p \<noteq> Inl OutOfFuel"
  by (auto simp: parse_scalar_def parse_scalar_annotation_def Let_def bindE_eq_Inl sem_total_simps split: prod.splits)

lemma enoughD: "enough n p \<Longrightarrow> todo lx < n \<Longrightarrow> p (lx, st) \<noteq> Inl OutOfFuel"
  unfolding enough_def by blast

lemma enough_element: "sem_total sem \<Longrightarrow> enough n v \<Longrightarrow> enough n (parse_array_element tx sem v)"
  unfolding enough_def
  by (auto simp: parse_array_element_def Let_def bindE_eq_Inl sem_total_simps)

lemma enough_field:
  assumes "sem_total sem" "enough n v"
  shows "enough n (parse_object_field tx sem v)"
  unfolding enough_def
proof (intro allI impI)
  fix lx :: agtype_lex_context and st assume lt: "todo lx < n"
  have v: "v (lx2, st1) \<noteq> Inl OutOfFuel"
    if "lex_accept tx lx AGTYPE_TOKEN_STRING w = Inr (True, s, lx1)"
      "lex_expect tx AGTYPE_PARSE_OBJECT_LABEL lx1 AGTYPE_TOKEN_COLON = Inr lx2" for w s lx1 lx2 st1
    using lex_accept_todo(2) [OF that(1)] lex_expect_todo(2) [OF that(2)] lt by (intro enoughD [OF assms(2)]) simp
  show "parse_object_field tx sem v (lx, st) \<noteq> Inl OutOfFuel"
    unfolding parse_object_field_def Let_def prod.case
    by (intro bindE_total case_prod_total if_total sem_total_simps [OF assms(1)]; simp) (simp add: v)
qed

lemma enough_comma_loop:
  assumes "shrinks body" "enough n body" "n \<le> fuel"
  shows "enough n (comma_loop tx body fuel)"
  using assms(2,3)
proof (induction fuel arbitrary: n)
  case 0
  then show ?case by (simp add: enough_def)
next
  case (Suc fuel)
  show ?case
    unfolding enough_def
  proof (intro allI impI)
    fix lx :: agtype_lex_context and st assume lt: "todo lx < n"
    have step: "bindE (body (lx1, st)) (comma_loop tx body fuel) \<noteq> Inl OutOfFuel"
      if "lex_accept tx lx AGTYPE_TOKEN_COMMA False = Inr (True, s, lx1)" for s lx1
    proof (rule bindE_total)
      have lt1: "todo lx1 < todo lx" by (rule lex_accept_todo(2) [OF that]) simp_all
      with lt show "body (lx1, st) \<noteq> Inl OutOfFuel" by (intro enoughD [OF Suc.prems(1)]) simp
      fix p assume "body (lx1, st) = Inr p"
      moreover obtain lx2 st2 where p: "p = (lx2, st2)" by (rule prod.exhaust)
      ultimately have "todo lx2 < todo lx1" using shrinksD [OF assms(1)] by blast
      with lt1 lt have m: "todo lx2 < n - 1" by simp
      have "enough (n - 1) body" using Suc.prems(1) by (simp add: enough_def)
      from Suc.IH [OF this] Suc.prems(2) have "enough (n - 1) (comma_loop tx body fuel)" by simp
      from enoughD [OF this m] show "comma_loop tx body fuel p \<noteq> Inl OutOfFuel" unfolding p .
    qed
    show "comma_loop tx body (Suc fuel) (lx, st) \<noteq> Inl OutOfFuel"
      unfolding comma_loop.simps prod.case
      by (rule bindE_total, simp, intro case_prod_total if_total; simp add: step)
  qed
qed

lemma enough_bind_loop:
  assumes "shrinks p" "enough n p" "n \<le> fuel" "todo lx < n"
  shows "bindE (p (lx, st)) (comma_loop tx p fuel) \<noteq> Inl OutOfFuel"
proof (rule bindE_total)
  show "p (lx, st) \<noteq> Inl OutOfFuel" by (rule enoughD [OF assms(2,4)])
  fix x assume x: "p (lx, st) = Inr x"
  obtain lx' st' where "x = (lx', st')" by (rule prod.exhaust)
  with x shrinksD [OF assms(1)] assms(4) enoughD [OF enough_comma_loop [OF assms(1-3)]]
  show "comma_loop tx p fuel x \<noteq> Inl OutOfFuel" by fastforce
qed

lemma enough_fields:
  assumes "sem_total sem" "shrinks v" "enough n v" "n \<le> fuel"
  shows "enough n (parse_fields tx sem v fuel)"
  unfolding enough_def parse_fields_def
  using enough_bind_loop [OF shrinks_field [OF assms(2)] enough_field [OF assms(1,3)] assms(4)] by auto

lemma enough_elements:
  assumes "sem_total sem" "shrinks v" "enough n v" "n \<le> fuel"
  shows "enough n (parse_elements tx sem v fuel)"
  unfolding enough_def parse_elements_def
  using enough_bind_loop [OF shrinks_element [OF assms(2)] enough_element [OF assms(1,3)] assms(4)] by auto

lemma enough_after_expect:
  assumes "enough n p" "t \<noteq> AGTYPE_TOKEN_END" "todo lx \<le> n" "lex_expect tx ctx (lx\<lparr>lex_level := k\<rparr>) t = Inr lx1"
  shows "p (lx1, st) \<noteq> Inl OutOfFuel"
  using lex_expect_todo(2) [OF assms(4,2)] assms(3) by (intro enoughD [OF assms(1)]) simp

lemma enough_object:
  assumes "sem_total sem" "shrinks v" "enough n v"
  shows "enough (Suc n) (parse_object tx sem v n)"
  unfolding enough_def parse_object_def prod.case
  by (intro allI impI bindE_total case_prod_total annotation_total [OF assms(1)] sem_total_simps [OF assms(1)]
        enough_after_expect [OF enough_fields [OF assms order_refl]];
      (assumption | simp add: check_stack_depth_def))

lemma enough_array:
  assumes "sem_total sem" "shrinks v" "enough n v"
  shows "enough (Suc n) (parse_array tx sem v n)"
  unfolding enough_def parse_array_def prod.case
  by (intro allI impI bindE_total case_prod_total annotation_total [OF assms(1)] sem_total_simps [OF assms(1)]
        enough_after_expect [OF enough_elements [OF assms order_refl]];
      (assumption | simp add: check_stack_depth_def))

lemma enough_value:
  assumes "sem_total sem"
  shows "enough n (parse_value tx sem n)"
proof (induction n)
  case 0
  then show ?case by (simp add: enough_def)
next
  case (Suc n)
  show ?case
    unfolding enough_def
    using enoughD [OF enough_object [OF assms shrinks_value Suc]] enoughD [OF enough_array [OF assms shrinks_value Suc]]
      scalar_total [OF assms]
    by simp
qed

subsection \<open>More fuel\<close>

text \<open>A result that is reached is also reached with more fuel.\<close>

definition res_le :: "'a result \<Rightarrow> 'a result \<Rightarrow> bool" where
  "res_le r s \<longleftrightarrow> r = Inl OutOfFuel \<or> r = s"

lemma res_le_refl: "res_le r r"
  by (simp add: res_le_def)

lemma res_le_bind:
  assumes "res_le m m'" "\<And>x. res_le (f x) (g x)"
  shows "res_le (bindE m f) (bindE m' g)"
proof (cases "m = Inl OutOfFuel")
  case True
  then show ?thesis by (simp add: res_le_def)
next
  case False
  with assms(1) have "m' = m" by (simp add: res_le_def)
  with assms(2) res_le_refl show ?thesis by (cases m) auto
qed

lemma res_le_if: "(c \<Longrightarrow> res_le a b) \<Longrightarrow> (\<not> c \<Longrightarrow> res_le a' b') \<Longrightarrow> res_le (if c then a else a') (if c then b else b')"
  by simp

lemma res_le_prod: "(\<And>a b. res_le (f a b) (g a b)) \<Longrightarrow> res_le (case_prod f p) (case_prod g p)"
  by (cases p) simp

lemmas res_le_intros = res_le_bind res_le_if res_le_prod

definition parser_le :: "'st parser \<Rightarrow> 'st parser \<Rightarrow> bool" where
  "parser_le p q \<longleftrightarrow> (\<forall>x. res_le (p x) (q x))"

lemma parser_leD: "parser_le p q \<Longrightarrow> res_le (p x) (q x)"
  unfolding parser_le_def by blast

lemma parser_leI: "(\<And>x. res_le (p x) (q x)) \<Longrightarrow> parser_le p q"
  unfolding parser_le_def by blast

lemma le_field:
  assumes "parser_le v w"
  shows "parser_le (parse_object_field tx sem v) (parse_object_field tx sem w)"
  unfolding parse_object_field_def Let_def
  by (rule parser_leI, intro res_le_intros parser_leD [OF assms] res_le_refl)

lemma le_element:
  assumes "parser_le v w"
  shows "parser_le (parse_array_element tx sem v) (parse_array_element tx sem w)"
  unfolding parse_array_element_def Let_def
  by (rule parser_leI, intro res_le_intros parser_leD [OF assms] res_le_refl)

lemma le_comma_loop: "parser_le v w \<Longrightarrow> n \<le> m \<Longrightarrow> parser_le (comma_loop tx v n) (comma_loop tx w m)"
proof (induction n arbitrary: m)
  case 0
  then show ?case by (simp add: parser_le_def res_le_def)
next
  case (Suc n)
  then obtain k where m: "m = Suc k" "n \<le> k" by (cases m) auto
  show ?case
    unfolding m(1) comma_loop.simps
    by (rule parser_leI, intro res_le_intros parser_leD [OF Suc.prems(1)] parser_leD [OF Suc.IH [OF Suc.prems(1) m(2)]] res_le_refl)
qed

lemma le_fields: "parser_le v w \<Longrightarrow> n \<le> m \<Longrightarrow> parser_le (parse_fields tx sem v n) (parse_fields tx sem w m)"
  unfolding parse_fields_def
  by (rule parser_leI, intro res_le_intros parser_leD [OF le_field] parser_leD [OF le_comma_loop [OF le_field]] res_le_refl)

lemma le_elements: "parser_le v w \<Longrightarrow> n \<le> m \<Longrightarrow> parser_le (parse_elements tx sem v n) (parse_elements tx sem w m)"
  unfolding parse_elements_def
  by (rule parser_leI, intro res_le_intros parser_leD [OF le_element] parser_leD [OF le_comma_loop [OF le_element]] res_le_refl)

lemma le_object: "parser_le v w \<Longrightarrow> n \<le> m \<Longrightarrow> parser_le (parse_object tx sem v n) (parse_object tx sem w m)"
  unfolding parse_object_def
  by (rule parser_leI, intro res_le_intros parser_leD [OF le_fields] res_le_refl)

lemma le_array: "parser_le v w \<Longrightarrow> n \<le> m \<Longrightarrow> parser_le (parse_array tx sem v n) (parse_array tx sem w m)"
  unfolding parse_array_def
  by (rule parser_leI, intro res_le_intros parser_leD [OF le_elements] res_le_refl)

lemma le_value: "n \<le> m \<Longrightarrow> parser_le (parse_value tx sem n) (parse_value tx sem m)"
proof (induction n arbitrary: m)
  case 0
  then show ?case by (simp add: parser_le_def res_le_def)
next
  case (Suc n)
  then obtain k where m: "m = Suc k" "n \<le> k" by (cases m) auto
  show ?case
    unfolding m(1) parse_value.simps
    by (rule parser_leI, intro res_le_intros parser_leD [OF le_object [OF Suc.IH [OF m(2)] m(2)]]
        parser_leD [OF le_array [OF Suc.IH [OF m(2)] m(2)]] res_le_refl)
qed

lemma le_agtype: "n \<le> m \<Longrightarrow> parser_le (parse_agtype tx sem n) (parse_agtype tx sem m)"
  unfolding parse_agtype_def
  by (rule parser_leI, intro res_le_intros parser_leD [OF le_value] res_le_refl)

lemma parse_agtype_enough:
  assumes "sem_total sem" "length (lx_rest lx) < fuel"
  shows "parse_agtype tx sem fuel (lx, st) \<noteq> Inl OutOfFuel"
  unfolding parse_agtype_def prod.case
proof (rule bindE_total [OF agtype_lex_total])
  fix lx1 assume "agtype_lex tx lx = Inr lx1"
  from agtype_lex_todo(2) [OF this] assms(2) have "todo lx1 < fuel" by simp
  then have "parse_value tx sem fuel (lx1, st) \<noteq> Inl OutOfFuel" by (rule enoughD [OF enough_value [OF assms(1)]])
  then show "bindE (parse_value tx sem fuel (lx1, st)) (\<lambda>(lx2, st').
      bindE (lex_expect tx AGTYPE_PARSE_END lx2 AGTYPE_TOKEN_END) (\<lambda>lx3. Inr (lx3, st'))) \<noteq> Inl OutOfFuel"
    by (intro bindE_total case_prod_total) simp_all
qed

lemma parse_agtype_result:
  assumes "parse_agtype tx sem fuel (lx, st) = Inr (lx', st')"
  shows "lex_level lx' = lex_level lx \<and> lx_rest lx' = []"
proof -
  obtain lx1 lx2 where 1: "agtype_lex tx lx = Inr lx1" "parse_value tx sem fuel (lx1, st) = Inr (lx2, st')"
      "lex_expect tx AGTYPE_PARSE_END lx2 AGTYPE_TOKEN_END = Inr lx'"
    using assms by (auto simp: parse_agtype_def bindE_eq_Inr)
  have 2: "agtype_lex tx lx2 = Inr lx'" "token_type lx2 = AGTYPE_TOKEN_END"
    using 1(3) by (auto simp: lex_expect_def lex_accept_def bindE_eq_Inr split: if_splits)
  have 3: "lex_level lx2 = lex_level lx" "end_ok lx2"
    using shrinksD [OF shrinks_value 1(2)] agtype_lex_todo [OF 1(1)] by auto
  then have "todo lx' \<le> 0" using agtype_lex_todo(2) [OF 2(1)] 2(2) by (simp add: end_ok_def)
  with 3 agtype_lex_todo(1) [OF 2(1)] show ?thesis by (simp add: todo_def split: if_splits)
qed

text \<open>C29: the parser terminates: fuel beyond the length of the input is never exhausted, more of it
  does not change the result, and a successful parse has consumed the whole input and left the
  nesting level as it was, whatever the semantic actions do.\<close>

theorem parse_agtype_terminates:
  assumes "sem_total sem" "length (lx_rest lx) < fuel"
  shows "parse_agtype tx sem fuel (lx, st) \<noteq> Inl OutOfFuel \<and>
    (\<forall>fuel' \<ge> fuel. parse_agtype tx sem fuel' (lx, st) = parse_agtype tx sem fuel (lx, st)) \<and>
    (\<forall>lx' st'. parse_agtype tx sem fuel (lx, st) = Inr (lx', st') \<longrightarrow> lex_level lx' = lex_level lx \<and> lx_rest lx' = [])"
  using parse_agtype_enough [OF assms] parser_leD [OF le_agtype] parse_agtype_result
  unfolding res_le_def by metis

text \<open>Witness of C29: the text \<open>[]\<close> with an action that counts scalars.\<close>

definition count_scalars :: "nat agtype_sem_action" where
  "count_scalars = \<lparr>sem_object_start = None, sem_object_end = None, sem_array_start = None, sem_array_end = None,
     sem_object_field_start = None, sem_object_field_end = None, sem_array_element_start = None,
     sem_array_element_end = None, sem_scalar = Some (\<lambda>_ _ _ n. Inr (Suc n)), sem_annotation = None\<rparr>"

lemma lex_empty_array:
  "agtype_lex utf8_server (make_agtype_lex_context_cstring_len [91, 93] [0] True) =
     Inr \<lparr>lx_rest = [93], lx_after = [0], lx_token = Some [91], token_type = AGTYPE_TOKEN_ARRAY_START, lex_level = 0,
          line_number = 1, strval = Some []\<rparr>"
  "agtype_lex utf8_server \<lparr>lx_rest = [93], lx_after = [0], lx_token = Some [91], token_type = AGTYPE_TOKEN_ARRAY_START, lex_level = 1,
          line_number = ln, strval = Some []\<rparr> =
     Inr \<lparr>lx_rest = [], lx_after = [0], lx_token = Some [93], token_type = AGTYPE_TOKEN_ARRAY_END, lex_level = 1,
          line_number = ln, strval = Some []\<rparr>"
  "agtype_lex utf8_server \<lparr>lx_rest = [], lx_after = [0], lx_token = t, token_type = T, lex_level = l, line_number = ln, strval = Some []\<rparr> =
     Inr \<lparr>lx_rest = [], lx_after = [0], lx_token = None, token_type = AGTYPE_TOKEN_END, lex_level = l, line_number = ln, strval = Some []\<rparr>"
  by (simp_all add: agtype_lex_def make_agtype_lex_context_cstring_len_def is_ws_def ch_defs set_token_def)

theorem parse_agtype_terminates_witness:
  "\<exists>lx'. parse_agtype utf8_server count_scalars 3 (make_agtype_lex_context_cstring_len [91, 93] [0] True, 0) = Inr (lx', 0) \<and>
     parse_agtype utf8_server count_scalars 9 (make_agtype_lex_context_cstring_len [91, 93] [0] True, 0) = Inr (lx', 0) \<and>
     lex_level lx' = 0 \<and> lx_rest lx' = []"
proof -
  let ?lx = "make_agtype_lex_context_cstring_len [91, 93] [0] True"
  have t: "sem_total count_scalars" by (simp add: sem_total_def count_scalars_def)
  have "parse_agtype utf8_server count_scalars (Suc n) (?lx, 0) =
      Inr (\<lparr>lx_rest = [], lx_after = [0], lx_token = None, token_type = AGTYPE_TOKEN_END, lex_level = 0, line_number = 1,
            strval = Some []\<rparr>, 0)" for n
    by (simp add: parse_agtype_def lex_empty_array lex_peek_def parse_array_def check_stack_depth_def
        utf8_server_def [THEN arg_cong, of pg_stack_ok] call0_def count_scalars_def lex_expect_def lex_accept_def
        parse_elements_def parse_annotation_def)
  from this [of 2] parse_agtype_terminates [OF t, of ?lx 3 utf8_server 0] show ?thesis
    by (simp add: make_agtype_lex_context_cstring_len_def)
qed

end
