(* ===== verification/Agtype_In.thy ===== *)
theory Agtype_In
  imports Agtype_Parse Agtype_Read
begin

text \<open>
  Reading agtype text (\<open>src/backend/utils/adt/agtype.c\<close>): the semantic actions \<open>agtype_in_*\<close> that
  build an in-memory value while the parser runs, the typecast annotations \<open>::vertex\<close>, \<open>::edge\<close>,
  \<open>::path\<close>, \<open>::numeric\<close>, \<open>::integer\<close> and \<open>::float\<close>, and \<open>agtype_value_from_cstring\<close>.
\<close>

subsection \<open>Number text\<close>

text \<open>The server's conversions between numbers and their text.\<close>

record pg_num_text =
  pg_strtoint64 :: "byte list \<Rightarrow> int64 result"
  pg_float8in :: "byte list \<Rightarrow> uint64 result"
  pg_numeric_in :: "byte list \<Rightarrow> byte list result"
  pg_lltoa_text :: "int64 \<Rightarrow> byte list"
  pg_float8out :: "uint64 \<Rightarrow> byte list"
  pg_numeric_out :: "byte list \<Rightarrow> byte list"

subsection \<open>State\<close>

record agtype_in_state =
  parse_state :: "agtype_parse_state list"
  in_res :: "agtype_value option"

text \<open>\<open>_state->res = push_agtype_value(&_state->parse_state, seq, v)\<close>; the pushed values are never
  \<open>AGTV_BINARY\<close>, so the call is the scalar one.\<close>

definition in_push ::
    "pg_env \<Rightarrow> agtype_iterator_token \<Rightarrow> agtype_value option \<Rightarrow> agtype_in_state \<Rightarrow> agtype_in_state result" where
  "in_push env seq v st =
     bindE (push_agtype_value_scalar env (parse_state st) seq v) (\<lambda>(r, ps). Inr \<lparr>parse_state = ps, in_res = r\<rparr>)"

definition agtype_in_object_start :: "pg_env \<Rightarrow> agtype_in_state \<Rightarrow> agtype_in_state result" where
  "agtype_in_object_start env st = in_push env WAGT_BEGIN_OBJECT None st"

definition agtype_in_object_end :: "pg_env \<Rightarrow> agtype_in_state \<Rightarrow> agtype_in_state result" where
  "agtype_in_object_end env st = in_push env WAGT_END_OBJECT None st"

definition agtype_in_array_start :: "pg_env \<Rightarrow> agtype_in_state \<Rightarrow> agtype_in_state result" where
  "agtype_in_array_start env st = in_push env WAGT_BEGIN_ARRAY None st"

definition agtype_in_array_end :: "pg_env \<Rightarrow> agtype_in_state \<Rightarrow> agtype_in_state result" where
  "agtype_in_array_end env st = in_push env WAGT_END_ARRAY None st"

definition check_string_length :: "nat \<Rightarrow> nat result" where
  "check_string_length len =
     (if len > unat AGTENTRY_OFFLENMASK then Inl (Ereport ''string too long to represent as agtype string'') else Inr len)"

definition agtype_in_object_field_start ::
    "pg_env \<Rightarrow> byte list option \<Rightarrow> bool \<Rightarrow> agtype_in_state \<Rightarrow> agtype_in_state result" where
  "agtype_in_object_field_start env fname isnull st =
     (case fname of
        None \<Rightarrow> Inl BadAccess
      | Some s \<Rightarrow> bindE (check_string_length (length s)) (\<lambda>_. in_push env WAGT_KEY (Some (AGTV_STRING s)) st))"

subsection \<open>Scalars\<close>

definition str_numeric :: "byte list" where "str_numeric = [110, 117, 109, 101, 114, 105, 99]"
definition str_integer :: "byte list" where "str_integer = [105, 110, 116, 101, 103, 101, 114]"
definition str_float :: "byte list" where "str_float = [102, 108, 111, 97, 116]"

definition scalar_cast :: "pg_text \<Rightarrow> agtype_token_type \<Rightarrow> byte list option \<Rightarrow> agtype_token_type result" where
  "scalar_cast tx tok annotation =
     (case annotation of
        None \<Rightarrow> Inr tok
      | Some a \<Rightarrow>
          if tok = AGTYPE_TOKEN_NULL then Inr tok
          else if length a = 7 \<and> pg_strncase_eq tx a str_numeric then Inr AGTYPE_TOKEN_NUMERIC
          else if length a = 7 \<and> pg_strncase_eq tx a str_integer then Inr AGTYPE_TOKEN_INTEGER
          else if length a = 5 \<and> pg_strncase_eq tx a str_float then Inr AGTYPE_TOKEN_FLOAT
          else Inl (Ereport ''invalid annotation value for scalar''))"

definition need_token :: "byte list option \<Rightarrow> byte list result" where
  "need_token t = (case t of None \<Rightarrow> Inl BadAccess | Some s \<Rightarrow> Inr s)"

definition scalar_value :: "pg_num_text \<Rightarrow> byte list option \<Rightarrow> agtype_token_type \<Rightarrow> agtype_value result" where
  "scalar_value nt token tok =
     (case tok of
        AGTYPE_TOKEN_STRING \<Rightarrow>
          bindE (need_token token) (\<lambda>s. bindE (check_string_length (length s)) (\<lambda>_. Inr (AGTV_STRING s)))
      | AGTYPE_TOKEN_INTEGER \<Rightarrow> bindE (need_token token) (\<lambda>s. bindE (pg_strtoint64 nt s) (\<lambda>i. Inr (AGTV_INTEGER i)))
      | AGTYPE_TOKEN_FLOAT \<Rightarrow> bindE (need_token token) (\<lambda>s. bindE (pg_float8in nt s) (\<lambda>f. Inr (AGTV_FLOAT f)))
      | AGTYPE_TOKEN_NUMERIC \<Rightarrow> bindE (need_token token) (\<lambda>s. bindE (pg_numeric_in nt s) (\<lambda>n. Inr (AGTV_NUMERIC n)))
      | AGTYPE_TOKEN_TRUE \<Rightarrow> Inr (AGTV_BOOL True)
      | AGTYPE_TOKEN_FALSE \<Rightarrow> Inr (AGTV_BOOL False)
      | AGTYPE_TOKEN_NULL \<Rightarrow> Inr AGTV_NULL
      | _ \<Rightarrow> Inl (Ereport ''invalid agtype token type''))"

definition agtype_in_scalar ::
    "pg_env \<Rightarrow> pg_text \<Rightarrow> pg_num_text \<Rightarrow> byte list option \<Rightarrow> agtype_token_type \<Rightarrow> byte list option \<Rightarrow>
     agtype_in_state \<Rightarrow> agtype_in_state result" where
  "agtype_in_scalar env tx nt token tokentype annotation st =
     bindE (scalar_cast tx tokentype annotation) (\<lambda>tok.
     bindE (scalar_value nt token tok) (\<lambda>v.
       case parse_state st of
         [] \<Rightarrow>
           bindE (in_push env WAGT_BEGIN_ARRAY (Some (AGTV_ARRAY True [AGTV_NULL])) st) (\<lambda>st1.
           bindE (in_push env WAGT_ELEM (Some v) st1) (\<lambda>st2. in_push env WAGT_END_ARRAY None st2))
       | p # _ \<Rightarrow>
           (case ps_cont p of
              PS_ARRAY _ _ \<Rightarrow> in_push env WAGT_ELEM (Some v) st
            | PS_OBJECT _ _ \<Rightarrow> in_push env WAGT_VALUE (Some v) st)))"

subsection \<open>Typecasts of containers\<close>

definition str_id :: "byte list" where "str_id = [105, 100]"
definition str_label :: "byte list" where "str_label = [108, 97, 98, 101, 108]"
definition str_properties :: "byte list" where "str_properties = [112, 114, 111, 112, 101, 114, 116, 105, 101, 115]"
definition str_start_id :: "byte list" where "str_start_id = [115, 116, 97, 114, 116, 95, 105, 100]"
definition str_end_id :: "byte list" where "str_end_id = [101, 110, 100, 95, 105, 100]"
definition str_vertex :: "byte list" where "str_vertex = [118, 101, 114, 116, 101, 120]"
definition str_edge :: "byte list" where "str_edge = [101, 100, 103, 101]"
definition str_path :: "byte list" where "str_path = [112, 97, 116, 104]"

definition is_field :: "pg_text \<Rightarrow> byte list \<Rightarrow> agtype_value_type \<Rightarrow> agtype_pair \<Rightarrow> bool" where
  "is_field tx name vt p \<longleftrightarrow>
     length (pair_key p) = length name \<and> pg_strncase_eq tx (pair_key p) name \<and> agtv_type (pair_value p) = vt"

text \<open>One pass of the loop of \<open>is_object_vertex\<close>: the flags \<open>has_id\<close>, \<open>has_label\<close>, \<open>has_properties\<close>.\<close>

fun vertex_loop :: "pg_text \<Rightarrow> agtype_pair list \<Rightarrow> bool \<Rightarrow> bool \<Rightarrow> bool \<Rightarrow> bool" where
  "vertex_loop tx [] has_id has_label has_properties \<longleftrightarrow> has_id \<and> has_label \<and> has_properties"
| "vertex_loop tx (p # ps) has_id has_label has_properties \<longleftrightarrow>
     (if is_field tx str_id Type_INTEGER p then vertex_loop tx ps True has_label has_properties
      else if is_field tx str_label Type_STRING p then vertex_loop tx ps has_id True has_properties
      else if is_field tx str_properties Type_OBJECT p then vertex_loop tx ps has_id has_label True
      else False)"

definition is_object_vertex :: "pg_text \<Rightarrow> agtype_pair list \<Rightarrow> bool" where
  "is_object_vertex tx pairs \<longleftrightarrow> length pairs = 3 \<and> vertex_loop tx pairs False False False"

fun edge_loop :: "pg_text \<Rightarrow> agtype_pair list \<Rightarrow> bool \<Rightarrow> bool \<Rightarrow> bool \<Rightarrow> bool \<Rightarrow> bool \<Rightarrow> bool" where
  "edge_loop tx [] has_id has_label has_properties has_start_id has_end_id \<longleftrightarrow>
     has_id \<and> has_label \<and> has_properties \<and> has_start_id \<and> has_end_id"
| "edge_loop tx (p # ps) has_id has_label has_properties has_start_id has_end_id \<longleftrightarrow>
     (if is_field tx str_id Type_INTEGER p then edge_loop tx ps True has_label has_properties has_start_id has_end_id
      else if is_field tx str_label Type_STRING p then edge_loop tx ps has_id True has_properties has_start_id has_end_id
      else if is_field tx str_properties Type_OBJECT p then edge_loop tx ps has_id has_label True has_start_id has_end_id
      else if is_field tx str_start_id Type_INTEGER p then edge_loop tx ps has_id has_label has_properties True has_end_id
      else if is_field tx str_end_id Type_INTEGER p then edge_loop tx ps has_id has_label has_properties has_start_id True
      else False)"

definition is_object_edge :: "pg_text \<Rightarrow> agtype_pair list \<Rightarrow> bool" where
  "is_object_edge tx pairs \<longleftrightarrow> length pairs = 5 \<and> edge_loop tx pairs False False False False False"

text \<open>The loop of \<open>is_array_path\<close>: vertex, edge, vertex and so on, ending with a vertex.\<close>

fun path_loop :: "agtype_value list \<Rightarrow> bool" where
  "path_loop [] \<longleftrightarrow> False"
| "path_loop [v] \<longleftrightarrow> agtv_type v = Type_VERTEX"
| "path_loop (v # e # es) \<longleftrightarrow> agtv_type v = Type_VERTEX \<and> agtv_type e = Type_EDGE \<and> path_loop es"

definition is_array_path :: "agtype_value list \<Rightarrow> bool" where
  "is_array_path elems \<longleftrightarrow> \<not> (length elems < 1 \<or> (length elems - 1) mod 2 \<noteq> 0) \<and> path_loop elems"

text \<open>\<open>last_updated_value->type = type\<close> on the copy in the parent's frame.\<close>

definition retag_last :: "agtype_value_type \<Rightarrow> agtype_parse_state \<Rightarrow> agtype_parse_state result" where
  "retag_last T p =
     (case (ps_last_updated p, ps_cont p) of
        (Some i, PS_ARRAY raw es) \<Rightarrow>
          if i < length es then bindE (retag T (es ! i)) (\<lambda>v. Inr (p\<lparr>ps_cont := PS_ARRAY raw (es[i := v])\<rparr>)) else Inl BadAccess
      | (Some i, PS_OBJECT pairs k) \<Rightarrow>
          if i < length pairs
          then bindE (retag T (pair_value (pairs ! i))) (\<lambda>v.
               Inr (p\<lparr>ps_cont := PS_OBJECT (pairs[i := (pair_key (pairs ! i), v, pair_order (pairs ! i))]) k\<rparr>))
          else Inl BadAccess
      | _ \<Rightarrow> Inl BadAccess)"

text \<open>The common end of both typecasts: the type of the result, and below the top level also of the
  copy.\<close>

definition set_type :: "agtype_value_type \<Rightarrow> agtype_value \<Rightarrow> agtype_in_state \<Rightarrow> agtype_in_state result" where
  "set_type T agtv st =
     bindE (retag T agtv) (\<lambda>v.
       case parse_state st of
         [] \<Rightarrow> Inr (st\<lparr>in_res := Some v\<rparr>)
       | p # ps \<Rightarrow> bindE (retag_last T p) (\<lambda>p'. Inr \<lparr>parse_state = p' # ps, in_res = Some v\<rparr>))"

definition agtype_typecast_object ::
    "pg_text \<Rightarrow> agtype_pair list \<Rightarrow> byte list \<Rightarrow> agtype_in_state \<Rightarrow> agtype_in_state result" where
  "agtype_typecast_object tx pairs annotation st =
     (if length annotation = 6 \<and> pg_strncase_eq tx annotation str_vertex
      then if is_object_vertex tx pairs then set_type Type_VERTEX (AGTV_OBJECT pairs) st
           else Inl (Ereport ''object is not a vertex'')
      else if length annotation = 4 \<and> pg_strncase_eq tx annotation str_edge
      then if is_object_edge tx pairs then set_type Type_EDGE (AGTV_OBJECT pairs) st
           else Inl (Ereport ''object is not a edge'')
      else Inl (Ereport ''invalid annotation value for object''))"

definition agtype_typecast_array ::
    "pg_text \<Rightarrow> bool \<Rightarrow> agtype_value list \<Rightarrow> byte list \<Rightarrow> agtype_in_state \<Rightarrow> agtype_in_state result" where
  "agtype_typecast_array tx raw elems annotation st =
     (if length annotation = 4 \<and> pg_strncase_eq tx annotation str_path
      then if is_array_path elems then set_type Type_PATH (AGTV_ARRAY raw elems) st
           else Inl (Ereport ''array is not a valid path'')
      else Inl (Ereport ''invalid annotation value for object''))"

definition agtype_in_agtype_annotation ::
    "pg_text \<Rightarrow> byte list option \<Rightarrow> agtype_in_state \<Rightarrow> agtype_in_state result" where
  "agtype_in_agtype_annotation tx annotation st =
     bindE (need_token annotation) (\<lambda>a.
       case in_res st of
         None \<Rightarrow> Inl BadAccess
       | Some (AGTV_OBJECT pairs) \<Rightarrow> agtype_typecast_object tx pairs a st
       | Some (AGTV_ARRAY raw elems) \<Rightarrow> agtype_typecast_array tx raw elems a st
       | Some _ \<Rightarrow> Inl (Ereport ''unsupported type to annotate''))"

subsection \<open>The input function\<close>

definition agtype_in_sem :: "pg_env \<Rightarrow> pg_text \<Rightarrow> pg_num_text \<Rightarrow> agtype_in_state agtype_sem_action" where
  "agtype_in_sem env tx nt =
     \<lparr>sem_object_start = Some (agtype_in_object_start env), sem_object_end = Some (agtype_in_object_end env),
      sem_array_start = Some (agtype_in_array_start env), sem_array_end = Some (agtype_in_array_end env),
      sem_object_field_start = Some (agtype_in_object_field_start env), sem_object_field_end = None,
      sem_array_element_start = None, sem_array_element_end = None,
      sem_scalar = Some (agtype_in_scalar env tx nt), sem_annotation = Some (agtype_in_agtype_annotation tx)\<rparr>"

text \<open>\<open>str\<close> with the bytes behind it; fuel is one more than the number of bytes.\<close>

definition agtype_value_from_cstring ::
    "pg_env \<Rightarrow> pg_text \<Rightarrow> pg_num_text \<Rightarrow> byte list \<Rightarrow> byte list \<Rightarrow> agtype_value option result" where
  "agtype_value_from_cstring env tx nt str after =
     bindE (parse_agtype tx (agtype_in_sem env tx nt) (Suc (length str))
              (make_agtype_lex_context_cstring_len str after True, \<lparr>parse_state = [], in_res = None\<rparr>))
       (\<lambda>(_, st). Inr (in_res st))"

definition agtype_from_cstring ::
    "pg_env \<Rightarrow> pg_text \<Rightarrow> pg_num_text \<Rightarrow> byte list \<Rightarrow> byte list \<Rightarrow> byte list result" where
  "agtype_from_cstring env tx nt str after =
     bindE (agtype_value_from_cstring env tx nt str after) (\<lambda>r.
       case r of None \<Rightarrow> Inl BadAccess | Some v \<Rightarrow> agtype_value_to_agtype env v)"

subsection \<open>An instance of the number conversions\<close>

text \<open>Conversions for concrete inputs: integers in decimal, floats as the decimal of their bits with a
  fraction of zero, numerics as the digits themselves behind a length word.\<close>

definition byte_text :: "string \<Rightarrow> byte list" where "byte_text s = map (\<lambda>c. of_nat (of_char c)) s"

definition text_chars :: "byte list \<Rightarrow> string" where "text_chars s = map (\<lambda>b. char_of (unat b)) s"

definition dec_word_in :: "byte list \<Rightarrow> int64 result" where
  "dec_word_in s =
     (let (i, erange, endptr) = strtol (text_chars s)
      in if erange \<or> endptr \<noteq> [] then Inl (Ereport ''invalid input syntax'') else Inr (word_of_int i))"

definition decimal_text :: pg_num_text where
  "decimal_text =
     \<lparr>pg_strtoint64 = dec_word_in,
      pg_float8in = (\<lambda>s. dec_word_in (takeWhile (\<lambda>b. b \<noteq> 46) s)),
      pg_numeric_in = (\<lambda>s. Inr (of_nat (4 * (4 + length s)) # 0 # 0 # 0 # s)),
      pg_lltoa_text = (\<lambda>i. byte_text (dec_int (sint i))),
      pg_float8out = (\<lambda>f. byte_text (dec_int (sint f))),
      pg_numeric_out = drop 4\<rparr>"

end
