(* ===== verification/Agtype_Out.thy ===== *)
theory Agtype_Out
  imports Agtype_In
begin

text \<open>
  Writing agtype text (\<open>src/backend/utils/adt/agtype.c\<close>): \<open>agtype_to_cstring_worker\<close> walks a stored
  container with the iterator and prints one token after the other; composites are printed by
  storing them again as objects or arrays and calling the worker on the result. The worker takes
  fuel, which bounds both the nesting of composites and the number of tokens of one walk.
\<close>

definition str_colons :: "byte list \<Rightarrow> byte list" where "str_colons s = 58 # 58 # s"

definition comma_space :: "byte list" where "comma_space = [44, 32]"

text \<open>\<open>float8out_internal\<close> with \<open>.0\<close> added to what would read as an integer.\<close>

definition float_text :: "pg_num_text \<Rightarrow> uint64 \<Rightarrow> byte list" where
  "float_text nt f = (let s = pg_float8out nt f in if is_decimal_needed_len s then s @ [ch_dot, ch_0] else s)"

text \<open>\<open>agtype_put_escaped_value\<close>; \<open>worker\<close> is the call of \<open>agtype_to_cstring_worker\<close> on the datum of a
  composite, without indentation.\<close>

definition put_composite ::
    "pg_env \<Rightarrow> (byte list \<Rightarrow> byte list \<Rightarrow> byte list result) \<Rightarrow> byte list \<Rightarrow> bool \<Rightarrow> agtype_value \<Rightarrow> byte list \<Rightarrow> byte list result" where
  "put_composite env worker out extd scalar_val tag =
     bindE (agtype_value_to_agtype env scalar_val) (\<lambda>prop.
     bindE (worker out prop) (\<lambda>out'. Inr (if extd then out' @ str_colons tag else out')))"

definition agtype_put_escaped_value ::
    "pg_env \<Rightarrow> pg_num_text \<Rightarrow> (byte list \<Rightarrow> byte list \<Rightarrow> byte list result) \<Rightarrow> byte list \<Rightarrow> agtype_value \<Rightarrow> bool \<Rightarrow> byte list result" where
  "agtype_put_escaped_value env nt worker out scalar_val extd =
     (case scalar_val of
        AGTV_NULL \<Rightarrow> Inr (out @ str_null)
      | AGTV_STRING s \<Rightarrow> Inr (escape_agtype out s)
      | AGTV_NUMERIC n \<Rightarrow> Inr (out @ pg_numeric_out nt n @ (if extd then str_colons str_numeric else []))
      | AGTV_INTEGER i \<Rightarrow> Inr (out @ pg_lltoa_text nt i)
      | AGTV_FLOAT f \<Rightarrow> Inr (out @ float_text nt f)
      | AGTV_BOOL b \<Rightarrow> Inr (out @ (if b then str_true else str_false))
      | AGTV_VERTEX ps \<Rightarrow> put_composite env worker out extd (AGTV_OBJECT ps) str_vertex
      | AGTV_EDGE ps \<Rightarrow> put_composite env worker out extd (AGTV_OBJECT ps) str_edge
      | AGTV_PATH es \<Rightarrow> put_composite env worker out extd (AGTV_ARRAY False es) str_path
      | _ \<Rightarrow> Inl (Ereport ''unknown agtype scalar type''))"

subsection \<open>The worker\<close>

record out_state =
  o_buf :: "byte list"
  o_first :: bool
  o_level :: nat
  o_use_indent :: bool
  o_raw_scalar :: bool
  o_last_was_key :: bool

definition add_indent :: "byte list \<Rightarrow> bool \<Rightarrow> nat \<Rightarrow> byte list" where
  "add_indent out indent level = (if indent then out @ [ch_nl] @ replicate (4 * level) ch_space else out)"

text \<open>\<open>if (!first) appendBinaryStringInfo(out, ", ", ispaces);\<close>\<close>

definition put_comma :: "bool \<Rightarrow> out_state \<Rightarrow> byte list" where
  "put_comma indent os = (if o_first os then o_buf os else o_buf os @ take (if indent then 1 else 2) comma_space)"

type_synonym put_fun = "byte list \<Rightarrow> agtype_value \<Rightarrow> byte list result"

text \<open>The cases of the switch other than \<open>WAGT_KEY\<close>.\<close>

definition out_token ::
    "put_fun \<Rightarrow> bool \<Rightarrow> agtype_iterator_token \<Rightarrow> agtype_value \<Rightarrow> out_state \<Rightarrow> out_state result" where
  "out_token put indent tok v os =
     (case tok of
        WAGT_BEGIN_ARRAY \<Rightarrow>
          (let buf = put_comma indent os; raw = (case v of AGTV_ARRAY r _ \<Rightarrow> r | _ \<Rightarrow> False)
           in Inr (os\<lparr>o_buf := (if raw then buf
                              else add_indent buf (o_use_indent os \<and> \<not> o_last_was_key os) (o_level os) @ [91]),
                     o_raw_scalar := o_raw_scalar os \<or> raw, o_first := True, o_level := o_level os + 1\<rparr>))
      | WAGT_BEGIN_OBJECT \<Rightarrow>
          Inr (os\<lparr>o_buf := add_indent (put_comma indent os) (o_use_indent os \<and> \<not> o_last_was_key os) (o_level os) @ [123],
                 o_first := True, o_level := o_level os + 1\<rparr>)
      | WAGT_ELEM \<Rightarrow>
          (let buf = put_comma indent os
           in bindE (put (if o_raw_scalar os then buf else add_indent buf (o_use_indent os) (o_level os)) v) (\<lambda>buf'.
              Inr (os\<lparr>o_buf := buf', o_first := False\<rparr>)))
      | WAGT_END_ARRAY \<Rightarrow>
          (let level = o_level os - 1
           in Inr (os\<lparr>o_buf := (if o_raw_scalar os then o_buf os else add_indent (o_buf os) (o_use_indent os) level @ [93]),
                     o_first := False, o_level := level\<rparr>))
      | WAGT_END_OBJECT \<Rightarrow>
          (let level = o_level os - 1
           in Inr (os\<lparr>o_buf := add_indent (o_buf os) (o_use_indent os) level @ [125], o_first := False, o_level := level\<rparr>))
      | _ \<Rightarrow> Inl (Ereport ''unknown agtype iterator token type''))"

text \<open>The key and the colon after it.\<close>

definition out_key :: "put_fun \<Rightarrow> bool \<Rightarrow> agtype_value \<Rightarrow> out_state \<Rightarrow> out_state result" where
  "out_key put indent v os =
     bindE (put (add_indent (put_comma indent os) (o_use_indent os) (o_level os)) v) (\<lambda>buf.
       Inr (os\<lparr>o_buf := buf @ [58, 32], o_first := True\<rparr>))"

text \<open>The loop. \<open>pending\<close> holds the token and value the switch is rerun on (\<open>redo_switch\<close>).\<close>

primrec out_loop ::
    "(agtype_iterator list \<Rightarrow> (agtype_iterator_token \<times> agtype_value \<times> agtype_iterator list) result) \<Rightarrow> put_fun \<Rightarrow> bool \<Rightarrow> nat \<Rightarrow>
     agtype_iterator list \<Rightarrow> (agtype_iterator_token \<times> agtype_value) option \<Rightarrow> out_state \<Rightarrow> byte list result" where
  "out_loop nxt put indent 0 its pending os = Inl OutOfFuel"
| "out_loop nxt put indent (Suc fuel) its pending os =
     bindE (case pending of Some (tok, v) \<Rightarrow> Inr (tok, v, its) | None \<Rightarrow> nxt its) (\<lambda>(tok, v, its1).
       if tok = WAGT_DONE then if pending = None then Inr (o_buf os) else Inl (Ereport ''unknown agtype iterator token type'')
       else if tok = WAGT_KEY then
         bindE (out_key put indent v os) (\<lambda>o1.
         bindE (nxt its1) (\<lambda>(tok2, v2, its2).
           if tok2 = WAGT_VALUE
           then bindE (put (o_buf o1) v2) (\<lambda>buf.
                out_loop nxt put indent fuel its2 None
                  (o1\<lparr>o_buf := buf, o_first := False, o_use_indent := indent, o_last_was_key := False\<rparr>))
           else out_loop nxt put indent fuel its2 (Some (tok2, v2)) (o1\<lparr>o_use_indent := indent, o_last_was_key := True\<rparr>)))
       else bindE (out_token put indent tok v os) (\<lambda>o1.
            out_loop nxt put indent fuel its1 None (o1\<lparr>o_use_indent := indent, o_last_was_key := False\<rparr>)))"

definition out_start :: "byte list \<Rightarrow> out_state" where
  "out_start out = \<lparr>o_buf = out, o_first = True, o_level = 0, o_use_indent = False, o_raw_scalar = False, o_last_was_key = False\<rparr>"

primrec agtype_to_cstring_worker ::
    "pg_env \<Rightarrow> pg_num_text \<Rightarrow> bool \<Rightarrow> nat \<Rightarrow> bool \<Rightarrow> byte list \<Rightarrow> byte list \<Rightarrow> byte list result" where
  "agtype_to_cstring_worker env nt extd 0 = (\<lambda>indent out c. Inl OutOfFuel)"
| "agtype_to_cstring_worker env nt extd (Suc fuel) = (\<lambda>indent out c.
     bindE (agtype_iterator_init c) (\<lambda>its.
       out_loop (\<lambda>its. agtype_iterator_next (fill_agtype_value env fuel) its False)
         (\<lambda>out v. agtype_put_escaped_value env nt (agtype_to_cstring_worker env nt extd fuel False) out v extd)
         indent fuel its None (out_start out)))"

definition agtype_to_cstring :: "pg_env \<Rightarrow> pg_num_text \<Rightarrow> nat \<Rightarrow> byte list \<Rightarrow> byte list \<Rightarrow> byte list result" where
  "agtype_to_cstring env nt fuel out c = agtype_to_cstring_worker env nt True fuel False out c"

definition agtype_to_cstring_indent :: "pg_env \<Rightarrow> pg_num_text \<Rightarrow> nat \<Rightarrow> byte list \<Rightarrow> byte list \<Rightarrow> byte list result" where
  "agtype_to_cstring_indent env nt fuel out c = agtype_to_cstring_worker env nt True fuel True out c"

text \<open>\<open>agtype_out\<close> and \<open>agtype_in\<close> on a datum and on a C string.\<close>

definition agtype_out :: "pg_env \<Rightarrow> pg_num_text \<Rightarrow> nat \<Rightarrow> byte list \<Rightarrow> byte list result" where
  "agtype_out env nt fuel agt = agtype_to_cstring env nt fuel [] agt"

definition agtype_in :: "pg_env \<Rightarrow> pg_text \<Rightarrow> pg_num_text \<Rightarrow> byte list \<Rightarrow> byte list result" where
  "agtype_in env tx nt str = agtype_from_cstring env tx nt str [0]"

text \<open>The binary protocol: a version byte and the text.\<close>

definition agtype_send :: "pg_env \<Rightarrow> pg_num_text \<Rightarrow> nat \<Rightarrow> byte list \<Rightarrow> byte list result" where
  "agtype_send env nt fuel agt = bindE (agtype_to_cstring env nt fuel [] agt) (\<lambda>s. Inr (1 # s))"

definition agtype_recv :: "pg_env \<Rightarrow> pg_text \<Rightarrow> pg_num_text \<Rightarrow> byte list \<Rightarrow> byte list result" where
  "agtype_recv env tx nt buf =
     (case buf of
        [] \<Rightarrow> Inl (Ereport ''insufficient data left in message'')
      | version # str \<Rightarrow>
          if version = 1 then agtype_from_cstring env tx nt str [0]
          else Inl (Ereport ''unsupported agtype version number''))"

end
