(* ===== verification/Agtype_Print.thy ===== *)
theory Agtype_Print
  imports Agtype_Out Agtype_Decode
begin

text \<open>
  The printed form of a value as a function of the value (\<open>ptext\<close>), and that
  \<open>agtype_to_cstring_worker\<close> prints it when it walks the stored form, whatever the nesting of
  containers and composites, given enough fuel.
\<close>

subsection \<open>The printed form\<close>

fun seps :: "bool \<Rightarrow> byte list list \<Rightarrow> byte list" where
  "seps first [] = []"
| "seps first (x # xs) = (if first then [] else comma_space) @ x @ seps False xs"

definition pair_text :: "byte list \<Rightarrow> byte list \<Rightarrow> byte list" where
  "pair_text k t = escape_agtype [] k @ [58, 32] @ t"

function ptext :: "pg_num_text \<Rightarrow> agtype_value \<Rightarrow> byte list" where
  "ptext nt v =
     (case v of
        AGTV_NULL \<Rightarrow> str_null
      | AGTV_STRING s \<Rightarrow> escape_agtype [] s
      | AGTV_NUMERIC n \<Rightarrow> pg_numeric_out nt n @ str_colons str_numeric
      | AGTV_INTEGER i \<Rightarrow> pg_lltoa_text nt i
      | AGTV_FLOAT f \<Rightarrow> float_text nt f
      | AGTV_BOOL b \<Rightarrow> if b then str_true else str_false
      | AGTV_ARRAY raw es \<Rightarrow> [91] @ seps True (map (\<lambda>w. ptext nt w) es) @ [93]
      | AGTV_OBJECT ps \<Rightarrow> [123] @ seps True (map (\<lambda>p. pair_text (pair_key p) (ptext nt (pair_value p))) ps) @ [125]
      | AGTV_VERTEX ps \<Rightarrow>
          [123] @ seps True (map (\<lambda>p. pair_text (pair_key p) (ptext nt (pair_value p))) ps) @ [125] @ str_colons str_vertex
      | AGTV_EDGE ps \<Rightarrow>
          [123] @ seps True (map (\<lambda>p. pair_text (pair_key p) (ptext nt (pair_value p))) ps) @ [125] @ str_colons str_edge
      | AGTV_PATH es \<Rightarrow> [91] @ seps True (map (\<lambda>w. ptext nt w) es) @ [93] @ str_colons str_path
      | AGTV_BINARY _ _ \<Rightarrow> [])"
  by pat_completeness auto
termination by (relation "measure (\<lambda>(nt, v). size v)") (auto simp: termination_simp)

declare ptext.simps [simp del]

lemma ptext_simps [simp]:
  "ptext nt AGTV_NULL = str_null" "ptext nt (AGTV_STRING s) = escape_agtype [] s"
  "ptext nt (AGTV_NUMERIC n) = pg_numeric_out nt n @ str_colons str_numeric"
  "ptext nt (AGTV_INTEGER i) = pg_lltoa_text nt i" "ptext nt (AGTV_FLOAT f) = float_text nt f"
  "ptext nt (AGTV_BOOL b) = (if b then str_true else str_false)"
  "ptext nt (AGTV_ARRAY raw es) = [91] @ seps True (map (ptext nt) es) @ [93]"
  "ptext nt (AGTV_OBJECT ps) = [123] @ seps True (map (\<lambda>p. pair_text (pair_key p) (ptext nt (pair_value p))) ps) @ [125]"
  "ptext nt (AGTV_VERTEX ps) = ptext nt (AGTV_OBJECT ps) @ str_colons str_vertex"
  "ptext nt (AGTV_EDGE ps) = ptext nt (AGTV_OBJECT ps) @ str_colons str_edge"
  "ptext nt (AGTV_PATH es) = ptext nt (AGTV_ARRAY False es) @ str_colons str_path"
  by (simp_all add: ptext.simps)

subsection \<open>One walk\<close>

text \<open>The number of iterations of the loop for a value.\<close>

function steps :: "agtype_value \<Rightarrow> nat" where
  "steps v =
     (case v of
        AGTV_ARRAY raw es \<Rightarrow> 2 + sum_list (map steps es)
      | AGTV_OBJECT ps \<Rightarrow> 2 + sum_list (map (\<lambda>p. if IS_A_AGTYPE_SCALAR (pair_value p) then 1 else Suc (steps (pair_value p))) ps)
      | _ \<Rightarrow> 1)"
  by pat_completeness auto
termination by (relation "measure size") (auto simp: termination_simp)

declare steps.simps [simp del]

abbreviation pair_steps :: "agtype_pair \<Rightarrow> nat" where
  "pair_steps p \<equiv> (if IS_A_AGTYPE_SCALAR (pair_value p) then 1 else Suc (steps (pair_value p)))"

lemma steps_simps [simp]:
  "steps (AGTV_ARRAY raw es) = 2 + sum_list (map steps es)"
  "steps (AGTV_OBJECT ps) = 2 + sum_list (map pair_steps ps)"
  "IS_A_AGTYPE_SCALAR v \<Longrightarrow> steps v = 1"
  by (subst steps.simps, simp, (cases v; simp)?)+

definition ost :: "byte list \<Rightarrow> bool \<Rightarrow> nat \<Rightarrow> bool \<Rightarrow> out_state" where
  "ost buf first level key = \<lparr>o_buf = buf, o_first = first, o_level = level, o_use_indent = False, o_raw_scalar = False, o_last_was_key = key\<rparr>"

definition comma :: "bool \<Rightarrow> byte list \<Rightarrow> byte list" where
  "comma first buf = (if first then buf else buf @ comma_space)"

lemma put_comma_ost [simp]: "put_comma False (ost buf first level key) = comma first buf"
  by (simp add: put_comma_def ost_def comma_def comma_space_def)

lemma ost_sel [simp]: "o_buf (ost buf first level key) = buf" "o_first (ost buf first level key) = first"
  "o_level (ost buf first level key) = level" "o_use_indent (ost buf first level key) = False"
  "o_raw_scalar (ost buf first level key) = False"
  by (simp_all add: ost_def)

lemma ost_upd [simp]:
  "(ost buf first level key)\<lparr>o_buf := b\<rparr> = ost b first level key"
  "(ost buf first level key)\<lparr>o_first := f\<rparr> = ost buf f level key"
  "(ost buf first level key)\<lparr>o_level := l\<rparr> = ost buf first l key"
  "(ost buf first level key)\<lparr>o_use_indent := False\<rparr> = ost buf first level key"
  "(ost buf first level key)\<lparr>o_raw_scalar := False\<rparr> = ost buf first level key"
  "(ost buf first level key)\<lparr>o_last_was_key := k\<rparr> = ost buf first level k"
  by (simp_all add: ost_def)

lemma add_indent_False [simp]: "add_indent out False level = out"
  by (simp add: add_indent_def)

definition prints :: "put_fun \<Rightarrow> pg_num_text \<Rightarrow> agtype_value \<Rightarrow> bool" where
  "prints put nt w \<longleftrightarrow> (\<forall>out. put out (norm w) = Inr (out @ ptext nt w))"

text \<open>A walk over the stored container prints it.\<close>

definition walks :: "fill_fun \<Rightarrow> put_fun \<Rightarrow> pg_num_text \<Rightarrow> agtype_value \<Rightarrow> bool" where
  "walks fill put nt v \<longleftrightarrow> (\<forall>rst. \<exists>it. iterator_from_container (cimage v @ rst) = Inr it \<and>
     it_state it \<in> {AGTI_ARRAY_START, AGTI_OBJECT_START} \<and> (\<forall>its. \<exists>r. iterator_start it its = Inr r) \<and>
     (\<forall>its buf first level key m.
        out_loop (\<lambda>its. agtype_iterator_next fill its False) put False (steps v + m) (it # its) None (ost buf first level key) =
        out_loop (\<lambda>its. agtype_iterator_next fill its False) put False m its None
          (ost (comma first buf @ ptext nt v) False level False)))"

definition shows_child :: "fill_fun \<Rightarrow> put_fun \<Rightarrow> pg_num_text \<Rightarrow> agtype_value \<Rightarrow> bool" where
  "shows_child fill put nt w \<longleftrightarrow>
     reads fill w \<and> (if IS_A_AGTYPE_SCALAR w then prints put nt w else walks fill put nt w)"

lemma steps_pos: "0 < steps v"
  by (subst steps.simps) (simp split: agtype_value.splits)

text \<open>Rerunning the switch on a token is the same as reading it.\<close>

lemma out_loop_pending:
  "nxt its = Inr (tok, v, its1) \<Longrightarrow> tok \<noteq> WAGT_DONE \<Longrightarrow> 0 < n \<Longrightarrow>
   out_loop nxt put indent n its1 (Some (tok, v)) os = out_loop nxt put indent n its None os"
  by (cases n) simp_all

lemma out_loop_enter:
  "nxt its = nxt its' \<Longrightarrow> 0 < n \<Longrightarrow> out_loop nxt put indent n its None os = out_loop nxt put indent n its' None os"
  by (cases n) simp_all

lemma shallow_container:
  assumes "\<not> IS_A_AGTYPE_SCALAR w" "iterator_from_container (cimage w @ rst) = Inr ch" "it_state ch \<in> {AGTI_ARRAY_START, AGTI_OBJECT_START}"
  shows "iterator_child False tok (shallow w rst) it its = agtype_iterator_next fill (ch # it # its) False"
  using assms by (simp add: iterator_child_def shallow_def next_start)

lemma shallow_scalar:
  "IS_A_AGTYPE_SCALAR w \<Longrightarrow> iterator_child skip tok (shallow w rst) it its = Inr (tok, norm w, it # its)"
  using norm_scalar [of w] by (simp add: iterator_child_def shallow_def)

lemma walksE:
  assumes "walks fill put nt w"
  obtains ch where "iterator_from_container (cimage w @ rst) = Inr ch" "it_state ch \<in> {AGTI_ARRAY_START, AGTI_OBJECT_START}"
    "\<And>its. \<exists>r. iterator_start ch its = Inr r"
    "\<And>its buf first level key m.
        out_loop (\<lambda>its. agtype_iterator_next fill its False) put False (steps w + m) (ch # its) None (ost buf first level key) =
        out_loop (\<lambda>its. agtype_iterator_next fill its False) put False m its None (ost (comma first buf @ ptext nt w) False level False)"
  using assms unfolding walks_def by metis

lemma iterator_start_token: "iterator_start it its = Inr (tok, v, its') \<Longrightarrow> tok = WAGT_BEGIN_ARRAY \<or> tok = WAGT_BEGIN_OBJECT"
  by (auto simp: iterator_start_def bindE_eq_Inr split: agt_iterator_state.splits)

lemma out_elem:
  assumes nx: "agtype_iterator_next fill (it # its) False = iterator_child False WAGT_ELEM (shallow w rst) it' its"
    and "shows_child fill put nt w"
  shows "out_loop (\<lambda>its. agtype_iterator_next fill its False) put False (steps w + m) (it # its) None (ost buf first level key) =
    out_loop (\<lambda>its. agtype_iterator_next fill its False) put False m (it' # its) None (ost (comma first buf @ ptext nt w) False level False)"
proof (cases "IS_A_AGTYPE_SCALAR w")
  case True
  with assms(2) have "put (comma first buf) (norm w) = Inr (comma first buf @ ptext nt w)"
    by (simp add: shows_child_def prints_def)
  with True show ?thesis by (simp add: nx shallow_scalar out_token_def)
next
  case False
  with assms(2) have "walks fill put nt w" by (simp add: shows_child_def)
  then obtain ch where ch: "iterator_from_container (cimage w @ rst) = Inr ch" "it_state ch \<in> {AGTI_ARRAY_START, AGTI_OBJECT_START}"
    "\<And>its. \<exists>r. iterator_start ch its = Inr r"
    "\<And>its buf first level key m.
        out_loop (\<lambda>its. agtype_iterator_next fill its False) put False (steps w + m) (ch # its) None (ost buf first level key) =
        out_loop (\<lambda>its. agtype_iterator_next fill its False) put False m its None (ost (comma first buf @ ptext nt w) False level False)"
    by (rule walksE [where rst = rst]) (rule that)
  have "out_loop (\<lambda>its. agtype_iterator_next fill its False) put False (steps w + m) (it # its) None (ost buf first level key) =
      out_loop (\<lambda>its. agtype_iterator_next fill its False) put False (steps w + m) (ch # it' # its) None (ost buf first level key)"
    by (rule out_loop_enter) (use nx shallow_container [OF False ch(1,2)] steps_pos [of w] in simp_all)
  then show ?thesis by (simp only: ch(4))
qed

lemma out_pair:
  assumes nk: "agtype_iterator_next fill (it # its) False = Inr (WAGT_KEY, AGTV_STRING k, it1 # its)"
    and nv: "agtype_iterator_next fill (it1 # its) False = iterator_child False WAGT_VALUE (shallow w rst) it' its"
    and sw: "shows_child fill put nt w" and pk: "prints put nt (AGTV_STRING k)"
  shows "out_loop (\<lambda>its. agtype_iterator_next fill its False) put False
      ((if IS_A_AGTYPE_SCALAR w then 1 else Suc (steps w)) + m) (it # its) None (ost buf first level key) =
    out_loop (\<lambda>its. agtype_iterator_next fill its False) put False m (it' # its) None
      (ost (comma first buf @ pair_text k (ptext nt w)) False level False)"
proof -
  have key: "out_key put False (AGTV_STRING k) (ost buf first level key) =
      Inr (ost (comma first buf @ escape_agtype [] k @ [58, 32]) True level key)"
    using pk by (simp add: out_key_def prints_def)
  show ?thesis
  proof (cases "IS_A_AGTYPE_SCALAR w")
    case True
    with sw have "put b (norm w) = Inr (b @ ptext nt w)" for b by (simp add: shows_child_def prints_def)
    with True show ?thesis by (simp add: nk key nv shallow_scalar pair_text_def)
  next
    case False
    with sw have "walks fill put nt w" by (simp add: shows_child_def)
    then obtain ch where ch: "iterator_from_container (cimage w @ rst) = Inr ch" "it_state ch \<in> {AGTI_ARRAY_START, AGTI_OBJECT_START}"
      "\<And>its. \<exists>r. iterator_start ch its = Inr r"
      "\<And>its buf first level key m.
          out_loop (\<lambda>its. agtype_iterator_next fill its False) put False (steps w + m) (ch # its) None (ost buf first level key) =
          out_loop (\<lambda>its. agtype_iterator_next fill its False) put False m its None (ost (comma first buf @ ptext nt w) False level False)"
      by (rule walksE [where rst = rst]) (rule that)
    have n2: "agtype_iterator_next fill (it1 # its) False = agtype_iterator_next fill (ch # it' # its) False"
      using nv shallow_container [OF False ch(1,2)] by simp
    obtain tok v its2 where t: "agtype_iterator_next fill (ch # it' # its) False = Inr (tok, v, its2)" "tok \<noteq> WAGT_VALUE" "tok \<noteq> WAGT_DONE"
      using ch(3) [of "it' # its"] by (auto simp: next_start [OF ch(2)] dest: iterator_start_token)
    have "out_loop (\<lambda>its. agtype_iterator_next fill its False) put False (steps w + m) its2 (Some (tok, v))
        (ost (comma first buf @ escape_agtype [] k @ [58, 32]) True level True) =
      out_loop (\<lambda>its. agtype_iterator_next fill its False) put False (steps w + m) (ch # it' # its) None
        (ost (comma first buf @ escape_agtype [] k @ [58, 32]) True level True)"
      by (rule out_loop_pending) (use t steps_pos [of w] in simp_all)
    then show ?thesis
      using False by (simp add: nk key n2 t ch(4) pair_text_def comma_def)
  qed
qed

text \<open>The children of an array and the pairs of an object.\<close>

lemma out_array_loop:
  assumes "\<And>w. w \<in> set es \<Longrightarrow> shows_child fill put nt w" "fits (length (array_image enc raw es))" "i \<le> length es"
  shows "out_loop (\<lambda>its. agtype_iterator_next fill its False) put False (sum_list (map steps (drop i es)) + m)
      (array_it raw es rest i AGTI_ARRAY_ELEM # its) None (ost buf first level key) =
    out_loop (\<lambda>its. agtype_iterator_next fill its False) put False m
      (array_it raw es rest (length es) AGTI_ARRAY_ELEM # its) None
      (ost (buf @ seps first (map (ptext nt) (drop i es))) (first \<and> i = length es) level (key \<and> i = length es))"
  using assms(3)
proof (induction "length es - i" arbitrary: i buf first key)
  case 0
  then show ?case by simp
next
  case (Suc n)
  then have i: "i < length es" by simp
  have d: "drop i es = es ! i # drop (Suc i) es" using i by (rule Cons_nth_drop_Suc [symmetric])
  have sh: "shows_child fill put nt (es ! i)" using assms(1) i by simp
  then have "reads fill (es ! i)" by (simp add: shows_child_def)
  from next_array_elem [OF this i assms(2)] obtain rst where
    "agtype_iterator_next fill (array_it raw es rest i AGTI_ARRAY_ELEM # its) False =
       iterator_child False WAGT_ELEM (shallow (es ! i) rst) (array_it raw es rest (Suc i) AGTI_ARRAY_ELEM) its" by blast
  note step = out_elem [OF this sh]
  have "n = length es - Suc i" "Suc i \<le> length es" using Suc.hyps(2) i by simp_all
  note IH = Suc.hyps(1) [OF this]
  show ?case
    unfolding d list.map sum_list.Cons add.assoc step
    unfolding IH using i by (simp add: comma_def)
qed

lemma out_object_loop:
  assumes "\<And>p. p \<in> set ps \<Longrightarrow> shows_child fill put nt (pair_value p)" "\<And>k. reads fill (AGTV_STRING k)"
    and "\<And>k. prints put nt (AGTV_STRING k)" "fits (length (object_image enc_pair ps))" "i \<le> length ps"
  shows "out_loop (\<lambda>its. agtype_iterator_next fill its False) put False (sum_list (map pair_steps (drop i ps)) + m)
      (object_it ps rest i (of_nat (val_off ps i)) AGTI_OBJECT_KEY # its) None (ost buf first level key) =
    out_loop (\<lambda>its. agtype_iterator_next fill its False) put False m
      (object_it ps rest (length ps) (of_nat (val_off ps (length ps))) AGTI_OBJECT_KEY # its) None
      (ost (buf @ seps first (map (\<lambda>p. pair_text (pair_key p) (ptext nt (pair_value p))) (drop i ps)))
         (first \<and> i = length ps) level (key \<and> i = length ps))"
  using assms(5)
proof (induction "length ps - i" arbitrary: i buf first key)
  case 0
  then show ?case by simp
next
  case (Suc n)
  then have i: "i < length ps" by simp
  have d: "drop i ps = ps ! i # drop (Suc i) ps" using i by (rule Cons_nth_drop_Suc [symmetric])
  have sh: "shows_child fill put nt (pair_value (ps ! i))" using assms(1) i by simp
  then have "reads fill (pair_value (ps ! i))" by (simp add: shows_child_def)
  from next_object_value [OF this i assms(4)] obtain rst where nv:
    "agtype_iterator_next fill (object_it ps rest i (of_nat (val_off ps i)) AGTI_OBJECT_VALUE # its) False =
      iterator_child False WAGT_VALUE (shallow (pair_value (ps ! i)) rst)
        (object_it ps rest (Suc i) (of_nat (val_off ps (Suc i))) AGTI_OBJECT_KEY) its" by blast
  note step = out_pair [OF next_object_key [OF assms(2) i assms(4)] nv sh assms(3)]
  have "n = length ps - Suc i" "Suc i \<le> length ps" using Suc.hyps(2) i by simp_all
  note IH = Suc.hyps(1) [OF this]
  show ?case
    unfolding d list.map sum_list.Cons add.assoc step
    unfolding IH using i by (simp add: comma_def)
qed

subsection \<open>Containers\<close>

lemma out_loop_token:
  assumes "agtype_iterator_next fill its False = Inr (tok, v, its1)" "tok \<noteq> WAGT_DONE" "tok \<noteq> WAGT_KEY"
    and "out_token put False tok v (ost buf first level key) = Inr (ost buf' first' level' key')"
  shows "out_loop (\<lambda>its. agtype_iterator_next fill its False) put False (Suc n) its None (ost buf first level key) =
    out_loop (\<lambda>its. agtype_iterator_next fill its False) put False n its1 None (ost buf' first' level' False)"
  using assms by simp

lemma array_walks:
  assumes "\<And>w. w \<in> set es \<Longrightarrow> shows_child fill put nt w" "fits (length (array_image enc False es))"
  shows "walks fill put nt (AGTV_ARRAY False es)"
  unfolding walks_def
proof (intro allI exI conjI)
  fix rst its buf first level key m
  show "iterator_from_container (cimage (AGTV_ARRAY False es) @ rst) = Inr (array_it False es rst 0 AGTI_ARRAY_START)"
    by (simp add: iterator_from_array [OF assms(2)])
  show "it_state (array_it False es rst 0 AGTI_ARRAY_START) \<in> {AGTI_ARRAY_START, AGTI_OBJECT_START}" by simp
  show "iterator_start (array_it False es rst 0 AGTI_ARRAY_START) its = Inr
      (WAGT_BEGIN_ARRAY, AGTV_ARRAY False (replicate (length es) AGTV_NULL), array_it False es rst 0 AGTI_ARRAY_ELEM # its)"
    by (rule start_array)
  have l: "out_loop (\<lambda>its. agtype_iterator_next fill its False) put False (sum_list (map steps es) + n)
      (array_it False es rst 0 AGTI_ARRAY_ELEM # its) None (ost b f l k) =
    out_loop (\<lambda>its. agtype_iterator_next fill its False) put False n
      (array_it False es rst (length es) AGTI_ARRAY_ELEM # its) None
      (ost (b @ seps f (map (ptext nt) es)) (f \<and> 0 = length es) l (k \<and> 0 = length es))" for n b f l k
    using out_array_loop [OF assms, of 0] by simp
  have e: "steps (AGTV_ARRAY False es) + m = Suc (sum_list (map steps es) + Suc m)" by simp
  show "out_loop (\<lambda>its. agtype_iterator_next fill its False) put False (steps (AGTV_ARRAY False es) + m)
      (array_it False es rst 0 AGTI_ARRAY_START # its) None (ost buf first level key) =
    out_loop (\<lambda>its. agtype_iterator_next fill its False) put False m its None
      (ost (comma first buf @ ptext nt (AGTV_ARRAY False es)) False level False)"
    unfolding e
    by (subst out_loop_token [OF next_array_start, where buf' = "comma first buf @ [91]" and first' = True and level' = "level + 1" and key' = key],
        simp_all add: out_token_def del: out_loop.simps,
        subst add_Suc_right [symmetric], subst l,
        subst out_loop_token [OF next_array_end, where buf' = "comma first buf @ ptext nt (AGTV_ARRAY False es)" and first' = False and level' = level and key' = False],
        simp_all add: out_token_def del: out_loop.simps)
qed

lemma object_walks:
  assumes "\<And>p. p \<in> set ps \<Longrightarrow> shows_child fill put nt (pair_value p)" "\<And>k. reads fill (AGTV_STRING k)"
    and "\<And>k. prints put nt (AGTV_STRING k)" "fits (length (object_image enc_pair ps))"
  shows "walks fill put nt (AGTV_OBJECT ps)"
  unfolding walks_def
proof (intro allI exI conjI)
  fix rst its buf first level key m
  show "iterator_from_container (cimage (AGTV_OBJECT ps) @ rst) = Inr (object_it ps rst 0 0 AGTI_OBJECT_START)"
    by (simp add: iterator_from_object [OF assms(4)])
  show "it_state (object_it ps rst 0 0 AGTI_OBJECT_START) \<in> {AGTI_ARRAY_START, AGTI_OBJECT_START}" by simp
  show "iterator_start (object_it ps rst 0 0 AGTI_OBJECT_START) its = Inr
      (WAGT_BEGIN_OBJECT, AGTV_OBJECT (replicate (length ps) ([], AGTV_NULL, 0)),
         object_it ps rst 0 (of_nat (val_off ps 0)) AGTI_OBJECT_KEY # its)"
    by (rule start_object [OF assms(4)])
  have l: "out_loop (\<lambda>its. agtype_iterator_next fill its False) put False (sum_list (map pair_steps ps) + n)
      (object_it ps rst 0 (of_nat (val_off ps 0)) AGTI_OBJECT_KEY # its) None (ost b f l k) =
    out_loop (\<lambda>its. agtype_iterator_next fill its False) put False n
      (object_it ps rst (length ps) (of_nat (val_off ps (length ps))) AGTI_OBJECT_KEY # its) None
      (ost (b @ seps f (map (\<lambda>p. pair_text (pair_key p) (ptext nt (pair_value p))) ps)) (f \<and> 0 = length ps) l (k \<and> 0 = length ps))" for n b f l k
    using out_object_loop [OF assms, of 0] by simp
  have e: "steps (AGTV_OBJECT ps) + m = Suc (sum_list (map pair_steps ps) + Suc m)" by simp
  show "out_loop (\<lambda>its. agtype_iterator_next fill its False) put False (steps (AGTV_OBJECT ps) + m)
      (object_it ps rst 0 0 AGTI_OBJECT_START # its) None (ost buf first level key) =
    out_loop (\<lambda>its. agtype_iterator_next fill its False) put False m its None
      (ost (comma first buf @ ptext nt (AGTV_OBJECT ps)) False level False)"
    unfolding e
    by (subst out_loop_token [OF next_object_start [OF assms(4)], where buf' = "comma first buf @ [123]" and first' = True and level' = "level + 1" and key' = key],
        simp_all add: out_token_def del: out_loop.simps off_0,
        subst add_Suc_right [symmetric], subst l,
        subst out_loop_token [OF next_object_end, where buf' = "comma first buf @ ptext nt (AGTV_OBJECT ps)" and first' = False and level' = level and key' = False],
        simp_all add: out_token_def del: out_loop.simps)
qed

subsection \<open>Normal forms print and store alike\<close>

lemma enc_seq_map: "(\<And>q y. y \<in> set xs \<Longrightarrow> f q (g y) = h q y) \<Longrightarrow> enc_seq f p (map g xs) = enc_seq h p xs"
  by (induction xs arbitrary: p) auto

lemma enc_metas_map: "(\<And>q y. y \<in> set xs \<Longrightarrow> f q (g y) = h q y \<and> t (g y) = u y) \<Longrightarrow> enc_metas f t p (map g xs) = enc_metas h u p xs"
  by (induction xs arbitrary: p) auto

lemma enc_seq_pairs:
  "(\<And>q y. y \<in> set ps \<Longrightarrow> enc q (g (pair_value y)) = enc_pair q y \<and> ty (g (pair_value y)) = ty (pair_value y)) \<Longrightarrow>
   enc_seq enc_pair p (number_pairs n (map (\<lambda>p. (pair_key p, g (pair_value p))) ps)) = enc_seq enc_pair p ps \<and>
   enc_metas enc_pair (\<lambda>x. ty (pair_value x)) p (number_pairs n (map (\<lambda>p. (pair_key p, g (pair_value p))) ps)) =
     enc_metas enc_pair (\<lambda>x. ty (pair_value x)) p ps"
  by (induction ps arbitrary: p n) auto

lemma renumber_keys: "map pair_key (renumber f ps) = map pair_key ps" "length (renumber f ps) = length ps"
proof -
  show k: "map pair_key (renumber f ps) = map pair_key ps"
    by (simp add: renumber_def number_pairs_keys comp_def)
  show "length (renumber f ps) = length ps" using arg_cong [OF k, of length] by simp
qed

lemma object_image_renumber:
  assumes "\<And>q y. y \<in> set ps \<Longrightarrow> enc q (g (pair_value y)) = enc_pair q y \<and> ty (g (pair_value y)) = ty (pair_value y)"
  shows "object_image enc_pair (renumber g ps) = object_image enc_pair ps"
proof -
  have k: "keys_len (renumber g ps) = keys_len ps" "key_metas (renumber g ps) = key_metas ps"
    using arg_cong [OF renumber_keys(1), of "\<lambda>ks. sum_list (map length ks)" g ps]
      arg_cong [OF renumber_keys(1), of "map (\<lambda>k. (AGTENTRY_IS_STRING, length k))" g ps]
    by (simp_all add: keys_len_def key_metas_def comp_def)
  show ?thesis
    unfolding object_image_def k renumber_keys
    using enc_seq_pairs [OF assms] by (simp add: renumber_def)
qed

lemma enc_norm: "enc q (norm v) = enc q v \<and> ty (norm v) = ty v"
proof (induction v arbitrary: q rule: kids_induct)
  case (kids v)
  have a: "array_image enc raw (map norm es) = array_image enc raw es" if "set es \<subseteq> set (kids v)" for raw es
    unfolding array_image_def length_map
    using enc_seq_map [of es enc norm enc] enc_metas_map [of es enc norm enc ty ty] kids that by (simp add: subset_iff)
  have o: "object_image enc_pair (renumber norm ps) = object_image enc_pair ps" if "pair_value ` set ps \<subseteq> set (kids v)" for ps
    using kids that by (intro object_image_renumber) auto
  show ?case using a o by (cases v) auto
qed

lemma kids_norm: "kids (norm v) = map norm (kids v)"
proof -
  have "map pair_value (renumber norm ps) = map (\<lambda>p. norm (pair_value p)) ps" for ps
  proof -
    have "map pair_value (number_pairs n kvs) = map snd kvs" for n kvs
      by (induction n kvs rule: number_pairs.induct) auto
    then show ?thesis by (simp add: renumber_def comp_def)
  qed
  then show ?thesis by (cases v) (simp_all add: comp_def)
qed

lemma writable_norm: "writable env v \<Longrightarrow> writable env (norm v)"
proof (induction v rule: kids_induct)
  case (kids v)
  then have "\<forall>w \<in> set (kids (norm v)). writable env w" using writable_kids by (auto simp: kids_norm)
  with kids.prems show ?case by (subst writable.simps) (cases v; simp)
qed

lemma stored_norm:
  assumes "wf_value env v" "\<not> IS_A_AGTYPE_SCALAR v" "fits (length (cimage v))"
  shows "agtype_value_to_agtype env (norm v) = Inr (cimage v)"
proof -
  have c: "enc 0 v = cimage v" using assms(1,2) by (cases v) simp_all
  have "convert_to_agtype env (norm v) = Inr (enc 0 (norm v))"
    using assms(3) enc_norm [of 0 v] c by (intro convert_to_agtype_enc writable_norm wf_writable [OF assms(1)]) simp
  then show ?thesis using assms(1,2) enc_norm [of 0 v] c by (cases v) (simp_all add: agtype_value_to_agtype_def)
qed

subsection \<open>The worker\<close>

function pneed :: "agtype_value \<Rightarrow> nat" where
  "pneed v = need v + 10 + 2 * length (kids v) + sum_list (map (\<lambda>w. 2 * steps w + pneed w) (kids v))"
  by pat_completeness auto
termination by (relation "measure size") (auto simp: size_kids)

declare pneed.simps [simp del]

lemma pneed_bounds:
  "need v \<le> pneed v" "10 \<le> pneed v" "w \<in> set (kids v) \<Longrightarrow> Suc (pneed w) \<le> pneed v"
proof -
  show "need v \<le> pneed v" "10 \<le> pneed v" by (subst pneed.simps, simp)+
  assume "w \<in> set (kids v)"
  then have "2 * steps w + pneed w \<le> sum_list (map (\<lambda>w. 2 * steps w + pneed w) (kids v))"
    by (intro member_le_sum_list) auto
  then show "Suc (pneed w) \<le> pneed v" by (subst (2) pneed.simps) simp
qed

lemma steps_kids: "steps v \<le> 2 + length (kids v) + sum_list (map steps (kids v))"
proof (cases v)
  case (AGTV_OBJECT ps)
  have "sum_list (map pair_steps ps) \<le> length ps + sum_list (map (\<lambda>p. steps (pair_value p)) ps)"
    by (induction ps) auto
  then show ?thesis using AGTV_OBJECT by (simp add: comp_def)
next
  case (AGTV_BINARY l d)
  then show ?thesis by (subst steps.simps) simp
qed simp_all

lemma pneed_steps: "steps v + 4 \<le> pneed v"
proof -
  have "sum_list (map steps (kids v)) \<le> sum_list (map (\<lambda>w. 2 * steps w + pneed w) (kids v))"
    by (rule sum_list_mono) simp
  with steps_kids [of v] show ?thesis by (subst pneed.simps) simp
qed

abbreviation put_at :: "pg_env \<Rightarrow> pg_num_text \<Rightarrow> nat \<Rightarrow> put_fun" where
  "put_at env nt F \<equiv> (\<lambda>out v. agtype_put_escaped_value env nt (agtype_to_cstring_worker env nt True F False) out v True)"

lemma prints_string: "prints (put_at env nt F) nt (AGTV_STRING k)"
  by (simp add: prints_def agtype_put_escaped_value_def escape_agtype_def)

lemma container_walks:
  assumes "wf_value env v" "\<not> IS_A_AGTYPE_SCALAR v" "fits (length (cimage v))"
    and "\<And>w. w \<in> set (kids v) \<Longrightarrow> shows_child (fill_agtype_value env (Suc F)) (put_at env nt (Suc F)) nt w"
  shows "walks (fill_agtype_value env (Suc F)) (put_at env nt (Suc F)) nt v"
proof (cases v)
  case (AGTV_ARRAY raw es)
  then have "raw = False" using assms(1) by simp
  show ?thesis unfolding AGTV_ARRAY \<open>raw = False\<close>
    using assms(3,4) AGTV_ARRAY \<open>raw = False\<close> by (intro array_walks) simp_all
next
  case (AGTV_OBJECT ps)
  show ?thesis unfolding AGTV_OBJECT
  proof (rule object_walks [OF _ fill_reads_STRING prints_string])
    show "shows_child (fill_agtype_value env (Suc F)) (put_at env nt (Suc F)) nt (pair_value p)" if "p \<in> set ps" for p
      using that AGTV_OBJECT by (intro assms(4)) simp
    show "fits (length (object_image enc_pair ps))" using assms(3) AGTV_OBJECT by simp
  qed
qed (use assms(1,2) in simp_all)

lemma worker_container:
  assumes "walks (fill_agtype_value env F) (put_at env nt F) nt v" "steps v + 1 \<le> F"
  shows "agtype_to_cstring_worker env nt True (Suc F) False out (cimage v @ rst) = Inr (out @ ptext nt v)"
proof -
  obtain m where m: "F = steps v + Suc m" using assms(2) by (metis add.commute add_Suc_right le_iff_add plus_1_eq_Suc)
  obtain it where it: "iterator_from_container (cimage v @ rst) = Inr it"
    "\<And>its buf first level key m.
        out_loop (\<lambda>its. agtype_iterator_next (fill_agtype_value env F) its False) (put_at env nt F) False (steps v + m) (it # its) None (ost buf first level key) =
        out_loop (\<lambda>its. agtype_iterator_next (fill_agtype_value env F) its False) (put_at env nt F) False m its None (ost (comma first buf @ ptext nt v) False level False)"
    using assms(1) by (rule walksE [where rst = rst]) (rule that)
  have start: "out_start out = ost out True 0 False" by (simp add: out_start_def ost_def)
  show ?thesis
    unfolding agtype_to_cstring_worker.simps agtype_iterator_init_def it(1) bindE_simps start
    using it(2) [of "Suc m" "[]" out True 0 False] by (simp add: m comma_def)
qed

lemma put_composite_prints:
  assumes "wf_value env c" "\<not> IS_A_AGTYPE_SCALAR c" "fits (length (cimage c))"
    and "walks (fill_agtype_value env F) (put_at env nt F) nt c" "steps c + 1 \<le> F"
  shows "put_composite env (agtype_to_cstring_worker env nt True (Suc F) False) out True (norm c) tag =
    Inr (out @ ptext nt c @ str_colons tag)"
  unfolding put_composite_def stored_norm [OF assms(1-3)]
  using worker_container [OF assms(4,5), of out "[]"] by (simp del: agtype_to_cstring_worker.simps)

text \<open>The container inside a composite.\<close>

fun inner :: "agtype_value \<Rightarrow> agtype_value" where
  "inner (AGTV_VERTEX ps) = AGTV_OBJECT ps"
| "inner (AGTV_EDGE ps) = AGTV_OBJECT ps"
| "inner (AGTV_PATH es) = AGTV_ARRAY False es"
| "inner v = v"

lemma inner_facts:
  assumes "agtv_type v \<in> {Type_VERTEX, Type_EDGE, Type_PATH}" "wf_value env v" "fits (length (enc q v))"
  shows "wf_value env (inner v)" "\<not> IS_A_AGTYPE_SCALAR (inner v)" "fits (length (cimage (inner v)))" "kids (inner v) = kids v"
proof -
  have f: "fits (length c)" if "fits (length (padding q @ composite_image h c))" for h c
    by (rule fits_mono [OF that]) (simp add: composite_image_def)
  show "wf_value env (inner v)" "\<not> IS_A_AGTYPE_SCALAR (inner v)" "kids (inner v) = kids v"
    using assms(1,2) by (cases v; simp)+
  show "fits (length (cimage (inner v)))"
    using assms(1,3) by (cases v) (simp_all add: f del: length_append length_array_image length_object_image)
qed

lemma kid_fits:
  assumes "fits (length (enc p v))" "w \<in> set (kids v)"
  shows "\<exists>q. fits (length (enc q w))"
proof -
  have a: "\<exists>q. fits (length (enc q w))" if w: "w \<in> set es" "fits n" "length (array_image enc raw es) \<le> n" for es raw n
  proof -
    obtain q where "length (enc q w) \<le> length (enc_seq enc 0 es)" using length_enc_elem [OF w(1), of enc 0] by blast
    then have "length (enc q w) \<le> n" using w(3) by simp
    then show ?thesis using fits_mono [OF w(2)] by blast
  qed
  have o: "\<exists>q. fits (length (enc q w))" if w: "w \<in> pair_value ` set ps" "fits n" "length (object_image enc_pair ps) \<le> n" for ps n
  proof -
    obtain x where x: "x \<in> set ps" "w = pair_value x" using w(1) by blast
    then obtain q where "length (enc q w) \<le> length (enc_seq enc_pair (keys_len ps) ps)"
      using length_enc_elem [OF x(1), of enc_pair "keys_len ps"] by blast
    then have "length (enc q w) \<le> n" using w(3) by simp
    then show ?thesis using fits_mono [OF w(2)] by blast
  qed
  note a = a [OF _ assms(1)] and o = o [OF _ assms(1)]
  show ?thesis
  proof (cases v)
    case (AGTV_VERTEX ps)
    then show ?thesis using assms(2) by (intro o [of ps]) (simp_all add: composite_image_def)
  next
    case (AGTV_EDGE ps)
    then show ?thesis using assms(2) by (intro o [of ps]) (simp_all add: composite_image_def)
  next
    case (AGTV_PATH es)
    then show ?thesis using assms(2) by (intro a [of es False]) (simp_all add: composite_image_def)
  next
    case (AGTV_ARRAY raw es)
    then show ?thesis using assms(2) by (intro a [of es raw]) simp_all
  next
    case (AGTV_OBJECT ps)
    then show ?thesis using assms(2) by (intro o [of ps]) simp_all
  qed (use assms(2) in simp_all)
qed

lemma child_shown:
  assumes q: "qsort_ok (pg_qsort_arg env)"
  shows "wf_value env v \<Longrightarrow> fits (length (enc p v)) \<Longrightarrow> pneed v \<le> F \<Longrightarrow>
    shows_child (fill_agtype_value env F) (put_at env nt F) nt v"
proof (induction v arbitrary: p F rule: kids_induct)
  case (kids v)
  obtain G where F: "F = Suc (Suc G)" using kids.prems(3) pneed_bounds(2) [of v] that [of "F - 2"] by simp
  have kid: "shows_child (fill_agtype_value env E) (put_at env nt E) nt w" if w: "w \<in> set (kids v)" "pneed v \<le> Suc E" for w E
  proof -
    obtain q where "fits (length (enc q w))" using kid_fits [OF kids.prems(2) w(1)] by blast
    moreover have "pneed w \<le> E" using pneed_bounds(3) [OF w(1)] w(2) by simp
    ultimately show ?thesis using kids.IH [OF w(1) wf_value_kids [OF kids.prems(1) w(1)]] by blast
  qed
  have rd: "reads (fill_agtype_value env F) v"
    using fill_ok [OF q kids.prems(1)] pneed_bounds(1) [of v] kids.prems(3) by simp
  consider (comp) "agtv_type v \<in> {Type_VERTEX, Type_EDGE, Type_PATH}" | (cont) "\<not> IS_A_AGTYPE_SCALAR v"
    | (plain) "IS_A_AGTYPE_SCALAR v" "agtv_type v \<notin> {Type_VERTEX, Type_EDGE, Type_PATH}" by blast
  then show ?case
  proof cases
    case comp
    note c = inner_facts [OF comp kids.prems(1,2)]
    have "shows_child (fill_agtype_value env (Suc G)) (put_at env nt (Suc G)) nt w" if "w \<in> set (kids (inner v))" for w
      using that kids.prems(3) F c(4) by (intro kid) simp_all
    note wk = container_walks [OF c(1-3) this]
    have "sum_list (map steps (kids v)) \<le> sum_list (map (\<lambda>w. 2 * steps w + pneed w) (kids v))"
      by (rule sum_list_mono) simp
    with steps_kids [of "inner v"] kids.prems(3) F have "steps (inner v) + 1 \<le> Suc G"
      by (subst (asm) pneed.simps) (simp add: c(4))
    note p = put_composite_prints [OF c(1-3) wk this]
    have "prints (put_at env nt F) nt v"
      unfolding prints_def F using p comp
      by (cases v) (simp_all add: agtype_put_escaped_value_def del: agtype_to_cstring_worker.simps)
    with rd comp show ?thesis by (cases v) (simp_all add: shows_child_def)
  next
    case cont
    have "cimage v = drop (INTALIGN p - p) (enc p v)" using cont kids.prems(1) by (cases v) simp_all
    then have "fits (length (cimage v))" using fits_mono [OF kids.prems(2), of "length (cimage v)"] by simp
    moreover have "shows_child (fill_agtype_value env (Suc (Suc G))) (put_at env nt (Suc (Suc G))) nt w" if "w \<in> set (kids v)" for w
      using that kids.prems(3) F by (intro kid) simp_all
    ultimately have "walks (fill_agtype_value env F) (put_at env nt F) nt v"
      unfolding F by (intro container_walks [OF kids.prems(1) cont])
    with rd cont show ?thesis by (simp add: shows_child_def)
  next
    case plain
    then have "prints (put_at env nt F) nt v"
      by (cases v) (simp_all add: prints_def agtype_put_escaped_value_def escape_agtype_def del: agtype_to_cstring_worker.simps)
    with rd plain show ?thesis by (simp add: shows_child_def)
  qed
qed


text \<open>\<open>[{"id": 5, "pro": {"a": null}}::vertex, "ABC"]\<close>\<close>

definition sample_text :: "byte list" where
  "sample_text = [91, 123, 34, 105, 100, 34, 58, 32, 53, 44, 32, 34, 112, 114, 111, 34, 58, 32, 123, 34, 97, 34, 58, 32, 110, 117, 108, 108, 125, 125, 58, 58, 118, 101, 114, 116, 101, 120, 44, 32, 34, 65, 66, 67, 34, 93]"


end
