(* ===== verification/Agtype_ContainOps.thy ===== *)
theory Agtype_ContainOps
  imports Agtype_Access Agtype_Print
begin

text \<open>
  The operator \<open>@>\<close> decides structural containment whichever of its three ways it takes: the cached chain of
  single pairs, the chain parsed anew, or the general walk.
\<close>

subsection \<open>The kind of a stored container\<close>

lemma root_object:
  assumes "fits (length (object_image enc_pair ps))"
  shows "AGT_ROOT_IS_OBJECT (object_image enc_pair ps @ rest) = Inr True" "AGT_ROOT_IS_ARRAY (object_image enc_pair ps @ rest) = Inr False"
    "AGT_ROOT_IS_SCALAR (object_image enc_pair ps @ rest) = Inr False" "AGT_ROOT_COUNT (object_image enc_pair ps @ rest) = Inr (length ps)"
proof -
  have n: "fits (length ps)" by (rule fits_mono [OF assms]) simp
  note hd = object_header_image [of ps rest] header_flags [OF n]
  show "AGT_ROOT_IS_OBJECT (object_image enc_pair ps @ rest) = Inr True" "AGT_ROOT_IS_ARRAY (object_image enc_pair ps @ rest) = Inr False"
    "AGT_ROOT_IS_SCALAR (object_image enc_pair ps @ rest) = Inr False" "AGT_ROOT_COUNT (object_image enc_pair ps @ rest) = Inr (length ps)"
    using hd by (simp_all add: AGT_ROOT_IS_OBJECT_def AGT_ROOT_IS_ARRAY_def AGT_ROOT_IS_SCALAR_def AGT_ROOT_COUNT_def)
qed

lemma root_array:
  assumes "fits (length (array_image enc raw es))"
  shows "AGT_ROOT_IS_OBJECT (array_image enc raw es @ rest) = Inr False" "AGT_ROOT_IS_ARRAY (array_image enc raw es @ rest) = Inr True"
    "AGT_ROOT_IS_SCALAR (array_image enc raw es @ rest) = Inr raw" "AGT_ROOT_COUNT (array_image enc raw es @ rest) = Inr (length es)"
proof -
  have n: "fits (length es)" by (rule fits_mono [OF assms]) simp
  note hd = array_header_image [of raw es rest] array_header_fields [OF n]
  show "AGT_ROOT_IS_OBJECT (array_image enc raw es @ rest) = Inr False" "AGT_ROOT_IS_ARRAY (array_image enc raw es @ rest) = Inr True"
    "AGT_ROOT_IS_SCALAR (array_image enc raw es @ rest) = Inr raw" "AGT_ROOT_COUNT (array_image enc raw es @ rest) = Inr (length es)"
    using hd by (simp_all add: AGT_ROOT_IS_OBJECT_def AGT_ROOT_IS_ARRAY_def AGT_ROOT_IS_SCALAR_def AGT_ROOT_COUNT_def)
qed

subsection \<open>Chains of single pairs\<close>

fun single_path :: "agtype_value \<Rightarrow> (byte list list \<times> agtype_value) option" where
  "single_path (AGTV_OBJECT [(k, v, i)]) =
     (case v of
        AGTV_OBJECT _ \<Rightarrow> map_option (\<lambda>(ks, w). (k # ks, w)) (single_path v)
      | _ \<Rightarrow> if is_single_pair_contains_scalar v then Some ([k], v) else None)"
| "single_path _ = None"

lemma single_path_nested: "single_path (AGTV_OBJECT [(k, AGTV_OBJECT ps, i)]) = map_option (\<lambda>(ks, w). (k # ks, w)) (single_path (AGTV_OBJECT ps))"
  by simp

lemma single_path_leaf:
  "agtv_type v \<noteq> Type_OBJECT \<Longrightarrow> single_path (AGTV_OBJECT [(k, v, i)]) = (if is_single_pair_contains_scalar v then Some ([k], v) else None)"
  by (cases v) simp_all

declare single_path.simps(1) [simp del]

lemma single_scalar [simp]: "is_single_pair_contains_scalar v \<Longrightarrow> IS_A_AGTYPE_SCALAR v"
  by (cases v) (simp_all add: is_single_pair_contains_scalar_def)

definition as_keys :: "byte list list \<times> agtype_value \<Rightarrow> agtype_value list \<times> agtype_value" where
  "as_keys = (\<lambda>(ks, v). (map AGTV_STRING ks, v))"

text \<open>Parsing a stored object of one pair gives its chain.\<close>

lemma enter_object:
  assumes "fits (length (object_image enc_pair qs))"
  shows "iterator_child False WAGT_VALUE (shallow (AGTV_OBJECT qs) rst) it its =
    Inr (WAGT_BEGIN_OBJECT, AGTV_OBJECT (replicate (length qs) ([], AGTV_NULL, 0)),
         object_it qs rst 0 (of_nat (val_off qs 0)) AGTI_OBJECT_KEY # it # its)"
  using assms by (simp add: iterator_child_def shallow_def iterator_from_object start_object del: off_0)

lemma enter_array:
  assumes "fits (length (array_image enc raw es))"
  shows "\<exists>v its'. iterator_child False WAGT_VALUE (shallow (AGTV_ARRAY raw es) rst) it its = Inr (WAGT_BEGIN_ARRAY, v, its')"
  using assms by (simp add: iterator_child_def shallow_def iterator_from_array start_array)

lemma parse_loop_law:
  assumes q: "qsort_ok (pg_qsort_arg env)"
  shows "stored env (AGTV_OBJECT [p]) \<Longrightarrow> dneed (AGTV_OBJECT [p]) \<le> Suc G \<Longrightarrow> dneed (AGTV_OBJECT [p]) \<le> n \<Longrightarrow>
    closes (fill_agtype_value env (Suc G)) (length path) outer = Inr True \<Longrightarrow>
    parse_single_pair_loop (fill_agtype_value env (Suc G)) n (object_it [p] rr 0 (of_nat (val_off [p] 0)) AGTI_OBJECT_KEY # outer) path =
      Inr (map_option (\<lambda>(ks, v). (path @ map AGTV_STRING ks, v)) (single_path (AGTV_OBJECT [p])))"
proof (induction n arbitrary: p path outer rr)
  case 0
  then show ?case using dneed_bounds(2) [of "AGTV_OBJECT [p]"] by simp
next
  case (Suc n)
  let ?fill = "fill_agtype_value env (Suc G)"
  obtain k v i where p: "p = (k, v, i)" by (cases p)
  from Suc.prems(1) have st: "wf_value env v" "plain v" "fits (length (object_image enc_pair [p]))" by (simp_all add: stored_def p)
  have dn: "dneed v + 4 \<le> dneed (AGTV_OBJECT [p])" by (rule dneed_kid) (simp add: p)
  then have "need v \<le> Suc G" using dneed_bounds(1) [of v] Suc.prems(2) by simp
  from fill_ok [OF q st(1) this] have rd: "reads ?fill v" by (rule conjunct1)
  have nk: "agtype_iterator_next ?fill (object_it [p] rr 0 voff AGTI_OBJECT_KEY # outer) False = Inr (WAGT_KEY, AGTV_STRING k, object_it [p] rr 0 voff AGTI_OBJECT_VALUE # outer)" for voff
    using next_object_key [OF fill_reads_STRING _ st(3), of 0 env G rr voff outer False] by (simp add: p)
  have nx: "agtype_iterator_next ?fill (object_it [p] rr 1 voff AGTI_OBJECT_KEY # outer) False = Inr (WAGT_END_OBJECT, AGTV_NULL, outer)" for voff
    using next_object_end [of ?fill enc_pair "[p]" rr voff outer False] by simp
  have cl: "closes ?fill (Suc (length path)) (object_it [p] rr 1 voff AGTI_OBJECT_KEY # outer) = Inr True" for voff
    using nx Suc.prems(4) by simp
  obtain rst where nv: "agtype_iterator_next ?fill (object_it [p] rr 0 (of_nat (val_off [p] 0)) AGTI_OBJECT_VALUE # outer) False =
      iterator_child False WAGT_VALUE (shallow v rst) (object_it [p] rr 1 (of_nat (val_off [p] 1)) AGTI_OBJECT_KEY) outer"
    using next_object_value [of ?fill "[p]" 0 rr outer False] rd st(3) p by auto
  note S = parse_single_pair_loop.simps(2) [of ?fill n "object_it [p] rr 0 (of_nat (val_off [p] 0)) AGTI_OBJECT_KEY # outer" path]
  consider (obj) qs where "v = AGTV_OBJECT qs" | (arr) raw es where "v = AGTV_ARRAY raw es" | (sc) "IS_A_AGTYPE_SCALAR v"
    using container_type [OF st(2)] by (cases v) auto
  then show ?case
  proof cases
    case sc
    then have s: "shallow v rst = v" "agtv_type v \<noteq> Type_OBJECT" using st(2) scalar_type [OF sc] by (simp_all add: shallow_def plain_norm)
    show ?thesis unfolding S nk bindE_simps prod.case nv s
      using sc cl by (simp add: iterator_child_def p single_path_leaf s del: closes.simps fill_agtype_value.simps)
  next
    case (arr raw es)
    have "fits (length (array_image enc raw es))" using value_image_fits [OF _ st(3), of p] by (simp add: p arr)
    from enter_array [OF this, of rst "object_it [p] rr 1 (of_nat (val_off [p] 1)) AGTI_OBJECT_KEY" outer]
    show ?thesis unfolding S nk bindE_simps prod.case nv
      by (auto simp: arr p single_path_leaf is_single_pair_contains_scalar_def simp del: fill_agtype_value.simps)
  next
    case (obj qs)
    have f: "fits (length (object_image enc_pair qs))" using value_image_fits [OF _ st(3), of p] by (simp add: p obj)
    then have n: "fits (length qs)" by (rule fits_mono) simp
    note h = object_header_image [of qs rst] object_header_fields(2) [OF n]
    note nv' = nv [unfolded obj enter_object [OF f]]
    have IH: "parse_single_pair_loop ?fill n (object_it qs rst 0 (of_nat (val_off qs 0)) AGTI_OBJECT_KEY # object_it [p] rr 1 (of_nat (val_off [p] 1)) AGTI_OBJECT_KEY # outer) (path @ [AGTV_STRING k]) =
        Inr (map_option (\<lambda>(ks, v). ((path @ [AGTV_STRING k]) @ map AGTV_STRING ks, v)) (single_path (AGTV_OBJECT qs)))" if "length qs = 1"
    proof -
      from that obtain r where qs: "qs = [r]" by (cases qs) simp_all
      have "stored env (AGTV_OBJECT [r])" using stored_kid [OF Suc.prems(1), of v] by (simp add: p obj qs)
      moreover have "dneed (AGTV_OBJECT [r]) \<le> Suc G" "dneed (AGTV_OBJECT [r]) \<le> n" using dn Suc.prems(2,3) by (simp_all add: obj qs)
      moreover have "closes ?fill (length (path @ [AGTV_STRING k])) (object_it [p] rr 1 (of_nat (val_off [p] 1)) AGTI_OBJECT_KEY # outer) = Inr True" using cl by simp
      ultimately show ?thesis unfolding qs by (rule Suc.IH)
    qed
    have none: "length qs \<noteq> 1 \<Longrightarrow> single_path (AGTV_OBJECT qs) = None" by (cases qs rule: remdups_adj.cases) simp_all
    show ?thesis unfolding S nk bindE_simps prod.case nv'
      using h IH none by (auto simp: p obj single_path_nested option.map_comp comp_def case_prod_unfold object_it_of_def [of _ qs] simp del: fill_agtype_value.simps off_0 parse_single_pair_loop.simps)
  qed
qed

lemma parse_constraint_law:
  assumes q: "qsort_ok (pg_qsort_arg env)" and r: "stored env (AGTV_OBJECT [p])" "dneed (AGTV_OBJECT [p]) \<le> F"
  shows "parse_single_pair_contains_constraint env F (cimage (AGTV_OBJECT [p]) @ rr) = Inr (map_option as_keys (single_path (AGTV_OBJECT [p])))"
proof -
  obtain G where F: "F = Suc G" using r(2) dneed_bounds(2) [of "AGTV_OBJECT [p]"] by (cases F) simp_all
  have f: "fits (length (object_image enc_pair [p]))" using r(1) by (simp add: stored_def)
  have c: "closes (fill_agtype_value env F) (length []) [] = Inr True" by simp
  from parse_loop_law [OF q r(1) r(2) [unfolded F] r(2) c [unfolded F], of rr] F
  have "parse_single_pair_loop (fill_agtype_value env F) F [object_it [p] rr 0 (of_nat (val_off [p] 0)) AGTI_OBJECT_KEY] [] = Inr (map_option as_keys (single_path (AGTV_OBJECT [p])))"
    by (simp add: as_keys_def case_prod_unfold del: fill_agtype_value.simps parse_single_pair_loop.simps off_0)
  then show ?thesis
    by (simp add: parse_single_pair_contains_constraint_def agtype_iterator_init_def iterator_from_object [OF f] next_object_start [OF f]
        del: fill_agtype_value.simps parse_single_pair_loop.simps off_0)
qed

subsection \<open>Evaluating a chain\<close>

text \<open>What the fast path relies on: two strings compare equal under the default collation only when they are the same
  bytes, and the value compared with is not a NaN, which \<open>compare_agtype_scalar_values\<close> takes to be equal to itself.\<close>

definition deterministic_collation :: "pg_env \<Rightarrow> bool" where
  "deterministic_collation env \<longleftrightarrow> (\<forall>s t. pg_varstr_cmp env s t = 0 \<longleftrightarrow> s = t)"

definition not_nan :: "agtype_value \<Rightarrow> bool" where
  "not_nan v = (case v of AGTV_FLOAT f \<Rightarrow> \<not> f_isnan f | _ \<Rightarrow> True)"

lemma single_pair_matches_law:
  assumes "deterministic_collation env" "is_single_pair_contains_scalar v" "not_nan v"
  shows "single_pair_matches env w v = Inr (same_scalar env w v)"
proof (cases "agtv_type w = agtv_type v")
  case False
  then show ?thesis by (simp add: single_pair_matches_def same_scalar_def)
next
  case same: True
  note defs = single_pair_matches_def same_scalar_def equals_agtype_scalar_value_def
  have v: "agtv_type v \<in> {Type_INTEGER, Type_FLOAT, Type_BOOL, Type_STRING, Type_NULL}" using assms(2) by (simp add: is_single_pair_contains_scalar_def)
  show ?thesis
  proof (cases v)
    case (AGTV_STRING s)
    with same obtain t where w: "w = AGTV_STRING t" by (cases w) simp_all
    have "sgn_result (pg_varstr_cmp env t s) = 0 \<longleftrightarrow> t = s" using assms(1) [unfolded deterministic_collation_def, rule_format, of t s] by (auto simp: sgn_result_def)
    then show ?thesis by (simp add: AGTV_STRING w defs key_cmp_eq_0 compare_agtype_scalar_values.simps)
  next
    case (AGTV_FLOAT g)
    with same obtain f where w: "w = AGTV_FLOAT f" by (cases w) simp_all
    have "compare_two_floats_orderability f g = 0 \<longleftrightarrow> \<not> f_isnan f \<and> \<not> f_isnan g \<and> f_key f = f_key g"
      using assms(3) by (simp add: AGTV_FLOAT not_nan_def compare_two_floats_orderability_def)
    then show ?thesis by (simp add: AGTV_FLOAT w defs compare_agtype_scalar_values.simps)
  next
    case (AGTV_INTEGER j)
    with same obtain i where w: "w = AGTV_INTEGER i" by (cases w) simp_all
    then show ?thesis by (simp add: AGTV_INTEGER w defs compare_agtype_scalar_values.simps compare_int64_def)
  next
    case (AGTV_BOOL y)
    with same obtain x where w: "w = AGTV_BOOL x" by (cases w) simp_all
    then show ?thesis by (simp add: AGTV_BOOL w defs compare_agtype_scalar_values.simps)
  next
    case AGTV_NULL
    with same have w: "w = AGTV_NULL" by (cases w) simp_all
    then show ?thesis by (simp add: AGTV_NULL w defs)
  qed (use v in simp_all)
qed

text \<open>Looking up a key of a stored object without copying.\<close>

lemma find_no_copy_stored:
  assumes "fits (length (object_image enc_pair ps))" "keys_sorted ps" "\<And>p. p \<in> set ps \<Longrightarrow> reads (fill_agtype_value env F) (pair_value p)"
  shows "case pairs_map ps k of
      None \<Rightarrow> find_agtype_value_from_container_no_copy env F (object_image enc_pair ps @ rest) AGT_FOBJECT (AGTV_STRING k) = Inr None
    | Some v \<Rightarrow> \<exists>rst b. find_agtype_value_from_container_no_copy env F (object_image enc_pair ps @ rest) AGT_FOBJECT (AGTV_STRING k) = Inr (Some (shallow v rst, b))"
  using find_object_with [OF assms, where eq = "equals_agtype_scalar_value env" and k = k and rest = rest]
  unfolding find_variants_agree_on_objects find_agtype_value_from_container_def
  by (auto split: option.splits)

lemma stored_reads:
  assumes "qsort_ok (pg_qsort_arg env)" "stored env v" "dneed v \<le> F" "w \<in> set (kids v)"
  shows "reads (fill_agtype_value env F) w" "plain w"
proof -
  have "wf_value env w" "plain w" using assms(2,4) by (auto elim!: stored_cases)
  moreover have "need w \<le> F" using dneed_kid [OF assms(4)] dneed_bounds(1) [of w] assms(3) by simp
  ultimately show "reads (fill_agtype_value env F) w" "plain w" using fill_ok [OF assms(1)] by blast+
qed

lemma eval_constraint_law:
  assumes q: "qsort_ok (pg_qsort_arg env)" and det: "deterministic_collation env" and nn: "not_nan v"
  shows "single_path r = Some (ks, v) \<Longrightarrow> stored env (AGTV_OBJECT ls) \<Longrightarrow> dneed (AGTV_OBJECT ls) \<le> F \<Longrightarrow>
    eval_single_pair_contains_constraint env F (cimage (AGTV_OBJECT ls) @ rl) (map AGTV_STRING ks) v = Inr (contains env (AGTV_OBJECT ls) r)"
proof (induction r arbitrary: ks ls rl rule: single_path.induct)
  case (1 k u i)
  have ls: "keys_sorted ls" "fits (length (object_image enc_pair ls))" using 1(3) by (auto simp: stored_def pairs_ok_def)
  have rd: "reads (fill_agtype_value env F) (pair_value p)" "plain (pair_value p)" if "p \<in> set ls" for p
    using stored_reads [OF q 1(3,4), of "pair_value p"] that by auto
  note find = find_no_copy_stored [OF ls(2,1) rd(1), where k = k and rest = rl]
  have c: "contains env (AGTV_OBJECT ls) (AGTV_OBJECT [(k, u, i)]) \<longleftrightarrow> (case pairs_map ls k of None \<Rightarrow> False | Some w \<Rightarrow> contains env w u)"
    unfolding contains_simps agtype_value.case list.set by (simp cong: option.case_cong)
  obtain ks' where ks: "ks = k # ks'" using 1(2) by (cases u) (auto simp: single_path.simps split: if_splits)
  show ?case
  proof (cases "pairs_map ls k")
    case None
    with find c show ?thesis by (simp add: ks)
  next
    case (Some w)
    with find obtain rst b where w: "find_agtype_value_from_container_no_copy env F (object_image enc_pair ls @ rl) AGT_FOBJECT (AGTV_STRING k) = Inr (Some (shallow w rst, b))" by auto
    obtain p where p: "p \<in> set ls" "pair_value p = w" using pairs_map_value [OF Some] by blast
    then have pw: "plain w" using rd(2) by blast
    have wk: "w \<in> set (kids (AGTV_OBJECT ls))" using p by force
    show ?thesis
    proof (cases "agtv_type u = Type_OBJECT")
      case False
      with 1(2) have u: "is_single_pair_contains_scalar u" "ks' = []" "v = u" by (auto simp: ks single_path_leaf split: if_splits)
      have "single_pair_matches env (shallow w rst) u = Inr (same_scalar env w u)"
      proof (cases "IS_A_AGTYPE_SCALAR w")
        case True
        then show ?thesis using single_pair_matches_law [OF det u(1)] nn u(3) pw by (simp add: shallow_def plain_norm)
      next
        case False
        then have "agtv_type w \<noteq> agtv_type u" "agtv_type (shallow w rst) \<noteq> agtv_type u"
          using container_type [OF pw] scalar_type [OF single_scalar [OF u(1)]] by (auto simp: shallow_def)
        then show ?thesis by (simp add: single_pair_matches_def same_scalar_def)
      qed
      then show ?thesis using w c Some u(2) contains_scalar [OF single_scalar [OF u(1)]] by (simp add: ks u(3))
    next
      case True
      then obtain us where u: "u = AGTV_OBJECT us" by (cases u) simp_all
      from 1(2) obtain ks2 where ks2: "single_path (AGTV_OBJECT us) = Some (ks', v)" by (auto simp: u single_path_nested ks)
      then have ne: "ks' \<noteq> []" by (cases "AGTV_OBJECT us" rule: single_path.cases) (auto simp: single_path.simps split: agtype_value.splits if_splits)
      consider (obj) qs where "w = AGTV_OBJECT qs" | (arr) raw es where "w = AGTV_ARRAY raw es" | (sc) "IS_A_AGTYPE_SCALAR w"
        using container_type [OF pw] by (cases w) auto
      then show ?thesis
      proof cases
        case (obj qs)
        have "stored env (AGTV_OBJECT qs)" using stored_kid [OF 1(3) wk] by (simp add: obj)
        moreover have "dneed (AGTV_OBJECT qs) \<le> F" using dneed_kid [OF wk] 1(4) by (simp add: obj)
        ultimately have "eval_single_pair_contains_constraint env F (cimage (AGTV_OBJECT qs) @ rst) (map AGTV_STRING ks') v = Inr (contains env (AGTV_OBJECT qs) (AGTV_OBJECT us))"
          using 1(1) [OF u] ks2 u by simp
        moreover have "AGT_ROOT_IS_OBJECT (object_image enc_pair qs @ rst) = Inr True" using root_object(1) [of qs rst] \<open>stored env (AGTV_OBJECT qs)\<close> by (simp add: stored_def)
        ultimately show ?thesis using w c Some ne by (simp add: ks u shallow_def obj)
      next
        case (arr raw es)
        have "stored env (AGTV_ARRAY raw es)" using stored_kid [OF 1(3) wk] by (simp add: arr)
        then have "AGT_ROOT_IS_OBJECT (array_image enc raw es @ rst) = Inr False" using root_array(1) [of raw es rst] by (simp add: stored_def)
        then show ?thesis using w c Some ne by (simp add: ks u shallow_def arr contains_simps)
      next
        case sc
        then have "shallow w rst = w" using pw by (simp add: shallow_def plain_norm)
        with sc scalar_type [OF sc] w c Some ne show ?thesis by (cases w) (simp_all add: ks u contains_simps)
      qed
    qed
  qed
qed simp_all

subsection \<open>Operands\<close>

text \<open>An operand is a stored array or object, or a stored vertex or edge whose properties are a map; what the
  operators look at are its properties.\<close>

fun properties_of :: "agtype_value \<Rightarrow> agtype_value" where
  "properties_of (AGTV_VERTEX ps) = (if 2 < length ps then pair_value (ps ! 2) else AGTV_NULL)"
| "properties_of (AGTV_EDGE ps) = (if 4 < length ps then pair_value (ps ! 4) else AGTV_NULL)"
| "properties_of v = v"

definition datum :: "agtype_value \<Rightarrow> byte list" where
  "datum v = (if IS_A_AGTYPE_SCALAR v then array_image enc True [v] else cimage v)"

definition operand :: "pg_env \<Rightarrow> nat \<Rightarrow> agtype_value \<Rightarrow> bool" where
  "operand env F v \<longleftrightarrow> wf_value env v \<and> fits (length (datum v)) \<and> need v \<le> F \<and> stored env (properties_of v) \<and>
     (IS_A_AGTYPE_SCALAR v \<longrightarrow> agtv_type v \<in> {Type_VERTEX, Type_EDGE})"

lemma renumber_nth: "i < length ps \<Longrightarrow> pair_value (renumber norm ps ! i) = norm (pair_value (ps ! i))"
  using arg_cong [OF kids_norm [of "AGTV_OBJECT ps"], of "\<lambda>xs. xs ! i"] renumber_keys(2) [of norm ps] by simp

lemma entity_properties_norm:
  assumes "stored env (properties_of v)" "agtv_type v \<in> {Type_VERTEX, Type_EDGE}"
  shows "entity_properties e (norm v) = Inr (norm (properties_of v))"
  using assms by (cases v) (auto simp: entity_properties_def nth_value_def renumber_nth renumber_keys stored_def split: if_splits)

lemma scalar_entry:
  assumes "fits (length (array_image enc True [v]))" "agtv_type v \<in> {Type_VERTEX, Type_EDGE}"
  shows "\<exists>e. container_child (array_image enc True [v] @ rest) 0 = Inr e \<and> AGTE_IS_AGTYPE e"
proof -
  obtain rst where h: "holds_child (array_image enc True [v] @ rest) 0 (enc_seq enc 0 [v] @ rest) (elem_off [v] 0) ([v] ! 0) rst"
    using array_child [OF assms(1), of 0 rest] by auto
  then show ?thesis using assms(2) by (cases v) (auto simp: holds_child_def agte_macros AGTE_TYPE_def)
qed

lemma operand_container:
  assumes "qsort_ok (pg_qsort_arg env)" "operand env F v"
  shows "\<exists>rest. get_entity_properties_container_no_copy env F (datum v) e = Inr (Some (cimage (properties_of v) @ rest))"
proof (cases "IS_A_AGTYPE_SCALAR v")
  case False
  with assms(2) have "AGT_ROOT_IS_SCALAR (datum v) = Inr False" "properties_of v = v"
    using root_object(3) [of _ "[]"] root_array(3) [of False _ "[]"] by (cases v; auto simp: operand_def datum_def)+
  with False show ?thesis by (auto simp: get_entity_properties_container_no_copy_def datum_def)
next
  case True
  let ?p = "properties_of v"
  have v: "agtv_type v \<in> {Type_VERTEX, Type_EDGE}" "wf_value env v" "fits (length (array_image enc True [v]))" "need v \<le> F" "stored env ?p"
    using assms(2) True by (simp_all add: operand_def datum_def)
  have r: "AGT_ROOT_IS_SCALAR (array_image enc True [v]) = Inr True" using root_array(3) [OF v(3), of "[]"] by simp
  have g: "get_scalar_agtype_value_no_copy env F (array_image enc True [v]) = Inr (norm v, needs_free (norm v))"
    using get_ith_raw_scalar [OF assms(1) v(2) True v(3,4), of "[]"] by (simp add: get_scalar_agtype_value_no_copy_def no_copy_agrees)
  have wf: "wf_value env ?p" "\<not> IS_A_AGTYPE_SCALAR ?p" "fits (length (cimage ?p))"
    using v(1,2,5) by (cases v; auto simp: stored_def split: if_splits)+
  have s: "agtype_value_to_agtype env (norm ?p) = Inr (cimage ?p)" by (rule stored_norm [OF wf])
  obtain ch where ch: "container_child (array_image enc True [v]) 0 = Inr ch" "AGTE_IS_AGTYPE ch" using scalar_entry [OF v(3,1), of "[]"] by auto
  show ?thesis
    using True r g s ch entity_properties_norm [OF v(5,1)] wf(1,2)
    by (cases ?p) (auto simp: get_entity_properties_container_no_copy_def datum_def intro!: exI [of _ "[]"])
qed

subsection \<open>The operator\<close>

text \<open>The cache holds the chain of the constraint at its address.\<close>

definition cache_ok :: "(nat \<Rightarrow> agtype_value) \<Rightarrow> SinglePairObjectContainsCache option \<Rightarrow> bool" where
  "cache_ok mem fn_extra \<longleftrightarrow> (\<forall>cache. fn_extra = Some cache \<longrightarrow>
     map_option as_keys (single_path (mem (spc_constraints cache))) = Some (spc_path cache, spc_value cache))"

definition leaf_ok :: "agtype_value \<Rightarrow> bool" where
  "leaf_ok r \<longleftrightarrow> (\<forall>ks v. single_path r = Some (ks, v) \<longrightarrow> not_nan v)"

lemma as_keys_Some: "map_option as_keys m = Some (path, v) \<longleftrightarrow> (\<exists>ks. m = Some (ks, v) \<and> path = map AGTV_STRING ks)"
  by (auto simp: as_keys_def)

lemma single_pair_shape_stored:
  assumes "stored env l" "stored env r"
  shows "single_pair_shape (cimage l @ rl) (cimage r @ rr) = Inr ((\<exists>ls p. l = AGTV_OBJECT ls \<and> r = AGTV_OBJECT [p]))"
proof -
  have f: "fits (length (cimage l))" "fits (length (cimage r))" using assms by (simp_all add: stored_def)
  then have n: "fits (length (kids l))" "fits (length (kids r))"
    by - (rule fits_mono, assumption, use assms in \<open>auto elim!: stored_cases\<close>)+
  show ?thesis
    using assms n by (auto elim!: stored_cases simp: single_pair_shape_def object_header_image array_header_image header_flags array_header_fields length_Suc_conv)
qed

text \<open>Parsing and evaluating the chain of a stored constraint.\<close>

lemma chain_law:
  assumes q: "qsort_ok (pg_qsort_arg env)" and det: "deterministic_collation env" and lr: "l = AGTV_OBJECT ls" "r = AGTV_OBJECT [p]"
    and st: "stored env l" "stored env r" "dneed l + dneed r \<le> F" and leaf: "leaf_ok r"
  shows "parse_single_pair_contains_constraint env F (cimage r @ rr) = Inr (map_option as_keys (single_path r))"
    and "map_option as_keys (single_path r) = Some (path, v) \<Longrightarrow>
      eval_single_pair_contains_constraint env F (cimage l @ rl) path v = Inr (contains env l r)"
proof -
  show "parse_single_pair_contains_constraint env F (cimage r @ rr) = Inr (map_option as_keys (single_path r))"
    using parse_constraint_law [OF q, of p F rr] st lr by simp
  assume "map_option as_keys (single_path r) = Some (path, v)"
  then obtain ks where k: "single_path r = Some (ks, v)" "path = map AGTV_STRING ks" unfolding as_keys_Some by blast
  with leaf have "not_nan v" by (simp add: leaf_ok_def)
  from eval_constraint_law [OF q det this k(1)] st k(2) lr
  show "eval_single_pair_contains_constraint env F (cimage l @ rl) path v = Inr (contains env l r)" by simp
qed

lemma uncached_law:
  assumes "qsort_ok (pg_qsort_arg env)" "deterministic_collation env" "stored env l" "stored env r" "dneed l + dneed r \<le> F" "leaf_ok r"
  shows "\<exists>b. try_single_pair_object_contains env F (cimage l @ rl) (cimage r @ rr) = Inr b \<and> (\<forall>x. b = Some x \<longrightarrow> x = contains env l r)"
proof (cases "\<exists>ls p. l = AGTV_OBJECT ls \<and> r = AGTV_OBJECT [p]")
  case False
  with single_pair_shape_stored [OF assms(3,4)] show ?thesis by (simp add: try_single_pair_object_contains_def)
next
  case True
  then obtain ls p where lr: "l = AGTV_OBJECT ls" "r = AGTV_OBJECT [p]" by blast
  note ch = chain_law [OF assms(1,2) lr assms(3-6)]
  show ?thesis using single_pair_shape_stored [OF assms(3,4)] True ch(1) [of rr] ch(2) [of _ _ rl]
    by (cases "map_option as_keys (single_path r)") (auto simp: try_single_pair_object_contains_def simp del: map_option_eq_Some)
qed

text \<open>The fast path with a cache that is right.\<close>

lemma cached_law:
  assumes q: "qsort_ok (pg_qsort_arg env)" and det: "deterministic_collation env"
    and st: "stored env l" "stored env (mem a)" "dneed l + dneed (mem a) \<le> F" and leaf: "leaf_ok (mem a)" and c: "cache_ok mem fn_extra"
  shows "\<exists>r fn_extra'. try_cached_single_pair_object_contains env F fn_extra (cimage l @ rl) a (cimage (mem a) @ rr) = Inr (r, fn_extra') \<and>
    cache_ok mem fn_extra' \<and> (\<forall>b. r = Some b \<longrightarrow> b = contains env l (mem a))"
proof (cases "\<exists>ls p. l = AGTV_OBJECT ls \<and> mem a = AGTV_OBJECT [p]")
  case False
  with single_pair_shape_stored [OF st(1,2)] c show ?thesis by (simp add: try_cached_single_pair_object_contains_def)
next
  case True
  then obtain ls p where lr: "l = AGTV_OBJECT ls" "mem a = AGTV_OBJECT [p]" by blast
  note ch = chain_law [OF q det lr st leaf]
  have sh: "single_pair_shape (cimage l @ rl) (cimage (mem a) @ rr) = Inr True" using single_pair_shape_stored [OF st(1,2)] True by simp
  show ?thesis
  proof (cases fn_extra)
    case (Some cache)
    show ?thesis
    proof (cases "spc_constraints cache = a")
      case True
      then have "eval_single_pair_contains_constraint env F (cimage l @ rl) (spc_path cache) (spc_value cache) = Inr (contains env l (mem a))"
        using c Some by (intro ch(2)) (simp add: cache_ok_def)
      then show ?thesis using sh c Some True by (simp add: try_cached_single_pair_object_contains_def)
    next
      case False
      then show ?thesis using sh c Some by (simp add: try_cached_single_pair_object_contains_def)
    qed
  next
    case None
    then show ?thesis
      using sh ch(1) [of rr] ch(2) [of _ _ rl] c
      by (cases "map_option as_keys (single_path (mem a))") (auto simp: try_cached_single_pair_object_contains_def cache_ok_def simp del: map_option_eq_Some)
  qed
qed

lemma contains_call_law:
  assumes q: "qsort_ok (pg_qsort_arg env)" and sym: "symp (pg_numeric_eq env)" and det: "deterministic_collation env"
    and l: "operand env F l" and r: "operand env F (mem a)" "dneed (properties_of l) + dneed (properties_of (mem a)) \<le> F"
    and leaf: "leaf_ok (properties_of (mem a))" and c: "cache_ok (\<lambda>a. properties_of (mem a)) fn_extra"
  shows "\<exists>fn_extra'. agtype_contains env F fn_extra (Some (datum l)) a (Some (datum (mem a))) =
      Inr (contains env (properties_of l) (properties_of (mem a)), fn_extra') \<and> cache_ok (\<lambda>a. properties_of (mem a)) fn_extra'"
proof -
  let ?l = "properties_of l" let ?r = "properties_of (mem a)"
  obtain rl where gl: "get_entity_properties_container_no_copy env F (datum l) False = Inr (Some (cimage ?l @ rl))" using operand_container [OF q l] by blast
  obtain rr where gr: "get_entity_properties_container_no_copy env F (datum (mem a)) False = Inr (Some (cimage ?r @ rr))" using operand_container [OF q r(1)] by blast
  have st: "stored env ?l" "stored env ?r" using l r(1) by (simp_all add: operand_def)
  have k: "AGT_ROOT_IS_OBJECT (cimage v @ rest) = Inr (agtv_type v = Type_OBJECT)" if "stored env v" for v rest
    using that by (auto elim!: stored_cases simp: root_object root_array)
  show ?thesis
  proof (cases "agtv_type ?l = Type_OBJECT \<longleftrightarrow> agtv_type ?r = Type_OBJECT")
    case False
    then have "\<not> contains env ?l ?r" using st by (auto elim!: stored_cases simp: contains_simps)
    with False c show ?thesis by (simp add: agtype_contains_def gl gr k st)
  next
    case True
    obtain b fn' where t: "try_cached_single_pair_object_contains env F fn_extra (cimage ?l @ rl) a (cimage ?r @ rr) = Inr (b, fn')"
      "cache_ok (\<lambda>a. properties_of (mem a)) fn'" "\<forall>x. b = Some x \<longrightarrow> x = contains env ?l ?r"
      using cached_law [OF q det, where mem = "\<lambda>a. properties_of (mem a)" and a = a, OF st r(2) leaf c, of rl rr] by blast
    obtain b2 where u: "try_single_pair_object_contains env F (cimage ?l @ rl) (cimage ?r @ rr) = Inr b2" "\<forall>x. b2 = Some x \<longrightarrow> x = contains env ?l ?r"
      using uncached_law [OF q det st r(2) leaf, of rl rr] by blast
    note d = deep_contains_law [OF q sym st r(2), of rl rr]
    show ?thesis
      using True t u d by (cases b; cases b2) (simp_all add: agtype_contains_def gl gr k st)
  qed
qed

text \<open>The calls of the operator in one plan node share its cache.\<close>

primrec contains_calls ::
    "pg_env \<Rightarrow> nat \<Rightarrow> SinglePairObjectContainsCache option \<Rightarrow> (byte list \<times> nat \<times> byte list) list \<Rightarrow> bool list result" where
  "contains_calls env F fn_extra [] = Inr []"
| "contains_calls env F fn_extra (c # cs) =
     (case c of (properties, addr, constraints) \<Rightarrow>
       bindE (agtype_contains env F fn_extra (Some properties) addr (Some constraints)) (\<lambda>(b, fn_extra').
       bindE (contains_calls env F fn_extra' cs) (\<lambda>bs. Inr (b # bs))))"

lemma contains_calls_law:
  assumes q: "qsort_ok (pg_qsort_arg env)" and sym: "symp (pg_numeric_eq env)" and det: "deterministic_collation env"
  shows "(\<forall>(l, a) \<in> set calls. operand env F l \<and> operand env F (mem a) \<and> dneed (properties_of l) + dneed (properties_of (mem a)) \<le> F \<and>
      leaf_ok (properties_of (mem a))) \<Longrightarrow> cache_ok (\<lambda>a. properties_of (mem a)) fn_extra \<Longrightarrow>
    contains_calls env F fn_extra (map (\<lambda>(l, a). (datum l, a, datum (mem a))) calls) =
      Inr (map (\<lambda>(l, a). contains env (properties_of l) (properties_of (mem a))) calls)"
proof (induction calls arbitrary: fn_extra)
  case (Cons x calls)
  obtain l a where x: "x = (l, a)" by (cases x)
  from Cons.prems(1) have c: "operand env F l" "operand env F (mem a)" "dneed (properties_of l) + dneed (properties_of (mem a)) \<le> F" "leaf_ok (properties_of (mem a))"
    by (simp_all add: x)
  from contains_call_law [OF q sym det c Cons.prems(2)] obtain fn' where
    "agtype_contains env F fn_extra (Some (datum l)) a (Some (datum (mem a))) = Inr (contains env (properties_of l) (properties_of (mem a)), fn')"
    "cache_ok (\<lambda>a. properties_of (mem a)) fn'" by blast
  with Cons.IH [of fn'] Cons.prems(1) show ?case by (simp add: x)
qed simp

text \<open>Two limits of the fast path. A NaN is taken to be equal to itself, which the general walk denies; and the cache goes by the
  address alone, so a constraint that moves into the memory of an earlier one is answered with the earlier one's chain.\<close>

lemma fast_path_nan:
  "single_pair_matches env (AGTV_FLOAT 0x7FF8000000000000) (AGTV_FLOAT 0x7FF8000000000000) = Inr True \<and>
   \<not> same_scalar env (AGTV_FLOAT 0x7FF8000000000000) (AGTV_FLOAT 0x7FF8000000000000)"
proof -
  have "f_isnan 0x7FF8000000000000" by (simp add: f_isnan_def f_abs_def)
  then show ?thesis by (simp add: single_pair_matches_def same_scalar_def equals_agtype_scalar_value_def compare_agtype_scalar_values.simps compare_two_floats_orderability_def)
qed

lemma stale_cache:
  assumes "qsort_ok (pg_qsort_arg env)" "deterministic_collation env" "stored env (AGTV_OBJECT ls)" "dneed (AGTV_OBJECT ls) + dneed (AGTV_OBJECT [p]) \<le> F"
    and "stored env (AGTV_OBJECT [p])" "leaf_ok (AGTV_OBJECT [p])" "map_option as_keys (single_path (AGTV_OBJECT [p])) = Some (path, v)" "stored env (AGTV_OBJECT [p'])"
  shows "try_cached_single_pair_object_contains env F (Some \<lparr>spc_constraints = a, spc_path = path, spc_value = v\<rparr>) (cimage (AGTV_OBJECT ls) @ rl) a (cimage (AGTV_OBJECT [p']) @ rr) =
    Inr (Some (contains env (AGTV_OBJECT ls) (AGTV_OBJECT [p])), Some \<lparr>spc_constraints = a, spc_path = path, spc_value = v\<rparr>)"
  using chain_law(2) [OF assms(1,2) refl refl assms(3,5,4,6,7), of rl] single_pair_shape_stored [OF assms(3,8), of rl rr]
  by (cases p') (simp add: try_cached_single_pair_object_contains_def)


definition sample_vertex :: agtype_value where
  "sample_vertex = AGTV_VERTEX [([105, 100], AGTV_INTEGER 5, 0), ([108, 97, 98, 101, 108], AGTV_STRING [65], 1),
     ([112, 114, 111, 112, 101, 114, 116, 105, 101, 115], AGTV_OBJECT [([97], AGTV_INTEGER 1, 0), ([98], AGTV_NULL, 1)], 2)]"

definition det_env :: pg_env where
  "det_env = isort_env\<lparr>pg_varstr_cmp := (\<lambda>s t. if s = t then 0 else 1)\<rparr>"

definition sample_constraint :: "int64 \<Rightarrow> agtype_value" where
  "sample_constraint i = AGTV_OBJECT [([97], AGTV_INTEGER i, 0)]"

lemma sample_operands:
  "operand det_env 100 sample_vertex" "operand det_env 100 (sample_constraint i)" "leaf_ok (properties_of (sample_constraint i))"
  "dneed (properties_of sample_vertex) + dneed (properties_of (sample_constraint i)) \<le> 100"
proof -
  note wf = pairs_ok_def elems_ok_def keys_sorted_def length_compare_agtype_string_value_def AGTYPE_MAX_PAIRS_def AGTYPE_MAX_ELEMS_def
  note ft = fits_iff INTALIGN_def keys_len_def composite_image_def
  show "operand det_env 100 sample_vertex"
    by (simp add: operand_def datum_def stored_def sample_vertex_def wf ft need.simps)
  show "operand det_env 100 (sample_constraint i)"
    by (simp add: operand_def datum_def stored_def sample_constraint_def wf ft need.simps)
  show "leaf_ok (properties_of (sample_constraint i))"
    by (simp add: leaf_ok_def sample_constraint_def single_path_leaf is_single_pair_contains_scalar_def not_nan_def)
  show "dneed (properties_of sample_vertex) + dneed (properties_of (sample_constraint i)) \<le> 100"
    by (simp add: sample_vertex_def sample_constraint_def dneed.simps need.simps)
qed


end
