(* ===== verification/Agtype_Exists.thy ===== *)
theory Agtype_Exists
  imports Agtype_ContainOps
begin

text \<open>
  The existence operators \<open>?\<close>, \<open>?|\<close> and \<open>?&\<close> of \<open>src/backend/utils/adt/agtype_ops.c\<close>, with agtype and with
  text operands, and that they decide whether keys exist in the operand or its properties.
\<close>

subsection \<open>Walking a list\<close>

text \<open>\<open>None\<close> as an iterator is the null pointer the first call starts with; a result of \<open>None\<close> ends the walk. The assertions
  on the tokens are not compiled in; a token they exclude would leave the element unset.\<close>

definition get_next_list_element ::
    "fill_fun \<Rightarrow> agtype_iterator list option \<Rightarrow> byte list \<Rightarrow> (agtype_value \<times> agtype_iterator list) option result" where
  "get_next_list_element fill it agtc =
     bindE (AGT_ROOT_COUNT agtc) (\<lambda>size.
       if size = 0 then Inr None
       else bindE (case it of
                     Some its \<Rightarrow> Inr its
                   | None \<Rightarrow> bindE (agtype_iterator_init agtc) (\<lambda>its. bindE (agtype_iterator_next fill its True) (\<lambda>(_, _, its'). Inr its'))) (\<lambda>its.
            bindE (agtype_iterator_next fill its True) (\<lambda>(itok, tmp, its').
              if itok = WAGT_END_ARRAY then Inr None
              else if itok = WAGT_ELEM then Inr (Some (tmp, its'))
              else Inl BadAccess)))"

text \<open>The loop \<open>while ((it = get_next_list_element(it, &keys->root, &elem)))\<close>: the body returns a value to leave the function with, or goes on.\<close>

primrec for_each_element ::
    "fill_fun \<Rightarrow> (agtype_value \<Rightarrow> 'a option result) \<Rightarrow> 'a \<Rightarrow> nat \<Rightarrow> agtype_iterator list option \<Rightarrow> byte list \<Rightarrow> 'a result" where
  "for_each_element fill body after 0 it agtc = Inl OutOfFuel"
| "for_each_element fill body after (Suc n) it agtc =
     bindE (get_next_list_element fill it agtc) (\<lambda>r.
       case r of
         None \<Rightarrow> Inr after
       | Some (elem, it') \<Rightarrow>
           bindE (body elem) (\<lambda>res. case res of Some x \<Rightarrow> Inr x | None \<Rightarrow> for_each_element fill body after n (Some it') agtc))"

subsection \<open>Operators with an agtype operand\<close>

definition found :: "agtype_value option result \<Rightarrow> bool result" where
  "found r = bindE r (\<lambda>v. Inr (v \<noteq> None))"

text \<open>The code after the label \<open>search_container\<close>.\<close>

definition search_container :: "pg_env \<Rightarrow> nat \<Rightarrow> byte list \<Rightarrow> agtype_value \<Rightarrow> bool result" where
  "search_container env F agt aval =
     bindE (container_header agt) (\<lambda>h.
       if header_is_object h \<and> agtv_type aval = Type_STRING then found (find_agtype_value_from_container env F agt AGT_FOBJECT aval)
       else if header_is_array h \<and> agtv_type aval \<noteq> Type_NULL then found (find_agtype_value_from_container env F agt AGT_FARRAY aval)
       else Inr False)"

text \<open>For a scalar that is not an entity \<open>agtype_value_to_agtype\<close> gets the result of \<open>extract_entity_properties\<close> as it is,
  a null pointer included.\<close>

definition agtype_exists_agtype :: "pg_env \<Rightarrow> nat \<Rightarrow> byte list \<Rightarrow> byte list \<Rightarrow> bool result" where
  "agtype_exists_agtype env F agt key =
     bindE (AGT_ROOT_IS_SCALAR key) (\<lambda>ks.
       if \<not> ks then Inr False
       else bindE (get_scalar_agtype_value_no_copy env F key) (\<lambda>(aval, _).
            bindE (AGT_ROOT_IS_SCALAR agt) (\<lambda>sc.
              if \<not> sc then search_container env F agt aval
              else bindE (get_scalar_agtype_value_no_copy env F agt) (\<lambda>(scalar_value, _).
                case scalar_value of
                  AGTV_VERTEX ps \<Rightarrow> bindE (nth_value ps 2) (\<lambda>p. found (find_agtype_value_from_agtype_value_object env F (Some p) aval))
                | AGTV_EDGE ps \<Rightarrow> bindE (nth_value ps 4) (\<lambda>p. found (find_agtype_value_from_agtype_value_object env F (Some p) aval))
                | AGTV_PATH _ \<Rightarrow> Inl (Ereport ''cannot extract properties from an agtype path'')
                | _ \<Rightarrow>
                    bindE (extract_entity_properties env F agt False) (\<lambda>p.
                      case p of
                        None \<Rightarrow> Inl BadAccess
                      | Some v \<Rightarrow> bindE (agtype_value_to_agtype env v) (\<lambda>agt'. search_container env F agt' aval))))))"

text \<open>The beginning of \<open>?|\<close> and \<open>?&\<close>: the properties of an entity, or \<open>None\<close> when the left operand is no scalar.\<close>

definition scalar_properties :: "pg_env \<Rightarrow> nat \<Rightarrow> byte list \<Rightarrow> agtype_value option result" where
  "scalar_properties env F agt =
     bindE (AGT_ROOT_IS_SCALAR agt) (\<lambda>sc.
       if \<not> sc then Inr None
       else bindE (get_scalar_agtype_value_no_copy env F agt) (\<lambda>(scalar_value, _).
            bindE (entity_properties True scalar_value) (\<lambda>p. Inr (Some p))))"

text \<open>The two searches of \<open>?|\<close> and \<open>?&\<close> in the root of the left operand.\<close>

definition search_root :: "pg_env \<Rightarrow> nat \<Rightarrow> byte list \<Rightarrow> agtype_value \<Rightarrow> bool result" where
  "search_root env F agt elem =
     bindE (container_header agt) (\<lambda>h.
     bindE (if header_is_object h \<and> agtv_type elem = Type_STRING then found (find_agtype_value_from_container env F agt AGT_FOBJECT elem) else Inr False) (\<lambda>b.
       if b then Inr True
       else if header_is_array h \<and> agtv_type elem \<noteq> Type_NULL then found (find_agtype_value_from_container env F agt AGT_FARRAY elem)
       else Inr False))"

definition keys_operand :: "byte list \<Rightarrow> bool result" where
  "keys_operand keys = bindE (container_header keys) (\<lambda>h.
     if \<not> header_is_scalar h \<and> \<not> header_is_object h then Inr True else Inl (Ereport ''invalid agtype value for right operand''))"

definition any_body :: "pg_env \<Rightarrow> nat \<Rightarrow> byte list \<Rightarrow> agtype_value option \<Rightarrow> agtype_value \<Rightarrow> bool option result" where
  "any_body env F agt properties elem =
     (if \<not> IS_A_AGTYPE_SCALAR elem then Inr (Some False)
      else bindE (case properties of
                    Some p \<Rightarrow> found (find_agtype_value_from_agtype_value_object env F (Some p) elem)
                  | None \<Rightarrow> search_root env F agt elem) (\<lambda>b. Inr (if b then Some True else None)))"

definition agtype_exists_any_agtype :: "pg_env \<Rightarrow> nat \<Rightarrow> byte list \<Rightarrow> byte list \<Rightarrow> bool result" where
  "agtype_exists_any_agtype env F agt keys =
     bindE (scalar_properties env F agt) (\<lambda>properties.
     bindE (keys_operand keys) (\<lambda>_.
       for_each_element (fill_agtype_value env F) (any_body env F agt properties) False F None keys))"

text \<open>In \<open>?&\<close> the tests after the one on the properties are reached for entities too, whose root is an array of one element.\<close>

definition all_body :: "pg_env \<Rightarrow> nat \<Rightarrow> byte list \<Rightarrow> agtype_value option \<Rightarrow> agtype_value \<Rightarrow> bool option result" where
  "all_body env F agt properties elem =
     (if \<not> IS_A_AGTYPE_SCALAR elem then Inr (Some False)
      else if agtv_type elem = Type_NULL then Inr None
      else bindE (case properties of Some p \<Rightarrow> found (find_agtype_value_from_agtype_value_object env F (Some p) elem) | None \<Rightarrow> Inr False) (\<lambda>b.
           if b then Inr None
           else bindE (search_root env F agt elem) (\<lambda>b2. Inr (if b2 then None else Some False))))"

definition agtype_exists_all_agtype :: "pg_env \<Rightarrow> nat \<Rightarrow> byte list \<Rightarrow> byte list \<Rightarrow> bool result" where
  "agtype_exists_all_agtype env F agt keys =
     bindE (scalar_properties env F agt) (\<lambda>properties.
     bindE (keys_operand keys) (\<lambda>_.
       for_each_element (fill_agtype_value env F) (all_body env F agt properties) True F None keys))"

subsection \<open>Operators with text operands\<close>

definition key_flags :: uint32 where "key_flags = AGT_FOBJECT OR AGT_FARRAY"

definition agtype_exists :: "pg_env \<Rightarrow> nat \<Rightarrow> byte list \<Rightarrow> byte list \<Rightarrow> bool result" where
  "agtype_exists env F agt key = found (find_agtype_value_from_container env F agt key_flags (AGTV_STRING key))"

text \<open>A null element of the array of keys is \<open>None\<close>.\<close>

fun agtype_exists_any :: "pg_env \<Rightarrow> nat \<Rightarrow> byte list \<Rightarrow> byte list option list \<Rightarrow> bool result" where
  "agtype_exists_any env F agt [] = Inr False"
| "agtype_exists_any env F agt (None # keys) = agtype_exists_any env F agt keys"
| "agtype_exists_any env F agt (Some key # keys) =
     bindE (found (find_agtype_value_from_container env F agt key_flags (AGTV_STRING key))) (\<lambda>b.
       if b then Inr True else agtype_exists_any env F agt keys)"

fun agtype_exists_all :: "pg_env \<Rightarrow> nat \<Rightarrow> byte list \<Rightarrow> byte list option list \<Rightarrow> bool result" where
  "agtype_exists_all env F agt [] = Inr True"
| "agtype_exists_all env F agt (None # keys) = agtype_exists_all env F agt keys"
| "agtype_exists_all env F agt (Some key # keys) =
     bindE (found (find_agtype_value_from_container env F agt key_flags (AGTV_STRING key))) (\<lambda>b.
       if \<not> b then Inr False else agtype_exists_all env F agt keys)"

subsection \<open>The binary search of an in-memory object\<close>

lemma sdiv_half: "(x :: int) \<ge> 0 \<Longrightarrow> x sdiv 2 = x div 2"
  by (simp add: signed_divide_int_def sgn_if)

lemma keys_sorted_nth: "keys_sorted ps \<Longrightarrow> i < j \<Longrightarrow> j < length ps \<Longrightarrow> key_cmp (pair_key (ps ! i)) (pair_key (ps ! j)) < 0"
  using sorted_wrt_nth_less [OF keys_nth_sorted, of ps i j] by simp

lemma pairs_map_nth: "keys_sorted ps \<Longrightarrow> i < length ps \<Longrightarrow> pairs_map ps (pair_key (ps ! i)) = Some (pair_value (ps ! i))"
  using pairs_map_iff [of ps "pair_key (ps ! i)" "pair_value (ps ! i)"] by (metis nth_mem prod.collapse)

lemma pairs_map_none: "(\<And>i. i < length ps \<Longrightarrow> pair_key (ps ! i) \<noteq> k) \<Longrightarrow> pairs_map ps k = None"
  by (force simp: pairs_map_def map_of_eq_None_iff in_set_conv_nth image_iff)

lemma object_value_loop_correct:
  "keys_sorted ps \<Longrightarrow> 0 \<le> left \<Longrightarrow> right < int (length ps) \<Longrightarrow> (left \<le> right \<Longrightarrow> left \<le> middle \<and> middle \<le> right) \<Longrightarrow>
    (\<And>i. i < length ps \<Longrightarrow> int i < left \<or> right < int i \<Longrightarrow> pair_key (ps ! i) \<noteq> key) \<Longrightarrow>
    object_value_loop ps key left right middle = Inr (pairs_map ps key)"
proof (induction ps key left right middle rule: object_value_loop.induct)
  case (1 ps key left right middle)
  note sorted = 1(3) and out = 1(7)
  show ?case
  proof (cases "left \<le> right")
    case False
    then have "pairs_map ps key = None" by (intro pairs_map_none out) auto
    with False show ?thesis by (subst object_value_loop.simps) auto
  next
    case True
    define m where "m = nat middle"
    have mid: "left \<le> middle" "middle \<le> right" "\<not> (middle < 0 \<or> int (length ps) \<le> middle)" "m < length ps" "int m = middle"
      using 1(6) [OF True] 1(4,5) by (auto simp: m_def)
    define k where "k = pair_key (ps ! m)"
    define result where "result = (if length k \<noteq> length key then int (length key) - int (length k) else memcmp key k)"
    have sg: "result = 0 \<longleftrightarrow> k = key" "result < 0 \<longleftrightarrow> key_cmp key k < 0"
      using memcmp_eq_0 [of key k] by (auto simp: result_def length_compare_agtype_string_value_def)
    note S = object_value_loop.simps [of ps key left right middle, unfolded Let_def, folded m_def, folded k_def, folded result_def]
    note IH = 1(1,2) [OF conjI [OF mid(1,2)] mid(3) refl refl, folded m_def, folded k_def, folded result_def]
    consider "result = 0" | "result < 0" | "result > 0" by linarith
    then show ?thesis
    proof cases
      case 1
      then show ?thesis using S mid sg(1) pairs_map_nth [OF sorted mid(4)] by (simp add: k_def)
    next
      case 2
      have lo: "pair_key (ps ! i) \<noteq> key" if "i < length ps" "middle - 1 < int i" for i
        using keys_sorted_nth [OF sorted, of m i] sg 2 that mid(5) key_cmp_trans [of key k "pair_key (ps ! i)"] by (cases "i = m") (auto simp: k_def)
      have "object_value_loop ps key left (middle - 1) ((middle - 1 - left) sdiv 2 + left) = Inr (pairs_map ps key)"
        using 2 sorted mid lo out \<open>0 \<le> left\<close> \<open>right < int (length ps)\<close> by (intro IH(1)) (auto simp: sdiv_half)
      then show ?thesis using S mid 2 by simp
    next
      case 3
      then have kc: "key_cmp k key < 0" using sg key_cmp_total [of k key] by force
      have hi: "pair_key (ps ! i) \<noteq> key" if "i < length ps" "int i < middle + 1" for i
        using keys_sorted_nth [OF sorted, of i m] sg 3 that mid(4,5) kc key_cmp_trans [of "pair_key (ps ! i)" k key] by (cases "i = m") (auto simp: k_def)
      have "object_value_loop ps key (middle + 1) right ((right - (middle + 1)) sdiv 2 + (middle + 1)) = Inr (pairs_map ps key)"
        using 3 sorted mid hi out \<open>0 \<le> left\<close> \<open>right < int (length ps)\<close> by (intro IH(2)) (auto simp: sdiv_half)
      then show ?thesis using S mid 3 by simp
    qed
  qed
qed

lemma object_value_correct:
  assumes "keys_sorted ps"
  shows "get_agtype_value_object_value ps key = Inr (if key = [] then None else pairs_map ps key)"
  unfolding get_agtype_value_object_value_def
  using object_value_loop_correct [OF assms, of 0 "int (length ps) - 1" "int (length ps div 2)" key] by auto

subsection \<open>Walking a stored list\<close>

fun first_some :: "('b \<Rightarrow> 'a option) \<Rightarrow> 'a \<Rightarrow> 'b list \<Rightarrow> 'a" where
  "first_some f after [] = after"
| "first_some f after (x # xs) = (case f x of Some y \<Rightarrow> y | None \<Rightarrow> first_some f after xs)"

definition at_element :: "agtype_value list \<Rightarrow> byte list \<Rightarrow> nat \<Rightarrow> agtype_iterator list option \<Rightarrow> bool" where
  "at_element es rest i it \<longleftrightarrow> it = Some [array_it False es rest i AGTI_ARRAY_ELEM] \<or> it = None \<and> i = 0"

lemma next_element_law:
  assumes "\<forall>w \<in> set es. reads fill w" "fits (length (array_image enc False es))" "at_element es rest i it" "i \<le> length es"
  shows "if i < length es
    then \<exists>rst. get_next_list_element fill it (array_image enc False es @ rest) = Inr (Some (shallow (es ! i) rst, [array_it False es rest (Suc i) AGTI_ARRAY_ELEM]))
    else get_next_list_element fill it (array_image enc False es @ rest) = Inr None"
proof -
  let ?c = "array_image enc False es @ rest"
  have n: "AGT_ROOT_COUNT ?c = Inr (length es)" by (rule root_array(4) [OF assms(2)])
  have st: "(case it of Some its \<Rightarrow> Inr its
      | None \<Rightarrow> bindE (agtype_iterator_init ?c) (\<lambda>its. bindE (agtype_iterator_next fill its True) (\<lambda>(_, _, its'). Inr its'))) = Inr [array_it False es rest i AGTI_ARRAY_ELEM]"
    using assms(3) by (auto simp: at_element_def agtype_iterator_init_def iterator_from_array [OF assms(2)] next_array_start)
  show ?thesis
  proof (cases "i < length es")
    case True
    then obtain rst where "agtype_iterator_next fill [array_it False es rest i AGTI_ARRAY_ELEM] True =
        iterator_child True WAGT_ELEM (shallow (es ! i) rst) (array_it False es rest (Suc i) AGTI_ARRAY_ELEM) []"
      using next_array_elem [OF _ True assms(2), of fill rest "[]" True] assms(1) by auto
    then show ?thesis using True n st by (auto simp: get_next_list_element_def iterator_child_def)
  next
    case False
    then have "i = length es" using assms(4) by simp
    then show ?thesis using n st next_array_end [of fill False es rest "[]" True] by (auto simp: get_next_list_element_def)
  qed
qed

lemma for_each_law:
  assumes rd: "\<forall>w \<in> set es. reads fill w" and f: "fits (length (array_image enc False es))"
    and body: "\<And>w rst. w \<in> set es \<Longrightarrow> body (shallow w rst) = Inr (g w)"
  shows "i \<le> length es \<Longrightarrow> length es - i < n \<Longrightarrow> at_element es rest i it \<Longrightarrow>
    for_each_element fill body after n it (array_image enc False es @ rest) = Inr (first_some g after (drop i es))"
proof (induction n arbitrary: i it)
  case (Suc n)
  note nx = next_element_law [OF rd f Suc.prems(3,1)]
  show ?case
  proof (cases "i < length es")
    case False
    with nx show ?thesis by simp
  next
    case True
    with nx obtain rst where e: "get_next_list_element fill it (array_image enc False es @ rest) =
        Inr (Some (shallow (es ! i) rst, [array_it False es rest (Suc i) AGTI_ARRAY_ELEM]))" by auto
    have d: "drop i es = es ! i # drop (Suc i) es" by (rule Cons_nth_drop_Suc [symmetric, OF True])
    have "for_each_element fill body after n (Some [array_it False es rest (Suc i) AGTI_ARRAY_ELEM]) (array_image enc False es @ rest) = Inr (first_some g after (drop (Suc i) es))"
      using True Suc.prems(2) by (intro Suc.IH) (simp_all add: at_element_def)
    with e body [of "es ! i" rst] True show ?thesis by (simp add: d split: option.split)
  qed
qed simp

subsection \<open>What exists\<close>

definition exists_in :: "pg_env \<Rightarrow> agtype_value \<Rightarrow> agtype_value \<Rightarrow> bool" where
  "exists_in env v k =
     (case v of
        AGTV_OBJECT ps \<Rightarrow> (case k of AGTV_STRING s \<Rightarrow> pairs_map ps s \<noteq> None | _ \<Rightarrow> False)
      | AGTV_ARRAY _ es \<Rightarrow> k \<noteq> AGTV_NULL \<and> (\<exists>w \<in> set es. contains env w k)
      | _ \<Rightarrow> False)"

text \<open>The properties of an entity are searched in memory, where the empty key is never found.\<close>

definition key_exists :: "pg_env \<Rightarrow> agtype_value \<Rightarrow> agtype_value \<Rightarrow> bool" where
  "key_exists env v k \<longleftrightarrow>
     (if IS_A_AGTYPE_SCALAR v
      then agtv_type (properties_of v) = Type_OBJECT \<and> k \<noteq> AGTV_STRING [] \<and> exists_in env (properties_of v) k
      else exists_in env v k)"

lemma search_stored:
  assumes q: "qsort_ok (pg_qsort_arg env)" and sym: "symp (pg_numeric_eq env)" and st: "stored env v" "dneed v \<le> F" and k: "plain k" "IS_A_AGTYPE_SCALAR k"
  shows "search_container env F (cimage v @ rest) k = Inr (exists_in env v k)" "search_root env F (cimage v @ rest) k = Inr (exists_in env v k)"
proof -
  have rd: "reads (fill_agtype_value env F) w" "plain w" if "w \<in> set (kids v)" for w using stored_reads [OF q st that] .
  have null: "agtv_type k = Type_NULL \<longleftrightarrow> k = AGTV_NULL" by (cases k) simp_all
  have str: "agtv_type k = Type_STRING \<longleftrightarrow> (\<exists>s. k = AGTV_STRING s)" by (cases k) simp_all
  have "search_container env F (cimage v @ rest) k = Inr (exists_in env v k) \<and> search_root env F (cimage v @ rest) k = Inr (exists_in env v k)"
    using st(1)
  proof (cases rule: stored_cases)
    case (arr raw es)
    have n: "fits (length es)" by (rule fits_mono [OF arr(3)]) simp
    obtain r where r: "find_agtype_value_from_container env F (array_image enc raw es @ rest) AGT_FARRAY k = Inr r" "r \<noteq> None \<longleftrightarrow> (\<exists>w \<in> set es. contains env w k)"
      using find_array_stored [of es env F raw k rest] rd arr k sym by auto
    then show ?thesis using array_header_image(1) [of raw es rest] array_header_fields [OF n, of raw]
      by (simp add: arr(1) search_container_def search_root_def found_def exists_in_def null)
  next
    case (obj ps)
    have n: "fits (length ps)" by (rule fits_mono [OF obj(4)]) simp
    have "found (find_agtype_value_from_container env F (object_image enc_pair ps @ rest) AGT_FOBJECT (AGTV_STRING s)) = Inr (pairs_map ps s \<noteq> None)" for s
      using find_object_with [OF obj(4), where fill = "fill_agtype_value env F" and k = s and eq = "equals_agtype_scalar_value env" and rest = rest] rd obj(1,2)
      by (auto simp: find_agtype_value_from_container_def found_def pairs_ok_def split: option.splits)
    moreover have "exists_in env v k = False" if "\<nexists>s. k = AGTV_STRING s" using that by (cases k) (simp_all add: obj(1) exists_in_def)
    ultimately show ?thesis using object_header_image [of ps rest] header_flags [OF n] str
      by (cases "\<exists>s. k = AGTV_STRING s") (auto simp: obj(1) search_container_def search_root_def exists_in_def)
  qed
  then show "search_container env F (cimage v @ rest) k = Inr (exists_in env v k)" "search_root env F (cimage v @ rest) k = Inr (exists_in env v k)" by blast+
qed

lemma renumber_pairs: "map (\<lambda>p. (pair_key p, pair_value p)) (renumber f ps) = map (\<lambda>p. (pair_key p, f (pair_value p))) ps"
proof -
  have "map (\<lambda>p. (pair_key p, pair_value p)) (number_pairs n kvs) = kvs" for n kvs
    by (induction n kvs rule: number_pairs.induct) auto
  then show ?thesis by (simp add: renumber_def)
qed

lemma pairs_map_renumber: "pairs_map (renumber f ps) k = map_option f (pairs_map ps k)"
  unfolding pairs_map_def renumber_pairs by (induction ps) auto

lemma keys_sorted_renumber: "keys_sorted ps \<Longrightarrow> keys_sorted (renumber f ps)"
  using renumber_keys(1) [of f ps] by (simp add: keys_sorted_map)

lemma search_properties:
  assumes "stored env p" "plain k"
  shows "found (find_agtype_value_from_agtype_value_object env F (Some (norm p)) k) = Inr (agtv_type p = Type_OBJECT \<and> k \<noteq> AGTV_STRING [] \<and> exists_in env p k)"
  using assms(1)
proof (cases rule: stored_cases)
  case (arr raw es)
  then show ?thesis by (cases k) (simp_all add: find_agtype_value_from_agtype_value_object_def found_def)
next
  case (obj ps)
  then have "keys_sorted (renumber norm ps)" by (simp add: keys_sorted_renumber pairs_ok_def)
  from object_value_correct [OF this] show ?thesis
    by (cases k) (auto simp: obj(1) find_agtype_value_from_agtype_value_object_def found_def exists_in_def pairs_map_renumber)
qed

lemma scalar_operand:
  assumes "qsort_ok (pg_qsort_arg env)" "operand env F l" "IS_A_AGTYPE_SCALAR l"
  shows "AGT_ROOT_IS_SCALAR (datum l) = Inr True" "get_scalar_agtype_value_no_copy env F (datum l) = Inr (norm l, needs_free (norm l))"
proof -
  have l: "wf_value env l" "fits (length (array_image enc True [l]))" "need l \<le> F" using assms(2,3) by (simp_all add: operand_def datum_def)
  show "AGT_ROOT_IS_SCALAR (datum l) = Inr True" using root_array(3) [OF l(2), of "[]"] assms(3) by (simp add: datum_def)
  show "get_scalar_agtype_value_no_copy env F (datum l) = Inr (norm l, needs_free (norm l))"
    using get_ith_raw_scalar [OF assms(1) l(1) assms(3) l(2,3), of "[]"] assms(3) by (simp add: get_scalar_agtype_value_no_copy_def no_copy_agrees datum_def)
qed

lemma container_operand: "operand env F l \<Longrightarrow> \<not> IS_A_AGTYPE_SCALAR l \<Longrightarrow> AGT_ROOT_IS_SCALAR (cimage l) = Inr False \<and> datum l = cimage l \<and> stored env l \<and> properties_of l = l"
  using root_object(3) [of _ "[]"] root_array(3) [of False _ "[]"] by (cases l) (auto simp: operand_def datum_def)

lemma exists_agtype_law:
  assumes q: "qsort_ok (pg_qsort_arg env)" and sym: "symp (pg_numeric_eq env)" and l: "operand env F l" "dneed (properties_of l) \<le> F"
    and k: "wf_value env k" "plain k" "IS_A_AGTYPE_SCALAR k" "fits (length (array_image enc True [k]))" "need k \<le> F"
  shows "\<exists>dk. agtype_value_to_agtype env k = Inr dk \<and> agtype_exists_agtype env F (datum l) dk = Inr (key_exists env l k)"
proof -
  obtain dk h where dk: "agtype_value_to_agtype env k = Inr dk" "get_ith_agtype_value_from_container env F dk 0 = Inr (Some (norm k))"
    "container_header dk = Inr h" "header_is_scalar h" using scalar_datum_read [OF q k(1,3,4,5)] by blast
  have g: "AGT_ROOT_IS_SCALAR dk = Inr True" "get_scalar_agtype_value_no_copy env F dk = Inr (k, needs_free k)"
    using dk plain_norm [OF k(2,3)] by (simp_all add: AGT_ROOT_IS_SCALAR_def get_scalar_agtype_value_no_copy_def no_copy_agrees)
  have "agtype_exists_agtype env F (datum l) dk = Inr (key_exists env l k)"
  proof (cases "IS_A_AGTYPE_SCALAR l")
    case False
    note c = container_operand [OF l(1) False]
    show ?thesis using g c search_stored(1) [OF q sym _ _ k(2,3), of l F "[]"] l(2) False by (simp add: agtype_exists_agtype_def key_exists_def)
  next
    case True
    note sc = scalar_operand [OF q l(1) True]
    have t: "agtv_type l \<in> {Type_VERTEX, Type_EDGE}" "stored env (properties_of l)" using l(1) True by (simp_all add: operand_def)
    note e = entity_properties_norm [OF t(2,1), of True]
    show ?thesis using g sc True search_properties [OF t(2) k(2), of F] t e
      by (cases l) (auto simp: agtype_exists_agtype_def key_exists_def entity_properties_def)
  qed
  with dk(1) show ?thesis by blast
qed

lemma first_some_any: "first_some (\<lambda>w. if P w then if Q w then Some True else None else Some False) False es \<longleftrightarrow> (\<exists>w \<in> set (takeWhile P es). Q w)"
  by (induction es) auto

lemma first_some_all: "first_some (\<lambda>w. if P w then if Q w then None else Some False else Some False) True es \<longleftrightarrow> (\<forall>w \<in> set es. P w \<and> Q w)"
  by (induction es) auto

definition entity_arg :: "agtype_value \<Rightarrow> agtype_value option" where
  "entity_arg l = (if IS_A_AGTYPE_SCALAR l then Some (norm (properties_of l)) else None)"

lemma scalar_properties_law:
  assumes "qsort_ok (pg_qsort_arg env)" "operand env F l"
  shows "scalar_properties env F (datum l) = Inr (entity_arg l)"
proof (cases "IS_A_AGTYPE_SCALAR l")
  case True
  then have t: "agtv_type l \<in> {Type_VERTEX, Type_EDGE}" "stored env (properties_of l)" using assms(2) by (simp_all add: operand_def)
  show ?thesis using scalar_operand [OF assms True] entity_properties_norm [OF t(2,1), of True] True by (simp add: scalar_properties_def entity_arg_def)
next
  case False
  then show ?thesis using container_operand [OF assms(2)] by (simp add: scalar_properties_def entity_arg_def)
qed

lemma null_type: "agtv_type w = Type_NULL \<longleftrightarrow> w = AGTV_NULL"
  by (cases w) simp_all

lemma any_body_law:
  assumes q: "qsort_ok (pg_qsort_arg env)" and sym: "symp (pg_numeric_eq env)" and l: "operand env F l" "dneed (properties_of l) \<le> F" and w: "plain w"
  shows "any_body env F (datum l) (entity_arg l) (shallow w rst) = Inr (if IS_A_AGTYPE_SCALAR w then if key_exists env l w then Some True else None else Some False)"
proof (cases "IS_A_AGTYPE_SCALAR w")
  case sc: True
  then have s: "shallow w rst = w" using w by (simp add: shallow_def plain_norm)
  show ?thesis
  proof (cases "IS_A_AGTYPE_SCALAR l")
    case True
    then have "stored env (properties_of l)" using l(1) by (simp add: operand_def)
    with True sc s search_properties [OF _ w, of env "properties_of l" F] show ?thesis by (simp add: any_body_def key_exists_def entity_arg_def)
  next
    case False
    with sc s container_operand [OF l(1) False] search_stored(2) [OF q sym _ _ w sc, of l F "[]"] l(2)
    show ?thesis by (simp add: any_body_def key_exists_def entity_arg_def)
  qed
qed (simp add: any_body_def shallow_def)

text \<open>The search of \<open>?&\<close> in the root of a stored entity finds nothing: no plain value has its type.\<close>

lemma search_entity_root:
  assumes "qsort_ok (pg_qsort_arg env)" "operand env F l" "IS_A_AGTYPE_SCALAR l" "plain w"
  shows "search_root env F (datum l) w = Inr False"
proof -
  have o: "wf_value env l" "need l \<le> F" "fits (length (array_image enc True [l]))" "agtv_type l \<in> {Type_VERTEX, Type_EDGE}"
    using assms(2,3) by (simp_all add: operand_def datum_def)
  have r: "reads (fill_agtype_value env F) l" using fill_ok [OF assms(1) o(1,2)] by simp
  have "agtv_type w \<noteq> agtv_type (norm l)" using assms(4) o(4) by (subst (asm) plain.simps) (cases l; auto)
  then show ?thesis
    using find_singleton [OF r o(3) assms(3), of "equals_agtype_scalar_value env" w] array_header_image(1) [of True "[l]" "[]"] array_header_fields [of 1 True] assms(3)
    by (simp add: search_root_def found_def datum_def find_agtype_value_from_container_def fits_iff)
qed

lemma all_body_law:
  assumes q: "qsort_ok (pg_qsort_arg env)" and sym: "symp (pg_numeric_eq env)" and l: "operand env F l" "dneed (properties_of l) \<le> F" and w: "plain w"
  shows "all_body env F (datum l) (entity_arg l) (shallow w rst) =
    Inr (if IS_A_AGTYPE_SCALAR w then if w = AGTV_NULL \<or> key_exists env l w then None else Some False else Some False)"
proof (cases "IS_A_AGTYPE_SCALAR w")
  case sc: True
  then have s: "shallow w rst = w" using w by (simp add: shallow_def plain_norm)
  show ?thesis
  proof (cases "IS_A_AGTYPE_SCALAR l")
    case True
    then have "stored env (properties_of l)" using l(1) by (simp add: operand_def)
    with True sc s search_properties [OF _ w, of env "properties_of l" F] search_entity_root [OF q l(1) True w]
    show ?thesis by (auto simp: all_body_def key_exists_def null_type entity_arg_def)
  next
    case False
    with sc s container_operand [OF l(1) False] search_stored(2) [OF q sym _ _ w sc, of l F "[]"] l(2)
    show ?thesis by (auto simp: all_body_def key_exists_def null_type entity_arg_def)
  qed
qed (simp add: all_body_def shallow_def)

lemma exists_list_law:
  assumes q: "qsort_ok (pg_qsort_arg env)" and sym: "symp (pg_numeric_eq env)" and l: "operand env F l" "dneed (properties_of l) \<le> F"
    and ks: "stored env (AGTV_ARRAY False ks)" "dneed (AGTV_ARRAY False ks) \<le> F"
  shows "agtype_exists_any_agtype env F (datum l) (datum (AGTV_ARRAY False ks)) = Inr (\<exists>k \<in> set (takeWhile IS_A_AGTYPE_SCALAR ks). key_exists env l k)"
    "agtype_exists_all_agtype env F (datum l) (datum (AGTV_ARRAY False ks)) = Inr (\<forall>k \<in> set ks. IS_A_AGTYPE_SCALAR k \<and> (k = AGTV_NULL \<or> key_exists env l k))"
proof -
  let ?fill = "fill_agtype_value env F"
  have kl: "reads ?fill w" "plain w" if "w \<in> set ks" for w using stored_reads [OF q ks, of w] that by simp_all
  have f: "fits (length (array_image enc False ks))" using ks(1) by (simp add: stored_def)
  have n: "fits (length ks)" by (rule fits_mono [OF f]) simp
  have len: "length ks < F" using dneed_bounds(2) [of "AGTV_ARRAY False ks"] ks(2) by simp
  have op: "keys_operand (array_image enc False ks) = Inr True"
    using array_header_image(1) [of False ks "[]"] array_header_fields [OF n, of False] by (simp add: keys_operand_def)
  note p = scalar_properties_law [OF q l(1)]
  have each: "for_each_element ?fill body after F None (array_image enc False ks @ []) = Inr (first_some g after (drop 0 ks))"
    if "\<And>w rst. plain w \<Longrightarrow> body (shallow w rst) = Inr (g w)" for body :: "agtype_value \<Rightarrow> bool option result" and g after
    using kl len that by (intro for_each_law [OF _ f]) (simp_all add: at_element_def)
  show "agtype_exists_any_agtype env F (datum l) (datum (AGTV_ARRAY False ks)) = Inr (\<exists>k \<in> set (takeWhile IS_A_AGTYPE_SCALAR ks). key_exists env l k)"
    using each [where body = "any_body env F (datum l) (entity_arg l)" and after = False, OF any_body_law [OF q sym l]]
    by (simp add: agtype_exists_any_agtype_def p op first_some_any datum_def [of "AGTV_ARRAY _ _"])
  show "agtype_exists_all_agtype env F (datum l) (datum (AGTV_ARRAY False ks)) = Inr (\<forall>k \<in> set ks. IS_A_AGTYPE_SCALAR k \<and> (k = AGTV_NULL \<or> key_exists env l k))"
    using each [where body = "all_body env F (datum l) (entity_arg l)" and after = True, OF all_body_law [OF q sym l]]
    by (simp add: agtype_exists_all_agtype_def p op first_some_all datum_def [of "AGTV_ARRAY _ _"])
qed

text \<open>The operand \<open>null\<close> makes \<open>?\<close> pass a null pointer on.\<close>

lemma exists_null_operand:
  assumes q: "qsort_ok (pg_qsort_arg env)" and n: "agtype_value_to_agtype env AGTV_NULL = Inr d" "need AGTV_NULL \<le> F"
    and k: "agtype_value_to_agtype env k = Inr dk" "wf_value env k" "IS_A_AGTYPE_SCALAR k" "fits (length (array_image enc True [k]))" "need k \<le> F"
  shows "agtype_exists_agtype env F d dk = Inl BadAccess"
proof -
  have s: "AGT_ROOT_IS_SCALAR d = Inr True \<and> get_scalar_agtype_value_no_copy env F d = Inr (norm v, needs_free (norm v)) \<and> get_ith_agtype_value_from_container env F d 0 = Inr (Some (norm v))"
    if v: "agtype_value_to_agtype env v = Inr d" "wf_value env v" "IS_A_AGTYPE_SCALAR v" "fits (length (array_image enc True [v]))" "need v \<le> F" for v d
  proof -
    obtain h where "get_ith_agtype_value_from_container env F d 0 = Inr (Some (norm v))" "container_header d = Inr h" "header_is_scalar h"
      using scalar_datum_read [OF q v(2-5)] v(1) by auto
    then show ?thesis by (simp add: AGT_ROOT_IS_SCALAR_def get_scalar_agtype_value_no_copy_def no_copy_agrees)
  qed
  have "fits (length (array_image enc True [AGTV_NULL]))" by (simp add: fits_iff)
  from s [OF n(1) _ _ this n(2)] s [OF k] show ?thesis
    by (simp add: agtype_exists_agtype_def extract_entity_properties_def entity_properties_def)
qed



end
