(* ===== verification/Agtype_Concat.thy ===== *)
theory Agtype_Concat
  imports Agtype_Exists
begin

text \<open>
  Concatenation (\<open>agtype_concat_impl\<close>, \<open>iterator_concat\<close>) and deletion by key and by index
  (\<open>delete_from_object\<close>, \<open>delete_from_array\<close>) from \<open>src/backend/utils/adt/agtype_ops.c\<close>: the operands are walked
  with iterators, their children pushed into a new parse state, and the value built is stored again.
\<close>

subsection \<open>Concatenation\<close>

text \<open>The loop \<open>while ((r = agtype_iterator_next(it, &v, true)) != stop) push_agtype_value(state, r, &v)\<close>, with the test on the
  value that two of the loops make first.\<close>

primrec push_until ::
    "pg_env \<Rightarrow> nat \<Rightarrow> (agtype_value \<Rightarrow> unit result) \<Rightarrow> agtype_iterator_token \<Rightarrow> nat \<Rightarrow> agtype_iterator list \<Rightarrow>
     agtype_parse_state list \<Rightarrow> agtype_parse_state list result" where
  "push_until env F test stop 0 its state = Inl OutOfFuel"
| "push_until env F test stop (Suc n) its state =
     bindE (agtype_iterator_next (fill_agtype_value env F) its True) (\<lambda>(r, v, its').
       if r = stop then Inr state
       else bindE (test v) (\<lambda>_.
            bindE (push_agtype_value env (fill_agtype_value env F) F state r (Some v)) (\<lambda>(_, state').
              push_until env F test stop n its' state')))"

definition no_test :: "agtype_value \<Rightarrow> unit result" where
  "no_test v = Inr ()"

text \<open>The range \<open>AGTV_VERTEX\<close> to \<open>AGTV_PATH\<close> of the enumeration.\<close>

definition entity_test :: "string \<Rightarrow> agtype_value \<Rightarrow> unit result" where
  "entity_test msg v = (if agtv_type v \<in> {Type_VERTEX, Type_EDGE, Type_PATH} then Inr () else Inl (Ereport msg))"

text \<open>Push a token without a value, and drop the result.\<close>

definition push_token :: "pg_env \<Rightarrow> nat \<Rightarrow> agtype_parse_state list \<Rightarrow> agtype_iterator_token \<Rightarrow> agtype_parse_state list result" where
  "push_token env F state tok = bindE (push_agtype_value env (fill_agtype_value env F) F state tok None) (\<lambda>(_, state'). Inr state')"

text \<open>Copy an object with its begin and end, as an element of an array under construction.\<close>

definition push_object :: "pg_env \<Rightarrow> nat \<Rightarrow> agtype_iterator list \<Rightarrow> agtype_parse_state list \<Rightarrow> agtype_parse_state list result" where
  "push_object env F its state =
     bindE (push_token env F state WAGT_BEGIN_OBJECT) (\<lambda>s1.
     bindE (push_until env F no_test WAGT_END_OBJECT F its s1) (\<lambda>s2. push_token env F s2 WAGT_END_OBJECT))"

definition it_scalar :: "agtype_iterator list \<Rightarrow> bool" where
  "it_scalar its = (case its of it # _ \<Rightarrow> it_is_scalar it | [] \<Rightarrow> False)"

definition iterator_concat :: "pg_env \<Rightarrow> nat \<Rightarrow> agtype_iterator list \<Rightarrow> agtype_iterator list \<Rightarrow> agtype_value option result" where
  "iterator_concat env F it1 it2 =
     bindE (agtype_iterator_next (fill_agtype_value env F) it1 False) (\<lambda>(rk1, _, i1).
     bindE (agtype_iterator_next (fill_agtype_value env F) it2 False) (\<lambda>(rk2, _, i2).
       let finish = (\<lambda>s tok. bindE (push_agtype_value env (fill_agtype_value env F) F s tok None) (\<lambda>(res, _). Inr res))
       in if rk1 = WAGT_BEGIN_OBJECT \<and> rk2 = WAGT_BEGIN_OBJECT then
            bindE (push_token env F [] WAGT_BEGIN_OBJECT) (\<lambda>s1.
            bindE (push_until env F no_test WAGT_END_OBJECT F i1 s1) (\<lambda>s2.
            bindE (push_until env F no_test WAGT_END_OBJECT F i2 s2) (\<lambda>s3. finish s3 WAGT_END_OBJECT)))
          else if rk1 = WAGT_BEGIN_ARRAY \<and> rk2 = WAGT_BEGIN_ARRAY then
            bindE (push_token env F [] WAGT_BEGIN_ARRAY) (\<lambda>s1.
            bindE (push_until env F no_test WAGT_END_ARRAY F i1 s1) (\<lambda>s2.
            bindE (push_until env F no_test WAGT_END_ARRAY F i2 s2) (\<lambda>s3. finish s3 WAGT_END_ARRAY)))
          else if rk1 = WAGT_BEGIN_ARRAY \<and> \<not> it_scalar i1 \<and> rk2 = WAGT_BEGIN_OBJECT then
            bindE (push_token env F [] WAGT_BEGIN_ARRAY) (\<lambda>s1.
            bindE (push_until env F no_test WAGT_END_ARRAY F i1 s1) (\<lambda>s2.
            bindE (push_object env F i2 s2) (\<lambda>s3. finish s3 WAGT_END_ARRAY)))
          else if rk1 = WAGT_BEGIN_OBJECT \<and> rk2 = WAGT_BEGIN_ARRAY \<and> \<not> it_scalar i2 then
            bindE (push_token env F [] WAGT_BEGIN_ARRAY) (\<lambda>s1.
            bindE (push_object env F i1 s1) (\<lambda>s2.
            bindE (push_until env F no_test WAGT_END_ARRAY F i2 s2) (\<lambda>s3. finish s3 WAGT_END_ARRAY)))
          else if rk1 = WAGT_BEGIN_OBJECT then
            bindE (push_token env F [] WAGT_BEGIN_ARRAY) (\<lambda>s1.
            bindE (push_object env F i1 s1) (\<lambda>s2.
            bindE (push_until env F (entity_test ''invalid right operand for agtype concatenation'') WAGT_END_ARRAY F i2 s2) (\<lambda>s3. finish s3 WAGT_END_ARRAY)))
          else
            bindE (push_token env F [] WAGT_BEGIN_ARRAY) (\<lambda>s1.
            bindE (push_until env F (entity_test ''invalid left operand for agtype concatenation'') WAGT_END_ARRAY F i1 s1) (\<lambda>s2.
            bindE (push_object env F i2 s2) (\<lambda>s3. finish s3 WAGT_END_ARRAY)))))"

definition agtype_concat_impl :: "pg_env \<Rightarrow> nat \<Rightarrow> byte list \<Rightarrow> byte list \<Rightarrow> byte list result" where
  "agtype_concat_impl env F agt1 agt2 =
     bindE (container_header agt1) (\<lambda>h1. bindE (container_header agt2) (\<lambda>h2.
       if header_is_object h1 = header_is_object h2 \<and> header_size h1 = 0 \<and> \<not> header_is_scalar h2 then Inr agt2
       else if header_is_object h1 = header_is_object h2 \<and> header_size h2 = 0 \<and> \<not> header_is_scalar h1 then Inr agt1
       else bindE (agtype_iterator_init agt1) (\<lambda>it1. bindE (agtype_iterator_init agt2) (\<lambda>it2.
            bindE (iterator_concat env F it1 it2) (\<lambda>res.
              case res of None \<Rightarrow> Inl BadAccess | Some v \<Rightarrow> agtype_value_to_agtype env v)))))"

text \<open>SQL nulls are \<open>None\<close>.\<close>

definition agtype_concat :: "pg_env \<Rightarrow> nat \<Rightarrow> byte list option \<Rightarrow> byte list option \<Rightarrow> byte list option result" where
  "agtype_concat env F lhs rhs =
     (case (lhs, rhs) of (Some l, Some r) \<Rightarrow> bindE (agtype_concat_impl env F l r) (\<lambda>d. Inr (Some d)) | _ \<Rightarrow> Inr None)"

subsection \<open>Deletion\<close>

text \<open>The loop of \<open>delete_from_object\<close>: the first token is read without, the others with skipping nested containers. A key that matches
  is dropped with the value after it; the test covers the elements of arrays too.\<close>

primrec delete_key_loop ::
    "pg_env \<Rightarrow> nat \<Rightarrow> byte list \<Rightarrow> nat \<Rightarrow> bool \<Rightarrow> agtype_iterator list \<Rightarrow> agtype_parse_state list \<Rightarrow> agtype_value option \<Rightarrow> agtype_value option result" where
  "delete_key_loop env F key 0 skip_nested its state res = Inl OutOfFuel"
| "delete_key_loop env F key (Suc n) skip_nested its state res =
     bindE (agtype_iterator_next (fill_agtype_value env F) its skip_nested) (\<lambda>(r, v, its').
       if r = WAGT_DONE then Inr res
       else if (r = WAGT_ELEM \<or> r = WAGT_KEY) \<and> v = AGTV_STRING key then
         if r = WAGT_KEY
         then bindE (agtype_iterator_next (fill_agtype_value env F) its' True) (\<lambda>(_, _, its''). delete_key_loop env F key n True its'' state res)
         else delete_key_loop env F key n True its' state res
       else bindE (push_agtype_value env (fill_agtype_value env F) F state r (if token_before_begin_array r then Some v else None)) (\<lambda>(res', state').
              delete_key_loop env F key n True its' state' res'))"

definition delete_from_object :: "pg_env \<Rightarrow> nat \<Rightarrow> byte list \<Rightarrow> byte list \<Rightarrow> byte list result" where
  "delete_from_object env F agt key =
     bindE (container_header agt) (\<lambda>h.
       if \<not> header_is_object h then Inl (Ereport ''cannot delete from scalar or arrayusing string key'')
       else if header_size h = 0 then Inr agt
       else bindE (agtype_iterator_init agt) (\<lambda>it.
            bindE (delete_key_loop env F key F False it [] None) (\<lambda>res.
              case res of None \<Rightarrow> Inl BadAccess | Some v \<Rightarrow> agtype_value_to_agtype env v)))"

text \<open>Whether an index, or the index counted from the end, is in the list of indexes.\<close>

definition index_listed :: "pg_env \<Rightarrow> nat \<Rightarrow> byte list \<Rightarrow> int64 \<Rightarrow> bool result" where
  "index_listed env F indexes idx =
     bindE (agtype_value_to_agtype env (AGTV_INTEGER idx)) (\<lambda>idx_agt. agtype_deep_contains env F indexes idx_agt False)"

primrec delete_index_loop ::
    "pg_env \<Rightarrow> nat \<Rightarrow> byte list \<Rightarrow> nat \<Rightarrow> nat \<Rightarrow> nat \<Rightarrow> agtype_iterator list \<Rightarrow> agtype_parse_state list \<Rightarrow> agtype_value option \<Rightarrow> agtype_value option result" where
  "delete_index_loop env F indexes len 0 i its state res = Inl OutOfFuel"
| "delete_index_loop env F indexes len (Suc n) i its state res =
     bindE (agtype_iterator_next (fill_agtype_value env F) its True) (\<lambda>(r, v, its').
       if r = WAGT_DONE then Inr res
       else bindE (if r = WAGT_ELEM
                   then bindE (index_listed env F indexes (of_nat i)) (\<lambda>contains_idx.
                        bindE (index_listed env F indexes (of_nat i - of_nat len)) (\<lambda>contains_neg_idx. Inr (contains_idx \<or> contains_neg_idx)))
                   else Inr False) (\<lambda>drop_it.
              let i' = (if r = WAGT_ELEM then Suc i else i)
              in if drop_it then delete_index_loop env F indexes len n i' its' state res
                 else bindE (push_agtype_value env (fill_agtype_value env F) F state r (if token_before_begin_array r then Some v else None)) (\<lambda>(res', state').
                        delete_index_loop env F indexes len n i' its' state' res')))"

definition delete_from_array :: "pg_env \<Rightarrow> nat \<Rightarrow> byte list \<Rightarrow> byte list \<Rightarrow> byte list result" where
  "delete_from_array env F agt indexes =
     bindE (container_header agt) (\<lambda>h.
       if \<not> header_is_array h \<or> header_is_scalar h then Inl (Ereport ''cannot delete from scalar or objectusing integer index'')
       else if header_size h = 0 then Inr agt
       else bindE (agtype_iterator_init agt) (\<lambda>it0.
            bindE (agtype_iterator_next (fill_agtype_value env F) it0 False) (\<lambda>(r, v, it).
            bindE (case v of AGTV_ARRAY _ es \<Rightarrow> Inr (length es) | _ \<Rightarrow> Inl BadAccess) (\<lambda>n.
            bindE (push_token env F [] r) (\<lambda>state.
            bindE (delete_index_loop env F indexes n F 0 it state None) (\<lambda>res.
              case res of None \<Rightarrow> Inl BadAccess | Some v \<Rightarrow> agtype_value_to_agtype env v))))))"

subsection \<open>Copying children\<close>

text \<open>A child that can be copied: it is read back, unpacked when it is a container, and its tokens are within the fuel.\<close>

definition copies :: "pg_env \<Rightarrow> nat \<Rightarrow> agtype_value \<Rightarrow> bool" where
  "copies env F w \<longleftrightarrow> reads (fill_agtype_value env F) w \<and> (\<not> IS_A_AGTYPE_SCALAR w \<longrightarrow> drains env (fill_agtype_value env F) w) \<and> toks w < F"

lemma copies_ok:
  assumes "qsort_ok (pg_qsort_arg env)" "wf_value env w" "need w \<le> F" "\<not> IS_A_AGTYPE_SCALAR w \<Longrightarrow> fits (length (cimage w))"
  shows "copies env F w"
  using fill_ok [OF assms(1-3)] need_toks [of w] assms(3,4) by (auto simp: copies_def)

lemma push_elem:
  assumes "copies env F w" "ps_cont st = PS_ARRAY raw es" "frame_ok st (length es)" "length es < AGTYPE_MAX_ELEMS"
  shows "\<exists>r st'. push_agtype_value env (fill_agtype_value env F) F (st # ps) WAGT_ELEM (Some (shallow w rst)) = Inr (r, st' # ps) \<and>
    ps_cont st' = PS_ARRAY raw (es @ [norm w]) \<and> frame_ok st' (length (es @ [norm w]))"
proof -
  obtain r where "push_agtype_value env (fill_agtype_value env F) F (st # ps) WAGT_ELEM (Some (shallow w rst)) =
      bindE (add_child WAGT_ELEM st (norm w)) (\<lambda>st'. Inr (r, st' # ps))"
    using push_child [OF array_frame [OF assms(2)], of w env "fill_agtype_value env F" F ps rst] assms(1) unfolding copies_def by blast
  moreover obtain st' where "append_element st (norm w) = Inr st'" "ps_cont st' = PS_ARRAY raw (es @ [norm w])" "frame_ok st' (length (es @ [norm w]))"
    using append_element_ok [OF assms(2-4), of "norm w"] by blast
  ultimately show ?thesis by (simp add: add_child_def)
qed

lemma push_pair:
  assumes "copies env F w" "ps_cont st = PS_OBJECT pairs None" "frame_ok st (length pairs)" "length pairs < AGTYPE_MAX_PAIRS"
  shows "\<exists>r r' st1 st2. push_agtype_value env (fill_agtype_value env F) F (st # ps) WAGT_KEY (Some (AGTV_STRING k)) = Inr (r, st1 # ps) \<and>
    push_agtype_value env (fill_agtype_value env F) F (st1 # ps) WAGT_VALUE (Some (shallow w rst)) = Inr (r', st2 # ps) \<and>
    ps_cont st2 = PS_OBJECT (pairs @ [(k, norm w, length pairs)]) None \<and> frame_ok st2 (length (pairs @ [(k, norm w, length pairs)]))"
proof -
  obtain st1 st2 where st: "append_key st k = Inr st1" "ps_cont st1 = PS_OBJECT pairs (Some (k, length pairs))" "append_value st1 (norm w) = Inr st2"
    "ps_cont st2 = PS_OBJECT (pairs @ [(k, norm w, length pairs)]) None" "frame_ok st2 (length (pairs @ [(k, norm w, length pairs)]))"
    using append_pair_ok [OF assms(2-4), of k "norm w"] by blast
  obtain r' where "push_agtype_value env (fill_agtype_value env F) F (st1 # ps) WAGT_VALUE (Some (shallow w rst)) =
      bindE (add_child WAGT_VALUE st1 (norm w)) (\<lambda>st'. Inr (r', st' # ps))"
    using push_child [OF object_frame [OF st(2)], of w env "fill_agtype_value env F" F ps rst] assms(1) unfolding copies_def by blast
  with st show ?thesis by (simp add: add_child_def push_agtype_value_def)
qed

lemma push_until_array:
  assumes c: "\<forall>w \<in> set es. copies env F w \<and> (\<forall>rst. test (shallow w rst) = Inr ())" and f: "fits (length (array_image enc raw es))"
  shows "i \<le> length es \<Longrightarrow> length es - i < n \<Longrightarrow> ps_cont st = PS_ARRAY r0 es0 \<Longrightarrow> frame_ok st (length es0) \<Longrightarrow>
    length es0 + (length es - i) \<le> AGTYPE_MAX_ELEMS \<Longrightarrow>
    \<exists>st'. push_until env F test WAGT_END_ARRAY n (array_it raw es rest i AGTI_ARRAY_ELEM # its) (st # ps) = Inr (st' # ps) \<and>
      ps_cont st' = PS_ARRAY r0 (es0 @ map norm (drop i es)) \<and> frame_ok st' (length (es0 @ map norm (drop i es)))"
proof (induction n arbitrary: i st es0)
  case (Suc n)
  show ?case
  proof (cases "i = length es")
    case True
    then show ?thesis using Suc.prems next_array_end [of "fill_agtype_value env F" raw es rest its True] by simp
  next
    case False
    with Suc.prems have i: "i < length es" by simp
    let ?w = "es ! i"
    have w: "copies env F ?w" "\<And>rst. test (shallow ?w rst) = Inr ()" using c i by simp_all
    obtain rst where nx: "agtype_iterator_next (fill_agtype_value env F) (array_it raw es rest i AGTI_ARRAY_ELEM # its) True =
        Inr (WAGT_ELEM, shallow ?w rst, array_it raw es rest (Suc i) AGTI_ARRAY_ELEM # its)"
      using next_array_elem [OF _ i f, of "fill_agtype_value env F" rest its True] w(1) unfolding copies_def iterator_child_def by auto
    have lt: "length es0 < AGTYPE_MAX_ELEMS" using Suc.prems(5) i by simp
    obtain r st' where p: "push_agtype_value env (fill_agtype_value env F) F (st # ps) WAGT_ELEM (Some (shallow ?w rst)) = Inr (r, st' # ps)"
      "ps_cont st' = PS_ARRAY r0 (es0 @ [norm ?w])" "frame_ok st' (length (es0 @ [norm ?w]))"
      using push_elem [OF w(1) Suc.prems(3,4) lt, of ps rst] by blast
    have d: "drop i es = ?w # drop (Suc i) es" using i by (rule Cons_nth_drop_Suc [symmetric])
    have "\<exists>st''. push_until env F test WAGT_END_ARRAY n (array_it raw es rest (Suc i) AGTI_ARRAY_ELEM # its) (st' # ps) = Inr (st'' # ps) \<and>
        ps_cont st'' = PS_ARRAY r0 ((es0 @ [norm ?w]) @ map norm (drop (Suc i) es)) \<and> frame_ok st'' (length ((es0 @ [norm ?w]) @ map norm (drop (Suc i) es)))"
      using Suc.prems i p by (intro Suc.IH) simp_all
    with nx p(1) w(2) show ?thesis by (simp add: d)
  qed
qed simp

lemma push_until_object:
  assumes c: "\<forall>p \<in> set kvs. copies env F (pair_value p)" and f: "fits (length (object_image enc_pair kvs))" and F: "0 < F"
  shows "i \<le> length kvs \<Longrightarrow> 2 * (length kvs - i) < n \<Longrightarrow> ps_cont st = PS_OBJECT pairs None \<Longrightarrow> frame_ok st (length pairs) \<Longrightarrow>
    length pairs + (length kvs - i) \<le> AGTYPE_MAX_PAIRS \<Longrightarrow>
    \<exists>st'. push_until env F no_test WAGT_END_OBJECT n (object_it kvs rest i (of_nat (val_off kvs i)) AGTI_OBJECT_KEY # its) (st # ps) = Inr (st' # ps) \<and>
      ps_cont st' = PS_OBJECT (pairs @ number_pairs (length pairs) (map (\<lambda>p. (pair_key p, norm (pair_value p))) (drop i kvs))) None \<and>
      frame_ok st' (length pairs + (length kvs - i))"
proof (induction "length kvs - i" arbitrary: i st pairs n)
  case 0
  then show ?case using next_object_end [of "fill_agtype_value env F" enc_pair kvs rest _ its True] by (cases n) simp_all
next
  case (Suc m)
  then have i: "i < length kvs" by simp
  obtain n' where n: "n = Suc (Suc n')" using Suc.prems(2) i by (cases n; cases "n - 1") auto
  let ?w = "pair_value (kvs ! i)" let ?k = "pair_key (kvs ! i)" let ?p = "pairs @ [(?k, norm ?w, length pairs)]"
  have w: "copies env F ?w" using c i by simp
  obtain G where G: "F = Suc G" using F by (cases F) simp_all
  have nk: "agtype_iterator_next (fill_agtype_value env F) (object_it kvs rest i (of_nat (val_off kvs i)) AGTI_OBJECT_KEY # its) True =
      Inr (WAGT_KEY, AGTV_STRING ?k, object_it kvs rest i (of_nat (val_off kvs i)) AGTI_OBJECT_VALUE # its)"
    unfolding G by (rule next_object_key [OF fill_reads_STRING i f])
  obtain rst where nv: "agtype_iterator_next (fill_agtype_value env F) (object_it kvs rest i (of_nat (val_off kvs i)) AGTI_OBJECT_VALUE # its) True =
      Inr (WAGT_VALUE, shallow ?w rst, object_it kvs rest (Suc i) (of_nat (val_off kvs (Suc i))) AGTI_OBJECT_KEY # its)"
    using next_object_value [OF _ i f, of "fill_agtype_value env F" rest its True] w unfolding copies_def iterator_child_def by auto
  have lt: "length pairs < AGTYPE_MAX_PAIRS" using Suc.prems(5) i by simp
  obtain r r' st1 st2 where p: "push_agtype_value env (fill_agtype_value env F) F (st # ps) WAGT_KEY (Some (AGTV_STRING ?k)) = Inr (r, st1 # ps)"
    "push_agtype_value env (fill_agtype_value env F) F (st1 # ps) WAGT_VALUE (Some (shallow ?w rst)) = Inr (r', st2 # ps)"
    "ps_cont st2 = PS_OBJECT ?p None" "frame_ok st2 (length ?p)"
    using push_pair [OF w Suc.prems(3,4) lt, of ps ?k rst] by blast
  have d: "drop i kvs = kvs ! i # drop (Suc i) kvs" using i by (rule Cons_nth_drop_Suc [symmetric])
  have "\<exists>st''. push_until env F no_test WAGT_END_OBJECT n' (object_it kvs rest (Suc i) (of_nat (val_off kvs (Suc i))) AGTI_OBJECT_KEY # its) (st2 # ps) = Inr (st'' # ps) \<and>
      ps_cont st'' = PS_OBJECT (?p @ number_pairs (length ?p) (map (\<lambda>p. (pair_key p, norm (pair_value p))) (drop (Suc i) kvs))) None \<and>
      frame_ok st'' (length ?p + (length kvs - Suc i))"
    using Suc i p n by (intro Suc.hyps(1)) auto
  moreover have "Suc (length pairs + length kvs - Suc i) = length pairs + length kvs - i" using i by simp
  ultimately show ?case using nk nv p(1,2) i by (simp add: n d no_test_def)
qed

subsection \<open>What concatenation builds\<close>

text \<open>An operand of concatenation: a stored array or object, or the raw-scalar array of a scalar.\<close>

definition source :: "pg_env \<Rightarrow> nat \<Rightarrow> agtype_value \<Rightarrow> bool" where
  "source env F v \<longleftrightarrow> wf_value env (unraw v) \<and> \<not> IS_A_AGTYPE_SCALAR v \<and> fits (length (cimage v)) \<and> need v \<le> F"

fun items :: "agtype_value \<Rightarrow> agtype_value list" where
  "items (AGTV_ARRAY raw es) = es"
| "items v = [v]"

lemma source_kids:
  assumes "qsort_ok (pg_qsort_arg env)" "source env F v" "w \<in> set (kids v)"
  shows "copies env F w"
proof (rule copies_ok [OF assms(1)])
  show "wf_value env w" using assms(2,3) wf_value_kids [of env "unraw v" w] by (simp add: source_def)
  show "need w \<le> F" using need_kid [OF assms(3)] assms(2) by (simp add: source_def)
  show "fits (length (cimage w))" using assms(2,3) elem_image_fits value_image_fits by (cases v) (auto simp: source_def)
qed

lemma source_cases:
  assumes "qsort_ok (pg_qsort_arg env)" "source env F v"
  obtains (arr) raw es where "v = AGTV_ARRAY raw es" "fits (length (array_image enc raw es))" "\<forall>w \<in> set es. copies env F w" "length es < F"
  | (obj) ps where "v = AGTV_OBJECT ps" "fits (length (object_image enc_pair ps))" "pairs_ok ps" "\<forall>p \<in> set ps. copies env F (pair_value p)" "2 * length ps < F" "0 < F"
proof -
  have "2 * length (kids v) < need v" by (subst need.simps) simp
  then have n: "2 * length (kids v) < F" using assms(2) by (simp add: source_def)
  have c: "\<forall>w \<in> set (kids v). copies env F w" using source_kids [OF assms] by blast
  from assms(2) n c that show thesis by (cases v) (auto simp: source_def)
qed

lemma push_object_law:
  assumes q: "qsort_ok (pg_qsort_arg env)" and o: "fits (length (object_image enc_pair kvs))" "pairs_ok kvs" "\<forall>p \<in> set kvs. copies env F (pair_value p)" "2 * length kvs < F" "0 < F"
    and st: "ps_cont st = PS_ARRAY raw es" "frame_ok st (length es)" "length es < AGTYPE_MAX_ELEMS"
  shows "\<exists>st'. push_object env F (object_it kvs rest 0 (of_nat (val_off kvs 0)) AGTI_OBJECT_KEY # its) (st # ps) = Inr (st' # ps) \<and>
    ps_cont st' = PS_ARRAY raw (es @ [norm (AGTV_OBJECT kvs)]) \<and> frame_ok st' (length (es @ [norm (AGTV_OBJECT kvs)]))"
proof -
  let ?o = "\<lparr>ps_cont = PS_OBJECT [] None, ps_size = 4, ps_last_updated = None\<rparr>"
  obtain s2 where s2: "push_until env F no_test WAGT_END_OBJECT F (object_it kvs rest 0 (of_nat (val_off kvs 0)) AGTI_OBJECT_KEY # its) (?o # st # ps) = Inr (s2 # st # ps)"
    "ps_cont s2 = PS_OBJECT (number_pairs 0 (map (\<lambda>p. (pair_key p, norm (pair_value p))) kvs)) None"
    using push_until_object [OF o(3,1,5), where i = 0 and n = F and st = ?o and pairs = "[]" and ps = "st # ps" and rest = rest and its = its] o(2,4)
    by (auto simp: frame_ok_def pairs_ok_def simp del: off_0)
  have u: "uniqueify_agtype_object env (number_pairs 0 (map (\<lambda>p. (pair_key p, norm (pair_value p))) kvs)) = renumber norm kvs"
    using uniqueify_renumber [OF q, of kvs norm] o(2) by (simp add: renumber_def pairs_ok_def)
  obtain st' where st': "append_element st (norm (AGTV_OBJECT kvs)) = Inr st'" "ps_cont st' = PS_ARRAY raw (es @ [norm (AGTV_OBJECT kvs)])"
    "frame_ok st' (length (es @ [norm (AGTV_OBJECT kvs)]))" using append_element_ok [OF st] by blast
  show ?thesis using s2 u st' st(1)
    by (simp add: push_object_def push_token_def pop_state_def push_scalar_end_object [OF s2(2)] del: off_0)
qed

text \<open>Finishing an array or object that has no parent.\<close>

lemma finish_array: "ps_cont st = PS_ARRAY raw es \<Longrightarrow> push_agtype_value env fill F [st] WAGT_END_ARRAY None = Inr (Some (AGTV_ARRAY raw es), [])"
  by (simp add: push_agtype_value_def pop_state_def)

lemma finish_object:
  "ps_cont st = PS_OBJECT ps None \<Longrightarrow> push_agtype_value env fill F [st] WAGT_END_OBJECT None = Inr (Some (AGTV_OBJECT (uniqueify_agtype_object env ps)), [])"
  by (simp add: push_agtype_value_def pop_state_def)

text \<open>The iterator after its first token, and what copies the operand into an array.\<close>

fun started :: "agtype_value \<Rightarrow> byte list \<Rightarrow> agtype_iterator list" where
  "started (AGTV_ARRAY raw es) rest = [array_it raw es rest 0 AGTI_ARRAY_ELEM]"
| "started (AGTV_OBJECT ps) rest = [object_it ps rest 0 (of_nat (val_off ps 0)) AGTI_OBJECT_KEY]"
| "started v rest = []"

definition first_token :: "agtype_value \<Rightarrow> agtype_iterator_token" where
  "first_token v = (if agtv_type v = Type_OBJECT then WAGT_BEGIN_OBJECT else WAGT_BEGIN_ARRAY)"

lemma source_start:
  assumes "source env F v"
  shows "\<exists>it x. agtype_iterator_init (cimage v @ rest) = Inr it \<and> agtype_iterator_next fill it skip = Inr (first_token v, x, started v rest)"
proof -
  from assms consider raw es where "v = AGTV_ARRAY raw es" | ps where "v = AGTV_OBJECT ps" by (cases v) (auto simp: source_def)
  then show ?thesis
  proof cases
    case 1
    with assms have f: "fits (length (array_image enc raw es))" by (simp add: source_def)
    show ?thesis by (simp add: 1 agtype_iterator_init_def iterator_from_array [OF f] next_array_start first_token_def)
  next
    case 2
    with assms have f: "fits (length (object_image enc_pair ps))" by (simp add: source_def)
    show ?thesis by (simp add: 2 agtype_iterator_init_def iterator_from_object [OF f] next_object_start [OF f] first_token_def del: off_0)
  qed
qed

definition feed :: "pg_env \<Rightarrow> nat \<Rightarrow> (agtype_value \<Rightarrow> unit result) \<Rightarrow> agtype_value \<Rightarrow> agtype_iterator list \<Rightarrow> agtype_parse_state list \<Rightarrow> agtype_parse_state list result" where
  "feed env F test v its state = (if agtv_type v = Type_OBJECT then push_object env F its state else push_until env F test WAGT_END_ARRAY F its state)"

definition passes_test :: "(agtype_value \<Rightarrow> unit result) \<Rightarrow> agtype_value \<Rightarrow> bool" where
  "passes_test test v \<longleftrightarrow> (\<forall>w \<in> set (items v). \<forall>rst. test (shallow w rst) = Inr ())"

lemma feed_law:
  assumes q: "qsort_ok (pg_qsort_arg env)" and v: "source env F v" "agtv_type v \<noteq> Type_OBJECT \<Longrightarrow> passes_test test v"
    and st: "ps_cont st = PS_ARRAY raw0 es0" "frame_ok st (length es0)" "length (es0 @ items v) \<le> AGTYPE_MAX_ELEMS"
  shows "\<exists>st'. feed env F test v (started v rest) (st # ps) = Inr (st' # ps) \<and>
    ps_cont st' = PS_ARRAY raw0 (es0 @ map norm (items v)) \<and> frame_ok st' (length (es0 @ map norm (items v)))"
  using q v(1)
proof (cases rule: source_cases)
  case (arr raw es)
  have "\<forall>w \<in> set es. copies env F w \<and> (\<forall>rst. test (shallow w rst) = Inr ())" using arr v(2) by (simp add: passes_test_def)
  from push_until_array [OF this arr(2), where i = 0 and n = F and st = st and its = "[]" and rest = rest and ps = ps, OF _ _ st(1,2)] arr(1,4) st(3)
  show ?thesis by (simp add: feed_def)
next
  case (obj kvs)
  have "length es0 < AGTYPE_MAX_ELEMS" using st(3) by (simp add: obj(1))
  from push_object_law [OF q obj(2-6) st(1,2) this, of rest "[]" ps] show ?thesis by (simp add: feed_def obj(1) del: off_0)
qed

lemma passes_no_test [simp]: "passes_test no_test v"
  by (simp add: passes_test_def no_test_def)

abbreviation new_array :: agtype_parse_state where
  "new_array \<equiv> \<lparr>ps_cont = PS_ARRAY False [], ps_size = 4, ps_last_updated = None\<rparr>"

lemma feed_two:
  assumes q: "qsort_ok (pg_qsort_arg env)" and l: "source env F l" "agtv_type l \<noteq> Type_OBJECT \<Longrightarrow> passes_test t1 l"
    and r: "source env F r" "agtv_type r \<noteq> Type_OBJECT \<Longrightarrow> passes_test t2 r" and n: "length (items l @ items r) \<le> AGTYPE_MAX_ELEMS"
  shows "bindE (push_token env F [] WAGT_BEGIN_ARRAY) (\<lambda>s1. bindE (feed env F t1 l (started l rl) s1) (\<lambda>s2. bindE (feed env F t2 r (started r rr) s2) (\<lambda>s3.
      bindE (push_agtype_value env (fill_agtype_value env F) F s3 WAGT_END_ARRAY None) (\<lambda>(res, _). Inr res)))) =
    Inr (Some (AGTV_ARRAY False (map norm (items l @ items r))))"
proof -
  have b: "push_token env F [] WAGT_BEGIN_ARRAY = Inr [new_array]" by (simp add: push_token_def push_agtype_value_def)
  obtain s2 where s2: "feed env F t1 l (started l rl) [new_array] = Inr [s2]" "ps_cont s2 = PS_ARRAY False (map norm (items l))" "frame_ok s2 (length (map norm (items l)))"
    using feed_law [OF q l, of new_array False "[]" rl "[]"] n by (auto simp: frame_ok_def)
  obtain s3 where s3: "feed env F t2 r (started r rr) [s2] = Inr [s3]" "ps_cont s3 = PS_ARRAY False (map norm (items l) @ map norm (items r))"
    using feed_law [OF q r s2(2,3), of rr "[]"] n by auto
  show ?thesis using b s2(1) s3 finish_array [OF s3(2), of env "fill_agtype_value env F" F] by simp
qed

subsection \<open>Concatenation of stored values\<close>

text \<open>A raw scalar next to an object has to be a vertex, edge or path.\<close>

definition raw_scalar :: "agtype_value \<Rightarrow> bool" where
  "raw_scalar v = (case v of AGTV_ARRAY raw _ \<Rightarrow> raw | _ \<Rightarrow> False)"

definition entity_only :: "agtype_value \<Rightarrow> bool" where
  "entity_only v \<longleftrightarrow> (\<forall>w \<in> set (items v). agtv_type w \<in> {Type_VERTEX, Type_EDGE, Type_PATH})"

lemma entity_passes: "entity_only v \<Longrightarrow> passes_test (entity_test msg) v"
proof -
  have "entity_test msg (shallow w rst) = Inr ()" if "agtv_type w \<in> {Type_VERTEX, Type_EDGE, Type_PATH}" for w rst
    using that by (cases w) (simp_all add: entity_test_def shallow_def)
  then show "entity_only v \<Longrightarrow> passes_test (entity_test msg) v" by (auto simp: entity_only_def passes_test_def)
qed

definition concat_ok :: "agtype_value \<Rightarrow> agtype_value \<Rightarrow> bool" where
  "concat_ok l r \<longleftrightarrow> (agtv_type l = Type_OBJECT \<and> raw_scalar r \<longrightarrow> entity_only r) \<and> (agtv_type r = Type_OBJECT \<and> raw_scalar l \<longrightarrow> entity_only l)"

lemma started_scalar: "source env F v \<Longrightarrow> it_scalar (started v rest) \<longleftrightarrow> raw_scalar v"
  by (cases v) (auto simp: it_scalar_def raw_scalar_def array_it_def object_it_of_def source_def)

lemma iterator_concat_array:
  assumes q: "qsort_ok (pg_qsort_arg env)" and l: "source env F l" and r: "source env F r" and ok: "concat_ok l r"
    and ne: "\<not> (agtv_type l = Type_OBJECT \<and> agtv_type r = Type_OBJECT)" and n: "length (items l @ items r) \<le> AGTYPE_MAX_ELEMS"
    and i: "agtype_iterator_next (fill_agtype_value env F) i1 False = Inr (first_token l, x1, started l rl)" "agtype_iterator_next (fill_agtype_value env F) i2 False = Inr (first_token r, x2, started r rr)"
  shows "iterator_concat env F i1 i2 = Inr (Some (AGTV_ARRAY False (map norm (items l @ items r))))"
proof -
  note sc = started_scalar [OF l, of rl] started_scalar [OF r, of rr]
  let ?e1 = "entity_test ''invalid left operand for agtype concatenation''" let ?e2 = "entity_test ''invalid right operand for agtype concatenation''"
  define t1 where "t1 = (if agtv_type r = Type_OBJECT \<and> raw_scalar l then ?e1 else no_test)"
  define t2 where "t2 = (if agtv_type l = Type_OBJECT \<and> raw_scalar r then ?e2 else no_test)"
  have p: "passes_test t1 l" "passes_test t2 r" using ok entity_passes by (auto simp: t1_def t2_def concat_ok_def)
  note f = feed_two [OF q l p(1) r p(2) n, of rl rr]
  have "iterator_concat env F i1 i2 = bindE (push_token env F [] WAGT_BEGIN_ARRAY) (\<lambda>s1. bindE (feed env F t1 l (started l rl) s1) (\<lambda>s2. bindE (feed env F t2 r (started r rr) s2) (\<lambda>s3.
      bindE (push_agtype_value env (fill_agtype_value env F) F s3 WAGT_END_ARRAY None) (\<lambda>(res, _). Inr res))))"
    using ne by (simp add: iterator_concat_def i sc first_token_def feed_def t1_def t2_def Let_def)
  with f show ?thesis by simp
qed

lemma iterator_concat_object:
  assumes q: "qsort_ok (pg_qsort_arg env)" and l: "source env F (AGTV_OBJECT ps)" and r: "source env F (AGTV_OBJECT qs)" and n: "length (ps @ qs) \<le> AGTYPE_MAX_PAIRS"
    and i: "agtype_iterator_next (fill_agtype_value env F) i1 False = Inr (WAGT_BEGIN_OBJECT, x1, started (AGTV_OBJECT ps) rl)" "agtype_iterator_next (fill_agtype_value env F) i2 False = Inr (WAGT_BEGIN_OBJECT, x2, started (AGTV_OBJECT qs) rr)"
  shows "iterator_concat env F i1 i2 = Inr (Some (AGTV_OBJECT (uniqueify_agtype_object env (number_pairs 0 (map (\<lambda>p. (pair_key p, norm (pair_value p))) (ps @ qs))))))"
proof -
  let ?o = "\<lparr>ps_cont = PS_OBJECT [] None, ps_size = 4, ps_last_updated = None\<rparr>" let ?n = "\<lambda>p. (pair_key p, norm (pair_value p))"
  have c: "fits (length (object_image enc_pair kvs)) \<and> (\<forall>p \<in> set kvs. copies env F (pair_value p)) \<and> 2 * length kvs < F \<and> 0 < F" if "source env F (AGTV_OBJECT kvs)" for kvs
    using q that by (cases rule: source_cases) auto
  obtain s2 where s2: "push_until env F no_test WAGT_END_OBJECT F (started (AGTV_OBJECT ps) rl) [?o] = Inr [s2]"
    "ps_cont s2 = PS_OBJECT (number_pairs 0 (map ?n ps)) None" "frame_ok s2 (length ps)"
    using push_until_object [where kvs = ps and i = 0 and n = F and st = ?o and pairs = "[]" and ps = "[]" and rest = rl and its = "[]" and env = env and F = F] c [OF l] n
    by (auto simp: frame_ok_def simp del: off_0)
  obtain s3 where s3: "push_until env F no_test WAGT_END_OBJECT F (started (AGTV_OBJECT qs) rr) [s2] = Inr [s3]"
    "ps_cont s3 = PS_OBJECT (number_pairs 0 (map ?n ps) @ number_pairs (length ps) (map ?n qs)) None"
    using push_until_object [where kvs = qs and i = 0 and n = F and st = s2 and ps = "[]" and rest = rr and its = "[]" and env = env and F = F, OF _ _ _ _ _ s2(2)] c [OF r] n s2(3)
    by (auto simp: frame_ok_def simp del: off_0)
  have b: "push_token env F [] WAGT_BEGIN_OBJECT = Inr [?o]" by (simp add: push_token_def push_agtype_value_def)
  have "number_pairs 0 (map ?n ps) @ number_pairs (length ps) (map ?n qs) = number_pairs 0 (map ?n (ps @ qs))" by (simp add: number_pairs_append)
  with b s2(1) s3 finish_object [OF s3(2), of env "fill_agtype_value env F" F] show ?thesis
    by (simp add: iterator_concat_def i Let_def del: started.simps off_0)
qed

text \<open>Storing what was built: images do not depend on the order fields.\<close>

lemma map_of_rev_distinct: "distinct (map fst xs) \<Longrightarrow> map_of (rev xs) = map_of xs"
  by (rule map_of_eqI) (auto simp: distinct_map map_of_eq_Some_iff)

definition concat_result :: "agtype_value \<Rightarrow> agtype_value \<Rightarrow> agtype_value \<Rightarrow> bool" where
  "concat_result l r v =
     (case (l, r) of
        (AGTV_OBJECT ps, AGTV_OBJECT qs) \<Rightarrow>
          (\<exists>us. v = AGTV_OBJECT us \<and> keys_sorted us \<and> pairs_map us = (\<lambda>k. map_option norm ((pairs_map ps ++ pairs_map qs) k)))
      | _ \<Rightarrow> v = AGTV_ARRAY False (items l @ items r))"

lemma concat_pairs:
  assumes q: "qsort_ok (pg_qsort_arg env)" and ps: "keys_sorted ps" "keys_sorted qs" and wf: "\<forall>p \<in> set (ps @ qs). wf_value env (pair_value p)"
  defines "us \<equiv> uniqueify_agtype_object env (number_pairs 0 (map (\<lambda>p. (pair_key p, norm (pair_value p))) (ps @ qs)))"
  shows "keys_sorted us" "pairs_map us = (\<lambda>k. map_option norm ((pairs_map ps ++ pairs_map qs) k))" "writable env (AGTV_OBJECT us)"
proof -
  let ?n = "\<lambda>p. (pair_key p, norm (pair_value p))"
  note u = uniqueify_numbered [OF q, of "map ?n (ps @ qs)", folded us_def]
  show "keys_sorted us" by (rule u(1))
  have m: "map_of (rev (map ?n xs)) k = map_option norm (pairs_map xs k)" if "keys_sorted xs" for xs k
  proof -
    have "distinct (map fst (map ?n xs))" using keys_sorted_distinct [OF that] by (simp add: comp_def)
    then have "map_of (rev (map ?n xs)) k = map_of (map ?n xs) k" by (simp only: map_of_rev_distinct)
    also have "\<dots> = map_option norm (pairs_map xs k)" unfolding pairs_map_def by (induction xs) auto
    finally show ?thesis .
  qed
  show "pairs_map us = (\<lambda>k. map_option norm ((pairs_map ps ++ pairs_map qs) k))"
    using m [OF ps(1)] m [OF ps(2)] by (intro ext) (simp add: u(2) map_add_def split: option.splits)
  have "\<exists>p \<in> set (ps @ qs). pair_value x = norm (pair_value p)" if "x \<in> set us" for x
  proof -
    have "pair_value y \<in> snd ` set kvs" if "y \<in> set (number_pairs n kvs)" for y n kvs
      using that by (induction n kvs rule: number_pairs.induct) auto
    with u(3) that show ?thesis by fastforce
  qed
  then show "writable env (AGTV_OBJECT us)" using wf writable_norm wf_writable by (subst writable.simps) fastforce
qed

lemma concat_headers:
  assumes "source env F v"
  shows "\<exists>h. container_header (cimage v @ rest) = Inr h \<and> (header_is_object h \<longleftrightarrow> agtv_type v = Type_OBJECT) \<and> (header_is_scalar h \<longleftrightarrow> raw_scalar v) \<and> header_size h = length (kids v)"
proof -
  have f: "fits (length (cimage v))" using assms by (simp add: source_def)
  then have "fits (length (kids v))" by (rule fits_mono) (use assms in \<open>cases v; simp add: source_def\<close>)
  then show ?thesis using assms header_flags [of "length (kids v)"] array_header_fields [of "length (kids v)"]
    by (cases v) (auto simp: source_def object_header_image array_header_image raw_scalar_def)
qed

lemma concat_arrays_law:
  assumes q: "qsort_ok (pg_qsort_arg env)" and l: "source env F l" and r: "source env F r" and ok: "concat_ok l r"
    and ne: "\<not> (agtv_type l = Type_OBJECT \<and> agtv_type r = Type_OBJECT)" and n: "length (items l @ items r) \<le> AGTYPE_MAX_ELEMS"
    and f: "fits (length (cimage (AGTV_ARRAY False (items l @ items r))))"
  shows "agtype_concat_impl env F (cimage l @ []) (cimage r @ []) = Inr (cimage (AGTV_ARRAY False (items l @ items r)))"
proof -
  let ?v = "AGTV_ARRAY False (items l @ items r)"
  obtain h1 where h1: "container_header (cimage l @ []) = Inr h1" "header_is_object h1 \<longleftrightarrow> agtv_type l = Type_OBJECT" "header_is_scalar h1 \<longleftrightarrow> raw_scalar l" "header_size h1 = length (kids l)"
    using concat_headers [OF l] by blast
  obtain h2 where h2: "container_header (cimage r @ []) = Inr h2" "header_is_object h2 \<longleftrightarrow> agtv_type r = Type_OBJECT" "header_is_scalar h2 \<longleftrightarrow> raw_scalar r" "header_size h2 = length (kids r)"
    using concat_headers [OF r] by blast
  obtain i1 x1 where i1: "agtype_iterator_init (cimage l @ []) = Inr i1" "agtype_iterator_next (fill_agtype_value env F) i1 False = Inr (first_token l, x1, started l [])"
    using source_start [OF l] by blast
  obtain i2 x2 where i2: "agtype_iterator_init (cimage r @ []) = Inr i2" "agtype_iterator_next (fill_agtype_value env F) i2 False = Inr (first_token r, x2, started r [])"
    using source_start [OF r] by blast
  note c = iterator_concat_array [OF q l r ok ne n i1(2) i2(2)]
  have "\<forall>w \<in> set (items l @ items r). wf_value env w" using l r by (cases l; cases r) (auto simp: source_def)
  then have "agtype_value_to_agtype env (norm ?v) = Inr (cimage ?v)" using n f by (intro stored_norm) (simp_all add: elems_ok_def)
  moreover have "?v = r" if "length (kids l) = 0" "agtv_type l = Type_OBJECT \<longleftrightarrow> agtv_type r = Type_OBJECT" "\<not> raw_scalar r"
    using that ne l r by (cases l; cases r) (auto simp: source_def raw_scalar_def)
  moreover have "?v = l" if "length (kids r) = 0" "agtv_type l = Type_OBJECT \<longleftrightarrow> agtv_type r = Type_OBJECT" "\<not> raw_scalar l"
    using that ne l r by (cases l; cases r) (auto simp: source_def raw_scalar_def)
  ultimately show ?thesis using h1 h2 i1(1) i2(1) c by (auto simp: agtype_concat_impl_def simp del: cimage.simps)
qed

lemma concat_objects_law:
  assumes q: "qsort_ok (pg_qsort_arg env)" and l: "source env F (AGTV_OBJECT ps)" and r: "source env F (AGTV_OBJECT qs)" and n: "length (ps @ qs) \<le> AGTYPE_MAX_PAIRS"
  shows "\<exists>v. concat_result (AGTV_OBJECT ps) (AGTV_OBJECT qs) v \<and>
    (fits (length (cimage v)) \<longrightarrow> agtype_concat_impl env F (cimage (AGTV_OBJECT ps) @ []) (cimage (AGTV_OBJECT qs) @ []) = Inr (cimage v))"
proof -
  have wf: "keys_sorted ps" "keys_sorted qs" "\<forall>p \<in> set (ps @ qs). wf_value env (pair_value p)" using l r by (auto simp: source_def pairs_ok_def)
  note h1 = concat_headers [OF l, of "[]"] and h2 = concat_headers [OF r, of "[]"]
  have same: "cimage (norm (AGTV_OBJECT xs)) = cimage (AGTV_OBJECT xs)" for xs using enc_norm [of 0 "AGTV_OBJECT xs"] by simp
  have id: "concat_result (AGTV_OBJECT ps) (AGTV_OBJECT qs) (norm (AGTV_OBJECT xs))" if "keys_sorted xs" "pairs_map xs = pairs_map ps ++ pairs_map qs" for xs
    using that by (auto simp: concat_result_def keys_sorted_renumber pairs_map_renumber)
  show ?thesis
  proof (cases "ps = [] \<or> qs = []")
    case True
    have "pairs_map [] = Map.empty" by (simp add: pairs_map_def)
    with True id [of ps] id [of qs] wf have c: "concat_result (AGTV_OBJECT ps) (AGTV_OBJECT qs) (norm (AGTV_OBJECT (if ps = [] then qs else ps)))" by auto
    have "agtype_concat_impl env F (cimage (AGTV_OBJECT ps) @ []) (cimage (AGTV_OBJECT qs) @ []) = Inr (cimage (AGTV_OBJECT (if ps = [] then qs else ps)))"
      using True h1 h2 by (auto simp: agtype_concat_impl_def raw_scalar_def)
    with c same show ?thesis by metis
  next
    case False
    let ?us = "uniqueify_agtype_object env (number_pairs 0 (map (\<lambda>p. (pair_key p, norm (pair_value p))) (ps @ qs)))"
    note u = concat_pairs [OF q wf]
    have ft: "first_token (AGTV_OBJECT xs) = WAGT_BEGIN_OBJECT" for xs by (simp add: first_token_def)
    obtain i1 x1 where i1: "agtype_iterator_init (cimage (AGTV_OBJECT ps) @ []) = Inr i1" "agtype_iterator_next (fill_agtype_value env F) i1 False = Inr (WAGT_BEGIN_OBJECT, x1, started (AGTV_OBJECT ps) [])"
      using source_start [OF l, where rest = "[]" and fill = "fill_agtype_value env F"] unfolding ft by blast
    obtain i2 x2 where i2: "agtype_iterator_init (cimage (AGTV_OBJECT qs) @ []) = Inr i2" "agtype_iterator_next (fill_agtype_value env F) i2 False = Inr (WAGT_BEGIN_OBJECT, x2, started (AGTV_OBJECT qs) [])"
      using source_start [OF r, where rest = "[]" and fill = "fill_agtype_value env F"] unfolding ft by blast
    have "agtype_value_to_agtype env (AGTV_OBJECT ?us) = Inr (cimage (AGTV_OBJECT ?us))" if "fits (length (cimage (AGTV_OBJECT ?us)))"
      using convert_to_agtype_enc [OF u(3)] that by (simp add: agtype_value_to_agtype_def)
    then have "fits (length (cimage (AGTV_OBJECT ?us))) \<longrightarrow> agtype_concat_impl env F (cimage (AGTV_OBJECT ps) @ []) (cimage (AGTV_OBJECT qs) @ []) = Inr (cimage (AGTV_OBJECT ?us))"
      using False h1 h2 i1 i2 iterator_concat_object [OF q l r n i1(2) i2(2)] by (auto simp: agtype_concat_impl_def simp del: cimage.simps map_append)
    moreover have "concat_result (AGTV_OBJECT ps) (AGTV_OBJECT qs) (AGTV_OBJECT ?us)" using u by (simp add: concat_result_def)
    ultimately show ?thesis by blast
  qed
qed

text \<open>An object next to a scalar that is no entity.\<close>

lemma test_fails:
  assumes "copies env F w" "IS_A_AGTYPE_SCALAR w" "agtv_type w \<notin> {Type_VERTEX, Type_EDGE, Type_PATH}" "fits (length (array_image enc True [w]))" "0 < F"
  shows "push_until env F (entity_test msg) WAGT_END_ARRAY F (started (AGTV_ARRAY True [w]) rest) s = Inl (Ereport msg)"
proof -
  obtain G where F: "F = Suc G" using assms(5) by (cases F) simp_all
  obtain rst where "agtype_iterator_next (fill_agtype_value env F) [array_it True [w] rest 0 AGTI_ARRAY_ELEM] True =
      iterator_child True WAGT_ELEM (shallow w rst) (array_it True [w] rest (Suc 0) AGTI_ARRAY_ELEM) []"
    using next_array_elem [of "fill_agtype_value env F" "[w]" 0 True rest "[]" True] assms(1,4) by (auto simp: copies_def)
  moreover have "entity_test msg (shallow w rst) = Inl (Ereport msg)" using assms(2,3) by (cases w) (simp_all add: entity_test_def shallow_def)
  ultimately show ?thesis by (subst (2) F) (simp add: iterator_child_def)
qed

lemma concat_error_law:
  assumes q: "qsort_ok (pg_qsort_arg env)" and l: "source env F l" and r: "source env F r"
    and w: "IS_A_AGTYPE_SCALAR w" "agtv_type w \<notin> {Type_VERTEX, Type_EDGE, Type_PATH}"
  shows "agtv_type l = Type_OBJECT \<Longrightarrow> r = AGTV_ARRAY True [w] \<Longrightarrow>
      agtype_concat_impl env F (cimage l @ []) (cimage r @ []) = Inl (Ereport ''invalid right operand for agtype concatenation'')"
    and "agtv_type r = Type_OBJECT \<Longrightarrow> l = AGTV_ARRAY True [w] \<Longrightarrow>
      agtype_concat_impl env F (cimage l @ []) (cimage r @ []) = Inl (Ereport ''invalid left operand for agtype concatenation'')"
proof -
  obtain i1 x1 where i1: "agtype_iterator_init (cimage l @ []) = Inr i1" "agtype_iterator_next (fill_agtype_value env F) i1 False = Inr (first_token l, x1, started l [])"
    using source_start [OF l] by blast
  obtain i2 x2 where i2: "agtype_iterator_init (cimage r @ []) = Inr i2" "agtype_iterator_next (fill_agtype_value env F) i2 False = Inr (first_token r, x2, started r [])"
    using source_start [OF r] by blast
  note h = concat_headers [OF l, of "[]"] concat_headers [OF r, of "[]"]
  note sc = started_scalar [OF l, of "[]"] started_scalar [OF r, of "[]"]
  have b: "push_token env F [] WAGT_BEGIN_ARRAY = Inr [new_array]" by (simp add: push_token_def push_agtype_value_def)
  have F: "0 < F" using l need_toks [of l] by (simp add: source_def)
  {
    assume o: "agtv_type l = Type_OBJECT" "r = AGTV_ARRAY True [w]"
    have t: "push_until env F (entity_test msg) WAGT_END_ARRAY F (started r []) s = Inl (Ereport msg)" for msg s
      unfolding o(2) using source_kids [OF q r, of w] w r F by (intro test_fails) (simp_all add: o(2) source_def)
    have "items l = [l]" using o(1) by (cases l) simp_all
    then obtain s2 where s2: "push_object env F (started l []) [new_array] = Inr [s2]"
      using feed_law [OF q l, of no_test new_array False "[]" "[]" "[]"] o(1) by (auto simp: feed_def frame_ok_def AGTYPE_MAX_ELEMS_def)
    show "agtype_concat_impl env F (cimage l @ []) (cimage r @ []) = Inl (Ereport ''invalid right operand for agtype concatenation'')"
      using h i1 i2 sc t o b s2
      by (auto simp: agtype_concat_impl_def iterator_concat_def raw_scalar_def first_token_def Let_def simp del: started.simps cimage.simps)
  next
    assume o: "agtv_type r = Type_OBJECT" "l = AGTV_ARRAY True [w]"
    have t: "push_until env F (entity_test msg) WAGT_END_ARRAY F (started l []) s = Inl (Ereport msg)" for msg s
      unfolding o(2) using source_kids [OF q l, of w] w l F by (intro test_fails) (simp_all add: o(2) source_def)
    show "agtype_concat_impl env F (cimage l @ []) (cimage r @ []) = Inl (Ereport ''invalid left operand for agtype concatenation'')"
      using h i1 i2 sc t o b
      by (auto simp: agtype_concat_impl_def iterator_concat_def raw_scalar_def first_token_def Let_def simp del: started.simps cimage.simps)
  }
qed



end
