(* ===== verification/Agtype_Delete.thy ===== *)
theory Agtype_Delete
  imports Agtype_Concat "HOL-Library.Sublist"
begin

text \<open>
  Deletion from stored containers: \<open>delete_from_object\<close> stores the object without the key, \<open>delete_from_array\<close> the
  array without the elements whose index, counted from either end, is listed.
\<close>

subsection \<open>Sizes\<close>

text \<open>A container some of whose children are left out is no larger than before, although the padding of the others changes.\<close>

lemma enc_end_mono: "p \<le> q \<Longrightarrow> p + length (enc p v) \<le> q + length (enc q v)"
proof -
  assume pq: "p \<le> q"
  have "p + length (padding p) = INTALIGN p" for p by (simp add: INTALIGN_def)
  moreover have "INTALIGN p \<le> INTALIGN q" unfolding INTALIGN_def by (intro mult_le_mono1 div_le_mono add_le_mono1 pq)
  ultimately have "p + length (padding p) \<le> q + length (padding q)" by metis
  then show ?thesis using pq by (cases v) (simp_all add: enc.simps [of _ "AGTV_BINARY _ _"])
qed

lemma enc_seq_subseq:
  assumes "subseq ys xs"
  shows "p \<le> q \<Longrightarrow> p + length (enc_seq (\<lambda>p x. enc p (g x)) p ys) \<le> q + length (enc_seq (\<lambda>p x. enc p (g x)) q xs)"
  using assms
proof (induction arbitrary: p q rule: list_emb.induct)
  case (list_emb_Cons xs ys y)
  have "p + length (enc_seq (\<lambda>p x. enc p (g x)) p xs) \<le> (q + length (enc q (g y))) + length (enc_seq (\<lambda>p x. enc p (g x)) (q + length (enc q (g y))) ys)"
    using list_emb_Cons by (intro list_emb_Cons.IH) simp
  then show ?case by simp
next
  case (list_emb_Cons2 x y xs ys)
  have "(p + length (enc p (g x))) + length (enc_seq (\<lambda>p x. enc p (g x)) (p + length (enc p (g x))) xs) \<le>
      (q + length (enc q (g y))) + length (enc_seq (\<lambda>p x. enc p (g x)) (q + length (enc q (g y))) ys)"
    using list_emb_Cons2 enc_end_mono by (intro list_emb_Cons2.IH) simp
  then show ?case by simp
qed simp

lemma sum_list_subseq:
  fixes f :: "'a \<Rightarrow> nat"
  assumes "subseq ys xs" shows "sum_list (map f ys) \<le> sum_list (map f xs)"
  using assms by (induction rule: list_emb.induct) auto

lemma array_subseq:
  assumes "subseq ys xs"
  shows "length (cimage (AGTV_ARRAY raw ys)) \<le> length (cimage (AGTV_ARRAY raw xs))" "need (AGTV_ARRAY raw ys) \<le> need (AGTV_ARRAY raw xs)"
  using enc_seq_subseq [OF assms, of 0 0 "\<lambda>v. v"] list_emb_length [OF assms] sum_list_subseq [OF assms, of need] sum_list_subseq [OF assms, of toks]
  by (simp_all add: need.simps)

lemma object_subseq:
  assumes "subseq ps qs"
  shows "length (cimage (AGTV_OBJECT ps)) \<le> length (cimage (AGTV_OBJECT qs))" "need (AGTV_OBJECT ps) \<le> need (AGTV_OBJECT qs)"
proof -
  note s = sum_list_subseq [OF assms]
  have "keys_len ps \<le> keys_len qs" unfolding keys_len_def by (rule s)
  from enc_seq_subseq [OF assms this, of pair_value] list_emb_length [OF assms]
  show "length (cimage (AGTV_OBJECT ps)) \<le> length (cimage (AGTV_OBJECT qs))" by simp
  have "toks (AGTV_OBJECT ps) \<le> toks (AGTV_OBJECT qs)" using s by (simp add: toks_simps add_mono)
  then show "need (AGTV_OBJECT ps) \<le> need (AGTV_OBJECT qs)"
    using list_emb_length [OF assms] s [of "\<lambda>p. need (pair_value p)"] by (simp add: need.simps [of "AGTV_OBJECT _"] comp_def del: toks_simps)
qed

subsection \<open>By key\<close>

definition without :: "byte list \<Rightarrow> agtype_pair list \<Rightarrow> agtype_pair list" where
  "without k ps = filter (\<lambda>p. pair_key p \<noteq> k) ps"

lemma delete_key_loop_law:
  assumes c: "\<forall>p \<in> set kvs. copies env F (pair_value p)" and f: "fits (length (object_image enc_pair kvs))" and F: "0 < F"
  shows "i \<le> length kvs \<Longrightarrow> 2 * (length kvs - i) + 1 < n \<Longrightarrow> ps_cont st = PS_OBJECT pairs None \<Longrightarrow> frame_ok st (length pairs) \<Longrightarrow>
    length pairs + (length kvs - i) \<le> AGTYPE_MAX_PAIRS \<Longrightarrow>
    delete_key_loop env F key n True [object_it kvs rest i (of_nat (val_off kvs i)) AGTI_OBJECT_KEY] [st] res =
      Inr (Some (AGTV_OBJECT (uniqueify_agtype_object env
        (pairs @ number_pairs (length pairs) (map (\<lambda>p. (pair_key p, norm (pair_value p))) (without key (drop i kvs)))))))"
proof (induction "length kvs - i" arbitrary: i st pairs n res)
  case 0
  then obtain n' where n: "n = Suc (Suc n')" by (cases n; cases "n - 1") auto
  from 0 have "i = length kvs" by simp
  with 0 show ?case
    using next_object_end [of "fill_agtype_value env F" enc_pair kvs rest "of_nat (val_off kvs i)" "[]" True]
    by (simp add: n without_def pop_state_def)
next
  case (Suc m)
  then have i: "i < length kvs" by simp
  obtain n' where n: "n = Suc (Suc n')" using Suc.prems(2) i by (cases n; cases "n - 1") auto
  let ?w = "pair_value (kvs ! i)" let ?k = "pair_key (kvs ! i)" let ?p = "pairs @ [(?k, norm ?w, length pairs)]"
  let ?next = "object_it kvs rest (Suc i) (of_nat (val_off kvs (Suc i))) AGTI_OBJECT_KEY"
  have w: "copies env F ?w" using c i by simp
  obtain G where G: "F = Suc G" using F by (cases F) simp_all
  have nk: "agtype_iterator_next (fill_agtype_value env F) [object_it kvs rest i (of_nat (val_off kvs i)) AGTI_OBJECT_KEY] True =
      Inr (WAGT_KEY, AGTV_STRING ?k, [object_it kvs rest i (of_nat (val_off kvs i)) AGTI_OBJECT_VALUE])"
    unfolding G by (rule next_object_key [OF fill_reads_STRING i f])
  obtain rst where nv: "agtype_iterator_next (fill_agtype_value env F) [object_it kvs rest i (of_nat (val_off kvs i)) AGTI_OBJECT_VALUE] True =
      Inr (WAGT_VALUE, shallow ?w rst, [?next])"
    using next_object_value [OF _ i f, of "fill_agtype_value env F" rest "[]" True] w unfolding copies_def iterator_child_def by auto
  have d: "drop i kvs = kvs ! i # drop (Suc i) kvs" using i by (rule Cons_nth_drop_Suc [symmetric])
  have m: "m = length kvs - Suc i" "Suc i \<le> length kvs" using Suc.hyps(2) i by simp_all
  show ?case
  proof (cases "?k = key")
    case True
    have "delete_key_loop env F key (Suc n') True [?next] [st] res =
      Inr (Some (AGTV_OBJECT (uniqueify_agtype_object env
        (pairs @ number_pairs (length pairs) (map (\<lambda>p. (pair_key p, norm (pair_value p))) (without key (drop (Suc i) kvs)))))))"
      using Suc.prems i n by (intro Suc.hyps(1) [OF m]) auto
    with True nk nv show ?thesis by (simp add: n d without_def del: delete_key_loop.simps) (simp add: n)
  next
    case False
    have lt: "length pairs < AGTYPE_MAX_PAIRS" using Suc.prems(5) i by simp
    obtain r r' st1 st2 where p: "push_agtype_value env (fill_agtype_value env F) F [st] WAGT_KEY (Some (AGTV_STRING ?k)) = Inr (r, [st1])"
      "push_agtype_value env (fill_agtype_value env F) F [st1] WAGT_VALUE (Some (shallow ?w rst)) = Inr (r', [st2])"
      "ps_cont st2 = PS_OBJECT ?p None" "frame_ok st2 (length ?p)"
      using push_pair [OF w Suc.prems(3,4) lt, of "[]" ?k rst] by blast
    have "delete_key_loop env F key n' True [?next] [st2] r' =
      Inr (Some (AGTV_OBJECT (uniqueify_agtype_object env
        (?p @ number_pairs (length ?p) (map (\<lambda>p. (pair_key p, norm (pair_value p))) (without key (drop (Suc i) kvs)))))))"
      using Suc.prems i n p by (intro Suc.hyps(1) [OF m]) auto
    with False nk nv p(1,2) show ?thesis by (simp add: n d without_def)
  qed
qed

lemma renumber_without:
  assumes "qsort_ok (pg_qsort_arg env)" "keys_sorted ps"
  shows "uniqueify_agtype_object env (number_pairs 0 (map (\<lambda>p. (pair_key p, norm (pair_value p))) (without k ps))) = renumber norm (without k ps)"
    "keys_sorted (without k ps)"
proof -
  show s: "keys_sorted (without k ps)" using assms(2) by (simp add: keys_sorted_def without_def sorted_wrt_filter)
  show "uniqueify_agtype_object env (number_pairs 0 (map (\<lambda>p. (pair_key p, norm (pair_value p))) (without k ps))) = renumber norm (without k ps)"
    using uniqueify_renumber [OF assms(1) s, of norm] by (simp add: renumber_def)
qed

lemma source_without: "source env F (AGTV_OBJECT ps) \<Longrightarrow> source env F (AGTV_OBJECT (without k ps))"
proof -
  assume s: "source env F (AGTV_OBJECT ps)"
  have sub: "subseq (without k ps) ps" unfolding without_def by (rule subseq_filter_left)
  have "keys_sorted (without k ps)" using s by (simp add: source_def pairs_ok_def keys_sorted_def without_def sorted_wrt_filter)
  then show ?thesis
    using s object_subseq [OF sub] list_emb_length [OF sub] fits_mono [of "length (cimage (AGTV_OBJECT ps))"]
    by (auto simp: source_def pairs_ok_def without_def simp del: cimage.simps length_filter_le)
qed

lemma delete_from_object_law:
  assumes q: "qsort_ok (pg_qsort_arg env)" and s: "source env F (AGTV_OBJECT ps)"
  shows "delete_from_object env F (cimage (AGTV_OBJECT ps) @ []) k = Inr (cimage (AGTV_OBJECT (without k ps)))"
proof -
  note h = concat_headers [OF s, of "[]"]
  have o: "fits (length (object_image enc_pair ps))" "pairs_ok ps" "\<forall>p \<in> set ps. copies env F (pair_value p)" "0 < F"
    using q s by (cases rule: source_cases; simp)+
  have ks: "keys_sorted ps" using o(2) by (simp add: pairs_ok_def)
  have f: "fits (length (cimage (AGTV_OBJECT (without k ps))))" and wf: "wf_value env (AGTV_OBJECT (without k ps))"
    using source_without [OF s] by (simp_all add: source_def)
  show ?thesis
  proof (cases "ps = []")
    case True
    then show ?thesis using h by (auto simp: delete_from_object_def without_def)
  next
    case False
    let ?o = "\<lparr>ps_cont = PS_OBJECT [] None, ps_size = 4, ps_last_updated = None\<rparr>"
    have "2 * length ps + 4 \<le> need (AGTV_OBJECT ps)" by (subst need.simps) simp
    then have "2 * length ps + 4 \<le> F" using s by (simp add: source_def)
    then obtain n where n: "F = Suc n" "2 * length ps + 1 < n" by (cases F) simp_all
    have "delete_key_loop env F k n True [object_it ps [] 0 (of_nat (val_off ps 0)) AGTI_OBJECT_KEY] [?o] (Some (AGTV_OBJECT [])) =
        Inr (Some (norm (AGTV_OBJECT (without k ps))))"
      using delete_key_loop_law [OF o(3,1,4), where i = 0 and n = n and st = ?o and pairs = "[]" and rest = "[]" and key = k and res = "Some (AGTV_OBJECT [])"] n(2) o(2) renumber_without [OF q ks, of k]
      by (simp add: frame_ok_def pairs_ok_def del: off_0)
    then have "delete_key_loop env F k F False [object_it ps [] 0 0 AGTI_OBJECT_START] [] None = Inr (Some (norm (AGTV_OBJECT (without k ps))))"
      by (subst (2) n(1)) (simp add: next_object_start [OF o(1)] push_agtype_value_def del: off_0 norm_simps)
    moreover from stored_norm [OF wf _ f] have "agtype_value_to_agtype env (norm (AGTV_OBJECT (without k ps))) = Inr (cimage (AGTV_OBJECT (without k ps)))" by simp
    ultimately show ?thesis using h False
      by (auto simp: delete_from_object_def agtype_iterator_init_def iterator_from_object [OF o(1), of "[]", simplified] simp del: norm_simps)
  qed
qed

subsection \<open>By index\<close>

text \<open>Index \<open>i\<close> of a list of \<open>len\<close> elements is given in \<open>ks\<close>, counted from the front or from the end.\<close>

definition listed :: "int64 list \<Rightarrow> nat \<Rightarrow> nat \<Rightarrow> bool" where
  "listed ks len i \<longleftrightarrow> of_nat i \<in> set ks \<or> of_nat i - of_nat len \<in> set ks"

definition without_indexes :: "int64 list \<Rightarrow> agtype_value list \<Rightarrow> agtype_value list" where
  "without_indexes ks es = nths es {i. \<not> listed ks (length es) i}"

definition indexes_value :: "bool \<Rightarrow> int64 list \<Rightarrow> agtype_value" where
  "indexes_value raw ks = AGTV_ARRAY raw (map AGTV_INTEGER ks)"

lemma same_integer: "same_scalar env (AGTV_INTEGER k) (AGTV_INTEGER i) \<longleftrightarrow> k = i"
  by (simp add: same_scalar_def equals_agtype_scalar_value_def)

lemma index_listed_law:
  assumes q: "qsort_ok (pg_qsort_arg env)" and sym: "symp (pg_numeric_eq env)" and l: "stored env (indexes_value raw ks)"
    and F: "dneed (indexes_value raw ks) + 32 \<le> F"
  shows "index_listed env F (cimage (indexes_value raw ks) @ rest) i = Inr (i \<in> set ks)"
proof -
  let ?r = "AGTV_ARRAY True [AGTV_INTEGER i]"
  have w: "wf_value env (AGTV_INTEGER i)" "fits (length (array_image enc True [AGTV_INTEGER i]))"
    by (simp_all add: fits_iff array_image_def INTALIGN_def)
  have "agtype_value_to_agtype env (AGTV_INTEGER i) = Inr (array_image enc True [AGTV_INTEGER i])"
    using w by (intro scalar_image) simp_all
  moreover have "stored env ?r" using w by (simp add: stored_def elems_ok_def AGTYPE_MAX_ELEMS_def)
  moreover have "dneed ?r \<le> 32" by (simp add: dneed.simps need.simps)
  ultimately show ?thesis
    using deep_contains_law [OF q sym l, of ?r F rest "[]"] F
    by (simp add: index_listed_def indexes_value_def contains_simps contains_scalar same_integer)
qed

definition lists_indexes :: "pg_env \<Rightarrow> nat \<Rightarrow> byte list \<Rightarrow> int64 list \<Rightarrow> bool" where
  "lists_indexes env F indexes ks \<longleftrightarrow> (\<forall>i. index_listed env F indexes i = Inr (i \<in> set ks))"

lemma delete_index_loop_law:
  assumes c: "\<forall>w \<in> set es. copies env F w" and f: "fits (length (array_image enc raw es))" and k: "lists_indexes env F indexes ks"
  shows "i \<le> length es \<Longrightarrow> length es - i + 1 < n \<Longrightarrow> ps_cont st = PS_ARRAY rw es0 \<Longrightarrow> frame_ok st (length es0) \<Longrightarrow>
    length es0 + (length es - i) \<le> AGTYPE_MAX_ELEMS \<Longrightarrow>
    delete_index_loop env F indexes len n i [array_it raw es rest i AGTI_ARRAY_ELEM] [st] res =
      Inr (Some (AGTV_ARRAY rw (es0 @ map norm (nths (drop i es) {j. \<not> listed ks len (i + j)}))))"
proof (induction "length es - i" arbitrary: i st es0 n res)
  case 0
  then obtain n' where n: "n = Suc (Suc n')" by (cases n; cases "n - 1") auto
  from 0 have "i = length es" by simp
  with 0 show ?case
    using next_array_end [of "fill_agtype_value env F" raw es rest "[]" True] finish_array [of st rw es0 env "fill_agtype_value env F" F]
    by (simp add: n)
next
  case (Suc m)
  then have i: "i < length es" by simp
  obtain n' where n: "n = Suc n'" using Suc.prems(2) by (cases n) auto
  let ?w = "es ! i" let ?next = "array_it raw es rest (Suc i) AGTI_ARRAY_ELEM"
  have w: "copies env F ?w" using c i by simp
  obtain rst where nx: "agtype_iterator_next (fill_agtype_value env F) [array_it raw es rest i AGTI_ARRAY_ELEM] True =
      Inr (WAGT_ELEM, shallow ?w rst, [?next])"
    using next_array_elem [OF _ i f, of "fill_agtype_value env F" rest "[]" True] w unfolding copies_def iterator_child_def by auto
  have d: "drop i es = ?w # drop (Suc i) es" using i by (rule Cons_nth_drop_Suc [symmetric])
  have m: "m = length es - Suc i" "Suc i \<le> length es" using Suc.hyps(2) i by simp_all
  have x: "bindE (index_listed env F indexes (of_nat i)) (\<lambda>a. bindE (index_listed env F indexes (of_nat i - of_nat len)) (\<lambda>b. Inr (a \<or> b))) = Inr (listed ks len i)"
    using k by (simp add: lists_indexes_def listed_def)
  show ?case
  proof (cases "listed ks len i")
    case True
    have "delete_index_loop env F indexes len n' (Suc i) [?next] [st] res =
        Inr (Some (AGTV_ARRAY rw (es0 @ map norm (nths (drop (Suc i) es) {j. \<not> listed ks len (Suc i + j)}))))"
      using Suc.prems i n by (intro Suc.hyps(1) [OF m]) auto
    with True nx show ?thesis by (simp add: n d nths_Cons x)
  next
    case False
    have lt: "length es0 < AGTYPE_MAX_ELEMS" using Suc.prems(5) i by simp
    obtain r st' where p: "push_agtype_value env (fill_agtype_value env F) F [st] WAGT_ELEM (Some (shallow ?w rst)) = Inr (r, [st'])"
      "ps_cont st' = PS_ARRAY rw (es0 @ [norm ?w])" "frame_ok st' (length (es0 @ [norm ?w]))"
      using push_elem [OF w Suc.prems(3,4) lt, of "[]" rst] by blast
    have "delete_index_loop env F indexes len n' (Suc i) [?next] [st'] r =
        Inr (Some (AGTV_ARRAY rw ((es0 @ [norm ?w]) @ map norm (nths (drop (Suc i) es) {j. \<not> listed ks len (Suc i + j)}))))"
      using Suc.prems i n p by (intro Suc.hyps(1) [OF m]) auto
    with False nx p(1) show ?thesis by (simp add: n d nths_Cons x)
  qed
qed

lemma delete_from_array_law:
  assumes q: "qsort_ok (pg_qsort_arg env)" and s: "source env F (AGTV_ARRAY False es)" and k: "lists_indexes env F indexes ks"
  shows "delete_from_array env F (cimage (AGTV_ARRAY False es) @ []) indexes = Inr (cimage (AGTV_ARRAY False (without_indexes ks es)))"
proof -
  have a: "fits (length (array_image enc False es))" "\<forall>w \<in> set es. copies env F w" using q s by (cases rule: source_cases; simp)+
  have "fits (length es)" by (rule fits_mono [OF a(1)]) simp
  note h = array_header_fields [OF this, of False]
  have "length es + 4 \<le> need (AGTV_ARRAY False es)" by (subst need.simps) simp
  then have F: "length es + 1 < F" using s by (simp add: source_def)
  have n: "length es \<le> AGTYPE_MAX_ELEMS" using s by (simp add: source_def elems_ok_def)
  have l: "delete_index_loop env F indexes (length es) F 0 [array_it False es [] 0 AGTI_ARRAY_ELEM] [new_array] None =
      Inr (Some (norm (AGTV_ARRAY False (without_indexes ks es))))"
    using delete_index_loop_law [OF a(2,1) k, where i = 0 and n = F and st = new_array and rw = False and len = "length es" and rest = "[]" and res = None] F n
    by (simp add: frame_ok_def without_indexes_def)
  have b: "push_token env F [] WAGT_BEGIN_ARRAY = Inr [new_array]" by (simp add: push_token_def push_agtype_value_def)
  have sub: "subseq (without_indexes ks es) es" unfolding without_indexes_def subseq_conv_nths by blast
  have "fits (length (cimage (AGTV_ARRAY False (without_indexes ks es))))" by (rule fits_mono [OF _ array_subseq(1) [OF sub]]) (use s in \<open>simp add: source_def\<close>)
  moreover have "wf_value env (AGTV_ARRAY False (without_indexes ks es))"
    using s set_nths_subset list_emb_length [OF sub] by (auto simp: source_def elems_ok_def without_indexes_def)
  ultimately have "agtype_value_to_agtype env (norm (AGTV_ARRAY False (without_indexes ks es))) = Inr (cimage (AGTV_ARRAY False (without_indexes ks es)))"
    by (intro stored_norm) simp_all
  moreover have "without_indexes ks [] = []" by (simp add: without_indexes_def)
  ultimately show ?thesis using l b h
    by (auto simp: delete_from_array_def array_header_image [where rest = "[]", simplified] agtype_iterator_init_def iterator_from_array [OF a(1), of "[]", simplified] next_array_start simp del: norm_simps)
qed

end
