(* ===== verification/Agtype_Arith.thy ===== *)
theory Agtype_Arith
  imports Agtype_Float Agtype_Delete
begin

text \<open>
  The arithmetic operators of \<open>src/backend/utils/adt/agtype_ops.c\<close>: \<open>+\<close>, \<open>-\<close>, \<open>*\<close>, \<open>/\<close>, \<open>%\<close>, \<open>^\<close> and negation, with
  the concatenation that \<open>+\<close> and the deletion that \<open>-\<close> also stand for. The server is compiled with \<open>-fwrapv\<close>, so the
  integer operations wrap; division and remainder truncate towards zero, and are undefined for a zero divisor and for the least
  integer and \<open>-1\<close>. SQL's null is \<open>None\<close>.
\<close>

subsection \<open>Operations on numbers\<close>

text \<open>The numeric functions of the server, the \<open>pow\<close> of the C library, and the NaN that an operation on doubles returns.\<close>

record arith_env =
  c_nan :: "uint64 \<Rightarrow> uint64 \<Rightarrow> uint64"
  c_pow :: "uint64 \<Rightarrow> uint64 \<Rightarrow> uint64"
  numeric_add :: "byte list \<Rightarrow> byte list \<Rightarrow> byte list result"
  numeric_sub :: "byte list \<Rightarrow> byte list \<Rightarrow> byte list result"
  numeric_mul :: "byte list \<Rightarrow> byte list \<Rightarrow> byte list result"
  numeric_div :: "byte list \<Rightarrow> byte list \<Rightarrow> byte list result"
  numeric_mod :: "byte list \<Rightarrow> byte list \<Rightarrow> byte list result"
  numeric_power :: "byte list \<Rightarrow> byte list \<Rightarrow> byte list result"
  numeric_uminus :: "byte list \<Rightarrow> byte list result"

text \<open>C's division of two \<open>int64\<close>.\<close>

definition int64_div :: "int64 \<Rightarrow> int64 \<Rightarrow> int64 result" where
  "int64_div a b = (if b = 0 \<or> sint a = - (2 ^ 63) \<and> b = -1 then Inl Undefined else Inr (word_of_int (sint a sdiv sint b)))"

definition int64_mod :: "int64 \<Rightarrow> int64 \<Rightarrow> int64 result" where
  "int64_mod a b = (if b = 0 \<or> sint a = - (2 ^ 63) \<and> b = -1 then Inl Undefined else Inr (word_of_int (sint a smod sint b)))"

definition float_result :: "uint64 \<Rightarrow> agtype_value result" where
  "float_result f = Inr (AGTV_FLOAT f)"

text \<open>The branches the operators share after the nulls: two integers, the four pairs with a float, where an integer is converted, and numerics.\<close>

definition arith_cases ::
    "pg_env \<Rightarrow> string \<Rightarrow> (int64 \<Rightarrow> int64 \<Rightarrow> agtype_value result) \<Rightarrow> (uint64 \<Rightarrow> uint64 \<Rightarrow> agtype_value result) \<Rightarrow> (uint64 \<Rightarrow> int64 \<Rightarrow> agtype_value result) \<Rightarrow>
     (int64 \<Rightarrow> uint64 \<Rightarrow> agtype_value result) \<Rightarrow> (byte list \<Rightarrow> byte list \<Rightarrow> byte list result) \<Rightarrow> agtype_value \<Rightarrow> agtype_value \<Rightarrow> agtype_value result" where
  "arith_cases env msg ii ff fi jf nn lhs rhs =
     (case (lhs, rhs) of
        (AGTV_INTEGER a, AGTV_INTEGER b) \<Rightarrow> ii a b
      | (AGTV_FLOAT a, AGTV_FLOAT b) \<Rightarrow> ff a b
      | (AGTV_FLOAT a, AGTV_INTEGER b) \<Rightarrow> fi a b
      | (AGTV_INTEGER a, AGTV_FLOAT b) \<Rightarrow> jf a b
      | _ \<Rightarrow> if is_numeric_result lhs rhs
             then bindE (get_numeric_datum_from_agtype_value env lhs) (\<lambda>lhsd. bindE (get_numeric_datum_from_agtype_value env rhs) (\<lambda>rhsd.
                  bindE (nn lhsd rhsd) (\<lambda>numd. Inr (AGTV_NUMERIC numd))))
             else Inl (Ereport msg))"

text \<open>Both operands of a binary operator as scalars; a null gives null, another pair the value computed, which is stored.\<close>

definition scalar_operands :: "pg_env \<Rightarrow> nat \<Rightarrow> (agtype_value \<Rightarrow> agtype_value \<Rightarrow> agtype_value result) \<Rightarrow> byte list \<Rightarrow> byte list \<Rightarrow> byte list option result" where
  "scalar_operands env F f lhs rhs =
     bindE (get_scalar_agtype_value_no_copy env F lhs) (\<lambda>(agtv_lhs, _). bindE (get_scalar_agtype_value_no_copy env F rhs) (\<lambda>(agtv_rhs, _).
       if agtv_lhs = AGTV_NULL \<or> agtv_rhs = AGTV_NULL then Inr None
       else bindE (f agtv_lhs agtv_rhs) (\<lambda>agtv_result. bindE (agtype_value_to_agtype env agtv_result) (\<lambda>d. Inr (Some d)))))"

definition only_scalars :: "(byte list \<Rightarrow> byte list \<Rightarrow> byte list option result) \<Rightarrow> byte list \<Rightarrow> byte list \<Rightarrow> byte list option result" where
  "only_scalars f lhs rhs =
     bindE (AGT_ROOT_IS_SCALAR lhs) (\<lambda>l. bindE (AGT_ROOT_IS_SCALAR rhs) (\<lambda>r.
       if \<not> l \<or> \<not> r then Inl (Ereport ''must be scalar value, not array or object'') else f lhs rhs))"

subsection \<open>Addition\<close>

definition get_string_from_agtype_value :: "pg_num_text \<Rightarrow> agtype_value \<Rightarrow> byte list" where
  "get_string_from_agtype_value nt agtv =
     (case agtv of
        AGTV_INTEGER i \<Rightarrow> pg_lltoa_text nt i
      | AGTV_FLOAT f \<Rightarrow> (let string = pg_float8out nt f in if is_decimal_needed_len string then string @ [ch_dot, ch_0] else string)
      | AGTV_STRING s \<Rightarrow> s
      | AGTV_NUMERIC n \<Rightarrow> pg_numeric_out nt n
      | _ \<Rightarrow> [])"

definition concat_to_agtype_string :: "byte list \<Rightarrow> byte list \<Rightarrow> agtype_value result" where
  "concat_to_agtype_string lhs rhs = bindE (check_string_length (length lhs + length rhs)) (\<lambda>_. Inr (AGTV_STRING (lhs @ rhs)))"

definition agtype_add :: "pg_env \<Rightarrow> arith_env \<Rightarrow> pg_num_text \<Rightarrow> nat \<Rightarrow> byte list \<Rightarrow> byte list \<Rightarrow> byte list option result" where
  "agtype_add env ar nt F lhs rhs =
     bindE (AGT_ROOT_IS_SCALAR lhs) (\<lambda>l. bindE (AGT_ROOT_IS_SCALAR rhs) (\<lambda>r.
       if \<not> (l \<and> r) then bindE (agtype_concat_impl env F lhs rhs) (\<lambda>d. Inr (Some d))
       else bindE (get_scalar_agtype_value_no_copy env F lhs) (\<lambda>(agtv_lhs, _). bindE (get_scalar_agtype_value_no_copy env F rhs) (\<lambda>(agtv_rhs, _).
         let tl = agtv_type agtv_lhs; tr = agtv_type agtv_rhs; textual = {Type_INTEGER, Type_FLOAT, Type_NUMERIC, Type_STRING};
             store = (\<lambda>v. bindE v (\<lambda>agtv_result. bindE (agtype_value_to_agtype env agtv_result) (\<lambda>d. Inr (Some d))))
         in if agtv_lhs = AGTV_NULL \<or> agtv_rhs = AGTV_NULL then Inr None
            else if (tl = Type_STRING \<or> tr = Type_STRING) \<and> (tl \<in> textual \<or> tr \<in> textual)
              then store (concat_to_agtype_string (get_string_from_agtype_value nt agtv_lhs) (get_string_from_agtype_value nt agtv_rhs))
            else if tl \<in> {Type_INTEGER, Type_FLOAT} \<and> tr \<in> {Type_INTEGER, Type_FLOAT} \<or> is_numeric_result agtv_lhs agtv_rhs
              then store (arith_cases env ''Invalid input parameter types for agtype_add''
                (\<lambda>a b. Inr (AGTV_INTEGER (a + b))) (\<lambda>a b. float_result (f_add (c_nan ar) a b)) (\<lambda>a b. float_result (f_add (c_nan ar) a (int8_float b)))
                (\<lambda>a b. float_result (f_add (c_nan ar) (int8_float a) b)) (numeric_add ar) agtv_lhs agtv_rhs)
            else bindE (agtype_concat_impl env F lhs rhs) (\<lambda>d. Inr (Some d))))))"

subsection \<open>Subtraction\<close>

text \<open>The right operand is a list: of keys to delete from an object, or of indexes to delete from a list.\<close>

definition delete_keys_body :: "pg_env \<Rightarrow> nat \<Rightarrow> byte list \<Rightarrow> agtype_value \<Rightarrow> byte list result" where
  "delete_keys_body env F lhs elem =
     (case elem of AGTV_STRING key \<Rightarrow> delete_from_object env F lhs key | _ \<Rightarrow> Inl (Ereport ''expected agtype string, not agtype ''))"

primrec delete_keys :: "pg_env \<Rightarrow> nat \<Rightarrow> nat \<Rightarrow> agtype_iterator list option \<Rightarrow> byte list \<Rightarrow> byte list \<Rightarrow> byte list result" where
  "delete_keys env F 0 it rhs lhs = Inl OutOfFuel"
| "delete_keys env F (Suc n) it rhs lhs =
     bindE (get_next_list_element (fill_agtype_value env F) it rhs) (\<lambda>r.
       case r of
         None \<Rightarrow> Inr lhs
       | Some (elem, it') \<Rightarrow> bindE (delete_keys_body env F lhs elem) (\<lambda>lhs'. delete_keys env F n (Some it') rhs lhs'))"

definition check_index_body :: "agtype_value \<Rightarrow> unit option result" where
  "check_index_body elem = (if agtv_type elem \<noteq> Type_INTEGER then Inl (Ereport ''expected agtype integer, not agtype '') else Inr None)"

definition sub_list :: "pg_env \<Rightarrow> nat \<Rightarrow> byte list \<Rightarrow> byte list \<Rightarrow> byte list result" where
  "sub_list env F lhs rhs =
     bindE (container_header lhs) (\<lambda>h.
       if header_is_object h then delete_keys env F F None rhs lhs
       else if header_is_array h \<and> \<not> header_is_scalar h
         then bindE (for_each_element (fill_agtype_value env F) check_index_body () F None rhs) (\<lambda>_. delete_from_array env F lhs rhs)
       else Inl (Ereport ''must be object or array, not a scalar value''))"

text \<open>The left operand is an object or list, the right one a single key or index; \<open>None\<close> when the function goes on to the arithmetic.\<close>

definition sub_element :: "pg_env \<Rightarrow> nat \<Rightarrow> byte list \<Rightarrow> byte list \<Rightarrow> byte list option result" where
  "sub_element env F lhs rhs =
     bindE (container_header lhs) (\<lambda>h.
     bindE (get_ith_agtype_value_from_container_no_copy env F rhs 0) (\<lambda>r.
       case r of
         None \<Rightarrow> Inl BadAccess
       | Some (key, _) \<Rightarrow>
           (case key of
              AGTV_STRING k \<Rightarrow>
                if header_is_object h then bindE (delete_from_object env F lhs k) (\<lambda>d. Inr (Some d))
                else if header_is_array h then Inl (Ereport ''expected agtype integer, not agtype '') else Inr None
            | AGTV_INTEGER _ \<Rightarrow>
                if header_is_array h then bindE (delete_from_array env F lhs rhs) (\<lambda>d. Inr (Some d))
                else if header_is_object h then Inl (Ereport ''expected agtype string, not agtype '') else Inr None
            | _ \<Rightarrow>
                if header_is_object h then Inl (Ereport ''expected agtype string, not agtype '')
                else if header_is_array h then Inl (Ereport ''expected agtype integer, not agtype '') else Inr None)))"

definition agtype_sub :: "pg_env \<Rightarrow> arith_env \<Rightarrow> nat \<Rightarrow> byte list \<Rightarrow> byte list \<Rightarrow> byte list option result" where
  "agtype_sub env ar F lhs rhs =
     bindE (container_header rhs) (\<lambda>hr.
       if header_is_array hr \<and> \<not> header_is_scalar hr then bindE (sub_list env F lhs rhs) (\<lambda>d. Inr (Some d))
       else bindE (AGT_ROOT_IS_SCALAR lhs) (\<lambda>l.
            bindE (if \<not> l then sub_element env F lhs rhs else Inr None) (\<lambda>deleted.
              case deleted of
                Some d \<Rightarrow> Inr (Some d)
              | None \<Rightarrow> scalar_operands env F (arith_cases env ''Invalid input parameter types for agtype_sub''
                  (\<lambda>a b. Inr (AGTV_INTEGER (a - b))) (\<lambda>a b. float_result (f_sub (c_nan ar) a b)) (\<lambda>a b. float_result (f_sub (c_nan ar) a (int8_float b)))
                  (\<lambda>a b. float_result (f_sub (c_nan ar) (int8_float a) b)) (numeric_sub ar)) lhs rhs)))"

subsection \<open>Negation, multiplication, division, remainder and power\<close>

definition agtype_neg :: "pg_env \<Rightarrow> arith_env \<Rightarrow> nat \<Rightarrow> byte list \<Rightarrow> byte list option result" where
  "agtype_neg env ar F v =
     bindE (AGT_ROOT_IS_SCALAR v) (\<lambda>sc.
       if \<not> sc then Inl (Ereport ''must be scalar value, not array or object'')
       else bindE (get_scalar_agtype_value_no_copy env F v) (\<lambda>(agtv_value, _).
         if agtv_value = AGTV_NULL then Inr None
         else bindE (case agtv_value of
                       AGTV_INTEGER i \<Rightarrow> Inr (AGTV_INTEGER (- i))
                     | AGTV_FLOAT f \<Rightarrow> float_result (f_minus f)
                     | AGTV_NUMERIC n \<Rightarrow> bindE (numeric_uminus ar n) (\<lambda>numd. Inr (AGTV_NUMERIC numd))
                     | _ \<Rightarrow> Inl (Ereport ''Invalid input parameter type for agtype_neg'')) (\<lambda>agtv_result.
              bindE (agtype_value_to_agtype env agtv_result) (\<lambda>d. Inr (Some d)))))"

definition agtype_mul :: "pg_env \<Rightarrow> arith_env \<Rightarrow> nat \<Rightarrow> byte list \<Rightarrow> byte list \<Rightarrow> byte list option result" where
  "agtype_mul env ar F =
     only_scalars (scalar_operands env F (arith_cases env ''Invalid input parameter types for agtype_mul''
       (\<lambda>a b. Inr (AGTV_INTEGER (a * b))) (\<lambda>a b. float_result (f_mul (c_nan ar) a b)) (\<lambda>a b. float_result (f_mul (c_nan ar) a (int8_float b)))
       (\<lambda>a b. float_result (f_mul (c_nan ar) (int8_float a) b)) (numeric_mul ar)))"

definition agtype_div :: "pg_env \<Rightarrow> arith_env \<Rightarrow> nat \<Rightarrow> byte list \<Rightarrow> byte list \<Rightarrow> byte list option result" where
  "agtype_div env ar F =
     only_scalars (scalar_operands env F (arith_cases env ''Invalid input parameter types for agtype_div''
       (\<lambda>a b. if b = 0 then Inl (Ereport ''division by zero'') else bindE (int64_div a b) (\<lambda>q. Inr (AGTV_INTEGER q)))
       (\<lambda>a b. if f_abs b = 0 then Inl (Ereport ''division by zero'') else float_result (f_div (c_nan ar) a b))
       (\<lambda>a b. if b = 0 then Inl (Ereport ''division by zero'') else float_result (f_div (c_nan ar) a (int8_float b)))
       (\<lambda>a b. if f_abs b = 0 then Inl (Ereport ''division by zero'') else float_result (f_div (c_nan ar) (int8_float a) b))
       (numeric_div ar)))"

definition agtype_mod :: "pg_env \<Rightarrow> arith_env \<Rightarrow> nat \<Rightarrow> byte list \<Rightarrow> byte list \<Rightarrow> byte list option result" where
  "agtype_mod env ar F =
     only_scalars (scalar_operands env F (arith_cases env ''Invalid input parameter types for agtype_mod''
       (\<lambda>a b. bindE (int64_mod a b) (\<lambda>m. Inr (AGTV_INTEGER m))) (\<lambda>a b. float_result (fmod (c_nan ar) a b))
       (\<lambda>a b. float_result (fmod (c_nan ar) a (int8_float b))) (\<lambda>a b. float_result (fmod (c_nan ar) (int8_float a) b)) (numeric_mod ar)))"

definition agtype_pow :: "pg_env \<Rightarrow> arith_env \<Rightarrow> nat \<Rightarrow> byte list \<Rightarrow> byte list \<Rightarrow> byte list option result" where
  "agtype_pow env ar F =
     only_scalars (scalar_operands env F (arith_cases env ''Invalid input parameter types for agtype_pow''
       (\<lambda>a b. float_result (c_pow ar (int8_float a) (int8_float b))) (\<lambda>a b. float_result (c_pow ar a b))
       (\<lambda>a b. float_result (c_pow ar a (int8_float b))) (\<lambda>a b. float_result (c_pow ar (int8_float a) b)) (numeric_power ar)))"

subsection \<open>Deletion with the minus operator\<close>

text \<open>What is left of an object when the keys in a list are deleted, or of a list when the elements at the indexes are.\<close>

fun deleted :: "agtype_value \<Rightarrow> agtype_value \<Rightarrow> agtype_value" where
  "deleted (AGTV_OBJECT ps) r = AGTV_OBJECT (filter (\<lambda>p. AGTV_STRING (pair_key p) \<notin> set (items r)) ps)"
| "deleted (AGTV_ARRAY raw es) r =
     AGTV_ARRAY raw (nths es {i. AGTV_INTEGER (of_nat i) \<notin> set (items r) \<and> AGTV_INTEGER (of_nat i - of_nat (length es)) \<notin> set (items r)})"
| "deleted l r = l"

definition deletable :: "agtype_value \<Rightarrow> agtype_value \<Rightarrow> bool" where
  "deletable l r \<longleftrightarrow> (\<forall>w \<in> set (items r). agtv_type w = (if agtv_type l = Type_OBJECT then Type_STRING else Type_INTEGER))"

lemma source_reads: "qsort_ok (pg_qsort_arg env) \<Longrightarrow> source env F v \<Longrightarrow> \<forall>w \<in> set (kids v). reads (fill_agtype_value env F) w"
  using source_kids unfolding copies_def by blast

lemma shallow_type_scalar: "t \<in> {Type_STRING, Type_INTEGER} \<Longrightarrow> agtv_type (shallow w rst) = t \<longleftrightarrow> agtv_type w = t"
  by (cases w) (auto simp: shallow_def)

lemma delete_keys_law:
  assumes q: "qsort_ok (pg_qsort_arg env)" and r: "\<forall>w \<in> set es. reads (fill_agtype_value env F) w" "fits (length (array_image enc False es))"
  shows "i \<le> length es \<Longrightarrow> length es - i < n \<Longrightarrow> at_element es rest i it \<Longrightarrow> source env F (AGTV_OBJECT ps) \<Longrightarrow>
    delete_keys env F n it (array_image enc False es @ rest) (cimage (AGTV_OBJECT ps)) =
      (if \<forall>w \<in> set (drop i es). agtv_type w = Type_STRING
       then Inr (cimage (AGTV_OBJECT (filter (\<lambda>p. AGTV_STRING (pair_key p) \<notin> set (drop i es)) ps)))
       else Inl (Ereport ''expected agtype string, not agtype ''))"
proof (induction n arbitrary: i it ps)
  case (Suc n)
  note nx = next_element_law [OF r Suc.prems(3,1)]
  show ?case
  proof (cases "i < length es")
    case False
    with nx show ?thesis by simp
  next
    case True
    let ?it = "[array_it False es rest (Suc i) AGTI_ARRAY_ELEM]" and ?w = "es ! i"
    from True nx obtain rst where e: "get_next_list_element (fill_agtype_value env F) it (array_image enc False es @ rest) = Inr (Some (shallow ?w rst, ?it))" by auto
    have d: "drop i es = ?w # drop (Suc i) es" by (rule Cons_nth_drop_Suc [symmetric, OF True])
    show ?thesis
    proof (cases "agtv_type ?w = Type_STRING")
      case False
      have "agtv_type (shallow ?w rst) \<noteq> Type_STRING" using False shallow_type_scalar [of Type_STRING ?w rst] by simp
      then have "delete_keys_body env F (cimage (AGTV_OBJECT ps)) (shallow ?w rst) = Inl (Ereport ''expected agtype string, not agtype '')"
        by (cases "shallow ?w rst") (simp_all add: delete_keys_body_def)
      with e d False show ?thesis by simp
    next
      case t: True
      then obtain k where k: "?w = AGTV_STRING k" by (cases ?w) simp_all
      have b: "delete_keys_body env F (cimage (AGTV_OBJECT ps)) (shallow ?w rst) = Inr (cimage (AGTV_OBJECT (without k ps)))"
        using delete_from_object_law [OF q Suc.prems(4), of k] by (simp add: delete_keys_body_def k shallow_def)
      have "delete_keys env F n (Some ?it) (array_image enc False es @ rest) (cimage (AGTV_OBJECT (without k ps))) =
          (if \<forall>w \<in> set (drop (Suc i) es). agtv_type w = Type_STRING
           then Inr (cimage (AGTV_OBJECT (filter (\<lambda>p. AGTV_STRING (pair_key p) \<notin> set (drop (Suc i) es)) (without k ps))))
           else Inl (Ereport ''expected agtype string, not agtype ''))"
        using True Suc.prems(2) source_without [OF Suc.prems(4), of k] by (intro Suc.IH) (simp_all add: at_element_def)
      moreover have "filter (\<lambda>p. AGTV_STRING (pair_key p) \<notin> set (drop (Suc i) es)) (without k ps) = filter (\<lambda>p. AGTV_STRING (pair_key p) \<notin> set (drop i es)) ps"
        unfolding d k without_def filter_filter by (rule filter_cong) auto
      ultimately show ?thesis using e b t by (simp add: d)
    qed
  qed
qed simp

lemma all_integers: "\<forall>w \<in> set es. agtv_type w = Type_INTEGER \<Longrightarrow> \<exists>ks. es = map AGTV_INTEGER ks"
proof (induction es)
  case (Cons w es)
  then obtain ks where "es = map AGTV_INTEGER ks" by auto
  moreover obtain k where "w = AGTV_INTEGER k" using Cons.prems by (cases w) auto
  ultimately show ?case by (intro exI [of _ "k # ks"]) simp
qed simp

lemma delete_indexes_law:
  assumes q: "qsort_ok (pg_qsort_arg env)" and sym: "symp (pg_numeric_eq env)" and l: "source env F (AGTV_ARRAY False ls)"
    and r: "source env F (AGTV_ARRAY raw es)" "dneed (AGTV_ARRAY raw es) + 32 \<le> F" "\<forall>w \<in> set es. agtv_type w = Type_INTEGER"
  shows "delete_from_array env F (cimage (AGTV_ARRAY False ls)) (cimage (AGTV_ARRAY raw es)) = Inr (cimage (deleted (AGTV_ARRAY False ls) (AGTV_ARRAY raw es)))"
proof -
  obtain ks where ks: "es = map AGTV_INTEGER ks" using all_integers [OF r(3)] by blast
  have iv: "AGTV_ARRAY raw es = indexes_value raw ks" by (simp add: indexes_value_def ks)
  have "stored env (indexes_value raw ks)" using r(1) unfolding iv [symmetric] by (auto simp: stored_def source_def ks simp del: cimage.simps)
  from index_listed_law [OF q sym this, of F "[]"] r(2) have "lists_indexes env F (cimage (AGTV_ARRAY raw es)) ks" unfolding iv by (simp add: lists_indexes_def)
  from delete_from_array_law [OF q l this] show ?thesis by (simp add: without_indexes_def listed_def ks image_iff)
qed

lemma for_each_fails:
  assumes rd: "\<forall>w \<in> set es. reads fill w" and f: "fits (length (array_image enc False es))"
    and body: "\<And>w rst. body (shallow w rst) = (if bad w then Inl e else Inr None)"
  shows "i \<le> length es \<Longrightarrow> length es - i < n \<Longrightarrow> at_element es rest i it \<Longrightarrow> \<exists>w \<in> set (drop i es). bad w \<Longrightarrow>
    for_each_element fill body after n it (array_image enc False es @ rest) = Inl e"
proof (induction n arbitrary: i it)
  case (Suc n)
  then have True: "i < length es" by (intro ccontr [of "i < length es"]) simp
  let ?it = "[array_it False es rest (Suc i) AGTI_ARRAY_ELEM]"
  obtain rst where e: "get_next_list_element fill it (array_image enc False es @ rest) = Inr (Some (shallow (es ! i) rst, ?it))"
    using next_element_law [OF rd f Suc.prems(3,1)] True by auto
  have d: "drop i es = es ! i # drop (Suc i) es" by (rule Cons_nth_drop_Suc [symmetric, OF True])
  show ?case
  proof (cases "bad (es ! i)")
    case False
    then have "for_each_element fill body after n (Some ?it) (array_image enc False es @ rest) = Inl e"
      using Suc.prems True d by (intro Suc.IH) (auto simp: at_element_def)
    with e body False show ?thesis by simp
  qed (use e body in simp)
qed simp

lemma sub_list_law:
  assumes q: "qsort_ok (pg_qsort_arg env)" and sym: "symp (pg_numeric_eq env)" and l: "source env F l" "\<not> raw_scalar l"
    and r: "source env F (AGTV_ARRAY False es)" "dneed (AGTV_ARRAY False es) + 32 \<le> F"
  shows "if deletable l (AGTV_ARRAY False es) then sub_list env F (cimage l) (cimage (AGTV_ARRAY False es)) = Inr (cimage (deleted l (AGTV_ARRAY False es)))
    else \<exists>m. sub_list env F (cimage l) (cimage (AGTV_ARRAY False es)) = Inl (Ereport m)"
proof -
  obtain h where h: "container_header (cimage l) = Inr h" "header_is_object h \<longleftrightarrow> agtv_type l = Type_OBJECT" "header_is_scalar h \<longleftrightarrow> raw_scalar l"
    using concat_headers [OF l(1), of "[]"] by auto
  have rd: "\<forall>w \<in> set es. reads (fill_agtype_value env F) w" using source_reads [OF q r(1)] by simp
  have f: "fits (length (array_image enc False es))" using r(1) by (simp add: source_def)
  have "length es + 4 \<le> need (AGTV_ARRAY False es)" by (subst need.simps) simp
  then have n: "length es - 0 < F" using r(1) by (simp add: source_def)
  from l consider ps where "l = AGTV_OBJECT ps" | ls where "l = AGTV_ARRAY False ls" by (cases l) (auto simp: source_def raw_scalar_def)
  then show ?thesis
  proof cases
    case (1 ps)
    from delete_keys_law [OF q rd f _ n, of "[]" None ps] l(1) h 1 show ?thesis
      by (simp add: at_element_def sub_list_def deletable_def del: enc_simps)
  next
    case (2 ls)
    have a: "header_is_array h" using h(1) concat_headers [OF l(1), of "[]"] array_header_fields root_array(2) [of False ls "[]"] l(1) 2
      by (simp add: AGT_ROOT_IS_ARRAY_def source_def)
    have chk: "for_each_element (fill_agtype_value env F) check_index_body () F None (cimage (AGTV_ARRAY False es)) = Inr ()"
      if "\<forall>w \<in> set es. agtv_type w = Type_INTEGER"
      using for_each_law [OF rd f _ _ n, of check_index_body "\<lambda>_. None" "[]" None "()"] that shallow_type_scalar [of Type_INTEGER]
      by (simp add: at_element_def check_index_body_def)
    have bad: "for_each_element (fill_agtype_value env F) check_index_body () F None (cimage (AGTV_ARRAY False es)) = Inl (Ereport ''expected agtype integer, not agtype '')"
      if "\<not> (\<forall>w \<in> set es. agtv_type w = Type_INTEGER)"
      using for_each_fails [OF rd f _ _ n, of check_index_body "\<lambda>w. agtv_type w \<noteq> Type_INTEGER" _ "[]" None "()"] that shallow_type_scalar [of Type_INTEGER]
      by (simp add: at_element_def check_index_body_def)
    have del: "\<forall>w \<in> set es. agtv_type w = Type_INTEGER \<Longrightarrow>
        delete_from_array env F (cimage (AGTV_ARRAY False ls)) (cimage (AGTV_ARRAY False es)) = Inr (cimage (deleted (AGTV_ARRAY False ls) (AGTV_ARRAY False es)))"
      using delete_indexes_law [OF q sym _ r] l(1) 2 by blast
    show ?thesis
    proof (cases "\<forall>w \<in> set es. agtv_type w = Type_INTEGER")
      case True
      with chk del h a l(2) 2 show ?thesis by (simp add: sub_list_def deletable_def del: cimage.simps deleted.simps)
    next
      case False
      with bad h a l(2) 2 show ?thesis by (simp add: sub_list_def deletable_def del: cimage.simps)
    qed
  qed
qed

lemma sub_element_law:
  assumes q: "qsort_ok (pg_qsort_arg env)" and sym: "symp (pg_numeric_eq env)" and l: "source env F l" "\<not> raw_scalar l"
    and r: "source env F (AGTV_ARRAY True [v])" "dneed (AGTV_ARRAY True [v]) + 32 \<le> F" "IS_A_AGTYPE_SCALAR v"
  shows "if deletable l (AGTV_ARRAY True [v]) then sub_element env F (cimage l) (cimage (AGTV_ARRAY True [v])) = Inr (Some (cimage (deleted l (AGTV_ARRAY True [v]))))
    else \<exists>m. sub_element env F (cimage l) (cimage (AGTV_ARRAY True [v])) = Inl (Ereport m)"
proof -
  obtain h where h: "container_header (cimage l) = Inr h" "header_is_object h \<longleftrightarrow> agtv_type l = Type_OBJECT" "header_is_scalar h \<longleftrightarrow> raw_scalar l"
    using concat_headers [OF l(1), of "[]"] by auto
  have v: "wf_value env v" "fits (length (array_image enc True [v]))" "need v \<le> F"
    using r(1) need_kid [of v "AGTV_ARRAY True [v]"] by (simp_all add: source_def)
  have g: "get_ith_agtype_value_from_container_no_copy env F (cimage (AGTV_ARRAY True [v])) 0 = Inr (Some (norm v, needs_free (norm v)))"
    using get_ith_raw_scalar [OF q v(1) r(3) v(2,3), of "[]"] by (simp add: no_copy_agrees)
  from l consider ps where "l = AGTV_OBJECT ps" | ls where "l = AGTV_ARRAY False ls" by (cases l) (auto simp: source_def raw_scalar_def)
  then show ?thesis
  proof cases
    case (1 ps)
    have a: "\<not> header_is_array h" using h(1) root_object(2) [of ps "[]"] l(1) 1 by (simp add: AGT_ROOT_IS_ARRAY_def source_def)
    show ?thesis
    proof (cases "agtv_type v = Type_STRING")
      case True
      then obtain k where k: "v = AGTV_STRING k" by (cases v) simp_all
      have "filter (\<lambda>p. pair_key p \<noteq> k) ps = without k ps" by (simp add: without_def)
      then show ?thesis using delete_from_object_law [OF q, of F ps k] l(1) h g 1 by (simp add: sub_element_def deletable_def k del: cimage.simps)
    next
      case False
      then show ?thesis using h g a 1 r(3) by (cases v) (simp_all add: sub_element_def deletable_def del: cimage.simps)
    qed
  next
    case (2 ls)
    have a: "header_is_array h" using h(1) root_array(2) [of False ls "[]"] l(1) 2 by (simp add: AGT_ROOT_IS_ARRAY_def source_def)
    show ?thesis
    proof (cases "agtv_type v = Type_INTEGER")
      case True
      then obtain k where k: "v = AGTV_INTEGER k" by (cases v) simp_all
      from True have "delete_from_array env F (cimage (AGTV_ARRAY False ls)) (cimage (AGTV_ARRAY True [v])) = Inr (cimage (deleted (AGTV_ARRAY False ls) (AGTV_ARRAY True [v])))"
        using delete_indexes_law [OF q sym _ r(1,2)] l(1) 2 by simp
      then show ?thesis using h g a 2 by (simp add: sub_element_def deletable_def k del: cimage.simps deleted.simps)
    next
      case False
      then show ?thesis using h g a 2 r(3) by (cases v) (simp_all add: sub_element_def deletable_def del: cimage.simps)
    qed
  qed
qed

definition raw_ok :: "agtype_value \<Rightarrow> bool" where
  "raw_ok r \<longleftrightarrow> (\<exists>es. r = AGTV_ARRAY False es) \<or> (\<exists>v. r = AGTV_ARRAY True [v] \<and> IS_A_AGTYPE_SCALAR v)"


definition sample_arith :: arith_env where
  "sample_arith =
     \<lparr>c_nan = (\<lambda>_ _. 0x7FF8000000000000), c_pow = (\<lambda>_ _. 0), numeric_add = (\<lambda>m _. Inr m), numeric_sub = (\<lambda>m _. Inr m), numeric_mul = (\<lambda>m _. Inr m),
      numeric_div = (\<lambda>m _. Inr m), numeric_mod = (\<lambda>m _. Inr m), numeric_power = (\<lambda>m _. Inr m), numeric_uminus = Inr\<rparr>"


subsection \<open>Arithmetic on stored numbers\<close>

definition int_or_float :: "agtype_value \<Rightarrow> bool" where
  "int_or_float v \<longleftrightarrow> agtv_type v \<in> {Type_INTEGER, Type_FLOAT}"

lemma int_or_float_cases:
  assumes "int_or_float v"
  obtains (int) i where "v = AGTV_INTEGER i" | (float) f where "v = AGTV_FLOAT f"
  using assms by (cases v) (auto simp: int_or_float_def)

lemma number_datum:
  assumes "int_or_float v"
  shows "agtype_value_to_agtype env v = Inr (datum v)" "AGT_ROOT_IS_SCALAR (datum v) = Inr True" "AGT_ROOT_IS_ARRAY (datum v) = Inr True"
    "qsort_ok (pg_qsort_arg env) \<Longrightarrow> 5 \<le> F \<Longrightarrow> get_scalar_agtype_value_no_copy env F (datum v) = Inr (v, needs_free v)"
    "\<exists>h. container_header (datum v) = Inr h \<and> header_is_scalar h"
proof -
  have v: "wf_value env v" "IS_A_AGTYPE_SCALAR v" "writable env v" "agtv_type v \<noteq> Type_BOOL" "norm v = v" "need v = 5" "datum v = array_image enc True [v]"
    using assms by (cases rule: int_or_float_cases; simp add: need.simps datum_def)+
  have f: "fits (length (array_image enc True [v]))" using assms by (cases rule: int_or_float_cases) (simp_all add: fits_iff INTALIGN_def)
  show "agtype_value_to_agtype env v = Inr (datum v)" unfolding v(7) by (rule scalar_image [OF v(3,2,4) f])
  show sc: "AGT_ROOT_IS_SCALAR (datum v) = Inr True" "AGT_ROOT_IS_ARRAY (datum v) = Inr True" using root_array(2,3) [OF f, of "[]"] by (simp_all add: v(7))
  show "get_scalar_agtype_value_no_copy env F (datum v) = Inr (v, needs_free v)" if "qsort_ok (pg_qsort_arg env)" "5 \<le> F"
    using get_ith_raw_scalar [OF that(1) v(1,2) f, of F "[]"] that(2) v(5,6,7) by (simp add: get_scalar_agtype_value_no_copy_def no_copy_agrees)
  show "\<exists>h. container_header (datum v) = Inr h \<and> header_is_scalar h" using sc(1) by (auto simp: AGT_ROOT_IS_SCALAR_def bindE_def split: sum.splits)
qed

lemma scalar_operands_law:
  assumes "qsort_ok (pg_qsort_arg env)" "5 \<le> F" "int_or_float v" "int_or_float w"
  shows "scalar_operands env F f (datum v) (datum w) = bindE (f v w) (\<lambda>x. bindE (agtype_value_to_agtype env x) (\<lambda>d. Inr (Some d)))"
    "only_scalars (scalar_operands env F f) (datum v) (datum w) = bindE (f v w) (\<lambda>x. bindE (agtype_value_to_agtype env x) (\<lambda>d. Inr (Some d)))"
  using number_datum [OF assms(3)] number_datum [OF assms(4)] assms
  by (auto simp: scalar_operands_def only_scalars_def int_or_float_def)

lemma sub_operands_law:
  assumes "qsort_ok (pg_qsort_arg env)" "5 \<le> F" "int_or_float v" "int_or_float w"
  shows "agtype_sub env ar F (datum v) (datum w) = bindE (arith_cases env ''Invalid input parameter types for agtype_sub''
      (\<lambda>a b. Inr (AGTV_INTEGER (a - b))) (\<lambda>a b. float_result (f_sub (c_nan ar) a b)) (\<lambda>a b. float_result (f_sub (c_nan ar) a (int8_float b)))
      (\<lambda>a b. float_result (f_sub (c_nan ar) (int8_float a) b)) (numeric_sub ar) v w) (\<lambda>x. bindE (agtype_value_to_agtype env x) (\<lambda>d. Inr (Some d)))"
  using number_datum(5) [OF assms(4)] number_datum(2) [OF assms(3)] scalar_operands_law(1) [OF assms] by (auto simp: agtype_sub_def)

lemma add_operands_law:
  assumes "qsort_ok (pg_qsort_arg env)" "5 \<le> F" "int_or_float v" "int_or_float w"
  shows "agtype_add env ar nt F (datum v) (datum w) = bindE (arith_cases env ''Invalid input parameter types for agtype_add''
      (\<lambda>a b. Inr (AGTV_INTEGER (a + b))) (\<lambda>a b. float_result (f_add (c_nan ar) a b)) (\<lambda>a b. float_result (f_add (c_nan ar) a (int8_float b)))
      (\<lambda>a b. float_result (f_add (c_nan ar) (int8_float a) b)) (numeric_add ar) v w) (\<lambda>x. bindE (agtype_value_to_agtype env x) (\<lambda>d. Inr (Some d)))"
  using number_datum(2,4) [OF assms(3)] number_datum(2,4) [OF assms(4)] assms
  by (auto simp: agtype_add_def int_or_float_def Let_def)

subsection \<open>Integers\<close>

lemma int_or_float_simps [simp]: "int_or_float (AGTV_INTEGER i)" "int_or_float (AGTV_FLOAT f)"
  by (simp_all add: int_or_float_def)

text \<open>The 64-bit word that an exact result wraps to.\<close>

definition wraps :: "int64 \<Rightarrow> int \<Rightarrow> bool" where
  "wraps w n \<longleftrightarrow> (\<exists>k. sint w = n + k * 2 ^ 64) \<and> (- (2 ^ 63) \<le> n \<and> n < 2 ^ 63 \<longrightarrow> sint w = n)"

lemma sint_int64: "sint (word_of_int n :: int64) = signed_take_bit 63 n"
  by (simp add: sint_sbintrunc')

lemma wraps_of_int: "wraps (word_of_int n) n"
proof -
  have "(\<exists>k. signed_take_bit 63 n = n + k * 2 ^ 64)"
    by (rule exI [of _ "- ((n + 2 ^ 63) div 2 ^ 64)"]) (simp add: signed_take_bit_eq_take_bit_shift take_bit_eq_mod minus_div_mult_eq_mod [symmetric] algebra_simps)
  moreover have "- (2 ^ 63) \<le> n \<and> n < 2 ^ 63 \<longrightarrow> signed_take_bit 63 n = n" by (simp add: signed_take_bit_int_eq_self)
  ultimately show ?thesis unfolding wraps_def sint_int64 by blast
qed

lemma wraps_arith: "wraps (a + b) (sint a + sint b)" "wraps (a - b) (sint a - sint b)" "wraps (a * b) (sint a * sint b)" "wraps (- a) (- sint a)"
  using wraps_of_int [of "sint a + sint b"] wraps_of_int [of "sint a - sint b"] wraps_of_int [of "sint a * sint b"] wraps_of_int [of "- sint a"]
  by (simp_all add: wi_hom_syms)

lemma sint_range64: "- (2 ^ 63) \<le> sint (a :: int64)" "sint (a :: int64) < 2 ^ 63"
  using sint_ge [of a] sint_lt [of a] by simp_all

lemma quotient_range:
  fixes a b :: int
  assumes "- (2 ^ 63) \<le> a" "a < 2 ^ 63" "b \<noteq> 0" "\<not> (a = - (2 ^ 63) \<and> b = -1)"
  shows "- (2 ^ 63) \<le> a sdiv b" "a sdiv b < 2 ^ 63"
proof -
  consider "b = 1" | "b = -1" | "2 \<le> \<bar>b\<bar>" using assms(3) by linarith
  then have "- (2 ^ 63) \<le> a sdiv b \<and> a sdiv b < 2 ^ 63"
  proof cases
    case 3
    have "\<bar>a\<bar> div \<bar>b\<bar> \<le> \<bar>a\<bar> div 2" using 3 by (intro zdiv_mono2) simp_all
    also have "\<dots> \<le> 2 ^ 62" using assms(1,2) by simp
    finally have "\<bar>a\<bar> div \<bar>b\<bar> \<le> 2 ^ 62" .
    moreover have "\<bar>a sdiv b\<bar> \<le> \<bar>a\<bar> div \<bar>b\<bar>"
      using assms(3) by (simp add: signed_divide_int_def abs_mult abs_sgn_eq pos_imp_zdiv_nonneg_iff)
    ultimately have "\<bar>a sdiv b\<bar> \<le> 2 ^ 62" by (rule order_trans [rotated])
    then show ?thesis by (simp add: abs_le_iff)
  qed (use assms in simp_all)
  then show "- (2 ^ 63) \<le> a sdiv b" "a sdiv b < 2 ^ 63" by simp_all
qed

lemma remainder_range:
  fixes a b :: int
  assumes "b \<noteq> 0"
  shows "\<bar>a smod b\<bar> < \<bar>b\<bar>" "\<bar>a smod b\<bar> \<le> \<bar>a\<bar>" "a smod b = 0 \<or> sgn (a smod b) = sgn a"
proof -
  define m where "m = \<bar>a\<bar> mod \<bar>b\<bar>"
  have m: "0 \<le> m" "m < \<bar>b\<bar>" "m \<le> \<bar>a\<bar>" using assms zmod_le_nonneg_dividend [of "\<bar>a\<bar>" "\<bar>b\<bar>"] by (simp_all add: m_def)
  have s: "a smod b = sgn a * m" by (simp add: smod_int_alt_def m_def)
  consider "a = 0" | "0 < a" | "a < 0" by linarith
  then have "\<bar>a smod b\<bar> < \<bar>b\<bar> \<and> \<bar>a smod b\<bar> \<le> \<bar>a\<bar> \<and> (a smod b = 0 \<or> sgn (a smod b) = sgn a)"
    unfolding s using m by cases (auto simp: sgn_if)
  then show "\<bar>a smod b\<bar> < \<bar>b\<bar>" "\<bar>a smod b\<bar> \<le> \<bar>a\<bar>" "a smod b = 0 \<or> sgn (a smod b) = sgn a" by blast+
qed

text \<open>C's quotient and remainder of two integers, when they are defined.\<close>

lemma int64_div_mod:
  assumes "b \<noteq> 0" "\<not> (sint a = - (2 ^ 63) \<and> b = -1)"
  shows "\<exists>q r. int64_div a b = Inr q \<and> int64_mod a b = Inr r \<and> sint a = sint q * sint b + sint r \<and> \<bar>sint r\<bar> < \<bar>sint b\<bar> \<and> (sint r = 0 \<or> sgn (sint r) = sgn (sint a))"
proof -
  have b: "sint b \<noteq> 0" using assms(1) by (metis sint_0 signed_word_eqI)
  have "sint b = -1 \<longleftrightarrow> b = -1" by (metis sint_n1 signed_word_eqI)
  then have nb: "\<not> (sint a = - (2 ^ 63) \<and> sint b = -1)" using assms(2) by simp
  note q = quotient_range [OF sint_range64 b nb] and r = remainder_range [OF b, of "sint a"]
  have "sint (word_of_int (sint a sdiv sint b) :: int64) = sint a sdiv sint b" unfolding sint_int64 by (rule signed_take_bit_int_eq_self [OF q])
  moreover have "- (2 ^ 63) \<le> sint a smod sint b" "sint a smod sint b < 2 ^ 63" using r(1) sint_range64 [of b] by linarith+
  then have "sint (word_of_int (sint a smod sint b) :: int64) = sint a smod sint b" unfolding sint_int64 by (rule signed_take_bit_int_eq_self)
  ultimately show ?thesis using assms r(1,3) sdiv_mult_smod_eq [of "sint a" "sint b"] by (simp add: int64_div_def int64_mod_def)
qed

text \<open>C9: On two stored integers \<open>+\<close>, \<open>-\<close>, \<open>*\<close> and negation store the exact result wrapped to 64 bits, the result itself when it is in range.
  Division by zero is reported. For a nonzero divisor \<open>/\<close> and \<open>%\<close> store the truncated quotient and its remainder, which has the sign
  of the dividend, except for the least integer and \<open>-1\<close>, where both are undefined. The remainder by zero is not reported: it is undefined too.\<close>

theorem integer_arithmetic:
  assumes "qsort_ok (pg_qsort_arg env)" "5 \<le> F"
  shows "(\<exists>s d m n. agtype_add env ar nt F (datum (AGTV_INTEGER a)) (datum (AGTV_INTEGER b)) = Inr (Some (datum (AGTV_INTEGER s))) \<and> wraps s (sint a + sint b) \<and>
      agtype_sub env ar F (datum (AGTV_INTEGER a)) (datum (AGTV_INTEGER b)) = Inr (Some (datum (AGTV_INTEGER d))) \<and> wraps d (sint a - sint b) \<and>
      agtype_mul env ar F (datum (AGTV_INTEGER a)) (datum (AGTV_INTEGER b)) = Inr (Some (datum (AGTV_INTEGER m))) \<and> wraps m (sint a * sint b) \<and>
      agtype_neg env ar F (datum (AGTV_INTEGER a)) = Inr (Some (datum (AGTV_INTEGER n))) \<and> wraps n (- sint a)) \<and>
    (if b = 0 then
       agtype_div env ar F (datum (AGTV_INTEGER a)) (datum (AGTV_INTEGER b)) = Inl (Ereport ''division by zero'') \<and>
       agtype_mod env ar F (datum (AGTV_INTEGER a)) (datum (AGTV_INTEGER b)) = Inl Undefined
     else if sint a = - (2 ^ 63) \<and> b = -1 then
       agtype_div env ar F (datum (AGTV_INTEGER a)) (datum (AGTV_INTEGER b)) = Inl Undefined \<and>
       agtype_mod env ar F (datum (AGTV_INTEGER a)) (datum (AGTV_INTEGER b)) = Inl Undefined
     else (\<exists>q r. agtype_div env ar F (datum (AGTV_INTEGER a)) (datum (AGTV_INTEGER b)) = Inr (Some (datum (AGTV_INTEGER q))) \<and>
       agtype_mod env ar F (datum (AGTV_INTEGER a)) (datum (AGTV_INTEGER b)) = Inr (Some (datum (AGTV_INTEGER r))) \<and>
       sint a = sint q * sint b + sint r \<and> \<bar>sint r\<bar> < \<bar>sint b\<bar> \<and> (sint r = 0 \<or> sgn (sint r) = sgn (sint a))))"
  (is "_ \<and> (if _ then ?D = _ \<and> ?M = _ else _)")
proof -
  note st = number_datum(1) [where v = "AGTV_INTEGER _", simplified]
  have n: "agtype_neg env ar F (datum (AGTV_INTEGER a)) = Inr (Some (datum (AGTV_INTEGER (- a))))"
    using number_datum [of "AGTV_INTEGER a"] assms st by (simp add: agtype_neg_def)
  have d: "agtype_div env ar F (datum (AGTV_INTEGER a)) (datum (AGTV_INTEGER b)) =
      (if b = 0 then Inl (Ereport ''division by zero'') else bindE (int64_div a b) (\<lambda>q. Inr (Some (datum (AGTV_INTEGER q)))))"
    by (simp add: agtype_div_def scalar_operands_law(2) [OF assms] arith_cases_def bindE_assoc st)
  have m: "agtype_mod env ar F (datum (AGTV_INTEGER a)) (datum (AGTV_INTEGER b)) = bindE (int64_mod a b) (\<lambda>r. Inr (Some (datum (AGTV_INTEGER r))))"
    by (simp add: agtype_mod_def scalar_operands_law(2) [OF assms] arith_cases_def bindE_assoc st)
  have "agtype_add env ar nt F (datum (AGTV_INTEGER a)) (datum (AGTV_INTEGER b)) = Inr (Some (datum (AGTV_INTEGER (a + b))))"
    "agtype_sub env ar F (datum (AGTV_INTEGER a)) (datum (AGTV_INTEGER b)) = Inr (Some (datum (AGTV_INTEGER (a - b))))"
    "agtype_mul env ar F (datum (AGTV_INTEGER a)) (datum (AGTV_INTEGER b)) = Inr (Some (datum (AGTV_INTEGER (a * b))))"
    by (simp_all add: sub_operands_law [OF assms] add_operands_law [OF assms] agtype_mul_def scalar_operands_law(2) [OF assms] arith_cases_def st)
  note w = this n wraps_arith
  have dm: "if b = 0 then ?D = Inl (Ereport ''division by zero'') \<and> ?M = Inl Undefined
      else if sint a = - (2 ^ 63) \<and> b = -1 then ?D = Inl Undefined \<and> ?M = Inl Undefined
      else \<exists>q r. ?D = Inr (Some (datum (AGTV_INTEGER q))) \<and> ?M = Inr (Some (datum (AGTV_INTEGER r))) \<and>
        sint a = sint q * sint b + sint r \<and> \<bar>sint r\<bar> < \<bar>sint b\<bar> \<and> (sint r = 0 \<or> sgn (sint r) = sgn (sint a))"
  proof (cases "b = 0 \<or> sint a = - (2 ^ 63) \<and> b = -1")
    case True
    then show ?thesis unfolding d m by (auto simp: int64_div_def int64_mod_def)
  next
    case False
    with int64_div_mod [of b a] obtain q r where "int64_div a b = Inr q" "int64_mod a b = Inr r" "sint a = sint q * sint b + sint r" "\<bar>sint r\<bar> < \<bar>sint b\<bar>" "sint r = 0 \<or> sgn (sint r) = sgn (sint a)"
      by blast
    with False d m show ?thesis by auto
  qed
  show ?thesis using w dm by blast
qed

theorem integer_arithmetic_witness:
  "(\<exists>s. agtype_add isort_env sample_arith decimal_text 5 (datum (AGTV_INTEGER 0x7FFFFFFFFFFFFFFF)) (datum (AGTV_INTEGER 1)) = Inr (Some (datum (AGTV_INTEGER s))) \<and>
     wraps s (2 ^ 63)) \<and>
   agtype_mod isort_env sample_arith 5 (datum (AGTV_INTEGER 7)) (datum (AGTV_INTEGER 0)) = Inl Undefined"
proof -
  have a: "\<exists>s. agtype_add isort_env sample_arith decimal_text 5 (datum (AGTV_INTEGER 0x7FFFFFFFFFFFFFFF)) (datum (AGTV_INTEGER 1)) = Inr (Some (datum (AGTV_INTEGER s))) \<and>
      wraps s (sint (0x7FFFFFFFFFFFFFFF :: int64) + sint (1 :: int64))"
    using integer_arithmetic [OF isort_env_qsort, where F = 5 and ar = sample_arith and nt = decimal_text and a = "0x7FFFFFFFFFFFFFFF" and b = 1] by blast
  have "agtype_mod isort_env sample_arith 5 (datum (AGTV_INTEGER 7)) (datum (AGTV_INTEGER 0)) = Inl Undefined"
    using integer_arithmetic [OF isort_env_qsort, where F = 5 and ar = sample_arith and nt = decimal_text and a = 7 and b = 0] by simp
  with a show ?thesis by simp
qed

subsection \<open>Floats\<close>

text \<open>C7: On two stored finite floats \<open>+\<close>, \<open>-\<close>, \<open>*\<close> and, for a divisor other than zero, \<open>/\<close> store the exact result rounded to the nearest
  double, ties to even, infinity beyond the range, with the sign of the exact result; \<open>%\<close> stores the exact remainder, with the sign of the dividend.
  Division by a zero of either sign is reported.\<close>

theorem float_arithmetic:
  assumes "qsort_ok (pg_qsort_arg env)" "5 \<le> F" "f_finite a" "f_finite b"
  shows "(\<exists>s d m. agtype_add env ar nt F (datum (AGTV_FLOAT a)) (datum (AGTV_FLOAT b)) = Inr (Some (datum (AGTV_FLOAT s))) \<and> near s (f_value a + f_value b) 1 \<and>
      agtype_sub env ar F (datum (AGTV_FLOAT a)) (datum (AGTV_FLOAT b)) = Inr (Some (datum (AGTV_FLOAT d))) \<and> near d (f_value a - f_value b) 1 \<and>
      agtype_mul env ar F (datum (AGTV_FLOAT a)) (datum (AGTV_FLOAT b)) = Inr (Some (datum (AGTV_FLOAT m))) \<and> near m (f_value a * f_value b) (2 ^ 1074)) \<and>
    (if f_value b = 0 then agtype_div env ar F (datum (AGTV_FLOAT a)) (datum (AGTV_FLOAT b)) = Inl (Ereport ''division by zero'')
     else \<exists>q r. agtype_div env ar F (datum (AGTV_FLOAT a)) (datum (AGTV_FLOAT b)) = Inr (Some (datum (AGTV_FLOAT q))) \<and>
       near q (f_value a * 2 ^ 1074 * sgn (f_value b)) (nat \<bar>f_value b\<bar>) \<and>
       agtype_mod env ar F (datum (AGTV_FLOAT a)) (datum (AGTV_FLOAT b)) = Inr (Some (datum (AGTV_FLOAT r))) \<and>
       f_value r = f_value a smod f_value b \<and> (f_neg r \<longleftrightarrow> f_neg a))"
  (is "_ \<and> (if _ then ?D = _ else (\<exists>q r. _ \<and> _ \<and> ?M = _ \<and> _))")
proof -
  note st = number_datum(1) [where v = "AGTV_FLOAT _", simplified]
  note law = scalar_operands_law(2) [OF assms(1,2)]
  have e: "agtype_add env ar nt F (datum (AGTV_FLOAT a)) (datum (AGTV_FLOAT b)) = Inr (Some (datum (AGTV_FLOAT (f_add (c_nan ar) a b))))"
    "agtype_sub env ar F (datum (AGTV_FLOAT a)) (datum (AGTV_FLOAT b)) = Inr (Some (datum (AGTV_FLOAT (f_sub (c_nan ar) a b))))"
    "agtype_mul env ar F (datum (AGTV_FLOAT a)) (datum (AGTV_FLOAT b)) = Inr (Some (datum (AGTV_FLOAT (f_mul (c_nan ar) a b))))"
    "agtype_mod env ar F (datum (AGTV_FLOAT a)) (datum (AGTV_FLOAT b)) = Inr (Some (datum (AGTV_FLOAT (fmod (c_nan ar) a b))))"
    by (simp_all add: sub_operands_law [OF assms(1,2)] add_operands_law [OF assms(1,2)] agtype_mul_def agtype_mod_def law arith_cases_def float_result_def st)
  have d: "agtype_div env ar F (datum (AGTV_FLOAT a)) (datum (AGTV_FLOAT b)) =
      (if f_abs b = 0 then Inl (Ereport ''division by zero'') else Inr (Some (datum (AGTV_FLOAT (f_div (c_nan ar) a b)))))"
    by (simp add: agtype_div_def law arith_cases_def float_result_def st)
  note n = f_add_near [OF assms(3,4), of "c_nan ar"] f_sub_near [OF assms(3,4), of "c_nan ar"] f_mul_near [OF assms(3,4), of "c_nan ar"]
  have q: "if f_value b = 0 then ?D = Inl (Ereport ''division by zero'') else \<exists>q r. ?D = Inr (Some (datum (AGTV_FLOAT q))) \<and>
      near q (f_value a * 2 ^ 1074 * sgn (f_value b)) (nat \<bar>f_value b\<bar>) \<and> ?M = Inr (Some (datum (AGTV_FLOAT r))) \<and> f_value r = f_value a smod f_value b \<and> (f_neg r \<longleftrightarrow> f_neg a)"
  proof (cases "f_abs b = 0")
    case False
    then have "f_value b \<noteq> 0" by (simp add: f_value_0)
    with f_div_near [OF assms(3,4) False, of "c_nan ar"] fmod_exact(2,3) [OF assms(3,4) False, of "c_nan ar"] d e(4) False show ?thesis by (simp only: if_False) blast
  qed (use d in \<open>simp add: f_value_0\<close>)
  show ?thesis using e(1-3) n q by blast
qed

theorem float_arithmetic_witness:
  "\<exists>s. agtype_add isort_env sample_arith decimal_text 5 (datum (AGTV_FLOAT 0x3FF0000000000000)) (datum (AGTV_FLOAT 0x3CA0000000000000)) = Inr (Some (datum (AGTV_FLOAT s))) \<and>
     near s (f_value 0x3FF0000000000000 + f_value 0x3CA0000000000000) 1"
proof -
  have "f_finite 0x3FF0000000000000" "f_finite 0x3CA0000000000000" by (simp_all add: f_finite_def f_abs_def F_INF_def)
  from float_arithmetic [OF isort_env_qsort _ this, where F = 5 and ar = sample_arith and nt = decimal_text] show ?thesis by blast
qed

end
