(* ===== verification/Agtype_Relate.thy ===== *)
theory Agtype_Relate
  imports Agtype_Access
begin

text \<open>
  The comparison operators \<open>=\<close>, \<open><>\<close>, \<open><\<close>, \<open>>\<close>, \<open><=\<close> and \<open>>=\<close> of \<open>src/backend/utils/adt/agtype_ops.c\<close>. Equality and
  inequality have ways around the comparison of containers: scalars are compared where they are stored, and containers with equal images are
  equal. All six operators agree with the order of \<open>compare_agtype_containers_orderability\<close>.
\<close>

subsection \<open>The operators\<close>

text \<open>The scalar fast path: \<open>None\<close> when it does not apply.\<close>

definition raw_scalar_agtype_eq :: "pg_env \<Rightarrow> byte list \<Rightarrow> byte list \<Rightarrow> bool option result" where
  "raw_scalar_agtype_eq env lhs rhs =
     bindE (container_header lhs) (\<lambda>hl. bindE (container_header rhs) (\<lambda>hr.
       if \<not> header_is_scalar hl \<or> \<not> header_is_scalar hr \<or> header_size hl \<noteq> 1 \<or> header_size hr \<noteq> 1 then Inr None
       else bindE (container_child lhs 0) (\<lambda>lhs_entry. bindE (container_child rhs 0) (\<lambda>rhs_entry.
         let lhs_base = container_data lhs 1; rhs_base = container_data rhs 1
         in if AGTE_IS_AGTYPE lhs_entry \<and> AGTE_IS_AGTYPE rhs_entry then
              bindE (read_u32 lhs_base) (\<lambda>lhs_type_header. bindE (read_u32 rhs_base) (\<lambda>rhs_type_header.
                if lhs_type_header = AGT_HEADER_INTEGER \<and> rhs_type_header = AGT_HEADER_INTEGER
                then bindE (read_u64 (drop 4 lhs_base)) (\<lambda>lhs_int. bindE (read_u64 (drop 4 rhs_base)) (\<lambda>rhs_int. Inr (Some (lhs_int = rhs_int))))
                else Inr None))
            else if (AGTE_IS_BOOL_TRUE lhs_entry \<or> AGTE_IS_BOOL_FALSE lhs_entry) \<and> (AGTE_IS_BOOL_TRUE rhs_entry \<or> AGTE_IS_BOOL_FALSE rhs_entry) then
              Inr (Some (AGTE_IS_BOOL_TRUE lhs_entry = AGTE_IS_BOOL_TRUE rhs_entry))
            else if AGTE_IS_NUMERIC lhs_entry \<and> AGTE_IS_NUMERIC rhs_entry then
              bindE (read_bytes (pg_varsize env lhs_base) lhs_base) (\<lambda>lhs_numeric. bindE (read_bytes (pg_varsize env rhs_base) rhs_base) (\<lambda>rhs_numeric.
                Inr (Some (pg_numeric_eq env lhs_numeric rhs_numeric))))
            else if AGTE_IS_STRING lhs_entry \<and> AGTE_IS_STRING rhs_entry then
              bindE (read_bytes (unat (AGTE_OFFLENFLD lhs_entry)) lhs_base) (\<lambda>s. bindE (read_bytes (unat (AGTE_OFFLENFLD rhs_entry)) rhs_base) (\<lambda>t.
                Inr (Some (pg_varstr_cmp env s t = 0))))
            else Inr None))))"

text \<open>The server's hash and equality of the images of two datums.\<close>

record image_env =
  datum_image_hash :: "byte list \<Rightarrow> uint32"
  datum_image_eq :: "byte list \<Rightarrow> byte list \<Rightarrow> bool"

definition same_image :: "image_env \<Rightarrow> byte list \<Rightarrow> byte list \<Rightarrow> bool" where
  "same_image im lhs rhs \<longleftrightarrow> datum_image_hash im lhs = datum_image_hash im rhs \<and> datum_image_eq im lhs rhs"

definition agtype_eq :: "pg_env \<Rightarrow> image_env \<Rightarrow> nat \<Rightarrow> byte list \<Rightarrow> byte list \<Rightarrow> bool result" where
  "agtype_eq env im F lhs rhs =
     bindE (AGT_ROOT_IS_SCALAR lhs) (\<lambda>l. bindE (AGT_ROOT_IS_SCALAR rhs) (\<lambda>r.
       if l \<and> r then
         bindE (raw_scalar_agtype_eq env lhs rhs) (\<lambda>res.
           case res of
             Some result \<Rightarrow> Inr result
           | None \<Rightarrow> bindE (compare_agtype_containers_orderability env F lhs rhs) (\<lambda>c. Inr (c = 0)))
       else if same_image im lhs rhs then Inr True
       else bindE (compare_agtype_containers_orderability env F lhs rhs) (\<lambda>c. Inr (c = 0))))"

definition agtype_ne :: "pg_env \<Rightarrow> image_env \<Rightarrow> nat \<Rightarrow> byte list \<Rightarrow> byte list \<Rightarrow> bool result" where
  "agtype_ne env im F lhs rhs =
     (if same_image im lhs rhs then Inr False
      else bindE (compare_agtype_containers_orderability env F lhs rhs) (\<lambda>c. Inr (c \<noteq> 0)))"

definition agtype_lt :: "pg_env \<Rightarrow> nat \<Rightarrow> byte list \<Rightarrow> byte list \<Rightarrow> bool result" where
  "agtype_lt env F lhs rhs = bindE (compare_agtype_containers_orderability env F lhs rhs) (\<lambda>c. Inr (c < 0))"

definition agtype_gt :: "pg_env \<Rightarrow> nat \<Rightarrow> byte list \<Rightarrow> byte list \<Rightarrow> bool result" where
  "agtype_gt env F lhs rhs = bindE (compare_agtype_containers_orderability env F lhs rhs) (\<lambda>c. Inr (c > 0))"

definition agtype_le :: "pg_env \<Rightarrow> nat \<Rightarrow> byte list \<Rightarrow> byte list \<Rightarrow> bool result" where
  "agtype_le env F lhs rhs = bindE (compare_agtype_containers_orderability env F lhs rhs) (\<lambda>c. Inr (c \<le> 0))"

definition agtype_ge :: "pg_env \<Rightarrow> nat \<Rightarrow> byte list \<Rightarrow> byte list \<Rightarrow> bool result" where
  "agtype_ge env F lhs rhs = bindE (compare_agtype_containers_orderability env F lhs rhs) (\<lambda>c. Inr (c \<ge> 0))"

subsection \<open>Equal images compare equal\<close>

text \<open>What is relied on of the server: the comparisons of numerics and strings are reflexive, \<open>numeric_eq\<close> is \<open>numeric_cmp = 0\<close>, and equal
  images have equal bytes.\<close>

definition cmp_laws :: "pg_env \<Rightarrow> bool" where
  "cmp_laws env \<longleftrightarrow> (\<forall>n. pg_numeric_cmp env n n = 0) \<and> (\<forall>s. pg_varstr_cmp env s s = 0) \<and> (\<forall>m n. pg_numeric_eq env m n \<longleftrightarrow> pg_numeric_cmp env m n = 0)"

definition image_laws :: "image_env \<Rightarrow> bool" where
  "image_laws im \<longleftrightarrow> (\<forall>a b. datum_image_eq im a b \<longrightarrow> a = b)"

lemma compare_elems_refl: "(\<And>x c. x \<in> set xs \<Longrightarrow> cmp x x = Inr c \<Longrightarrow> c = 0) \<Longrightarrow> compare_elems cmp xs xs = Inr c \<Longrightarrow> c = 0"
proof (induction xs)
  case (Cons x xs)
  then show ?case by (cases "cmp x x") (auto split: if_splits)
qed simp

lemma compare_ids_refl: "compare_ids a a = Inr c \<Longrightarrow> c = 0"
  by (auto simp: compare_ids_def compare_int64_def bindE_def split: sum.splits)

lemma compare_scalar_refl: "cmp_laws env \<Longrightarrow> compare_agtype_scalar_values env v v = Inr c \<Longrightarrow> c = 0"
proof (induction v arbitrary: c)
  case (AGTV_PATH xs)
  then have "compare_elems (\<lambda>x y. compare_agtype_scalar_values env x y) xs xs = Inr c" by (subst (asm) (2) compare_agtype_scalar_values.simps) simp
  then show ?case using AGTV_PATH by (auto intro: compare_elems_refl)
qed (auto simp: compare_agtype_scalar_values.simps cmp_laws_def sgn_result_def compare_int64_def compare_two_floats_orderability_def
      dest!: compare_ids_refl split: if_splits)

lemma compare_step_refl: "cmp_laws env \<Longrightarrow> compare_step env fill r v its r v its = Inr (Some c) \<Longrightarrow> c = 0"
  using compare_scalar_refl [of env v c]
  by (cases v) (auto simp: compare_step_def comparable_types_def bindE_def split: if_splits sum.splits)

lemma compare_loop_refl: "cmp_laws env \<Longrightarrow> compare_loop env fill n its its = Inr c \<Longrightarrow> c = 0"
proof (induction n arbitrary: its)
  case (Suc n)
  then show ?case
    by (auto simp: bindE_def split: sum.splits option.splits if_splits dest: compare_step_refl)
qed simp

lemma compare_refl:
  assumes "cmp_laws env" "compare_agtype_containers_orderability env F a a = Inr c"
  shows "c = 0"
  using assms compare_loop_refl [OF assms(1)] compare_scalar_refl [OF assms(1)]
  by (auto simp: compare_agtype_containers_orderability_def compare_agtype_scalar_containers_def comparable_types_def bindE_def split: sum.splits if_splits)

subsection \<open>The scalar fast path agrees with the comparison\<close>

text \<open>The first child, read the way the fast path reads it.\<close>

lemma first_child_read:
  assumes "fill_agtype_value_no_copy env F c 0 (container_data c 1) 0 = Inr v" "container_child c 0 = Inr e"
  shows "AGTE_IS_STRING e \<Longrightarrow> \<exists>s. read_bytes (unat (AGTE_OFFLENFLD e)) (container_data c 1) = Inr s \<and> v = AGTV_STRING s"
    "AGTE_IS_NUMERIC e \<Longrightarrow> \<exists>n. read_bytes (pg_varsize env (container_data c 1)) (container_data c 1) = Inr n \<and> v = AGTV_NUMERIC n"
    "AGTE_IS_BOOL_TRUE e \<Longrightarrow> v = AGTV_BOOL True" "AGTE_IS_BOOL_FALSE e \<Longrightarrow> v = AGTV_BOOL False"
    "AGTE_IS_AGTYPE e \<Longrightarrow> \<exists>h. read_u32 (container_data c 1) = Inr h \<and>
       (h = AGT_HEADER_INTEGER \<longrightarrow> (\<exists>i. read_u64 (drop 4 (container_data c 1)) = Inr i \<and> v = AGTV_INTEGER i))"
proof -
  obtain n where n: "F = Suc n" using assms(1) by (cases F) (simp_all add: no_copy_fill)
  have len: "get_agtype_length c 0 = Inr (AGTE_OFFLENFLD e)" using assms(2) by (simp add: get_agtype_length_def get_agtype_offset_def)
  have al: "INTALIGN 0 = 0" by (simp add: INTALIGN_def)
  note d = assms [unfolded no_copy_fill n fill_agtype_value.simps fill_body_def] len al
  note t = AGTE_IS_STRING_def AGTE_IS_NUMERIC_def AGTE_IS_NULL_def AGTE_IS_BOOL_TRUE_def AGTE_IS_BOOL_FALSE_def AGTE_IS_AGTYPE_def
    AGTENTRY_IS_STRING_def AGTENTRY_IS_NUMERIC_def AGTENTRY_IS_NULL_def AGTENTRY_IS_BOOL_TRUE_def AGTENTRY_IS_BOOL_FALSE_def AGTENTRY_IS_AGTYPE_def
  show "\<exists>s. read_bytes (unat (AGTE_OFFLENFLD e)) (container_data c 1) = Inr s \<and> v = AGTV_STRING s" if "AGTE_IS_STRING e"
    using d that by (auto simp: t bindE_def split: sum.splits)
  show "\<exists>n. read_bytes (pg_varsize env (container_data c 1)) (container_data c 1) = Inr n \<and> v = AGTV_NUMERIC n" if "AGTE_IS_NUMERIC e"
    using d that by (auto simp: t bindE_def Let_def split: sum.splits)
  show "v = AGTV_BOOL True" if "AGTE_IS_BOOL_TRUE e" using d that by (auto simp: t)
  show "v = AGTV_BOOL False" if "AGTE_IS_BOOL_FALSE e" using d that by (auto simp: t)
  show "\<exists>h. read_u32 (container_data c 1) = Inr h \<and> (h = AGT_HEADER_INTEGER \<longrightarrow> (\<exists>i. read_u64 (drop 4 (container_data c 1)) = Inr i \<and> v = AGTV_INTEGER i))"
    if "AGTE_IS_AGTYPE e"
    using d that by (auto simp: t ag_deserialize_extended_type_def bindE_def Let_def split: sum.splits if_splits)
qed

lemma raw_eq_agrees:
  assumes "cmp_laws env" "compare_agtype_containers_orderability env F l r = Inr c" "AGT_ROOT_IS_SCALAR l = Inr True" "AGT_ROOT_IS_SCALAR r = Inr True"
  shows "raw_scalar_agtype_eq env l r = Inr None \<or> raw_scalar_agtype_eq env l r = Inr (Some (c = 0))"
proof -
  obtain hl hr where h: "container_header l = Inr hl" "container_header r = Inr hr" "header_is_scalar hl" "header_is_scalar hr"
    using assms(3,4) by (auto simp: AGT_ROOT_IS_SCALAR_def bindE_def split: sum.splits)
  with assms(2) have cmp: "compare_agtype_scalar_containers env F l r = Inr c" by (simp add: compare_agtype_containers_orderability_def)
  then obtain v w where v: "fill_agtype_value_no_copy env F l 0 (container_data l 1) 0 = Inr v" and w: "fill_agtype_value_no_copy env F r 0 (container_data r 1) 0 = Inr w"
    and cv: "(if comparable_types (agtv_type v) (agtv_type w) then compare_agtype_scalar_values env v w else Inr (type_order v w)) = Inr c"
    by (auto simp: compare_agtype_scalar_containers_def bindE_def split: sum.splits)
  obtain el er where e: "container_child l 0 = Inr el" "container_child r 0 = Inr er"
    using v w by (cases F) (auto simp: no_copy_fill fill_body_def bindE_def split: sum.splits)
  note rl = first_child_read [OF v e(1)] and rr = first_child_read [OF w e(2)]
  note R = raw_scalar_agtype_eq_def h(1,2) e Let_def
  show ?thesis
  proof (cases "header_size hl = 1 \<and> header_size hr = 1")
    case False
    then show ?thesis by (simp add: R)
  next
    case sz: True
    consider (agt) "AGTE_IS_AGTYPE el \<and> AGTE_IS_AGTYPE er"
      | (bool) "\<not> (AGTE_IS_AGTYPE el \<and> AGTE_IS_AGTYPE er)" "(AGTE_IS_BOOL_TRUE el \<or> AGTE_IS_BOOL_FALSE el) \<and> (AGTE_IS_BOOL_TRUE er \<or> AGTE_IS_BOOL_FALSE er)"
      | (num) "\<not> (AGTE_IS_AGTYPE el \<and> AGTE_IS_AGTYPE er)" "\<not> ((AGTE_IS_BOOL_TRUE el \<or> AGTE_IS_BOOL_FALSE el) \<and> (AGTE_IS_BOOL_TRUE er \<or> AGTE_IS_BOOL_FALSE er))"
          "AGTE_IS_NUMERIC el \<and> AGTE_IS_NUMERIC er"
      | (rest) "\<not> (AGTE_IS_AGTYPE el \<and> AGTE_IS_AGTYPE er)" "\<not> ((AGTE_IS_BOOL_TRUE el \<or> AGTE_IS_BOOL_FALSE el) \<and> (AGTE_IS_BOOL_TRUE er \<or> AGTE_IS_BOOL_FALSE er))"
          "\<not> (AGTE_IS_NUMERIC el \<and> AGTE_IS_NUMERIC er)" by blast
    then show ?thesis
    proof cases
      case agt
      obtain x y where "read_u32 (container_data l 1) = Inr x" "x = AGT_HEADER_INTEGER \<longrightarrow> (\<exists>i. read_u64 (drop 4 (container_data l 1)) = Inr i \<and> v = AGTV_INTEGER i)"
        "read_u32 (container_data r 1) = Inr y" "y = AGT_HEADER_INTEGER \<longrightarrow> (\<exists>i. read_u64 (drop 4 (container_data r 1)) = Inr i \<and> w = AGTV_INTEGER i)"
        using rl(5) rr(5) agt by blast
      then show ?thesis using sz agt h(3,4) cv
        by (cases "x = AGT_HEADER_INTEGER \<and> y = AGT_HEADER_INTEGER")
          (auto simp: R comparable_types_def compare_agtype_scalar_values.simps compare_int64_def split: if_splits)
    next
      case bool
      then have "v = AGTV_BOOL (AGTE_IS_BOOL_TRUE el)" "w = AGTV_BOOL (AGTE_IS_BOOL_TRUE er)" using rl(3,4) rr(3,4) by auto
      then show ?thesis using sz bool h(3,4) cv by (auto simp: R comparable_types_def compare_agtype_scalar_values.simps split: if_splits)
    next
      case num
      obtain m n where "read_bytes (pg_varsize env (container_data l 1)) (container_data l 1) = Inr m" "v = AGTV_NUMERIC m"
        "read_bytes (pg_varsize env (container_data r 1)) (container_data r 1) = Inr n" "w = AGTV_NUMERIC n"
        using rl(2) rr(2) num by blast
      then show ?thesis using sz num h(3,4) cv assms(1) by (auto simp: R comparable_types_def compare_agtype_scalar_values.simps cmp_laws_def)
    next
      case rest
      show ?thesis
      proof (cases "AGTE_IS_STRING el \<and> AGTE_IS_STRING er")
        case True
        obtain m n where "read_bytes (unat (AGTE_OFFLENFLD el)) (container_data l 1) = Inr m" "v = AGTV_STRING m"
          "read_bytes (unat (AGTE_OFFLENFLD er)) (container_data r 1) = Inr n" "w = AGTV_STRING n"
          using rl(1) rr(1) True by blast
        then show ?thesis using sz rest True h(3,4) cv by (auto simp: R comparable_types_def compare_agtype_scalar_values.simps sgn_result_def split: if_splits)
      qed (use sz rest h(3,4) in \<open>auto simp: R\<close>)
    qed
  qed
qed

text \<open>C25: The six comparison operators agree with the order: whenever the comparison of two datums returns \<open>c\<close>, \<open>=\<close> and \<open><>\<close> say whether \<open>c\<close> is zero,
  whichever way they take (scalars compared in place, equal images, the comparison itself), and \<open><\<close>, \<open>>\<close>, \<open><=\<close> and \<open>>=\<close> give its sign.\<close>

theorem comparison_operators_agree:
  assumes "cmp_laws env" "image_laws im" "compare_agtype_containers_orderability env F l r = Inr c"
  shows "agtype_eq env im F l r = Inr (c = 0) \<and> agtype_ne env im F l r = Inr (c \<noteq> 0) \<and> agtype_lt env F l r = Inr (c < 0) \<and>
    agtype_gt env F l r = Inr (c > 0) \<and> agtype_le env F l r = Inr (c \<le> 0) \<and> agtype_ge env F l r = Inr (c \<ge> 0)"
proof -
  have same: "c = 0" if "same_image im l r"
  proof -
    have "l = r" using that assms(2) by (auto simp: same_image_def image_laws_def)
    with assms(3) show ?thesis by (auto intro: compare_refl [OF assms(1)])
  qed
  obtain a b where ab: "AGT_ROOT_IS_SCALAR l = Inr a" "AGT_ROOT_IS_SCALAR r = Inr b"
    using assms(3) by (auto simp: compare_agtype_containers_orderability_def AGT_ROOT_IS_SCALAR_def bindE_def split: sum.splits)
  have "agtype_eq env im F l r = Inr (c = 0)"
  proof (cases "a \<and> b")
    case True
    then have "raw_scalar_agtype_eq env l r = Inr None \<or> raw_scalar_agtype_eq env l r = Inr (Some (c = 0))"
      using raw_eq_agrees [OF assms(1,3)] ab by simp
    then show ?thesis using ab True assms(3) by (auto simp: agtype_eq_def)
  qed (use ab same assms(3) in \<open>auto simp: agtype_eq_def\<close>)
  then show ?thesis using same assms(3) by (auto simp: agtype_ne_def agtype_lt_def agtype_gt_def agtype_le_def agtype_ge_def)
qed

definition plain_images :: image_env where
  "plain_images = \<lparr>datum_image_hash = (\<lambda>_. 0), datum_image_eq = (=)\<rparr>"

definition equal_env :: pg_env where
  "equal_env = isort_env\<lparr>pg_numeric_cmp := (\<lambda>m n. if m = n then 0 else 1), pg_varstr_cmp := (\<lambda>s t. if s = t then 0 else 1)\<rparr>"

theorem comparison_operators_agree_witness:
  "agtype_eq equal_env plain_images 9 (array_image enc True [AGTV_INTEGER 3]) (array_image enc True [AGTV_INTEGER 5]) = Inr False \<and>
   agtype_lt equal_env 9 (array_image enc True [AGTV_INTEGER 3]) (array_image enc True [AGTV_INTEGER 5]) = Inr True"
proof -
  have l: "cmp_laws equal_env" "image_laws plain_images" by (simp_all add: cmp_laws_def equal_env_def isort_env_def image_laws_def plain_images_def)
  have "qsort_ok (pg_qsort_arg equal_env)" using isort_env_qsort by (simp add: equal_env_def)
  then have "compare_agtype_containers_orderability equal_env 9 (array_image enc True [AGTV_INTEGER 3]) (array_image enc True [AGTV_INTEGER 5]) =
      (if comparable_types (agtv_type (AGTV_INTEGER 3)) (agtv_type (AGTV_INTEGER 5))
       then compare_agtype_scalar_values equal_env (norm (AGTV_INTEGER 3)) (norm (AGTV_INTEGER 5)) else Inr (type_order (AGTV_INTEGER 3) (AGTV_INTEGER 5)))"
    by (intro compare_stored_scalars) (simp_all add: fits_iff INTALIGN_def need.simps)
  then have "compare_agtype_containers_orderability equal_env 9 (array_image enc True [AGTV_INTEGER 3]) (array_image enc True [AGTV_INTEGER 5]) = Inr (-1)"
    by (simp add: comparable_types_def compare_agtype_scalar_values.simps compare_int64_def)
  from comparison_operators_agree [OF l this] show ?thesis by simp
qed

end
