(* ===== verification/Agtype_Path.thy ===== *)
theory Agtype_Path
  imports Agtype_Concat
begin

text \<open>
  The path operators \<open>#>\<close> and \<open>#>>\<close> of \<open>src/backend/utils/adt/agtype_ops.c\<close>: a list of keys and indexes is followed into a stored
  value, one container after the other, without unpacking what lies beside the path.
\<close>

subsection \<open>Indexes given as text\<close>

definition is_index_space :: "byte \<Rightarrow> bool" where
  "is_index_space c \<longleftrightarrow> c = ch_space \<or> c = ch_tab \<or> c = ch_nl \<or> c = ch_cr \<or> c = ch_ff"

text \<open>The digits; \<open>None\<close> for another character, or as soon as the value is beyond the limit, before it could leave 64 bits.\<close>

fun index_digits :: "int \<Rightarrow> int \<Rightarrow> byte list \<Rightarrow> int option" where
  "index_digits limit value [] = Some value"
| "index_digits limit value (c # cs) =
     (if unat c < 48 \<or> 57 < unat c then None
      else let value' = value * 10 + (int (unat c) - 48) in if value' > limit then None else index_digits limit value' cs)"

definition parse_agtype_index_string :: "byte list \<Rightarrow> int option" where
  "parse_agtype_index_string str =
     (let s = dropWhile is_index_space str;
          negative = (s \<noteq> [] \<and> hd s = ch_minus);
          ds = (if s \<noteq> [] \<and> (hd s = ch_minus \<or> hd s = ch_plus) then tl s else s)
      in if ds = [] then None
         else map_option (\<lambda>value. if negative then - value else value) (index_digits (if negative then 2 ^ 31 else 2 ^ 31 - 1) 0 ds))"

lemma index_digits_range: "0 \<le> v \<Longrightarrow> v \<le> limit \<Longrightarrow> index_digits limit v cs = Some i \<Longrightarrow> 0 \<le> i \<and> i \<le> limit"
proof (induction limit v cs rule: index_digits.induct)
  case (2 limit v c cs)
  then have c: "\<not> (unat c < 48 \<or> 57 < unat c)" "\<not> v * 10 + (int (unat c) - 48) > limit" by (auto simp: Let_def split: if_splits)
  then have "0 \<le> v * 10 + (int (unat c) - 48)" using 2(2) by linarith
  with 2 c show ?case by (auto simp: Let_def)
qed simp

text \<open>What is parsed is a 32-bit integer, so the test of the range that follows only concerns keys that are integers.\<close>

lemma parse_index_range:
  assumes "parse_agtype_index_string str = Some i" shows "- (2 ^ 31) \<le> i \<and> i \<le> 2 ^ 31 - 1"
proof -
  obtain neg ds v where v: "index_digits (if neg then 2 ^ 31 else 2 ^ 31 - 1) 0 ds = Some v" "i = (if neg then - v else v)"
    using assms by (auto simp: parse_agtype_index_string_def Let_def split: if_splits)
  from index_digits_range [OF _ _ v(1)] v(2) show ?thesis by (cases neg) auto
qed

subsection \<open>Following a path\<close>

text \<open>The index a key stands for: \<open>None\<close> when the operator returns null.\<close>

definition path_index :: "agtype_value \<Rightarrow> int option" where
  "path_index cur_key =
     (let lindex = (case cur_key of AGTV_INTEGER i \<Rightarrow> Some (sint i) | AGTV_STRING s \<Rightarrow> parse_agtype_index_string s | _ \<Rightarrow> None)
      in case lindex of Some i \<Rightarrow> if i > 2 ^ 31 - 1 \<or> i < - (2 ^ 31) then None else Some i | None \<Rightarrow> None)"

definition path_element :: "pg_env \<Rightarrow> nat \<Rightarrow> byte list \<Rightarrow> agtype_value \<Rightarrow> agtype_value option result" where
  "path_element env F container cur_key =
     (case path_index cur_key of
        None \<Rightarrow> Inr None
      | Some lindex \<Rightarrow>
          bindE (if lindex \<ge> 0 then Inr (Some (nat lindex))
                 else bindE (container_header container) (\<lambda>h.
                   if \<not> header_is_array h then Inl (Ereport ''not an agtype array'')
                   else if - lindex > int (header_size h) then Inr None
                   else Inr (Some (nat (int (header_size h) + lindex))))) (\<lambda>index.
            case index of
              None \<Rightarrow> Inr None
            | Some i \<Rightarrow> bindE (get_ith_agtype_value_from_container_no_copy env F container i) (\<lambda>r. Inr (map_option fst r))))"

text \<open>One step: the value found, or \<open>None\<close> for null.\<close>

definition path_lookup :: "pg_env \<Rightarrow> nat \<Rightarrow> byte list \<Rightarrow> bool \<Rightarrow> bool \<Rightarrow> agtype_value \<Rightarrow> agtype_value option result" where
  "path_lookup env F container have_object have_array cur_key =
     (if have_object \<and> agtv_type cur_key = Type_STRING then find_agtype_value_from_container env F container AGT_FOBJECT cur_key
      else if have_array then path_element env F container cur_key
      else Inr None)"

text \<open>The container to go on with; a value that is not a container leaves the old one in place, and both flags say whether it is one.\<close>

definition enter_value :: "fill_fun \<Rightarrow> byte list \<Rightarrow> agtype_value \<Rightarrow> (byte list \<times> bool \<times> bool) result" where
  "enter_value fill container agtvp =
     (case agtvp of
        AGTV_BINARY _ data \<Rightarrow>
          bindE (agtype_iterator_init data) (\<lambda>it. bindE (agtype_iterator_next fill it True) (\<lambda>(r, _, _).
            Inr (data, r = WAGT_BEGIN_OBJECT, r = WAGT_BEGIN_ARRAY)))
      | _ \<Rightarrow> Inr (container, agtv_type agtvp = Type_OBJECT, agtv_type agtvp = Type_ARRAY))"

text \<open>The loop over the \<open>n\<close> keys from the \<open>i\<close>-th on.\<close>

primrec extract_loop :: "pg_env \<Rightarrow> nat \<Rightarrow> byte list \<Rightarrow> nat \<Rightarrow> nat \<Rightarrow> byte list \<Rightarrow> bool \<Rightarrow> bool \<Rightarrow> agtype_value option result" where
  "extract_loop env F path 0 i container have_object have_array = Inl BadAccess"
| "extract_loop env F path (Suc n) i container have_object have_array =
     bindE (get_ith_agtype_value_from_container_no_copy env F path i) (\<lambda>k.
       case k of
         None \<Rightarrow> Inl BadAccess
       | Some (cur_key, _) \<Rightarrow>
           bindE (path_lookup env F container have_object have_array cur_key) (\<lambda>v.
             case v of
               None \<Rightarrow> Inr None
             | Some agtvp \<Rightarrow>
                 if n = 0 then Inr (Some agtvp)
                 else bindE (enter_value (fill_agtype_value env F) container agtvp) (\<lambda>(container', o', a').
                        extract_loop env F path n (Suc i) container' o' a')))"

text \<open>The left operand: its container, or that of its properties, \<open>None\<close> for a null; and the datum that is returned for an empty path.\<close>

definition path_root :: "pg_env \<Rightarrow> nat \<Rightarrow> byte list \<Rightarrow> nat \<Rightarrow> (byte list \<times> byte list option) result" where
  "path_root env F agt npath =
     bindE (AGT_ROOT_IS_SCALAR agt) (\<lambda>sc.
       if \<not> sc then Inr (agt, Some agt)
       else bindE (container_child agt 0) (\<lambda>e.
              if \<not> AGTE_IS_AGTYPE e \<or> npath = 0
              then bindE (extract_entity_properties env F agt True) (\<lambda>p.
                     case p of None \<Rightarrow> Inl BadAccess | Some v \<Rightarrow> bindE (agtype_value_to_agtype env v) (\<lambda>d. Inr (d, Some d)))
              else bindE (get_entity_properties_container_no_copy env F agt True) (\<lambda>c. Inr (agt, c))))"

text \<open>The value found: as text a string is itself and a null is SQL's null.\<close>

definition path_result :: "pg_env \<Rightarrow> pg_num_text \<Rightarrow> nat \<Rightarrow> bool \<Rightarrow> agtype_value \<Rightarrow> byte list option result" where
  "path_result env nt F as_text agtvp =
     (case (as_text, agtvp) of
        (True, AGTV_STRING s) \<Rightarrow> Inr (Some s)
      | (True, AGTV_NULL) \<Rightarrow> Inr None
      | _ \<Rightarrow> bindE (agtype_value_to_agtype env agtvp) (\<lambda>res.
               if as_text then bindE (agtype_to_cstring env nt F [] res) (\<lambda>t. Inr (Some t)) else Inr (Some res)))"

definition get_agtype_path_all :: "pg_env \<Rightarrow> pg_num_text \<Rightarrow> nat \<Rightarrow> bool \<Rightarrow> byte list \<Rightarrow> byte list \<Rightarrow> byte list option result" where
  "get_agtype_path_all env nt F as_text agt path =
     bindE (container_header path) (\<lambda>hp.
       if header_is_scalar hp \<or> header_is_object hp then Inl (Ereport ''right operand must be an array'')
       else let npath = header_size hp
            in bindE (path_root env F agt npath) (\<lambda>(agt', c).
                 case c of
                   None \<Rightarrow> Inr None
                 | Some container \<Rightarrow>
                     bindE (container_header container) (\<lambda>h.
                       let have_object = header_is_object h; have_array = (\<not> have_object \<and> header_is_array h \<and> \<not> header_is_scalar h)
                       in if npath = 0 then
                            if have_object \<or> have_array then
                              if as_text then bindE (agtype_to_cstring env nt F [] container) (\<lambda>t. Inr (Some t)) else Inr (Some agt')
                            else bindE (get_ith_agtype_value_from_container_no_copy env F container 0) (\<lambda>v.
                                   case v of None \<Rightarrow> Inl BadAccess | Some (agtvp, _) \<Rightarrow> path_result env nt F as_text agtvp)
                          else bindE (extract_loop env F path npath 0 container have_object have_array) (\<lambda>v.
                                 case v of None \<Rightarrow> Inr None | Some agtvp \<Rightarrow> path_result env nt F as_text agtvp))))"

definition agtype_extract_path :: "pg_env \<Rightarrow> pg_num_text \<Rightarrow> nat \<Rightarrow> byte list \<Rightarrow> byte list \<Rightarrow> byte list option result" where
  "agtype_extract_path env nt F agt path = get_agtype_path_all env nt F False agt path"

definition agtype_extract_path_text :: "pg_env \<Rightarrow> pg_num_text \<Rightarrow> nat \<Rightarrow> byte list \<Rightarrow> byte list \<Rightarrow> byte list option result" where
  "agtype_extract_path_text env nt F agt path = get_agtype_path_all env nt F True agt path"

subsection \<open>Paths in values\<close>

fun path_step :: "agtype_value \<Rightarrow> agtype_value \<Rightarrow> agtype_value option" where
  "path_step (AGTV_OBJECT ps) k = (case k of AGTV_STRING s \<Rightarrow> pairs_map ps s | _ \<Rightarrow> None)"
| "path_step (AGTV_ARRAY raw es) k =
     (case path_index k of
        None \<Rightarrow> None
      | Some i \<Rightarrow> let j = (if i \<ge> 0 then i else i + int (length es)) in if 0 \<le> j \<and> j < int (length es) then Some (es ! nat j) else None)"
| "path_step v k = None"

fun path_get :: "agtype_value \<Rightarrow> agtype_value list \<Rightarrow> agtype_value option" where
  "path_get v [] = Some v"
| "path_get v (k # ks) = (case path_step v k of None \<Rightarrow> None | Some w \<Rightarrow> path_get w ks)"

lemma path_index_shallow: "path_index (shallow k rst) = path_index k"
  by (cases k) (simp_all add: path_index_def shallow_def)

lemma path_step_shallow: "path_step v (shallow k rst) = path_step v k"
  by (cases v; cases k) (simp_all add: path_index_def shallow_def)

lemma path_step_kid: "path_step v k = Some w \<Longrightarrow> w \<in> set (kids v)"
  by (cases v) (auto simp: Let_def pairs_map_value dest!: pairs_map_value split: option.splits if_splits agtype_value.splits)

subsection \<open>One step on a stored container\<close>

text \<open>The value that the loop has reached: a container with the flag of its kind, or a scalar, where no flag is set.\<close>

definition reached :: "pg_env \<Rightarrow> nat \<Rightarrow> agtype_value \<Rightarrow> byte list \<Rightarrow> bool \<Rightarrow> bool \<Rightarrow> bool" where
  "reached env F v container ho ha \<longleftrightarrow>
     (if IS_A_AGTYPE_SCALAR v then \<not> ho \<and> \<not> ha
      else source env F v \<and> (\<exists>rest. container = cimage v @ rest) \<and> ho = (agtv_type v = Type_OBJECT) \<and> ha = (agtv_type v = Type_ARRAY))"

lemma path_element_law:
  assumes q: "qsort_ok (pg_qsort_arg env)" and s: "source env F (AGTV_ARRAY raw es)"
  shows "case path_step (AGTV_ARRAY raw es) k of
      None \<Rightarrow> path_element env F (array_image enc raw es @ rest) k = Inr None
    | Some w \<Rightarrow> \<exists>rst. path_element env F (array_image enc raw es @ rest) k = Inr (Some (shallow w rst))"
proof (cases "path_index k")
  case (Some i)
  have f: "fits (length (array_image enc raw es))" using s by (simp add: source_def)
  have ch: "\<forall>w \<in> set es. wf_value env w \<and> need w \<le> F" using s need_kid [of _ "AGTV_ARRAY raw es"] by (fastforce simp: source_def)
  have "fits (length es)" by (rule fits_mono [OF f]) simp
  note hd = array_header_image(1) [of raw es rest] array_header_fields [OF this, of raw]
  let ?j = "if i \<ge> 0 then i else i + int (length es)"
  show ?thesis
  proof (cases "0 \<le> ?j")
    case True
    have e: "path_element env F (array_image enc raw es @ rest) k =
        bindE (get_ith_agtype_value_from_container_no_copy env F (array_image enc raw es @ rest) (nat ?j)) (\<lambda>r. Inr (map_option fst r))"
      using True hd by (auto simp: path_element_def Some algebra_simps)
    from get_ith_law [OF q f ch, of "nat ?j" rest] show ?thesis
      using True by (auto simp: e no_copy_agrees Some nat_less_iff split: if_splits)
  next
    case False
    then show ?thesis using hd by (auto simp: path_element_def Some)
  qed
qed (simp add: path_element_def)

lemma path_lookup_law:
  assumes q: "qsort_ok (pg_qsort_arg env)" and r: "reached env F v container ho ha"
  shows "case path_step v k of
      None \<Rightarrow> path_lookup env F container ho ha (shallow k kr) = Inr None
    | Some w \<Rightarrow> \<exists>rst. path_lookup env F container ho ha (shallow k kr) = Inr (Some (shallow w rst))"
proof (cases "IS_A_AGTYPE_SCALAR v")
  case True
  then show ?thesis using r by (cases v) (auto simp: reached_def path_lookup_def)
next
  case False
  with r obtain rest where s: "source env F v" "container = cimage v @ rest" "ho = (agtv_type v = Type_OBJECT)" "ha = (agtv_type v = Type_ARRAY)"
    by (auto simp: reached_def)
  from s(1) consider ps where "v = AGTV_OBJECT ps" | raw es where "v = AGTV_ARRAY raw es" by (cases v) (auto simp: source_def)
  then show ?thesis
  proof cases
    case (1 ps)
    show ?thesis
    proof (cases "\<exists>t. k = AGTV_STRING t")
      case True
      then obtain t where t: "k = AGTV_STRING t" by blast
      have f: "fits (length (object_image enc_pair ps))" "keys_sorted ps" using s(1) 1 by (simp_all add: source_def pairs_ok_def)
      have rd: "\<And>p. p \<in> set ps \<Longrightarrow> reads (fill_agtype_value env F) (pair_value p)"
        using source_kids [OF q s(1)] 1 by (auto simp: copies_def)
      from find_object_with [OF f rd, where rest = rest and k = t and eq = "equals_agtype_scalar_value env"] show ?thesis
        using s 1 t by (simp add: path_lookup_def find_agtype_value_from_container_def shallow_def cong: option.case_cong)
    next
      case False
      then have "agtv_type (shallow k kr) \<noteq> Type_STRING" by (cases k) (simp_all add: shallow_def)
      then show ?thesis using s 1 False by (cases k) (simp_all add: path_lookup_def)
    qed
  next
    case (2 raw es)
    from path_element_law [OF q s(1) [unfolded 2], where k = k and rest = rest] show ?thesis
      using s 2 by (simp add: path_lookup_def path_element_def path_index_shallow cong: option.case_cong)
  qed
qed

lemma enter_law:
  assumes q: "qsort_ok (pg_qsort_arg env)" and w: "IS_A_AGTYPE_SCALAR w \<or> source env F w"
  shows "\<exists>c' o' a'. enter_value fill container (shallow w rst) = Inr (c', o', a') \<and> reached env F w c' o' a'"
proof (cases "IS_A_AGTYPE_SCALAR w")
  case True
  then have "enter_value fill container (shallow w rst) = Inr (container, False, False)" by (cases w) (simp_all add: enter_value_def shallow_def)
  moreover have "reached env F w container False False" using True by (simp add: reached_def)
  ultimately show ?thesis by blast
next
  case False
  with w have s: "source env F w" by simp
  obtain it x where "agtype_iterator_init (cimage w @ rst) = Inr it" "agtype_iterator_next fill it True = Inr (first_token w, x, started w rst)"
    using source_start [OF s] by blast
  with False s show ?thesis by (cases w) (auto simp: enter_value_def shallow_def reached_def first_token_def source_def)
qed

lemma source_kid:
  assumes "source env F v" "w \<in> set (kids v)"
  shows "IS_A_AGTYPE_SCALAR w \<or> source env F w" "wf_value env w" "need w \<le> F" "fits (length (cimage w))" "fits (length (array_image enc True [w]))"
proof -
  have wf: "wf_value env w" using assms wf_value_kids [of env "unraw v" w] by (simp add: source_def)
  have n: "need w \<le> F" using need_kid [OF assms(2)] assms(1) by (simp add: source_def)
  have f: "fits (length (cimage w))" using assms elem_image_fits value_image_fits by (cases v) (auto simp: source_def)
  have u: "unraw w = w" using wf by (cases w) auto
  have p: "length (enc 0 w) \<le> length (enc q w)" for q by (cases w) (simp_all add: enc.simps [of _ "AGTV_BINARY _ _"])
  have "\<exists>q. 8 + length (enc q w) \<le> length (cimage v)"
  proof (cases v)
    case (AGTV_ARRAY raw es)
    then have "w \<in> set es" using assms(2) by simp
    from length_enc_elem [OF this, of enc 0] obtain q where "length (enc q w) \<le> length (enc_seq enc 0 es)" by blast
    moreover have "1 \<le> length es" using assms(2) AGTV_ARRAY by (cases es) auto
    ultimately show ?thesis using AGTV_ARRAY by (intro exI [of _ q]) simp
  next
    case (AGTV_OBJECT ps)
    then obtain x where x: "x \<in> set ps" "w = pair_value x" using assms(2) by auto
    from length_enc_elem [OF x(1), of enc_pair "keys_len ps"] obtain q where "length (enc q w) \<le> length (enc_seq enc_pair (keys_len ps) ps)" unfolding x(2) by blast
    moreover have "1 \<le> length ps" using x(1) by (cases ps) auto
    ultimately show ?thesis using AGTV_OBJECT by (intro exI [of _ q]) simp
  qed (use assms(1) in \<open>simp_all add: source_def\<close>)
  then obtain q where "8 + length (enc q w) \<le> length (cimage v)" by blast
  moreover have "length (array_image enc True [w]) = 8 + length (enc 0 w)" by simp
  ultimately have "length (array_image enc True [w]) \<le> length (cimage v)" using p [of q] by linarith
  then show "fits (length (array_image enc True [w]))" using fits_mono [of "length (cimage v)"] assms(1) unfolding source_def by blast
  show "IS_A_AGTYPE_SCALAR w \<or> source env F w" using wf n f u by (simp add: source_def)
  show "wf_value env w" "need w \<le> F" "fits (length (cimage w))" by (rule wf, rule n, rule f)
qed

subsection \<open>The whole path\<close>

lemma extract_loop_law:
  assumes q: "qsort_ok (pg_qsort_arg env)" and p: "source env F (AGTV_ARRAY False ks)"
  shows "n = length ks - i \<Longrightarrow> 0 < n \<Longrightarrow> reached env F v container ho ha \<Longrightarrow>
    case path_get v (drop i ks) of
      None \<Rightarrow> extract_loop env F (cimage (AGTV_ARRAY False ks)) n i container ho ha = Inr None
    | Some w \<Rightarrow> \<exists>rst. extract_loop env F (cimage (AGTV_ARRAY False ks)) n i container ho ha = Inr (Some (shallow w rst))"
proof (induction n arbitrary: i v container ho ha)
  case (Suc n)
  then have i: "i < length ks" by simp
  have f: "fits (length (array_image enc False ks))" using p by (simp add: source_def)
  have ch: "\<forall>w \<in> set ks. wf_value env w \<and> need w \<le> F" using source_kid(2,3) [OF p] by simp
  obtain kr where k: "get_ith_agtype_value_from_container_no_copy env F (cimage (AGTV_ARRAY False ks)) i = Inr (Some (shallow (ks ! i) kr, needs_free (shallow (ks ! i) kr)))"
    using get_ith_law [OF q f ch, of i "[]"] i by (auto simp: no_copy_agrees)
  have d: "drop i ks = ks ! i # drop (Suc i) ks" by (rule Cons_nth_drop_Suc [symmetric, OF i])
  note l = path_lookup_law [OF q Suc.prems(3), where k = "ks ! i" and kr = kr]
  show ?case
  proof (cases "path_step v (ks ! i)")
    case None
    with l k show ?thesis by (simp add: d del: cimage.simps)
  next
    case (Some w)
    with l obtain rst where lw: "path_lookup env F container ho ha (shallow (ks ! i) kr) = Inr (Some (shallow w rst))" by auto
    show ?thesis
    proof (cases n)
      case 0
      then have "drop (Suc i) ks = []" using Suc.prems(1) by simp
      then show ?thesis using k lw Some 0 by (auto simp: d simp del: cimage.simps)
    next
      case (Suc m)
      have "\<not> IS_A_AGTYPE_SCALAR v" using Some by (cases v) simp_all
      then have "source env F v" using Suc.prems(3) by (simp add: reached_def)
      from source_kid(1) [OF this path_step_kid [OF Some]] obtain c' o' a' where
        e: "enter_value (fill_agtype_value env F) container (shallow w rst) = Inr (c', o', a')" "reached env F w c' o' a'"
        using enter_law [OF q] by blast
      have "case path_get w (drop (Suc i) ks) of
          None \<Rightarrow> extract_loop env F (cimage (AGTV_ARRAY False ks)) n (Suc i) c' o' a' = Inr None
        | Some w \<Rightarrow> \<exists>rst. extract_loop env F (cimage (AGTV_ARRAY False ks)) n (Suc i) c' o' a' = Inr (Some (shallow w rst))"
        using Suc Suc.prems(1) e(2) by (intro Suc.IH) simp_all
      then show ?thesis using k lw e(1) Suc Some by (simp add: d del: cimage.simps cong: option.case_cong)
    qed
  qed
qed simp

text \<open>The datum of a value: its image, or what the fast path for booleans writes.\<close>

definition stored_image :: "agtype_value \<Rightarrow> byte list" where
  "stored_image v = (case v of AGTV_BOOL b \<Rightarrow> agtype_bool_to_agtype b | _ \<Rightarrow> datum v)"

definition storable :: "pg_env \<Rightarrow> nat \<Rightarrow> agtype_value \<Rightarrow> bool" where
  "storable env F v \<longleftrightarrow> source env F v \<or> IS_A_AGTYPE_SCALAR v \<and> wf_value env v \<and> fits (length (array_image enc True [v]))"

lemma path_get_storable: "storable env F v \<Longrightarrow> path_get v ks = Some w \<Longrightarrow> storable env F w"
proof (induction ks arbitrary: v)
  case (Cons k ks)
  then obtain u where u: "path_step v k = Some u" "path_get u ks = Some w" by (auto split: option.splits)
  have "\<not> IS_A_AGTYPE_SCALAR v" using u(1) by (cases v) simp_all
  then have "source env F v" using Cons.prems(1) by (simp add: storable_def)
  note c = source_kid [OF this path_step_kid [OF u(1)]]
  show ?case using c by (intro Cons.IH [OF _ u(2)]) (auto simp: storable_def simp del: length_array_image)
qed simp

lemma shallow_image:
  assumes "storable env F w"
  shows "agtype_value_to_agtype env (shallow w rst) = Inr (stored_image w)"
proof (cases "IS_A_AGTYPE_SCALAR w")
  case False
  then have "stored_image w = cimage w" by (cases w) (simp_all add: stored_image_def datum_def)
  then show ?thesis using False by (simp add: shallow_def agtype_value_to_agtype_def)
next
  case True
  then have w: "wf_value env w" "fits (length (array_image enc True [w]))" using assms by (auto simp: storable_def source_def)
  show ?thesis
  proof (cases "agtv_type w = Type_BOOL")
    case False
    have e: "array_image enc True [norm w] = array_image enc True [w]" using enc_norm [of 0 "AGTV_ARRAY True [w]"] by simp
    have "agtype_value_to_agtype env (norm w) = Inr (array_image enc True [norm w])"
      using writable_norm [OF wf_writable [OF w(1)]] True False w(2) by (intro scalar_image) (simp_all add: e del: length_array_image, (cases w; simp)+)
    then show ?thesis using True False e by (cases w) (simp_all add: shallow_def stored_image_def datum_def)
  next
    case b: True
    then show ?thesis by (cases w) (simp_all add: shallow_def stored_image_def agtype_value_to_agtype_def)
  qed
qed

lemma operand_source:
  assumes "operand env F l"
  shows "source env F (properties_of l)" "wf_value env (properties_of l)"
proof -
  have k: "properties_of l = l \<or> properties_of l \<in> set (kids l) \<or> properties_of l = AGTV_NULL" by (cases l) auto
  then have "need (properties_of l) \<le> F \<or> properties_of l = AGTV_NULL" using assms need_kid [of "properties_of l" l] by (auto simp: operand_def)
  then show "source env F (properties_of l)" using assms by (auto simp: operand_def stored_def source_def)
  show "wf_value env (properties_of l)" using k assms wf_value_kids [of env l "properties_of l"] by (auto simp: operand_def)
qed

lemma path_root_law:
  assumes q: "qsort_ok (pg_qsort_arg env)" and l: "operand env F l"
  shows "\<exists>a rest. path_root env F (datum l) n = Inr (a, Some (cimage (properties_of l) @ rest)) \<and> (n = 0 \<longrightarrow> a = cimage (properties_of l) \<and> rest = [])"
proof (cases "IS_A_AGTYPE_SCALAR l")
  case False
  from container_operand [OF l False] show ?thesis by (intro exI [of _ "cimage l"] exI [of _ "[]"]) (simp add: path_root_def del: cimage.simps)
next
  case True
  let ?p = "properties_of l"
  have v: "agtv_type l \<in> {Type_VERTEX, Type_EDGE}" "wf_value env l" "fits (length (array_image enc True [l]))" "need l \<le> F" "stored env ?p" "datum l = array_image enc True [l]"
    using l True by (simp_all add: operand_def datum_def)
  obtain e where e: "container_child (datum l) 0 = Inr e" "AGTE_IS_AGTYPE e" using scalar_entry [OF v(3,1), of "[]"] v(6) by auto
  note sc = scalar_operand(1) [OF q l True]
  have np: "wf_value env ?p" "\<not> IS_A_AGTYPE_SCALAR ?p" "fits (length (cimage ?p))"
    using v(1,2,5) by (cases l; auto simp: stored_def split: if_splits)+
  have nn: "norm ?p \<noteq> AGTV_NULL" using np(2) by (cases ?p) simp_all
  have x: "extract_entity_properties env F (datum l) True = Inr (Some (norm ?p))"
    using get_ith_raw_scalar [OF q v(2) True v(3,4), of "[]"] sc entity_properties_norm [OF v(5,1)] nn by (simp add: extract_entity_properties_def v(6))
  show ?thesis
  proof (cases "n = 0")
    case True
    with x sc e stored_norm [OF np] show ?thesis by (intro exI [of _ "cimage ?p"] exI [of _ "[]"]) (simp add: path_root_def del: cimage.simps)
  next
    case False
    obtain rest where "get_entity_properties_container_no_copy env F (datum l) True = Inr (Some (cimage ?p @ rest))" using operand_container [OF q l] by blast
    with sc e False show ?thesis by (intro exI [of _ "datum l"] exI [of _ rest]) (simp add: path_root_def del: cimage.simps)
  qed
qed

definition as_text_of :: "pg_env \<Rightarrow> pg_num_text \<Rightarrow> nat \<Rightarrow> agtype_value \<Rightarrow> byte list option result" where
  "as_text_of env nt F v =
     (case v of
        AGTV_STRING s \<Rightarrow> Inr (Some s)
      | AGTV_NULL \<Rightarrow> Inr None
      | _ \<Rightarrow> bindE (agtype_to_cstring env nt F [] (stored_image v)) (\<lambda>t. Inr (Some t)))"

lemma path_result_law:
  assumes "storable env F w"
  shows "path_result env nt F False (shallow w rst) = Inr (Some (stored_image w))" "path_result env nt F True (shallow w rst) = as_text_of env nt F w"
proof -
  note i = shallow_image [OF assms, of rst]
  show "path_result env nt F False (shallow w rst) = Inr (Some (stored_image w))"
    using i by (simp add: path_result_def)
  consider t where "w = AGTV_STRING t" | "w = AGTV_NULL" | "agtv_type w \<notin> {Type_STRING, Type_NULL}" by (cases w) simp_all
  then show "path_result env nt F True (shallow w rst) = as_text_of env nt F w"
  proof cases
    case 3
    then have "agtv_type (shallow w rst) \<notin> {Type_STRING, Type_NULL}" by (cases w) (simp_all add: shallow_def)
    then have "path_result env nt F True (shallow w rst) = bindE (agtype_value_to_agtype env (shallow w rst)) (\<lambda>res. bindE (agtype_to_cstring env nt F [] res) (\<lambda>t. Inr (Some t)))"
      by (cases "shallow w rst") (simp_all add: path_result_def)
    then show ?thesis using i 3 by (cases w) (simp_all add: as_text_of_def)
  qed (simp_all add: path_result_def shallow_def as_text_of_def)
qed

lemma path_all_law:
  assumes q: "qsort_ok (pg_qsort_arg env)" and l: "operand env F l" and p: "source env F (AGTV_ARRAY False ks)"
  shows "get_agtype_path_all env nt F as_text (datum l) (cimage (AGTV_ARRAY False ks)) =
    (case path_get (properties_of l) ks of
       None \<Rightarrow> Inr None
     | Some w \<Rightarrow> if as_text then as_text_of env nt F w else Inr (Some (stored_image w)))"
proof -
  let ?v = "properties_of l" and ?path = "cimage (AGTV_ARRAY False ks)"
  obtain hp where hp: "container_header ?path = Inr hp" "\<not> header_is_object hp" "\<not> header_is_scalar hp" "header_size hp = length ks"
    using concat_headers [OF p, of "[]"] by (auto simp: raw_scalar_def)
  have s: "source env F ?v" by (rule operand_source(1) [OF l])
  then have st: "storable env F ?v" by (simp add: storable_def)
  obtain a rest where r: "path_root env F (datum l) (length ks) = Inr (a, Some (cimage ?v @ rest))" "length ks = 0 \<longrightarrow> a = cimage ?v \<and> rest = []"
    using path_root_law [OF q l] by blast
  have nr: "\<not> raw_scalar ?v" using operand_source(2) [OF l] by (cases ?v) (simp_all add: raw_scalar_def)
  obtain h where h: "container_header (cimage ?v @ rest) = Inr h" "header_is_object h \<longleftrightarrow> agtv_type ?v = Type_OBJECT" "\<not> header_is_scalar h"
    using concat_headers [OF s, of rest] nr by auto
  let ?ha = "\<not> header_is_object h \<and> header_is_array h \<and> \<not> header_is_scalar h"
  have arr: "?ha \<longleftrightarrow> agtv_type ?v = Type_ARRAY"
  proof (cases ?v)
    case (AGTV_ARRAY raw es)
    with root_array(2) [of raw es rest] s h show ?thesis by (simp add: AGT_ROOT_IS_ARRAY_def source_def)
  qed (use s h in \<open>simp_all add: source_def\<close>)
  have ct: "\<not> IS_A_AGTYPE_SCALAR ?v" using s by (simp add: source_def)
  then have re: "reached env F ?v (cimage ?v @ rest) (header_is_object h) ?ha" using s h(2) arr by (auto simp: reached_def)
  have kind: "header_is_object h \<or> ?ha" using ct s h(2) arr by (cases ?v) (simp_all add: source_def)
  show ?thesis
  proof (cases "ks = []")
    case True
    have si: "stored_image ?v = cimage ?v" using ct by (cases ?v) (simp_all add: stored_image_def datum_def)
    have "as_text_of env nt F ?v = bindE (agtype_to_cstring env nt F [] (stored_image ?v)) (\<lambda>t. Inr (Some t))" using ct by (cases ?v) (simp_all add: as_text_of_def)
    then show ?thesis using True hp r h(1) kind si by (simp add: get_agtype_path_all_def Let_def del: cimage.simps)
  next
    case False
    have n: "0 < length ks" using False by simp
    have g: "get_agtype_path_all env nt F as_text (datum l) ?path = bindE (extract_loop env F ?path (length ks) 0 (cimage ?v @ rest) (header_is_object h) ?ha) (\<lambda>v.
        case v of None \<Rightarrow> Inr None | Some agtvp \<Rightarrow> path_result env nt F as_text agtvp)"
      using False hp r(1) h(1) by (simp add: get_agtype_path_all_def Let_def del: cimage.simps)
    note lp = extract_loop_law [OF q p, where i = 0, OF _ n re, simplified]
    show ?thesis
    proof (cases "path_get ?v ks")
      case None
      with lp g show ?thesis by (simp del: cimage.simps)
    next
      case (Some w)
      with lp obtain rst where "extract_loop env F ?path (length ks) 0 (cimage ?v @ rest) (header_is_object h) ?ha = Inr (Some (shallow w rst))" by (auto simp del: cimage.simps)
      with g Some path_result_law [OF path_get_storable [OF st Some], of nt rst] show ?thesis by (cases as_text) (simp_all del: cimage.simps)
    qed
  qed
qed


definition sample_nested :: agtype_value where
  "sample_nested = AGTV_OBJECT [([97], AGTV_ARRAY False [AGTV_INTEGER 7, AGTV_STRING [120]], 0)]"


end
