(* ===== verification/Agtype_Raw.thy ===== *)
theory Agtype_Raw
  imports Agtype_Concat
begin

text \<open>
  The builder that writes agtype without going through \<open>agtype_value\<close>
  (\<open>src/backend/utils/adt/agtype_raw.c\<close>): the build state, its writers, and the one client that copies whole
  payloads, \<open>agtype_build_list\<close> with its argument conversion (\<open>src/backend/utils/adt/agtype.c\<close>). Every writer appends
  one child to a container under construction (\<open>put_child\<close>); the list built from stored scalars is the list that
  the generic path would store, as long as every numeric lands on an aligned offset.
\<close>

subsection \<open>The build state\<close>

record agtype_build_state =
  a_offset :: nat
  bs_i :: nat
  d_start :: nat
  bs_buffer :: "byte list"

text \<open>An \<open>agtype *\<close>: the \<open>VARSIZE\<close> of its header (which counts the four bytes of the header), and the memory from
  \<open>&agtype->root\<close> on, what follows the datum included.\<close>

record agtype_ptr =
  varsize :: nat
  root_mem :: "byte list"

definition write_pointer :: "agtype_build_state \<Rightarrow> byte list \<Rightarrow> nat \<Rightarrow> (agtype_build_state \<times> nat) result" where
  "write_pointer bstate ptr len =
     bindE (read_bytes len ptr) (\<lambda>content.
       let (buffer, offset) = reserve_from_buffer (bs_buffer bstate) len
       in bindE (copy_to_buffer buffer offset content) (\<lambda>buffer'. Inr (bstate\<lparr>bs_buffer := buffer'\<rparr>, len)))"

text \<open>\<open>write_const\<close>; the constant is given by its bytes.\<close>

definition write_const :: "agtype_build_state \<Rightarrow> byte list \<Rightarrow> agtype_build_state result" where
  "write_const bstate val =
     (let (buffer, offset) = reserve_from_buffer (bs_buffer bstate) (length val)
      in bindE (copy_to_buffer buffer offset val) (\<lambda>buffer'. Inr (bstate\<lparr>bs_buffer := buffer'\<rparr>)))"

definition write_pad :: "agtype_build_state \<Rightarrow> agtype_build_state \<times> nat" where
  "write_pad bstate =
     (let (buffer, padlen) = pad_buffer_to_int (bs_buffer bstate) in (bstate\<lparr>bs_buffer := buffer\<rparr>, padlen))"

definition write_agtentry :: "agtype_build_state \<Rightarrow> agtentry \<Rightarrow> agtype_build_state result" where
  "write_agtentry bstate agte =
     (let totallen = length (bs_buffer bstate) - d_start bstate
      in if totallen > unat AGTENTRY_OFFLENMASK then Inl (Ereport array_msg)
         else let agte' = (if bs_i bstate mod AGT_OFFSET_STRIDE = 0
                           then (agte AND AGTENTRY_TYPEMASK) OR of_nat totallen OR AGTENTRY_HAS_OFF
                           else agte)
              in bindE (copy_to_buffer (bs_buffer bstate) (a_offset bstate) (put_u32 agte')) (\<lambda>buffer.
                   Inr (bstate\<lparr>bs_buffer := buffer, a_offset := a_offset bstate + 4\<rparr>)))"

text \<open>\<open>bstate->i++\<close>, the last step of every writer.\<close>

definition next_index :: "agtype_build_state \<Rightarrow> agtype_build_state" where
  "next_index bstate = bstate\<lparr>bs_i := bs_i bstate + 1\<rparr>"

definition init_agtype_build_state :: "nat \<Rightarrow> uint32 \<Rightarrow> agtype_build_state result" where
  "init_agtype_build_state n header_flag =
     (let (buffer1, _) = reserve_from_buffer [] 4;
          (buffer2, offset) = reserve_from_buffer buffer1 4
      in bindE (copy_to_buffer buffer2 offset (put_u32 (header_flag OR of_nat n))) (\<lambda>buffer3.
           let build = (\<lambda>agtentry_count.
             \<lparr>a_offset = 8, bs_i = 0, d_start = 8 + 4 * agtentry_count,
              bs_buffer = fst (reserve_from_buffer buffer3 (4 * agtentry_count))\<rparr>)
           in if header_flag AND AGT_FOBJECT \<noteq> 0 then Inr (build (n * 2))
              else if header_flag AND AGT_FARRAY \<noteq> 0 then Inr (build n)
              else Inl (Ereport ''Invalid container type.'')))"

text \<open>The datum built; \<open>after\<close> is the memory behind its buffer.\<close>

definition build_agtype :: "agtype_build_state \<Rightarrow> byte list \<Rightarrow> agtype_ptr" where
  "build_agtype bstate after = \<lparr>varsize = length (bs_buffer bstate), root_mem = drop 4 (bs_buffer bstate) @ after\<rparr>"

subsection \<open>The writers\<close>

text \<open>A C string is the list of its bytes before the terminator.\<close>

definition write_string :: "agtype_build_state \<Rightarrow> byte list \<Rightarrow> agtype_build_state result" where
  "write_string bstate str =
     bindE (write_pointer bstate str (length str)) (\<lambda>(bs1, _).
     bindE (write_agtentry bs1 (AGTENTRY_IS_STRING OR of_nat (length str))) (\<lambda>bs2. Inr (next_index bs2)))"

definition write_graphid :: "agtype_build_state \<Rightarrow> graphid \<Rightarrow> agtype_build_state result" where
  "write_graphid bstate gid =
     (let (bs1, padlen) = write_pad bstate
      in bindE (write_const bs1 (put_u32 AGT_HEADER_INTEGER)) (\<lambda>bs2.
         bindE (write_const bs2 (put_u64 gid)) (\<lambda>bs3.
         bindE (write_agtentry bs3 (AGTENTRY_IS_AGTYPE OR of_nat (padlen + 4 + 8))) (\<lambda>bs4. Inr (next_index bs4)))))"

definition write_container :: "agtype_build_state \<Rightarrow> agtype_ptr \<Rightarrow> agtype_build_state result" where
  "write_container bstate agt =
     (let (bs1, padlen) = write_pad bstate
      in bindE (write_pointer bs1 (root_mem agt) (varsize agt)) (\<lambda>(bs2, len).
         bindE (write_agtentry bs2 (AGTENTRY_IS_CONTAINER OR of_nat (padlen + len))) (\<lambda>bs3. Inr (next_index bs3))))"

definition write_extended :: "agtype_build_state \<Rightarrow> agtype_ptr \<Rightarrow> uint32 \<Rightarrow> agtype_build_state result" where
  "write_extended bstate val header =
     (let (bs1, padlen) = write_pad bstate
      in bindE (write_const bs1 (put_u32 header)) (\<lambda>bs2.
         bindE (write_pointer bs2 (root_mem val) (varsize val)) (\<lambda>(bs3, len).
         bindE (write_agtentry bs3 (AGTENTRY_IS_AGTYPE OR of_nat (padlen + 4 + len))) (\<lambda>bs4. Inr (next_index bs4)))))"

definition write_agtype_scalar_payload :: "agtype_build_state \<Rightarrow> agtype_ptr \<Rightarrow> agtype_build_state result" where
  "write_agtype_scalar_payload bstate val =
     bindE (AGT_ROOT_IS_SCALAR (root_mem val)) (\<lambda>scalar.
     bindE (AGT_ROOT_COUNT (root_mem val)) (\<lambda>count.
       if \<not> scalar \<or> count \<noteq> 1 then Inl (Ereport ''expected scalar agtype payload'')
       else bindE (get_agtype_offset (root_mem val) 0) (\<lambda>offset.
            bindE (container_child (root_mem val) 0) (\<lambda>child.
              let (bs1, padlen) = (if AGTE_IS_AGTYPE child then write_pad bstate else (bstate, 0))
              in bindE (get_agtype_length (root_mem val) 0) (\<lambda>len.
                 bindE (write_pointer bs1 (drop (unat offset) (container_data (root_mem val) 1)) (unat len)) (\<lambda>(bs2, n).
                 bindE (write_agtentry bs2 ((child AND AGTENTRY_TYPEMASK) OR of_nat (padlen + n))) (\<lambda>bs3.
                   Inr (next_index bs3))))))))"

subsection \<open>Lists\<close>

text \<open>The calls \<open>add_agtype(val, is_null, result, AGTYPEOID, false)\<close> inside an open array, which are calls of \<open>datum_to_agtype\<close>: a null is pushed as such, a
  scalar is read from the array of one element around it, and a container is pushed token by token.\<close>

definition datum_to_agtype ::
    "pg_env \<Rightarrow> nat \<Rightarrow> agtype_ptr option \<Rightarrow> agtype_parse_state list \<Rightarrow> agtype_parse_state list result" where
  "datum_to_agtype env F arg state =
     (let fill = fill_agtype_value env F;
          push_elem = (\<lambda>agtv. bindE (push_agtype_value env fill F state WAGT_ELEM (Some agtv)) (\<lambda>(_, state'). Inr state'))
      in case arg of
           None \<Rightarrow> push_elem AGTV_NULL
         | Some val \<Rightarrow>
             bindE (agtype_iterator_init (root_mem val)) (\<lambda>it.
             bindE (AGT_ROOT_IS_SCALAR (root_mem val)) (\<lambda>scalar.
               if scalar then
                 bindE (agtype_iterator_next fill it True) (\<lambda>(_, _, it1).
                 bindE (agtype_iterator_next fill it1 True) (\<lambda>(_, agtv, _). push_elem agtv))
               else
                 bindE (drain (\<lambda>its. agtype_iterator_next fill its False) (push_agtype_value env fill F) F it state None)
                   (\<lambda>(_, state'). Inr state'))))"

definition add_agtype ::
    "pg_env \<Rightarrow> nat \<Rightarrow> agtype_ptr option \<Rightarrow> agtype_parse_state list \<Rightarrow> agtype_parse_state list result" where
  "add_agtype env F arg state = datum_to_agtype env F arg state"

primrec add_agtypes ::
    "pg_env \<Rightarrow> nat \<Rightarrow> agtype_ptr option list \<Rightarrow> agtype_parse_state list \<Rightarrow> agtype_parse_state list result" where
  "add_agtypes env F [] state = Inr state"
| "add_agtypes env F (a # args) state = bindE (add_agtype env F a state) (\<lambda>state'. add_agtypes env F args state')"

text \<open>The test on the arguments: the loop leaves before the end at the first one that is null or not a scalar.\<close>

primrec all_scalar_args :: "agtype_ptr option list \<Rightarrow> bool result" where
  "all_scalar_args [] = Inr True"
| "all_scalar_args (a # args) =
     (case a of
        None \<Rightarrow> Inr False
      | Some agt \<Rightarrow>
          bindE (AGT_ROOT_IS_SCALAR (root_mem agt)) (\<lambda>scalar.
          bindE (AGT_ROOT_COUNT (root_mem agt)) (\<lambda>count.
            if \<not> scalar \<or> count \<noteq> 1 then Inr False else all_scalar_args args)))"

primrec write_payloads :: "agtype_build_state \<Rightarrow> agtype_ptr list \<Rightarrow> agtype_build_state result" where
  "write_payloads bstate [] = Inr bstate"
| "write_payloads bstate (a # args) = bindE (write_agtype_scalar_payload bstate a) (\<lambda>bs1. write_payloads bs1 args)"

text \<open>\<open>agtype_build_list\<close> on arguments of type agtype; no arguments (a null variadic array) give null. The result is the
  datum after its varlena header.\<close>

definition agtype_build_list :: "pg_env \<Rightarrow> nat \<Rightarrow> agtype_ptr option list option \<Rightarrow> byte list option result" where
  "agtype_build_list env F args =
     (case args of
        None \<Rightarrow> Inr None
      | Some as \<Rightarrow>
          bindE (all_scalar_args as) (\<lambda>fast.
            if fast then
              bindE (init_agtype_build_state (length as) AGT_FARRAY) (\<lambda>bs0.
              bindE (write_payloads bs0 (map the as)) (\<lambda>bs1. Inr (Some (root_mem (build_agtype bs1 [])))))
            else
              bindE (push_token env F [] WAGT_BEGIN_ARRAY) (\<lambda>s1.
              bindE (add_agtypes env F as s1) (\<lambda>s2.
              bindE (push_agtype_value env (fill_agtype_value env F) F s2 WAGT_END_ARRAY None) (\<lambda>(res, _).
                case res of None \<Rightarrow> Inl BadAccess
                | Some v \<Rightarrow> bindE (agtype_value_to_agtype env v) (\<lambda>d. Inr (Some d)))))))"

text \<open>The list without arguments.\<close>

definition build_empty_agtype_array :: "pg_env \<Rightarrow> byte list result" where
  "build_empty_agtype_array env =
     bindE (push_agtype_value_scalar env [] WAGT_BEGIN_ARRAY None) (\<lambda>(_, s1).
     bindE (push_agtype_value_scalar env s1 WAGT_END_ARRAY None) (\<lambda>(res, _).
       case res of None \<Rightarrow> Inl BadAccess | Some v \<Rightarrow> agtype_value_to_agtype env v))"

definition agtype_build_list_noargs :: "pg_env \<Rightarrow> byte list result" where
  "agtype_build_list_noargs env = build_empty_agtype_array env"

subsection \<open>A container under construction\<close>

text \<open>The state that has written the children with entries \<open>ms\<close> and data \<open>data\<close>, of \<open>n\<close> entries in all.\<close>

definition state_of :: "uint32 \<Rightarrow> nat \<Rightarrow> (uint32 \<times> nat) list \<Rightarrow> byte list \<Rightarrow> agtype_build_state" where
  "state_of hdr n ms data =
     \<lparr>a_offset = 8 + 4 * length ms, bs_i = length ms, d_start = 8 + 4 * n,
      bs_buffer = replicate 4 0 @ put_u32 hdr @ concat (map put_u32 (mk_entries 0 0 ms)) @ replicate (4 * (n - length ms)) 0 @ data\<rparr>"

text \<open>What every writer does: one more child, or the error of a container that has grown too large.\<close>

definition put_child :: "uint32 \<Rightarrow> nat \<Rightarrow> (uint32 \<times> nat) list \<Rightarrow> byte list \<Rightarrow> uint32 \<Rightarrow> byte list \<Rightarrow> agtype_build_state result" where
  "put_child hdr n ms data t img =
     (if fits (length (data @ img)) then Inr (state_of hdr n (ms @ [(t, length img)]) (data @ img)) else Inl (Ereport array_msg))"

definition ready :: "nat \<Rightarrow> (uint32 \<times> nat) list \<Rightarrow> byte list \<Rightarrow> bool" where
  "ready n ms data \<longleftrightarrow> start_of ms (length ms) = length data \<and> length ms < n"

lemma init_array_state: "init_agtype_build_state n AGT_FARRAY = Inr (state_of (array_header False n) n [] [])"
  using copy_reserved [of "put_u32 (AGT_FARRAY OR of_nat n)" 4 "replicate 4 0"]
  by (simp add: init_agtype_build_state_def reserve_from_buffer_def state_of_def array_header_def or.commute agt_flags)

lemma init_object_state: "init_agtype_build_state n AGT_FOBJECT = Inr (state_of (of_nat n OR AGT_FOBJECT) (2 * n) [] [])"
  using copy_reserved [of "put_u32 (AGT_FOBJECT OR of_nat n)" 4 "replicate 4 0"]
  by (simp add: init_agtype_build_state_def reserve_from_buffer_def state_of_def or.commute agt_flags mult.commute)

lemma length_state: "length ms \<le> n \<Longrightarrow> length (bs_buffer (state_of hdr n ms data)) = 8 + 4 * n + length data"
  by (simp add: state_of_def)

lemma aligned_state: "length ms \<le> n \<Longrightarrow> length (bs_buffer (state_of hdr n ms data)) mod 4 = length data mod 4"
proof -
  have "8 + 4 * n + length data = length data + 4 * (2 + n)" by simp
  then show "length ms \<le> n \<Longrightarrow> ?thesis" by (simp only: length_state mod_mult_self2)
qed

lemma state_fields:
  "a_offset (state_of hdr n ms data) = 8 + 4 * length ms" "bs_i (state_of hdr n ms data) = length ms"
  "d_start (state_of hdr n ms data) = 8 + 4 * n"
  by (simp_all add: state_of_def)

text \<open>More data, its entry not yet written.\<close>

abbreviation extended :: "agtype_build_state \<Rightarrow> byte list \<Rightarrow> agtype_build_state" where
  "extended bs img \<equiv> bs\<lparr>bs_buffer := bs_buffer bs @ img\<rparr>"

lemma write_pointer_eq:
  "write_pointer bs ptr n = (if n \<le> length ptr then Inr (extended bs (take n ptr), n) else Inl BadAccess)"
  using copy_reserved [of "take n ptr" n "bs_buffer bs"] by (simp add: write_pointer_def read_bytes_def reserve_from_buffer_def)

lemma write_const_eq: "write_const bs val = Inr (extended bs val)"
  using copy_reserved [of val "length val" "bs_buffer bs"] by (simp add: write_const_def reserve_from_buffer_def)

lemma write_pad_eq:
  "length ms \<le> n \<Longrightarrow> write_pad (state_of hdr n ms data) =
     (extended (state_of hdr n ms data) (padding (length data)), INTALIGN (length data) - length data)"
  using pad_buffer [OF aligned_state] by (simp add: write_pad_def)

lemma write_entry:
  assumes "ready n ms data" "entry_type_bits t"
  shows "bindE (write_agtentry (extended (state_of hdr n ms data) img) (t OR of_nat (length img))) (\<lambda>bs. Inr (next_index bs)) =
    put_child hdr n ms data t img"
proof -
  have n: "length ms < n" "start_of ms (length ms) = length data" using assms(1) by (simp_all add: ready_def)
  let ?tot = "length (data @ img)" let ?e = "concat (map put_u32 (mk_entries 0 0 ms))"
  have tot: "length (bs_buffer (extended (state_of hdr n ms data) img)) - (8 + 4 * n) = ?tot" using length_state [of ms n hdr data] n by simp
  show ?thesis
  proof (cases "fits ?tot")
    case True
    define m where "m = (if length ms mod AGT_OFFSET_STRIDE = 0 then t OR of_nat ?tot OR AGTENTRY_HAS_OFF else t OR of_nat (length img))"
    have "fits (length img)" by (rule fits_mono [OF True]) simp
    then have mt: "(t OR of_nat (length img)) AND AGTENTRY_TYPEMASK = t"
      using plain_entry_fields(2) [OF assms(2)] by (simp add: AGTE_TYPE_def)
    have me: "mk_entries 0 0 (ms @ [(t, length img)]) = mk_entries 0 0 ms @ [m]" using n by (simp add: mk_entries_append m_def)
    have h: "replicate (4 * (n - length ms)) (0 :: byte) = replicate 4 0 @ replicate (4 * (n - Suc (length ms))) 0"
      using n(1) by (simp add: replicate_add [symmetric])
    have "copy_to_buffer (replicate 4 0 @ put_u32 hdr @ ?e @ replicate (4 * (n - length ms)) 0 @ data @ img) (8 + 4 * length ms) (put_u32 m) =
        Inr (replicate 4 0 @ put_u32 hdr @ (?e @ put_u32 m) @ replicate (4 * (n - Suc (length ms))) 0 @ data @ img)"
      using copy_to_buffer_mid [of "replicate 4 0 @ put_u32 hdr @ ?e" "8 + 4 * length ms" "replicate 4 0" "put_u32 m"
          "replicate (4 * (n - Suc (length ms))) 0 @ data @ img"] by (simp only: h) simp
    moreover have up: "state_of hdr n ms data\<lparr>bs_buffer := b, a_offset := 12 + 4 * length ms, bs_i := Suc (length ms)\<rparr> =
        state_of hdr n (ms @ [(t, length img)]) (data @ img)\<lparr>bs_buffer := b\<rparr>" for b by (simp add: state_of_def)
    ultimately have c: "copy_to_buffer (bs_buffer (state_of hdr n ms data) @ img) (8 + 4 * length ms) (put_u32 m) =
        Inr (bs_buffer (state_of hdr n (ms @ [(t, length img)]) (data @ img)))"
      by (simp add: state_of_def me)
    have "bindE (write_agtentry (extended (state_of hdr n ms data) img) (t OR of_nat (length img))) (\<lambda>bs. Inr (next_index bs)) =
        bindE (copy_to_buffer (bs_buffer (state_of hdr n ms data) @ img) (8 + 4 * length ms) (put_u32 m)) (\<lambda>buffer.
          Inr (state_of hdr n (ms @ [(t, length img)]) (data @ img)\<lparr>bs_buffer := buffer\<rparr>))"
      unfolding write_agtentry_def using True tot mt
      by (simp add: state_fields fits_def m_def next_index_def Let_def bindE_assoc up del: of_nat_add length_append)
    then have "bindE (write_agtentry (extended (state_of hdr n ms data) img) (t OR of_nat (length img))) (\<lambda>bs. Inr (next_index bs)) =
        Inr (state_of hdr n (ms @ [(t, length img)]) (data @ img))" by (simp add: c)
    then show ?thesis using True by (simp add: put_child_def)
  next
    case False
    with tot show ?thesis by (simp add: write_agtentry_def state_of_def fits_def put_child_def Let_def)
  qed
qed

lemma build_done:
  "length ms = n \<Longrightarrow> build_agtype (state_of hdr n ms data) after =
     \<lparr>varsize = 4 + length (cont_bytes hdr ms data), root_mem = cont_bytes hdr ms data @ after\<rparr>"
  by (simp add: build_agtype_def state_of_def cont_bytes_def)

subsection \<open>The writers append one child\<close>

lemma write_string_child:
  "ready n ms data \<Longrightarrow> write_string (state_of hdr n ms data) s = put_child hdr n ms data AGTENTRY_IS_STRING s"
  using write_entry [of n ms data AGTENTRY_IS_STRING hdr s] by (simp add: write_string_def write_pointer_eq)

lemma write_graphid_child:
  assumes "ready n ms data"
  shows "write_graphid (state_of hdr n ms data) g =
    put_child hdr n ms data AGTENTRY_IS_AGTYPE (enc (length data) (AGTV_INTEGER g))"
  using write_entry [OF assms, of AGTENTRY_IS_AGTYPE hdr "enc (length data) (AGTV_INTEGER g)"] assms
  by (simp add: write_graphid_def write_pad_eq ready_def write_const_eq Let_def add.commute)

lemma write_container_child:
  assumes "ready n ms data"
  shows "write_container (state_of hdr n ms data) p =
    (if varsize p \<le> length (root_mem p)
     then put_child hdr n ms data AGTENTRY_IS_CONTAINER (padding (length data) @ take (varsize p) (root_mem p))
     else Inl BadAccess)"
  using write_entry [OF assms, of AGTENTRY_IS_CONTAINER hdr "padding (length data) @ take (varsize p) (root_mem p)"] assms
  by (cases "varsize p \<le> length (root_mem p)")
     (simp_all add: write_container_def write_pad_eq ready_def write_pointer_eq min_absorb2)

lemma write_extended_child:
  assumes "ready n ms data"
  shows "write_extended (state_of hdr n ms data) p h =
    (if varsize p \<le> length (root_mem p)
     then put_child hdr n ms data AGTENTRY_IS_AGTYPE (padding (length data) @ put_u32 h @ take (varsize p) (root_mem p))
     else Inl BadAccess)"
  using write_entry [OF assms, of AGTENTRY_IS_AGTYPE hdr "padding (length data) @ put_u32 h @ take (varsize p) (root_mem p)"] assms
  by (cases "varsize p \<le> length (root_mem p)")
     (simp_all add: write_extended_def write_pad_eq ready_def write_pointer_eq write_const_eq min_absorb2 add.assoc)

subsection \<open>Payloads of stored scalars\<close>

text \<open>The datum stored for a value: booleans have a fast path of their own.\<close>

fun stored_datum :: "agtype_value \<Rightarrow> byte list" where
  "stored_datum (AGTV_BOOL b) = agtype_bool_to_agtype b"
| "stored_datum v = datum v"

lemma stored_datum_written:
  assumes "wf_value env v" "fits (length (datum v))"
  shows "agtype_value_to_agtype env v = Inr (stored_datum v)"
proof (cases "IS_A_AGTYPE_SCALAR v")
  case True
  then show ?thesis using scalar_image [OF wf_writable [OF assms(1)] True] assms(2)
    by (cases v) (simp_all add: agtype_value_to_agtype_def datum_def)
next
  case False
  then have "enc 0 v = cimage v" using assms(1) by (cases v) simp_all
  with False show ?thesis using convert_to_agtype_enc [OF wf_writable [OF assms(1)]] assms
    by (cases v) (simp_all add: agtype_value_to_agtype_def datum_def)
qed

lemma stored_scalar_datum: "IS_A_AGTYPE_SCALAR v \<Longrightarrow> agtv_type v \<noteq> Type_BOOL \<Longrightarrow> stored_datum v = array_image enc True [v]"
  by (cases v) (simp_all add: datum_def)

lemma stored_scalar_reads:
  assumes "IS_A_AGTYPE_SCALAR v" "fits (length (array_image enc True [v]))"
  shows "AGT_ROOT_IS_SCALAR (stored_datum v @ rest) = Inr True \<and> AGT_ROOT_COUNT (stored_datum v @ rest) = Inr 1 \<and>
    get_agtype_offset (stored_datum v @ rest) 0 = Inr 0 \<and>
    get_agtype_length (stored_datum v @ rest) 0 = Inr (of_nat (length (enc 0 v))) \<and>
    container_data (stored_datum v @ rest) 1 = enc 0 v @ rest \<and>
    (\<exists>e. container_child (stored_datum v @ rest) 0 = Inr e \<and> AGTE_TYPE e = ty v)"
proof (cases "agtv_type v = Type_BOOL")
  case True
  then obtain b where "v = AGTV_BOOL b" by (cases v) simp_all
  then show ?thesis
    by (cases b) (simp_all add: agtype_bool_to_agtype_def AGT_ROOT_IS_SCALAR_def AGT_ROOT_COUNT_def container_header_def raw_header_def
        header_is_scalar_def header_size_def get_agtype_offset_def get_agtype_length_def container_child_def container_data_def agt_flags
        AGTE_HAS_OFF_def AGTE_OFFLENFLD_def AGTE_TYPE_def agtentry_consts)
next
  case False
  obtain rst where h: "holds_child (array_image enc True [v] @ rest) 0 (enc_seq enc 0 [v] @ rest) (elem_off [v] 0) ([v] ! 0) rst"
    using array_child [OF assms(2), of 0 rest] by auto
  show ?thesis
    unfolding stored_scalar_datum [OF assms(1) False]
    using root_array(3,4) [OF assms(2), of rest] h array_header_image(2) [of True "[v]" rest] by (auto simp: holds_child_def)
qed

text \<open>The image of a copied payload: the extended types are aligned, a numeric is not.\<close>

definition raw_enc :: "nat \<Rightarrow> agtype_value \<Rightarrow> byte list" where
  "raw_enc p v = (if ty v = AGTENTRY_IS_AGTYPE then padding p else []) @ enc 0 v"

lemma write_payload_child:
  assumes "ready n ms data" "IS_A_AGTYPE_SCALAR v" "fits (length (array_image enc True [v]))" "root_mem p = stored_datum v @ rest"
  shows "write_agtype_scalar_payload (state_of hdr n ms data) p = put_child hdr n ms data (ty v) (raw_enc (length data) v)"
proof -
  note r = stored_scalar_reads [OF assms(2,3), of rest]
  then obtain e where e: "container_child (stored_datum v @ rest) 0 = Inr e" "AGTE_TYPE e = ty v" by blast
  have n: "length ms \<le> n" using assms(1) by (simp add: ready_def)
  have f: "unat (of_nat (length (enc 0 v)) :: uint32) = length (enc 0 v)" by (intro fits_unat fits_mono [OF assms(3)]) simp
  show ?thesis
    using write_entry [OF assms(1) entry_type_ty, of hdr "raw_enc (length data) v" v] r e f
    by (cases "ty v = AGTENTRY_IS_AGTYPE")
       (simp_all add: write_agtype_scalar_payload_def assms(4) AGTE_IS_AGTYPE_def AGTE_TYPE_def write_pad_eq [OF n] write_pointer_eq raw_enc_def)
qed

subsection \<open>Sequences of writers\<close>

primrec run_writers :: "(agtype_build_state \<Rightarrow> agtype_build_state result) list \<Rightarrow> agtype_build_state \<Rightarrow> agtype_build_state result" where
  "run_writers [] bs = Inr bs"
| "run_writers (w # ws) bs = bindE (w bs) (run_writers ws)"

lemma run_append: "run_writers (ws @ ws') bs = bindE (run_writers ws bs) (run_writers ws')"
  by (induction ws arbitrary: bs) (simp_all add: bindE_def split: sum.split)

lemma write_payloads_run: "write_payloads bs as = run_writers (map (\<lambda>a bs. write_agtype_scalar_payload bs a) as) bs"
  by (induction as arbitrary: bs) (simp_all add: bindE_def split: sum.split)

text \<open>The writer \<open>w\<close> appends the child \<open>x\<close> with type bits \<open>t\<close> and image \<open>f\<close>.\<close>

definition appends ::
    "uint32 \<Rightarrow> nat \<Rightarrow> (nat \<Rightarrow> 'a \<Rightarrow> byte list) \<Rightarrow> ('a \<Rightarrow> uint32) \<Rightarrow> (agtype_build_state \<Rightarrow> agtype_build_state result) \<Rightarrow> 'a \<Rightarrow> bool" where
  "appends hdr n f t w x \<longleftrightarrow> (\<forall>ms data. ready n ms data \<longrightarrow>
     w (state_of hdr n ms data) = put_child hdr n ms data (t x) (f (length data) x))"

lemma run_writers_eq:
  assumes "list_all2 (appends hdr n f t) ws xs" "start_of ms (length ms) = length data" "length ms + length xs \<le> n" "fits (length data)"
  shows "run_writers ws (state_of hdr n ms data) =
    (if fits (length data + length (enc_seq f (length data) xs))
     then Inr (state_of hdr n (ms @ enc_metas f t (length data) xs) (data @ enc_seq f (length data) xs))
     else Inl (Ereport array_msg))"
  using assms
proof (induction ws xs arbitrary: ms data rule: list_all2_induct)
  case (Cons a as v vs)
  let ?i = "f (length data) v"
  have "ready n ms data" using Cons.prems by (simp add: ready_def)
  with Cons.hyps(1) have w: "a (state_of hdr n ms data) = put_child hdr n ms data (t v) ?i" by (simp add: appends_def)
  show ?case
  proof (cases "fits (length (data @ ?i))")
    case True
    have "run_writers as (state_of hdr n (ms @ [(t v, length ?i)]) (data @ ?i)) =
      (if fits (length (data @ ?i) + length (enc_seq f (length (data @ ?i)) vs))
       then Inr (state_of hdr n ((ms @ [(t v, length ?i)]) @ enc_metas f t (length (data @ ?i)) vs)
              ((data @ ?i) @ enc_seq f (length (data @ ?i)) vs))
       else Inl (Ereport array_msg))"
      by (rule Cons.IH) (use Cons.prems True in \<open>simp_all add: start_of_def\<close>)
    with True w show ?thesis by (simp add: put_child_def add.assoc)
  next
    case False
    then have "\<not> fits (length data + (length ?i + length (enc_seq f (length data + length ?i) vs)))"
      by (metis add.assoc fits_mono le_add1 length_append)
    with False w show ?thesis by (simp add: put_child_def)
  qed
qed simp

definition payload :: "agtype_ptr \<Rightarrow> agtype_value \<Rightarrow> bool" where
  "payload p v \<longleftrightarrow> IS_A_AGTYPE_SCALAR v \<and> fits (length (array_image enc True [v])) \<and> (\<exists>rest. root_mem p = stored_datum v @ rest)"

lemma payload_appends: "payload p v \<Longrightarrow> appends hdr n raw_enc ty (\<lambda>bs. write_agtype_scalar_payload bs p) v"
  using write_payload_child by (auto simp: payload_def appends_def)

text \<open>Where a copied payload has the bytes of the generic writer.\<close>

primrec numerics_aligned :: "nat \<Rightarrow> agtype_value list \<Rightarrow> bool" where
  "numerics_aligned p [] \<longleftrightarrow> True"
| "numerics_aligned p (v # vs) \<longleftrightarrow>
     (agtv_type v = Type_NUMERIC \<longrightarrow> p mod 4 = 0) \<and> numerics_aligned (p + length (enc p v)) vs"

lemma padding_aligned: "p mod 4 = 0 \<Longrightarrow> padding p = []"
  using INTALIGN_mod4 [of p 0] by (simp add: padding_def INTALIGN_def)

lemma raw_enc_eq:
  assumes "IS_A_AGTYPE_SCALAR v" "agtv_type v = Type_NUMERIC \<longrightarrow> p mod 4 = 0"
  shows "raw_enc p v = enc p v"
  using assms padding_aligned [of p] by (cases v) (simp_all add: raw_enc_def agtentry_consts)

lemma raw_enc_seq:
  assumes "\<forall>v \<in> set vs. IS_A_AGTYPE_SCALAR v" "numerics_aligned p vs"
  shows "enc_seq raw_enc p vs = enc_seq enc p vs" "enc_metas raw_enc ty p vs = enc_metas enc ty p vs"
  using assms by (induction vs arbitrary: p) (simp_all add: raw_enc_eq)

subsection \<open>The generic path\<close>

text \<open>An iterator that steps into nested containers never hands out a binary, so pushing its tokens is pushing scalars.\<close>

lemma next_not_binary:
  assumes "agtype_iterator_next fill its False = Inr (tok, v, its')"
  shows "case v of AGTV_BINARY _ _ \<Rightarrow> False | _ \<Rightarrow> True"
proof -
  have st: "iterator_start it ps = Inr (tok, v, its') \<Longrightarrow> ?thesis" for it ps
    by (auto simp: iterator_start_def bindE_def split: agt_iterator_state.splits sum.splits)
  have ch: "iterator_child False t w it ps = Inr (tok, v, its') \<Longrightarrow> ?thesis" for t w it ps
    using st by (cases w) (auto simp: iterator_child_def bindE_def split: if_splits sum.splits)
  show ?thesis
    using assms st ch
    by (cases its)
       (auto simp: agtype_iterator_next_def bindE_def Let_def split: agt_iterator_state.splits if_splits sum.splits agtype_value.splits)
qed

lemma drain_scalars:
  "drain (\<lambda>its. agtype_iterator_next fill its False) (push_agtype_value env fill F) n its ps res =
   drain (\<lambda>its. agtype_iterator_next fill its False) (push_agtype_value_scalar env) n its ps res"
proof (induction n arbitrary: its ps res)
  case (Suc n)
  show ?case
  proof (cases "agtype_iterator_next fill its False")
    case (Inr r)
    obtain tok v its' where r: "r = (tok, v, its')" by (cases r) auto
    have "push_agtype_value env fill F ps tok (Some v) = push_agtype_value_scalar env ps tok (Some v)"
      using next_not_binary Inr r by (cases v) (fastforce simp: push_agtype_value_def)+
    moreover have "push_agtype_value env fill F ps tok None = push_agtype_value_scalar env ps tok None" by (simp add: push_agtype_value_def)
    ultimately show ?thesis using Inr r Suc.IH by simp
  qed simp
qed simp

text \<open>The argument \<open>a\<close> stands for the value \<open>v\<close>: null, or a pointer to the datum stored for it.\<close>

definition list_arg :: "pg_env \<Rightarrow> nat \<Rightarrow> agtype_ptr option \<Rightarrow> agtype_value \<Rightarrow> bool" where
  "list_arg env F a v \<longleftrightarrow>
     (case a of None \<Rightarrow> v = AGTV_NULL
      | Some p \<Rightarrow> wf_value env v \<and> fits (length (datum v)) \<and> need v \<le> F \<and> (\<exists>rest. root_mem p = stored_datum v @ rest))"

lemma scalar_tokens:
  assumes q: "qsort_ok (pg_qsort_arg env)" and v: "wf_value env v" "IS_A_AGTYPE_SCALAR v" "fits (length (array_image enc True [v]))" "need v \<le> F"
  shows "\<exists>it x it1 it2. agtype_iterator_init (stored_datum v @ rest) = Inr it \<and>
    agtype_iterator_next (fill_agtype_value env F) it True = Inr (WAGT_BEGIN_ARRAY, x, it1) \<and>
    agtype_iterator_next (fill_agtype_value env F) it1 True = Inr (WAGT_ELEM, norm v, it2)"
proof (cases "agtv_type v = Type_BOOL")
  case True
  then obtain b where b: "v = AGTV_BOOL b" by (cases v) simp_all
  obtain G where F: "F = Suc G" using v(4) need_toks [of v] by (cases F) auto
  show ?thesis
    by (cases b)
       (simp_all add: b F agtype_bool_to_agtype_def agtype_iterator_init_def iterator_from_container_def container_header_def raw_header_def
        header_size_def header_is_scalar_def agt_flags agtype_iterator_next_def iterator_start_def iterator_child_def fill_body_def container_child_def
        agte_macros AGTE_TYPE_def agtentry_consts Let_def)
next
  case False
  have "reads (fill_agtype_value env F) ([v] ! 0)" using fill_ok [OF q v(1,4)] by simp
  from next_array_elem [OF this _ v(3), of rest "[]" True] iterator_from_array [OF v(3), of rest] v(2)
  show ?thesis
    unfolding stored_scalar_datum [OF v(2) False]
    by (auto simp: agtype_iterator_init_def next_array_start iterator_child_def shallow_def)
qed

lemma add_agtype_law:
  assumes q: "qsort_ok (pg_qsort_arg env)" and a: "list_arg env F a v"
    and st: "ps_cont st = PS_ARRAY raw es" "frame_ok st (length es)" "length es < AGTYPE_MAX_ELEMS"
  shows "\<exists>st'. add_agtype env F a (st # ps) = Inr (st' # ps) \<and> ps_cont st' = PS_ARRAY raw (es @ [norm v]) \<and>
    frame_ok st' (length (es @ [norm v]))"
proof -
  let ?fill = "fill_agtype_value env F"
  obtain st' where st': "append_element st (norm v) = Inr st'" "ps_cont st' = PS_ARRAY raw (es @ [norm v])" "frame_ok st' (length (es @ [norm v]))"
    using append_element_ok [OF st, of "norm v"] by blast
  have p: "push_agtype_value env ?fill F (st # ps) WAGT_ELEM (Some (norm v)) = Inr (None, st' # ps)" if "IS_A_AGTYPE_SCALAR v"
    using that st st' by (cases v) (simp_all add: push_agtype_value_def)
  show ?thesis
  proof (cases a)
    case None
    with a p st' show ?thesis by (simp add: list_arg_def add_agtype_def datum_to_agtype_def Let_def)
  next
    case (Some agt)
    with a obtain rest where v: "wf_value env v" "fits (length (datum v))" "need v \<le> F" and m: "root_mem agt = stored_datum v @ rest"
      by (auto simp: list_arg_def)
    show ?thesis
    proof (cases "IS_A_AGTYPE_SCALAR v")
      case True
      then have f: "fits (length (array_image enc True [v]))" using v(2) by (simp add: datum_def)
      show ?thesis
        using scalar_tokens [OF q v(1) True f v(3), of rest] stored_scalar_reads [OF True f, of rest] p [OF True] st'
        by (auto simp: Some add_agtype_def datum_to_agtype_def m Let_def)
    next
      case False
      then have s: "stored_datum v = cimage v" "fits (length (cimage v))" using v(2) by (cases v; simp add: datum_def)+
      then have "drains env ?fill v" using fill_ok [OF q v(1,3)] False by simp
      then obtain it where it: "iterator_from_container (cimage v @ rest) = Inr it"
        and d: "\<And>its ps res m. drain (\<lambda>its. agtype_iterator_next ?fill its False) (push_agtype_value_scalar env) (toks v + m) (it # its) ps res =
          bindE (pop_state ps (norm v)) (\<lambda>(r, ps'). drain (\<lambda>its. agtype_iterator_next ?fill its False) (push_agtype_value_scalar env) m its ps' r)"
        unfolding drains_def by blast
      obtain m where F: "F = toks v + Suc m" using need_toks [of v] v(3) less_imp_Suc_add [of "toks v" F] by auto
      have "drain (\<lambda>its. agtype_iterator_next ?fill its False) (push_agtype_value_scalar env) F [it] (st # ps) None = Inr (Some (norm v), st' # ps)"
        using d [of "Suc m" "[]" "st # ps" None] st st' unfolding F [symmetric] by (simp add: pop_state_def)
      moreover have "AGT_ROOT_IS_SCALAR (cimage v @ rest) = Inr False"
        using False v(1) s(2) root_array(3) root_object(3) by (cases v) auto
      ultimately show ?thesis using it st' by (simp add: Some add_agtype_def datum_to_agtype_def m s(1) agtype_iterator_init_def drain_scalars Let_def)
    qed
  qed
qed

lemma add_agtypes_law:
  assumes q: "qsort_ok (pg_qsort_arg env)" and "list_all2 (list_arg env F) as vs" "ps_cont st = PS_ARRAY raw es" "frame_ok st (length es)"
    "length es + length vs \<le> AGTYPE_MAX_ELEMS"
  shows "\<exists>st'. add_agtypes env F as (st # ps) = Inr (st' # ps) \<and> ps_cont st' = PS_ARRAY raw (es @ map norm vs)"
  using assms(2-)
proof (induction as vs arbitrary: st es rule: list_all2_induct)
  case (Cons a as v vs)
  have "length es < AGTYPE_MAX_ELEMS" using Cons.prems(3) by simp
  with add_agtype_law [OF q Cons.hyps(1) Cons.prems(1,2)] obtain st1 where s1: "add_agtype env F a (st # ps) = Inr (st1 # ps)"
    "ps_cont st1 = PS_ARRAY raw (es @ [norm v])" "frame_ok st1 (length (es @ [norm v]))" by blast
  have "\<exists>st'. add_agtypes env F as (st1 # ps) = Inr (st' # ps) \<and> ps_cont st' = PS_ARRAY raw ((es @ [norm v]) @ map norm vs)"
    by (rule Cons.IH [OF s1(2,3)]) (use Cons.prems in simp)
  with s1(1) show ?case by simp
qed simp

subsection \<open>What a list stores\<close>

lemma all_scalar_args_eq:
  assumes "list_all2 (list_arg env F) as vs"
  shows "all_scalar_args as = Inr (list_all2 (\<lambda>a v. a \<noteq> None \<and> IS_A_AGTYPE_SCALAR v) as vs)"
  using assms
proof (induction as vs rule: list_all2_induct)
  case (Cons a as v vs)
  show ?case
  proof (cases a)
    case (Some agt)
    with Cons.hyps(1) obtain rest where v: "wf_value env v" "fits (length (datum v))" and m: "root_mem agt = stored_datum v @ rest"
      by (auto simp: list_arg_def)
    show ?thesis
    proof (cases "IS_A_AGTYPE_SCALAR v")
      case True
      with stored_scalar_reads [OF True, of rest] v(2) Cons.IH show ?thesis by (simp add: Some m datum_def)
    next
      case False
      then have "stored_datum v = cimage v" "fits (length (cimage v))" using v(2) by (cases v; simp add: datum_def)+
      moreover from this have "AGT_ROOT_IS_SCALAR (cimage v @ rest) = Inr False \<and> (\<exists>n. AGT_ROOT_COUNT (cimage v @ rest) = Inr n)"
        using False v(1) root_array(3,4) root_object(3,4) by (cases v) auto
      ultimately show ?thesis using False by (auto simp: Some m)
    qed
  qed simp
qed simp

lemma fast_list:
  assumes "list_all2 (list_arg env F) as vs" "list_all2 (\<lambda>a v. a \<noteq> None \<and> IS_A_AGTYPE_SCALAR v) as vs" "fits (length (enc_seq raw_enc 0 vs))"
  shows "agtype_build_list env F (Some as) = Inr (Some (array_image raw_enc False vs))"
proof -
  let ?h = "array_header False (length vs)"
  have "list_all2 (\<lambda>a v. payload (the a) v) as vs"
    using assms(1,2) by (induction as vs rule: list_all2_induct) (auto simp: list_arg_def payload_def datum_def)
  then have p: "list_all2 (appends ?h (length vs) raw_enc ty) (map (\<lambda>a bs. write_agtype_scalar_payload bs a) (map the as)) vs"
    unfolding list_all2_map1 by (rule list_all2_mono) (rule payload_appends)
  have n: "length as = length vs" using assms(1) by (rule list_all2_lengthD)
  have "write_payloads (state_of ?h (length vs) [] []) (map the as) = Inr (state_of ?h (length vs) (enc_metas raw_enc ty 0 vs) (enc_seq raw_enc 0 vs))"
    unfolding write_payloads_run using run_writers_eq [OF p, of "[]" "[]"] assms(3) by (simp add: fits_iff)
  then show ?thesis
    using build_done [of "enc_metas raw_enc ty 0 vs" "length vs"] assms(2)
    by (simp add: agtype_build_list_def all_scalar_args_eq [OF assms(1)] init_array_state n array_image_def)
qed


lemma build_list_noargs: "agtype_build_list_noargs env = Inr (array_image enc False [])"
  using convert_to_agtype_enc [of env "AGTV_ARRAY False []"]
  by (simp add: agtype_build_list_noargs_def build_empty_agtype_array_def agtype_value_to_agtype_def writable_ARRAY fits_iff pop_state_def)

definition sample_list :: "agtype_value list" where
  "sample_list = [AGTV_STRING [97, 98, 99, 100], AGTV_NUMERIC [24, 0, 0, 0, 1, 2], AGTV_BOOL True, AGTV_INTEGER (-3)]"

definition ptr_to :: "agtype_value \<Rightarrow> agtype_ptr" where
  "ptr_to v = \<lparr>varsize = 4 + length (stored_datum v), root_mem = stored_datum v\<rparr>"

lemma varsize_prefix:
  "4 \<le> length n \<Longrightarrow> le_nat (take 4 n) div 4 = length n \<Longrightarrow> numeric_ok isort_env n"
  by (simp add: numeric_ok_def isort_env_def)


definition misread_list :: "agtype_value list" where
  "misread_list = [AGTV_STRING [97], AGTV_NUMERIC [40, 0, 0, 0, 128, 128, 1, 0, 136, 19]]"

text \<open>A numeric behind a string of one byte is copied to offset 1, where \<open>fill_agtype_value\<close> looks for it at offset 4: the
  list is not the one the generic path stores, and reading its second element takes three bytes from inside the numeric for its
  size word.\<close>

theorem numeric_payload_misplaced:
  "\<exists>d. agtype_build_list isort_env 5 (Some (map (\<lambda>v. Some (ptr_to v)) misread_list)) = Inr (Some d) \<and>
     agtype_value_to_agtype isort_env (AGTV_ARRAY False misread_list) \<noteq> Inr d \<and>
     get_ith_agtype_value_from_container isort_env 5 d 1 = Inl BadAccess"
proof (intro exI conjI)
  let ?n = "[40, 0, 0, 0, 128, 128, 1, 0, 136, 19]" let ?d = "array_image raw_enc False misread_list"
  let ?ms = "[(AGTENTRY_IS_STRING, 1), (AGTENTRY_IS_NUMERIC, 10)] :: (uint32 \<times> nat) list"
  have "numeric_ok isort_env ?n" by (rule varsize_prefix) (simp_all add: take_Cons')
  then have w: "list_all2 (list_arg isort_env 5) (map (\<lambda>v. Some (ptr_to v)) misread_list) misread_list" "wf_value isort_env (AGTV_ARRAY False misread_list)"
    by (simp_all add: misread_list_def list_arg_def ptr_to_def datum_def fits_iff need.simps elems_ok_def AGTYPE_MAX_ELEMS_def)
  show "agtype_build_list isort_env 5 (Some (map (\<lambda>v. Some (ptr_to v)) misread_list)) = Inr (Some ?d)"
    by (rule fast_list [OF w(1)]) (simp_all add: misread_list_def fits_iff raw_enc_def agtentry_consts)
  have "length ?d \<noteq> length (enc 0 (AGTV_ARRAY False misread_list))"
    by (simp add: misread_list_def raw_enc_def agtentry_consts INTALIGN_def)
  moreover have "agtype_value_to_agtype isort_env (AGTV_ARRAY False misread_list) = Inr (enc 0 (AGTV_ARRAY False misread_list))"
    using convert_to_agtype_enc [OF wf_writable [OF w(2)]] by (simp add: agtype_value_to_agtype_def misread_list_def fits_iff INTALIGN_def)
  ultimately show "agtype_value_to_agtype isort_env (AGTV_ARRAY False misread_list) \<noteq> Inr ?d" by (metis sum.inject(2))
  have d: "?d = cont_bytes (array_header False 2) ?ms (97 # ?n) @ []"
    by (simp add: misread_list_def array_image_def raw_enc_def agtentry_consts, simp add: eval_nat_numeral)
  have ms: "metas_ok ?ms" by (simp add: metas_ok_def start_of_def fits_iff)
  have e: "AGTE_TYPE (entry_at ?ms 1) = AGTENTRY_IS_NUMERIC" using entry_at_fields(1) [OF ms, of 1] by simp
  have h: "header_is_array (array_header False 2)" "header_size (array_header False 2) = 2" using array_header_fields [of 2 False] by (simp_all add: fits_iff)
  have s: "get_agtype_offset (cont_bytes (array_header False 2) ?ms (97 # ?n) @ []) 1 = Inr 1"
    using get_agtype_offset_cont [OF ms, of 1 "array_header False 2" "97 # ?n" "[]"] by (simp add: start_of_def)
  have F: "(5 :: nat) = Suc 4" by simp
  show "get_ith_agtype_value_from_container isort_env 5 ?d 1 = Inl BadAccess"
    unfolding d F get_ith_agtype_value_from_container_def fill_agtype_value.simps
    using h s e container_header_cont [of "array_header False 2" ?ms "97 # ?n" "[]"] container_child_cont [of 1 ?ms "array_header False 2" "97 # ?n" "[]"]
      container_data_cont [of ?ms 2 "array_header False 2" "97 # ?n" "[]"]
    by (simp add: fill_body_def agte_macros agtentry_consts INTALIGN_def isort_env_def read_bytes_def take_Cons' Let_def)
qed

end
