(* ===== verification/Agtype_Entity.thy ===== *)
theory Agtype_Entity
  imports Agtype_In Agtype_Compare
begin

text \<open>
  What the input functions guarantee about the values they build. A locale states what every
  semantic action has to keep for the whole parse to keep it; it is interpreted on the
  \<open>agtype_in_*\<close> actions with the invariant that all values built so far are well typed. Vertices
  and edges that pass the typecasts have their fields where the access macros of
  \<open>src/include/utils/agtype.h\<close> expect them.
\<close>

subsection \<open>Invariants of semantic actions\<close>

text \<open>The invariant depends on the containers that are open, innermost first: \<open>True\<close> for an object, \<open>False\<close>
  for an array.\<close>

locale parse_invariant =
  fixes sem :: "'st agtype_sem_action" and inv :: "bool list \<Rightarrow> 'st \<Rightarrow> bool"
  assumes object_start: "inv k st \<Longrightarrow> call0 (sem_object_start sem) st = Inr st' \<Longrightarrow> inv (True # k) st'"
    and object_end: "inv (True # k) st \<Longrightarrow> call0 (sem_object_end sem) st = Inr st' \<Longrightarrow> inv k st'"
    and array_start: "inv k st \<Longrightarrow> call0 (sem_array_start sem) st = Inr st' \<Longrightarrow> inv (False # k) st'"
    and array_end: "inv (False # k) st \<Longrightarrow> call0 (sem_array_end sem) st = Inr st' \<Longrightarrow> inv k st'"
    and field_start: "inv k st \<Longrightarrow> (case sem_object_field_start sem of None \<Rightarrow> Inr st | Some f \<Rightarrow> f s b st) = Inr st' \<Longrightarrow> inv k st'"
    and field_end: "inv k st \<Longrightarrow> (case sem_object_field_end sem of None \<Rightarrow> Inr st | Some f \<Rightarrow> f s b st) = Inr st' \<Longrightarrow> inv k st'"
    and element_start: "inv k st \<Longrightarrow> call (sem_array_element_start sem) b st = Inr st' \<Longrightarrow> inv k st'"
    and element_end: "inv k st \<Longrightarrow> call (sem_array_element_end sem) b st = Inr st' \<Longrightarrow> inv k st'"
    and scalar: "inv k st \<Longrightarrow> (case sem_scalar sem of None \<Rightarrow> Inr st | Some f \<Rightarrow> f s t a st) = Inr st' \<Longrightarrow> inv k st'"
    and annotation: "inv k st \<Longrightarrow> call (sem_annotation sem) a st = Inr st' \<Longrightarrow> inv k st'"
begin

definition preserves :: "'st parser \<Rightarrow> bool" where
  "preserves p \<longleftrightarrow> (\<forall>k lx st lx' st'. p (lx, st) = Inr (lx', st') \<longrightarrow> inv k st \<longrightarrow> inv k st')"

lemma preservesD: "preserves p \<Longrightarrow> p (lx, st) = Inr (lx', st') \<Longrightarrow> inv k st \<Longrightarrow> inv k st'"
  unfolding preserves_def by blast

lemma preserves_annotation: "preserves (parse_annotation tx sem)"
  unfolding preserves_def by (auto simp: parse_annotation_def bindE_eq_Inr annotation split: if_splits)

lemma preserves_scalar: "preserves (parse_scalar tx sem)"
  unfolding preserves_def
  by (auto simp: parse_scalar_def Let_def bindE_eq_Inr split: if_splits dest: scalar)

lemma preserves_field: "preserves v \<Longrightarrow> preserves (parse_object_field tx sem v)"
  unfolding preserves_def [of "parse_object_field tx sem v"]
  by (auto simp: parse_object_field_def Let_def bindE_eq_Inr split: if_splits
      dest: preservesD field_start field_end)

lemma preserves_element: "preserves v \<Longrightarrow> preserves (parse_array_element tx sem v)"
  unfolding preserves_def [of "parse_array_element tx sem v"]
  by (auto simp: parse_array_element_def Let_def bindE_eq_Inr dest: preservesD element_start element_end)

lemma preserves_comma_loop: "preserves v \<Longrightarrow> preserves (comma_loop tx v n)"
proof (induction n)
  case (Suc n)
  show ?case
    unfolding preserves_def
    by (auto simp: bindE_eq_Inr split: if_splits dest: preservesD [OF Suc.prems] preservesD [OF Suc.IH [OF Suc.prems]])
qed (simp add: preserves_def)

lemma preserves_fields: "preserves v \<Longrightarrow> preserves (parse_fields tx sem v n)"
  unfolding preserves_def [of "parse_fields tx sem v n"]
  by (auto simp: parse_fields_def bindE_eq_Inr split: if_splits
      dest: preservesD [OF preserves_field] preservesD [OF preserves_comma_loop [OF preserves_field]])

lemma preserves_elements: "preserves v \<Longrightarrow> preserves (parse_elements tx sem v n)"
  unfolding preserves_def [of "parse_elements tx sem v n"]
  by (auto simp: parse_elements_def bindE_eq_Inr split: if_splits
      dest: preservesD [OF preserves_element] preservesD [OF preserves_comma_loop [OF preserves_element]])

lemma preserves_object: "preserves v \<Longrightarrow> preserves (parse_object tx sem v n)"
  unfolding preserves_def [of "parse_object tx sem v n"]
  by (clarsimp simp: parse_object_def bindE_eq_Inr)
    (rule preservesD [OF preserves_annotation], assumption, rule object_end,
      rule preservesD [OF preserves_fields], assumption, assumption, rule object_start)

lemma preserves_array: "preserves v \<Longrightarrow> preserves (parse_array tx sem v n)"
  unfolding preserves_def [of "parse_array tx sem v n"]
  by (clarsimp simp: parse_array_def bindE_eq_Inr)
    (rule preservesD [OF preserves_annotation], assumption, rule array_end,
      rule preservesD [OF preserves_elements], assumption, assumption, rule array_start)

lemma preserves_value: "preserves (parse_value tx sem n)"
proof (induction n)
  case (Suc n)
  show ?case
    unfolding preserves_def
    by (auto split: if_splits
        dest: preservesD [OF preserves_object [OF Suc]] preservesD [OF preserves_array [OF Suc]] preservesD [OF preserves_scalar])
qed (simp add: preserves_def)

lemma parse_agtype_keeps: "parse_agtype tx sem n (lx, st) = Inr (lx', st') \<Longrightarrow> inv k st \<Longrightarrow> inv k st'"
  by (auto simp: parse_agtype_def bindE_eq_Inr dest: preservesD [OF preserves_value])

end

subsection \<open>Well-typed values\<close>

text \<open>Objects have strictly sorted keys; vertices, edges and paths have the shape the typecasts check.\<close>

function good_value :: "pg_text \<Rightarrow> agtype_value \<Rightarrow> bool" where
  "good_value tx v \<longleftrightarrow>
     (case v of
        AGTV_OBJECT ps \<Rightarrow> keys_sorted ps
      | AGTV_VERTEX ps \<Rightarrow> keys_sorted ps \<and> is_object_vertex tx ps
      | AGTV_EDGE ps \<Rightarrow> keys_sorted ps \<and> is_object_edge tx ps
      | AGTV_PATH es \<Rightarrow> is_array_path es
      | AGTV_BINARY _ _ \<Rightarrow> False
      | _ \<Rightarrow> True) \<and> (\<forall>w \<in> set (kids v). good_value tx w)"
  by pat_completeness auto
termination by (relation "measure (\<lambda>(tx, v). size v)") (auto simp: size_kids)

declare good_value.simps [simp del]

lemma good_value_simps [simp]:
  "good_value tx AGTV_NULL" "good_value tx (AGTV_STRING s)" "good_value tx (AGTV_NUMERIC n)"
  "good_value tx (AGTV_INTEGER i)" "good_value tx (AGTV_FLOAT f)" "good_value tx (AGTV_BOOL b)"
  "good_value tx (AGTV_ARRAY raw es) \<longleftrightarrow> (\<forall>w \<in> set es. good_value tx w)"
  "good_value tx (AGTV_PATH es) \<longleftrightarrow> is_array_path es \<and> (\<forall>w \<in> set es. good_value tx w)"
  "good_value tx (AGTV_OBJECT ps) \<longleftrightarrow> keys_sorted ps \<and> (\<forall>p \<in> set ps. good_value tx (pair_value p))"
  "good_value tx (AGTV_VERTEX ps) \<longleftrightarrow> keys_sorted ps \<and> is_object_vertex tx ps \<and> (\<forall>p \<in> set ps. good_value tx (pair_value p))"
  "good_value tx (AGTV_EDGE ps) \<longleftrightarrow> keys_sorted ps \<and> is_object_edge tx ps \<and> (\<forall>p \<in> set ps. good_value tx (pair_value p))"
  by (subst good_value.simps, simp)+

text \<open>The pairs of an open object are numbered in the order they were pushed.\<close>

fun good_frame :: "pg_text \<Rightarrow> parse_cont \<Rightarrow> bool" where
  "good_frame tx (PS_ARRAY raw es) \<longleftrightarrow> (\<forall>w \<in> set es. good_value tx w)"
| "good_frame tx (PS_OBJECT pairs k) \<longleftrightarrow>
     (\<forall>p \<in> set pairs. good_value tx (pair_value p)) \<and> map pair_order pairs = [0..<length pairs] \<and>
     (case k of None \<Rightarrow> True | Some (s, ord) \<Rightarrow> ord = length pairs)"

text \<open>The value \<open>last_updated_value\<close> points at.\<close>

definition last_slot :: "agtype_parse_state \<Rightarrow> agtype_value option" where
  "last_slot p =
     (case (ps_last_updated p, ps_cont p) of
        (Some i, PS_ARRAY raw es) \<Rightarrow> if i < length es then Some (es ! i) else None
      | (Some i, PS_OBJECT pairs k) \<Rightarrow> if i < length pairs then Some (pair_value (pairs ! i)) else None
      | _ \<Rightarrow> None)"

fun is_object_cont :: "parse_cont \<Rightarrow> bool" where
  "is_object_cont (PS_OBJECT pairs k) = True"
| "is_object_cont (PS_ARRAY raw es) = False"

definition open_conts :: "agtype_parse_state list \<Rightarrow> bool list" where
  "open_conts ps = map (\<lambda>p. is_object_cont (ps_cont p)) ps"

definition good_state :: "pg_text \<Rightarrow> agtype_in_state \<Rightarrow> bool" where
  "good_state tx st \<longleftrightarrow>
     (\<forall>p \<in> set (parse_state st). good_frame tx (ps_cont p)) \<and>
     (case in_res st of None \<Rightarrow> True
      | Some v \<Rightarrow> good_value tx v \<and>
          (case parse_state st of [] \<Rightarrow> True | p # _ \<Rightarrow> last_slot p = None \<or> last_slot p = Some v))"

lemma append_element_good:
  assumes "append_element p v = Inr p'" "good_frame tx (ps_cont p)" "good_value tx v"
  shows "good_frame tx (ps_cont p')" "last_slot p' = Some v"
  using assms by (auto simp: append_element_def last_slot_def Let_def nth_append split: parse_cont.splits if_splits)

lemma append_value_good:
  assumes "append_value p v = Inr p'" "good_frame tx (ps_cont p)" "good_value tx v"
  shows "good_frame tx (ps_cont p')" "last_slot p' = Some v"
  using assms by (auto simp: append_value_def last_slot_def nth_append split: parse_cont.splits option.splits if_splits)

lemma append_key_good:
  assumes "append_key p k = Inr p'" "good_frame tx (ps_cont p)"
  shows "good_frame tx (ps_cont p')"
  using assms by (auto simp: append_key_def Let_def split: parse_cont.splits if_splits)

lemma pop_state_good:
  assumes "pop_state ps v = Inr (r, ps')" "\<forall>p \<in> set ps. good_frame tx (ps_cont p)" "good_value tx v"
  shows "good_state tx \<lparr>parse_state = ps', in_res = r\<rparr>"
proof (cases ps)
  case Nil
  with assms show ?thesis by (auto simp: pop_state_def good_state_def)
next
  case (Cons p qs)
  then obtain p' where p': "r = Some v" "ps' = p' # qs" "append_element p v = Inr p' \<or> append_value p v = Inr p'"
    using assms(1) by (auto simp: pop_state_def bindE_eq_Inr split: parse_cont.splits)
  have "good_frame tx (ps_cont p)" using assms(2) Cons by simp
  with p'(3) assms(3) have "good_frame tx (ps_cont p')" "last_slot p' = Some v"
    using append_element_good append_value_good by blast+
  with p'(1,2) Cons assms(2,3) show ?thesis by (simp add: good_state_def)
qed

lemma uniqueify_good:
  assumes "qsort_ok (pg_qsort_arg env)" "map pair_order pairs = [0..<length pairs]"
  shows "keys_sorted (uniqueify_agtype_object env pairs)" "set (uniqueify_agtype_object env pairs) \<subseteq> set pairs"
proof -
  have "distinct (map pair_order pairs)" using assms(2) by simp
  from uniqueify_is_uniq_pairs [OF assms(1) this] obtain ys where ys: "mset ys = mset pairs" "sorted_wrt pair_before ys"
      "uniqueify_agtype_object env pairs = uniq_pairs ys" by blast
  from uniq_pairs_spec [OF ys(2)] have "keys_sorted (uniq_pairs ys)" "set (uniq_pairs ys) \<subseteq> set ys"
    by (auto simp: last_by_def)
  moreover have "set ys = set pairs" using ys(1) by (rule mset_eq_setD)
  ultimately show "keys_sorted (uniqueify_agtype_object env pairs)" "set (uniqueify_agtype_object env pairs) \<subseteq> set pairs"
    using ys(3) by auto
qed

lemma append_conts:
  "append_element p v = Inr p' \<Longrightarrow> is_object_cont (ps_cont p') = is_object_cont (ps_cont p)"
  "append_value p v = Inr p' \<Longrightarrow> is_object_cont (ps_cont p') = is_object_cont (ps_cont p)"
  "append_key p k = Inr p' \<Longrightarrow> is_object_cont (ps_cont p') = is_object_cont (ps_cont p)"
  by (auto simp: append_element_def append_value_def append_key_def Let_def
      split: parse_cont.splits if_splits option.splits)

lemma pop_conts: "pop_state ps v = Inr (r, ps') \<Longrightarrow> open_conts ps' = open_conts ps"
  by (auto simp: pop_state_def open_conts_def bindE_eq_Inr append_conts split: list.splits parse_cont.splits)

definition in_inv :: "pg_text \<Rightarrow> bool list \<Rightarrow> agtype_in_state \<Rightarrow> bool" where
  "in_inv tx k st \<longleftrightarrow> good_state tx st \<and> open_conts (parse_state st) = k"

lemma in_push_begin:
  assumes "in_push env seq v st = Inr st'" "in_inv tx k st" "seq = WAGT_BEGIN_OBJECT \<and> b \<or> seq = WAGT_BEGIN_ARRAY \<and> \<not> b"
  shows "in_inv tx (b # k) st'"
  using assms
  by (auto simp: in_push_def in_inv_def bindE_eq_Inr push_agtype_value_scalar_def good_state_def last_slot_def Let_def
      keys_sorted_def open_conts_def split: prod.splits)

lemma in_push_child:
  assumes "in_push env seq v st = Inr st'" "in_inv tx k st" "seq \<in> {WAGT_KEY, WAGT_VALUE, WAGT_ELEM}"
    and "\<forall>x \<in> set_option v. good_value tx x"
  shows "in_inv tx k st'"
proof -
  obtain p ps where ps: "parse_state st = p # ps"
    using assms(1,3) by (cases "parse_state st") (auto simp: in_push_def push_agtype_value_scalar_def)
  then obtain p' where p': "st' = \<lparr>parse_state = p' # ps, in_res = None\<rparr>"
      "(\<exists>k. append_key p k = Inr p') \<or> (\<exists>x. v = Some x \<and> (append_value p x = Inr p' \<or> append_element p x = Inr p'))"
    using assms(1,3)
    by (auto simp: in_push_def bindE_eq_Inr push_agtype_value_scalar_def split: option.splits agtype_value.splits) blast
  have fr: "good_frame tx (ps_cont p)" "\<forall>p \<in> set ps. good_frame tx (ps_cont p)"
    using assms(2) ps by (simp_all add: in_inv_def good_state_def)
  have "good_frame tx (ps_cont p')"
    using p'(2) fr(1) assms(4) append_key_good append_value_good(1) append_element_good(1) by fastforce
  moreover have "is_object_cont (ps_cont p') = is_object_cont (ps_cont p)" using p'(2) append_conts by blast
  ultimately show ?thesis using assms(2) ps p'(1) fr(2) by (simp add: in_inv_def good_state_def open_conts_def)
qed

lemma in_push_end:
  assumes "qsort_ok (pg_qsort_arg env)" "in_push env seq None st = Inr st'" "in_inv tx (b # k) st"
    and "seq = WAGT_END_OBJECT \<and> b \<or> seq = WAGT_END_ARRAY \<and> \<not> b"
  shows "in_inv tx k st'"
proof -
  obtain p ps where ps: "parse_state st = p # ps" "is_object_cont (ps_cont p) = b" "open_conts ps = k"
    using assms(3) by (auto simp: in_inv_def open_conts_def)
  have fr: "good_frame tx (ps_cont p)" "\<forall>p \<in> set ps. good_frame tx (ps_cont p)"
    using assms(3) ps by (simp_all add: in_inv_def good_state_def)
  obtain v r ps' where v: "good_value tx v" "pop_state ps v = Inr (r, ps')" "st' = \<lparr>parse_state = ps', in_res = r\<rparr>"
  proof (cases "ps_cont p")
    case (PS_ARRAY raw es)
    then have "good_value tx (cont_val (ps_cont p))" using fr(1) by simp
    with PS_ARRAY assms(2,4) ps that [of "cont_val (ps_cont p)"] show ?thesis by (auto simp: in_push_def bindE_eq_Inr)
  next
    case (PS_OBJECT pairs key)
    with fr(1) have "good_value tx (AGTV_OBJECT (uniqueify_agtype_object env pairs))"
      using uniqueify_good [OF assms(1), of pairs] by auto
    with PS_OBJECT assms(2,4) ps that [of "AGTV_OBJECT (uniqueify_agtype_object env pairs)"] show ?thesis by (auto simp: in_push_def bindE_eq_Inr)
  qed
  from pop_state_good [OF v(2) fr(2) v(1)] pop_conts [OF v(2)] ps(3) show ?thesis by (simp add: in_inv_def v(3))
qed

lemma scalar_value_good: "scalar_value nt token tok = Inr v \<Longrightarrow> good_value tx v"
  by (auto simp: scalar_value_def bindE_eq_Inr split: agtype_token_type.splits)

lemma in_scalar_good:
  assumes q: "qsort_ok (pg_qsort_arg env)" and "agtype_in_scalar env tx nt s t a st = Inr st'" "in_inv tx k st"
  shows "in_inv tx k st'"
proof -
  obtain v where v: "good_value tx v"
    "(case parse_state st of
        [] \<Rightarrow> bindE (in_push env WAGT_BEGIN_ARRAY (Some (AGTV_ARRAY True [AGTV_NULL])) st) (\<lambda>st1.
              bindE (in_push env WAGT_ELEM (Some v) st1) (\<lambda>st2. in_push env WAGT_END_ARRAY None st2))
      | p # _ \<Rightarrow> (case ps_cont p of PS_ARRAY _ _ \<Rightarrow> in_push env WAGT_ELEM (Some v) st
                  | PS_OBJECT _ _ \<Rightarrow> in_push env WAGT_VALUE (Some v) st)) = Inr st'"
    using assms(2) unfolding agtype_in_scalar_def bindE_eq_Inr [of "scalar_cast tx t a"] bindE_eq_Inr [of "scalar_value nt s _"]
    using scalar_value_good by blast
  show ?thesis
  proof (cases "parse_state st")
    case Nil
    with v(2) obtain st1 st2 where 1: "in_push env WAGT_BEGIN_ARRAY (Some (AGTV_ARRAY True [AGTV_NULL])) st = Inr st1"
        and 2: "in_push env WAGT_ELEM (Some v) st1 = Inr st2" and 3: "in_push env WAGT_END_ARRAY None st2 = Inr st'"
      by (auto simp: bindE_eq_Inr)
    have "in_inv tx (False # k) st1" using in_push_begin [OF 1 assms(3), of False] by simp
    then have "in_inv tx (False # k) st2" using in_push_child [OF 2] v(1) by simp
    then show ?thesis using in_push_end [OF q 3, of tx False] by simp
  next
    case (Cons p ps)
    with v(2) obtain seq where "in_push env seq (Some v) st = Inr st'" "seq \<in> {WAGT_KEY, WAGT_VALUE, WAGT_ELEM}"
      by (auto split: parse_cont.splits)
    with in_push_child assms(3) v(1) show ?thesis by fastforce
  qed
qed

lemma retag_last_good:
  assumes "retag_last T p = Inr p'" "last_slot p = Some v" "retag T v = Inr w" "good_frame tx (ps_cont p)" "good_value tx w"
  shows "good_frame tx (ps_cont p')" "last_slot p' = Some w" "is_object_cont (ps_cont p') = is_object_cont (ps_cont p)"
proof -
  obtain i where i: "ps_last_updated p = Some i" using assms(2) by (auto simp: last_slot_def split: option.splits)
  have "good_frame tx (ps_cont p') \<and> last_slot p' = Some w \<and> is_object_cont (ps_cont p') = is_object_cont (ps_cont p)"
  proof (cases "ps_cont p")
    case (PS_ARRAY raw es)
    have "good_value tx x" if "x \<in> set (es[i := w])" for x
      using that PS_ARRAY assms(4,5) set_update_subset_insert by fastforce
    with PS_ARRAY assms i show ?thesis by (auto simp: retag_last_def last_slot_def bindE_eq_Inr split: if_splits)
  next
    case (PS_OBJECT pairs k)
    then have slot: "i < length pairs" "pair_value (pairs ! i) = v" using assms(2) i by (auto simp: last_slot_def split: if_splits)
    define pairs' where "pairs' = pairs[i := (pair_key (pairs ! i), w, pair_order (pairs ! i))]"
    have p': "p' = p\<lparr>ps_cont := PS_OBJECT pairs' k\<rparr>"
      using assms(1,3) i PS_OBJECT slot by (simp add: retag_last_def pairs'_def)
    have "map pair_order pairs' = map pair_order pairs"
      using slot(1) by (simp add: pairs'_def map_update) (metis list_update_id nth_map)
    moreover have "good_value tx (pair_value q)" if "q \<in> set pairs'" for q
      using that PS_OBJECT assms(4,5) set_update_subset_insert unfolding pairs'_def by fastforce
    ultimately show ?thesis
      using PS_OBJECT assms(4) slot i by (auto simp: p' last_slot_def pairs'_def split: option.splits)
  qed
  then show "good_frame tx (ps_cont p')" "last_slot p' = Some w" "is_object_cont (ps_cont p') = is_object_cont (ps_cont p)"
    by blast+
qed

lemma set_type_good:
  assumes "set_type T v st = Inr st'" "in_inv tx k st" "in_res st = Some v" "\<And>w. retag T v = Inr w \<Longrightarrow> good_value tx w"
  shows "in_inv tx k st'"
proof -
  obtain w where w: "retag T v = Inr w" using assms(1) by (auto simp: set_type_def bindE_eq_Inr)
  show ?thesis
  proof (cases "parse_state st")
    case Nil
    with w assms show ?thesis by (auto simp: set_type_def in_inv_def good_state_def)
  next
    case (Cons p ps)
    with w assms(1) obtain p' where p': "retag_last T p = Inr p'" "st' = \<lparr>parse_state = p' # ps, in_res = Some w\<rparr>"
      by (auto simp: set_type_def bindE_eq_Inr)
    have "last_slot p \<noteq> None" using p'(1)
      by (auto simp: retag_last_def last_slot_def split: option.splits parse_cont.splits if_splits)
    then have "last_slot p = Some v" "good_frame tx (ps_cont p)"
      using assms(2,3) Cons by (auto simp: in_inv_def good_state_def)
    note r = retag_last_good [OF p'(1) this(1) w this(2) assms(4) [OF w]]
    from r assms(2,4) w Cons show ?thesis by (simp add: p'(2) in_inv_def good_state_def open_conts_def)
  qed
qed

lemma retag_good:
  "good_value tx (AGTV_OBJECT ps) \<Longrightarrow> is_object_vertex tx ps \<Longrightarrow> retag Type_VERTEX (AGTV_OBJECT ps) = Inr w \<Longrightarrow> good_value tx w"
  "good_value tx (AGTV_OBJECT ps) \<Longrightarrow> is_object_edge tx ps \<Longrightarrow> retag Type_EDGE (AGTV_OBJECT ps) = Inr w \<Longrightarrow> good_value tx w"
  "good_value tx (AGTV_ARRAY raw es) \<Longrightarrow> is_array_path es \<Longrightarrow> retag Type_PATH (AGTV_ARRAY raw es) = Inr w \<Longrightarrow> good_value tx w"
  by auto

lemma in_annotation_good:
  assumes "agtype_in_agtype_annotation tx a st = Inr st'" "in_inv tx k st"
  shows "in_inv tx k st'"
proof -
  have g: "good_value tx v" if "in_res st = Some v" for v
    using assms(2) that by (simp add: in_inv_def good_state_def)
  obtain x where x: "(case in_res st of
         None \<Rightarrow> Inl BadAccess
       | Some (AGTV_OBJECT pairs) \<Rightarrow> agtype_typecast_object tx pairs x st
       | Some (AGTV_ARRAY raw elems) \<Rightarrow> agtype_typecast_array tx raw elems x st
       | Some _ \<Rightarrow> Inl (Ereport ''unsupported type to annotate'')) = Inr st'"
    using assms(1) unfolding agtype_in_agtype_annotation_def bindE_eq_Inr by blast
  then obtain v where v: "in_res st = Some v" by (cases "in_res st") auto
  obtain T where T: "set_type T v st = Inr st'" "\<And>w. retag T v = Inr w \<Longrightarrow> good_value tx w"
  proof (cases v)
    case (AGTV_OBJECT ps)
    with x v have "agtype_typecast_object tx ps x st = Inr st'" by simp
    then show ?thesis
      using that retag_good(1,2) [OF g [OF v, unfolded AGTV_OBJECT]] unfolding agtype_typecast_object_def AGTV_OBJECT
      by (metis (no_types, lifting) sum.distinct(1))
  next
    case (AGTV_ARRAY raw es)
    with x v have "agtype_typecast_array tx raw es x st = Inr st'" by simp
    then show ?thesis
      using that retag_good(3) [OF g [OF v, unfolded AGTV_ARRAY]] unfolding agtype_typecast_array_def AGTV_ARRAY
      by (metis (no_types, lifting) sum.distinct(1))
  qed (use x v in simp_all)
  from set_type_good [OF T(1) assms(2) v T(2)] show ?thesis .
qed

lemma field_start_good:
  assumes "agtype_in_object_field_start env s b st = Inr st'" "in_inv tx k st"
  shows "in_inv tx k st'"
  using assms in_push_child [of env WAGT_KEY _ st st' tx k]
  by (auto simp: agtype_in_object_field_start_def bindE_eq_Inr split: option.splits)

text \<open>The values the input function builds are well typed at every moment.\<close>

interpretation in_sem: parse_invariant "agtype_in_sem env tx nt" "\<lambda>k st. qsort_ok (pg_qsort_arg env) \<longrightarrow> in_inv tx k st"
  for env tx nt
proof unfold_locales
qed (auto simp: agtype_in_sem_def call0_def call_def agtype_in_object_start_def agtype_in_object_end_def
    agtype_in_array_start_def agtype_in_array_end_def
    intro: in_push_begin in_push_end field_start_good in_scalar_good in_annotation_good)

text \<open>C30: every value \<open>agtype_value_from_cstring\<close> returns is well typed: each object in it, at any depth,
  has strictly sorted keys without duplicates, and each vertex, edge and path in it passed the
  structure check of its typecast.\<close>

theorem parsed_value_well_typed:
  assumes "qsort_ok (pg_qsort_arg env)" "agtype_value_from_cstring env tx nt str after = Inr (Some v)"
  shows "good_value tx v"
proof -
  obtain lx st where p: "parse_agtype tx (agtype_in_sem env tx nt) (Suc (length str))
      (make_agtype_lex_context_cstring_len str after True, \<lparr>parse_state = [], in_res = None\<rparr>) = Inr (lx, st)" "in_res st = Some v"
    using assms(2) by (auto simp: agtype_value_from_cstring_def bindE_eq_Inr)
  have "in_inv tx [] \<lparr>parse_state = [], in_res = None\<rparr>" by (simp add: in_inv_def good_state_def open_conts_def)
  then have "in_inv tx [] st" using in_sem.parse_agtype_keeps [OF p(1), of "[]"] assms(1) by blast
  with p(2) show ?thesis by (simp add: in_inv_def good_state_def)
qed

subsection \<open>Fields of vertices and edges\<close>

definition AGTYPE_VERTEX_GET_LABEL :: "agtype_pair list \<Rightarrow> agtype_value result" where
  "AGTYPE_VERTEX_GET_LABEL ps =
     (if length ps \<noteq> VERTEX_NUM_FIELDS then Inl (Ereport ''invalid vertex structure'') else Inr (pair_value (ps ! 1)))"

definition AGTYPE_VERTEX_GET_PROPERTIES :: "agtype_pair list \<Rightarrow> agtype_value result" where
  "AGTYPE_VERTEX_GET_PROPERTIES ps =
     (if length ps \<noteq> VERTEX_NUM_FIELDS then Inl (Ereport ''invalid vertex structure'') else Inr (pair_value (ps ! 2)))"

definition AGTYPE_EDGE_GET_LABEL :: "agtype_pair list \<Rightarrow> agtype_value result" where
  "AGTYPE_EDGE_GET_LABEL ps =
     (if length ps \<noteq> EDGE_NUM_FIELDS then Inl (Ereport ''invalid edge structure'') else Inr (pair_value (ps ! 1)))"

definition AGTYPE_EDGE_GET_END_ID :: "agtype_pair list \<Rightarrow> agtype_value result" where
  "AGTYPE_EDGE_GET_END_ID ps =
     (if length ps \<noteq> EDGE_NUM_FIELDS then Inl (Ereport ''invalid edge structure'') else Inr (pair_value (ps ! 2)))"

definition AGTYPE_EDGE_GET_START_ID :: "agtype_pair list \<Rightarrow> agtype_value result" where
  "AGTYPE_EDGE_GET_START_ID ps =
     (if length ps \<noteq> EDGE_NUM_FIELDS then Inl (Ereport ''invalid edge structure'') else Inr (pair_value (ps ! 3)))"

definition AGTYPE_EDGE_GET_PROPERTIES :: "agtype_pair list \<Rightarrow> agtype_value result" where
  "AGTYPE_EDGE_GET_PROPERTIES ps =
     (if length ps \<noteq> EDGE_NUM_FIELDS then Inl (Ereport ''invalid edge structure'') else Inr (pair_value (ps ! 4)))"

text \<open>A field found by name, and that an accessor returns it.\<close>

definition accesses :: "pg_text \<Rightarrow> byte list \<Rightarrow> agtype_value_type \<Rightarrow> agtype_pair list \<Rightarrow> agtype_value result \<Rightarrow> bool" where
  "accesses tx name vt ps r \<longleftrightarrow> (\<exists>p \<in> set ps. is_field tx name vt p \<and> r = Inr (pair_value p))"

lemma field_lengths:
  "length str_id = 2" "length str_label = 5" "length str_end_id = 6" "length str_start_id = 8" "length str_properties = 10"
  by (simp_all add: str_id_def str_label_def str_end_id_def str_start_id_def str_properties_def)

lemma field_image: "\<exists>p \<in> set ps. is_field tx name vt p \<Longrightarrow> length name \<in> (\<lambda>p. length (pair_key p)) ` set ps"
  by (metis image_eqI is_field_def)

lemma keys_sorted_lengths: "keys_sorted ps \<Longrightarrow> sorted_wrt (\<le>) (map (\<lambda>p. length (pair_key p)) ps)"
  unfolding keys_sorted_def sorted_wrt_map
  by (erule sorted_wrt_mono_rel [rotated]) (auto simp: length_compare_agtype_string_value_def split: if_splits)

lemma vertex_loop_fields:
  "vertex_loop tx ps a b c \<Longrightarrow>
     (a \<or> (\<exists>p \<in> set ps. is_field tx str_id Type_INTEGER p)) \<and>
     (b \<or> (\<exists>p \<in> set ps. is_field tx str_label Type_STRING p)) \<and>
     (c \<or> (\<exists>p \<in> set ps. is_field tx str_properties Type_OBJECT p))"
  by (induction tx ps a b c rule: vertex_loop.induct) (auto split: if_splits)

lemma edge_loop_fields:
  "edge_loop tx ps a b c d e \<Longrightarrow>
     (a \<or> (\<exists>p \<in> set ps. is_field tx str_id Type_INTEGER p)) \<and>
     (b \<or> (\<exists>p \<in> set ps. is_field tx str_label Type_STRING p)) \<and>
     (c \<or> (\<exists>p \<in> set ps. is_field tx str_properties Type_OBJECT p)) \<and>
     (d \<or> (\<exists>p \<in> set ps. is_field tx str_start_id Type_INTEGER p)) \<and>
     (e \<or> (\<exists>p \<in> set ps. is_field tx str_end_id Type_INTEGER p))"
proof (induction ps arbitrary: a b c d e)
  case (Cons p ps)
  from Cons.prems show ?case by (simp split: if_splits) (drule Cons.IH, blast)+
qed simp

text \<open>Sorted keys whose lengths include those of a list of field names are in the order of the names.\<close>

lemma lengths_fixed:
  assumes "keys_sorted ps" "length ps = length L" "sorted L" "distinct L" "set L \<subseteq> (\<lambda>p. length (pair_key p)) ` set ps"
  shows "map (\<lambda>p. length (pair_key p)) ps = L"
proof -
  let ?K = "map (\<lambda>p. length (pair_key p)) ps"
  have "card (set L) = length L" by (rule distinct_card [OF assms(4)])
  moreover have "card (set ?K) \<le> length L" using card_length [of ?K] assms(2) by simp
  ultimately have eq: "set L = set ?K" using assms(5) by (intro card_seteq) simp_all
  with assms(2,4) have "distinct ?K" by (intro card_distinct) (simp add: distinct_card [symmetric])
  with keys_sorted_lengths [OF assms(1)] assms(3,4) eq show ?thesis by (intro sorted_distinct_set_unique) auto
qed

lemma field_position:
  assumes "map (\<lambda>p. length (pair_key p)) ps = L" "distinct L" "i < length L" "p \<in> set ps" "length (pair_key p) = L ! i"
  shows "ps ! i = p"
proof -
  obtain j where j: "j < length ps" "ps ! j = p" using assms(4) by (auto simp: in_set_conv_nth)
  moreover have len: "length L = length ps" using assms(1) by auto
  ultimately have "L ! j = L ! i" using assms(1,5) by auto
  then have "j = i" using nth_eq_iff_index_eq [OF assms(2)] j(1) len assms(3) by simp
  with j show ?thesis by simp
qed

lemma vertex_lengths:
  assumes "keys_sorted ps" "is_object_vertex tx ps"
  shows "map (\<lambda>p. length (pair_key p)) ps = [2, 5, 10]"
proof (rule lengths_fixed [OF assms(1)])
  show "length ps = length [2, 5, 10 :: nat]" using assms(2) by (simp add: is_object_vertex_def)
  show "set [2, 5, 10] \<subseteq> (\<lambda>p. length (pair_key p)) ` set ps"
    using vertex_loop_fields [of tx ps False False False] assms(2) field_image [of ps tx str_id Type_INTEGER]
      field_image [of ps tx str_label Type_STRING] field_image [of ps tx str_properties Type_OBJECT]
    unfolding is_object_vertex_def field_lengths by simp
qed auto

lemma edge_lengths:
  assumes "keys_sorted ps" "is_object_edge tx ps"
  shows "map (\<lambda>p. length (pair_key p)) ps = [2, 5, 6, 8, 10]"
proof (rule lengths_fixed [OF assms(1)])
  show "length ps = length [2, 5, 6, 8, 10 :: nat]" using assms(2) by (simp add: is_object_edge_def)
  show "set [2, 5, 6, 8, 10] \<subseteq> (\<lambda>p. length (pair_key p)) ` set ps"
    using edge_loop_fields [of tx ps False False False False False] assms(2) field_image [of ps tx str_id Type_INTEGER]
      field_image [of ps tx str_label Type_STRING] field_image [of ps tx str_properties Type_OBJECT]
      field_image [of ps tx str_start_id Type_INTEGER] field_image [of ps tx str_end_id Type_INTEGER]
    unfolding is_object_edge_def field_lengths by simp
qed auto

lemma accesses_nth:
  assumes "map (\<lambda>p. length (pair_key p)) ps = L" "distinct L" "i < length L" "\<exists>p \<in> set ps. is_field tx name vt p" "length name = L ! i"
  shows "accesses tx name vt ps (Inr (pair_value (ps ! i)))"
proof -
  obtain p where p: "p \<in> set ps" "is_field tx name vt p" using assms(4) by blast
  then have "ps ! i = p" using assms(5) by (intro field_position [OF assms(1-3)]) (simp_all add: is_field_def)
  with p show ?thesis unfolding accesses_def by blast
qed

text \<open>C31: the macros that read the fields of a vertex or an edge by position return the fields the typecast
  check found by name, for every vertex and edge with sorted keys that passed the check.\<close>

theorem entity_fields_by_position:
  "(keys_sorted ps \<and> is_object_vertex tx ps \<longrightarrow>
      accesses tx str_id Type_INTEGER ps (AGTYPE_VERTEX_GET_ID ps) \<and>
      accesses tx str_label Type_STRING ps (AGTYPE_VERTEX_GET_LABEL ps) \<and>
      accesses tx str_properties Type_OBJECT ps (AGTYPE_VERTEX_GET_PROPERTIES ps)) \<and>
   (keys_sorted ps \<and> is_object_edge tx ps \<longrightarrow>
      accesses tx str_id Type_INTEGER ps (AGTYPE_EDGE_GET_ID ps) \<and>
      accesses tx str_label Type_STRING ps (AGTYPE_EDGE_GET_LABEL ps) \<and>
      accesses tx str_end_id Type_INTEGER ps (AGTYPE_EDGE_GET_END_ID ps) \<and>
      accesses tx str_start_id Type_INTEGER ps (AGTYPE_EDGE_GET_START_ID ps) \<and>
      accesses tx str_properties Type_OBJECT ps (AGTYPE_EDGE_GET_PROPERTIES ps))"
proof (intro conjI impI; elim conjE)
  assume v: "keys_sorted ps" "is_object_vertex tx ps"
  note L = accesses_nth [OF vertex_lengths [OF v]]
  have f: "length ps = 3" "\<exists>p \<in> set ps. is_field tx str_id Type_INTEGER p" "\<exists>p \<in> set ps. is_field tx str_label Type_STRING p"
    "\<exists>p \<in> set ps. is_field tx str_properties Type_OBJECT p"
    using vertex_loop_fields [of tx ps False False False] v(2) by (simp_all add: is_object_vertex_def)
  show "accesses tx str_id Type_INTEGER ps (AGTYPE_VERTEX_GET_ID ps)"
    using L [OF _ _ f(2), of 0] f(1) by (simp add: AGTYPE_VERTEX_GET_ID_def VERTEX_NUM_FIELDS_def str_id_def)
  show "accesses tx str_label Type_STRING ps (AGTYPE_VERTEX_GET_LABEL ps)"
    using L [OF _ _ f(3), of 1] f(1) by (simp add: AGTYPE_VERTEX_GET_LABEL_def VERTEX_NUM_FIELDS_def str_label_def)
  show "accesses tx str_properties Type_OBJECT ps (AGTYPE_VERTEX_GET_PROPERTIES ps)"
    using L [OF _ _ f(4), of 2] f(1) by (simp add: AGTYPE_VERTEX_GET_PROPERTIES_def VERTEX_NUM_FIELDS_def str_properties_def)
next
  assume e: "keys_sorted ps" "is_object_edge tx ps"
  note L = accesses_nth [OF edge_lengths [OF e]]
  have f: "length ps = 5" "\<exists>p \<in> set ps. is_field tx str_id Type_INTEGER p" "\<exists>p \<in> set ps. is_field tx str_label Type_STRING p"
    "\<exists>p \<in> set ps. is_field tx str_properties Type_OBJECT p" "\<exists>p \<in> set ps. is_field tx str_start_id Type_INTEGER p"
    "\<exists>p \<in> set ps. is_field tx str_end_id Type_INTEGER p"
    using edge_loop_fields [of tx ps False False False False False] e(2) by (simp_all add: is_object_edge_def)
  show "accesses tx str_id Type_INTEGER ps (AGTYPE_EDGE_GET_ID ps)"
    using L [OF _ _ f(2), of 0] f(1) by (simp add: AGTYPE_EDGE_GET_ID_def EDGE_NUM_FIELDS_def str_id_def)
  show "accesses tx str_label Type_STRING ps (AGTYPE_EDGE_GET_LABEL ps)"
    using L [OF _ _ f(3), of 1] f(1) by (simp add: AGTYPE_EDGE_GET_LABEL_def EDGE_NUM_FIELDS_def str_label_def)
  show "accesses tx str_end_id Type_INTEGER ps (AGTYPE_EDGE_GET_END_ID ps)"
    using L [OF _ _ f(6), of 2] f(1) by (simp add: AGTYPE_EDGE_GET_END_ID_def EDGE_NUM_FIELDS_def str_end_id_def)
  show "accesses tx str_start_id Type_INTEGER ps (AGTYPE_EDGE_GET_START_ID ps)"
    using L [OF _ _ f(5), of 3] f(1) by (simp add: AGTYPE_EDGE_GET_START_ID_def EDGE_NUM_FIELDS_def str_start_id_def)
  show "accesses tx str_properties Type_OBJECT ps (AGTYPE_EDGE_GET_PROPERTIES ps)"
    using L [OF _ _ f(4), of 4] f(1) by (simp add: AGTYPE_EDGE_GET_PROPERTIES_def EDGE_NUM_FIELDS_def str_properties_def)
qed

text \<open>Witness of C31: a vertex with upper-case keys.\<close>

definition sample_vertex :: "agtype_pair list" where
  "sample_vertex = [([73, 68], AGTV_INTEGER 7, 0), ([76, 97, 98, 101, 108], AGTV_STRING [65], 1), (str_properties, AGTV_OBJECT [], 2)]"

theorem entity_fields_by_position_witness:
  "accesses utf8_server str_id Type_INTEGER sample_vertex (AGTYPE_VERTEX_GET_ID sample_vertex) \<and>
   AGTYPE_VERTEX_GET_ID sample_vertex = Inr (AGTV_INTEGER 7)"
proof -
  have "keys_sorted sample_vertex"
    by (simp add: sample_vertex_def keys_sorted_def length_compare_agtype_string_value_def str_properties_def)
  moreover have "is_object_vertex utf8_server sample_vertex"
    by (simp add: is_object_vertex_def sample_vertex_def is_field_def utf8_server_def ascii_lower_def
        str_id_def str_label_def str_properties_def)
  ultimately show ?thesis
    using entity_fields_by_position [of sample_vertex utf8_server]
    by (simp add: AGTYPE_VERTEX_GET_ID_def sample_vertex_def VERTEX_NUM_FIELDS_def)
qed

text \<open>Witness of C30: the text \<open>{}\<close>.\<close>

lemma lex_empty_object:
  "agtype_lex utf8_server (make_agtype_lex_context_cstring_len [123, 125] [0] True) =
     Inr \<lparr>lx_rest = [125], lx_after = [0], lx_token = Some [123], token_type = AGTYPE_TOKEN_OBJECT_START, lex_level = 0,
          line_number = 1, strval = Some []\<rparr>"
  "agtype_lex utf8_server \<lparr>lx_rest = [125], lx_after = [0], lx_token = Some [123], token_type = AGTYPE_TOKEN_OBJECT_START, lex_level = 1,
          line_number = ln, strval = Some []\<rparr> =
     Inr \<lparr>lx_rest = [], lx_after = [0], lx_token = Some [125], token_type = AGTYPE_TOKEN_OBJECT_END, lex_level = 1,
          line_number = ln, strval = Some []\<rparr>"
  by (simp_all add: agtype_lex_def make_agtype_lex_context_cstring_len_def is_ws_def ch_defs set_token_def)

lemma parse_empty_object:
  "parse_agtype utf8_server (agtype_in_sem isort_env utf8_server nt) (Suc n)
     (make_agtype_lex_context_cstring_len [123, 125] [0] True, \<lparr>parse_state = [], in_res = None\<rparr>) =
   Inr (\<lparr>lx_rest = [], lx_after = [0], lx_token = None, token_type = AGTYPE_TOKEN_END, lex_level = 0, line_number = 1,
         strval = Some []\<rparr>, \<lparr>parse_state = [], in_res = Some (AGTV_OBJECT [])\<rparr>)"
  by (simp add: parse_agtype_def lex_empty_object lex_empty_array(3) lex_peek_def parse_object_def check_stack_depth_def
      utf8_server_def [THEN arg_cong, of pg_stack_ok] call0_def agtype_in_sem_def lex_expect_def lex_accept_def
      parse_fields_def parse_annotation_def agtype_in_object_start_def agtype_in_object_end_def in_push_def
      pop_state_def uniqueify_agtype_object_def)

theorem parsed_value_well_typed_witness:
  "agtype_value_from_cstring isort_env utf8_server decimal_text [123, 125] [0] = Inr (Some (AGTV_OBJECT [])) \<and>
   good_value utf8_server (AGTV_OBJECT [])"
proof -
  have "agtype_value_from_cstring isort_env utf8_server decimal_text [123, 125] [0] = Inr (Some (AGTV_OBJECT []))"
    by (simp add: agtype_value_from_cstring_def parse_empty_object)
  with parsed_value_well_typed [OF isort_env_qsort this] show ?thesis by blast
qed

end
