(* ===== verification/Agtype_RawEntity.thy ===== *)
theory Agtype_RawEntity
  imports Agtype_Raw Agtype_Entity
begin

text \<open>
  Vertices and edges built directly in storage format (\<open>build_vertex_agtype\<close>, \<open>build_edge_agtype\<close> and their SQL and C entry
  points in \<open>src/backend/utils/adt/agtype.c\<close>). The writers copy \<open>VARSIZE\<close> bytes from behind the varlena header, four more than
  there are, so every nested container is followed by four stray bytes; the readers never look at them, and the
  entity is read back as the pairs it was built from.
\<close>

subsection \<open>The builders\<close>

text \<open>The argument \<open>properties\<close>: a null pointer stands for an empty object. \<open>behind\<close> is the memory behind the buffer of
  the empty object.\<close>

definition properties_or_empty :: "string \<Rightarrow> byte list \<Rightarrow> agtype_ptr option \<Rightarrow> agtype_ptr result" where
  "properties_or_empty msg behind properties =
     (case properties of
        None \<Rightarrow> bindE (init_agtype_build_state 0 AGT_FOBJECT) (\<lambda>bs. Inr (build_agtype bs behind))
      | Some p \<Rightarrow> bindE (AGT_ROOT_IS_OBJECT (root_mem p)) (\<lambda>obj. if obj then Inr p else Inl (Ereport msg)))"

definition build_vertex_object_agtype ::
    "byte list \<Rightarrow> byte list \<Rightarrow> graphid \<Rightarrow> byte list \<Rightarrow> agtype_ptr option \<Rightarrow> agtype_ptr result" where
  "build_vertex_object_agtype behind behind' gid label properties =
     bindE (properties_or_empty ''_agtype_build_vertex() properties argument must be an object'' behind properties) (\<lambda>props.
     bindE (init_agtype_build_state 3 AGT_FOBJECT) (\<lambda>b0.
     bindE (write_string b0 str_id) (\<lambda>b1.
     bindE (write_string b1 str_label) (\<lambda>b2.
     bindE (write_string b2 str_properties) (\<lambda>b3.
     bindE (write_graphid b3 gid) (\<lambda>b4.
     bindE (write_string b4 label) (\<lambda>b5.
     bindE (write_container b5 props) (\<lambda>b6. Inr (build_agtype b6 behind')))))))))"

definition build_edge_object_agtype ::
    "byte list \<Rightarrow> byte list \<Rightarrow> graphid \<Rightarrow> graphid \<Rightarrow> graphid \<Rightarrow> byte list \<Rightarrow> agtype_ptr option \<Rightarrow> agtype_ptr result" where
  "build_edge_object_agtype behind behind' gid start_id end_id label properties =
     bindE (properties_or_empty ''_agtype_build_edge() properties argument must be an object'' behind properties) (\<lambda>props.
     bindE (init_agtype_build_state 5 AGT_FOBJECT) (\<lambda>b0.
     bindE (write_string b0 str_id) (\<lambda>b1.
     bindE (write_string b1 str_label) (\<lambda>b2.
     bindE (write_string b2 str_end_id) (\<lambda>b3.
     bindE (write_string b3 str_start_id) (\<lambda>b4.
     bindE (write_string b4 str_properties) (\<lambda>b5.
     bindE (write_graphid b5 gid) (\<lambda>b6.
     bindE (write_string b6 label) (\<lambda>b7.
     bindE (write_graphid b7 end_id) (\<lambda>b8.
     bindE (write_graphid b8 start_id) (\<lambda>b9.
     bindE (write_container b9 props) (\<lambda>b10. Inr (build_agtype b10 behind')))))))))))))"

text \<open>The raw scalar around an entity; the result is the datum after its varlena header.\<close>

definition wrap_entity :: "agtype_ptr \<Rightarrow> uint32 \<Rightarrow> byte list result" where
  "wrap_entity entity header =
     bindE (init_agtype_build_state 1 (AGT_FARRAY OR AGT_FSCALAR)) (\<lambda>b0.
     bindE (write_extended b0 entity header) (\<lambda>b1. Inr (root_mem (build_agtype b1 []))))"

definition build_vertex_agtype :: "byte list \<Rightarrow> byte list \<Rightarrow> graphid \<Rightarrow> byte list \<Rightarrow> agtype_ptr option \<Rightarrow> byte list result" where
  "build_vertex_agtype behind behind' gid label properties =
     bindE (build_vertex_object_agtype behind behind' gid label properties) (\<lambda>vertex. wrap_entity vertex AGT_HEADER_VERTEX)"

definition build_edge_agtype ::
    "byte list \<Rightarrow> byte list \<Rightarrow> graphid \<Rightarrow> graphid \<Rightarrow> graphid \<Rightarrow> byte list \<Rightarrow> agtype_ptr option \<Rightarrow> byte list result" where
  "build_edge_agtype behind behind' gid start_id end_id label properties =
     bindE (build_edge_object_agtype behind behind' gid start_id end_id label properties) (\<lambda>edge. wrap_entity edge AGT_HEADER_EDGE)"

text \<open>The SQL functions \<open>_agtype_build_vertex\<close> and \<open>_agtype_build_edge\<close>, whose arguments may be null, and the C entry points.\<close>

definition agtype_build_vertex ::
    "byte list \<Rightarrow> byte list \<Rightarrow> graphid option \<Rightarrow> byte list option \<Rightarrow> agtype_ptr option \<Rightarrow> byte list result" where
  "agtype_build_vertex behind behind' gid label properties =
     (case gid of
        None \<Rightarrow> Inl (Ereport ''_agtype_build_vertex() graphid cannot be NULL'')
      | Some i \<Rightarrow>
          (case label of
             None \<Rightarrow> Inl (Ereport ''_agtype_build_vertex() label cannot be NULL'')
           | Some l \<Rightarrow> build_vertex_agtype behind behind' i l properties))"

definition agtype_build_edge ::
    "byte list \<Rightarrow> byte list \<Rightarrow> graphid option \<Rightarrow> graphid option \<Rightarrow> graphid option \<Rightarrow> byte list option \<Rightarrow> agtype_ptr option \<Rightarrow>
     byte list result" where
  "agtype_build_edge behind behind' gid start_id end_id label properties =
     (case gid of
        None \<Rightarrow> Inl (Ereport ''_agtype_build_edge() graphid cannot be NULL'')
      | Some i \<Rightarrow>
          (case label of
             None \<Rightarrow> Inl (Ereport ''_agtype_build_vertex() label cannot be NULL'')
           | Some l \<Rightarrow>
               (case end_id of
                  None \<Rightarrow> Inl (Ereport ''_agtype_build_edge() endid cannot be NULL'')
                | Some e \<Rightarrow>
                    (case start_id of
                       None \<Rightarrow> Inl (Ereport ''_agtype_build_edge() startid cannot be NULL'')
                     | Some s \<Rightarrow> build_edge_agtype behind behind' i s e l properties))))"

definition make_vertex :: "byte list \<Rightarrow> byte list \<Rightarrow> graphid \<Rightarrow> byte list \<Rightarrow> agtype_ptr \<Rightarrow> byte list result" where
  "make_vertex behind behind' gid label properties = build_vertex_agtype behind behind' gid label (Some properties)"

definition make_edge ::
    "byte list \<Rightarrow> byte list \<Rightarrow> graphid \<Rightarrow> graphid \<Rightarrow> graphid \<Rightarrow> byte list \<Rightarrow> agtype_ptr \<Rightarrow> byte list result" where
  "make_edge behind behind' gid startid endid label properties =
     build_edge_agtype behind behind' gid startid endid label (Some properties)"

subsection \<open>What they write\<close>

definition vertex_pairs :: "graphid \<Rightarrow> byte list \<Rightarrow> agtype_pair list \<Rightarrow> agtype_pair list" where
  "vertex_pairs gid label ps = [(str_id, AGTV_INTEGER gid, 0), (str_label, AGTV_STRING label, 1), (str_properties, AGTV_OBJECT ps, 2)]"

definition edge_pairs :: "graphid \<Rightarrow> graphid \<Rightarrow> graphid \<Rightarrow> byte list \<Rightarrow> agtype_pair list \<Rightarrow> agtype_pair list" where
  "edge_pairs gid start_id end_id label ps =
     [(str_id, AGTV_INTEGER gid, 0), (str_label, AGTV_STRING label, 1), (str_end_id, AGTV_INTEGER end_id, 2),
      (str_start_id, AGTV_INTEGER start_id, 3), (str_properties, AGTV_OBJECT ps, 4)]"

text \<open>The image of a value with stray bytes behind it when it is a container.\<close>

definition stray_enc :: "byte list \<Rightarrow> nat \<Rightarrow> agtype_pair \<Rightarrow> byte list" where
  "stray_enc stray q x = enc_pair q x @ (if IS_A_AGTYPE_SCALAR (pair_value x) then [] else stray)"

text \<open>The pointer \<open>p\<close> leads to a stored object, with \<open>rest\<close> behind it.\<close>

definition object_ptr :: "agtype_ptr \<Rightarrow> agtype_pair list \<Rightarrow> byte list \<Rightarrow> bool" where
  "object_ptr p ps rest \<longleftrightarrow>
     varsize p = 4 + length (object_image enc_pair ps) \<and> root_mem p = object_image enc_pair ps @ rest"

lemma string_appends: "appends hdr n f t (\<lambda>bs. write_string bs s) x" if "\<And>q. f q x = s" "t x = AGTENTRY_IS_STRING"
  using that by (simp add: appends_def write_string_child)

lemma graphid_appends: "appends hdr n (stray_enc stray) (\<lambda>x. ty (pair_value x)) (\<lambda>bs. write_graphid bs g) (k, AGTV_INTEGER g, i)"
  by (simp add: appends_def write_graphid_child stray_enc_def)

lemma container_appends:
  assumes "object_ptr p ps rest" "4 \<le> length rest"
  shows "appends hdr n (stray_enc (take 4 rest)) (\<lambda>x. ty (pair_value x)) (\<lambda>bs. write_container bs p) (k, AGTV_OBJECT ps, i)"
  using assms by (simp add: appends_def write_container_child stray_enc_def object_ptr_def)

lemma object_writers:
  assumes "list_all2 (appends (of_nat (length kvs) OR AGT_FOBJECT) (2 * length kvs) f (\<lambda>x. ty (pair_value x))) ws kvs"
    and "fits (length (object_data_of f kvs))"
  shows "run_writers (map (\<lambda>x bs. write_string bs (pair_key x)) kvs @ ws) (state_of (of_nat (length kvs) OR AGT_FOBJECT) (2 * length kvs) [] []) =
    Inr (state_of (of_nat (length kvs) OR AGT_FOBJECT) (2 * length kvs) (object_metas_of f kvs) (object_data_of f kvs))"
proof -
  let ?h = "of_nat (length kvs) OR AGT_FOBJECT :: uint32"
  have k: "list_all2 (appends ?h (2 * length kvs) (\<lambda>q x. pair_key x) (\<lambda>x. AGTENTRY_IS_STRING)) (map (\<lambda>x bs. write_string bs (pair_key x)) kvs) kvs"
    by (simp add: list_all2_map1 list_all2_same string_appends)
  have f: "fits (keys_len kvs)" using assms(2) by (rule fits_mono) simp
  have "run_writers (map (\<lambda>x bs. write_string bs (pair_key x)) kvs) (state_of ?h (2 * length kvs) [] []) =
      Inr (state_of ?h (2 * length kvs) (key_metas kvs) (concat (map pair_key kvs)))"
    using run_writers_eq [OF k, of "[]" "[]"] f by (simp add: key_seq key_metas_eq fits_iff)
  then show ?thesis
    using run_writers_eq [OF assms(1), of "key_metas kvs" "concat (map pair_key kvs)"] assms(2) f by (simp add: run_append)
qed

lemma run_fun: "run_writers [] = Inr" "run_writers (w # ws) = (\<lambda>bs. bindE (w bs) (run_writers ws))"
  by (simp_all add: fun_eq_iff)

text \<open>Writing a whole object, from an empty state to the pointer returned.\<close>

definition write_object :: "agtype_pair list \<Rightarrow> (agtype_build_state \<Rightarrow> agtype_build_state result) list \<Rightarrow> byte list \<Rightarrow> agtype_ptr result" where
  "write_object kvs ws behind =
     bindE (init_agtype_build_state (length kvs) AGT_FOBJECT) (\<lambda>b.
     bindE (run_writers (map (\<lambda>x bs. write_string bs (pair_key x)) kvs @ ws) b) (\<lambda>b'. Inr (build_agtype b' behind)))"

lemma write_object_eq:
  assumes "list_all2 (appends (of_nat (length kvs) OR AGT_FOBJECT) (2 * length kvs) f (\<lambda>x. ty (pair_value x))) ws kvs"
    and "fits (length (object_image f kvs))"
  shows "write_object kvs ws behind = Inr \<lparr>varsize = 4 + length (object_image f kvs), root_mem = object_image f kvs @ behind\<rparr>"
proof -
  have "fits (length (object_data_of f kvs))" using assms(2) by (rule fits_mono) simp
  then show ?thesis
    using build_done [of "object_metas_of f kvs" "2 * length kvs"]
    by (simp add: write_object_def init_object_state object_writers [OF assms(1)] object_image_def)
qed

lemma build_vertex_object_writers:
  "build_vertex_object_agtype behind behind' gid label properties =
     bindE (properties_or_empty ''_agtype_build_vertex() properties argument must be an object'' behind properties) (\<lambda>p.
       write_object (vertex_pairs gid label ps)
         [\<lambda>bs. write_graphid bs gid, \<lambda>bs. write_string bs label, \<lambda>bs. write_container bs p] behind')"
  by (simp add: build_vertex_object_agtype_def write_object_def vertex_pairs_def run_fun bindE_assoc eval_nat_numeral)

lemma build_edge_object_writers:
  "build_edge_object_agtype behind behind' gid start_id end_id label properties =
     bindE (properties_or_empty ''_agtype_build_edge() properties argument must be an object'' behind properties) (\<lambda>p.
       write_object (edge_pairs gid start_id end_id label ps)
         [\<lambda>bs. write_graphid bs gid, \<lambda>bs. write_string bs label, \<lambda>bs. write_graphid bs end_id, \<lambda>bs. write_graphid bs start_id,
          \<lambda>bs. write_container bs p] behind')"
  by (simp add: build_edge_object_agtype_def write_object_def edge_pairs_def run_fun bindE_assoc eval_nat_numeral)

definition given_properties :: "byte list \<Rightarrow> agtype_ptr option \<Rightarrow> agtype_pair list \<Rightarrow> byte list \<Rightarrow> bool" where
  "given_properties behind properties ps rest \<longleftrightarrow>
     (case properties of None \<Rightarrow> ps = [] \<and> rest = behind | Some p \<Rightarrow> object_ptr p ps rest)"

lemma properties_ok:
  assumes "given_properties behind properties ps rest" "fits (length (object_image enc_pair ps))"
  shows "\<exists>p. properties_or_empty msg behind properties = Inr p \<and> object_ptr p ps rest"
proof (cases properties)
  case None
  have "build_agtype (state_of (of_nat 0 OR AGT_FOBJECT) (2 * 0) [] []) behind =
      \<lparr>varsize = 4 + length (object_image enc_pair []), root_mem = object_image enc_pair [] @ behind\<rparr>"
    using build_done [of "[]" 0 "AGT_FOBJECT" "[]" behind] by (simp add: object_image_def key_metas_def keys_len_def)
  with None assms(1) show ?thesis
    unfolding properties_or_empty_def init_object_state [of 0] by (simp add: given_properties_def object_ptr_def)
next
  case (Some p)
  with assms root_object(1) [OF assms(2)] show ?thesis
    by (auto simp: properties_or_empty_def given_properties_def object_ptr_def)
qed

lemma stray_string: "appends hdr n (stray_enc stray) (\<lambda>x. ty (pair_value x)) (\<lambda>bs. write_string bs s) (k, AGTV_STRING s, i)"
  by (rule string_appends) (simp_all add: stray_enc_def)

lemma vertex_object_built:
  assumes "given_properties behind properties ps rest" "4 \<le> length rest" "fits (length (object_image enc_pair ps))"
    and "fits (length (object_image (stray_enc (take 4 rest)) (vertex_pairs gid label ps)))"
  shows "build_vertex_object_agtype behind behind' gid label properties =
    Inr \<lparr>varsize = 4 + length (object_image (stray_enc (take 4 rest)) (vertex_pairs gid label ps)),
         root_mem = object_image (stray_enc (take 4 rest)) (vertex_pairs gid label ps) @ behind'\<rparr>"
proof -
  obtain p where p: "properties_or_empty ''_agtype_build_vertex() properties argument must be an object'' behind properties = Inr p" "object_ptr p ps rest"
    using properties_ok [OF assms(1,3)] by blast
  have "list_all2 (appends h n (stray_enc (take 4 rest)) (\<lambda>x. ty (pair_value x)))
      [\<lambda>bs. write_graphid bs gid, \<lambda>bs. write_string bs label, \<lambda>bs. write_container bs p] (vertex_pairs gid label ps)" for h n
    by (simp add: vertex_pairs_def graphid_appends stray_string container_appends [OF p(2) assms(2)])
  from write_object_eq [OF this assms(4), of behind'] p(1)
  show ?thesis by (simp add: build_vertex_object_writers [where ps = ps])
qed

lemma edge_object_built:
  assumes "given_properties behind properties ps rest" "4 \<le> length rest" "fits (length (object_image enc_pair ps))"
    and "fits (length (object_image (stray_enc (take 4 rest)) (edge_pairs gid start_id end_id label ps)))"
  shows "build_edge_object_agtype behind behind' gid start_id end_id label properties =
    Inr \<lparr>varsize = 4 + length (object_image (stray_enc (take 4 rest)) (edge_pairs gid start_id end_id label ps)),
         root_mem = object_image (stray_enc (take 4 rest)) (edge_pairs gid start_id end_id label ps) @ behind'\<rparr>"
proof -
  obtain p where p: "properties_or_empty ''_agtype_build_edge() properties argument must be an object'' behind properties = Inr p" "object_ptr p ps rest"
    using properties_ok [OF assms(1,3)] by blast
  have "list_all2 (appends h n (stray_enc (take 4 rest)) (\<lambda>x. ty (pair_value x)))
      [\<lambda>bs. write_graphid bs gid, \<lambda>bs. write_string bs label, \<lambda>bs. write_graphid bs end_id, \<lambda>bs. write_graphid bs start_id,
       \<lambda>bs. write_container bs p] (edge_pairs gid start_id end_id label ps)" for h n
    by (simp add: edge_pairs_def graphid_appends stray_string container_appends [OF p(2) assms(2)])
  from write_object_eq [OF this assms(4), of behind'] p(1)
  show ?thesis by (simp add: build_edge_object_writers [where ps = ps])
qed

lemma init_raw: "init_agtype_build_state 1 (AGT_FARRAY OR AGT_FSCALAR) = Inr (state_of (array_header True 1) 1 [] [])"
  using copy_reserved [of "put_u32 (AGT_FARRAY OR AGT_FSCALAR OR 1)" 4 "replicate 4 0"]
  by (simp add: init_agtype_build_state_def reserve_from_buffer_def state_of_def array_header_def or.commute or.left_commute agt_flags)

abbreviation raw_entity :: "uint32 \<Rightarrow> byte list \<Rightarrow> byte list" where
  "raw_entity h img \<equiv> cont_bytes (array_header True 1) [(AGTENTRY_IS_AGTYPE, 4 + length img)] (put_u32 h @ img)"

lemma wrap_entity_eq:
  assumes "varsize e = 4 + length img" "root_mem e = img @ behind" "4 \<le> length behind" "fits (length img + 8)"
  shows "wrap_entity e h = Inr (raw_entity h (img @ take 4 behind))"
proof -
  have "ready 1 [] []" by (simp add: ready_def)
  from write_extended_child [OF this, of "array_header True 1" e h]
  have "write_extended (state_of (array_header True 1) 1 [] []) e h =
      Inr (state_of (array_header True 1) 1 [(AGTENTRY_IS_AGTYPE, 4 + length (img @ take 4 behind))] (put_u32 h @ img @ take 4 behind))"
    using assms by (simp add: put_child_def add.commute)
  with build_done [of "[(AGTENTRY_IS_AGTYPE, 4 + length (img @ take 4 behind))]" 1] show ?thesis
    unfolding wrap_entity_def init_raw by simp
qed

subsection \<open>Reading it back\<close>

definition stray_value :: "byte list \<Rightarrow> agtype_pair \<Rightarrow> byte list \<Rightarrow> agtype_value" where
  "stray_value stray p rst =
     (if IS_A_AGTYPE_SCALAR (pair_value p) then norm (pair_value p)
      else AGTV_BINARY (int (length (cimage (pair_value p) @ stray))) (cimage (pair_value p) @ stray @ rst))"

lemma fill_stray:
  assumes q: "qsort_ok (pg_qsort_arg env)" and v: "wf_value env (pair_value p)" "need (pair_value p) \<le> F"
    and h: "image_at c i data off (ty (pair_value p)) (stray_enc stray off p) rst"
  shows "fill_agtype_value env F c i data (of_nat off) = Inr (stray_value stray p rst)"
proof (cases "IS_A_AGTYPE_SCALAR (pair_value p)")
  case True
  with h have "holds_child c i data off (pair_value p) rst" by (simp add: holds_child_image stray_enc_def)
  then show ?thesis using readsD fill_ok [OF q v] True by (fastforce simp: stray_value_def shallow_def)
next
  case False
  obtain G where F: "F = Suc G" using v(2) need_toks [of "pair_value p"] by (cases F) auto
  have t: "enc_pair off p = padding off @ cimage (pair_value p)" "ty (pair_value p) = AGTENTRY_IS_CONTAINER" using False v(1) by (cases "pair_value p"; simp)+
  have h': "image_at c i data off AGTENTRY_IS_CONTAINER (padding off @ cimage (pair_value p) @ stray) rst" using h False t by (simp add: stray_enc_def)
  then obtain e where "container_child c i = Inr e" "AGTE_TYPE e = AGTENTRY_IS_CONTAINER" by (auto simp: image_at_def)
  with image_at_aligned [OF h'] False show ?thesis
    by (simp add: F fill_body_def agte_macros agtentry_consts stray_value_def del: of_nat_unat of_nat_add)
qed

lemma composite_stray:
  assumes q: "qsort_ok (pg_qsort_arg env)" and v: "\<And>p. p \<in> set kvs \<Longrightarrow> wf_value env (pair_value p) \<and> need (pair_value p) \<le> F \<and> fits (length (cimage (pair_value p)))"
    and "fits (length (object_image (stray_enc stray) kvs))" "pairs_ok kvs" "2 * length kvs + 3 \<le> F"
  shows "ag_deserialize_composite env (fill_agtype_value env F) F (put_u32 h @ object_image (stray_enc stray) kvs @ rst) T =
    retag T (AGTV_OBJECT (renumber norm kvs))"
proof (rule composite_object_of [OF q _ _ _ assms(3-5)])
  show "reads (fill_agtype_value env F) (AGTV_STRING k)" for k using fill_reads_STRING assms(5) by (cases F) simp_all
  show "fill_agtype_value env F c i data (of_nat off) = Inr (stray_value stray p rst)"
    if "p \<in> set kvs" "image_at c i data off (ty (pair_value p)) (stray_enc stray off p) rst" for p c i data off rst
    using fill_stray [OF q _ _ that(2)] v [OF that(1)] by simp
  show "pushes env (fill_agtype_value env F) F (stray_value stray p rst) (pair_value p)" if "p \<in> set kvs" for p rst
  proof -
    have w: "wf_value env (pair_value p)" "need (pair_value p) \<le> F" "fits (length (cimage (pair_value p)))" using v [OF that] by simp_all
    show ?thesis
      using push_scalar push_binary [of env "fill_agtype_value env F" "pair_value p" F "int (length (cimage (pair_value p) @ stray))" "stray @ rst"]
        fill_ok [OF q w(1,2)] w(3) need_toks [of "pair_value p"] w(2)
      by (simp add: stray_value_def)
  qed
qed

lemma raw_entity_read:
  assumes "h = AGT_HEADER_VERTEX \<and> T = Type_VERTEX \<or> h = AGT_HEADER_EDGE \<and> T = Type_EDGE" "fits (length img + 4)"
  shows "get_ith_agtype_value_from_container env (Suc G) (raw_entity h img @ rest) 0 =
    bindE (ag_deserialize_composite env (fill_agtype_value env G) G (put_u32 h @ img @ rest) T) (\<lambda>v. Inr (Some v))"
proof -
  let ?ms = "[(AGTENTRY_IS_AGTYPE, 4 + length img)]"
  have ms: "metas_ok ?ms" using assms(2) by (simp add: metas_ok_def start_of_def add.commute)
  have e: "AGTE_TYPE (entry_at ?ms 0) = AGTENTRY_IS_AGTYPE" using entry_at_fields(1) [OF ms, of 0] by simp
  have hd: "header_is_array (array_header True 1)" "header_size (array_header True 1) = 1"
    using array_header_fields [of 1 True] by (simp_all add: fits_iff)
  have c: "container_child (raw_entity h img @ rest) 0 = Inr (entry_at ?ms 0)" "container_data (raw_entity h img @ rest) 1 = put_u32 h @ img @ rest"
    "get_agtype_offset (raw_entity h img @ rest) 0 = Inr 0"
    using get_agtype_offset_cont [OF ms, of 0] container_data_cont [of ?ms 1] by simp_all
  show ?thesis
    unfolding get_ith_agtype_value_from_container_def
    using assms(1) c e hd
    by (elim disjE) (simp_all add: fill_body_def agte_macros agtentry_consts ag_deserialize_extended_type_def INTALIGN_def agt_header_consts Let_def)
qed

subsection \<open>Entities\<close>

lemma length_stray_object:
  assumes "length stray = 4" "kvs = front @ [(k, AGTV_OBJECT ps, i)]" "\<forall>p \<in> set front. IS_A_AGTYPE_SCALAR (pair_value p)"
  shows "length (object_image (stray_enc stray) kvs) = length (object_image enc_pair kvs) + 4"
proof -
  have "enc_seq (stray_enc stray) q (front @ [x]) = enc_seq enc_pair q (front @ [x]) @ stray" if "\<not> IS_A_AGTYPE_SCALAR (pair_value x)" for q x
    using assms(3) that by (induction front arbitrary: q) (simp_all add: stray_enc_def)
  then show ?thesis using assms(1) by (simp add: assms(2))
qed

lemma entity_read:
  assumes q: "qsort_ok (pg_qsort_arg env)" and h: "h = AGT_HEADER_VERTEX \<and> v = AGTV_VERTEX kvs \<and> T = Type_VERTEX \<or> h = AGT_HEADER_EDGE \<and> v = AGTV_EDGE kvs \<and> T = Type_EDGE"
    and kvs: "kvs = front @ [(k, AGTV_OBJECT ps, i)]" "\<forall>p \<in> set front. IS_A_AGTYPE_SCALAR (pair_value p)"
    and v: "wf_value env v" "need v \<le> F" "fits (length (object_image enc_pair kvs) + 12)" and l: "length stray = 4" "4 \<le> length behind"
  shows "\<exists>d. wrap_entity \<lparr>varsize = 4 + length (object_image (stray_enc stray) kvs), root_mem = object_image (stray_enc stray) kvs @ behind\<rparr> h = Inr d \<and>
    get_ith_agtype_value_from_container env F d 0 = Inr (Some (norm v))"
proof -
  let ?img = "object_image (stray_enc stray) kvs"
  note len = length_stray_object [OF l(1) kvs]
  have "0 < F" using v(2) need_toks [of v] by simp
  then obtain G where F: "F = Suc G" by (cases F) auto
  have k: "kids v = map (\<lambda>p. pair_value p) kvs" using h by auto
  have n: "2 * length kvs + 3 \<le> G" "\<And>p. p \<in> set kvs \<Longrightarrow> need (pair_value p) \<le> G" using need_composite [of v G] v(2) k by (auto simp: F)
  have w: "pairs_ok kvs" "\<And>p. p \<in> set kvs \<Longrightarrow> wf_value env (pair_value p)" using v(1) h by (elim disjE; simp)+
  have f: "fits (length (object_image enc_pair kvs))" "fits (length ?img)" using v(3) len by (auto elim: fits_mono)
  have "wrap_entity \<lparr>varsize = 4 + length ?img, root_mem = ?img @ behind\<rparr> h = Inr (raw_entity h (?img @ take 4 behind))"
    by (rule wrap_entity_eq [OF _ _ l(2)]) (use v(3) len in \<open>simp_all add: add.assoc\<close>)
  moreover have "get_ith_agtype_value_from_container env F (raw_entity h (?img @ take 4 behind) @ []) 0 =
      bindE (ag_deserialize_composite env (fill_agtype_value env G) G (put_u32 h @ (?img @ take 4 behind) @ []) T) (\<lambda>v. Inr (Some v))"
    unfolding F by (rule raw_entity_read) (use h v(3) len l(2) in \<open>auto simp: fits_iff\<close>)
  moreover have "ag_deserialize_composite env (fill_agtype_value env G) G (put_u32 h @ ?img @ take 4 behind) T = retag T (AGTV_OBJECT (renumber norm kvs))"
    by (rule composite_stray [OF q _ f(2) w(1) n(1)]) (use w(2) n(2) value_image_fits [OF _ f(1)] in auto)
  ultimately show ?thesis using h by (auto simp del: length_cont_bytes)
qed

lemmas field_names = str_id_def str_label_def str_end_id_def str_start_id_def str_properties_def

lemma entity_pairs_ok:
  "pairs_ok (vertex_pairs gid label ps)" "pairs_ok (edge_pairs gid start_id end_id label ps)"
  by (simp_all add: vertex_pairs_def edge_pairs_def pairs_ok_def keys_sorted_def length_compare_agtype_string_value_def field_names AGTYPE_MAX_PAIRS_def)

lemma norm_entities:
  "norm (AGTV_VERTEX (vertex_pairs gid label ps)) = AGTV_VERTEX (vertex_pairs gid label (renumber norm ps))"
  "norm (AGTV_EDGE (edge_pairs gid start_id end_id label ps)) = AGTV_EDGE (edge_pairs gid start_id end_id label (renumber norm ps))"
  by (simp_all add: vertex_pairs_def edge_pairs_def renumber_def [of _ "_ # _"])

text \<open>An edge takes more room and more fuel than a vertex with the same label and properties.\<close>

lemma vertex_shorter:
  "length (object_image enc_pair (vertex_pairs gid label ps)) \<le> length (object_image enc_pair (edge_pairs gid start_id end_id label ps))"
proof -
  have "INTALIGN 17 = 20" "INTALIGN 31 = 32" by (simp_all add: INTALIGN_def)
  then show ?thesis
    using INTALIGN_less [of "32 + length label"]
    by (simp add: vertex_pairs_def edge_pairs_def keys_len_def field_lengths) (rule trans_le_add1, simp)
qed

lemma vertex_need: "need (AGTV_VERTEX (vertex_pairs gid label ps)) \<le> need (AGTV_EDGE (edge_pairs gid start_id end_id label ps))"
  by (simp add: need.simps [of "AGTV_VERTEX _"] need.simps [of "AGTV_EDGE _"] vertex_pairs_def edge_pairs_def)

text \<open>C3: A vertex or edge that the SQL builders write directly into storage is read back as exactly the fields it was built
  from, with the properties object of the argument or an empty one for a null, although each nested container was
  copied together with four bytes that do not belong to it.\<close>

theorem built_entities_read_back:
  assumes q: "qsort_ok (pg_qsort_arg env)" and p: "given_properties behind properties ps rest" "4 \<le> length rest" "4 \<le> length behind'"
    and v: "wf_value env (AGTV_OBJECT ps)" "need (AGTV_EDGE (edge_pairs gid start_id end_id label ps)) \<le> F"
    and f: "fits (length (object_image enc_pair (edge_pairs gid start_id end_id label ps)) + 12)"
  shows "(\<exists>d. agtype_build_vertex behind behind' (Some gid) (Some label) properties = Inr d \<and>
      get_ith_agtype_value_from_container env F d 0 = Inr (Some (AGTV_VERTEX (vertex_pairs gid label (renumber norm ps))))) \<and>
    (\<exists>d. agtype_build_edge behind behind' (Some gid) (Some start_id) (Some end_id) (Some label) properties = Inr d \<and>
      get_ith_agtype_value_from_container env F d 0 = Inr (Some (AGTV_EDGE (edge_pairs gid start_id end_id label (renumber norm ps)))))"
proof -
  let ?v = "vertex_pairs gid label ps" let ?e = "edge_pairs gid start_id end_id label ps" let ?s = "take 4 rest"
  have fv: "fits (length (object_image enc_pair ?v) + 12)" using vertex_shorter by (intro fits_mono [OF f]) (simp del: length_object_image)
  have nv: "need (AGTV_VERTEX ?v) \<le> F" using v(2) vertex_need by (rule le_trans [rotated])
  have wf: "wf_value env (AGTV_VERTEX ?v)" "wf_value env (AGTV_EDGE ?e)"
    using v(1) entity_pairs_ok by (auto simp: vertex_pairs_def edge_pairs_def)
  have sp: "?v = [(str_id, AGTV_INTEGER gid, 0), (str_label, AGTV_STRING label, 1)] @ [(str_properties, AGTV_OBJECT ps, 2)]"
    "?e = [(str_id, AGTV_INTEGER gid, 0), (str_label, AGTV_STRING label, 1), (str_end_id, AGTV_INTEGER end_id, 2),
       (str_start_id, AGTV_INTEGER start_id, 3)] @ [(str_properties, AGTV_OBJECT ps, 4)]"
    by (simp_all add: vertex_pairs_def edge_pairs_def)
  have s: "length ?s = 4" using p(2) by simp
  have ps: "fits (length (object_image enc_pair ps))"
    using value_image_fits [of "(str_properties, AGTV_OBJECT ps, 2)" ?v] fv by (auto simp: vertex_pairs_def elim: fits_mono)
  have len: "length (object_image (stray_enc ?s) ?v) = length (object_image enc_pair ?v) + 4"
    "length (object_image (stray_enc ?s) ?e) = length (object_image enc_pair ?e) + 4"
    by (rule length_stray_object [OF s sp(1)], simp) (rule length_stray_object [OF s sp(2)], simp)
  have fits: "fits (length (object_image (stray_enc ?s) ?v))" "fits (length (object_image (stray_enc ?s) ?e))"
    using fv f unfolding len by (auto elim: fits_mono)
  show ?thesis
    using entity_read [OF q _ sp(1) _ wf(1) nv fv s p(3), of AGT_HEADER_VERTEX Type_VERTEX]
      entity_read [OF q _ sp(2) _ wf(2) v(2) f s p(3), of AGT_HEADER_EDGE Type_EDGE]
      vertex_object_built [OF p(1,2) ps fits(1)] edge_object_built [OF p(1,2) ps fits(2)]
    by (simp add: agtype_build_vertex_def build_vertex_agtype_def agtype_build_edge_def build_edge_agtype_def norm_entities del: length_object_image norm_simps)
qed

definition sample_properties :: agtype_ptr where
  "sample_properties =
     \<lparr>varsize = 4 + length (object_image enc_pair [([97], AGTV_INTEGER 7, 0)]),
      root_mem = object_image enc_pair [([97], AGTV_INTEGER 7, 0)] @ [9, 9, 9, 9, 9]\<rparr>"

theorem built_entities_read_back_witness:
  "(\<exists>d. agtype_build_vertex [] [1, 2, 3, 4] (Some 5) (Some [80]) (Some sample_properties) = Inr d \<and>
      get_ith_agtype_value_from_container isort_env 90 d 0 = Inr (Some (AGTV_VERTEX (vertex_pairs 5 [80] (renumber norm [([97], AGTV_INTEGER 7, 0)]))))) \<and>
    (\<exists>d. agtype_build_edge [] [1, 2, 3, 4] (Some 5) (Some 6) (Some 8) (Some [80]) (Some sample_properties) = Inr d \<and>
      get_ith_agtype_value_from_container isort_env 90 d 0 =
        Inr (Some (AGTV_EDGE (edge_pairs 5 6 8 [80] (renumber norm [([97], AGTV_INTEGER 7, 0)])))))"
proof (rule built_entities_read_back [OF isort_env_qsort, where rest = "[9, 9, 9, 9, 9]"])
  show "fits (length (object_image enc_pair (edge_pairs 5 6 8 [80] [([97], AGTV_INTEGER 7, 0)])) + 12)"
    by (simp add: fits_iff edge_pairs_def keys_len_def field_lengths INTALIGN_def)
  show "need (AGTV_EDGE (edge_pairs 5 6 8 [80] [([97], AGTV_INTEGER 7, 0)])) \<le> 90" by (simp add: need.simps edge_pairs_def)
  show "given_properties [] (Some sample_properties) [([97], AGTV_INTEGER 7, 0)] [9, 9, 9, 9, 9]"
    by (simp add: given_properties_def object_ptr_def sample_properties_def)
qed (simp_all add: pairs_ok_def keys_sorted_def AGTYPE_MAX_PAIRS_def)

lemma start_of_extend:
  "start_of ms (length ms) = length data \<Longrightarrow>
   start_of (ms @ enc_metas f t (length data) xs) (length ms + length xs) = length (data @ enc_seq f (length data) xs)"
  using start_of_enc_metas [of f t "length data" xs "length xs"] by (simp add: start_of_def)

text \<open>The four bytes are read whether or not they exist: when fewer of them can be read, the copy leaves the memory of the
  argument.\<close>

theorem properties_copied_past_the_end:
  assumes "object_ptr p ps rest" "length rest < 4" "fits (length (object_image enc_pair ps))" "fits (32 + length label)"
  shows "agtype_build_vertex behind behind' (Some gid) (Some label) (Some p) = Inl BadAccess"
proof -
  let ?h = "of_nat 3 OR AGT_FOBJECT :: uint32" let ?f = "stray_enc []" let ?t = "\<lambda>x. ty (pair_value x)"
  let ?k = "vertex_pairs gid label ps" let ?xs = "[(str_id, AGTV_INTEGER gid, 0), (str_label, AGTV_STRING label, 1)] :: agtype_pair list"
  have pr: "properties_or_empty msg behind (Some p) = Inr p" for msg
    using root_object(1) [OF assms(3)] assms(1) by (simp add: properties_or_empty_def object_ptr_def)
  have k: "list_all2 (appends ?h 6 (\<lambda>q x. pair_key x) (\<lambda>x. AGTENTRY_IS_STRING)) (map (\<lambda>x bs. write_string bs (pair_key x)) ?k) ?k"
    by (simp add: list_all2_map1 list_all2_same string_appends)
  have w: "list_all2 (appends ?h 6 ?f ?t) [\<lambda>bs. write_graphid bs gid, \<lambda>bs. write_string bs label] ?xs"
    by (simp add: graphid_appends stray_string)
  have kl: "keys_len ?k = 17" "length ?k = 3" by (simp_all add: vertex_pairs_def keys_len_def field_lengths)
  then have "start_of (key_metas ?k) 3 = 17" using start_of_key_metas [of ?k] by simp
  note kl = kl this
  have s1: "run_writers (map (\<lambda>x bs. write_string bs (pair_key x)) ?k) (state_of ?h 6 [] []) = Inr (state_of ?h 6 (key_metas ?k) (concat (map pair_key ?k)))"
    using run_writers_eq [OF k, of "[]" "[]"] kl by (simp add: key_seq key_metas_eq fits_iff)
  have i: "INTALIGN 17 = 20" by (simp add: INTALIGN_def)
  obtain ms data where s2: "run_writers [\<lambda>bs. write_graphid bs gid, \<lambda>bs. write_string bs label] (state_of ?h 6 (key_metas ?k) (concat (map pair_key ?k))) =
      Inr (state_of ?h 6 ms data)" and r: "ready 6 ms data"
  proof
    let ?d = "concat (map pair_key ?k)" let ?ms = "key_metas ?k @ enc_metas ?f ?t (length ?d) ?xs" let ?data = "?d @ enc_seq ?f (length ?d) ?xs"
    have "length (enc_seq ?f (length ?d) ?xs) = 15 + length label" by (simp add: kl i stray_enc_def)
    with run_writers_eq [OF w, of "key_metas ?k" ?d] assms(4) kl
    show "run_writers [\<lambda>bs. write_graphid bs gid, \<lambda>bs. write_string bs label] (state_of ?h 6 (key_metas ?k) ?d) = Inr (state_of ?h 6 ?ms ?data)"
      by (simp add: fits_iff del: enc_seq.simps enc_metas.simps)
    show "ready 6 ?ms ?data"
      using start_of_extend [of "key_metas ?k" ?d ?f ?t ?xs] kl by (simp add: ready_def del: enc_seq.simps enc_metas.simps)
  qed
  have c: "write_container (state_of ?h 6 ms data) p = Inl BadAccess"
    using write_container_child [OF r] assms(1,2) by (simp add: object_ptr_def)
  have "run_writers (map (\<lambda>x bs. write_string bs (pair_key x)) ?k @ [\<lambda>bs. write_graphid bs gid, \<lambda>bs. write_string bs label] @ [\<lambda>bs. write_container bs p])
      (state_of ?h 6 [] []) = Inl BadAccess"
    unfolding run_append s1 using s2 c by simp
  then have "write_object ?k [\<lambda>bs. write_graphid bs gid, \<lambda>bs. write_string bs label, \<lambda>bs. write_container bs p] behind' = Inl BadAccess"
    using init_object_state [of 3] kl(2) by (simp add: write_object_def)
  then show ?thesis
    by (simp add: agtype_build_vertex_def build_vertex_agtype_def build_vertex_object_writers [where ps = ps] pr)
qed

end
