(* ===== verification/Exec_Base.thy ===== *)
theory Exec_Base
  imports Graphid
begin

text \<open>
  What the executor components share: saturating \<open>int64\<close> counters, arrays of known length whose
  accesses are checked, and binary search in an array of graphids ordered as signed integers.
\<close>

subsection \<open>Counters\<close>

definition PG_INT64_MAX :: int where "PG_INT64_MAX = 9223372036854775807"
definition PG_INT32_MAX :: int where "PG_INT32_MAX = 2147483647"

lemma PG_INT64_MAX_nonneg [simp]: "0 \<le> PG_INT64_MAX"
  by (simp add: PG_INT64_MAX_def)

text \<open>The body of \<open>age_binding_add_counter\<close> and \<open>add_wcoj_counter\<close>.\<close>

definition add_counter :: "int \<Rightarrow> int \<Rightarrow> int" where
  "add_counter counter increment =
     (if increment \<le> 0 then counter
      else if counter > PG_INT64_MAX - increment then PG_INT64_MAX else counter + increment)"

definition increment_counter :: "int \<Rightarrow> int" where
  "increment_counter counter = (if counter < PG_INT64_MAX then counter + 1 else counter)"

lemma add_counter_exact: "counter \<le> PG_INT64_MAX \<Longrightarrow> 0 \<le> increment \<Longrightarrow> add_counter counter increment = min (counter + increment) PG_INT64_MAX"
  by (auto simp: add_counter_def)

lemma increment_is_add: "counter \<le> PG_INT64_MAX \<Longrightarrow> increment_counter counter = add_counter counter 1"
  by (auto simp: increment_counter_def add_counter_def)

lemma div_less_mult:
  assumes "0 < (c :: int)"
  shows "M div c < y \<longleftrightarrow> M < y * c"
proof -
  have m: "M = M div c * c + M mod c" "0 \<le> M mod c" "M mod c < c" using assms by simp_all
  show ?thesis
  proof (cases "M div c < y")
    case True
    then have "(M div c + 1) * c \<le> y * c" using assms by (intro mult_right_mono) simp_all
    then have "M div c * c + c \<le> y * c" by (simp add: distrib_right)
    with m True show ?thesis by linarith
  next
    case False
    then have "y * c \<le> M div c * c" using assms by (intro mult_right_mono) simp_all
    with m(1,2) False show ?thesis by linarith
  qed
qed

text \<open>A guarded multiplication is the product cut off at the maximum.\<close>

lemma saturating_mult:
  assumes "0 \<le> x" "0 < (c :: int)" "0 \<le> M"
  shows "(if min x M > M div c then M else min x M * c) = min (x * c) M"
proof -
  note big = div_less_mult [OF assms(2)]
  have one: "y \<le> y * c" if "0 \<le> y" for y using that assms(2) by (simp add: mult_le_cancel_left1)
  show ?thesis
  proof (cases "x \<le> M")
    case True
    with big [of M x] show ?thesis by simp
  next
    case False
    then have "M < x * c" "min x M = M" using one [of x] assms(1) by auto
    moreover have "M * c = M" if "\<not> M div c < M" using that big [of M M] one [OF assms(3)] by simp
    ultimately show ?thesis by auto
  qed
qed

subsection \<open>Arrays\<close>

definition arr_get :: "'a list \<Rightarrow> nat \<Rightarrow> 'a result" where
  "arr_get xs i = (if i < length xs then Inr (xs ! i) else Inl BadAccess)"

definition arr_set :: "'a list \<Rightarrow> nat \<Rightarrow> 'a \<Rightarrow> 'a list result" where
  "arr_set xs i x = (if i < length xs then Inr (xs[i := x]) else Inl BadAccess)"

lemma arr_get_ok [simp]: "i < length xs \<Longrightarrow> arr_get xs i = Inr (xs ! i)"
  by (simp add: arr_get_def)

lemma arr_set_ok [simp]: "i < length xs \<Longrightarrow> arr_set xs i x = Inr (xs[i := x])"
  by (simp add: arr_set_def)

lemma take_update_Suc: "i < length xs \<Longrightarrow> take (Suc i) (xs[i := x]) = take i xs @ [x]"
  by (simp add: take_Suc_conv_app_nth)

subsection \<open>Sorted graphids\<close>

abbreviation gid_sorted :: "graphid list \<Rightarrow> bool" where
  "gid_sorted xs \<equiv> sorted_wrt (\<lambda>a b. sint a < sint b) xs"

lemma sint_inject [simp]: "sint (a :: graphid) = sint b \<longleftrightarrow> a = b"
  by (auto intro: signed_word_eqI)

text \<open>The entries \<open>start .. n - 1\<close> are strictly increasing.\<close>

definition increasing :: "graphid list \<Rightarrow> nat \<Rightarrow> nat \<Rightarrow> bool" where
  "increasing vs start n \<longleftrightarrow> (\<forall>i j. start \<le> i \<and> i < j \<and> j < n \<longrightarrow> sint (vs ! i) < sint (vs ! j))"

lemma increasing_le: "increasing vs start n \<Longrightarrow> start \<le> i \<Longrightarrow> i \<le> j \<Longrightarrow> j < n \<Longrightarrow> sint (vs ! i) \<le> sint (vs ! j)"
  unfolding increasing_def by (cases "i = j") (auto simp: order.order_iff_strict)

lemma increasing_sorted: "gid_sorted (take n vs) \<Longrightarrow> n \<le> length vs \<Longrightarrow> increasing vs start n"
  unfolding increasing_def by (auto simp: sorted_wrt_iff_nth_less)

lemma increasing_later: "increasing vs start n \<Longrightarrow> start \<le> s' \<Longrightarrow> increasing vs s' n"
  unfolding increasing_def by auto

text \<open>\<open>r\<close> is the first index from \<open>start\<close> on whose value is not below \<open>target\<close>, among the first \<open>n\<close>.\<close>

definition lower_bound :: "graphid list \<Rightarrow> nat \<Rightarrow> nat \<Rightarrow> graphid \<Rightarrow> nat \<Rightarrow> bool" where
  "lower_bound vs n start target r \<longleftrightarrow>
     start \<le> r \<and> r \<le> n \<and> (\<forall>j. start \<le> j \<and> j < r \<longrightarrow> sint (vs ! j) < sint target) \<and>
     (r < n \<longrightarrow> sint target \<le> sint (vs ! r))"

text \<open>The loop \<open>while (low < high)\<close> of \<open>adjacency_seek_ge\<close>, \<open>find_age_wcoj_survivor_index\<close> and
  \<open>age_wcoj_galloping_lower_bound\<close>; \<open>tick\<close> is the counter the last one increments.\<close>

function bisect :: "('s \<Rightarrow> 's) \<Rightarrow> graphid list \<Rightarrow> graphid \<Rightarrow> nat \<Rightarrow> nat \<Rightarrow> 's \<Rightarrow> (nat \<times> 's) result" where
  "bisect tick vs target low high st =
     (if low < high then
        let middle = low + (high - low) div 2
        in bindE (arr_get vs middle) (\<lambda>v.
             if sint v < sint target then bisect tick vs target (middle + 1) high (tick st)
             else bisect tick vs target low middle (tick st))
      else Inr (low, st))"
  by pat_completeness auto
termination by (relation "measure (\<lambda>(tick, vs, target, low, high, st). high - low)") auto

declare bisect.simps [simp del]

lemma bisect_lower_bound:
  assumes "increasing vs start n" "n \<le> length vs" "low \<le> high" "high \<le> n" "start \<le> low"
    and "\<And>j. start \<le> j \<Longrightarrow> j < low \<Longrightarrow> sint (vs ! j) < sint target"
    and "high < n \<Longrightarrow> sint target \<le> sint (vs ! high)"
  shows "\<exists>r st'. bisect tick vs target low high st = Inr (r, st') \<and> lower_bound vs n start target r"
  using assms(3-)
proof (induction "high - low" arbitrary: low high st rule: less_induct)
  case less
  show ?case
  proof (cases "low < high")
    case False
    then show ?thesis using less.prems by (subst bisect.simps) (simp add: lower_bound_def)
  next
    case True
    define m where "m = low + (high - low) div 2"
    have m: "low \<le> m" "m < high" "m < n" "m < length vs" using True less.prems(2) assms(2) by (auto simp: m_def)
    show ?thesis
    proof (cases "sint (vs ! m) < sint target")
      case lt: True
      have "\<exists>r st'. bisect tick vs target (m + 1) high (tick st) = Inr (r, st') \<and> lower_bound vs n start target r"
      proof (rule less.hyps)
        show "high - (m + 1) < high - low" using m by simp
        show "sint (vs ! j) < sint target" if "start \<le> j" "j < m + 1" for j
          using increasing_le [OF assms(1), of j m] that m lt by simp
      qed (use m less.prems in auto)
      with True lt m show ?thesis by (subst bisect.simps) (simp add: m_def [symmetric] Let_def)
    next
      case ge: False
      have "\<exists>r st'. bisect tick vs target low m (tick st) = Inr (r, st') \<and> lower_bound vs n start target r"
        by (rule less.hyps) (use m ge less.prems in auto)
      with True ge m show ?thesis by (subst bisect.simps) (simp add: m_def [symmetric] Let_def)
    qed
  qed
qed

end
