(* ===== verification/Wcoj_Intersect.thy ===== *)
theory Wcoj_Intersect
  imports Exec_Base
begin

text \<open>
  Intersecting two sorted arrays of terminals (\<open>src/backend/executor/cypher_wcoj_join.c\<close>):
  \<open>age_wcoj_galloping_lower_bound\<close> and \<open>intersect_age_wcoj_graphids\<close>, which works in place on the
  candidate array and chooses between two galloping loops and a merge by the sizes of its inputs.
\<close>

subsection \<open>Counters of the scan\<close>

text \<open>The counters of \<open>AgeWCOJJoinScanState\<close> that the intersection and alignment code touches.\<close>

record wcoj_stats =
  cursor_advances :: int
  seek_calls :: int
  posting_rows_scanned :: int
  payload_rows_fetched :: int
  progressive_probes :: int
  progressive_matches :: int
  intersection_merge_calls :: int
  intersection_galloping_calls :: int
  intersection_galloping_steps :: int
  stage_survivors :: "int list"
  source_rows_scanned :: int
  source_bag_rows :: int
  distinct_source_keys :: int
  source_bag_keys :: int
  intersection_builds :: int
  exact_set_filters :: int
  exact_set_candidates_tested :: int
  survivor_blocks :: int

definition gallop_tick :: "wcoj_stats \<Rightarrow> wcoj_stats" where
  "gallop_tick st = st\<lparr>intersection_galloping_steps := increment_counter (intersection_galloping_steps st)\<rparr>"

definition gallop_call :: "wcoj_stats \<Rightarrow> wcoj_stats" where
  "gallop_call st = st\<lparr>intersection_galloping_calls := increment_counter (intersection_galloping_calls st)\<rparr>"

definition merge_call :: "wcoj_stats \<Rightarrow> wcoj_stats" where
  "merge_call st = st\<lparr>intersection_merge_calls := increment_counter (intersection_merge_calls st)\<rparr>"

definition AGE_WCOJ_GALLOPING_MIN_RATIO :: nat where "AGE_WCOJ_GALLOPING_MIN_RATIO = 8"

subsection \<open>Galloping search\<close>

text \<open>The doubling loop; \<open>bound\<close> starts at 1 and only grows.\<close>

function gallop_probe :: "graphid list \<Rightarrow> nat \<Rightarrow> nat \<Rightarrow> graphid \<Rightarrow> nat \<Rightarrow> wcoj_stats \<Rightarrow> (nat \<times> wcoj_stats) result" where
  "gallop_probe vals value_count start_index target bound st =
     (if 0 < bound \<and> bound < value_count - start_index then
        bindE (arr_get vals (start_index + bound)) (\<lambda>v.
          if sint target \<le> sint v then Inr (bound, gallop_tick st)
          else if bound > (value_count - start_index) div 2 then Inr (value_count - start_index, gallop_tick st)
          else gallop_probe vals value_count start_index target (bound * 2) (gallop_tick st))
      else Inr (bound, st))"
  by pat_completeness auto
termination by (relation "measure (\<lambda>(vals, n, start, target, bound, st). n - start - bound)") auto

declare gallop_probe.simps [simp del]

definition age_wcoj_galloping_lower_bound ::
    "graphid list \<Rightarrow> nat \<Rightarrow> nat \<Rightarrow> graphid \<Rightarrow> wcoj_stats \<Rightarrow> (nat \<times> wcoj_stats) result" where
  "age_wcoj_galloping_lower_bound vals value_count start_index target st =
     (if start_index \<ge> value_count then Inr (value_count, st)
      else bindE (arr_get vals start_index) (\<lambda>v.
        if sint target \<le> sint v then Inr (start_index, gallop_tick st)
        else bindE (gallop_probe vals value_count start_index target 1 (gallop_tick st)) (\<lambda>(bound, st1).
          bisect gallop_tick vals target (start_index + bound div 2 + 1)
            (min (start_index + bound + 1) value_count) st1)))"

subsection \<open>Intersection in place\<close>

text \<open>The loop that gallops in \<open>matches\<close>.\<close>

function gallop_matches ::
    "graphid list \<Rightarrow> nat \<Rightarrow> nat \<Rightarrow> nat \<Rightarrow> graphid list \<Rightarrow> nat \<Rightarrow> nat \<Rightarrow> wcoj_stats \<Rightarrow> (nat \<times> graphid list \<times> wcoj_stats) result" where
  "gallop_matches candidates candidate_count candidate_index output_count matches match_count match_index st =
     (if candidate_index < candidate_count \<and> match_index < match_count then
        bindE (arr_get candidates candidate_index) (\<lambda>candidate.
        bindE (age_wcoj_galloping_lower_bound matches match_count match_index candidate st) (\<lambda>(mi, st1).
          if mi \<ge> match_count then Inr (output_count, candidates, st1)
          else bindE (arr_get matches mi) (\<lambda>m.
            if m = candidate
            then bindE (arr_set candidates output_count candidate) (\<lambda>candidates'.
                 gallop_matches candidates' candidate_count (candidate_index + 1) (output_count + 1) matches match_count (mi + 1) st1)
            else gallop_matches candidates candidate_count (candidate_index + 1) output_count matches match_count mi st1)))
      else Inr (output_count, candidates, st))"
  by pat_completeness auto
termination by (relation "measure (\<lambda>(cs, cc, ci, oc, ms, mc, mi, st). cc - ci)") auto

declare gallop_matches.simps [simp del]

text \<open>The loop that gallops in \<open>candidates\<close>.\<close>

function gallop_candidates ::
    "graphid list \<Rightarrow> nat \<Rightarrow> nat \<Rightarrow> nat \<Rightarrow> graphid list \<Rightarrow> nat \<Rightarrow> nat \<Rightarrow> wcoj_stats \<Rightarrow> (nat \<times> graphid list \<times> wcoj_stats) result" where
  "gallop_candidates candidates candidate_count candidate_index output_count matches match_count match_index st =
     (if candidate_index < candidate_count \<and> match_index < match_count then
        bindE (arr_get matches match_index) (\<lambda>m.
        bindE (age_wcoj_galloping_lower_bound candidates candidate_count candidate_index m st) (\<lambda>(ci, st1).
          if ci \<ge> candidate_count then Inr (output_count, candidates, st1)
          else bindE (arr_get candidates ci) (\<lambda>c.
            if c = m
            then bindE (arr_set candidates output_count m) (\<lambda>candidates'.
                 gallop_candidates candidates' candidate_count (ci + 1) (output_count + 1) matches match_count (match_index + 1) st1)
            else gallop_candidates candidates candidate_count ci output_count matches match_count (match_index + 1) st1)))
      else Inr (output_count, candidates, st))"
  by pat_completeness auto
termination by (relation "measure (\<lambda>(cs, cc, ci, oc, ms, mc, mi, st). mc - mi)") auto

declare gallop_candidates.simps [simp del]

function merge_intersect ::
    "graphid list \<Rightarrow> nat \<Rightarrow> nat \<Rightarrow> nat \<Rightarrow> graphid list \<Rightarrow> nat \<Rightarrow> nat \<Rightarrow> (nat \<times> graphid list) result" where
  "merge_intersect candidates candidate_count candidate_index output_count matches match_count match_index =
     (if candidate_index < candidate_count \<and> match_index < match_count then
        bindE (arr_get candidates candidate_index) (\<lambda>c.
        bindE (arr_get matches match_index) (\<lambda>m.
          if sint c < sint m
          then merge_intersect candidates candidate_count (candidate_index + 1) output_count matches match_count match_index
          else if sint c > sint m
          then merge_intersect candidates candidate_count candidate_index output_count matches match_count (match_index + 1)
          else bindE (arr_set candidates output_count c) (\<lambda>candidates'.
               merge_intersect candidates' candidate_count (candidate_index + 1) (output_count + 1) matches match_count (match_index + 1))))
      else Inr (output_count, candidates))"
  by pat_completeness auto
termination by (relation "measure (\<lambda>(cs, cc, ci, oc, ms, mc, mi). (cc - ci) + (mc - mi))") auto

declare merge_intersect.simps [simp del]

definition intersect_age_wcoj_graphids ::
    "graphid list \<Rightarrow> nat \<Rightarrow> graphid list \<Rightarrow> nat \<Rightarrow> wcoj_stats \<Rightarrow> (nat \<times> graphid list \<times> wcoj_stats) result" where
  "intersect_age_wcoj_graphids candidates candidate_count matches match_count st =
     (if candidate_count = 0 \<or> match_count = 0 then Inr (0, candidates, st)
      else if match_count \<ge> candidate_count * AGE_WCOJ_GALLOPING_MIN_RATIO
      then gallop_matches candidates candidate_count 0 0 matches match_count 0 (gallop_call st)
      else if candidate_count \<ge> match_count * AGE_WCOJ_GALLOPING_MIN_RATIO
      then gallop_candidates candidates candidate_count 0 0 matches match_count 0 (gallop_call st)
      else bindE (merge_intersect candidates candidate_count 0 0 matches match_count 0)
             (\<lambda>(output_count, candidates'). Inr (output_count, candidates', merge_call st)))"

subsection \<open>The search finds the lower bound\<close>

lemma gallop_probe_ok:
  assumes "increasing vals start n" "n \<le> length vals" "start < n"
    and "0 < bound" "bound \<le> n - start" "sint (vals ! (start + bound div 2)) < sint target"
  shows "\<exists>b st'. gallop_probe vals n start target bound st = Inr (b, st') \<and> 0 < b \<and> b \<le> n - start \<and>
    sint (vals ! (start + b div 2)) < sint target \<and> (start + b < n \<longrightarrow> sint target \<le> sint (vals ! (start + b)))"
  using assms(4-)
proof (induction "n - start - bound" arbitrary: bound st rule: less_induct)
  case less
  show ?case
  proof (cases "bound < n - start")
    case False
    with less.prems show ?thesis by (subst gallop_probe.simps) auto
  next
    case True
    then have i: "start + bound < n" "start + bound < length vals" using assms(2) by simp_all
    consider (stop) "sint target \<le> sint (vals ! (start + bound))"
      | (last) "sint (vals ! (start + bound)) < sint target" "bound > (n - start) div 2"
      | (grow) "sint (vals ! (start + bound)) < sint target" "bound \<le> (n - start) div 2" by linarith
    then show ?thesis
    proof cases
      case stop
      with i True less.prems show ?thesis by (subst gallop_probe.simps) simp
    next
      case last
      have "sint (vals ! (start + (n - start) div 2)) \<le> sint (vals ! (start + bound))"
        using last(2) i by (intro increasing_le [OF assms(1)]) simp_all
      with last i True less.prems assms(3) show ?thesis by (subst gallop_probe.simps) simp
    next
      case grow
      have "\<exists>b st'. gallop_probe vals n start target (bound * 2) (gallop_tick st) = Inr (b, st') \<and> 0 < b \<and> b \<le> n - start \<and>
          sint (vals ! (start + b div 2)) < sint target \<and> (start + b < n \<longrightarrow> sint target \<le> sint (vals ! (start + b)))"
        by (rule less.hyps) (use grow True less.prems(1) in simp_all)
      with grow i True less.prems(1) show ?thesis by (subst gallop_probe.simps) simp
    qed
  qed
qed

lemma galloping_ok:
  assumes "increasing vals start n" "n \<le> length vals" "start \<le> n"
  shows "\<exists>r st'. age_wcoj_galloping_lower_bound vals n start target st = Inr (r, st') \<and> lower_bound vals n start target r"
proof (cases "start < n")
  case False
  with assms(3) show ?thesis by (auto simp: age_wcoj_galloping_lower_bound_def lower_bound_def)
next
  case True
  then have i: "start < length vals" using assms(2) by simp
  show ?thesis
  proof (cases "sint target \<le> sint (vals ! start)")
    case ge: True
    with True i show ?thesis by (auto simp: age_wcoj_galloping_lower_bound_def lower_bound_def)
  next
    case False
    then have lt: "sint (vals ! start) < sint target" by simp
    obtain b st1 where b: "gallop_probe vals n start target 1 (gallop_tick st) = Inr (b, st1)" "0 < b" "b \<le> n - start"
      "sint (vals ! (start + b div 2)) < sint target" "start + b < n \<longrightarrow> sint target \<le> sint (vals ! (start + b))"
      using gallop_probe_ok [OF assms(1,2) True, of 1 target "gallop_tick st"] True lt by (auto simp: Suc_le_eq)
    have mid: "start + b div 2 < n" using b(2,3) True by linarith
    have "\<exists>r st'. bisect gallop_tick vals target (start + b div 2 + 1) (min (start + b + 1) n) st1 = Inr (r, st') \<and>
        lower_bound vals n start target r"
    proof (rule bisect_lower_bound [OF assms(1,2)])
      show "start + b div 2 + 1 \<le> min (start + b + 1) n" using b(2,3) True by linarith
      show "sint (vals ! j) < sint target" if "start \<le> j" "j < start + b div 2 + 1" for j
        using increasing_le [OF assms(1), of j "start + b div 2"] that b(4) mid by (simp add: less_Suc_eq_le)
      show "sint target \<le> sint (vals ! min (start + b + 1) n)" if "min (start + b + 1) n < n"
        using increasing_le [OF assms(1), of "start + b" "start + b + 1"] that b(5) by (simp add: min_def split: if_splits)
    qed simp_all
    with b(1) True i False show ?thesis by (simp add: age_wcoj_galloping_lower_bound_def)
  qed
qed

subsection \<open>The loops keep the common keys\<close>

text \<open>What holds when the loops have passed \<open>ci\<close> candidates and \<open>mi\<close> matches: the first \<open>oc\<close> entries are the
  common keys so far, the entries from \<open>ci\<close> on are untouched, and the matches passed are below
  every candidate left.\<close>

definition isect :: "graphid list \<Rightarrow> nat \<Rightarrow> graphid list \<Rightarrow> nat \<Rightarrow> graphid list \<Rightarrow> nat \<Rightarrow> nat \<Rightarrow> nat \<Rightarrow> bool" where
  "isect cs0 cc ms mc cs ci oc mi \<longleftrightarrow>
     length cs = length cs0 \<and> oc \<le> ci \<and> ci \<le> cc \<and> mi \<le> mc \<and> (\<forall>i. ci \<le> i \<longrightarrow> cs ! i = cs0 ! i) \<and>
     take oc cs = filter (\<lambda>k. k \<in> set (take mc ms)) (take ci cs0) \<and>
     (\<forall>i j. ci \<le> i \<and> i < cc \<and> j < mi \<longrightarrow> sint (ms ! j) < sint (cs0 ! i))"

definition isect_done :: "graphid list \<Rightarrow> nat \<Rightarrow> graphid list \<Rightarrow> nat \<Rightarrow> graphid list \<Rightarrow> nat \<Rightarrow> bool" where
  "isect_done cs0 cc ms mc cs oc \<longleftrightarrow>
     length cs = length cs0 \<and> oc \<le> cc \<and> take oc cs = filter (\<lambda>k. k \<in> set (take mc ms)) (take cc cs0)"

lemma in_take_iff: "mc \<le> length ms \<Longrightarrow> k \<in> set (take mc ms) \<longleftrightarrow> (\<exists>j < mc. ms ! j = k)"
  by (auto simp: in_set_conv_nth)

lemma take_split: "a \<le> b \<Longrightarrow> take b xs = take a xs @ take (b - a) (drop a xs)"
  by (metis le_add_diff_inverse take_add)

lemma filter_skip:
  assumes "a \<le> b" "b \<le> length xs" "\<And>i. a \<le> i \<Longrightarrow> i < b \<Longrightarrow> \<not> P (xs ! i)"
  shows "filter P (take b xs) = filter P (take a xs)"
proof -
  have "\<not> P x" if x: "x \<in> set (take (b - a) (drop a xs))" for x
  proof -
    obtain i where "i < b - a" "take (b - a) (drop a xs) ! i = x" using x by (auto simp: in_set_conv_nth)
    then show ?thesis using assms(3) [of "a + i"] assms(1,2) by simp
  qed
  then have "filter P (take (b - a) (drop a xs)) = []" by (simp add: filter_empty_conv)
  then show ?thesis using take_split [OF assms(1), of xs] by simp
qed

lemma isect_skip_candidates:
  assumes "isect cs0 cc ms mc cs ci oc mi" "ci \<le> r" "r \<le> cc" "cc \<le> length cs0"
    and "\<And>i. ci \<le> i \<Longrightarrow> i < r \<Longrightarrow> cs0 ! i \<notin> set (take mc ms)"
  shows "isect cs0 cc ms mc cs r oc mi"
proof -
  have "filter (\<lambda>k. k \<in> set (take mc ms)) (take r cs0) = filter (\<lambda>k. k \<in> set (take mc ms)) (take ci cs0)"
    using assms by (intro filter_skip) auto
  then show ?thesis using assms(1-3) unfolding isect_def by auto
qed

lemma isect_skip_matches:
  assumes "isect cs0 cc ms mc cs ci oc mi" "mi \<le> r" "r \<le> mc"
    and "\<And>i j. ci \<le> i \<Longrightarrow> i < cc \<Longrightarrow> mi \<le> j \<Longrightarrow> j < r \<Longrightarrow> sint (ms ! j) < sint (cs0 ! i)"
  shows "isect cs0 cc ms mc cs ci oc r"
  using assms unfolding isect_def by (metis not_le)

lemma isect_keep:
  assumes "isect cs0 cc ms mc cs ci oc mi" "ci < cc" "mi < mc" "cc \<le> length cs0" "mc \<le> length ms" "ms ! mi = cs0 ! ci"
    and "increasing cs0 0 cc"
  shows "isect cs0 cc ms mc (cs[oc := cs0 ! ci]) (ci + 1) (oc + 1) (mi + 1)"
proof -
  have I: "length cs = length cs0" "oc \<le> ci" "\<And>i. ci \<le> i \<Longrightarrow> cs ! i = cs0 ! i"
    "take oc cs = filter (\<lambda>k. k \<in> set (take mc ms)) (take ci cs0)"
    "\<And>i j. ci \<le> i \<Longrightarrow> i < cc \<Longrightarrow> j < mi \<Longrightarrow> sint (ms ! j) < sint (cs0 ! i)"
    using assms(1) unfolding isect_def by auto
  have "cs0 ! ci \<in> set (take mc ms)" using assms(3,5,6) in_take_iff by metis
  moreover have "take (oc + 1) (cs[oc := cs0 ! ci]) = take oc cs @ [cs0 ! ci]"
    using I(1,2) assms(2,4) take_update_Suc [of oc cs "cs0 ! ci"] by simp
  ultimately have "take (oc + 1) (cs[oc := cs0 ! ci]) = filter (\<lambda>k. k \<in> set (take mc ms)) (take (ci + 1) cs0)"
    using I(4) assms(2,4) by (simp add: take_Suc_conv_app_nth)
  moreover have "sint (ms ! j) < sint (cs0 ! i)" if "ci + 1 \<le> i" "i < cc" "j < mi + 1" for i j
    using that I(5) [of i j] assms(6,7) unfolding increasing_def by (cases "j = mi") auto
  ultimately show ?thesis using I assms(2,3) unfolding isect_def by simp
qed

lemma isect_end:
  assumes "isect cs0 cc ms mc cs ci oc mi" "cc \<le> length cs0" "mc \<le> length ms" "ci = cc \<or> mi = mc"
  shows "isect_done cs0 cc ms mc cs oc"
proof -
  have "isect cs0 cc ms mc cs cc oc mi"
  proof (cases "ci = cc")
    case True
    with assms(1) show ?thesis by simp
  next
    case False
    then have "mi = mc" using assms(4) by simp
    have "cs0 ! i \<notin> set (take mc ms)" if "ci \<le> i" "i < cc" for i
      using that assms(1) \<open>mi = mc\<close> in_take_iff [OF assms(3)] unfolding isect_def by fastforce
    moreover have "ci \<le> cc" using assms(1) unfolding isect_def by simp
    ultimately show ?thesis using isect_skip_candidates [OF assms(1), of cc] assms(2) by simp
  qed
  then show ?thesis unfolding isect_def isect_done_def by auto
qed

text \<open>A candidate below the first match left is not a match.\<close>

lemma isect_not_match:
  assumes "isect cs0 cc ms mc cs ci oc mi" "increasing ms 0 mc" "mc \<le> length ms" "ci \<le> i" "i < cc"
    and "mi < mc \<Longrightarrow> sint (cs0 ! i) < sint (ms ! mi)"
  shows "cs0 ! i \<notin> set (take mc ms)"
proof
  assume "cs0 ! i \<in> set (take mc ms)"
  then obtain j where j: "j < mc" "ms ! j = cs0 ! i" using in_take_iff [OF assms(3)] by blast
  show False
  proof (cases "j < mi")
    case True
    then have "sint (ms ! j) < sint (cs0 ! i)" using assms(1,4,5) unfolding isect_def by blast
    with j(2) show False by simp
  next
    case False
    then have "sint (ms ! mi) \<le> sint (ms ! j)" using increasing_le [OF assms(2), of mi j] j(1) by simp
    with assms(6) j False show False by simp
  qed
qed

lemma gallop_matches_ok:
  assumes "increasing cs0 0 cc" "cc \<le> length cs0" "increasing ms 0 mc" "mc \<le> length ms"
  shows "isect cs0 cc ms mc cs ci oc mi \<Longrightarrow>
    \<exists>oc' cs' st'. gallop_matches cs cc ci oc ms mc mi st = Inr (oc', cs', st') \<and> isect_done cs0 cc ms mc cs' oc'"
proof (induction "cc - ci" arbitrary: cs ci oc mi st rule: less_induct)
  case less
  show ?case
  proof (cases "ci < cc \<and> mi < mc")
    case False
    with less.prems have "ci = cc \<or> mi = mc" unfolding isect_def by auto
    with False isect_end [OF less.prems assms(2,4)] show ?thesis by (subst gallop_matches.simps) auto
  next
    case True
    have c: "ci < length cs" "cs ! ci = cs0 ! ci" "oc \<le> ci" using less.prems True assms(2) unfolding isect_def by auto
    obtain r st1 where r: "age_wcoj_galloping_lower_bound ms mc mi (cs0 ! ci) st = Inr (r, st1)" "lower_bound ms mc mi (cs0 ! ci) r"
      using galloping_ok [OF increasing_later [OF assms(3), of mi] assms(4), of "cs0 ! ci" st] True by auto
    have "sint (ms ! j) < sint (cs0 ! i)" if ij: "ci \<le> i" "i < cc" "mi \<le> j" "j < r" for i j
    proof -
      have "sint (ms ! j) < sint (cs0 ! ci)" using r(2) ij unfolding lower_bound_def by blast
      also have "\<dots> \<le> sint (cs0 ! i)" using increasing_le [OF assms(1), of ci i] ij by simp
      finally show ?thesis .
    qed
    then have I: "isect cs0 cc ms mc cs ci oc r"
      using isect_skip_matches [OF less.prems, of r] r(2) unfolding lower_bound_def by blast
    have rb: "r \<le> mc" "r < mc \<longrightarrow> sint (cs0 ! ci) \<le> sint (ms ! r)" using r(2) unfolding lower_bound_def by auto
    consider (stop) "r = mc" | (keep) "r < mc" "ms ! r = cs0 ! ci" | (skip) "r < mc" "ms ! r \<noteq> cs0 ! ci" using rb(1) by linarith
    then show ?thesis
    proof cases
      case stop
      with isect_end [OF I assms(2,4)] True c r(1) show ?thesis by (subst gallop_matches.simps) simp
    next
      case keep
      note I' = isect_keep [OF I _ keep(1) assms(2,4) keep(2) assms(1)]
      have "\<exists>oc' cs' st'. gallop_matches (cs[oc := cs0 ! ci]) cc (ci + 1) (oc + 1) ms mc (r + 1) st1 = Inr (oc', cs', st') \<and>
          isect_done cs0 cc ms mc cs' oc'"
        by (rule less.hyps) (use True I' in auto)
      with True c r(1) keep assms(4) show ?thesis by (subst gallop_matches.simps) simp
    next
      case skip
      then have lt: "sint (cs0 ! ci) < sint (ms ! r)" using rb(2) by (metis order.not_eq_order_implies_strict sint_inject)
      have "cs0 ! i \<notin> set (take mc ms)" if "ci \<le> i" "i < ci + 1" for i
        using isect_not_match [OF I assms(3,4), of ci] lt that True by (auto simp: less_Suc_eq)
      then have I': "isect cs0 cc ms mc cs (ci + 1) oc r"
        using isect_skip_candidates [OF I, of "ci + 1"] True assms(2) by simp
      have "\<exists>oc' cs' st'. gallop_matches cs cc (ci + 1) oc ms mc r st1 = Inr (oc', cs', st') \<and> isect_done cs0 cc ms mc cs' oc'"
        by (rule less.hyps) (use True I' in auto)
      with True c r(1) skip assms(4) show ?thesis by (subst gallop_matches.simps) simp
    qed
  qed
qed

lemma gallop_candidates_ok:
  assumes "increasing cs0 0 cc" "cc \<le> length cs0" "increasing ms 0 mc" "mc \<le> length ms"
  shows "isect cs0 cc ms mc cs ci oc mi \<Longrightarrow>
    \<exists>oc' cs' st'. gallop_candidates cs cc ci oc ms mc mi st = Inr (oc', cs', st') \<and> isect_done cs0 cc ms mc cs' oc'"
proof (induction "mc - mi" arbitrary: cs ci oc mi st rule: less_induct)
  case less
  show ?case
  proof (cases "ci < cc \<and> mi < mc")
    case False
    with less.prems have "ci = cc \<or> mi = mc" unfolding isect_def by auto
    with False isect_end [OF less.prems assms(2,4)] show ?thesis by (subst gallop_candidates.simps) auto
  next
    case True
    have c: "length cs = length cs0" "oc \<le> ci" "\<And>i. ci \<le> i \<Longrightarrow> cs ! i = cs0 ! i"
      using less.prems unfolding isect_def by auto
    have m: "mi < length ms" using True assms(4) by simp
    have "increasing cs ci cc" using assms(1) c(3) unfolding increasing_def by simp
    then obtain r st1 where r: "age_wcoj_galloping_lower_bound cs cc ci (ms ! mi) st = Inr (r, st1)" "lower_bound cs cc ci (ms ! mi) r"
      using galloping_ok [of cs ci cc "ms ! mi" st] c(1) assms(2) True by auto
    have rb: "ci \<le> r" "r \<le> cc" "r < cc \<Longrightarrow> sint (ms ! mi) \<le> sint (cs0 ! r)"
      "\<And>i. ci \<le> i \<Longrightarrow> i < r \<Longrightarrow> sint (cs0 ! i) < sint (ms ! mi)"
      using r(2) c(3) unfolding lower_bound_def by auto
    have "cs0 ! i \<notin> set (take mc ms)" if "ci \<le> i" "i < r" for i
      using isect_not_match [OF less.prems assms(3,4), of i] that rb by simp
    then have I: "isect cs0 cc ms mc cs r oc mi"
      using isect_skip_candidates [OF less.prems rb(1,2) assms(2)] by blast
    consider (stop) "r = cc" | (keep) "r < cc" "cs0 ! r = ms ! mi" | (skip) "r < cc" "cs0 ! r \<noteq> ms ! mi" using rb(2) by linarith
    then show ?thesis
    proof cases
      case stop
      with isect_end [OF I assms(2,4)] True m r(1) show ?thesis by (subst gallop_candidates.simps) simp
    next
      case keep
      then have I': "isect cs0 cc ms mc (cs[oc := ms ! mi]) (r + 1) (oc + 1) (mi + 1)"
        using isect_keep [OF I keep(1) _ assms(2,4) _ assms(1)] True by simp
      have "\<exists>oc' cs' st'. gallop_candidates (cs[oc := ms ! mi]) cc (r + 1) (oc + 1) ms mc (mi + 1) st1 = Inr (oc', cs', st') \<and>
          isect_done cs0 cc ms mc cs' oc'"
        by (rule less.hyps) (use True I' in auto)
      with True m r(1) keep c rb(1) assms(2) show ?thesis by (subst gallop_candidates.simps) simp
    next
      case skip
      then have lt: "sint (ms ! mi) < sint (cs0 ! r)" using rb(3) by (metis order.not_eq_order_implies_strict sint_inject)
      have "sint (ms ! j) < sint (cs0 ! i)" if "r \<le> i" "i < cc" "mi \<le> j" "j < mi + 1" for i j
        using increasing_le [OF assms(1), of r i] that lt by (auto simp: less_Suc_eq)
      then have I': "isect cs0 cc ms mc cs r oc (mi + 1)"
        using isect_skip_matches [OF I, of "mi + 1"] True by simp
      have "\<exists>oc' cs' st'. gallop_candidates cs cc r oc ms mc (mi + 1) st1 = Inr (oc', cs', st') \<and> isect_done cs0 cc ms mc cs' oc'"
        by (rule less.hyps) (use True I' in auto)
      with True m r(1) skip c rb(1) assms(2) show ?thesis by (subst gallop_candidates.simps) simp
    qed
  qed
qed

lemma merge_intersect_ok:
  assumes "increasing cs0 0 cc" "cc \<le> length cs0" "increasing ms 0 mc" "mc \<le> length ms"
  shows "isect cs0 cc ms mc cs ci oc mi \<Longrightarrow>
    \<exists>oc' cs'. merge_intersect cs cc ci oc ms mc mi = Inr (oc', cs') \<and> isect_done cs0 cc ms mc cs' oc'"
proof (induction "(cc - ci) + (mc - mi)" arbitrary: cs ci oc mi rule: less_induct)
  case less
  show ?case
  proof (cases "ci < cc \<and> mi < mc")
    case False
    with less.prems have "ci = cc \<or> mi = mc" unfolding isect_def by auto
    with False isect_end [OF less.prems assms(2,4)] show ?thesis by (subst merge_intersect.simps) auto
  next
    case True
    have c: "ci < length cs" "cs ! ci = cs0 ! ci" "oc \<le> ci" "mi < length ms"
      using less.prems True assms(2,4) unfolding isect_def by auto
    consider (lo) "sint (cs0 ! ci) < sint (ms ! mi)" | (hi) "sint (ms ! mi) < sint (cs0 ! ci)" | (eq) "ms ! mi = cs0 ! ci"
      by (metis linorder_less_linear sint_inject)
    then show ?thesis
    proof cases
      case lo
      have "cs0 ! i \<notin> set (take mc ms)" if "ci \<le> i" "i < ci + 1" for i
        using isect_not_match [OF less.prems assms(3,4), of ci] lo that True by (auto simp: less_Suc_eq)
      then have "isect cs0 cc ms mc cs (ci + 1) oc mi"
        using isect_skip_candidates [OF less.prems, of "ci + 1"] True assms(2) by simp
      then have "\<exists>oc' cs'. merge_intersect cs cc (ci + 1) oc ms mc mi = Inr (oc', cs') \<and> isect_done cs0 cc ms mc cs' oc'"
        using True by (intro less.hyps) auto
      with True c lo show ?thesis by (subst merge_intersect.simps) simp
    next
      case hi
      have "sint (ms ! j) < sint (cs0 ! i)" if "ci \<le> i" "i < cc" "mi \<le> j" "j < mi + 1" for i j
        using increasing_le [OF assms(1), of ci i] that hi by (auto simp: less_Suc_eq)
      then have "isect cs0 cc ms mc cs ci oc (mi + 1)"
        using isect_skip_matches [OF less.prems, of "mi + 1"] True by simp
      then have "\<exists>oc' cs'. merge_intersect cs cc ci oc ms mc (mi + 1) = Inr (oc', cs') \<and> isect_done cs0 cc ms mc cs' oc'"
        using True by (intro less.hyps) auto
      with True c hi show ?thesis by (subst merge_intersect.simps) simp
    next
      case eq
      have "\<exists>oc' cs'. merge_intersect (cs[oc := cs0 ! ci]) cc (ci + 1) (oc + 1) ms mc (mi + 1) = Inr (oc', cs') \<and>
          isect_done cs0 cc ms mc cs' oc'"
        using isect_keep [OF less.prems _ _ assms(2,4) eq assms(1)] True by (intro less.hyps) auto
      with True c eq show ?thesis by (subst merge_intersect.simps) simp
    qed
  qed
qed

lemma intersect_done:
  assumes "gid_sorted (take cc cs)" "cc \<le> length cs" "gid_sorted (take mc ms)" "mc \<le> length ms"
  obtains oc cs' st' where "intersect_age_wcoj_graphids cs cc ms mc st = Inr (oc, cs', st')" "isect_done cs cc ms mc cs' oc"
proof -
  note a = increasing_sorted [OF assms(1,2), of 0] assms(2) increasing_sorted [OF assms(3,4), of 0] assms(4)
  have start: "isect cs cc ms mc cs 0 0 0" by (simp add: isect_def)
  note G = gallop_matches_ok [OF a start, of "gallop_call st"] gallop_candidates_ok [OF a start, of "gallop_call st"]
    merge_intersect_ok [OF a start]
  consider (none) "cc = 0 \<or> mc = 0" | (g1) "cc \<noteq> 0" "mc \<noteq> 0" "mc \<ge> cc * AGE_WCOJ_GALLOPING_MIN_RATIO"
    | (g2) "cc \<noteq> 0" "mc \<noteq> 0" "\<not> mc \<ge> cc * AGE_WCOJ_GALLOPING_MIN_RATIO" "cc \<ge> mc * AGE_WCOJ_GALLOPING_MIN_RATIO"
    | (g3) "cc \<noteq> 0" "mc \<noteq> 0" "\<not> mc \<ge> cc * AGE_WCOJ_GALLOPING_MIN_RATIO" "\<not> cc \<ge> mc * AGE_WCOJ_GALLOPING_MIN_RATIO" by blast
  then have "\<exists>oc cs' st'. intersect_age_wcoj_graphids cs cc ms mc st = Inr (oc, cs', st') \<and> isect_done cs cc ms mc cs' oc"
  proof cases
    case none
    then show ?thesis by (auto simp: intersect_age_wcoj_graphids_def isect_done_def filter_empty_conv)
  next
    case g3
    from G(3) obtain oc cs' where "merge_intersect cs cc 0 0 ms mc 0 = Inr (oc, cs')" "isect_done cs cc ms mc cs' oc" by blast
    with g3 show ?thesis by (simp add: intersect_age_wcoj_graphids_def)
  qed (use G in \<open>simp_all add: intersect_age_wcoj_graphids_def\<close>)
  then show thesis using that by blast
qed

lemma isect_done_common:
  "isect_done cs cc ms mc cs' oc \<Longrightarrow> cc \<le> length cs \<Longrightarrow>
   take oc cs' = filter (\<lambda>k. k \<in> set (take mc ms)) (take cc cs) \<and> oc = length (filter (\<lambda>k. k \<in> set (take mc ms)) (take cc cs))"
  by (simp add: isect_done_def) (metis length_take min.absorb2 order_trans)

text \<open>C33: whichever loop the sizes choose, intersecting two strictly increasing arrays in place leaves
  exactly the candidates that are also matches at the front of the candidate array, in order, and
  returns their number, never leaving either array.\<close>

theorem intersect_keeps_common:
  assumes "gid_sorted (take cc cs)" "cc \<le> length cs" "gid_sorted (take mc ms)" "mc \<le> length ms"
  shows "\<exists>oc cs' st'. intersect_age_wcoj_graphids cs cc ms mc st = Inr (oc, cs', st') \<and>
    take oc cs' = filter (\<lambda>k. k \<in> set (take mc ms)) (take cc cs) \<and> oc = length (filter (\<lambda>k. k \<in> set (take mc ms)) (take cc cs))"
proof -
  obtain oc cs' st' where r: "intersect_age_wcoj_graphids cs cc ms mc st = Inr (oc, cs', st')" "isect_done cs cc ms mc cs' oc"
    by (rule intersect_done [OF assms])
  show ?thesis by (intro exI conjI, rule r(1)) (use isect_done_common [OF r(2) assms(2)] in blast)+
qed

definition no_stats :: wcoj_stats where
  "no_stats = \<lparr>cursor_advances = 0, seek_calls = 0, posting_rows_scanned = 0, payload_rows_fetched = 0, progressive_probes = 0,
     progressive_matches = 0, intersection_merge_calls = 0, intersection_galloping_calls = 0, intersection_galloping_steps = 0,
     stage_survivors = [], source_rows_scanned = 0, source_bag_rows = 0, distinct_source_keys = 0, source_bag_keys = 0,
     intersection_builds = 0, exact_set_filters = 0, exact_set_candidates_tested = 0, survivor_blocks = 0\<rparr>"

theorem intersect_keeps_common_witness:
  "\<exists>oc cs' st'. intersect_age_wcoj_graphids [-3, 5, 9] 3 [-7, -3, 4, 9, 12] 5 no_stats = Inr (oc, cs', st') \<and>
     take oc cs' = [-3, 9] \<and> oc = 2"
proof -
  have "filter (\<lambda>k. k \<in> set (take 5 [-7, -3, 4, 9, 12])) (take 3 [-3, 5, 9]) = ([-3, 9] :: graphid list)" by simp
  then show ?thesis
    using intersect_keeps_common [of 3 "[-3, 5, 9]" 5 "[-7, -3, 4, 9, 12]" no_stats] by (simp add: numeral_2_eq_2)
qed

end
