(* ===== verification/Binding_Source.thy ===== *)
theory Binding_Source
  imports Exec_Base
begin

text \<open>
  Source rows and source bags of factorized bindings
  (\<open>src/backend/executor/cypher_factorized_binding.c\<close>): rows are collected in a growing array, sorted
  by key, and grouped into bags of equal key; edge bags count how many rows their payloads stand
  for. C \<open>int\<close> values are integers here, and every addition that could leave the 32-bit range is
  guarded in the code; the minimal tuples are values of an arbitrary type.
\<close>

subsection \<open>Collecting rows\<close>

definition MaxAllocSize :: int where "MaxAllocSize = 1073741823"

text \<open>\<open>age_binding_add_byte_counter\<close>: the increment is a \<open>Size\<close>.\<close>

definition age_binding_add_counter :: "int \<Rightarrow> int \<Rightarrow> int" where
  "age_binding_add_counter counter increment = add_counter counter increment"

definition age_binding_add_byte_counter :: "int \<Rightarrow> int \<Rightarrow> int" where
  "age_binding_add_byte_counter counter increment =
     (if increment = 0 then counter
      else if increment > PG_INT64_MAX then PG_INT64_MAX
      else age_binding_add_counter counter increment)"

record 't AgeBindingSourceRow =
  row_key :: graphid
  row_tuple :: 't

definition sizeof_AgeBindingSourceRow :: int where "sizeof_AgeBindingSourceRow = 16"

record 't source_row_array =
  source_rows :: "'t AgeBindingSourceRow list"
  source_row_capacity :: int
  source_bag_bytes :: int

text \<open>\<open>t_len\<close> gives the length of a copied tuple.\<close>

definition age_binding_append_source_row ::
    "('t \<Rightarrow> int) \<Rightarrow> 't source_row_array \<Rightarrow> graphid \<Rightarrow> 't \<Rightarrow> 't source_row_array result" where
  "age_binding_append_source_row t_len sr key tuple =
     bindE (if int (length (source_rows sr)) = source_row_capacity sr
            then let new_capacity = (if source_row_capacity sr = 0 then 16 else source_row_capacity sr * 2)
                 in if new_capacity \<le> source_row_capacity sr \<or> new_capacity > MaxAllocSize div sizeof_AgeBindingSourceRow
                    then Inl (Ereport ''AGE factorized binding source bag is too large'')
                    else Inr (sr\<lparr>source_row_capacity := new_capacity,
                                source_bag_bytes := age_binding_add_byte_counter (source_bag_bytes sr)
                                  (sizeof_AgeBindingSourceRow * (new_capacity - source_row_capacity sr))\<rparr>)
            else Inr sr) (\<lambda>sr1.
     if int (length (source_rows sr1)) < source_row_capacity sr1
     then Inr (sr1\<lparr>source_rows := source_rows sr1 @ [\<lparr>row_key = key, row_tuple = tuple\<rparr>],
                   source_bag_bytes := age_binding_add_byte_counter (source_bag_bytes sr1) (t_len tuple)\<rparr>)
     else Inl BadAccess)"

definition compare_age_binding_source_rows :: "'t AgeBindingSourceRow \<Rightarrow> 't AgeBindingSourceRow \<Rightarrow> int" where
  "compare_age_binding_source_rows a b =
     (if sint (row_key a) < sint (row_key b) then -1 else if sint (row_key a) > sint (row_key b) then 1 else 0)"

lemma compare_rows_le [simp]: "compare_age_binding_source_rows a b \<le> 0 \<longleftrightarrow> sint (row_key a) \<le> sint (row_key b)"
  by (auto simp: compare_age_binding_source_rows_def)

text \<open>What the code relies on of \<open>qsort\<close>: the result is a sorted permutation.\<close>

definition qsort_sorts :: "('a \<Rightarrow> 'a \<Rightarrow> int) \<Rightarrow> ('a list \<Rightarrow> 'a list) \<Rightarrow> bool" where
  "qsort_sorts cmp q \<longleftrightarrow> (\<forall>xs. mset (q xs) = mset xs \<and> sorted_wrt (\<lambda>a b. cmp a b \<le> 0) (q xs))"

subsection \<open>Bags\<close>

record AgeSourceBag =
  bag_key :: graphid
  first_row :: int
  row_count :: int

definition sizeof_AgeSourceBag :: int where "sizeof_AgeSourceBag = 16"

text \<open>The loop over the sorted rows; \<open>bags\<close> are the entries up to \<open>bag_index\<close>.\<close>

fun bag_loop :: "'t AgeBindingSourceRow list \<Rightarrow> int \<Rightarrow> AgeSourceBag list \<Rightarrow> AgeSourceBag list" where
  "bag_loop [] row_index bags = bags"
| "bag_loop (r # rs) row_index bags =
     (let bags1 = (if bags = [] \<or> bag_key (last bags) \<noteq> row_key r
                   then bags @ [\<lparr>bag_key = row_key r, first_row = row_index, row_count = 0\<rparr>] else bags)
      in bag_loop rs (row_index + 1) (butlast bags1 @ [(last bags1)\<lparr>row_count := row_count (last bags1) + 1\<rparr>]))"

text \<open>The result is the sorted rows, the bags and the byte counter; no bags stand for \<open>NULL\<close>.\<close>

definition age_binding_build_source_bags ::
    "('t AgeBindingSourceRow list \<Rightarrow> 't AgeBindingSourceRow list) \<Rightarrow> 't AgeBindingSourceRow list \<Rightarrow> int \<Rightarrow>
     't AgeBindingSourceRow list \<times> AgeSourceBag list \<times> int" where
  "age_binding_build_source_bags qsort rows bytes =
     (if rows = [] then (rows, [], bytes)
      else let sorted_rows = qsort rows
           in (sorted_rows, bag_loop sorted_rows 0 [],
               age_binding_add_byte_counter bytes (sizeof_AgeSourceBag * int (length rows))))"

definition age_binding_get_source_bag :: "AgeSourceBag list \<Rightarrow> int \<Rightarrow> AgeSourceBag option" where
  "age_binding_get_source_bag bags i = (if bags = [] \<or> i < 0 \<or> i \<ge> int (length bags) then None else Some (bags ! nat i))"

text \<open>The index of a bag from its address; \<open>0\<close> is the null pointer.\<close>

definition age_binding_find_source_bag_index :: "nat \<Rightarrow> int \<Rightarrow> nat \<Rightarrow> int" where
  "age_binding_find_source_bag_index base source_bag_count pointer =
     (if base = 0 \<or> pointer = 0 \<or> source_bag_count \<le> 0 then -1
      else if pointer < base then -1
      else let offset = pointer - base
           in if offset mod nat sizeof_AgeSourceBag \<noteq> 0 then -1
              else let i = offset div nat sizeof_AgeSourceBag
                   in if int i \<ge> source_bag_count then -1 else int i)"

definition age_binding_source_bag_row_count :: "AgeSourceBag option \<Rightarrow> int result" where
  "age_binding_source_bag_row_count bag =
     (case bag of
        None \<Rightarrow> Inl (Ereport ''invalid AGE factorized binding source bag'')
      | Some b \<Rightarrow> if row_count b \<le> 0 then Inl (Ereport ''invalid AGE factorized binding source bag'') else Inr (row_count b))"

text \<open>The result is the first tuple index and the new count.\<close>

definition age_binding_add_source_multiplicity :: "int \<Rightarrow> AgeSourceBag option \<Rightarrow> (int \<times> int) result" where
  "age_binding_add_source_multiplicity logical_count bag =
     bindE (age_binding_source_bag_row_count bag) (\<lambda>n.
       if logical_count > PG_INT32_MAX - n then Inl (Ereport ''AGE factorized binding group is too large'')
       else Inr (logical_count, logical_count + n))"

record AgeEdgeBag =
  first_payload :: int
  payload_count :: int
  logical_count :: int

definition age_binding_edge_bag_record_payload :: "AgeEdgeBag \<Rightarrow> AgeSourceBag option \<Rightarrow> (int \<times> AgeEdgeBag) result" where
  "age_binding_edge_bag_record_payload edge_bag bag =
     bindE (age_binding_add_source_multiplicity (logical_count edge_bag) bag) (\<lambda>(first_tuple, n).
       Inr (first_tuple, edge_bag\<lparr>logical_count := n, payload_count := payload_count edge_bag + 1\<rparr>))"

subsection \<open>The bags partition the rows\<close>

text \<open>The grouping the loop computes: the keys in order of first appearance, with their runs.\<close>

definition bags_of :: "'t AgeBindingSourceRow list \<Rightarrow> AgeSourceBag list \<Rightarrow> bool" where
  "bags_of rows bags \<longleftrightarrow>
     (\<forall>b \<in> set bags. 0 \<le> first_row b \<and> 0 < row_count b \<and> first_row b + row_count b \<le> int (length rows)) \<and>
     (\<forall>i < length rows. \<forall>b \<in> set bags.
        row_key (rows ! i) = bag_key b \<longleftrightarrow> first_row b \<le> int i \<and> int i < first_row b + row_count b) \<and>
     bag_key ` set bags = row_key ` set rows \<and> sorted_wrt (\<lambda>a b. sint (bag_key a) < sint (bag_key b)) bags"

abbreviation rows_sorted :: "'t AgeBindingSourceRow list \<Rightarrow> bool" where
  "rows_sorted rows \<equiv> sorted_wrt (\<lambda>a b. sint (row_key a) \<le> sint (row_key b)) rows"

text \<open>A row with a new key opens a bag; every bag before has a smaller key.\<close>

lemma bags_below:
  assumes "bags_of rows bags" "rows_sorted (rows @ [r])" "bags = [] \<or> bag_key (last bags) \<noteq> row_key r" "b \<in> set bags"
  shows "sint (bag_key b) < sint (row_key r)"
proof -
  have ne: "bags \<noteq> []" using assms(4) by auto
  have le: "sint (bag_key c) \<le> sint (row_key r)" if "c \<in> set bags" for c
  proof -
    have "bag_key c \<in> row_key ` set rows" using assms(1) that unfolding bags_of_def by blast
    then show ?thesis using assms(2) by (auto simp: sorted_wrt_append)
  qed
  have "sint (bag_key (last bags)) < sint (row_key r)" using le [of "last bags"] ne assms(3)
    by (metis last_in_set order.not_eq_order_implies_strict sint_inject)
  moreover have "sint (bag_key b) \<le> sint (bag_key (last bags))"
  proof (cases "b = last bags")
    case False
    then have "b \<in> set (butlast bags)" using assms(4) ne by (metis append_butlast_last_id rotate1.simps(2) set_ConsD set_rotate1)
    moreover have "sorted_wrt (\<lambda>a b. sint (bag_key a) < sint (bag_key b)) (butlast bags @ [last bags])"
      using assms(1) ne unfolding bags_of_def by simp
    ultimately show ?thesis by (auto simp: sorted_wrt_append)
  qed simp
  ultimately show ?thesis by simp
qed

lemma bags_of_new:
  assumes "bags_of rows bags" "rows_sorted (rows @ [r])" "bags = [] \<or> bag_key (last bags) \<noteq> row_key r"
  shows "bags_of (rows @ [r]) (bags @ [\<lparr>bag_key = row_key r, first_row = int (length rows), row_count = 1\<rparr>])"
    (is "bags_of _ ?bags2")
proof -
  note below = bags_below [OF assms]
  show ?thesis
    unfolding bags_of_def
  proof (intro conjI)
    show "\<forall>b \<in> set ?bags2. 0 \<le> first_row b \<and> 0 < row_count b \<and> first_row b + row_count b \<le> int (length (rows @ [r]))"
      using assms(1) unfolding bags_of_def by fastforce
    show "bag_key ` set ?bags2 = row_key ` set (rows @ [r])" using assms(1) unfolding bags_of_def by auto
    show "sorted_wrt (\<lambda>a b. sint (bag_key a) < sint (bag_key b)) ?bags2"
      using assms(1) below unfolding bags_of_def by (simp add: sorted_wrt_append)
    show "\<forall>i < length (rows @ [r]). \<forall>b \<in> set ?bags2.
        row_key ((rows @ [r]) ! i) = bag_key b \<longleftrightarrow> first_row b \<le> int i \<and> int i < first_row b + row_count b"
    proof (intro allI ballI impI)
      fix i b assume i: "i < length (rows @ [r])" and b: "b \<in> set ?bags2"
      consider (old) "b \<in> set bags" "i < length rows" | (last) "b \<in> set bags" "i = length rows"
        | (new) "b = \<lparr>bag_key = row_key r, first_row = int (length rows), row_count = 1\<rparr>" using i b by fastforce
      then show "row_key ((rows @ [r]) ! i) = bag_key b \<longleftrightarrow> first_row b \<le> int i \<and> int i < first_row b + row_count b"
      proof cases
        case old
        then show ?thesis using assms(1) unfolding bags_of_def by (simp add: nth_append)
      next
        case last
        then have "first_row b + row_count b \<le> int (length rows)" using assms(1) unfolding bags_of_def by blast
        with last below [of b] show ?thesis by (auto simp: nth_append)
      next
        case new
        have "row_key (rows ! i) \<noteq> row_key r" if "i < length rows"
        proof -
          have "row_key (rows ! i) \<in> bag_key ` set bags" using assms(1) that unfolding bags_of_def by simp
          with below show ?thesis by fastforce
        qed
        with new i show ?thesis by (auto simp: nth_append less_Suc_eq)
      qed
    qed
  qed
qed

text \<open>A row with the key of the last bag extends it.\<close>

lemma bags_of_extend:
  assumes A: "bags_of rows (bs @ [l])" and lend: "first_row l + row_count l = int (length rows)" and k: "bag_key l = row_key r"
  shows "bags_of (rows @ [r]) (bs @ [l\<lparr>row_count := row_count l + 1\<rparr>])" (is "bags_of _ ?bags2")
proof -
  have before: "bag_key b \<noteq> row_key r" if "b \<in> set bs" for b
    using A that k unfolding bags_of_def by (auto simp: sorted_wrt_append)
  show ?thesis
    unfolding bags_of_def
  proof (intro conjI)
    show "\<forall>b \<in> set ?bags2. 0 \<le> first_row b \<and> 0 < row_count b \<and> first_row b + row_count b \<le> int (length (rows @ [r]))"
      using A lend unfolding bags_of_def by fastforce
    have "row_key r \<in> row_key ` set rows" using A k unfolding bags_of_def by (metis (no_types, lifting) image_eqI in_set_conv_decomp)
    then show "bag_key ` set ?bags2 = row_key ` set (rows @ [r])" using A unfolding bags_of_def by auto
    show "sorted_wrt (\<lambda>a b. sint (bag_key a) < sint (bag_key b)) ?bags2"
      using A unfolding bags_of_def by (simp add: sorted_wrt_append)
    show "\<forall>i < length (rows @ [r]). \<forall>b \<in> set ?bags2.
        row_key ((rows @ [r]) ! i) = bag_key b \<longleftrightarrow> first_row b \<le> int i \<and> int i < first_row b + row_count b"
    proof (intro allI ballI impI)
      fix i b assume i: "i < length (rows @ [r])" and b: "b \<in> set ?bags2"
      have old: "row_key (rows ! i) = bag_key c \<longleftrightarrow> first_row c \<le> int i \<and> int i < first_row c + row_count c"
        if "i < length rows" "c \<in> set bs \<or> c = l" for c
        using A that unfolding bags_of_def by auto
      have bound: "0 \<le> first_row c \<and> 0 < row_count c \<and> first_row c + row_count c \<le> int (length rows)"
        if "c \<in> set bs \<or> c = l" for c
        using A that unfolding bags_of_def by auto
      consider (m) "b \<in> set bs" | (l) "b = l\<lparr>row_count := row_count l + 1\<rparr>" using b by auto
      then show "row_key ((rows @ [r]) ! i) = bag_key b \<longleftrightarrow> first_row b \<le> int i \<and> int i < first_row b + row_count b"
      proof cases
        case m
        with old [of b] bound [of b] before [of b] i show ?thesis by (auto simp: nth_append less_Suc_eq)
      next
        case l
        with old [of l] bound [of l] lend k i show ?thesis by (auto simp: nth_append less_Suc_eq)
      qed
    qed
  qed
qed

lemma bag_loop_bags:
  assumes "rows_sorted (rows @ rs)" "bags_of rows bags"
    and "bags \<noteq> [] \<Longrightarrow> first_row (last bags) + row_count (last bags) = int (length rows)"
  shows "bags_of (rows @ rs) (bag_loop rs (int (length rows)) bags)"
  using assms
proof (induction rs arbitrary: rows bags)
  case Nil
  then show ?case by simp
next
  case (Cons r rs)
  have s: "rows_sorted (rows @ [r])" using Cons.prems(1) by (simp add: sorted_wrt_append)
  have s': "rows_sorted ((rows @ [r]) @ rs)" using Cons.prems(1) by simp
  show ?case
  proof (cases "bags = [] \<or> bag_key (last bags) \<noteq> row_key r")
    case True
    note new = bags_of_new [OF Cons.prems(2) s True]
    from Cons.IH [OF s' new] True show ?thesis by (simp add: Let_def add.commute)
  next
    case False
    define bs l where "bs = butlast bags" "l = last bags"
    have bags: "bags = bs @ [l]" using False by (simp add: bs_l_def)
    have "bags_of (rows @ [r]) (bs @ [l\<lparr>row_count := row_count l + 1\<rparr>])"
      by (rule bags_of_extend) (use Cons.prems(2,3) False bags in auto)
    from Cons.IH [OF s' this] Cons.prems(3) False bags show ?thesis by (simp add: Let_def add.commute)
  qed
qed


text \<open>Insertion sort by key, as an instance of \<open>qsort\<close>.\<close>

definition key_insort :: "'t AgeBindingSourceRow list \<Rightarrow> 't AgeBindingSourceRow list" where
  "key_insort rows = sort_key (\<lambda>r. sint (row_key r)) rows"

lemma key_insort_sorts: "qsort_sorts compare_age_binding_source_rows key_insort"
proof -
  have "rows_sorted (sort_key (\<lambda>r. sint (row_key r)) xs)" for xs :: "'a AgeBindingSourceRow list"
    using sorted_sort_key [of "\<lambda>r. sint (row_key r)" xs] by (simp add: sorted_map)
  then show ?thesis unfolding qsort_sorts_def key_insort_def by simp
qed


text \<open>The pointer of bag \<open>i\<close> is found again, and a payload recorded for it extends the count by its rows
  without leaving the 32-bit range.\<close>

lemma find_source_bag_index:
  "0 < base \<Longrightarrow> i < n \<Longrightarrow> age_binding_find_source_bag_index base (int n) (base + 16 * i) = int i"
  by (simp add: age_binding_find_source_bag_index_def sizeof_AgeSourceBag_def)

lemma record_payload_bounds:
  assumes "age_binding_edge_bag_record_payload e (Some b) = Inr (f, e')" "0 \<le> logical_count e" "logical_count e \<le> PG_INT32_MAX"
  shows "f = logical_count e \<and> logical_count e' = logical_count e + row_count b \<and> logical_count e < logical_count e' \<and>
    logical_count e' \<le> PG_INT32_MAX"
  using assms by (auto simp: age_binding_edge_bag_record_payload_def age_binding_add_source_multiplicity_def
      age_binding_source_bag_row_count_def bindE_eq_Inr split: if_splits)

end
