(* ===== verification/Wcoj_Provider.thy ===== *)
theory Wcoj_Provider
  imports Wcoj_Intersect Binding_Source
begin

text \<open>
  The posting providers of the worst-case optimal join (\<open>src/backend/executor/cypher_wcoj_join.c\<close>): cursors
  over the distinct terminal keys of one join input. \<open>AgeWCOJPostingProviderOps\<close> is the vtable of the C
  code; the locale \<open>posting_provider\<close> states what the alignment engines rely on, in terms of the set of
  keys a cursor has not passed yet. It is interpreted here on the plan stream provider, a sorted child plan
  that is read row by row, and in \<open>Wcoj_Adjacency\<close> on the adjacency provider.

  A child plan is modelled by the rows it returns: \<open>plan_input\<close> is what a (re)scan returns, \<open>plan_rows\<close>
  what is left of it, and \<open>key_attr\<close>, \<open>edge_attr\<close> are \<open>slot_getattr\<close> at the attributes the provider reads.
  Memory statistics (\<open>update_age_wcoj_peak_memory\<close>) are not kept.
\<close>

subsection \<open>State\<close>

datatype AgeWCOJProviderKind = AGE_WCOJ_PROVIDER_PLAN_STREAM | AGE_WCOJ_PROVIDER_ADJACENCY

text \<open>A group of copied rows; the groups of the adjacency provider's payloads are not modelled.\<close>

record 't AgeWCOJTupleGroup =
  group_tuples :: "'t list"
  group_edge_ids :: "graphid list"
  group_edge_id_valid :: "bool list"
  group_capacity :: int

record 't AgeWCOJPostingProvider =
  provider_kind :: AgeWCOJProviderKind
  plan_input :: "'t list"
  plan_rows :: "'t list"
  key_attr :: "'t \<Rightarrow> graphid option"
  edge_attr :: "('t \<Rightarrow> graphid option) option"
  current_slot :: "'t option"
  current_key :: graphid
  last_key :: graphid
  has_current :: bool
  has_last_key :: bool
  exhausted :: bool
  provider_rows :: "'t source_row_array"
  provider_bags :: "AgeSourceBag list"
  terminals :: "graphid list"
  terminal_count :: nat
  terminal_capacity :: int
  terminal_bytes :: int
  terminal_index :: nat
  terminal_scan :: "graphid list option \<Rightarrow> graphid \<Rightarrow> graphid list"
  terminal_filter :: "graphid list option"
  built :: bool
  rows_scanned :: int
  batch_groups :: "'t AgeWCOJTupleGroup list"

type_synonym 't cursor_step = "(bool \<times> 't AgeWCOJPostingProvider \<times> wcoj_stats) result"

record ('p, 's) AgeWCOJPostingProviderOps =
  op_first_distinct :: "'p \<Rightarrow> 's \<Rightarrow> (bool \<times> 'p \<times> 's) result"
  op_next_distinct :: "'p \<Rightarrow> 's \<Rightarrow> (bool \<times> 'p \<times> 's) result"
  op_seek_ge :: "'p \<Rightarrow> graphid \<Rightarrow> 's \<Rightarrow> (bool \<times> 'p \<times> 's) result"

subsection \<open>The contract of a provider\<close>

definition least_gid :: "graphid \<Rightarrow> graphid set \<Rightarrow> bool" where
  "least_gid k S \<longleftrightarrow> k \<in> S \<and> (\<forall>x \<in> S. sint k \<le> sint x)"

text \<open>The result of an operation after which the keys \<open>K\<close> are ahead: it says whether there are any, and
  then the cursor stands at the least of them, with its flag \<open>here\<close> set.\<close>

definition moves_to ::
    "('p \<Rightarrow> bool) \<Rightarrow> ('p \<Rightarrow> graphid) \<Rightarrow> ('p \<Rightarrow> graphid set) \<Rightarrow> ('p \<Rightarrow> bool) \<Rightarrow> graphid set \<Rightarrow> (bool \<times> 'p \<times> 's) result \<Rightarrow> bool" where
  "moves_to here key keys ok K r \<longleftrightarrow>
     (\<exists>b p' s'. r = Inr (b, p', s') \<and> ok p' \<and> keys p' = K \<and> (b \<longleftrightarrow> K \<noteq> {}) \<and> (b \<longrightarrow> here p' \<and> least_gid (key p') K))"

definition after_least :: "graphid set \<Rightarrow> graphid set" where
  "after_least S = {x \<in> S. \<exists>y \<in> S. sint y < sint x}"

definition from_gid :: "graphid \<Rightarrow> graphid set \<Rightarrow> graphid set" where
  "from_gid t S = {x \<in> S. sint t \<le> sint x}"

locale posting_provider =
  fixes ops :: "('p, 's) AgeWCOJPostingProviderOps"
    and here :: "'p \<Rightarrow> bool"
    and key :: "'p \<Rightarrow> graphid"
    and keys :: "'p \<Rightarrow> graphid set"
    and ok :: "'p \<Rightarrow> bool"
  assumes finite_keys: "ok p \<Longrightarrow> finite (keys p)"
    and first_law: "ok p \<Longrightarrow> moves_to here key keys ok (keys p) (op_first_distinct ops p s)"
    and next_law: "ok p \<Longrightarrow> moves_to here key keys ok (after_least (keys p)) (op_next_distinct ops p s)"
    and seek_law: "ok p \<Longrightarrow> moves_to here key keys ok (from_gid t (keys p)) (op_seek_ge ops p t s)"

lemma least_gid_unique: "least_gid k S \<Longrightarrow> least_gid k' S \<Longrightarrow> k = k'"
  unfolding least_gid_def by (metis order_antisym sint_inject)

lemma least_gid_exists:
  assumes "finite S" "S \<noteq> {}"
  obtains k where "least_gid k S"
proof -
  obtain k where "k \<in> S" "\<forall>x \<in> S. \<not> sint x < sint k"
    using ex_min_if_finite [of "sint ` S"] assms by fastforce
  then show thesis using that unfolding least_gid_def by force
qed

lemma after_least_least: "least_gid k S \<Longrightarrow> after_least S = S - {k}"
  unfolding least_gid_def after_least_def by auto (metis order.not_eq_order_implies_strict sint_inject)

lemma moves_toI:
  "r = Inr (b, p', s') \<Longrightarrow> ok p' \<Longrightarrow> keys p' = K \<Longrightarrow> (b \<longleftrightarrow> K \<noteq> {}) \<Longrightarrow> (b \<Longrightarrow> here p' \<and> least_gid (key p') K) \<Longrightarrow> moves_to here key keys ok K r"
  unfolding moves_to_def by blast

lemma moves_to_stands:
  "r = Inr (True, p', s') \<Longrightarrow> ok p' \<Longrightarrow> keys p' = K \<Longrightarrow> here p' \<Longrightarrow> least_gid (key p') K \<Longrightarrow> moves_to here key keys ok K r"
  by (rule moves_toI) (auto simp: least_gid_def)

lemma moves_to_ended:
  "r = Inr (False, p', s') \<Longrightarrow> ok p' \<Longrightarrow> keys p' = {} \<Longrightarrow> K = {} \<Longrightarrow> moves_to here key keys ok K r"
  by (erule moves_toI) simp_all

lemma moves_toE:
  assumes "moves_to here key keys ok K r"
  obtains (stands) p' s' where "r = Inr (True, p', s')" "ok p'" "keys p' = K" "least_gid (key p') K" "here p'"
  | (ended) p' s' where "r = Inr (False, p', s')" "ok p'" "keys p' = K" "K = {}"
proof -
  from assms obtain b p' s' where "r = Inr (b, p', s')" "ok p'" "keys p' = K" "b \<longleftrightarrow> K \<noteq> {}" "b \<longrightarrow> here p' \<and> least_gid (key p') K"
    unfolding moves_to_def by blast
  with that show thesis by (cases b) simp_all
qed

subsection \<open>The plan stream provider\<close>

definition record_provider_advance :: "wcoj_stats \<Rightarrow> wcoj_stats" where
  "record_provider_advance s = s\<lparr>cursor_advances := increment_counter (cursor_advances s)\<rparr>"

definition count_row_fetch :: "wcoj_stats \<Rightarrow> wcoj_stats" where
  "count_row_fetch s = s\<lparr>posting_rows_scanned := increment_counter (posting_rows_scanned s),
     payload_rows_fetched := increment_counter (payload_rows_fetched s)\<rparr>"

definition count_seek :: "wcoj_stats \<Rightarrow> wcoj_stats" where
  "count_seek s = s\<lparr>seek_calls := increment_counter (seek_calls s)\<rparr>"

text \<open>The loop of \<open>plan_stream_fetch_row\<close> over the rows the child plan still returns.\<close>

primrec fetch_loop :: "'t list \<Rightarrow> 't AgeWCOJPostingProvider \<Rightarrow> wcoj_stats \<Rightarrow> 't cursor_step" where
  "fetch_loop [] p s = Inr (False, p\<lparr>plan_rows := [], current_slot := None, has_current := False, exhausted := True\<rparr>, s)"
| "fetch_loop (r # rs) p s =
     (let p1 = p\<lparr>plan_rows := rs, rows_scanned := increment_counter (rows_scanned p)\<rparr>; s1 = count_row_fetch s
      in case key_attr p r of
           None \<Rightarrow> fetch_loop rs p1 s1
         | Some k \<Rightarrow>
             if has_last_key p \<and> sint k < sint (last_key p)
             then Inl (Ereport ''AGE WCOJ plan-stream provider received unsorted graphids'')
             else Inr (True, p1\<lparr>last_key := k, has_last_key := True, current_slot := Some r, current_key := k,
                        has_current := True\<rparr>, s1))"

definition plan_stream_fetch_row :: "'t AgeWCOJPostingProvider \<Rightarrow> wcoj_stats \<Rightarrow> 't cursor_step" where
  "plan_stream_fetch_row p s = fetch_loop (plan_rows p) p s"

definition plan_stream_first_distinct :: "'t AgeWCOJPostingProvider \<Rightarrow> wcoj_stats \<Rightarrow> 't cursor_step" where
  "plan_stream_first_distinct p s =
     (if has_current p then Inr (True, p, s) else if exhausted p then Inr (False, p, s) else plan_stream_fetch_row p s)"

lemma fetch_loop_shorter: "fetch_loop rs p s = Inr (True, p', s') \<Longrightarrow> length (plan_rows p') < length rs"
  by (induction rs arbitrary: p s) (auto simp: Let_def split: option.splits if_splits, fastforce)

lemma fetch_loop_current: "fetch_loop rs p s = Inr (True, p', s') \<Longrightarrow> has_current p'"
  by (induction rs arbitrary: p s) (auto simp: Let_def split: option.splits if_splits)

lemma fetch_row_shorter: "plan_stream_fetch_row p s = Inr (True, p', s') \<Longrightarrow> length (plan_rows p') < length (plan_rows p)"
  unfolding plan_stream_fetch_row_def by (rule fetch_loop_shorter)

text \<open>The loop of \<open>plan_stream_next_distinct\<close>.\<close>

function skip_group :: "graphid \<Rightarrow> 't AgeWCOJPostingProvider \<Rightarrow> wcoj_stats \<Rightarrow> 't cursor_step" where
  "skip_group previous_key p s =
     bindE (plan_stream_fetch_row p s) (\<lambda>(found, p1, s1).
       if \<not> found then Inr (False, p1, record_provider_advance s1)
       else if current_key p1 \<noteq> previous_key then Inr (True, p1, record_provider_advance s1)
       else skip_group previous_key p1 s1)"
  by pat_completeness auto
termination by (relation "measure (\<lambda>(k, p, s). length (plan_rows p))") (auto dest: fetch_row_shorter)

declare skip_group.simps [simp del]

definition plan_stream_next_distinct :: "'t AgeWCOJPostingProvider \<Rightarrow> wcoj_stats \<Rightarrow> 't cursor_step" where
  "plan_stream_next_distinct p s =
     bindE (plan_stream_first_distinct p s) (\<lambda>(found, p1, s1).
       if \<not> found then Inr (False, p1, s1) else skip_group (current_key p1) p1 s1)"

lemma skip_group_shorter: "skip_group k p s = Inr (True, p', s') \<Longrightarrow> length (plan_rows p') < length (plan_rows p)"
proof (induction k p s rule: skip_group.induct)
  case (1 k p s)
  from "1.prems" obtain found p1 s1 where f: "plan_stream_fetch_row p s = Inr (found, p1, s1)"
    by (subst (asm) skip_group.simps) (auto simp: bindE_eq_Inr)
  with "1.prems" have found by (subst (asm) skip_group.simps) (auto split: if_splits)
  have l: "length (plan_rows p1) < length (plan_rows p)" by (rule fetch_row_shorter) (use f \<open>found\<close> in simp)
  show ?case
  proof (cases "current_key p1 = k")
    case True
    with "1.prems" f \<open>found\<close> have "skip_group k p1 s1 = Inr (True, p', s')" by (subst (asm) skip_group.simps) simp
    with "1.IH" [OF f] \<open>found\<close> True have "length (plan_rows p') < length (plan_rows p1)" by blast
    with l show ?thesis by simp
  next
    case False
    with "1.prems" f \<open>found\<close> l show ?thesis by (subst (asm) skip_group.simps) simp
  qed
qed

lemma next_distinct_shorter:
  assumes "plan_stream_next_distinct p s = Inr (True, p', s')"
  shows "length (plan_rows p') < length (plan_rows p)"
proof -
  from assms obtain p1 s1 where f: "plan_stream_first_distinct p s = Inr (True, p1, s1)" "skip_group (current_key p1) p1 s1 = Inr (True, p', s')"
    by (auto simp: plan_stream_next_distinct_def bindE_eq_Inr split: if_splits)
  have "length (plan_rows p1) \<le> length (plan_rows p)"
    using f(1) fetch_row_shorter [of p s p1 s1] by (auto simp: plan_stream_first_distinct_def split: if_splits)
  with skip_group_shorter [OF f(2)] show ?thesis by simp
qed

text \<open>The loop of \<open>plan_stream_seek_ge\<close>.\<close>

function seek_loop :: "graphid \<Rightarrow> 't AgeWCOJPostingProvider \<Rightarrow> wcoj_stats \<Rightarrow> 't cursor_step" where
  "seek_loop target p s =
     (if sint (current_key p) < sint target then
        bindE (plan_stream_next_distinct p s) (\<lambda>(found, p1, s1). if \<not> found then Inr (False, p1, s1) else seek_loop target p1 s1)
      else Inr (True, p, s))"
  by pat_completeness auto
termination by (relation "measure (\<lambda>(t, p, s). length (plan_rows p))") (auto dest: next_distinct_shorter)

declare seek_loop.simps [simp del]

definition plan_stream_seek_ge :: "'t AgeWCOJPostingProvider \<Rightarrow> graphid \<Rightarrow> wcoj_stats \<Rightarrow> 't cursor_step" where
  "plan_stream_seek_ge p target s =
     bindE (plan_stream_first_distinct p (count_seek s)) (\<lambda>(found, p1, s1).
       if \<not> found then Inr (False, p1, s1) else seek_loop target p1 s1)"

definition plan_stream_rescan :: "'t AgeWCOJPostingProvider \<Rightarrow> 't AgeWCOJPostingProvider" where
  "plan_stream_rescan p =
     p\<lparr>plan_rows := plan_input p, current_slot := None, has_current := False, has_last_key := False, exhausted := False\<rparr>"

definition plan_stream_ops :: "('t AgeWCOJPostingProvider, wcoj_stats) AgeWCOJPostingProviderOps" where
  "plan_stream_ops = \<lparr>op_first_distinct = plan_stream_first_distinct, op_next_distinct = plan_stream_next_distinct,
     op_seek_ge = plan_stream_seek_ge\<rparr>"

subsection \<open>The plan stream provider keeps the contract\<close>

abbreviation row_keys :: "'t AgeWCOJPostingProvider \<Rightarrow> graphid list" where
  "row_keys p \<equiv> List.map_filter (key_attr p) (plan_rows p)"

text \<open>The child plan is sorted by the key, where it is not null, and the cursor fields agree with each other.\<close>

definition plan_ok :: "'t AgeWCOJPostingProvider \<Rightarrow> bool" where
  "plan_ok p \<longleftrightarrow> provider_kind p = AGE_WCOJ_PROVIDER_PLAN_STREAM \<and> sorted_wrt (\<lambda>a b. sint a \<le> sint b) (row_keys p) \<and>
     (has_last_key p \<longrightarrow> (\<forall>k \<in> set (row_keys p). sint (last_key p) \<le> sint k)) \<and>
     (has_current p \<longrightarrow> has_last_key p \<and> current_key p = last_key p \<and> (\<exists>t. current_slot p = Some t \<and> key_attr p t = Some (current_key p))) \<and>
     (exhausted p \<longrightarrow> plan_rows p = [] \<and> \<not> has_current p)"

definition plan_keys :: "'t AgeWCOJPostingProvider \<Rightarrow> graphid set" where
  "plan_keys p = set (row_keys p) \<union> (if has_current p then {current_key p} else {})"

text \<open>One call of \<open>plan_stream_fetch_row\<close>: the next row with a key, or the end.\<close>

lemma fetch_loop_law:
  assumes "rs = plan_rows p" "sorted_wrt (\<lambda>a b. sint a \<le> sint b) (row_keys p)" "has_last_key p \<longrightarrow> (\<forall>k \<in> set (row_keys p). sint (last_key p) \<le> sint k)"
    and "\<not> exhausted p" "provider_kind p = AGE_WCOJ_PROVIDER_PLAN_STREAM"
  shows "(case row_keys p of
      [] \<Rightarrow> \<exists>p' s'. fetch_loop rs p s = Inr (False, p', s') \<and> plan_ok p' \<and> plan_keys p' = {} \<and> exhausted p' \<and> \<not> has_current p'
    | k # ks \<Rightarrow> \<exists>p' s'. fetch_loop rs p s = Inr (True, p', s') \<and> plan_ok p' \<and> has_current p' \<and> current_key p' = k \<and> row_keys p' = ks \<and>
        current_slot p' \<noteq> None)"
  using assms
proof (induction rs arbitrary: p s)
  case Nil
  then have rows: "plan_rows p = []" by simp
  show ?case using Nil.prems(4,5) by (simp add: rows plan_ok_def plan_keys_def map_filter_simps)
next
  case (Cons r rs)
  have rows: "plan_rows p = r # rs" using Cons.prems(1) by simp
  show ?case
  proof (cases "key_attr p r")
    case None
    define p1 where "p1 = p\<lparr>plan_rows := rs, rows_scanned := increment_counter (rows_scanned p)\<rparr>"
    have same: "row_keys p = row_keys p1" using None by (simp add: rows p1_def map_filter_simps)
    have step: "fetch_loop (r # rs) p s = fetch_loop rs p1 (count_row_fetch s)" using None by (simp add: p1_def)
    have f: "rs = plan_rows p1" "has_last_key p1 = has_last_key p" "last_key p1 = last_key p" "exhausted p1 = exhausted p"
      "provider_kind p1 = provider_kind p" by (simp_all add: p1_def)
    show ?thesis unfolding step same
      by (rule Cons.IH) (unfold f(2-5) same [symmetric], fact f(1), fact Cons.prems(2), fact Cons.prems(3), fact Cons.prems(4), fact Cons.prems(5))
  next
    case (Some k)
    then have "row_keys p = k # List.map_filter (key_attr p) rs" by (simp add: rows map_filter_simps)
    then have rk: "row_keys p = k # List.map_filter (key_attr p) rs" .
    have srt: "sorted_wrt (\<lambda>a b. sint a \<le> sint b) (List.map_filter (key_attr p) rs)"
      "\<forall>x \<in> set (List.map_filter (key_attr p) rs). sint k \<le> sint x" "\<not> (has_last_key p \<and> sint k < sint (last_key p))"
      using Cons.prems(2,3) unfolding rk by auto
    then show ?thesis unfolding rk list.case using Some Cons.prems(4,5) by (simp add: Let_def plan_ok_def del: map_filter_simps)
  qed
qed

lemma fetch_row_cases:
  assumes "plan_ok p" "\<not> exhausted p"
  obtains (row) p' s' where "plan_stream_fetch_row p s = Inr (True, p', s')" "plan_ok p'" "has_current p'" "row_keys p = current_key p' # row_keys p'"
      "current_slot p' \<noteq> None"
  | (last) p' s' where "plan_stream_fetch_row p s = Inr (False, p', s')" "plan_ok p'" "plan_keys p' = {}" "row_keys p = []" "exhausted p'"
proof (cases "row_keys p")
  case Nil
  with fetch_loop_law [OF refl, of p s] assms last show ?thesis by (auto simp: plan_ok_def plan_stream_fetch_row_def)
next
  case (Cons k ks)
  with fetch_loop_law [OF refl, of p s] assms row show ?thesis by (auto simp: plan_ok_def plan_stream_fetch_row_def)
qed

lemma plan_keys_current: "has_current p \<Longrightarrow> plan_keys p = insert (current_key p) (set (row_keys p))"
  by (simp add: plan_keys_def)

lemma plan_keys_idle: "\<not> has_current p \<Longrightarrow> plan_keys p = set (row_keys p)"
  by (simp add: plan_keys_def)

lemma plan_positioned: "plan_ok p \<Longrightarrow> has_current p \<Longrightarrow> least_gid (current_key p) (plan_keys p)"
  by (auto simp: plan_ok_def plan_keys_current least_gid_def)

lemma plan_first_law: "plan_ok p \<Longrightarrow> moves_to has_current current_key plan_keys plan_ok (plan_keys p) (plan_stream_first_distinct p s)"
proof -
  assume ok: "plan_ok p"
  consider "has_current p" | "\<not> has_current p" "exhausted p" | "\<not> has_current p" "\<not> exhausted p" by blast
  then show ?thesis
  proof cases
    case 1
    then show ?thesis using ok plan_positioned [OF ok 1]
      by (intro moves_toI [of _ True p s]) (simp_all add: plan_stream_first_distinct_def plan_keys_current)
  next
    case 2
    then have "plan_keys p = {}" using ok by (simp add: plan_ok_def plan_keys_idle map_filter_simps)
    with 2 ok show ?thesis by (intro moves_toI [of _ False p s]) (simp_all add: plan_stream_first_distinct_def)
  next
    case 3
    from ok 3(2) show ?thesis
    proof (cases rule: fetch_row_cases [where s = s])
      case (row p' s')
      then show ?thesis using 3 plan_positioned [OF row(2,3)]
        by (intro moves_toI [of _ True p' s']) (simp_all add: plan_stream_first_distinct_def plan_keys_idle plan_keys_current)
    next
      case (last p' s')
      then show ?thesis using 3 by (intro moves_toI [of _ False p' s']) (simp_all add: plan_stream_first_distinct_def plan_keys_idle)
    qed
  qed
qed

lemma skip_group_law:
  "plan_ok p \<Longrightarrow> has_current p \<Longrightarrow> current_key p = k \<Longrightarrow>
   moves_to has_current current_key plan_keys plan_ok (after_least (plan_keys p)) (skip_group k p s)"
proof (induction k p s rule: skip_group.induct)
  case (1 k p s)
  have live: "\<not> exhausted p" using "1.prems"(1,2) by (auto simp: plan_ok_def)
  have rest: "after_least (plan_keys p) = plan_keys p - {k}"
    using after_least_least [OF plan_positioned [OF "1.prems"(1,2)]] "1.prems"(3) by simp
  from "1.prems"(1) live show ?case
  proof (cases rule: fetch_row_cases [where s = s])
    case (row p' s')
    have "k' = k \<or> sint k < sint k'" if "k' \<in> set (row_keys p)" for k'
      using "1.prems" that unfolding plan_ok_def by (metis order.not_eq_order_implies_strict sint_inject)
    note above = this
    show ?thesis
    proof (cases "current_key p' = k")
      case True
      have "plan_keys p' = plan_keys p" using row True "1.prems" by (simp add: plan_keys_current)
      with "1.IH" [OF row(1)] True row show ?thesis by (subst skip_group.simps) simp
    next
      case False
      have "k \<notin> set (row_keys p)"
      proof
        assume "k \<in> set (row_keys p)"
        then have "sint (current_key p') \<le> sint k" using "1.prems"(1) row(4) by (auto simp: plan_ok_def)
        moreover have "sint k < sint (current_key p')" using above [of "current_key p'"] False unfolding row(4) by simp
        ultimately show False by simp
      qed
      then have "plan_keys p' = plan_keys p - {k}" using "1.prems"(2,3) row(3,4) by (auto simp: plan_keys_current)
      with False row plan_positioned [OF row(2,3)] show ?thesis unfolding rest
        by (intro moves_to_stands [of _ p' "record_provider_advance s'"]) (subst skip_group.simps, simp_all)
    qed
  next
    case (last p' s')
    then have "plan_keys p - {k} = {}" using "1.prems"(2,3) by (simp add: plan_keys_current)
    with last show ?thesis unfolding rest
      by (intro moves_to_ended [of _ p' "record_provider_advance s'"]) (subst skip_group.simps, simp_all)
  qed
qed

lemma plan_next_law: "plan_ok p \<Longrightarrow> moves_to has_current current_key plan_keys plan_ok (after_least (plan_keys p)) (plan_stream_next_distinct p s)"
proof -
  assume "plan_ok p"
  from plan_first_law [OF this, of s] show ?thesis
  proof (cases rule: moves_toE)
    case (stands p' s')
    have "has_current p'" using stands(1) by (auto simp: plan_stream_first_distinct_def plan_stream_fetch_row_def dest: fetch_loop_current split: if_splits)
    from skip_group_law [OF stands(2) this refl] stands show ?thesis by (simp add: plan_stream_next_distinct_def)
  next
    case (ended p' s')
    then show ?thesis by (intro moves_to_ended [of _ p' s']) (simp_all add: plan_stream_next_distinct_def after_least_def)
  qed
qed

lemma from_after_least: "least_gid k S \<Longrightarrow> sint k < sint t \<Longrightarrow> from_gid t (after_least S) = from_gid t S"
  unfolding from_gid_def by (auto simp: after_least_least)

lemma from_least: "least_gid k S \<Longrightarrow> \<not> sint k < sint t \<Longrightarrow> from_gid t S = S"
  unfolding from_gid_def least_gid_def by force

lemma seek_loop_law:
  "plan_ok p \<Longrightarrow> least_gid (current_key p) (plan_keys p) \<Longrightarrow> has_current p \<Longrightarrow>
   moves_to has_current current_key plan_keys plan_ok (from_gid t (plan_keys p)) (seek_loop t p s)"
proof (induction t p s rule: seek_loop.induct)
  case (1 t p s)
  show ?case
  proof (cases "sint (current_key p) < sint t")
    case True
    note same = from_after_least [OF "1.prems"(2) True]
    from plan_next_law [OF "1.prems"(1), of s] show ?thesis
    proof (cases rule: moves_toE)
      case (stands p' s')
      with "1.IH" [OF True stands(1)] True show ?thesis by (subst seek_loop.simps) (simp add: same [symmetric])
    next
      case (ended p' s')
      then show ?thesis using True
        by (intro moves_to_ended [of _ p' s']) (subst seek_loop.simps, simp_all add: same [symmetric], simp add: from_gid_def)
    qed
  next
    case False
    then show ?thesis using "1.prems" from_least [OF "1.prems"(2) False]
      by (intro moves_to_stands [of _ p s]) (subst seek_loop.simps, simp_all)
  qed
qed

lemma plan_seek_law: "plan_ok p \<Longrightarrow> moves_to has_current current_key plan_keys plan_ok (from_gid t (plan_keys p)) (plan_stream_seek_ge p t s)"
proof -
  assume "plan_ok p"
  from plan_first_law [OF this, of "count_seek s"] show ?thesis
  proof (cases rule: moves_toE)
    case (stands p' s')
    with seek_loop_law [OF stands(2), of t s'] show ?thesis by (simp add: plan_stream_seek_ge_def)
  next
    case (ended p' s')
    then show ?thesis by (intro moves_to_ended [of _ p' s']) (simp_all add: plan_stream_seek_ge_def from_gid_def)
  qed
qed

interpretation plan_stream: posting_provider plan_stream_ops has_current current_key plan_keys plan_ok
proof unfold_locales
  fix p :: "'a AgeWCOJPostingProvider"
  show "finite (plan_keys p)" by (simp add: plan_keys_def)
qed (simp_all add: plan_stream_ops_def plan_first_law plan_next_law plan_seek_law)

subsection \<open>Which rows the cursor operations of a plan stream pass\<close>

definition all_rows :: "'t AgeWCOJPostingProvider \<Rightarrow> 't list" where
  "all_rows p = (if has_current p then [the (current_slot p)] else []) @ plan_rows p"

definition rows_with :: "('t \<Rightarrow> graphid option) \<Rightarrow> graphid \<Rightarrow> 't list \<Rightarrow> 't list" where
  "rows_with f k ts = filter (\<lambda>t. f t = Some k) ts"

text \<open>Every row of the input with a key that is still ahead is still ahead.\<close>

definition intact :: "'t AgeWCOJPostingProvider \<Rightarrow> bool" where
  "intact p \<longleftrightarrow> (\<forall>k \<in> plan_keys p. rows_with (key_attr p) k (all_rows p) = rows_with (key_attr p) k (plan_input p))"

definition same_plan :: "'t AgeWCOJPostingProvider \<Rightarrow> 't AgeWCOJPostingProvider \<Rightarrow> bool" where
  "same_plan p p' \<longleftrightarrow> batch_groups p' = batch_groups p \<and> plan_input p' = plan_input p \<and> key_attr p' = key_attr p \<and> edge_attr p' = edge_attr p \<and>
     length (plan_rows p') \<le> length (plan_rows p)"

text \<open>From \<open>p\<close> to \<open>p'\<close> only rows without a key, or with a key of \<open>D\<close>, are passed.\<close>

definition passes :: "graphid set \<Rightarrow> 't AgeWCOJPostingProvider \<Rightarrow> 't AgeWCOJPostingProvider \<Rightarrow> bool" where
  "passes D p p' \<longleftrightarrow> same_plan p p' \<and> (\<exists>d. all_rows p = d @ all_rows p' \<and> (\<forall>t \<in> set d. set_option (key_attr p t) \<subseteq> D))"

definition frame :: "'t AgeWCOJPostingProvider \<Rightarrow> 't AgeWCOJPostingProvider \<Rightarrow> bool" where
  "frame p p' \<longleftrightarrow> plan_keys p' \<subseteq> plan_keys p \<and> passes (- plan_keys p') p p'"

lemma passes_refl [simp]: "passes D p p"
  by (simp add: passes_def same_plan_def)

lemma passes_trans:
  assumes "passes D p q" "passes E q r"
  shows "passes (D \<union> E) p r"
proof -
  from assms obtain d e where "all_rows p = d @ all_rows q" "\<forall>t \<in> set d. set_option (key_attr p t) \<subseteq> D"
    "all_rows q = e @ all_rows r" "\<forall>t \<in> set e. set_option (key_attr q t) \<subseteq> E" "same_plan p q" "same_plan q r"
    unfolding passes_def by blast
  then show ?thesis unfolding passes_def same_plan_def by (intro conjI exI [of _ "d @ e"]) auto
qed

lemma passes_mono: "passes D p q \<Longrightarrow> D \<subseteq> E \<Longrightarrow> passes E p q"
  unfolding passes_def by blast

lemma frame_refl [simp]: "frame p p"
  by (simp add: frame_def)

lemma frame_trans [trans]: "frame p q \<Longrightarrow> frame q r \<Longrightarrow> frame p r"
  unfolding frame_def by (auto dest: passes_trans intro: passes_mono)

lemma intact_frame:
  assumes "intact p" "frame p p'"
  shows "intact p'"
proof -
  from assms(2) obtain d where d: "all_rows p = d @ all_rows p'" "\<forall>t \<in> set d. set_option (key_attr p t) \<subseteq> - plan_keys p'" "same_plan p p'"
    "plan_keys p' \<subseteq> plan_keys p" unfolding frame_def passes_def by blast
  have "rows_with (key_attr p) k d = []" if "k \<in> plan_keys p'" for k
    using d(2) that unfolding rows_with_def filter_empty_conv by fastforce
  then show ?thesis using assms(1) d(1,3,4) unfolding intact_def by (fastforce simp: rows_with_def same_plan_def)
qed

lemma fetch_loop_passes:
  "fetch_loop rs p s = Inr (b, p', s') \<Longrightarrow> rs = plan_rows p \<Longrightarrow>
   same_plan p p' \<and> (\<exists>d. rs = d @ all_rows p' \<and> (\<forall>t \<in> set d. key_attr p t = None))"
proof (induction rs arbitrary: p s)
  case Nil
  then show ?case by (auto simp: same_plan_def all_rows_def)
next
  case (Cons r rs)
  show ?case
  proof (cases "key_attr p r")
    case None
    define p1 where "p1 = p\<lparr>plan_rows := rs, rows_scanned := increment_counter (rows_scanned p)\<rparr>"
    from Cons.prems(1) None have "fetch_loop rs p1 (count_row_fetch s) = Inr (b, p', s')" by (simp add: p1_def)
    from Cons.IH [OF this] obtain d where "same_plan p1 p'" "rs = d @ all_rows p'" "\<forall>t \<in> set d. key_attr p1 t = None" by (auto simp: p1_def)
    with None Cons.prems(2) [symmetric] show ?thesis by (intro conjI exI [of _ "r # d"]) (auto simp: p1_def same_plan_def)
  next
    case (Some k)
    with Cons.prems(1) have "p' = p\<lparr>plan_rows := rs, rows_scanned := increment_counter (rows_scanned p), last_key := k, has_last_key := True,
        current_slot := Some r, current_key := k, has_current := True\<rparr>" by (auto simp: Let_def split: if_splits)
    then show ?thesis using Cons.prems(2) [symmetric] by (intro conjI exI [of _ "[]"]) (simp_all add: all_rows_def same_plan_def)
  qed
qed

lemma fetch_row_passes:
  assumes "plan_stream_fetch_row p s = Inr (b, p', s')" "plan_ok p"
  shows "passes (if has_current p then {current_key p} else {}) p p'"
proof -
  from fetch_loop_passes [OF assms(1) [unfolded plan_stream_fetch_row_def] refl] obtain d where
    d: "same_plan p p'" "plan_rows p = d @ all_rows p'" "\<forall>t \<in> set d. key_attr p t = None" by blast
  show ?thesis
  proof (cases "has_current p")
    case True
    with assms(2) obtain t where "current_slot p = Some t" "key_attr p t = Some (current_key p)" by (auto simp: plan_ok_def)
    with True d show ?thesis unfolding passes_def by (intro conjI exI [of _ "t # d"]) (simp_all add: all_rows_def [of p])
  next
    case False
    with d show ?thesis unfolding passes_def by (intro conjI exI [of _ d]) (simp_all add: all_rows_def [of p])
  qed
qed

lemma first_passes: "plan_stream_first_distinct p s = Inr (b, p', s') \<Longrightarrow> plan_ok p \<Longrightarrow> passes {} p p'"
  by (auto simp: plan_stream_first_distinct_def split: if_splits dest: fetch_row_passes)

lemma skip_group_passes: "skip_group k p s = Inr (b, p', s') \<Longrightarrow> plan_ok p \<Longrightarrow> has_current p \<Longrightarrow> current_key p = k \<Longrightarrow> passes {k} p p'"
proof (induction k p s rule: skip_group.induct)
  case (1 k p s)
  from "1.prems" obtain found p1 s1 where f: "plan_stream_fetch_row p s = Inr (found, p1, s1)"
    by (subst (asm) skip_group.simps) (auto simp: bindE_eq_Inr)
  have ps: "passes {k} p p1" using fetch_row_passes [OF f "1.prems"(2)] "1.prems"(3,4) by simp
  show ?case
  proof (cases "found \<and> current_key p1 = k")
    case True
    with "1.prems" f have r: "skip_group k p1 s1 = Inr (b, p', s')" by (subst (asm) skip_group.simps) simp
    have "\<not> exhausted p" using "1.prems"(2,3) by (auto simp: plan_ok_def)
    with "1.prems"(2) have "plan_ok p1 \<and> has_current p1" using f True by (cases rule: fetch_row_cases [where s = s]) auto
    with "1.IH" [OF f] True r have "passes {k} p1 p'" by blast
    from passes_trans [OF ps this] show ?thesis by simp
  next
    case False
    with "1.prems" f ps show ?thesis by (subst (asm) skip_group.simps) (auto split: if_splits)
  qed
qed

lemma moves_to_result: "moves_to here key keys ok K (Inr (b, p', s')) \<Longrightarrow> ok p' \<and> keys p' = K \<and> (b \<longrightarrow> here p' \<and> least_gid (key p') K)"
  by (auto simp: moves_to_def)

lemma first_frame:
  assumes "plan_stream_first_distinct p s = Inr (b, p', s')" "plan_ok p"
  shows "frame p p'"
proof -
  have "plan_keys p' = plan_keys p" using moves_to_result [OF plan_first_law [OF assms(2), of s, unfolded assms(1)]] by simp
  with first_passes [OF assms] show ?thesis unfolding frame_def by (auto intro: passes_mono)
qed

lemma next_frame:
  assumes "plan_stream_next_distinct p s = Inr (b, p', s')" "plan_ok p"
  shows "frame p p'"
proof -
  from assms(1) obtain found p1 s1 where f: "plan_stream_first_distinct p s = Inr (found, p1, s1)"
    "(if \<not> found then Inr (False, p1, s1) else skip_group (current_key p1) p1 s1) = Inr (b, p', s')"
    by (auto simp: plan_stream_next_distinct_def bindE_eq_Inr)
  note fr = first_frame [OF f(1) assms(2)]
  have p1: "plan_ok p1" "found \<longrightarrow> has_current p1" using moves_to_result [OF plan_first_law [OF assms(2), of s, unfolded f(1)]] by simp_all
  show ?thesis
  proof (cases found)
    case True
    let ?k = "current_key p1"
    have r: "skip_group ?k p1 s1 = Inr (b, p', s')" and c: "has_current p1" using f(2) True p1(2) by simp_all
    have "plan_keys p' = plan_keys p1 - {?k}"
      using moves_to_result [OF skip_group_law [OF p1(1) c refl, of s1, unfolded r]] after_least_least [OF plan_positioned [OF p1(1) c]] by simp
    with skip_group_passes [OF r p1(1) c refl] have "frame p1 p'" unfolding frame_def by (auto intro: passes_mono)
    with fr show ?thesis by (rule frame_trans)
  qed (use fr f(2) in simp)
qed

lemma seek_loop_frame: "seek_loop t p s = Inr (b, p', s') \<Longrightarrow> plan_ok p \<Longrightarrow> frame p p'"
proof (induction t p s rule: seek_loop.induct)
  case (1 t p s)
  show ?case
  proof (cases "sint (current_key p) < sint t")
    case True
    with "1.prems" obtain found p1 s1 where f: "plan_stream_next_distinct p s = Inr (found, p1, s1)"
      by (subst (asm) seek_loop.simps) (auto simp: bindE_eq_Inr)
    note fr = next_frame [OF f "1.prems"(2)]
    have ok: "plan_ok p1" using moves_to_result [OF plan_next_law [OF "1.prems"(2), of s, unfolded f]] by simp
    show ?thesis
    proof (cases found)
      case found: True
      with "1.prems" f True have "seek_loop t p1 s1 = Inr (b, p', s')" by (subst (asm) seek_loop.simps) simp
      with "1.IH" [OF True f] found ok have "frame p1 p'" by blast
      with fr show ?thesis by (rule frame_trans)
    next
      case False
      with "1.prems" f fr True show ?thesis by (subst (asm) seek_loop.simps) simp
    qed
  next
    case False
    with "1.prems" show ?thesis by (subst (asm) seek_loop.simps) simp
  qed
qed

lemma seek_frame:
  assumes "plan_stream_seek_ge p t s = Inr (b, p', s')" "plan_ok p"
  shows "frame p p'"
proof -
  from assms(1) obtain found p1 s1 where f: "plan_stream_first_distinct p (count_seek s) = Inr (found, p1, s1)"
    "(if \<not> found then Inr (False, p1, s1) else seek_loop t p1 s1) = Inr (b, p', s')"
    by (auto simp: plan_stream_seek_ge_def bindE_eq_Inr)
  note fr = first_frame [OF f(1) assms(2)]
  have "plan_ok p1" using moves_to_result [OF plan_first_law [OF assms(2), of "count_seek s", unfolded f(1)]] by simp
  then have "frame p1 p'" using f(2) seek_loop_frame by (cases found) auto
  with fr show ?thesis by (rule frame_trans)
qed

end
