(* ===== verification/Wcoj_Adjacency.thy ===== *)
theory Wcoj_Adjacency
  imports Wcoj_Provider
begin

text \<open>
  The adjacency provider of the worst-case optimal join (\<open>src/backend/executor/cypher_wcoj_join.c\<close>): it reads
  its child plan into source bags, collects the terminals of every source key from the adjacency index, sorts
  them and removes duplicates, and is then a cursor over an array with binary search.

  The adjacency index scan is a parameter, the field \<open>terminal_scan\<close>: given the vertex set filter and a
  source key, the \<open>next_vertex_id\<close> of the payloads that \<open>age_adjacency_visible_payload_scan_next\<close> returns
  after \<open>age_adjacency_visible_payload_scan_begin_key\<close>. What is relied on is \<open>scan_filters\<close>: a filter
  drops no payload whose terminal is in the filter, and only drops payloads.
\<close>

subsection \<open>Building\<close>

datatype AgeWCOJAdjacencyBuildResult =
  AGE_WCOJ_ADJACENCY_BUILD_EMPTY | AGE_WCOJ_ADJACENCY_BUILD_READY | AGE_WCOJ_ADJACENCY_BUILD_OVERSIZE

definition compare_age_wcoj_graphids :: "graphid \<Rightarrow> graphid \<Rightarrow> int" where
  "compare_age_wcoj_graphids a b = (if sint a < sint b then -1 else if sint a > sint b then 1 else 0)"

definition append_age_wcoj_source_row ::
    "('t \<Rightarrow> int) \<Rightarrow> 't AgeWCOJPostingProvider \<Rightarrow> graphid \<Rightarrow> 't \<Rightarrow> wcoj_stats \<Rightarrow> ('t AgeWCOJPostingProvider \<times> wcoj_stats) result" where
  "append_age_wcoj_source_row t_len p key slot s =
     bindE (age_binding_append_source_row t_len (provider_rows p) key slot) (\<lambda>sr.
       Inr (p\<lparr>provider_rows := sr\<rparr>, s\<lparr>source_bag_rows := increment_counter (source_bag_rows s)\<rparr>))"

definition sizeof_graphid :: int where "sizeof_graphid = 8"

definition append_age_wcoj_terminal :: "'t AgeWCOJPostingProvider \<Rightarrow> graphid \<Rightarrow> 't AgeWCOJPostingProvider result" where
  "append_age_wcoj_terminal p terminal =
     bindE (if int (terminal_count p) = terminal_capacity p
            then let new_capacity = (if terminal_capacity p = 0 then 64 else terminal_capacity p * 2)
                 in if new_capacity \<le> terminal_capacity p \<or> new_capacity > MaxAllocSize div sizeof_graphid
                    then Inl (Ereport ''AGE WCOJ terminal set is too large'')
                    else Inr (p\<lparr>terminal_capacity := new_capacity,
                               terminal_bytes := age_binding_add_byte_counter (terminal_bytes p)
                                 (sizeof_graphid * (new_capacity - terminal_capacity p))\<rparr>)
            else Inr p) (\<lambda>p1.
     if int (terminal_count p1) < terminal_capacity p1
     then Inr (p1\<lparr>terminals := take (terminal_count p1) (terminals p1) @ [terminal], terminal_count := terminal_count p1 + 1\<rparr>)
     else Inl BadAccess)"

definition set_adjacency_terminal_filter :: "'t AgeWCOJPostingProvider \<Rightarrow> graphid list option \<Rightarrow> 't AgeWCOJPostingProvider" where
  "set_adjacency_terminal_filter p candidates = p\<lparr>terminal_filter := candidates\<rparr>"

text \<open>The loop of \<open>materialize_adjacency_source_bags\<close>.\<close>

primrec source_row_loop ::
    "('t \<Rightarrow> int) \<Rightarrow> 't list \<Rightarrow> 't AgeWCOJPostingProvider \<Rightarrow> wcoj_stats \<Rightarrow> ('t AgeWCOJPostingProvider \<times> wcoj_stats) result" where
  "source_row_loop t_len [] p s = Inr (p\<lparr>plan_rows := []\<rparr>, s)"
| "source_row_loop t_len (r # rs) p s =
     (let s1 = s\<lparr>source_rows_scanned := increment_counter (source_rows_scanned s)\<rparr>
      in case key_attr p r of
           None \<Rightarrow> source_row_loop t_len rs p s1
         | Some k \<Rightarrow> bindE (append_age_wcoj_source_row t_len p k r s1) (\<lambda>(p1, s2). source_row_loop t_len rs p1 s2))"

definition materialize_adjacency_source_bags ::
    "('t \<Rightarrow> int) \<Rightarrow> ('t AgeBindingSourceRow list \<Rightarrow> 't AgeBindingSourceRow list) \<Rightarrow> 't AgeWCOJPostingProvider \<Rightarrow> wcoj_stats \<Rightarrow> 't cursor_step" where
  "materialize_adjacency_source_bags t_len qs p s =
     bindE (source_row_loop t_len (plan_rows p) p s) (\<lambda>(p1, s1).
       if source_rows (provider_rows p1) = [] then Inr (False, p1, s1)
       else let (rows, bags, bytes) =
                  age_binding_build_source_bags qs (source_rows (provider_rows p1)) (source_bag_bytes (provider_rows p1))
            in Inr (True, p1\<lparr>provider_rows := (provider_rows p1)\<lparr>source_rows := rows, source_bag_bytes := bytes\<rparr>, provider_bags := bags\<rparr>,
                 s1\<lparr>distinct_source_keys := add_counter (distinct_source_keys s1) (int (length bags)),
                    source_bag_keys := add_counter (source_bag_keys s1) (int (length bags))\<rparr>))"

text \<open>The loops of \<open>collect_adjacency_terminals\<close> over the payloads of a key and over the bags.\<close>

primrec collect_payloads :: "int \<Rightarrow> graphid list \<Rightarrow> 't AgeWCOJPostingProvider \<Rightarrow> wcoj_stats \<Rightarrow> 't cursor_step" where
  "collect_payloads posting_limit [] p s = Inr (True, p, s)"
| "collect_payloads posting_limit (t # ts) p s =
     (let p1 = p\<lparr>rows_scanned := increment_counter (rows_scanned p)\<rparr>;
          s1 = s\<lparr>posting_rows_scanned := increment_counter (posting_rows_scanned s)\<rparr>
      in if posting_limit > 0 \<and> rows_scanned p1 > posting_limit then Inr (False, p1, s1)
         else bindE (append_age_wcoj_terminal p1 t) (\<lambda>p2. collect_payloads posting_limit ts p2 s1))"

primrec collect_bags :: "int \<Rightarrow> AgeSourceBag list \<Rightarrow> 't AgeWCOJPostingProvider \<Rightarrow> wcoj_stats \<Rightarrow> 't cursor_step" where
  "collect_bags posting_limit [] p s = Inr (True, p, s)"
| "collect_bags posting_limit (b # bs) p s =
     bindE (collect_payloads posting_limit (terminal_scan p (terminal_filter p) (bag_key b)) p
              (s\<lparr>intersection_builds := increment_counter (intersection_builds s)\<rparr>)) (\<lambda>(within, p1, s1).
       if within then collect_bags posting_limit bs p1 s1 else Inr (False, p1, s1))"

definition collect_adjacency_terminals :: "'t AgeWCOJPostingProvider \<Rightarrow> int \<Rightarrow> wcoj_stats \<Rightarrow> 't cursor_step" where
  "collect_adjacency_terminals p posting_limit s = collect_bags posting_limit (provider_bags p) p s"

text \<open>The compaction loop of \<open>deduplicate_adjacency_terminals\<close>.\<close>

function dedup_loop :: "graphid list \<Rightarrow> nat \<Rightarrow> nat \<Rightarrow> nat \<Rightarrow> (graphid list \<times> nat) result" where
  "dedup_loop ts n read_index write_index =
     (if read_index < n then
        bindE (arr_get ts read_index) (\<lambda>r.
        bindE (arr_get ts (write_index - 1)) (\<lambda>w.
          if r \<noteq> w then bindE (arr_set ts write_index r) (\<lambda>ts'. dedup_loop ts' n (read_index + 1) (write_index + 1))
          else dedup_loop ts n (read_index + 1) write_index))
      else Inr (ts, write_index))"
  by pat_completeness auto
termination by (relation "measure (\<lambda>(ts, n, r, w). n - r)") auto

declare dedup_loop.simps [simp del]

definition deduplicate_adjacency_terminals ::
    "(graphid list \<Rightarrow> graphid list) \<Rightarrow> 't AgeWCOJPostingProvider \<Rightarrow> 't AgeWCOJPostingProvider result" where
  "deduplicate_adjacency_terminals qg p =
     (if terminal_count p \<le> 1 then Inr p
      else bindE (dedup_loop (qg (take (terminal_count p) (terminals p)) @ drop (terminal_count p) (terminals p)) (terminal_count p) 1 1)
             (\<lambda>(ts, n). Inr (p\<lparr>terminals := ts, terminal_count := n\<rparr>)))"

definition build_adjacency_provider_filtered ::
    "('t \<Rightarrow> int) \<Rightarrow> ('t AgeBindingSourceRow list \<Rightarrow> 't AgeBindingSourceRow list) \<Rightarrow> (graphid list \<Rightarrow> graphid list) \<Rightarrow>
     't AgeWCOJPostingProvider \<Rightarrow> graphid list option \<Rightarrow> int \<Rightarrow> wcoj_stats \<Rightarrow>
     (AgeWCOJAdjacencyBuildResult \<times> 't AgeWCOJPostingProvider \<times> wcoj_stats) result" where
  "build_adjacency_provider_filtered t_len qs qg p candidates posting_limit s =
     (if built p then
        Inr (if terminal_count p > 0 then AGE_WCOJ_ADJACENCY_BUILD_READY else AGE_WCOJ_ADJACENCY_BUILD_EMPTY, p, s)
      else if candidates = Some [] then Inr (AGE_WCOJ_ADJACENCY_BUILD_EMPTY, p, s)
      else if posting_limit < 0 then Inl (Ereport ''invalid AGE WCOJ posting limit'')
      else bindE (materialize_adjacency_source_bags t_len qs (set_adjacency_terminal_filter p candidates) s) (\<lambda>(some, p1, s1).
        if \<not> some then Inr (AGE_WCOJ_ADJACENCY_BUILD_EMPTY, p1\<lparr>built := True, exhausted := True\<rparr>, s1)
        else bindE (collect_adjacency_terminals p1 posting_limit s1) (\<lambda>(within, p2, s2).
          if \<not> within
          then Inr (AGE_WCOJ_ADJACENCY_BUILD_OVERSIZE, p2\<lparr>has_current := False, exhausted := False, built := False\<rparr>, s2)
          else bindE (deduplicate_adjacency_terminals qg p2) (\<lambda>p3.
            let p4 = p3\<lparr>terminal_index := 0, built := True, exhausted := (terminal_count p3 = 0)\<rparr>
            in if exhausted p4 then Inr (AGE_WCOJ_ADJACENCY_BUILD_EMPTY, p4, s2)
               else bindE (arr_get (terminals p4) 0) (\<lambda>t.
                    Inr (AGE_WCOJ_ADJACENCY_BUILD_READY, p4\<lparr>current_key := t, has_current := True\<rparr>, s2))))))"

definition build_adjacency_provider ::
    "('t \<Rightarrow> int) \<Rightarrow> ('t AgeBindingSourceRow list \<Rightarrow> 't AgeBindingSourceRow list) \<Rightarrow> (graphid list \<Rightarrow> graphid list) \<Rightarrow>
     't AgeWCOJPostingProvider \<Rightarrow> wcoj_stats \<Rightarrow> 't cursor_step" where
  "build_adjacency_provider t_len qs qg p s =
     bindE (build_adjacency_provider_filtered t_len qs qg p None 0 s) (\<lambda>(r, p1, s1).
       Inr (r = AGE_WCOJ_ADJACENCY_BUILD_READY, p1, s1))"

subsection \<open>The cursor\<close>

definition adjacency_first_distinct ::
    "('t \<Rightarrow> int) \<Rightarrow> ('t AgeBindingSourceRow list \<Rightarrow> 't AgeBindingSourceRow list) \<Rightarrow> (graphid list \<Rightarrow> graphid list) \<Rightarrow>
     't AgeWCOJPostingProvider \<Rightarrow> wcoj_stats \<Rightarrow> 't cursor_step" where
  "adjacency_first_distinct t_len qs qg p s =
     bindE (if \<not> built p then build_adjacency_provider t_len qs qg p s else Inr (True, p, s)) (\<lambda>(ready, p1, s1).
       if \<not> ready then Inr (False, p1, s1)
       else if exhausted p1 \<or> terminal_index p1 \<ge> terminal_count p1 then Inr (False, p1\<lparr>has_current := False\<rparr>, s1)
       else bindE (arr_get (terminals p1) (terminal_index p1)) (\<lambda>t. Inr (True, p1\<lparr>current_key := t, has_current := True\<rparr>, s1)))"

text \<open>The end of \<open>adjacency_next_distinct\<close> and \<open>adjacency_seek_ge\<close>: the cursor moves to index \<open>i\<close>.\<close>

definition move_terminal :: "nat \<Rightarrow> 't AgeWCOJPostingProvider \<Rightarrow> wcoj_stats \<Rightarrow> 't cursor_step" where
  "move_terminal i p s =
     (if i \<ge> terminal_count p then Inr (False, p\<lparr>terminal_index := i, has_current := False, exhausted := True\<rparr>, record_provider_advance s)
      else bindE (arr_get (terminals p) i) (\<lambda>t. Inr (True, p\<lparr>terminal_index := i, current_key := t\<rparr>, record_provider_advance s)))"

definition adjacency_next_distinct ::
    "('t \<Rightarrow> int) \<Rightarrow> ('t AgeBindingSourceRow list \<Rightarrow> 't AgeBindingSourceRow list) \<Rightarrow> (graphid list \<Rightarrow> graphid list) \<Rightarrow>
     't AgeWCOJPostingProvider \<Rightarrow> wcoj_stats \<Rightarrow> 't cursor_step" where
  "adjacency_next_distinct t_len qs qg p s =
     bindE (adjacency_first_distinct t_len qs qg p s) (\<lambda>(found, p1, s1).
       if \<not> found then Inr (False, p1, s1) else move_terminal (terminal_index p1 + 1) p1 s1)"

definition adjacency_seek_ge ::
    "('t \<Rightarrow> int) \<Rightarrow> ('t AgeBindingSourceRow list \<Rightarrow> 't AgeBindingSourceRow list) \<Rightarrow> (graphid list \<Rightarrow> graphid list) \<Rightarrow>
     't AgeWCOJPostingProvider \<Rightarrow> graphid \<Rightarrow> wcoj_stats \<Rightarrow> 't cursor_step" where
  "adjacency_seek_ge t_len qs qg p target s =
     bindE (adjacency_first_distinct t_len qs qg p (count_seek s)) (\<lambda>(found, p1, s1).
       if \<not> found then Inr (False, p1, s1)
       else if sint target \<le> sint (current_key p1) then Inr (True, p1, s1)
       else bindE (bisect id (terminals p1) target (terminal_index p1 + 1) (terminal_count p1) ()) (\<lambda>(low, _).
            move_terminal low p1 s1))"

definition adjacency_rescan :: "'t AgeWCOJPostingProvider \<Rightarrow> 't AgeWCOJPostingProvider" where
  "adjacency_rescan p =
     p\<lparr>plan_rows := plan_input p, terminal_filter := None,
       provider_rows := \<lparr>source_rows = [], source_row_capacity = 0, source_bag_bytes = 0\<rparr>, provider_bags := [],
       terminals := [], terminal_count := 0, terminal_capacity := 0, terminal_bytes := 0, terminal_index := 0,
       has_current := False, exhausted := False, built := False\<rparr>"

definition adjacency_ops ::
    "('t \<Rightarrow> int) \<Rightarrow> ('t AgeBindingSourceRow list \<Rightarrow> 't AgeBindingSourceRow list) \<Rightarrow> (graphid list \<Rightarrow> graphid list) \<Rightarrow>
     ('t AgeWCOJPostingProvider, wcoj_stats) AgeWCOJPostingProviderOps" where
  "adjacency_ops t_len qs qg = \<lparr>op_first_distinct = adjacency_first_distinct t_len qs qg,
     op_next_distinct = adjacency_next_distinct t_len qs qg, op_seek_ge = adjacency_seek_ge t_len qs qg\<rparr>"

subsection \<open>What the build collects\<close>

lemma append_source_row_ok:
  assumes "int (length (source_rows sr)) \<le> source_row_capacity sr" "length (source_rows sr) < 33554432"
  shows "\<exists>sr'. age_binding_append_source_row t_len sr k t = Inr sr' \<and>
    source_rows sr' = source_rows sr @ [\<lparr>row_key = k, row_tuple = t\<rparr>] \<and> int (length (source_rows sr')) \<le> source_row_capacity sr'"
  using assms
  by (auto simp: age_binding_append_source_row_def Let_def MaxAllocSize_def sizeof_AgeBindingSourceRow_def)

text \<open>The fields that no operation of a provider changes.\<close>

definition same_input :: "'t AgeWCOJPostingProvider \<Rightarrow> 't AgeWCOJPostingProvider \<Rightarrow> bool" where
  "same_input p p' \<longleftrightarrow> provider_kind p' = provider_kind p \<and> plan_input p' = plan_input p \<and> key_attr p' = key_attr p \<and>
     edge_attr p' = edge_attr p \<and> terminal_scan p' = terminal_scan p"

lemma same_input_refl [simp]: "same_input p p"
  by (simp add: same_input_def)

lemma same_input_trans [trans]: "same_input p q \<Longrightarrow> same_input q r \<Longrightarrow> same_input p r"
  by (simp add: same_input_def)

lemma source_row_loop_ok:
  assumes "int (length (source_rows (provider_rows p))) \<le> source_row_capacity (provider_rows p)"
    and "length (source_rows (provider_rows p)) + length (List.map_filter (key_attr p) rs) \<le> 33554432"
  shows "\<exists>sr s'. source_row_loop t_len rs p s = Inr (p\<lparr>plan_rows := [], provider_rows := sr\<rparr>, s') \<and>
    map row_key (source_rows sr) = map row_key (source_rows (provider_rows p)) @ List.map_filter (key_attr p) rs"
  using assms
proof (induction rs arbitrary: p s)
  case Nil
  then show ?case by (intro exI [of _ "provider_rows p"]) (simp add: map_filter_simps)
next
  case (Cons r rs)
  show ?case
  proof (cases "key_attr p r")
    case None
    then have step: "source_row_loop t_len (r # rs) p s = source_row_loop t_len rs p (s\<lparr>source_rows_scanned := increment_counter (source_rows_scanned s)\<rparr>)"
      and mf: "List.map_filter (key_attr p) (r # rs) = List.map_filter (key_attr p) rs" by (simp_all add: map_filter_simps)
    show ?thesis unfolding step mf by (rule Cons.IH [OF Cons.prems(1)]) (use Cons.prems(2) mf in simp)
  next
    case (Some k)
    then have mf: "List.map_filter (key_attr p) (r # rs) = k # List.map_filter (key_attr p) rs" by (simp add: map_filter_simps)
    have "length (source_rows (provider_rows p)) < 33554432" using Cons.prems(2) mf by simp
    from append_source_row_ok [OF Cons.prems(1) this, of t_len k r] obtain sr where
      sr: "age_binding_append_source_row t_len (provider_rows p) k r = Inr sr"
      "source_rows sr = source_rows (provider_rows p) @ [\<lparr>row_key = k, row_tuple = r\<rparr>]" "int (length (source_rows sr)) \<le> source_row_capacity sr"
      by blast
    define s1 where "s1 = s\<lparr>source_rows_scanned := increment_counter (source_rows_scanned s),
      source_bag_rows := increment_counter (source_bag_rows s)\<rparr>"
    define p1 where "p1 = p\<lparr>provider_rows := sr\<rparr>"
    have p1: "provider_rows p1 = sr" "key_attr p1 = key_attr p" by (simp_all add: p1_def)
    have step: "source_row_loop t_len (r # rs) p s = source_row_loop t_len rs p1 s1"
      using Some sr(1) by (simp add: append_age_wcoj_source_row_def s1_def p1_def)
    have "\<exists>sr' s'. source_row_loop t_len rs p1 s1 = Inr (p1\<lparr>plan_rows := [], provider_rows := sr'\<rparr>, s') \<and>
        map row_key (source_rows sr') = map row_key (source_rows (provider_rows p1)) @ List.map_filter (key_attr p1) rs"
      by (rule Cons.IH) (use Cons.prems(2) sr mf in \<open>simp_all add: p1\<close>)
    then obtain sr' s' where "source_row_loop t_len rs p1 s1 = Inr (p1\<lparr>plan_rows := [], provider_rows := sr'\<rparr>, s')"
      "map row_key (source_rows sr') = map row_key (source_rows sr) @ List.map_filter (key_attr p) rs" unfolding p1 by blast
    then show ?thesis unfolding step mf by (intro exI [of _ sr'] exI [of _ s']) (simp add: p1_def sr(2))
  qed
qed

lemma append_terminal_ok:
  assumes "terminal_count p = length (terminals p)" "int (terminal_count p) \<le> terminal_capacity p" "terminal_count p < 67108864"
  shows "\<exists>cap bytes. append_age_wcoj_terminal p t = Inr (p\<lparr>terminal_capacity := cap, terminal_bytes := bytes, terminals := terminals p @ [t],
      terminal_count := terminal_count p + 1\<rparr>) \<and> int (terminal_count p + 1) \<le> cap"
proof (cases "int (terminal_count p) = terminal_capacity p")
  case True
  define cap where "cap = (if terminal_capacity p = 0 then 64 else terminal_capacity p * 2)"
  define bytes where "bytes = age_binding_add_byte_counter (terminal_bytes p) (sizeof_graphid * (cap - terminal_capacity p))"
  have room: "\<not> (cap \<le> terminal_capacity p \<or> cap > MaxAllocSize div sizeof_graphid)" "int (terminal_count p) < cap"
    using True assms(3) by (auto simp: cap_def MaxAllocSize_def sizeof_graphid_def)
  have "append_age_wcoj_terminal p t = Inr (p\<lparr>terminal_capacity := cap, terminal_bytes := bytes, terminals := terminals p @ [t],
      terminal_count := terminal_count p + 1\<rparr>)"
    unfolding append_age_wcoj_terminal_def Let_def if_P [OF True] cap_def [symmetric] if_not_P [OF room(1)] bytes_def [symmetric]
    using room(2) assms(1) by simp
  with room(2) show ?thesis by (intro exI [of _ cap] exI [of _ bytes]) simp
next
  case False
  then have "append_age_wcoj_terminal p t = Inr (p\<lparr>terminals := terminals p @ [t], terminal_count := terminal_count p + 1\<rparr>)"
    using assms(1,2) unfolding append_age_wcoj_terminal_def if_not_P [OF False] by simp
  with False assms(2) show ?thesis by (intro exI [of _ "terminal_capacity p"] exI [of _ "terminal_bytes p"]) simp
qed

text \<open>\<open>p'\<close> is \<open>p\<close> with the terminals \<open>ts\<close> appended.\<close>

definition collected :: "graphid list \<Rightarrow> 't AgeWCOJPostingProvider \<Rightarrow> 't AgeWCOJPostingProvider \<Rightarrow> bool" where
  "collected ts p p' \<longleftrightarrow> same_input p p' \<and> terminal_filter p' = terminal_filter p \<and> terminals p' = terminals p @ ts \<and>
     terminal_count p' = length (terminals p') \<and> int (terminal_count p') \<le> terminal_capacity p'"

lemma collected_trans: "collected ts p q \<Longrightarrow> collected us q r \<Longrightarrow> collected (ts @ us) p r"
  by (auto simp: collected_def same_input_def)

lemma collect_payloads_ok:
  assumes "terminal_count p = length (terminals p)" "int (terminal_count p) \<le> terminal_capacity p" "length (terminals p) + length ts \<le> 67108864"
  shows "\<exists>b p' s'. collect_payloads limit ts p s = Inr (b, p', s') \<and> same_input p p' \<and> (limit \<le> 0 \<longrightarrow> b) \<and> (b \<longrightarrow> collected ts p p')"
  using assms
proof (induction ts arbitrary: p s)
  case Nil
  then show ?case by (intro exI [of _ True]) (simp add: collected_def)
next
  case (Cons t ts)
  define p1 where "p1 = p\<lparr>rows_scanned := increment_counter (rows_scanned p)\<rparr>"
  define s1 where "s1 = s\<lparr>posting_rows_scanned := increment_counter (posting_rows_scanned s)\<rparr>"
  have p1: "same_input p p1" "terminal_count p1 = length (terminals p1)" "int (terminal_count p1) \<le> terminal_capacity p1" "terminal_count p1 < 67108864"
    "terminals p1 = terminals p" "terminal_filter p1 = terminal_filter p"
    using Cons.prems by (simp_all add: p1_def same_input_def)
  show ?case
  proof (cases "limit > 0 \<and> rows_scanned p1 > limit")
    case True
    then show ?thesis using p1(1) by (intro exI [of _ False]) (simp add: p1_def)
  next
    case False
    from append_terminal_ok [OF p1(2-4), of t] obtain cap bytes where
      a: "append_age_wcoj_terminal p1 t = Inr (p1\<lparr>terminal_capacity := cap, terminal_bytes := bytes, terminals := terminals p1 @ [t],
        terminal_count := terminal_count p1 + 1\<rparr>)" "int (terminal_count p1 + 1) \<le> cap" by blast
    define p2 where "p2 = p1\<lparr>terminal_capacity := cap, terminal_bytes := bytes, terminals := terminals p1 @ [t], terminal_count := terminal_count p1 + 1\<rparr>"
    have c: "collected [t] p p2" using p1 a(2) by (simp add: collected_def p2_def same_input_def)
    have step: "collect_payloads limit (t # ts) p s = collect_payloads limit ts p2 s1"
      unfolding collect_payloads.simps Let_def p1_def [symmetric] s1_def [symmetric] if_not_P [OF False] a(1) p2_def by simp
    have "\<exists>b p' s'. collect_payloads limit ts p2 s1 = Inr (b, p', s') \<and> same_input p2 p' \<and> (limit \<le> 0 \<longrightarrow> b) \<and> (b \<longrightarrow> collected ts p2 p')"
      by (rule Cons.IH) (use c Cons.prems(3) in \<open>auto simp: collected_def\<close>)
    then obtain b p' s' where r: "collect_payloads limit ts p2 s1 = Inr (b, p', s')" "same_input p2 p'" "limit \<le> 0 \<longrightarrow> b" "b \<longrightarrow> collected ts p2 p'"
      by blast
    have "same_input p p'" using c r(2) by (auto simp: collected_def intro: same_input_trans)
    moreover have "b \<longrightarrow> collected (t # ts) p p'" using collected_trans [OF c] r(4) by fastforce
    ultimately show ?thesis unfolding step using r(1,3) by blast
  qed
qed

lemma collect_bags_ok:
  assumes "terminal_count p = length (terminals p)" "int (terminal_count p) \<le> terminal_capacity p"
    and "length (terminals p) + length (concat (map (\<lambda>b. terminal_scan p (terminal_filter p) (bag_key b)) bs)) \<le> 67108864"
  shows "\<exists>b p' s'. collect_bags limit bs p s = Inr (b, p', s') \<and> same_input p p' \<and> (limit \<le> 0 \<longrightarrow> b) \<and>
    (b \<longrightarrow> collected (concat (map (\<lambda>b. terminal_scan p (terminal_filter p) (bag_key b)) bs)) p p')"
  using assms
proof (induction bs arbitrary: p s)
  case Nil
  then show ?case by (intro exI [of _ True]) (simp add: collected_def)
next
  case (Cons bag bs)
  let ?t = "terminal_scan p (terminal_filter p) (bag_key bag)"
  let ?s = "s\<lparr>intersection_builds := increment_counter (intersection_builds s)\<rparr>"
  obtain b p1 s1 where r: "collect_payloads limit ?t p ?s = Inr (b, p1, s1)" "same_input p p1" "limit \<le> 0 \<longrightarrow> b" "b \<longrightarrow> collected ?t p p1"
    using collect_payloads_ok [OF Cons.prems(1,2), of ?t limit ?s] Cons.prems(3) by auto
  show ?case
  proof (cases b)
    case False
    then show ?thesis using r by (intro exI [of _ False]) simp
  next
    case True
    then have c: "collected ?t p p1" using r(4) by simp
    then have same: "terminal_scan p1 = terminal_scan p" "terminal_filter p1 = terminal_filter p" by (simp_all add: collected_def same_input_def)
    have "\<exists>b p' s'. collect_bags limit bs p1 s1 = Inr (b, p', s') \<and> same_input p1 p' \<and> (limit \<le> 0 \<longrightarrow> b) \<and>
        (b \<longrightarrow> collected (concat (map (\<lambda>b. terminal_scan p1 (terminal_filter p1) (bag_key b)) bs)) p1 p')"
      by (rule Cons.IH) (use c Cons.prems(3) in \<open>simp_all add: same, simp_all add: collected_def\<close>)
    then obtain b' p' s' where q: "collect_bags limit bs p1 s1 = Inr (b', p', s')" "same_input p1 p'" "limit \<le> 0 \<longrightarrow> b'"
      "b' \<longrightarrow> collected (concat (map (\<lambda>b. terminal_scan p (terminal_filter p) (bag_key b)) bs)) p1 p'" unfolding same by blast
    have "b' \<longrightarrow> collected (?t @ concat (map (\<lambda>b. terminal_scan p (terminal_filter p) (bag_key b)) bs)) p p'" using collected_trans [OF c] q(4) by blast
    moreover have "collect_bags limit (bag # bs) p s = Inr (b', p', s')" using r(1) True q(1) by simp
    ultimately show ?thesis using same_input_trans [OF r(2) q(2)] q(3) by auto
  qed
qed

subsection \<open>Removing duplicates\<close>

text \<open>The first \<open>w\<close> entries are the distinct values of the first \<open>r\<close> of the sorted array \<open>ts0\<close>; those from \<open>r\<close> on are untouched.\<close>

definition dedup_inv :: "graphid list \<Rightarrow> nat \<Rightarrow> graphid list \<Rightarrow> nat \<Rightarrow> nat \<Rightarrow> bool" where
  "dedup_inv ts0 n ts r w \<longleftrightarrow> 1 \<le> w \<and> w \<le> r \<and> r \<le> n \<and> n \<le> length ts0 \<and> length ts = length ts0 \<and>
     (\<forall>i. r \<le> i \<and> i < n \<longrightarrow> ts ! i = ts0 ! i) \<and> gid_sorted (take w ts) \<and> set (take w ts) = set (take r ts0) \<and> ts ! (w - 1) = ts0 ! (r - 1)"

lemma dedup_inv_skip:
  assumes "dedup_inv ts0 n ts r w" "r < n" "ts ! r = ts ! (w - 1)"
  shows "dedup_inv ts0 n ts (Suc r) w"
proof -
  have "r < length ts0" "ts ! r = ts0 ! r" "w \<le> length ts" "1 \<le> w" using assms(1,2) by (auto simp: dedup_inv_def)
  moreover have "ts0 ! r \<in> set (take w ts)"
    using \<open>ts ! r = ts0 ! r\<close> assms(3) \<open>1 \<le> w\<close> \<open>w \<le> length ts\<close> by (simp add: in_set_conv_nth) (metis Suc_le_eq diff_less le_eq_less_or_eq less_le_trans nth_take zero_less_one)
  ultimately show ?thesis using assms by (auto simp: dedup_inv_def take_Suc_conv_app_nth)
qed

lemma dedup_inv_keep:
  assumes "dedup_inv ts0 n ts r w" "r < n" "ts ! r \<noteq> ts ! (w - 1)" "sorted_wrt (\<lambda>a b. sint a \<le> sint b) (take n ts0)"
  shows "dedup_inv ts0 n (ts[w := ts ! r]) (Suc r) (Suc w)"
proof -
  have f: "1 \<le> w" "w \<le> r" "n \<le> length ts0" "length ts = length ts0" "ts ! r = ts0 ! r" "w < length ts" "gid_sorted (take w ts)"
    "set (take w ts) = set (take r ts0)" "ts ! (w - 1) = ts0 ! (r - 1)" using assms(1,2) by (auto simp: dedup_inv_def)
  have le: "sint (ts0 ! i) \<le> sint (ts0 ! j)" if "i \<le> j" "j < n" for i j
    using assms(4) that f(3) by (cases "i = j") (auto simp: sorted_wrt_iff_nth_less)
  have "sint x < sint (ts0 ! r)" if "x \<in> set (take w ts)" for x
  proof -
    from that f(8) obtain i where i: "i < r" "x = ts0 ! i" using f(2,3) assms(2) by (auto simp: in_set_conv_nth)
    have "sint (ts0 ! i) \<le> sint (ts0 ! (r - 1))" using i assms(2) by (intro le) auto
    moreover have "sint (ts0 ! (r - 1)) \<le> sint (ts0 ! r)" using assms(2) by (intro le) auto
    moreover have "sint (ts0 ! (r - 1)) \<noteq> sint (ts0 ! r)" using assms(3) f(5,9) by simp
    ultimately show ?thesis unfolding i(2) by linarith
  qed
  then have "gid_sorted (take w ts @ [ts0 ! r])" using f(7) by (simp add: sorted_wrt_append)
  moreover have "take (Suc w) (ts[w := ts ! r]) = take w ts @ [ts0 ! r]" using f(5,6) by (simp add: take_update_Suc)
  moreover have "(ts[w := ts ! r]) ! i = ts0 ! i" if "Suc r \<le> i" "i < n" for i
    using assms(1) that f(2) by (auto simp: dedup_inv_def nth_list_update)
  ultimately show ?thesis using f assms(2) by (simp add: dedup_inv_def take_Suc_conv_app_nth)
qed

lemma dedup_loop_ok:
  "sorted_wrt (\<lambda>a b. sint a \<le> sint b) (take n ts0) \<Longrightarrow> dedup_inv ts0 n ts r w \<Longrightarrow> \<exists>ts' w'. dedup_loop ts n r w = Inr (ts', w') \<and> dedup_inv ts0 n ts' n w'"
proof (induction ts n r w rule: dedup_loop.induct)
  case (1 ts n r w)
  show ?case
  proof (cases "r < n")
    case False
    then have "r = n" using "1.prems"(2) by (simp add: dedup_inv_def)
    then show ?thesis using "1.prems"(2) by (subst dedup_loop.simps) simp
  next
    case True
    have b: "r < length ts" "w - 1 < length ts" "w < length ts" using True "1.prems"(2) by (auto simp: dedup_inv_def)
    show ?thesis
    proof (cases "ts ! r = ts ! (w - 1)")
      case eq: True
      have "\<exists>ts' w'. dedup_loop ts n (r + 1) w = Inr (ts', w') \<and> dedup_inv ts0 n ts' n w'"
        using "1.IH"(2) [OF True _ _ _ "1.prems"(1)] b eq dedup_inv_skip [OF "1.prems"(2) True eq] by simp
      with True b eq show ?thesis by (subst dedup_loop.simps) simp
    next
      case False
      have "\<exists>ts' w'. dedup_loop (ts[w := ts ! r]) n (r + 1) (w + 1) = Inr (ts', w') \<and> dedup_inv ts0 n ts' n w'"
        using "1.IH"(1) [OF True _ _ _ _ "1.prems"(1)] b False dedup_inv_keep [OF "1.prems"(2) True False "1.prems"(1)] by simp
      with True b False show ?thesis by (subst dedup_loop.simps) simp
    qed
  qed
qed

subsection \<open>The built provider\<close>

text \<open>What is relied on of the vertex set filter of the adjacency scan.\<close>

definition scan_filters :: "(graphid list option \<Rightarrow> graphid \<Rightarrow> graphid list) \<Rightarrow> bool" where
  "scan_filters scan \<longleftrightarrow>
     (\<forall>cs k. set (scan None k) \<inter> set cs \<subseteq> set (scan (Some cs) k) \<and> set (scan (Some cs) k) \<subseteq> set (scan None k) \<and>
        length (scan (Some cs) k) \<le> length (scan None k))"

definition postings :: "'t AgeWCOJPostingProvider \<Rightarrow> graphid list option \<Rightarrow> graphid set" where
  "postings p f = (\<Union>k \<in> set (row_keys p). set (terminal_scan p f k))"

text \<open>The sizes the arrays of source rows and terminals can reach before an error.\<close>

definition within_limits :: "'t AgeWCOJPostingProvider \<Rightarrow> bool" where
  "within_limits p \<longleftrightarrow> length (row_keys p) \<le> 33554432 \<and> (\<Sum>k \<in> set (row_keys p). length (terminal_scan p None k)) \<le> 67108864"

definition unbuilt :: "'t AgeWCOJPostingProvider \<Rightarrow> bool" where
  "unbuilt p \<longleftrightarrow> \<not> built p \<and> source_rows (provider_rows p) = [] \<and> source_row_capacity (provider_rows p) = 0 \<and> terminals p = [] \<and>
     terminal_count p = 0 \<and> terminal_capacity p = 0 \<and> terminal_index p = 0"

definition built_ok :: "'t AgeWCOJPostingProvider \<Rightarrow> bool" where
  "built_ok p \<longleftrightarrow> terminal_count p \<le> length (terminals p) \<and> gid_sorted (take (terminal_count p) (terminals p)) \<and>
     (exhausted p \<longrightarrow> terminal_count p \<le> terminal_index p)"

definition qsorts_ok :: "('t AgeBindingSourceRow list \<Rightarrow> 't AgeBindingSourceRow list) \<Rightarrow> (graphid list \<Rightarrow> graphid list) \<Rightarrow> bool" where
  "qsorts_ok qs qg \<longleftrightarrow> qsort_sorts compare_age_binding_source_rows qs \<and> qsort_sorts compare_age_wcoj_graphids qg"

lemma qsort_gids:
  assumes "qsort_sorts compare_age_wcoj_graphids qg"
  shows "mset (qg xs) = mset xs" "sorted_wrt (\<lambda>a b. sint a \<le> sint b) (qg xs)"
proof -
  have "compare_age_wcoj_graphids a b \<le> 0 \<longleftrightarrow> sint a \<le> sint b" for a b by (auto simp: compare_age_wcoj_graphids_def)
  with assms show "mset (qg xs) = mset xs" "sorted_wrt (\<lambda>a b. sint a \<le> sint b) (qg xs)" unfolding qsort_sorts_def by auto
qed

lemma materialize_ok:
  assumes "unbuilt p" "length (row_keys p) \<le> 33554432" "qsorts_ok qs qg"
  shows "\<exists>b sr bags s'. materialize_adjacency_source_bags t_len qs p s = Inr (b, p\<lparr>plan_rows := [], provider_rows := sr, provider_bags := bags\<rparr>, s') \<and>
    (b \<longleftrightarrow> row_keys p \<noteq> []) \<and> (b \<longrightarrow> bag_key ` set bags = set (row_keys p) \<and> distinct (map bag_key bags))"
proof -
  obtain sr s1 where r: "source_row_loop t_len (plan_rows p) p s = Inr (p\<lparr>plan_rows := [], provider_rows := sr\<rparr>, s1)"
    "map row_key (source_rows sr) = row_keys p"
    using source_row_loop_ok [of p "plan_rows p" t_len s] assms(1,2) by (auto simp: unbuilt_def)
  show ?thesis
  proof (cases "source_rows sr = []")
    case True
    then have "row_keys p = []" using r(2) by simp
    with True r show ?thesis
      by (intro exI [of _ False] exI [of _ sr] exI [of _ "provider_bags p"] exI [of _ s1]) (simp add: materialize_adjacency_source_bags_def)
  next
    case False
    obtain rows bags bytes where b: "age_binding_build_source_bags qs (source_rows sr) (source_bag_bytes sr) = (rows, bags, bytes)"
      by (metis prod_cases3)
    have rows: "rows = qs (source_rows sr)" "bags = bag_loop rows 0 []"
      using b False by (auto simp: age_binding_build_source_bags_def Let_def)
    have q: "mset rows = mset (source_rows sr)" "rows_sorted rows"
      using assms(3) unfolding rows qsorts_ok_def qsort_sorts_def by auto
    have "bags_of [] ([] :: AgeSourceBag list)" by (simp add: bags_of_def)
    then have bag: "bags_of rows bags" using bag_loop_bags [of "[]" rows "[]"] q(2) unfolding rows(2) by simp
    have "bag_key ` set bags = row_key ` set (source_rows sr)"
      using bag mset_eq_setD [OF q(1)] unfolding bags_of_def by simp
    then have ks: "bag_key ` set bags = set (row_keys p)" unfolding r(2) [symmetric] by simp
    have "distinct (map bag_key bags)"
      using bag unfolding bags_of_def by (simp add: distinct_conv_nth sorted_wrt_iff_nth_less) (metis less_irrefl linorder_neqE_nat)
    moreover have "row_keys p \<noteq> []" using r(2) False by auto
    ultimately show ?thesis using r(1) False b ks
      by (intro exI [of _ True] exI [of _ "sr\<lparr>source_rows := rows, source_bag_bytes := bytes\<rparr>"] exI [of _ bags])
        (simp add: materialize_adjacency_source_bags_def)
  qed
qed

lemma deduplicate_ok:
  assumes "terminal_count p = length (terminals p)" "qsort_sorts compare_age_wcoj_graphids qg"
  shows "\<exists>ts n. deduplicate_adjacency_terminals qg p = Inr (p\<lparr>terminals := ts, terminal_count := n\<rparr>) \<and> n \<le> length ts \<and>
    gid_sorted (take n ts) \<and> set (take n ts) = set (terminals p)"
proof (cases "terminal_count p \<le> 1")
  case True
  moreover have "p\<lparr>terminals := terminals p, terminal_count := terminal_count p\<rparr> = p" by simp
  moreover have "gid_sorted (terminals p)" using True assms(1) by (cases "terminals p") auto
  ultimately show ?thesis using assms(1)
    by (intro exI [of _ "terminals p"] exI [of _ "terminal_count p"]) (simp add: deduplicate_adjacency_terminals_def)
next
  case False
  define ts0 n where "ts0 = qg (terminals p)" "n = length (terminals p)"
  note q = qsort_gids [OF assms(2), of "terminals p"]
  have len: "length ts0 = n" "set ts0 = set (terminals p)" using mset_eq_length [OF q(1)] mset_eq_setD [OF q(1)] by (simp_all add: ts0_n_def)
  have "ts0 \<noteq> []" using len(1) False assms(1) by (auto simp: ts0_n_def)
  then have "dedup_inv ts0 n ts0 1 1" using len by (cases ts0) (simp_all add: dedup_inv_def)
  moreover have "sorted_wrt (\<lambda>a b. sint a \<le> sint b) (take n ts0)" using q(2) len(1) by (simp add: ts0_n_def)
  ultimately obtain ts w where d: "dedup_loop ts0 n 1 1 = Inr (ts, w)" "dedup_inv ts0 n ts n w" using dedup_loop_ok by blast
  then have "w \<le> length ts" "gid_sorted (take w ts)" "set (take w ts) = set (terminals p)" using len by (auto simp: dedup_inv_def)
  with d(1) False assms(1) show ?thesis
    by (intro exI [of _ ts] exI [of _ w]) (simp add: deduplicate_adjacency_terminals_def ts0_n_def)
qed

lemma terminals_total:
  assumes "within_limits p" "scan_filters (terminal_scan p)" "bag_key ` set bags = set (row_keys p)" "distinct (map bag_key bags)"
  shows "length (concat (map (\<lambda>b. terminal_scan p f (bag_key b)) bags)) \<le> 67108864"
    "set (concat (map (\<lambda>b. terminal_scan p f (bag_key b)) bags)) = postings p f"
proof -
  have "length (concat (map (\<lambda>b. terminal_scan p f (bag_key b)) bags)) = sum_list (map (\<lambda>k. length (terminal_scan p f k)) (map bag_key bags))"
    by (simp add: length_concat o_def)
  also have "\<dots> = (\<Sum>k \<in> set (map bag_key bags). length (terminal_scan p f k))" by (rule sum.distinct_set_conv_list [OF assms(4), symmetric])
  also have "\<dots> = (\<Sum>k \<in> set (row_keys p). length (terminal_scan p f k))" using assms(3) by simp
  also have "\<dots> \<le> (\<Sum>k \<in> set (row_keys p). length (terminal_scan p None k))"
    using assms(2) by (cases f) (auto simp: scan_filters_def intro!: sum_mono)
  finally show "length (concat (map (\<lambda>b. terminal_scan p f (bag_key b)) bags)) \<le> 67108864" using assms(1) by (simp add: within_limits_def)
  show "set (concat (map (\<lambda>b. terminal_scan p f (bag_key b)) bags)) = postings p f" unfolding postings_def assms(3) [symmetric] by auto
qed

text \<open>The outcome \<open>r\<close> of a build with filter \<open>f\<close> in state \<open>p'\<close>.\<close>

definition build_outcome ::
    "'t AgeWCOJPostingProvider \<Rightarrow> graphid list option \<Rightarrow> int \<Rightarrow> AgeWCOJAdjacencyBuildResult \<Rightarrow> 't AgeWCOJPostingProvider \<Rightarrow> bool" where
  "build_outcome p f limit r p' \<longleftrightarrow> same_input p p' \<and> (r = AGE_WCOJ_ADJACENCY_BUILD_OVERSIZE \<longrightarrow> 0 < limit) \<and>
     (r \<noteq> AGE_WCOJ_ADJACENCY_BUILD_OVERSIZE \<longrightarrow> built p' \<and> built_ok p' \<and> terminal_index p' = 0 \<and>
        set (take (terminal_count p') (terminals p')) = postings p f \<and> (r = AGE_WCOJ_ADJACENCY_BUILD_READY \<longleftrightarrow> postings p f \<noteq> {}))"

lemma build_ok:
  assumes "unbuilt p" "within_limits p" "scan_filters (terminal_scan p)" "qsorts_ok qs qg" "f \<noteq> Some []" "0 \<le> limit"
  shows "\<exists>r p' s'. build_adjacency_provider_filtered t_len qs qg p f limit s = Inr (r, p', s') \<and> build_outcome p f limit r p'"
proof -
  let ?p = "set_adjacency_terminal_filter p f"
  have go: "\<not> built p" "\<not> limit < 0" using assms(1,6) by (simp_all add: unbuilt_def)
  have fp: "unbuilt ?p" "row_keys ?p = row_keys p" "terminal_scan ?p = terminal_scan p" "terminal_filter ?p = f" "same_input p ?p"
    using assms(1) by (simp_all add: set_adjacency_terminal_filter_def unbuilt_def same_input_def)
  have "length (row_keys ?p) \<le> 33554432" using assms(2) fp(2) by (simp add: within_limits_def)
  from materialize_ok [OF fp(1) this assms(4), of t_len s] obtain b sr bags s1 where
    m: "materialize_adjacency_source_bags t_len qs ?p s = Inr (b, ?p\<lparr>plan_rows := [], provider_rows := sr, provider_bags := bags\<rparr>, s1)"
    "b \<longleftrightarrow> row_keys p \<noteq> []" "b \<longrightarrow> bag_key ` set bags = set (row_keys p) \<and> distinct (map bag_key bags)" unfolding fp(2) by blast
  define p1 where "p1 = ?p\<lparr>plan_rows := [], provider_rows := sr, provider_bags := bags\<rparr>"
  have p1: "same_input p p1" "terminals p1 = []" "terminal_count p1 = 0" "terminal_capacity p1 = 0" "terminal_index p1 = 0"
    "terminal_filter p1 = f" "terminal_scan p1 = terminal_scan p" "provider_bags p1 = bags"
    using fp by (simp_all add: p1_def same_input_def unbuilt_def)
  show ?thesis
  proof (cases b)
    case False
    then have "postings p f = {}" using m(2) by (simp add: postings_def)
    with False m(1) p1 go assms(5) show ?thesis
      by (simp add: build_adjacency_provider_filtered_def p1_def [symmetric] build_outcome_def same_input_def built_ok_def)
  next
    case True
    note T = terminals_total [OF assms(2,3) m(3) [rule_format, OF True, THEN conjunct1] m(3) [rule_format, OF True, THEN conjunct2], of f]
    from collect_bags_ok [of p1 bags limit s1] T(1) p1 obtain w p2 s2 where
      c: "collect_adjacency_terminals p1 limit s1 = Inr (w, p2, s2)" "same_input p1 p2" "limit \<le> 0 \<longrightarrow> w"
      "w \<longrightarrow> collected (concat (map (\<lambda>b. terminal_scan p f (bag_key b)) bags)) p1 p2"
      by (auto simp: collect_adjacency_terminals_def)
    show ?thesis
    proof (cases w)
      case False
      then show ?thesis using True m(1) c(1,3) same_input_trans [OF p1(1) c(2)] go assms(5)
        by (simp add: build_adjacency_provider_filtered_def p1_def [symmetric] build_outcome_def same_input_def)
    next
      case w: True
      then have col: "terminal_count p2 = length (terminals p2)" "set (terminals p2) = postings p f"
        using c(4) T(2) p1(2) by (auto simp: collected_def)
      from deduplicate_ok [OF col(1), of qg] assms(4) obtain ts n where
        d: "deduplicate_adjacency_terminals qg p2 = Inr (p2\<lparr>terminals := ts, terminal_count := n\<rparr>)" "n \<le> length ts" "gid_sorted (take n ts)"
        "set (take n ts) = postings p f" unfolding qsorts_ok_def col(2) by blast
      have z: "n = 0 \<longleftrightarrow> postings p f = {}" using d(2,4) by (cases n) (auto simp: take_Suc_conv_app_nth Suc_le_eq)
      have g: "arr_get ts 0 = Inr (ts ! 0)" if "0 < n" using d(2) that by (cases ts) simp_all
      show ?thesis using True w m(1) c(1) d z g same_input_trans [OF p1(1) c(2)] go assms(5)
        by (cases "n = 0") (simp_all add: build_adjacency_provider_filtered_def p1_def [symmetric] build_outcome_def same_input_def built_ok_def)
    qed
  qed
qed

subsection \<open>The adjacency provider keeps the contract\<close>

abbreviation ahead :: "nat \<Rightarrow> nat \<Rightarrow> graphid list \<Rightarrow> graphid set" where
  "ahead i n ts \<equiv> set (drop i (take n ts))"

lemma ahead_image: "n \<le> length ts \<Longrightarrow> ahead i n ts = (!) ts ` {i..<n}"
proof -
  assume "n \<le> length ts"
  then have "drop i (take n ts) = map ((!) ts) [i..<n]" by (intro nth_equalityI) simp_all
  then show ?thesis by simp
qed

lemma ahead_least:
  assumes "gid_sorted (take n ts)" "n \<le> length ts" "i < n"
  shows "least_gid (ts ! i) (ahead i n ts)" "after_least (ahead i n ts) = ahead (Suc i) n ts"
proof -
  note inc = increasing_sorted [OF assms(1,2), of 0]
  show l: "least_gid (ts ! i) (ahead i n ts)"
    unfolding least_gid_def ahead_image [OF assms(2)] using increasing_le [OF inc] assms(3) by auto
  have "sint (ts ! i) < sint (ts ! j)" if "i < j" "j < n" for j using inc that unfolding increasing_def by simp
  then have "ts ! i \<noteq> ts ! j" if "Suc i \<le> j" "j < n" for j using that by (metis Suc_le_eq less_irrefl)
  then have "ts ! i \<notin> (!) ts ` {Suc i..<n}" unfolding image_iff by (metis atLeastLessThan_iff)
  moreover have "{i..<n} = insert i {Suc i..<n}" using assms(3) by auto
  ultimately have "ahead i n ts - {ts ! i} = ahead (Suc i) n ts" unfolding ahead_image [OF assms(2)] by simp
  then show "after_least (ahead i n ts) = ahead (Suc i) n ts" using after_least_least [OF l] by simp
qed

lemma ahead_from:
  assumes "n \<le> length ts" "gid_sorted (take n ts)" "lower_bound ts n i t r"
  shows "from_gid t (ahead i n ts) = ahead r n ts"
proof -
  have lb: "i \<le> r" "r \<le> n" "\<And>j. i \<le> j \<Longrightarrow> j < r \<Longrightarrow> sint (ts ! j) < sint t" "r < n \<Longrightarrow> sint t \<le> sint (ts ! r)"
    using assms(3) by (simp_all add: lower_bound_def)
  have cut: "sint t \<le> sint (ts ! j) \<longleftrightarrow> r \<le> j" if "i \<le> j" "j < n" for j
  proof (cases "r \<le> j")
    case True
    then show ?thesis using increasing_le [OF increasing_sorted [OF assms(2,1), of 0], of r j] lb(4) that by simp
  next
    case False
    then show ?thesis using lb(3) [of j] that by simp
  qed
  have "{j \<in> {i..<n}. sint t \<le> sint (ts ! j)} = {r..<n}" using lb(1) cut by auto
  then show ?thesis unfolding from_gid_def ahead_image [OF assms(1)] by (simp add: Compr_image_eq)
qed

definition adj_ok :: "('t AgeBindingSourceRow list \<Rightarrow> 't AgeBindingSourceRow list) \<Rightarrow> (graphid list \<Rightarrow> graphid list) \<Rightarrow> 't AgeWCOJPostingProvider \<Rightarrow> bool" where
  "adj_ok qs qg p \<longleftrightarrow> provider_kind p = AGE_WCOJ_PROVIDER_ADJACENCY \<and> qsorts_ok qs qg \<and>
     (if built p then built_ok p else unbuilt p \<and> within_limits p \<and> scan_filters (terminal_scan p))"

definition adj_keys :: "'t AgeWCOJPostingProvider \<Rightarrow> graphid set" where
  "adj_keys p = (if built p then ahead (terminal_index p) (terminal_count p) (terminals p) else postings p None)"

text \<open>A built provider that stands at its index.\<close>

definition standing :: "'t AgeWCOJPostingProvider \<Rightarrow> bool" where
  "standing p \<longleftrightarrow> built p \<and> has_current p \<and> built_ok p \<and> terminal_index p < terminal_count p \<and> current_key p = terminals p ! terminal_index p"

lemma standing_keys: "standing p \<Longrightarrow> adj_keys p = ahead (terminal_index p) (terminal_count p) (terminals p)"
  by (simp add: standing_def adj_keys_def)

lemma standing_current: "standing p \<Longrightarrow> has_current p"
  by (simp add: standing_def)

lemma standing_least: "standing p \<Longrightarrow> least_gid (current_key p) (adj_keys p)"
  using ahead_least(1) [of "terminal_count p" "terminals p" "terminal_index p"] by (simp add: standing_def standing_keys built_ok_def)

lemma adj_first_cases:
  assumes "adj_ok qs qg p"
  obtains (stands) p' s' where "adjacency_first_distinct t_len qs qg p s = Inr (True, p', s')" "adj_ok qs qg p'" "adj_keys p' = adj_keys p" "standing p'"
  | (ended) p' s' where "adjacency_first_distinct t_len qs qg p s = Inr (False, p', s')" "adj_ok qs qg p'" "adj_keys p' = {}" "adj_keys p = {}"
proof -
  have built_case: thesis if b: "built q" "built_ok q" "adj_keys q = adj_keys p" "provider_kind q = AGE_WCOJ_PROVIDER_ADJACENCY"
    and f: "adjacency_first_distinct t_len qs qg p s =
      (if exhausted q \<or> terminal_index q \<ge> terminal_count q then Inr (False, q\<lparr>has_current := False\<rparr>, s1)
       else bindE (arr_get (terminals q) (terminal_index q)) (\<lambda>t. Inr (True, q\<lparr>current_key := t, has_current := True\<rparr>, s1)))" for q s1
  proof (cases "exhausted q \<or> terminal_index q \<ge> terminal_count q")
    case True
    then have "terminal_count q \<le> terminal_index q" using b(2) by (auto simp: built_ok_def)
    then have "adj_keys p = {}" using b by (simp add: adj_keys_def)
    with True b f assms show thesis by (intro ended [of "q\<lparr>has_current := False\<rparr>" s1]) (simp_all add: adj_ok_def built_ok_def adj_keys_def)
  next
    case False
    then have "terminal_index q < length (terminals q)" using b(2) by (simp add: built_ok_def)
    with False b f assms show thesis
      by (intro stands [of "q\<lparr>current_key := terminals q ! terminal_index q, has_current := True\<rparr>" s1])
        (simp_all add: adj_ok_def built_ok_def adj_keys_def standing_def)
  qed
  show thesis
  proof (cases "built p")
    case True
    then show thesis using assms by (intro built_case [of p s]) (simp_all add: adj_ok_def adjacency_first_distinct_def)
  next
    case False
    then have u: "unbuilt p" "within_limits p" "scan_filters (terminal_scan p)" "qsorts_ok qs qg" "provider_kind p = AGE_WCOJ_PROVIDER_ADJACENCY"
      using assms by (simp_all add: adj_ok_def)
    from build_ok [OF u(1-4), of None 0 t_len s] obtain r p' s' where
      r: "build_adjacency_provider_filtered t_len qs qg p None 0 s = Inr (r, p', s')" "build_outcome p None 0 r p'" by auto
    have nr: "r \<noteq> AGE_WCOJ_ADJACENCY_BUILD_OVERSIZE" using r(2) by (auto simp: build_outcome_def)
    have o: "built p'" "built_ok p'" "adj_keys p' = adj_keys p" "provider_kind p' = AGE_WCOJ_PROVIDER_ADJACENCY"
      "r = AGE_WCOJ_ADJACENCY_BUILD_READY \<longleftrightarrow> adj_keys p \<noteq> {}"
      using r(2) nr False u(5) by (auto simp: build_outcome_def adj_keys_def same_input_def)
    show thesis
    proof (cases "r = AGE_WCOJ_ADJACENCY_BUILD_READY")
      case True
      then show thesis using r(1) False o by (intro built_case [of p' s']) (simp_all add: adjacency_first_distinct_def build_adjacency_provider_def)
    next
      case nready: False
      then show thesis using r(1) False o u(4)
        by (intro ended [of p' s']) (simp_all add: adjacency_first_distinct_def build_adjacency_provider_def adj_ok_def)
    qed
  qed
qed

lemma move_terminal_law:
  assumes "adj_ok qs qg p" "standing p" "terminal_index p \<le> i"
  shows "moves_to has_current current_key adj_keys (adj_ok qs qg) (ahead i (terminal_count p) (terminals p)) (move_terminal i p s)"
proof (cases "i \<ge> terminal_count p")
  case True
  with assms show ?thesis
    by (intro moves_to_ended [of _ "p\<lparr>terminal_index := i, has_current := False, exhausted := True\<rparr>"])
      (simp_all add: move_terminal_def standing_def adj_ok_def built_ok_def adj_keys_def)
next
  case False
  let ?q = "p\<lparr>terminal_index := i, current_key := terminals p ! i\<rparr>"
  have q: "standing ?q" "adj_ok qs qg ?q" "i < length (terminals p)" using False assms by (auto simp: standing_def adj_ok_def built_ok_def)
  show ?thesis using False q standing_least [OF q(1)] standing_keys [OF q(1)] standing_current [OF q(1)]
    by (intro moves_to_stands [of _ ?q]) (simp_all add: move_terminal_def)
qed

lemma adj_first_law:
  assumes "adj_ok qs qg p"
  shows "moves_to has_current current_key adj_keys (adj_ok qs qg) (adj_keys p) (adjacency_first_distinct t_len qs qg p s)"
  using assms
proof (cases rule: adj_first_cases [where t_len = t_len and s = s])
  case (stands p' s')
  then show ?thesis using standing_least [OF stands(4)] standing_current [OF stands(4)] by (intro moves_to_stands [of _ p' s']) simp_all
next
  case (ended p' s')
  then show ?thesis by (intro moves_to_ended [of _ p' s']) simp_all
qed

lemma adj_next_law:
  assumes "adj_ok qs qg p"
  shows "moves_to has_current current_key adj_keys (adj_ok qs qg) (after_least (adj_keys p)) (adjacency_next_distinct t_len qs qg p s)"
  using assms
proof (cases rule: adj_first_cases [where t_len = t_len and s = s])
  case (stands p' s')
  have "after_least (adj_keys p) = ahead (Suc (terminal_index p')) (terminal_count p') (terminals p')"
    unfolding stands(3) [symmetric] standing_keys [OF stands(4)] using stands(4) by (intro ahead_least(2)) (simp_all add: standing_def built_ok_def)
  then show ?thesis using stands move_terminal_law [OF stands(2,4), of "Suc (terminal_index p')" s'] by (simp add: adjacency_next_distinct_def)
next
  case (ended p' s')
  then show ?thesis by (intro moves_to_ended [of _ p' s']) (simp_all add: adjacency_next_distinct_def after_least_def)
qed

lemma adj_seek_law:
  assumes "adj_ok qs qg p"
  shows "moves_to has_current current_key adj_keys (adj_ok qs qg) (from_gid t (adj_keys p)) (adjacency_seek_ge t_len qs qg p t s)"
  using assms
proof (cases rule: adj_first_cases [where t_len = t_len and s = "count_seek s"])
  case (stands p' s')
  show ?thesis
  proof (cases "sint t \<le> sint (current_key p')")
    case True
    then have "from_gid t (adj_keys p) = adj_keys p" using from_least [OF standing_least [OF stands(4)]] stands(3) by simp
    with True stands standing_least [OF stands(4)] standing_current [OF stands(4)] show ?thesis by (intro moves_to_stands [of _ p' s']) (simp_all add: adjacency_seek_ge_def)
  next
    case False
    let ?i = "terminal_index p'" let ?n = "terminal_count p'" let ?ts = "terminals p'"
    have b: "?n \<le> length ?ts" "gid_sorted (take ?n ?ts)" "?i < ?n" "current_key p' = ?ts ! ?i"
      using stands(4) by (simp_all add: standing_def built_ok_def)
    obtain r u where r: "bisect id ?ts t (?i + 1) ?n () = Inr (r, u)" "lower_bound ?ts ?n ?i t r"
      using bisect_lower_bound [OF increasing_sorted [OF b(2,1), of ?i] b(1), of "?i + 1" ?n t id "()"] b(3,4) False
      by (auto simp: le_less_Suc_eq)
    have "from_gid t (adj_keys p) = ahead r ?n ?ts" using ahead_from [OF b(1,2) r(2)] stands(3) standing_keys [OF stands(4)] by simp
    moreover have "?i \<le> r" using r(2) by (simp add: lower_bound_def)
    ultimately show ?thesis using stands False r(1) move_terminal_law [OF stands(2,4), of r s'] by (simp add: adjacency_seek_ge_def)
  qed
next
  case (ended p' s')
  then show ?thesis by (intro moves_to_ended [of _ p' s']) (simp_all add: adjacency_seek_ge_def from_gid_def)
qed

interpretation adjacency: posting_provider "adjacency_ops t_len qs qg" has_current current_key adj_keys "adj_ok qs qg"
proof unfold_locales
  fix p :: "'a AgeWCOJPostingProvider"
  show "finite (adj_keys p)" by (simp add: adj_keys_def postings_def)
qed (simp_all add: adjacency_ops_def adj_first_law adj_next_law adj_seek_law)

subsection \<open>Dispatch\<close>

text \<open>\<open>provider->ops\<close> is the table of the provider's kind.\<close>

definition provider_ops ::
    "('t \<Rightarrow> int) \<Rightarrow> ('t AgeBindingSourceRow list \<Rightarrow> 't AgeBindingSourceRow list) \<Rightarrow> (graphid list \<Rightarrow> graphid list) \<Rightarrow>
     't AgeWCOJPostingProvider \<Rightarrow> ('t AgeWCOJPostingProvider, wcoj_stats) AgeWCOJPostingProviderOps" where
  "provider_ops t_len qs qg p =
     (case provider_kind p of
        AGE_WCOJ_PROVIDER_PLAN_STREAM \<Rightarrow> plan_stream_ops
      | AGE_WCOJ_PROVIDER_ADJACENCY \<Rightarrow> adjacency_ops t_len qs qg)"

definition dispatch ::
    "('t \<Rightarrow> int) \<Rightarrow> ('t AgeBindingSourceRow list \<Rightarrow> 't AgeBindingSourceRow list) \<Rightarrow> (graphid list \<Rightarrow> graphid list) \<Rightarrow>
     ('t AgeWCOJPostingProvider, wcoj_stats) AgeWCOJPostingProviderOps" where
  "dispatch t_len qs qg =
     \<lparr>op_first_distinct = (\<lambda>p. op_first_distinct (provider_ops t_len qs qg p) p),
      op_next_distinct = (\<lambda>p. op_next_distinct (provider_ops t_len qs qg p) p),
      op_seek_ge = (\<lambda>p. op_seek_ge (provider_ops t_len qs qg p) p)\<rparr>"

text \<open>A group array cannot grow past the limit below.\<close>

definition provider_ok ::
    "('t AgeBindingSourceRow list \<Rightarrow> 't AgeBindingSourceRow list) \<Rightarrow> (graphid list \<Rightarrow> graphid list) \<Rightarrow>
     't AgeWCOJPostingProvider \<Rightarrow> bool" where
  "provider_ok qs qg p \<longleftrightarrow> plan_ok p \<and> intact p \<and> length (plan_rows p) < 67108864 \<or> adj_ok qs qg p"

definition provider_keys :: "'t AgeWCOJPostingProvider \<Rightarrow> graphid set" where
  "provider_keys p = (case provider_kind p of AGE_WCOJ_PROVIDER_PLAN_STREAM \<Rightarrow> plan_keys p | AGE_WCOJ_PROVIDER_ADJACENCY \<Rightarrow> adj_keys p)"

lemma moves_to_mono:
  "moves_to here key keys ok K r \<Longrightarrow> (\<And>b p s. r = Inr (b, p, s) \<Longrightarrow> ok p \<Longrightarrow> ok' p \<and> keys' p = keys p) \<Longrightarrow> moves_to here key keys' ok' K r"
  unfolding moves_to_def by (elim exE conjE) (intro exI conjI, assumption, simp_all)

lemma plan_keys_provider: "plan_ok p \<Longrightarrow> provider_keys p = plan_keys p"
  by (simp add: provider_keys_def plan_ok_def)

lemma adj_is_provider: "adj_ok qs qg p \<Longrightarrow> provider_ok qs qg p \<and> provider_keys p = adj_keys p"
  by (simp add: provider_ok_def provider_keys_def adj_ok_def)

lemma framed_provider:
  assumes "plan_ok p'" "intact p" "length (plan_rows p) < 67108864" "frame p p'"
  shows "provider_ok qs qg p' \<and> provider_keys p' = plan_keys p'"
  using assms(1,3) intact_frame [OF assms(2,4)] assms(4) by (simp add: provider_ok_def plan_keys_provider frame_def passes_def same_plan_def)

lemma provider_cases:
  assumes "provider_ok qs qg p"
  obtains (plan) "plan_ok p" "intact p" "length (plan_rows p) < 67108864" "provider_ops t_len qs qg p = plan_stream_ops" "provider_keys p = plan_keys p"
  | (adj) "adj_ok qs qg p" "provider_ops t_len qs qg p = adjacency_ops t_len qs qg" "provider_keys p = adj_keys p"
  using assms unfolding provider_ok_def provider_ops_def provider_keys_def by (auto simp: plan_ok_def adj_ok_def)

interpretation provider: posting_provider "dispatch t_len qs qg" has_current current_key provider_keys "provider_ok qs qg"
proof unfold_locales
  fix p :: "'a AgeWCOJPostingProvider" and s t
  assume ok: "provider_ok qs qg p"
  show "finite (provider_keys p)" by (auto simp: provider_keys_def plan_keys_def adj_keys_def postings_def split: AgeWCOJProviderKind.split)
  note adj = moves_to_mono [OF adjacency.first_law adj_is_provider] moves_to_mono [OF adjacency.next_law adj_is_provider]
    moves_to_mono [OF adjacency.seek_law adj_is_provider]
  from ok show "moves_to has_current current_key provider_keys (provider_ok qs qg) (provider_keys p) (op_first_distinct (dispatch t_len qs qg) p s)"
  proof (cases rule: provider_cases [where t_len = t_len])
    case plan
    have "moves_to has_current current_key provider_keys (provider_ok qs qg) (plan_keys p) (plan_stream_first_distinct p s)"
      by (rule moves_to_mono [OF plan_first_law [OF plan(1)]]) (rule framed_provider [where p = p, OF _ plan(2,3) first_frame [OF _ plan(1)]])
    with plan(4,5) show ?thesis by (simp add: dispatch_def plan_stream_ops_def)
  qed (simp add: dispatch_def adj)
  from ok show "moves_to has_current current_key provider_keys (provider_ok qs qg) (after_least (provider_keys p)) (op_next_distinct (dispatch t_len qs qg) p s)"
  proof (cases rule: provider_cases [where t_len = t_len])
    case plan
    have "moves_to has_current current_key provider_keys (provider_ok qs qg) (after_least (plan_keys p)) (plan_stream_next_distinct p s)"
      by (rule moves_to_mono [OF plan_next_law [OF plan(1)]]) (rule framed_provider [where p = p, OF _ plan(2,3) next_frame [OF _ plan(1)]])
    with plan(4,5) show ?thesis by (simp add: dispatch_def plan_stream_ops_def)
  qed (simp add: dispatch_def adj)
  from ok show "moves_to has_current current_key provider_keys (provider_ok qs qg) (from_gid t (provider_keys p)) (op_seek_ge (dispatch t_len qs qg) p t s)"
  proof (cases rule: provider_cases [where t_len = t_len])
    case plan
    have "moves_to has_current current_key provider_keys (provider_ok qs qg) (from_gid t (plan_keys p)) (plan_stream_seek_ge p t s)"
      by (rule moves_to_mono [OF plan_seek_law [OF plan(1)]]) (rule framed_provider [where p = p, OF _ plan(2,3) seek_frame [OF _ plan(1)]])
    with plan(4,5) show ?thesis by (simp add: dispatch_def plan_stream_ops_def)
  qed (simp add: dispatch_def adj)
qed

end
