(* ===== verification/Wcoj_Align.thy ===== *)
theory Wcoj_Align
  imports Wcoj_Adjacency
begin

text \<open>
  The three alignment engines of the worst-case optimal join (\<open>src/backend/executor/cypher_wcoj_join.c\<close>):
  \<open>align_age_wcoj_leapfrog\<close>, \<open>align_age_wcoj_merge\<close> and the probing loop of \<open>align_age_wcoj_progressive\<close>. They are
  written against the operation table of the providers, and proved once in the locale \<open>posting_provider\<close>:
  each returns the least key that all providers still have ahead. The loops run with fuel; the
  number of keys ahead, plus one, is enough.
\<close>

subsection \<open>Operations\<close>

fun initialize_age_wcoj_providers :: "('p, 's) AgeWCOJPostingProviderOps \<Rightarrow> 'p list \<Rightarrow> 's \<Rightarrow> (bool \<times> 'p list \<times> 's) result" where
  "initialize_age_wcoj_providers ops [] s = Inr (True, [], s)"
| "initialize_age_wcoj_providers ops (p # ps) s =
     bindE (op_first_distinct ops p s) (\<lambda>(found, p1, s1).
       if \<not> found then Inr (False, p1 # ps, s1)
       else bindE (initialize_age_wcoj_providers ops ps s1) (\<lambda>(b, ps1, s2). Inr (b, p1 # ps1, s2)))"

definition max_key :: "graphid list \<Rightarrow> graphid result" where
  "max_key ks = (case ks of [] \<Rightarrow> Inl BadAccess | k # ks \<Rightarrow> Inr (fold (\<lambda>x m. if sint x > sint m then x else m) ks k))"

definition min_key :: "graphid list \<Rightarrow> graphid result" where
  "min_key ks = (case ks of [] \<Rightarrow> Inl BadAccess | k # ks \<Rightarrow> Inr (fold (\<lambda>x m. if sint x < sint m then x else m) ks k))"

text \<open>The loop of one leapfrog round. The result says whether every seek succeeded, and whether all
  providers stand at the maximum.\<close>

fun leapfrog_round ::
    "('p, 's) AgeWCOJPostingProviderOps \<Rightarrow> ('p \<Rightarrow> graphid) \<Rightarrow> graphid \<Rightarrow> 'p list \<Rightarrow> 's \<Rightarrow> (bool \<times> bool \<times> 'p list \<times> 's) result" where
  "leapfrog_round ops key m [] s = Inr (True, True, [], s)"
| "leapfrog_round ops key m (p # ps) s =
     bindE (if sint (key p) < sint m then op_seek_ge ops p m s else Inr (True, p, s)) (\<lambda>(found, p1, s1).
       if \<not> found then Inr (False, False, p1 # ps, s1)
       else bindE (leapfrog_round ops key m ps s1) (\<lambda>(b, aligned, ps1, s2). Inr (b, key p1 = m \<and> aligned, p1 # ps1, s2)))"

primrec leapfrog_loop ::
    "('p, 's) AgeWCOJPostingProviderOps \<Rightarrow> ('p \<Rightarrow> graphid) \<Rightarrow> nat \<Rightarrow> 'p list \<Rightarrow> 's \<Rightarrow> (graphid option \<times> 'p list \<times> 's) result" where
  "leapfrog_loop ops key 0 ps s = Inl OutOfFuel"
| "leapfrog_loop ops key (Suc fuel) ps s =
     bindE (max_key (map key ps)) (\<lambda>m.
     bindE (leapfrog_round ops key m ps s) (\<lambda>(found, aligned, ps1, s1).
       if \<not> found then Inr (None, ps1, s1) else if aligned then Inr (Some m, ps1, s1) else leapfrog_loop ops key fuel ps1 s1))"

definition align_age_wcoj_leapfrog ::
    "('p, 's) AgeWCOJPostingProviderOps \<Rightarrow> ('p \<Rightarrow> graphid) \<Rightarrow> nat \<Rightarrow> 'p list \<Rightarrow> 's \<Rightarrow> (graphid option \<times> 'p list \<times> 's) result" where
  "align_age_wcoj_leapfrog ops key fuel ps s =
     bindE (initialize_age_wcoj_providers ops ps s) (\<lambda>(found, ps1, s1).
       if \<not> found then Inr (None, ps1, s1) else leapfrog_loop ops key fuel ps1 s1)"

text \<open>The loop of one merge round: every provider at the minimum moves on.\<close>

fun merge_round ::
    "('p, 's) AgeWCOJPostingProviderOps \<Rightarrow> ('p \<Rightarrow> graphid) \<Rightarrow> graphid \<Rightarrow> 'p list \<Rightarrow> 's \<Rightarrow> (bool \<times> 'p list \<times> 's) result" where
  "merge_round ops key m [] s = Inr (True, [], s)"
| "merge_round ops key m (p # ps) s =
     bindE (if key p = m then op_next_distinct ops p s else Inr (True, p, s)) (\<lambda>(found, p1, s1).
       if \<not> found then Inr (False, p1 # ps, s1)
       else bindE (merge_round ops key m ps s1) (\<lambda>(b, ps1, s2). Inr (b, p1 # ps1, s2)))"

primrec merge_loop ::
    "('p, 's) AgeWCOJPostingProviderOps \<Rightarrow> ('p \<Rightarrow> graphid) \<Rightarrow> nat \<Rightarrow> 'p list \<Rightarrow> 's \<Rightarrow> (graphid option \<times> 'p list \<times> 's) result" where
  "merge_loop ops key 0 ps s = Inl OutOfFuel"
| "merge_loop ops key (Suc fuel) ps s =
     bindE (min_key (map key ps)) (\<lambda>lo.
     bindE (max_key (map key ps)) (\<lambda>hi.
       if lo = hi then Inr (Some lo, ps, s)
       else bindE (merge_round ops key lo ps s) (\<lambda>(found, ps1, s1).
              if \<not> found then Inr (None, ps1, s1) else merge_loop ops key fuel ps1 s1)))"

definition align_age_wcoj_merge ::
    "('p, 's) AgeWCOJPostingProviderOps \<Rightarrow> ('p \<Rightarrow> graphid) \<Rightarrow> nat \<Rightarrow> 'p list \<Rightarrow> 's \<Rightarrow> (graphid option \<times> 'p list \<times> 's) result" where
  "align_age_wcoj_merge ops key fuel ps s =
     bindE (initialize_age_wcoj_providers ops ps s) (\<lambda>(found, ps1, s1).
       if \<not> found then Inr (None, ps1, s1) else merge_loop ops key fuel ps1 s1)"

text \<open>The progressive engine. The counters it increments are those of the events \<open>Probed\<close> (a candidate is
  taken from the seed), \<open>Survived\<close> (a stage has the candidate) and \<open>Matched\<close>.\<close>

datatype progressive_event = Probed | Survived nat | Matched

datatype probe_result = Probe_End | Probe_Restart | Probe_Match

fun probe_stages ::
    "('p, 's) AgeWCOJPostingProviderOps \<Rightarrow> ('p \<Rightarrow> graphid) \<Rightarrow> (progressive_event \<Rightarrow> 's \<Rightarrow> 's) \<Rightarrow> nat \<Rightarrow> graphid \<Rightarrow> nat \<Rightarrow> nat list \<Rightarrow>
     'p list \<Rightarrow> 's \<Rightarrow> (probe_result \<times> 'p list \<times> 's) result" where
  "probe_stages ops key tick seed candidate stage [] ps s = Inr (Probe_Match, ps, s)"
| "probe_stages ops key tick seed candidate stage (i # is) ps s =
     bindE (arr_get ps i) (\<lambda>p.
     bindE (op_seek_ge ops p candidate s) (\<lambda>(found, p1, s1).
       let ps1 = ps[i := p1]
       in if \<not> found then Inr (Probe_End, ps1, s1)
          else if sint (key p1) > sint candidate then
            bindE (arr_get ps1 seed) (\<lambda>q.
            bindE (op_seek_ge ops q (key p1) s1) (\<lambda>(found2, q1, s2).
              Inr (if found2 then Probe_Restart else Probe_End, ps1[seed := q1], s2)))
          else probe_stages ops key tick seed candidate (stage + 1) is ps1 (tick (Survived stage) s1)))"

primrec progressive_loop ::
    "('p, 's) AgeWCOJPostingProviderOps \<Rightarrow> ('p \<Rightarrow> graphid) \<Rightarrow> (progressive_event \<Rightarrow> 's \<Rightarrow> 's) \<Rightarrow> nat \<Rightarrow> nat list \<Rightarrow> nat \<Rightarrow>
     'p list \<Rightarrow> 's \<Rightarrow> (graphid option \<times> 'p list \<times> 's) result" where
  "progressive_loop ops key tick seed stages 0 ps s = Inl OutOfFuel"
| "progressive_loop ops key tick seed stages (Suc fuel) ps s =
     bindE (arr_get ps seed) (\<lambda>q.
     bindE (probe_stages ops key tick seed (key q) 1 stages ps (tick (Survived 0) (tick Probed s))) (\<lambda>(r, ps1, s1).
       case r of
         Probe_End \<Rightarrow> Inr (None, ps1, s1)
       | Probe_Restart \<Rightarrow> progressive_loop ops key tick seed stages fuel ps1 s1
       | Probe_Match \<Rightarrow> Inr (Some (key q), ps1, tick Matched s1)))"

declare leapfrog_loop.simps [simp del] merge_loop.simps [simp del] progressive_loop.simps [simp del]

subsection \<open>Extremal keys\<close>

lemma max_key_exists: "ks \<noteq> [] \<Longrightarrow> \<exists>m. max_key ks = Inr m \<and> m \<in> set ks \<and> (\<forall>k \<in> set ks. sint k \<le> sint m)"
proof -
  assume "ks \<noteq> []"
  then obtain k ks' where ks: "ks = k # ks'" by (cases ks) auto
  have "fold (\<lambda>x m. if sint x > sint m then x else m) xs m \<in> set (m # xs) \<and>
      (\<forall>y \<in> set (m # xs). sint y \<le> sint (fold (\<lambda>x m. if sint x > sint m then x else m) xs m))" for xs :: "graphid list" and m
    by (induction xs arbitrary: m) (fastforce split: if_splits)+
  then show ?thesis unfolding ks max_key_def list.case by blast
qed

lemma min_key_exists: "ks \<noteq> [] \<Longrightarrow> \<exists>m. min_key ks = Inr m \<and> m \<in> set ks \<and> (\<forall>k \<in> set ks. sint m \<le> sint k)"
proof -
  assume "ks \<noteq> []"
  then obtain k ks' where ks: "ks = k # ks'" by (cases ks) auto
  have "fold (\<lambda>x m. if sint x < sint m then x else m) xs m \<in> set (m # xs) \<and>
      (\<forall>y \<in> set (m # xs). sint (fold (\<lambda>x m. if sint x < sint m then x else m) xs m) \<le> sint y)" for xs :: "graphid list" and m
    by (induction xs arbitrary: m) (fastforce split: if_splits)+
  then show ?thesis unfolding ks min_key_def list.case by blast
qed

subsection \<open>What all providers have in common\<close>

definition common_keys :: "('p \<Rightarrow> graphid set) \<Rightarrow> 'p list \<Rightarrow> graphid set" where
  "common_keys keys ps = (\<Inter>p \<in> set ps. keys p)"

definition keys_total :: "('p \<Rightarrow> graphid set) \<Rightarrow> 'p list \<Rightarrow> nat" where
  "keys_total keys ps = sum_list (map (\<lambda>p. card (keys p)) ps)"

text \<open>Every provider of \<open>ps'\<close> has passed only keys of \<open>D\<close> since \<open>ps\<close>.\<close>

definition narrowed :: "('p \<Rightarrow> graphid set) \<Rightarrow> ('p \<Rightarrow> bool) \<Rightarrow> graphid set \<Rightarrow> 'p list \<Rightarrow> 'p list \<Rightarrow> bool" where
  "narrowed keys ok D ps ps' \<longleftrightarrow> list_all2 (\<lambda>p p'. ok p' \<and> keys p - D \<subseteq> keys p' \<and> keys p' \<subseteq> keys p) ps ps'"

lemma narrowed_common:
  assumes "narrowed keys ok D ps ps'" "common_keys keys ps \<inter> D = {}"
  shows "common_keys keys ps' = common_keys keys ps"
proof -
  have len: "length ps' = length ps" and n: "\<And>i. i < length ps \<Longrightarrow> keys (ps ! i) - D \<subseteq> keys (ps' ! i) \<and> keys (ps' ! i) \<subseteq> keys (ps ! i)"
    using assms(1) by (auto simp: narrowed_def list_all2_conv_all_nth)
  have c: "common_keys keys qs = {x. \<forall>i < length qs. x \<in> keys (qs ! i)}" for qs :: "'a list"
    by (simp add: common_keys_def INTER_eq all_set_conv_all_nth)
  show ?thesis using n assms(2) unfolding c len by blast
qed

lemma common_empty: "p \<in> set ps \<Longrightarrow> keys p = {} \<Longrightarrow> common_keys keys ps = {}"
  by (auto simp: common_keys_def)

subsection \<open>The engines, for every provider that keeps the contract\<close>

context posting_provider
begin

definition ready :: "'p list \<Rightarrow> bool" where
  "ready ps \<longleftrightarrow> (\<forall>p \<in> set ps. ok p \<and> here p \<and> least_gid (key p) (keys p))"

text \<open>What an alignment of \<open>ps\<close> returns.\<close>

definition aligned_result :: "'p list \<Rightarrow> (graphid option \<times> 'p list \<times> 's) result \<Rightarrow> bool" where
  "aligned_result ps r \<longleftrightarrow>
     (\<exists>m ps' s'. r = Inr (m, ps', s') \<and> length ps' = length ps \<and> list_all ok ps' \<and> common_keys keys ps' = common_keys keys ps \<and>
        keys_total keys ps' \<le> keys_total keys ps \<and>
        (case m of None \<Rightarrow> common_keys keys ps = {} | Some k \<Rightarrow> least_gid k (common_keys keys ps) \<and> ready ps' \<and> (\<forall>p \<in> set ps'. key p = k)))"

lemma aligned_resultI:
  assumes "r = Inr (m, ps', s')" "length ps' = length ps" "list_all ok ps'" "common_keys keys ps' = common_keys keys ps"
    and "keys_total keys ps' \<le> keys_total keys ps" "m = None \<Longrightarrow> common_keys keys ps = {}"
    and "\<And>k. m = Some k \<Longrightarrow> least_gid k (common_keys keys ps) \<and> ready ps' \<and> (\<forall>p \<in> set ps'. key p = k)"
  shows "aligned_result ps r"
  unfolding aligned_result_def using assms by (intro exI [of _ m] exI [of _ ps'] exI [of _ s']) (simp split: option.split)

lemma aligned_result_cong:
  "aligned_result ps' r \<Longrightarrow> length ps' = length ps \<Longrightarrow> common_keys keys ps' = common_keys keys ps \<Longrightarrow>
   keys_total keys ps' \<le> keys_total keys ps \<Longrightarrow> aligned_result ps r"
  unfolding aligned_result_def by (force intro: order_trans cong: option.case_cong)

lemma ready_ok: "ready ps \<Longrightarrow> list_all ok ps"
  by (simp add: ready_def list_all_iff)

lemma ready_aligned:
  assumes "ready ps" "ps \<noteq> []" "\<forall>p \<in> set ps. key p = k"
  shows "least_gid k (common_keys keys ps)"
proof -
  have "least_gid k (keys p)" if "p \<in> set ps" for p using assms(1,3) that by (auto simp: ready_def)
  then show ?thesis using assms(2) unfolding least_gid_def common_keys_def by (cases ps) auto
qed

lemma narrowed_ok: "narrowed keys ok D ps ps' \<Longrightarrow> list_all ok ps' \<and> length ps' = length ps"
  by (auto simp: narrowed_def list_all2_conv_all_nth list_all_length)

lemma narrowed_total:
  assumes "narrowed keys ok D ps ps'" "list_all ok ps"
  shows "keys_total keys ps' \<le> keys_total keys ps"
  using assms unfolding narrowed_def
  by (induction rule: list_all2_induct) (auto simp: keys_total_def intro!: add_mono card_mono finite_keys)

lemma narrowed_less:
  assumes "narrowed keys ok D ps ps'" "list_all ok ps" "i < length ps" "x \<in> keys (ps ! i)" "x \<notin> keys (ps' ! i)"
  shows "keys_total keys ps' < keys_total keys ps"
  using assms unfolding narrowed_def
proof (induction arbitrary: i rule: list_all2_induct)
  case (Cons p ps p' ps')
  have fin: "finite (keys p)" using Cons.prems(1) by (simp add: finite_keys)
  have le: "keys_total keys ps' \<le> keys_total keys ps" using narrowed_total [of D ps ps'] Cons by (simp add: narrowed_def)
  show ?case
  proof (cases i)
    case 0
    then have "keys p' \<subset> keys p" using Cons by auto
    from psubset_card_mono [OF fin this] le show ?thesis by (simp add: keys_total_def)
  next
    case (Suc j)
    then have "keys_total keys ps' < keys_total keys ps" using Cons by simp
    moreover have "card (keys p') \<le> card (keys p)" using Cons(1) by (intro card_mono fin) simp
    ultimately show ?thesis by (simp add: keys_total_def)
  qed
qed simp

lemma initialize_law:
  "list_all ok ps \<Longrightarrow> \<exists>b ps' s'. initialize_age_wcoj_providers ops ps s = Inr (b, ps', s') \<and> narrowed keys ok {} ps ps' \<and>
     (b \<longrightarrow> ready ps') \<and> (\<not> b \<longrightarrow> (\<exists>p \<in> set ps'. keys p = {}))"
proof (induction ps arbitrary: s)
  case Nil
  then show ?case by (intro exI [of _ True]) (simp add: narrowed_def ready_def)
next
  case (Cons p ps)
  have refl: "list_all2 (\<lambda>p p'. ok p' \<and> keys p \<subseteq> keys p' \<and> keys p' \<subseteq> keys p) ps ps" using Cons.prems by (auto simp: list_all2_conv_all_nth list_all_length)
  from Cons.prems have "ok p" by simp
  from first_law [OF this, of s] show ?case
  proof (cases rule: moves_toE)
    case (stands p1 s1)
    from Cons.IH [of s1] Cons.prems obtain b ps1 s2 where r: "initialize_age_wcoj_providers ops ps s1 = Inr (b, ps1, s2)" "narrowed keys ok {} ps ps1"
      "b \<longrightarrow> ready ps1" "\<not> b \<longrightarrow> (\<exists>p \<in> set ps1. keys p = {})" by auto
    have "narrowed keys ok {} (p # ps) (p1 # ps1)" using r(2) stands by (simp add: narrowed_def)
    with r stands show ?thesis by (auto simp: ready_def)
  next
    case (ended p1 s1)
    then have "narrowed keys ok {} (p # ps) (p1 # ps)" using refl by (simp add: narrowed_def)
    with ended show ?thesis by auto
  qed
qed

lemma unmoved: "list_all ok ps \<Longrightarrow> narrowed keys ok D ps ps"
  by (auto simp: narrowed_def list_all2_conv_all_nth list_all_length)

lemma narrowed_Cons:
  "narrowed keys ok D (p # ps) (p' # ps') \<longleftrightarrow> ok p' \<and> keys p - D \<subseteq> keys p' \<and> keys p' \<subseteq> keys p \<and> narrowed keys ok D ps ps'"
  by (simp add: narrowed_def)

text \<open>One leapfrog round passes only keys below the maximum.\<close>

lemma leapfrog_round_law:
  assumes "ready ps" "\<forall>p \<in> set ps. sint (key p) \<le> sint m"
  shows "\<exists>b al ps' s'. leapfrog_round ops key m ps s = Inr (b, al, ps', s') \<and> narrowed keys ok {x. sint x < sint m} ps ps' \<and>
     (\<not> b \<longrightarrow> (\<exists>p \<in> set ps'. keys p = {})) \<and>
     (b \<longrightarrow> ready ps' \<and> (al \<longleftrightarrow> (\<forall>p \<in> set ps'. key p = m)) \<and>
        (\<forall>i < length ps. key (ps' ! i) \<noteq> m \<longrightarrow> key (ps ! i) \<notin> keys (ps' ! i)))"
  using assms
proof (induction ps arbitrary: s)
  case Nil
  then show ?case by (intro exI [of _ True]) (simp add: narrowed_def ready_def)
next
  case (Cons p ps)
  have p: "ok p" "here p \<and> least_gid (key p) (keys p)" "ready ps" "sint (key p) \<le> sint m" using Cons.prems by (auto simp: ready_def)
  let ?D = "{x. sint x < sint m}"
  have step: "\<exists>b p1 s1. (if sint (key p) < sint m then op_seek_ge ops p m s else Inr (True, p, s)) = Inr (b, p1, s1) \<and>
      ok p1 \<and> keys p - ?D \<subseteq> keys p1 \<and> keys p1 \<subseteq> keys p \<and> (\<not> b \<longrightarrow> keys p1 = {}) \<and>
      (b \<longrightarrow> here p1 \<and> least_gid (key p1) (keys p1) \<and> (key p1 \<noteq> m \<longrightarrow> key p \<notin> keys p1))"
  proof (cases "sint (key p) < sint m")
    case True
    have drop: "keys p - ?D = from_gid m (keys p)" "from_gid m (keys p) \<subseteq> keys p" "key p \<notin> from_gid m (keys p)"
      using True by (auto simp: from_gid_def)
    from seek_law [OF p(1), of m s] show ?thesis
      by (cases rule: moves_toE) (use True drop in \<open>simp_all, blast+\<close>)
  next
    case False
    then have "key p = m" using p(4) by (metis order.not_eq_order_implies_strict sint_inject)
    with False p(1,2) show ?thesis by auto
  qed
  then obtain b p1 s1 where r: "(if sint (key p) < sint m then op_seek_ge ops p m s else Inr (True, p, s)) = Inr (b, p1, s1)"
    "ok p1" "keys p - ?D \<subseteq> keys p1" "keys p1 \<subseteq> keys p" "\<not> b \<longrightarrow> keys p1 = {}"
    "b \<longrightarrow> here p1 \<and> least_gid (key p1) (keys p1) \<and> (key p1 \<noteq> m \<longrightarrow> key p \<notin> keys p1)" by blast
  show ?case
  proof (cases b)
    case False
    then have "leapfrog_round ops key m (p # ps) s = Inr (False, False, p1 # ps, s1)" using r(1) by simp
    moreover have "narrowed keys ok ?D (p # ps) (p1 # ps)" using r(2-4) unmoved [OF ready_ok [OF p(3)]] by (simp add: narrowed_Cons)
    ultimately show ?thesis using r(5) False
      by (intro exI [of _ False] exI [of _ "p1 # ps"] exI [of _ s1]) simp
  next
    case True
    have "\<forall>p \<in> set ps. sint (key p) \<le> sint m" using Cons.prems(2) by simp
    from Cons.IH [OF p(3) this, of s1] obtain b2 al ps1 s2 where q: "leapfrog_round ops key m ps s1 = Inr (b2, al, ps1, s2)"
      "narrowed keys ok ?D ps ps1" "\<not> b2 \<longrightarrow> (\<exists>p \<in> set ps1. keys p = {})"
      "b2 \<longrightarrow> ready ps1 \<and> (al \<longleftrightarrow> (\<forall>p \<in> set ps1. key p = m)) \<and> (\<forall>i < length ps. key (ps1 ! i) \<noteq> m \<longrightarrow> key (ps ! i) \<notin> keys (ps1 ! i))" by blast
    have e: "leapfrog_round ops key m (p # ps) s = Inr (b2, key p1 = m \<and> al, p1 # ps1, s2)" using r(1) True q(1) by simp
    have n: "narrowed keys ok ?D (p # ps) (p1 # ps1)" using r(2-4) q(2) by (simp add: narrowed_Cons)
    have d: "b2 \<longrightarrow> ready (p1 # ps1)" using r(2,6) True q(4) by (auto simp: ready_def)
    have "key ((p1 # ps1) ! i) \<noteq> m \<longrightarrow> key ((p # ps) ! i) \<notin> keys ((p1 # ps1) ! i)" if "b2" "i < length (p # ps)" for i
      using that r(6) True q(4) by (cases i) simp_all
    note gone = this
    have "\<not> b2 \<longrightarrow> (\<exists>p \<in> set (p1 # ps1). keys p = {})" "b2 \<longrightarrow> (key p1 = m \<and> al \<longleftrightarrow> (\<forall>p \<in> set (p1 # ps1). key p = m))"
      using q(3,4) by simp_all
    with d gone have f: "(\<not> b2 \<longrightarrow> (\<exists>p \<in> set (p1 # ps1). keys p = {})) \<and>
       (b2 \<longrightarrow> ready (p1 # ps1) \<and> (key p1 = m \<and> al \<longleftrightarrow> (\<forall>p \<in> set (p1 # ps1). key p = m)) \<and>
         (\<forall>i < length (p # ps). key ((p1 # ps1) ! i) \<noteq> m \<longrightarrow> key ((p # ps) ! i) \<notin> keys ((p1 # ps1) ! i)))" by blast
    show ?thesis by (rule exI, rule exI, rule exI, rule exI, rule conjI [OF e conjI [OF n f]])
  qed
qed

lemma leapfrog_loop_law:
  "ready ps \<Longrightarrow> ps \<noteq> [] \<Longrightarrow> keys_total keys ps < fuel \<Longrightarrow> aligned_result ps (leapfrog_loop ops key fuel ps s)"
proof (induction fuel arbitrary: ps s)
  case (Suc fuel)
  obtain m where m: "max_key (map key ps) = Inr m" "m \<in> key ` set ps" "\<forall>p \<in> set ps. sint (key p) \<le> sint m"
    using max_key_exists [of "map key ps"] Suc.prems(2) by auto
  let ?D = "{x. sint x < sint m}"
  obtain b al ps' s' where r: "leapfrog_round ops key m ps s = Inr (b, al, ps', s')" "narrowed keys ok ?D ps ps'"
    "\<not> b \<longrightarrow> (\<exists>p \<in> set ps'. keys p = {})" "b \<longrightarrow> ready ps'" "b \<longrightarrow> (al \<longleftrightarrow> (\<forall>p \<in> set ps'. key p = m))"
    "b \<longrightarrow> (\<forall>i < length ps. key (ps' ! i) \<noteq> m \<longrightarrow> key (ps ! i) \<notin> keys (ps' ! i))"
    using leapfrog_round_law [OF Suc.prems(1) m(3), of s] by blast
  note ok' = narrowed_ok [OF r(2)] narrowed_total [OF r(2) ready_ok [OF Suc.prems(1)]]
  obtain q where q: "q \<in> set ps" "least_gid m (keys q)" using m(2) Suc.prems(1) by (auto simp: ready_def)
  then have "common_keys keys ps \<inter> ?D = {}" by (force simp: common_keys_def least_gid_def)
  note same = narrowed_common [OF r(2) this]
  have ne: "ps' \<noteq> []" using ok' Suc.prems(2) by auto
  consider (ended) "\<not> b" | (found) "b" al | (again) "b" "\<not> al" by blast
  then show ?case
  proof cases
    case ended
    then have "common_keys keys ps = {}" using r(3) common_empty [of _ ps' keys] same by blast
    with ended m(1) r(1) ok' same show ?thesis by (intro aligned_resultI [of _ None ps' s']) (simp_all add: leapfrog_loop.simps)
  next
    case found
    then have "least_gid m (common_keys keys ps')" using ready_aligned [of ps' m] r(4,5) ne by blast
    with found m(1) r ok' same show ?thesis by (intro aligned_resultI [of _ "Some m" ps' s']) (simp_all add: leapfrog_loop.simps)
  next
    case again
    then obtain i where i: "i < length ps" "key (ps' ! i) \<noteq> m" using r(5) ok' by (metis in_set_conv_nth)
    have "key (ps ! i) \<in> keys (ps ! i)" using Suc.prems(1) i(1) by (simp add: ready_def least_gid_def)
    then have "keys_total keys ps' < keys_total keys ps" using again(1) r(6) i by (intro narrowed_less [OF r(2) ready_ok [OF Suc.prems(1)] i(1)]) auto
    then have "aligned_result ps' (leapfrog_loop ops key fuel ps' s')" using Suc.prems(3) again r(4) ne by (intro Suc.IH) auto
    with again m(1) r(1) ok' same show ?thesis by (simp add: leapfrog_loop.simps aligned_result_cong)
  qed
qed simp

text \<open>One merge round passes only the minimum.\<close>

lemma merge_round_law:
  assumes "ready ps"
  shows "\<exists>b ps' s'. merge_round ops key m ps s = Inr (b, ps', s') \<and> narrowed keys ok {m} ps ps' \<and>
     (\<not> b \<longrightarrow> (\<exists>p \<in> set ps'. keys p = {})) \<and> (b \<longrightarrow> ready ps' \<and> (\<forall>i < length ps. key (ps ! i) = m \<longrightarrow> m \<notin> keys (ps' ! i)))"
  using assms
proof (induction ps arbitrary: s)
  case Nil
  then show ?case by (intro exI [of _ True]) (simp add: narrowed_def ready_def)
next
  case (Cons p ps)
  have p: "ok p" "here p \<and> least_gid (key p) (keys p)" "ready ps" using Cons.prems by (auto simp: ready_def)
  have step: "\<exists>b p1 s1. (if key p = m then op_next_distinct ops p s else Inr (True, p, s)) = Inr (b, p1, s1) \<and>
      ok p1 \<and> keys p - {m} \<subseteq> keys p1 \<and> keys p1 \<subseteq> keys p \<and> (\<not> b \<longrightarrow> keys p1 = {}) \<and>
      (b \<longrightarrow> here p1 \<and> least_gid (key p1) (keys p1) \<and> (key p = m \<longrightarrow> m \<notin> keys p1))"
  proof (cases "key p = m")
    case True
    have drop: "after_least (keys p) = keys p - {m}" using after_least_least [OF conjunct2 [OF p(2)]] True by simp
    from next_law [OF p(1), of s] show ?thesis unfolding drop
      by (cases rule: moves_toE) (use True in \<open>simp_all, blast+\<close>)
  next
    case False
    with p(1,2) show ?thesis by auto
  qed
  then obtain b p1 s1 where r: "(if key p = m then op_next_distinct ops p s else Inr (True, p, s)) = Inr (b, p1, s1)"
    "ok p1" "keys p - {m} \<subseteq> keys p1" "keys p1 \<subseteq> keys p" "\<not> b \<longrightarrow> keys p1 = {}"
    "b \<longrightarrow> here p1 \<and> least_gid (key p1) (keys p1) \<and> (key p = m \<longrightarrow> m \<notin> keys p1)" by blast
  show ?case
  proof (cases b)
    case False
    then have "merge_round ops key m (p # ps) s = Inr (False, p1 # ps, s1)" using r(1) by simp
    moreover have "narrowed keys ok {m} (p # ps) (p1 # ps)" using r(2-4) unmoved [OF ready_ok [OF p(3)]] by (simp add: narrowed_Cons)
    ultimately show ?thesis using r(5) False
      by (intro exI [of _ False] exI [of _ "p1 # ps"] exI [of _ s1]) simp
  next
    case True
    from Cons.IH [OF p(3), of s1] obtain b2 ps1 s2 where q: "merge_round ops key m ps s1 = Inr (b2, ps1, s2)"
      "narrowed keys ok {m} ps ps1" "\<not> b2 \<longrightarrow> (\<exists>p \<in> set ps1. keys p = {})"
      "b2 \<longrightarrow> ready ps1 \<and> (\<forall>i < length ps. key (ps ! i) = m \<longrightarrow> m \<notin> keys (ps1 ! i))" by blast
    have e: "merge_round ops key m (p # ps) s = Inr (b2, p1 # ps1, s2)" using r(1) True q(1) by simp
    have n: "narrowed keys ok {m} (p # ps) (p1 # ps1)" using r(2-4) q(2) by (simp add: narrowed_Cons)
    have d: "b2 \<longrightarrow> ready (p1 # ps1)" using r(2,6) True q(4) by (auto simp: ready_def)
    have gone: "key ((p # ps) ! i) = m \<longrightarrow> m \<notin> keys ((p1 # ps1) ! i)" if "b2" "i < length (p # ps)" for i
      using that r(6) True q(4) by (cases i) simp_all
    have "\<not> b2 \<longrightarrow> (\<exists>p \<in> set (p1 # ps1). keys p = {})" using q(3) by simp
    with d gone have f: "(\<not> b2 \<longrightarrow> (\<exists>p \<in> set (p1 # ps1). keys p = {})) \<and>
        (b2 \<longrightarrow> ready (p1 # ps1) \<and> (\<forall>i < length (p # ps). key ((p # ps) ! i) = m \<longrightarrow> m \<notin> keys ((p1 # ps1) ! i)))" by blast
    show ?thesis by (rule exI, rule exI, rule exI, rule conjI [OF e conjI [OF n f]])
  qed
qed

lemma merge_loop_law:
  "ready ps \<Longrightarrow> ps \<noteq> [] \<Longrightarrow> keys_total keys ps < fuel \<Longrightarrow> aligned_result ps (merge_loop ops key fuel ps s)"
proof (induction fuel arbitrary: ps s)
  case (Suc fuel)
  obtain lo where lo: "min_key (map key ps) = Inr lo" "lo \<in> key ` set ps" "\<forall>p \<in> set ps. sint lo \<le> sint (key p)"
    using min_key_exists [of "map key ps"] Suc.prems(2) by auto
  obtain hi where hi: "max_key (map key ps) = Inr hi" "hi \<in> key ` set ps" "\<forall>p \<in> set ps. sint (key p) \<le> sint hi"
    using max_key_exists [of "map key ps"] Suc.prems(2) by auto
  show ?case
  proof (cases "lo = hi")
    case True
    then have "\<forall>p \<in> set ps. key p = lo" using lo(3) hi(3) by (metis order_antisym sint_inject)
    with ready_aligned [OF Suc.prems(1,2)] True lo(1) hi(1) ready_ok [OF Suc.prems(1)] Suc.prems(1) show ?thesis
      by (intro aligned_resultI [of _ "Some lo" ps s]) (simp_all add: merge_loop.simps)
  next
    case False
    obtain b ps' s' where r: "merge_round ops key lo ps s = Inr (b, ps', s')" "narrowed keys ok {lo} ps ps'"
      "\<not> b \<longrightarrow> (\<exists>p \<in> set ps'. keys p = {})" "b \<longrightarrow> ready ps' \<and> (\<forall>i < length ps. key (ps ! i) = lo \<longrightarrow> lo \<notin> keys (ps' ! i))"
      using merge_round_law [OF Suc.prems(1), of lo s] by blast
    note ok' = narrowed_ok [OF r(2)] narrowed_total [OF r(2) ready_ok [OF Suc.prems(1)]]
    obtain q where q: "q \<in> set ps" "key q = hi" "least_gid hi (keys q)" using hi(2) Suc.prems(1) by (auto simp: ready_def)
    then have "sint lo < sint hi" using lo(3) False by (metis order.not_eq_order_implies_strict sint_inject)
    then have "lo \<notin> keys q" using q(3) by (auto simp: least_gid_def)
    then have "common_keys keys ps \<inter> {lo} = {}" using q(1) by (auto simp: common_keys_def)
    note same = narrowed_common [OF r(2) this]
    have ne: "ps' \<noteq> []" using ok' Suc.prems(2) by auto
    show ?thesis
    proof (cases b)
      case ended: False
      then have "common_keys keys ps = {}" using r(3) common_empty [of _ ps' keys] same by blast
      with ended False lo(1) hi(1) r(1) ok' same show ?thesis by (intro aligned_resultI [of _ None ps' s']) (simp_all add: merge_loop.simps)
    next
      case again: True
      from lo(2) obtain i where i: "i < length ps" "key (ps ! i) = lo" by (auto simp: in_set_conv_nth)
      have "lo \<in> keys (ps ! i)" using Suc.prems(1) i by (auto simp: ready_def least_gid_def)
      then have "keys_total keys ps' < keys_total keys ps" using again r(4) i by (intro narrowed_less [OF r(2) ready_ok [OF Suc.prems(1)] i(1)]) auto
      then have "aligned_result ps' (merge_loop ops key fuel ps' s')" using Suc.prems(3) again r(4) ne by (intro Suc.IH) auto
      with again False lo(1) hi(1) r(1) ok' same show ?thesis by (simp add: merge_loop.simps aligned_result_cong)
    qed
  qed
qed simp

lemma narrowed_update:
  assumes "list_all ok ps" "ok p1" "keys (ps ! i) - D \<subseteq> keys p1" "keys p1 \<subseteq> keys (ps ! i)"
  shows "narrowed keys ok D ps (ps[i := p1])"
proof -
  have "ok (ps[i := p1] ! n) \<and> keys (ps ! n) - D \<subseteq> keys (ps[i := p1] ! n) \<and> keys (ps[i := p1] ! n) \<subseteq> keys (ps ! n)" if "n < length ps" for n
    using assms that by (cases "n = i") (auto simp: list_all_length)
  then show ?thesis by (simp add: narrowed_def list_all2_conv_all_nth)
qed

lemma ready_update: "ready ps \<Longrightarrow> ok p1 \<Longrightarrow> here p1 \<Longrightarrow> least_gid (key p1) (keys p1) \<Longrightarrow> ready (ps[i := p1])"
  using set_update_subset_insert [of ps i p1] by (auto simp: ready_def)

text \<open>Seeking one provider when nothing below \<open>t\<close> is common.\<close>

lemma seek_at:
  assumes "ready ps" "i < length ps" "\<forall>x \<in> common_keys keys ps. sint t \<le> sint x"
  obtains (stands) p1 s1 where "op_seek_ge ops (ps ! i) t s = Inr (True, p1, s1)" "ready (ps[i := p1])" "ok p1" "least_gid (key p1) (keys p1)"
      "keys p1 = from_gid t (keys (ps ! i))" "common_keys keys (ps[i := p1]) = common_keys keys ps" "keys_total keys (ps[i := p1]) \<le> keys_total keys ps"
  | (ended) p1 s1 where "op_seek_ge ops (ps ! i) t s = Inr (False, p1, s1)" "list_all ok (ps[i := p1])" "common_keys keys ps = {}"
      "common_keys keys (ps[i := p1]) = {}" "keys_total keys (ps[i := p1]) \<le> keys_total keys ps"
proof -
  let ?D = "{x. sint x < sint t}"
  have p: "ok (ps ! i)" "list_all ok ps" using assms(1,2) by (auto simp: ready_def list_all_iff)
  have disj: "common_keys keys ps \<inter> ?D = {}" using assms(3) by (auto simp: not_less [symmetric])
  have n: "narrowed keys ok ?D ps (ps[i := p1])" if "ok p1" "keys p1 = from_gid t (keys (ps ! i))" for p1
    by (rule narrowed_update [OF p(2) that(1)]) (auto simp: that(2) from_gid_def)
  from seek_law [OF p(1), of t s] show thesis
  proof (cases rule: moves_toE)
    case (stands p1 s1)
    note nn = n [OF stands(2,3)]
    from stands show thesis
      using narrowed_common [OF nn disj] narrowed_total [OF nn p(2)] ready_update [OF assms(1) stands(2)]
      by (intro that(1) [of p1 s1]) simp_all
  next
    case (ended p1 s1)
    note nn = n [OF ended(2,3)]
    have "p1 \<in> set (ps[i := p1])" using assms(2) by (metis in_set_conv_nth length_list_update nth_list_update_eq)
    then have "common_keys keys (ps[i := p1]) = {}" using ended(3,4) common_empty by metis
    with ended narrowed_common [OF nn disj] narrowed_ok [OF nn] narrowed_total [OF nn p(2)] show thesis by (intro that(2) [of p1 s1]) simp_all
  qed
qed

definition probe_ok :: "nat \<Rightarrow> graphid \<Rightarrow> nat list \<Rightarrow> 'p list \<Rightarrow> (probe_result \<times> 'p list \<times> 's) result \<Rightarrow> bool" where
  "probe_ok seed c is ps r \<longleftrightarrow>
     (\<exists>v ps' s'. r = Inr (v, ps', s') \<and> length ps' = length ps \<and> list_all ok ps' \<and> common_keys keys ps' = common_keys keys ps \<and>
        keys_total keys ps' \<le> keys_total keys ps \<and> (v = Probe_End \<longrightarrow> common_keys keys ps = {}) \<and> (v = Probe_Restart \<longrightarrow> ready ps' \<and> keys_total keys ps' < keys_total keys ps) \<and>
        (v = Probe_Match \<longrightarrow> ready ps' \<and> (\<forall>i \<in> set is. key (ps' ! i) = c) \<and> (\<forall>j. j \<notin> set is \<longrightarrow> ps' ! j = ps ! j)))"

lemma probe_stages_law:
  "ready ps \<Longrightarrow> seed < length ps \<Longrightarrow> key (ps ! seed) = c \<Longrightarrow> distinct (seed # is) \<Longrightarrow> \<forall>i \<in> set is. i < length ps \<Longrightarrow>
   probe_ok seed c is ps (probe_stages ops key tick seed c stage is ps s)"
proof (induction "is" arbitrary: ps s stage)
  case Nil
  then show ?case by (simp add: probe_ok_def ready_ok)
next
  case (Cons i "is")
  have least: "least_gid c (keys (ps ! seed))" using Cons.prems(1-3) by (auto simp: ready_def)
  then have above: "\<forall>x \<in> common_keys keys ps. sint c \<le> sint x" using Cons.prems(2) by (auto simp: common_keys_def least_gid_def)
  have i: "i < length ps" "seed \<noteq> i" using Cons.prems(4,5) by auto
  from Cons.prems(1) i(1) above show ?case
  proof (cases rule: seek_at [where s = s])
    case (ended p1 s1)
    then show ?thesis using i by (simp add: probe_ok_def)
  next
    case (stands p1 s1)
    let ?ps = "ps[i := p1]"
    have seed: "?ps ! seed = ps ! seed" "seed < length ?ps" using i Cons.prems(2) by simp_all
    show ?thesis
    proof (cases "sint (key p1) > sint c")
      case True
      have "p1 \<in> set ?ps" using i(1) by (metis in_set_conv_nth length_list_update nth_list_update_eq)
      then have "\<forall>x \<in> common_keys keys ?ps. sint (key p1) \<le> sint x" using stands(4) by (auto simp: common_keys_def least_gid_def)
      from stands(2) seed(2) this show ?thesis
      proof (cases rule: seek_at [where s = s1])
        case (ended q1 s2)
        then show ?thesis using stands i True seed by (simp add: probe_ok_def Let_def)
      next
        case again: (stands q1 s2)
        have "keys q1 \<subseteq> keys (?ps ! seed)" "c \<notin> keys q1" using again(5) True by (auto simp: from_gid_def)
        then have "narrowed keys ok UNIV ?ps (?ps[seed := q1])" by (intro narrowed_update [OF ready_ok [OF stands(2)] again(3)]) auto
        from narrowed_less [OF this ready_ok [OF stands(2)] seed(2), of c] least \<open>c \<notin> keys q1\<close> seed
        have "keys_total keys (?ps[seed := q1]) < keys_total keys ps" using stands(7) by (simp add: least_gid_def)
        then show ?thesis using stands again i True seed ready_ok [OF again(2)] by (simp add: probe_ok_def Let_def)
      qed
    next
      case False
      have "p1 \<in> set ?ps" using i(1) by (metis in_set_conv_nth length_list_update nth_list_update_eq)
      have "sint c \<le> sint (key p1)" using stands(4,5) by (auto simp: least_gid_def from_gid_def)
      then have kc: "key p1 = c" using False by (metis order.not_eq_order_implies_strict sint_inject)
      have "probe_ok seed c is ?ps (probe_stages ops key tick seed c (stage + 1) is ?ps (tick (Survived stage) s1))"
        by (rule Cons.IH [OF stands(2)]) (use Cons.prems seed i in auto)
      then obtain v ps' s' where v: "probe_stages ops key tick seed c (stage + 1) is ?ps (tick (Survived stage) s1) = Inr (v, ps', s')"
        "length ps' = length ps" "list_all ok ps'" "common_keys keys ps' = common_keys keys ps" "keys_total keys ps' \<le> keys_total keys ps"
        "v = Probe_End \<longrightarrow> common_keys keys ps = {}" "v = Probe_Restart \<longrightarrow> ready ps' \<and> keys_total keys ps' < keys_total keys ps"
        "v = Probe_Match \<longrightarrow> ready ps' \<and> (\<forall>i \<in> set is. key (ps' ! i) = c) \<and> (\<forall>j. j \<notin> set is \<longrightarrow> ps' ! j = ?ps ! j)"
        unfolding probe_ok_def stands(6) using stands(7) by (auto simp del: nth_list_update)
      have "i \<notin> set is" using Cons.prems(4) by simp
      then have "v = Probe_Match \<longrightarrow> ready ps' \<and> (\<forall>j \<in> set (i # is). key (ps' ! j) = c) \<and> (\<forall>j. j \<notin> set (i # is) \<longrightarrow> ps' ! j = ps ! j)"
        using v(8) i(1) kc by auto
      with v(1-7) stands(1) i(1) False show ?thesis unfolding probe_ok_def by (simp add: Let_def)
    qed
  qed
qed

lemma progressive_loop_law:
  assumes "distinct (seed # stages)" "set (seed # stages) = {..<length ps}"
  shows "ready ps \<Longrightarrow> keys_total keys ps < fuel \<Longrightarrow> aligned_result ps (progressive_loop ops key tick seed stages fuel ps s)"
  using assms(2)
proof (induction fuel arbitrary: ps s)
  case (Suc fuel)
  have b: "seed < length ps" "\<forall>i \<in> set stages. i < length ps" using Suc.prems(3) by auto
  let ?c = "key (ps ! seed)"
  obtain v ps' s' where v: "probe_stages ops key tick seed ?c 1 stages ps (tick (Survived 0) (tick Probed s)) = Inr (v, ps', s')"
    "length ps' = length ps" "list_all ok ps'" "common_keys keys ps' = common_keys keys ps" "keys_total keys ps' \<le> keys_total keys ps"
    "v = Probe_End \<longrightarrow> common_keys keys ps = {}" "v = Probe_Restart \<longrightarrow> ready ps' \<and> keys_total keys ps' < keys_total keys ps"
    "v = Probe_Match \<longrightarrow> ready ps' \<and> (\<forall>i \<in> set stages. key (ps' ! i) = ?c) \<and> (\<forall>j. j \<notin> set stages \<longrightarrow> ps' ! j = ps ! j)"
    using probe_stages_law [OF Suc.prems(1) b(1) refl assms(1) b(2), of tick 1 "tick (Survived 0) (tick Probed s)"] unfolding probe_ok_def by blast
  show ?case
  proof (cases v)
    case Probe_End
    with v b(1) show ?thesis by (intro aligned_resultI [of _ None ps' s']) (simp_all add: progressive_loop.simps)
  next
    case Probe_Restart
    then have "aligned_result ps' (progressive_loop ops key tick seed stages fuel ps' s')" using v Suc.prems(2,3) by (intro Suc.IH) simp_all
    with Probe_Restart v b(1) show ?thesis by (simp add: progressive_loop.simps aligned_result_cong)
  next
    case Probe_Match
    have "key (ps' ! i) = ?c" if "i < length ps'" for i using v(2,8) that Probe_Match assms(1) Suc.prems(3) by (cases "i = seed") auto
    then have all: "\<forall>p \<in> set ps'. key p = ?c" by (metis in_set_conv_nth)
    have "ps' \<noteq> []" using b(1) v(2) by auto
    with ready_aligned [of ps' ?c] all Probe_Match v b(1) show ?thesis
      by (intro aligned_resultI [of _ "Some ?c" ps' "tick Matched s'"]) (simp_all add: progressive_loop.simps)
  qed
qed simp

text \<open>The engines from providers that are not yet positioned.\<close>

lemma initialize_then:
  assumes "list_all ok ps" "ps \<noteq> []"
    and "\<And>ps1 s1. ready ps1 \<Longrightarrow> length ps1 = length ps \<Longrightarrow> keys_total keys ps1 \<le> keys_total keys ps \<Longrightarrow> aligned_result ps1 (go ps1 s1)"
  shows "aligned_result ps (bindE (initialize_age_wcoj_providers ops ps s) (\<lambda>(found, ps1, s1). if \<not> found then Inr (None, ps1, s1) else go ps1 s1))"
proof -
  obtain b ps1 s1 where r: "initialize_age_wcoj_providers ops ps s = Inr (b, ps1, s1)" "narrowed keys ok {} ps ps1" "b \<longrightarrow> ready ps1"
    "\<not> b \<longrightarrow> (\<exists>p \<in> set ps1. keys p = {})" using initialize_law [OF assms(1), of s] by blast
  have same: "common_keys keys ps1 = common_keys keys ps" by (rule narrowed_common [OF r(2)]) simp
  note ok' = narrowed_ok [OF r(2)] narrowed_total [OF r(2) assms(1)]
  show ?thesis
  proof (cases b)
    case True
    have "aligned_result ps1 (go ps1 s1)" using True r(3) ok' narrowed_total [OF r(2) assms(1)] by (intro assms(3)) auto
    then show ?thesis using True r(1) ok' same by (simp add: aligned_result_cong)
  next
    case False
    then have "common_keys keys ps = {}" using r(4) common_empty [of _ ps1 keys] same by blast
    with False r(1) ok' same show ?thesis by (intro aligned_resultI [of _ None ps1 s1]) simp_all
  qed
qed

lemma leapfrog_aligns:
  "list_all ok ps \<Longrightarrow> ps \<noteq> [] \<Longrightarrow> keys_total keys ps < fuel \<Longrightarrow> aligned_result ps (align_age_wcoj_leapfrog ops key fuel ps s)"
  unfolding align_age_wcoj_leapfrog_def by (rule initialize_then) (auto intro!: leapfrog_loop_law)

lemma merge_aligns:
  "list_all ok ps \<Longrightarrow> ps \<noteq> [] \<Longrightarrow> keys_total keys ps < fuel \<Longrightarrow> aligned_result ps (align_age_wcoj_merge ops key fuel ps s)"
  unfolding align_age_wcoj_merge_def by (rule initialize_then) (auto intro!: merge_loop_law)

end

end
