(* ===== verification/Wcoj_Join.thy ===== *)
theory Wcoj_Join
  imports Wcoj_Align
begin

text \<open>
  The survivor search of the worst-case optimal join (\<open>src/backend/executor/cypher_wcoj_join.c\<close>): the choice of
  the engine with its fallbacks and the exact-set preparation of the progressive engine, which builds the seed's
  terminal array and filters every other adjacency provider by it. \<open>find_next_law\<close>: a search returns the least key
  that all providers have in common and leaves every provider at it, or says that there is none.
\<close>

subsection \<open>State\<close>

datatype AgeWCOJEngineKind = AGE_WCOJ_ENGINE_AUTO | AGE_WCOJ_ENGINE_PROGRESSIVE | AGE_WCOJ_ENGINE_LEAPFROG | AGE_WCOJ_ENGINE_MERGE

record 't AgeWCOJJoinScanState =
  providers :: "'t AgeWCOJPostingProvider list"
  source_order :: "nat list"
  seed_index :: nat
  requested_engine :: AgeWCOJEngineKind
  actual_engine :: AgeWCOJEngineKind
  fallback_reason :: string
  progressive_setup_done :: bool
  counters :: wcoj_stats
  survivor_block :: "graphid list"
  survivor_block_capacity :: nat
  survivor_input_exhausted :: bool
  survivor_block_index :: nat
  scan_exhausted :: bool

text \<open>What the code takes from the C library and the server: the size of a copied tuple, two calls of \<open>qsort\<close>, and
  whether the memory of the block has reached its budget. The number of survivors a block is given room for
  (\<open>age_wcoj_survivor_block_capacity\<close>, an estimate in floating point) is an argument too.\<close>

record 't join_env =
  env_t_len :: "'t \<Rightarrow> int"
  env_qsort_rows :: "'t AgeBindingSourceRow list \<Rightarrow> 't AgeBindingSourceRow list"
  env_qsort_gids :: "graphid list \<Rightarrow> graphid list"
  env_block_full :: "'t AgeWCOJJoinScanState \<Rightarrow> bool"
  env_block_capacity :: "'t AgeWCOJJoinScanState \<Rightarrow> nat"

abbreviation env_ops :: "'t join_env \<Rightarrow> ('t AgeWCOJPostingProvider, wcoj_stats) AgeWCOJPostingProviderOps" where
  "env_ops env \<equiv> dispatch (env_t_len env) (env_qsort_rows env) (env_qsort_gids env)"

abbreviation env_ok :: "'t join_env \<Rightarrow> 't AgeWCOJPostingProvider \<Rightarrow> bool" where
  "env_ok env \<equiv> provider_ok (env_qsort_rows env) (env_qsort_gids env)"

definition AGE_WCOJ_PROGRESSIVE_MAX_SEED_POSTINGS :: int where "AGE_WCOJ_PROGRESSIVE_MAX_SEED_POSTINGS = 65536"
definition AGE_WCOJ_PROGRESSIVE_DENSE_SAMPLE :: int where "AGE_WCOJ_PROGRESSIVE_DENSE_SAMPLE = 1024"
definition AGE_WCOJ_PROGRESSIVE_DENSE_NUMERATOR :: int where "AGE_WCOJ_PROGRESSIVE_DENSE_NUMERATOR = 3"
definition AGE_WCOJ_PROGRESSIVE_DENSE_DENOMINATOR :: int where "AGE_WCOJ_PROGRESSIVE_DENSE_DENOMINATOR = 4"

definition provider_rescan :: "'t AgeWCOJPostingProvider \<Rightarrow> 't AgeWCOJPostingProvider" where
  "provider_rescan p =
     (case provider_kind p of AGE_WCOJ_PROVIDER_PLAN_STREAM \<Rightarrow> plan_stream_rescan p | AGE_WCOJ_PROVIDER_ADJACENCY \<Rightarrow> adjacency_rescan p)"

definition rescan_age_wcoj_providers :: "'t AgeWCOJJoinScanState \<Rightarrow> 't AgeWCOJJoinScanState" where
  "rescan_age_wcoj_providers st = st\<lparr>providers := map provider_rescan (providers st)\<rparr>"

definition count_exact_set :: "nat \<Rightarrow> wcoj_stats \<Rightarrow> wcoj_stats" where
  "count_exact_set candidate_count s = s\<lparr>exact_set_filters := increment_counter (exact_set_filters s),
     exact_set_candidates_tested := add_counter (exact_set_candidates_tested s) (int candidate_count)\<rparr>"

definition count_progressive :: "progressive_event \<Rightarrow> wcoj_stats \<Rightarrow> wcoj_stats" where
  "count_progressive ev s =
     (case ev of
        Probed \<Rightarrow> s\<lparr>progressive_probes := increment_counter (progressive_probes s)\<rparr>
      | Survived i \<Rightarrow> s\<lparr>stage_survivors := (stage_survivors s)[i := increment_counter (stage_survivors s ! i)]\<rparr>
      | Matched \<Rightarrow> s\<lparr>progressive_matches := increment_counter (progressive_matches s)\<rparr>)"

subsection \<open>The exact-set preparation\<close>

definition switch_to_merge :: "string \<Rightarrow> 't AgeWCOJJoinScanState \<Rightarrow> 't AgeWCOJJoinScanState" where
  "switch_to_merge reason st = st\<lparr>actual_engine := AGE_WCOJ_ENGINE_MERGE, fallback_reason := reason\<rparr>"

text \<open>The loop over the stages: \<open>None\<close> as the count stands for the return after a dense overlap.\<close>

fun filter_stages ::
    "'t join_env \<Rightarrow> nat list \<Rightarrow> nat \<Rightarrow> nat \<Rightarrow> nat \<Rightarrow> 't AgeWCOJJoinScanState \<Rightarrow> (nat option \<times> 't AgeWCOJJoinScanState) result" where
  "filter_stages env [] seed_count filter_count candidate_count st = Inr (Some candidate_count, st)"
| "filter_stages env (i # is) seed_count filter_count candidate_count st =
     (if candidate_count = 0 then Inr (Some candidate_count, st)
      else bindE (arr_get (providers st) i) (\<lambda>p.
        if provider_kind p \<noteq> AGE_WCOJ_PROVIDER_ADJACENCY then filter_stages env is seed_count filter_count candidate_count st
        else bindE (arr_get (providers st) (seed_index st)) (\<lambda>seed.
          bindE (build_adjacency_provider_filtered (env_t_len env) (env_qsort_rows env) (env_qsort_gids env) p
                   (Some (take candidate_count (terminals seed))) 0 (count_exact_set candidate_count (counters st))) (\<lambda>(r, p1, s1).
          bindE (if r = AGE_WCOJ_ADJACENCY_BUILD_EMPTY then Inr (0, terminals seed, s1)
                 else intersect_age_wcoj_graphids (terminals seed) candidate_count (terminals p1) (terminal_count p1) s1) (\<lambda>(cc, ts, s2).
          let st1 = st\<lparr>providers := (providers st)[i := p1, seed_index st := seed\<lparr>terminals := ts\<rparr>], counters := s2\<rparr>
          in if filter_count + 1 = 1 \<and> requested_engine st1 = AGE_WCOJ_ENGINE_AUTO \<and>
                int cc * AGE_WCOJ_PROGRESSIVE_DENSE_DENOMINATOR \<ge> int seed_count * AGE_WCOJ_PROGRESSIVE_DENSE_NUMERATOR
             then Inr (None, switch_to_merge ''dense progressive exact-set overlap'' (rescan_age_wcoj_providers st1))
             else filter_stages env is seed_count (filter_count + 1) cc st1)))))"

definition install_candidates :: "nat \<Rightarrow> 't AgeWCOJJoinScanState \<Rightarrow> (bool \<times> 't AgeWCOJJoinScanState) result" where
  "install_candidates n st =
     bindE (arr_get (providers st) (seed_index st)) (\<lambda>seed.
       let seed1 = seed\<lparr>terminal_count := n, terminal_index := 0, has_current := n > 0, exhausted := (n = 0)\<rparr>
       in bindE (if n > 0 then arr_get (terminals seed1) 0 else Inr (current_key seed1)) (\<lambda>k.
            Inr (n > 0, st\<lparr>providers := (providers st)[seed_index st := seed1\<lparr>current_key := k\<rparr>]\<rparr>)))"

definition prepare_age_wcoj_progressive_exact_set ::
    "'t join_env \<Rightarrow> 't AgeWCOJJoinScanState \<Rightarrow> (bool \<times> 't AgeWCOJJoinScanState) result" where
  "prepare_age_wcoj_progressive_exact_set env st =
     (if progressive_setup_done st then Inr (True, st)
      else let st0 = st\<lparr>progressive_setup_done := True\<rparr>
           in bindE (arr_get (providers st0) (seed_index st0)) (\<lambda>seed.
                if provider_kind seed \<noteq> AGE_WCOJ_PROVIDER_ADJACENCY then Inr (True, st0)
                else bindE (build_adjacency_provider_filtered (env_t_len env) (env_qsort_rows env) (env_qsort_gids env) seed None
                              AGE_WCOJ_PROGRESSIVE_MAX_SEED_POSTINGS (counters st0)) (\<lambda>(r, seed1, s1).
                  let st1 = st0\<lparr>providers := (providers st0)[seed_index st0 := seed1], counters := s1\<rparr>
                  in case r of
                       AGE_WCOJ_ADJACENCY_BUILD_OVERSIZE \<Rightarrow>
                         let st2 = rescan_age_wcoj_providers st1
                         in Inr (True, if requested_engine st2 = AGE_WCOJ_ENGINE_AUTO
                                       then switch_to_merge ''progressive seed exceeds exact-set cap'' st2 else st2)
                     | AGE_WCOJ_ADJACENCY_BUILD_EMPTY \<Rightarrow> Inr (False, st1)
                     | AGE_WCOJ_ADJACENCY_BUILD_READY \<Rightarrow>
                         bindE (filter_stages env (tl (source_order st1)) (terminal_count seed1) 0 (terminal_count seed1) st1) (\<lambda>(cc, st2).
                           case cc of
                             None \<Rightarrow> Inr (True, st2)
                           | Some n \<Rightarrow> install_candidates n st2))))"

subsection \<open>Finding the next survivor\<close>

definition align_age_wcoj_progressive ::
    "'t join_env \<Rightarrow> nat \<Rightarrow> 't AgeWCOJJoinScanState \<Rightarrow> (graphid option \<times> 't AgeWCOJJoinScanState) result" where
  "align_age_wcoj_progressive env fuel st =
     bindE (prepare_age_wcoj_progressive_exact_set env st) (\<lambda>(some, st1).
       if \<not> some then Inr (None, st1)
       else if actual_engine st1 \<noteq> AGE_WCOJ_ENGINE_PROGRESSIVE then
         bindE (align_age_wcoj_merge (env_ops env) current_key fuel (providers st1) (counters st1)) (\<lambda>(m, ps, s).
           Inr (m, st1\<lparr>providers := ps, counters := s\<rparr>))
       else bindE (initialize_age_wcoj_providers (env_ops env) (providers st1) (counters st1)) (\<lambda>(found, ps, s).
         if \<not> found then Inr (None, st1\<lparr>providers := ps, counters := s\<rparr>)
         else bindE (progressive_loop (env_ops env) current_key count_progressive (seed_index st1) (tl (source_order st1)) fuel ps s) (\<lambda>(m, ps1, s1).
              Inr (m, st1\<lparr>providers := ps1, counters := s1\<rparr>))))"

text \<open>The products of two counters are \<open>int64\<close>.\<close>

definition wrap64 :: "int \<Rightarrow> int" where "wrap64 i = sint (word_of_int i :: 64 word)"

definition maybe_fallback_from_progressive :: "'t AgeWCOJJoinScanState \<Rightarrow> 't AgeWCOJJoinScanState" where
  "maybe_fallback_from_progressive st =
     (if requested_engine st \<noteq> AGE_WCOJ_ENGINE_AUTO \<or> actual_engine st \<noteq> AGE_WCOJ_ENGINE_PROGRESSIVE \<or>
         progressive_probes (counters st) < AGE_WCOJ_PROGRESSIVE_DENSE_SAMPLE then st
      else if wrap64 (progressive_matches (counters st) * AGE_WCOJ_PROGRESSIVE_DENSE_DENOMINATOR) \<ge>
              wrap64 (progressive_probes (counters st) * AGE_WCOJ_PROGRESSIVE_DENSE_NUMERATOR)
           then switch_to_merge ''dense progressive overlap'' st
           else st)"

definition find_next_age_wcoj_survivor ::
    "'t join_env \<Rightarrow> nat \<Rightarrow> 't AgeWCOJJoinScanState \<Rightarrow> (graphid option \<times> 't AgeWCOJJoinScanState) result" where
  "find_next_age_wcoj_survivor env fuel st0 =
     (let st = maybe_fallback_from_progressive st0
      in case actual_engine st of
           AGE_WCOJ_ENGINE_PROGRESSIVE \<Rightarrow> align_age_wcoj_progressive env fuel st
         | AGE_WCOJ_ENGINE_LEAPFROG \<Rightarrow>
             bindE (align_age_wcoj_leapfrog (env_ops env) current_key fuel (providers st) (counters st)) (\<lambda>(m, ps, s).
               Inr (m, st\<lparr>providers := ps, counters := s\<rparr>))
         | AGE_WCOJ_ENGINE_MERGE \<Rightarrow>
             bindE (align_age_wcoj_merge (env_ops env) current_key fuel (providers st) (counters st)) (\<lambda>(m, ps, s).
               Inr (m, st\<lparr>providers := ps, counters := s\<rparr>))
         | AGE_WCOJ_ENGINE_AUTO \<Rightarrow> Inl (Ereport ''invalid AGE WCOJ execution engine''))"

subsection \<open>The preparation keeps what the providers have in common\<close>

definition fresh :: "'t AgeWCOJPostingProvider \<Rightarrow> bool" where
  "fresh p \<longleftrightarrow> plan_rows p = plan_input p \<and> \<not> has_current p \<and> \<not> built p"

definition reset_to :: "'t AgeWCOJPostingProvider \<Rightarrow> 't AgeWCOJPostingProvider \<Rightarrow> bool" where
  "reset_to p0 p \<longleftrightarrow> p = p0 \<or> provider_kind p0 = AGE_WCOJ_PROVIDER_ADJACENCY \<and> same_input p0 p"

lemma rescan_reset:
  assumes "provider_ok qs qg p0" "fresh p0" "reset_to p0 p"
  shows "provider_ok qs qg (provider_rescan p) \<and> provider_keys (provider_rescan p) = provider_keys p0"
  using assms(1)
proof (cases rule: provider_cases [where t_len = "\<lambda>_. 0"])
  case plan
  then have k: "provider_kind p0 = AGE_WCOJ_PROVIDER_PLAN_STREAM" "p = p0" using assms(3) by (auto simp: plan_ok_def reset_to_def)
  then have "plan_ok (provider_rescan p)" using plan(1) assms(2) by (simp add: provider_rescan_def plan_stream_rescan_def plan_ok_def fresh_def)
  moreover have "intact (provider_rescan p)" using k by (simp add: provider_rescan_def plan_stream_rescan_def intact_def all_rows_def)
  ultimately show ?thesis using k plan assms(2)
    by (simp add: provider_ok_def provider_rescan_def plan_stream_rescan_def provider_keys_def plan_keys_def fresh_def)
next
  case adj
  then have k: "provider_kind p0 = AGE_WCOJ_PROVIDER_ADJACENCY" and u: "unbuilt p0" "within_limits p0" "scan_filters (terminal_scan p0)" "qsorts_ok qs qg" "\<not> built p0"
    using assms(2) by (auto simp: adj_ok_def fresh_def)
  have i: "same_input p0 p" using assms(3) by (auto simp: reset_to_def)
  have "provider_kind p = AGE_WCOJ_PROVIDER_ADJACENCY" "key_attr p = key_attr p0" "terminal_scan p = terminal_scan p0" "plan_input p = plan_rows p0"
    using i k assms(2) by (simp_all add: same_input_def fresh_def)
  with u show ?thesis
    by (simp add: provider_ok_def provider_rescan_def adjacency_rescan_def adj_ok_def unbuilt_def within_limits_def provider_keys_def k adj_keys_def
        postings_def)
qed

lemma rescan_all:
  assumes "list_all2 reset_to ps0 ps" "list_all (provider_ok qs qg) ps0" "list_all fresh ps0"
  shows "narrowed provider_keys (provider_ok qs qg) D ps0 (map provider_rescan ps)"
  using assms unfolding narrowed_def
proof (induction rule: list_all2_induct)
  case (Cons p0 ps0 p ps)
  with rescan_reset [of qs qg p0 p] show ?case by auto
qed simp

text \<open>Everything but the providers, the counters and the engine.\<close>

definition same_setup :: "'t AgeWCOJJoinScanState \<Rightarrow> 't AgeWCOJJoinScanState \<Rightarrow> bool" where
  "same_setup st st' \<longleftrightarrow> source_order st' = source_order st \<and> seed_index st' = seed_index st \<and>
     progressive_setup_done st' = progressive_setup_done st \<and> requested_engine st' = requested_engine st \<and>
     survivor_block st' = survivor_block st \<and> survivor_block_capacity st' = survivor_block_capacity st \<and>
     survivor_input_exhausted st' = survivor_input_exhausted st \<and> survivor_block_index st' = survivor_block_index st \<and>
     scan_exhausted st' = scan_exhausted st"

lemma same_setup_refl [simp]: "same_setup st st"
  by (simp add: same_setup_def)

lemma same_setup_trans [trans]: "same_setup a b \<Longrightarrow> same_setup b c \<Longrightarrow> same_setup a c"
  by (simp add: same_setup_def)

lemma same_setup_updates [simp]:
  "same_setup st (st\<lparr>providers := ps\<rparr>)" "same_setup st (st\<lparr>providers := ps, counters := s\<rparr>)" "same_setup st (switch_to_merge r st)"
  "same_setup st (rescan_age_wcoj_providers st)"
  by (simp_all add: same_setup_def switch_to_merge_def rescan_age_wcoj_providers_def)

text \<open>The invariant of the stage loop: \<open>ps0\<close> are the providers before the preparation and the first \<open>cc\<close>
  entries of the seed's array are the candidates.\<close>

definition stage_inv ::
    "'t join_env \<Rightarrow> 't AgeWCOJPostingProvider list \<Rightarrow> nat \<Rightarrow> nat list \<Rightarrow> nat \<Rightarrow> 't AgeWCOJPostingProvider list \<Rightarrow> bool" where
  "stage_inv env ps0 seed is cc ps \<longleftrightarrow>
     list_all2 reset_to ps0 ps \<and> seed < length ps0 \<and> provider_kind (ps ! seed) = AGE_WCOJ_PROVIDER_ADJACENCY \<and> built (ps ! seed) \<and>
     cc \<le> length (terminals (ps ! seed)) \<and> gid_sorted (take cc (terminals (ps ! seed))) \<and>
     common_keys provider_keys ps0 \<subseteq> set (take cc (terminals (ps ! seed))) \<and> set (take cc (terminals (ps ! seed))) \<subseteq> provider_keys (ps0 ! seed) \<and>
     (\<forall>j < length ps0. j \<noteq> seed \<longrightarrow> env_ok env (ps ! j) \<and> common_keys provider_keys ps0 \<subseteq> provider_keys (ps ! j) \<and>
        provider_keys (ps ! j) \<subseteq> provider_keys (ps0 ! j)) \<and>
     (\<forall>j \<in> set is. j < length ps0 \<and> j \<noteq> seed \<and> ps ! j = ps0 ! j)"

lemma common_at: "i < length ps \<Longrightarrow> common_keys keys ps \<subseteq> keys (ps ! i)"
  by (auto simp: common_keys_def)

lemma build_filtered_law:
  assumes "adj_ok qs qg p" "\<not> built p" "f \<noteq> Some []" "0 \<le> limit"
  obtains (built) r p1 s1 where "build_adjacency_provider_filtered t_len qs qg p f limit s = Inr (r, p1, s1)" "r \<noteq> AGE_WCOJ_ADJACENCY_BUILD_OVERSIZE"
      "adj_ok qs qg p1" "built p1" "same_input p p1" "terminal_index p1 = 0" "adj_keys p1 = postings p f"
      "r = AGE_WCOJ_ADJACENCY_BUILD_READY \<longleftrightarrow> postings p f \<noteq> {}"
  | (oversize) p1 s1 where "build_adjacency_provider_filtered t_len qs qg p f limit s = Inr (AGE_WCOJ_ADJACENCY_BUILD_OVERSIZE, p1, s1)"
      "same_input p p1" "0 < limit"
proof -
  from assms(1,2) have u: "unbuilt p" "within_limits p" "scan_filters (terminal_scan p)" "qsorts_ok qs qg" "provider_kind p = AGE_WCOJ_PROVIDER_ADJACENCY"
    by (simp_all add: adj_ok_def)
  from build_ok [OF u(1-4) assms(3,4), of t_len s] obtain r p1 s1 where
    r: "build_adjacency_provider_filtered t_len qs qg p f limit s = Inr (r, p1, s1)" "build_outcome p f limit r p1" by blast
  show thesis
  proof (cases "r = AGE_WCOJ_ADJACENCY_BUILD_OVERSIZE")
    case True
    with r show thesis by (intro oversize [of p1 s1]) (simp_all add: build_outcome_def)
  next
    case False
    with r(2) have b: "same_input p p1" "built p1" "built_ok p1" "terminal_index p1 = 0" "set (take (terminal_count p1) (terminals p1)) = postings p f"
      "r = AGE_WCOJ_ADJACENCY_BUILD_READY \<longleftrightarrow> postings p f \<noteq> {}" by (simp_all add: build_outcome_def)
    with False r(1) u(4,5) show thesis by (intro built [of r p1 s1]) (simp_all add: adj_ok_def adj_keys_def same_input_def)
  qed
qed

lemma stage_step:
  assumes inv: "stage_inv env ps0 seed (i # is) cc ps" and ok: "list_all (env_ok env) ps0" "list_all fresh ps0"
    and adj: "provider_kind (ps ! i) = AGE_WCOJ_PROVIDER_ADJACENCY" "0 < cc"
  shows "\<exists>r p1 s1 cc' ts s2. build_adjacency_provider_filtered (env_t_len env) (env_qsort_rows env) (env_qsort_gids env) (ps ! i)
      (Some (take cc (terminals (ps ! seed)))) 0 s = Inr (r, p1, s1) \<and>
    (if r = AGE_WCOJ_ADJACENCY_BUILD_EMPTY then Inr (0, terminals (ps ! seed), s1)
     else intersect_age_wcoj_graphids (terminals (ps ! seed)) cc (terminals p1) (terminal_count p1) s1) = Inr (cc', ts, s2) \<and>
    (distinct (i # is) \<longrightarrow> stage_inv env ps0 seed is cc' (ps[i := p1, seed := (ps ! seed)\<lparr>terminals := ts\<rparr>]))"
proof -
  let ?q = "ps ! seed" let ?C = "take cc (terminals ?q)" let ?K = "common_keys provider_keys ps0"
  have I: "list_all2 reset_to ps0 ps" "seed < length ps0" "cc \<le> length (terminals ?q)" "gid_sorted ?C" "?K \<subseteq> set ?C" "set ?C \<subseteq> provider_keys (ps0 ! seed)"
    "i < length ps0" "i \<noteq> seed" "ps ! i = ps0 ! i" and len: "length ps = length ps0"
    using inv by (auto simp: stage_inv_def list_all2_conv_all_nth)
  have pi: "env_ok env (ps ! i)" "fresh (ps ! i)" using ok I(7,9) by (auto simp: list_all_length)
  then have a: "adj_ok (env_qsort_rows env) (env_qsort_gids env) (ps ! i)" "\<not> built (ps ! i)" using adj(1) by (auto simp: provider_ok_def plan_ok_def fresh_def)
  have scan: "scan_filters (terminal_scan (ps ! i))" using a by (simp add: adj_ok_def)
  have keys0: "provider_keys (ps0 ! i) = postings (ps ! i) None" using a adj(1) I(9) by (simp add: provider_keys_def adj_keys_def)
  have "Some ?C \<noteq> Some []" using adj(2) I(3) by auto
  from a this order_refl [of "0 :: int"] show ?thesis
  proof (cases rule: build_filtered_law [where limit = 0 and s = s and t_len = "env_t_len env"])
    case (built r p1 s1)
    let ?P = "postings (ps ! i) (Some ?C)"
    have P: "?P \<subseteq> provider_keys (ps0 ! i)" "?K \<subseteq> ?P"
    proof -
      show "?P \<subseteq> provider_keys (ps0 ! i)" unfolding keys0 using scan by (force simp: postings_def scan_filters_def)
      show "?K \<subseteq> ?P"
      proof
        fix x assume "x \<in> ?K"
        then have "x \<in> postings (ps ! i) None" "x \<in> set ?C" using common_at [OF I(7), of provider_keys] keys0 I(5) by auto
        then show "x \<in> ?P" using scan unfolding postings_def scan_filters_def by blast
      qed
    qed
    have k1: "provider_kind p1 = AGE_WCOJ_PROVIDER_ADJACENCY" using built(3) by (simp add: adj_ok_def)
    then have p1: "env_ok env p1" "provider_keys p1 = ?P" using built by (simp_all add: provider_ok_def provider_keys_def)
    have new: "stage_inv env ps0 seed is cc' (ps[i := p1, seed := ?q\<lparr>terminals := ts\<rparr>])"
      if "cc' \<le> length ts" "gid_sorted (take cc' ts)" "?K \<subseteq> set (take cc' ts)" "set (take cc' ts) \<subseteq> set ?C" "distinct (i # is)" for cc' ts
    proof -
      let ?ps = "ps[i := p1, seed := ?q\<lparr>terminals := ts\<rparr>]"
      have nth: "?ps ! j = (if j = seed then ?q\<lparr>terminals := ts\<rparr> else if j = i then p1 else ps ! j)" if "j < length ps0" for j
        using that I(2,7) len by (simp add: nth_list_update)
      have R: "reset_to (ps0 ! j) (ps ! j)" if "j < length ps0" for j using I(1) that by (simp add: list_all2_conv_all_nth)
      have "reset_to (ps0 ! seed) (?q\<lparr>terminals := ts\<rparr>)"
        using R [OF I(2)] inv by (auto simp: reset_to_def same_input_def stage_inv_def)
      moreover have "reset_to (ps0 ! i) p1" using built(5) adj(1) I(9) by (simp add: reset_to_def)
      ultimately have "reset_to (ps0 ! j) (?ps ! j)" if "j < length ps0" for j
        using R [OF that] unfolding nth [OF that] by simp
      then have "list_all2 reset_to ps0 ?ps" using len by (simp add: list_all2_conv_all_nth)
      moreover have "env_ok env (?ps ! j) \<and> ?K \<subseteq> provider_keys (?ps ! j) \<and> provider_keys (?ps ! j) \<subseteq> provider_keys (ps0 ! j)"
        if "j < length ps0" "j \<noteq> seed" for j
        using inv p1 P that unfolding nth [OF that(1)] by (cases "j = i") (simp_all add: stage_inv_def)
      moreover have "j < length ps0 \<and> j \<noteq> seed \<and> ?ps ! j = ps0 ! j" if "j \<in> set is" for j
      proof -
        have "j < length ps0 \<and> j \<noteq> seed \<and> ps ! j = ps0 ! j" "j \<noteq> i" using inv that \<open>distinct (i # is)\<close> by (auto simp: stage_inv_def)
        then show ?thesis using nth [of j] by simp
      qed
      moreover have "?ps ! seed = ?q\<lparr>terminals := ts\<rparr>" using nth [OF I(2)] by simp
      moreover have "set (take cc' ts) \<subseteq> provider_keys (ps0 ! seed)" using that(4) I(6) by (rule order_trans)
      ultimately show ?thesis using inv that(1-3) unfolding stage_inv_def by simp
    qed
    show ?thesis
    proof (cases "r = AGE_WCOJ_ADJACENCY_BUILD_EMPTY")
      case True
      then have "?P = {}" using built(8) by auto
      with P(2) have "?K \<subseteq> {}" by simp
      with new [of 0 "terminals ?q"] built(1) True show ?thesis by auto
    next
      case False
      have b: "terminal_count p1 \<le> length (terminals p1)" "gid_sorted (take (terminal_count p1) (terminals p1))" "set (take (terminal_count p1) (terminals p1)) = ?P"
        using built(3,4,6,7) by (simp_all add: adj_ok_def built_ok_def adj_keys_def)
      obtain oc ts s2 where x: "intersect_age_wcoj_graphids (terminals ?q) cc (terminals p1) (terminal_count p1) s1 = Inr (oc, ts, s2)"
        "isect_done (terminals ?q) cc (terminals p1) (terminal_count p1) ts oc" by (rule intersect_done [OF I(4,3) b(2,1)])
      note d = isect_done_common [OF x(2) I(3), unfolded b(3)]
      have "oc \<le> length ts" using d by (metis length_take min.cobounded1)
      moreover have "gid_sorted (take oc ts)" "?K \<subseteq> set (take oc ts)" "set (take oc ts) \<subseteq> set ?C"
        using d I(4,5) P(2) by (auto simp: sorted_wrt_filter)
      ultimately show ?thesis using new [of oc ts] built(1) False x(1) by auto
    qed
  qed simp
qed

lemma stage_inv_sub: "stage_inv env ps0 seed is cc ps \<Longrightarrow> set js \<subseteq> set is \<Longrightarrow> stage_inv env ps0 seed js cc ps"
  by (auto simp: stage_inv_def)

definition filtered ::
    "'t join_env \<Rightarrow> 't AgeWCOJPostingProvider list \<Rightarrow> 't AgeWCOJJoinScanState \<Rightarrow>
     (nat option \<times> 't AgeWCOJJoinScanState) result \<Rightarrow> bool" where
  "filtered env ps0 st r \<longleftrightarrow>
     (\<exists>res st'. r = Inr (res, st') \<and> same_setup st st' \<and>
        (case res of
           None \<Rightarrow> narrowed provider_keys (env_ok env) {} ps0 (providers st') \<and> actual_engine st' = AGE_WCOJ_ENGINE_MERGE
         | Some n \<Rightarrow> stage_inv env ps0 (seed_index st) [] n (providers st') \<and> actual_engine st' = actual_engine st))"

lemma filter_stages_law:
  assumes ok: "list_all (env_ok env) ps0" "list_all fresh ps0"
  shows "stage_inv env ps0 (seed_index st) is cc (providers st) \<Longrightarrow> distinct is \<Longrightarrow> filtered env ps0 st (filter_stages env is sc fc cc st)"
proof (induction "is" arbitrary: fc cc st)
  case Nil
  then show ?case by (simp add: filtered_def)
next
  case (Cons i "is")
  let ?ps = "providers st" let ?seed = "seed_index st"
  note inv = Cons.prems(1)
  have b: "i < length ?ps" "?seed < length ?ps" using inv by (auto simp: stage_inv_def list_all2_conv_all_nth)
  show ?case
  proof (cases "cc = 0")
    case True
    with stage_inv_sub [OF inv, of "[]"] show ?thesis by (simp add: filtered_def)
  next
    case cc: False
    show ?thesis
    proof (cases "provider_kind (?ps ! i) = AGE_WCOJ_PROVIDER_ADJACENCY")
      case False
      have "filtered env ps0 st (filter_stages env is sc fc cc st)"
        by (rule Cons.IH [OF stage_inv_sub [OF inv]]) (use Cons.prems(2) in auto)
      with cc False b show ?thesis by simp
    next
      case True
      obtain r p1 s1 cc' ts s2 where x: "build_adjacency_provider_filtered (env_t_len env) (env_qsort_rows env) (env_qsort_gids env) (?ps ! i)
          (Some (take cc (terminals (?ps ! ?seed)))) 0 (count_exact_set cc (counters st)) = Inr (r, p1, s1)"
        "(if r = AGE_WCOJ_ADJACENCY_BUILD_EMPTY then Inr (0, terminals (?ps ! ?seed), s1)
          else intersect_age_wcoj_graphids (terminals (?ps ! ?seed)) cc (terminals p1) (terminal_count p1) s1) = Inr (cc', ts, s2)"
        "distinct (i # is) \<longrightarrow> stage_inv env ps0 ?seed is cc' (?ps[i := p1, ?seed := (?ps ! ?seed)\<lparr>terminals := ts\<rparr>])"
        using stage_step [OF inv ok True, of "count_exact_set cc (counters st)"] cc by blast
      define st1 where "st1 = st\<lparr>providers := ?ps[i := p1, ?seed := (?ps ! ?seed)\<lparr>terminals := ts\<rparr>], counters := s2\<rparr>"
      have st1: "same_setup st st1" "seed_index st1 = ?seed" "actual_engine st1 = actual_engine st"
        "requested_engine st1 = requested_engine st" by (simp_all add: st1_def)
      have inv1: "stage_inv env ps0 (seed_index st1) is cc' (providers st1)" using x(3) Cons.prems(2) by (simp add: st1_def)
      let ?dense = "fc + 1 = 1 \<and> requested_engine st1 = AGE_WCOJ_ENGINE_AUTO \<and>
        int cc' * AGE_WCOJ_PROGRESSIVE_DENSE_DENOMINATOR \<ge> int sc * AGE_WCOJ_PROGRESSIVE_DENSE_NUMERATOR"
      have step: "filter_stages env (i # is) sc fc cc st = (if ?dense
          then Inr (None, switch_to_merge ''dense progressive exact-set overlap'' (rescan_age_wcoj_providers st1))
          else filter_stages env is sc (fc + 1) cc' st1)"
        using cc True b x(1,2) unfolding filter_stages.simps Let_def by (simp add: st1_def [symmetric] st1(4))
      show ?thesis
      proof (cases ?dense)
        case True
        have "list_all2 reset_to ps0 (providers st1)" using inv1 by (simp add: stage_inv_def)
        from rescan_all [OF this ok] same_setup_trans [OF st1(1)] show ?thesis unfolding step if_P [OF True]
          by (simp add: filtered_def) (simp add: switch_to_merge_def rescan_age_wcoj_providers_def same_setup_def)
      next
        case False
        have "filtered env ps0 st1 (filter_stages env is sc (fc + 1) cc' st1)" using Cons.prems(2) by (intro Cons.IH [OF inv1]) simp
        then show ?thesis unfolding step if_not_P [OF False] filtered_def st1(2,3) using same_setup_trans [OF st1(1)] by blast
      qed
    qed
  qed
qed

definition prepared ::
    "'t join_env \<Rightarrow> 't AgeWCOJJoinScanState \<Rightarrow> (bool \<times> 't AgeWCOJJoinScanState) result \<Rightarrow> bool" where
  "prepared env st r \<longleftrightarrow>
     (\<exists>b st'. r = Inr (b, st') \<and> same_setup (st\<lparr>progressive_setup_done := True\<rparr>) st' \<and> actual_engine st' \<noteq> AGE_WCOJ_ENGINE_AUTO \<and>
        narrowed provider_keys (env_ok env) (- common_keys provider_keys (providers st)) (providers st) (providers st') \<and>
        (\<not> b \<longrightarrow> common_keys provider_keys (providers st) = {}))"

lemma preparedI:
  assumes "r = Inr (b, st')" "same_setup (st\<lparr>progressive_setup_done := True\<rparr>) st'" "actual_engine st' \<noteq> AGE_WCOJ_ENGINE_AUTO"
    and "narrowed provider_keys (env_ok env) (- common_keys provider_keys (providers st)) (providers st) (providers st')"
    and "\<not> b \<Longrightarrow> common_keys provider_keys (providers st) = {}"
  shows "prepared env st r"
  unfolding prepared_def using assms by blast

lemma narrowed_more: "narrowed keys ok D ps ps' \<Longrightarrow> D \<subseteq> D' \<Longrightarrow> narrowed keys ok D' ps ps'"
  unfolding narrowed_def by (erule list_all2_mono) auto

text \<open>The end of the preparation: the candidates become the keys of the seed.\<close>

lemma seed_installed:
  assumes inv: "stage_inv env ps0 seed [] n ps" and q: "qsorts_ok (env_qsort_rows env) (env_qsort_gids env)"
    and seed: "seed1 = (ps ! seed)\<lparr>terminal_count := n, terminal_index := 0, has_current := h, exhausted := (n = 0), current_key := k\<rparr>"
  shows "narrowed provider_keys (env_ok env) (- common_keys provider_keys ps0) ps0 (ps[seed := seed1])"
proof -
  let ?K = "common_keys provider_keys ps0"
  have I: "length ps = length ps0" "seed < length ps0" using inv by (auto simp: stage_inv_def list_all2_conv_all_nth)
  have "adj_ok (env_qsort_rows env) (env_qsort_gids env) seed1" "adj_keys seed1 = set (take n (terminals (ps ! seed)))" "provider_kind seed1 = AGE_WCOJ_PROVIDER_ADJACENCY"
    using inv q unfolding seed by (simp_all add: stage_inv_def adj_ok_def built_ok_def adj_keys_def)
  then have s: "env_ok env seed1" "provider_keys seed1 = set (take n (terminals (ps ! seed)))" by (simp_all add: provider_ok_def provider_keys_def)
  have "env_ok env (ps[seed := seed1] ! j) \<and> provider_keys (ps0 ! j) - - ?K \<subseteq> provider_keys (ps[seed := seed1] ! j) \<and>
      provider_keys (ps[seed := seed1] ! j) \<subseteq> provider_keys (ps0 ! j)" if "j < length ps0" for j
    using inv that s I by (cases "j = seed") (auto simp: stage_inv_def)
  then show ?thesis using I(1) by (simp add: narrowed_def list_all2_conv_all_nth)
qed

lemma install_candidates_total:
  assumes "seed_index st < length (providers st)" "0 < n \<Longrightarrow> terminals (providers st ! seed_index st) \<noteq> []"
  shows "\<exists>k. install_candidates n st = Inr (n > 0, st\<lparr>providers := (providers st)[seed_index st := (providers st ! seed_index st)
    \<lparr>terminal_count := n, terminal_index := 0, has_current := n > 0, exhausted := (n = 0), current_key := k\<rparr>]\<rparr>)"
proof (cases "n > 0")
  case True
  with assms obtain t ts where "terminals (providers st ! seed_index st) = t # ts" by (auto simp: neq_Nil_conv)
  with True assms(1) show ?thesis by (auto simp: install_candidates_def)
next
  case False
  with assms(1) show ?thesis
    by (intro exI [of _ "current_key (providers st ! seed_index st)"]) (simp add: install_candidates_def)
qed

lemma stage_start:
  assumes ok: "list_all (env_ok env) ps" and q: "adj_ok (env_qsort_rows env) (env_qsort_gids env) q1" "built q1" "terminal_index q1 = 0"
    and keys: "provider_keys q1 = provider_keys (ps ! i)" and reset: "list_all2 reset_to ps (ps[i := q1])"
    and ord: "i < length ps" "i \<notin> set stages" "\<forall>j \<in> set stages. j < length ps"
  shows "stage_inv env ps i stages (terminal_count q1) (ps[i := q1])"
proof -
  have at: "ps[i := q1] ! i = q1" using ord(1) by simp
  have other: "ps[i := q1] ! j = ps ! j" if "j \<noteq> i" for j using that by simp
  have k: "provider_kind q1 = AGE_WCOJ_PROVIDER_ADJACENCY" using q(1) by (simp add: adj_ok_def)
  have b: "terminal_count q1 \<le> length (terminals q1)" "gid_sorted (take (terminal_count q1) (terminals q1))" using q(1,2) by (simp_all add: adj_ok_def built_ok_def)
  have s: "set (take (terminal_count q1) (terminals q1)) = provider_keys (ps ! i)" unfolding keys [symmetric] using q(2,3) k by (simp add: provider_keys_def adj_keys_def)
  have "env_ok env (ps ! j) \<and> common_keys provider_keys ps \<subseteq> provider_keys (ps ! j)" if "j < length ps" for j
    using ok common_at [OF that] that by (simp add: list_all_length)
  then have "\<forall>j < length ps. j \<noteq> i \<longrightarrow> env_ok env (ps[i := q1] ! j) \<and> common_keys provider_keys ps \<subseteq> provider_keys (ps[i := q1] ! j) \<and>
      provider_keys (ps[i := q1] ! j) \<subseteq> provider_keys (ps ! j)" by simp
  moreover have "\<forall>j \<in> set stages. j < length ps \<and> j \<noteq> i \<and> ps[i := q1] ! j = ps ! j" using ord(2,3) by (auto intro!: other)
  ultimately show ?thesis using reset ord(1) k q(2) b s common_at [OF ord(1), of provider_keys] unfolding stage_inv_def at by simp
qed

lemma prepare_law:
  assumes ok: "list_all (env_ok env) (providers st)" and e: "actual_engine st \<noteq> AGE_WCOJ_ENGINE_AUTO"
    and fr: "\<not> progressive_setup_done st \<longrightarrow> list_all fresh (providers st)"
    and ord: "seed_index st < length (providers st)" "distinct (source_order st)" "source_order st = seed_index st # stages" "\<forall>i \<in> set stages. i < length (providers st)"
  shows "prepared env st (prepare_age_wcoj_progressive_exact_set env st)"
proof (cases "progressive_setup_done st")
  case True
  with e provider.unmoved [OF ok] show ?thesis by (intro preparedI [of _ True st]) (simp_all add: prepare_age_wcoj_progressive_exact_set_def same_setup_def)
next
  case False
  let ?ps = "providers st" let ?i = "seed_index st" let ?q = "?ps ! ?i" let ?K = "common_keys provider_keys ?ps"
  define st0 where "st0 = st\<lparr>progressive_setup_done := True\<rparr>"
  have st0: "providers st0 = ?ps" "seed_index st0 = ?i" "counters st0 = counters st" "actual_engine st0 = actual_engine st" "source_order st0 = source_order st"
    by (simp_all add: st0_def)
  have fr: "list_all fresh ?ps" using fr False by simp
  note P = prepare_age_wcoj_progressive_exact_set_def [of env st, unfolded if_not_P [OF False] st0_def [symmetric] Let_def st0]
  have qq: "env_ok env ?q" "fresh ?q" using ok fr ord(1) by (simp_all add: list_all_length)
  show ?thesis
  proof (cases "provider_kind ?q = AGE_WCOJ_PROVIDER_ADJACENCY")
    case kind: False
    with e provider.unmoved [OF ok] ord(1) show ?thesis unfolding P by (intro preparedI [of _ True st0]) (simp_all add: st0 st0_def [symmetric])
  next
    case kind: True
    then have a: "adj_ok (env_qsort_rows env) (env_qsort_gids env) ?q" "\<not> built ?q" using qq by (auto simp: provider_ok_def plan_ok_def fresh_def)
    have keys: "provider_keys ?q = postings ?q None" using a kind by (simp add: provider_keys_def adj_keys_def)
    have reset: "list_all2 reset_to ?ps (?ps[?i := q1])" if "same_input ?q q1" for q1
    proof -
      have "reset_to (?ps ! j) (?ps[?i := q1] ! j)" if "j < length ?ps" for j using \<open>same_input ?q q1\<close> kind that by (cases "j = ?i") (simp_all add: reset_to_def)
      then show ?thesis by (simp add: list_all2_conv_all_nth)
    qed
    have "(None :: graphid list option) \<noteq> Some []" "0 \<le> AGE_WCOJ_PROGRESSIVE_MAX_SEED_POSTINGS" by (simp_all add: AGE_WCOJ_PROGRESSIVE_MAX_SEED_POSTINGS_def)
    from a this show ?thesis
    proof (cases rule: build_filtered_law [where s = "counters st" and t_len = "env_t_len env"])
      case (oversize q1 s1)
      let ?st1 = "st0\<lparr>providers := ?ps[?i := q1], counters := s1\<rparr>"
      let ?st2 = "rescan_age_wcoj_providers ?st1"
      let ?st3 = "if requested_engine ?st2 = AGE_WCOJ_ENGINE_AUTO then switch_to_merge ''progressive seed exceeds exact-set cap'' ?st2 else ?st2"
      have "providers ?st3 = map provider_rescan (?ps[?i := q1])" "actual_engine ?st3 \<noteq> AGE_WCOJ_ENGINE_AUTO" "same_setup st0 ?st3"
        using e st0(4) by (simp_all add: switch_to_merge_def rescan_age_wcoj_providers_def same_setup_def)
      with rescan_all [OF reset [OF oversize(2)] ok fr] oversize(1) kind ord(1) show ?thesis unfolding P
        by (intro preparedI [of _ True ?st3]) (simp_all add: st0_def [symmetric])
    next
      case (built r q1 s1)
      define st1 where "st1 = st0\<lparr>providers := ?ps[?i := q1], counters := s1\<rparr>"
      have st1: "same_setup st0 st1" "actual_engine st1 = actual_engine st" "seed_index st1 = ?i" "source_order st1 = source_order st"
        "providers st1 = ?ps[?i := q1]" by (simp_all add: st1_def st0)
      have k1: "provider_kind q1 = AGE_WCOJ_PROVIDER_ADJACENCY" using built(3) by (simp add: adj_ok_def)
      have q1: "env_ok env q1" "provider_keys q1 = provider_keys ?q" using built(3,7) k1 by (simp_all add: provider_ok_def provider_keys_def [of q1] keys)
      show ?thesis
      proof (cases "r = AGE_WCOJ_ADJACENCY_BUILD_READY")
        case False
        then have r: "r = AGE_WCOJ_ADJACENCY_BUILD_EMPTY" using built(2) by (cases r) simp_all
        have "provider_keys ?q = {}" using False built(8) keys by simp
        then have "?K = {}" using common_at [OF ord(1), of provider_keys] by simp
        moreover have "narrowed provider_keys (env_ok env) (- ?K) ?ps (?ps[?i := q1])"
          by (rule provider.narrowed_update [OF ok q1(1)]) (use q1(2) in auto)
        ultimately show ?thesis using built(1) r kind ord(1) e st1 unfolding P
          by (intro preparedI [of _ False st1]) (simp_all add: st1_def [symmetric] st0_def [symmetric])
      next
        case True
        have "stage_inv env ?ps (seed_index st1) stages (terminal_count q1) (providers st1)"
          unfolding st1(3,5) using reset [OF built(5)] ord built(3,4,6) q1(2) by (intro stage_start [OF ok]) auto
        from filter_stages_law [OF ok fr this] ord(2,3) have "filtered env ?ps st1 (filter_stages env stages (terminal_count q1) 0 (terminal_count q1) st1)" by simp
        then obtain res st2 where f: "filter_stages env stages (terminal_count q1) 0 (terminal_count q1) st1 = Inr (res, st2)" "same_setup st1 st2"
          "case res of None \<Rightarrow> narrowed provider_keys (env_ok env) {} ?ps (providers st2) \<and> actual_engine st2 = AGE_WCOJ_ENGINE_MERGE
           | Some n \<Rightarrow> stage_inv env ?ps (seed_index st1) [] n (providers st2) \<and> actual_engine st2 = actual_engine st1"
          unfolding filtered_def by blast
        show ?thesis
        proof (cases res)
          case None
          then have n: "narrowed provider_keys (env_ok env) (- ?K) ?ps (providers st2)" "actual_engine st2 \<noteq> AGE_WCOJ_ENGINE_AUTO"
            using f(3) by (auto intro: narrowed_more)
          with None f(1) same_setup_trans [OF st1(1) f(2)] kind ord(1,3) built(1) True show ?thesis unfolding P
            by (intro preparedI [of _ True st2]) (simp_all add: st1_def [symmetric] st0_def [symmetric] st0(5))
        next
          case (Some n)
          let ?s = "providers st2 ! ?i"
          have inv: "stage_inv env ?ps ?i [] n (providers st2)" "actual_engine st2 = actual_engine st" using f(3) Some st1(2,3) by simp_all
          have b: "?i < length (providers st2)" "n \<le> length (terminals ?s)" "?K \<subseteq> set (take n (terminals ?s))"
            using inv(1) by (auto simp: stage_inv_def list_all2_conv_all_nth)
          have i2: "seed_index st2 = ?i" using f(2) st1(3) by (simp add: same_setup_def)
          have z: "n = 0 \<Longrightarrow> ?K = {}" using b(3) by simp
          have qo: "qsorts_ok (env_qsort_rows env) (env_qsort_gids env)" using a(1) by (simp add: adj_ok_def)
          have "0 < n \<Longrightarrow> terminals ?s \<noteq> []" using b(2) by auto
          then obtain k where "install_candidates n st2 = Inr (n > 0, st2\<lparr>providers := (providers st2)[?i :=
              ?s\<lparr>terminal_count := n, terminal_index := 0, has_current := n > 0, exhausted := (n = 0), current_key := k\<rparr>]\<rparr>)"
            using install_candidates_total [of st2 n] b(1) i2 by auto
          moreover define seed1 where "seed1 = ?s\<lparr>terminal_count := n, terminal_index := 0, has_current := n > 0, exhausted := (n = 0), current_key := k\<rparr>"
          ultimately have "prepare_age_wcoj_progressive_exact_set env st = Inr (n > 0, st2\<lparr>providers := (providers st2)[?i := seed1]\<rparr>)"
            unfolding P using built(1) True f(1) st1(4) ord(1,3) kind Some by (simp add: st1_def [symmetric] st0(5))
          moreover note seed_installed [OF inv(1) qo seed1_def]
          moreover have "same_setup st0 (st2\<lparr>providers := (providers st2)[?i := seed1]\<rparr>)"
            by (rule same_setup_trans [OF same_setup_trans [OF st1(1) f(2)]]) simp
          ultimately show ?thesis using e inv(2) z
            by (intro preparedI [of _ "n > 0" "st2\<lparr>providers := (providers st2)[?i := seed1]\<rparr>"]) (simp_all add: st0_def [symmetric])
        qed
      qed
    qed
  qed
qed

subsection \<open>Finding a survivor\<close>

definition state_ok :: "'t join_env \<Rightarrow> 't AgeWCOJJoinScanState \<Rightarrow> bool" where
  "state_ok env st \<longleftrightarrow> providers st \<noteq> [] \<and> list_all (env_ok env) (providers st) \<and>
     distinct (source_order st) \<and> set (source_order st) = {..<length (providers st)} \<and> hd (source_order st) = seed_index st \<and>
     actual_engine st \<noteq> AGE_WCOJ_ENGINE_AUTO \<and> (\<not> progressive_setup_done st \<and> actual_engine st = AGE_WCOJ_ENGINE_PROGRESSIVE \<longrightarrow> list_all fresh (providers st))"

abbreviation survivors :: "'t AgeWCOJJoinScanState \<Rightarrow> graphid set" where
  "survivors st \<equiv> common_keys provider_keys (providers st)"

definition same_block :: "'t AgeWCOJJoinScanState \<Rightarrow> 't AgeWCOJJoinScanState \<Rightarrow> bool" where
  "same_block st st' \<longleftrightarrow> survivor_block st' = survivor_block st \<and> survivor_block_capacity st' = survivor_block_capacity st \<and>
     survivor_input_exhausted st' = survivor_input_exhausted st \<and> survivor_block_index st' = survivor_block_index st \<and>
     scan_exhausted st' = scan_exhausted st"

text \<open>What a search for a survivor returns.\<close>

definition searched :: "'t join_env \<Rightarrow> 't AgeWCOJJoinScanState \<Rightarrow> (graphid option \<times> 't AgeWCOJJoinScanState) result \<Rightarrow> bool" where
  "searched env st r \<longleftrightarrow>
     (\<exists>m st'. r = Inr (m, st') \<and> state_ok env st' \<and> survivors st' = survivors st \<and> same_block st st' \<and>
        keys_total provider_keys (providers st') \<le> keys_total provider_keys (providers st) \<and>
        (case m of
           None \<Rightarrow> survivors st = {}
         | Some k \<Rightarrow> least_gid k (survivors st) \<and> (\<forall>p \<in> set (providers st'). has_current p \<and> current_key p = k \<and> least_gid k (provider_keys p))))"

lemma order_cases:
  assumes "state_ok env st"
  obtains "source_order st = seed_index st # tl (source_order st)"
  using assms by (cases "source_order st") (auto simp: state_ok_def)

lemma aligned_searched:
  assumes "provider.aligned_result (env_qsort_rows env) (env_qsort_gids env) (providers st) r" "state_ok env st"
    and "progressive_setup_done st \<or> actual_engine st \<noteq> AGE_WCOJ_ENGINE_PROGRESSIVE"
  shows "searched env st (bindE r (\<lambda>(m, ps, s). Inr (m, st\<lparr>providers := ps, counters := s\<rparr>)))"
proof -
  from assms(1) obtain m ps' s' where r: "r = Inr (m, ps', s')" "length ps' = length (providers st)" "list_all (env_ok env) ps'"
    "common_keys provider_keys ps' = survivors st" "keys_total provider_keys ps' \<le> keys_total provider_keys (providers st)"
    "case m of None \<Rightarrow> survivors st = {} | Some k \<Rightarrow> least_gid k (survivors st) \<and>
       provider.ready (env_qsort_rows env) (env_qsort_gids env) ps' \<and> (\<forall>p \<in> set ps'. current_key p = k)"
    unfolding provider.aligned_result_def by blast
  let ?st = "st\<lparr>providers := ps', counters := s'\<rparr>"
  have ok: "state_ok env ?st" using assms(2,3) r(2,3) unfolding state_ok_def by (cases ps') auto
  have sb: "same_block st ?st" by (simp add: same_block_def)
  have m: "case m of None \<Rightarrow> survivors st = {}
      | Some k \<Rightarrow> least_gid k (survivors st) \<and> (\<forall>p \<in> set ps'. has_current p \<and> current_key p = k \<and> least_gid k (provider_keys p))"
    using r(6) by (auto simp: provider.ready_def split: option.splits)
  have "searched env st (Inr (m, ?st))" unfolding searched_def
    by (rule exI [of _ m], rule exI [of _ ?st]) (use m in \<open>simp add: ok sb r(4,5) cong: option.case_cong\<close>)
  then show ?thesis by (simp add: r(1))
qed

lemma searched_cong:
  assumes "searched env st1 r" "survivors st1 = survivors st" "same_block st st1"
    and "keys_total provider_keys (providers st1) \<le> keys_total provider_keys (providers st)"
  shows "searched env st r"
  using assms unfolding searched_def same_block_def by (force intro: order_trans cong: option.case_cong)

lemma progressive_searches:
  assumes ok: "state_ok env st" and e: "actual_engine st = AGE_WCOJ_ENGINE_PROGRESSIVE" and fuel: "keys_total provider_keys (providers st) < fuel"
  shows "searched env st (align_age_wcoj_progressive env fuel st)"
proof -
  from ok obtain stages where ord: "source_order st = seed_index st # stages" by (rule order_cases)
  have S: "list_all (env_ok env) (providers st)" "distinct (source_order st)" "set (source_order st) = {..<length (providers st)}" "providers st \<noteq> []"
    "\<not> progressive_setup_done st \<longrightarrow> list_all fresh (providers st)" using ok e by (auto simp: state_ok_def)
  have b: "seed_index st < length (providers st)" "\<forall>i \<in> set stages. i < length (providers st)" using S(3) ord by auto
  have "actual_engine st \<noteq> AGE_WCOJ_ENGINE_AUTO" using e by simp
  from prepare_law [OF S(1) this S(5) b(1) S(2) ord b(2)] obtain some st1 where
    p: "prepare_age_wcoj_progressive_exact_set env st = Inr (some, st1)" "same_setup (st\<lparr>progressive_setup_done := True\<rparr>) st1"
      "actual_engine st1 \<noteq> AGE_WCOJ_ENGINE_AUTO" "narrowed provider_keys (env_ok env) (- survivors st) (providers st) (providers st1)"
      "\<not> some \<longrightarrow> survivors st = {}" unfolding prepared_def by blast
  note n = provider.narrowed_ok [OF p(4)]
  have f1: "source_order st1 = source_order st" "seed_index st1 = seed_index st" "progressive_setup_done st1" "same_block st st1"
    using p(2) by (simp_all add: same_setup_def same_block_def)
  have surv: "survivors st1 = survivors st" by (rule narrowed_common [OF p(4)]) simp
  have ok1: "state_ok env st1" using ok n f1 p(3) unfolding state_ok_def by (cases "providers st1") auto
  have fuel1: "keys_total provider_keys (providers st1) < fuel" using provider.narrowed_total [OF p(4) S(1)] fuel by simp
  have ne: "providers st1 \<noteq> []" using n S(4) by auto
  have "searched env st1 (align_age_wcoj_progressive env fuel st)"
  proof (cases some)
    case False
    with p(1,5) surv ok1 show ?thesis by (simp add: align_age_wcoj_progressive_def searched_def same_block_def)
  next
    case True
    show ?thesis
    proof (cases "actual_engine st1 = AGE_WCOJ_ENGINE_PROGRESSIVE")
      case False
      have "provider.aligned_result (env_qsort_rows env) (env_qsort_gids env) (providers st1)
          (align_age_wcoj_merge (env_ops env) current_key fuel (providers st1) (counters st1))"
        using n ne fuel1 by (intro provider.merge_aligns) auto
      from aligned_searched [OF this ok1] False True p(1) show ?thesis by (simp add: align_age_wcoj_progressive_def)
    next
      case e1: True
      define go where "go ps s = progressive_loop (env_ops env) current_key count_progressive (seed_index st1) (tl (source_order st1)) fuel ps s" for ps s
      have set1: "distinct (seed_index st1 # tl (source_order st1))" "set (seed_index st1 # tl (source_order st1)) = {..<length (providers st1)}"
        using ord S(2,3) f1(1,2) n by auto
      have "provider.aligned_result (env_qsort_rows env) (env_qsort_gids env) (providers st1)
          (bindE (initialize_age_wcoj_providers (env_ops env) (providers st1) (counters st1)) (\<lambda>(found, ps1, s1). if \<not> found then Inr (None, ps1, s1) else go ps1 s1))"
      proof (rule provider.initialize_then)
        show "list_all (env_ok env) (providers st1)" using n by simp
        show "provider.aligned_result (env_qsort_rows env) (env_qsort_gids env) ps (go ps s)"
          if "provider.ready (env_qsort_rows env) (env_qsort_gids env) ps" "length ps = length (providers st1)"
            "keys_total provider_keys ps \<le> keys_total provider_keys (providers st1)" for ps s
          unfolding go_def using set1 that fuel1 by (intro provider.progressive_loop_law) simp_all
      qed (fact ne)
      from aligned_searched [OF this ok1] f1(3) have "searched env st1 (bindE (bindE (initialize_age_wcoj_providers (env_ops env) (providers st1) (counters st1))
          (\<lambda>(found, ps1, s1). if \<not> found then Inr (None, ps1, s1) else go ps1 s1)) (\<lambda>(m, ps, s). Inr (m, st1\<lparr>providers := ps, counters := s\<rparr>)))" by simp
      also have "bindE (bindE (initialize_age_wcoj_providers (env_ops env) (providers st1) (counters st1))
          (\<lambda>(found, ps1, s1). if \<not> found then Inr (None, ps1, s1) else go ps1 s1)) (\<lambda>(m, ps, s). Inr (m, st1\<lparr>providers := ps, counters := s\<rparr>)) =
        align_age_wcoj_progressive env fuel st"
        unfolding align_age_wcoj_progressive_def p(1) go_def bindE_simps prod.case using True e1
        by (cases "initialize_age_wcoj_providers (env_ops env) (providers st1) (counters st1)") (simp_all split: prod.split)
      finally show ?thesis .
    qed
  qed
  then show ?thesis using surv f1(4) provider.narrowed_total [OF p(4) S(1)] by (rule searched_cong)
qed

lemma fallback_keeps:
  assumes "state_ok env st"
  shows "state_ok env (maybe_fallback_from_progressive st)" "providers (maybe_fallback_from_progressive st) = providers st"
    "same_block st (maybe_fallback_from_progressive st)"
  using assms by (auto simp: maybe_fallback_from_progressive_def switch_to_merge_def state_ok_def same_block_def)

lemma find_next_law:
  assumes "state_ok env st" "keys_total provider_keys (providers st) < fuel"
  shows "searched env st (find_next_age_wcoj_survivor env fuel st)"
proof -
  define st1 where "st1 = maybe_fallback_from_progressive st"
  have st1: "state_ok env st1" "providers st1 = providers st" "same_block st st1" using fallback_keeps [OF assms(1)] by (simp_all add: st1_def)
  have ps: "list_all (env_ok env) (providers st1)" "providers st1 \<noteq> []" "keys_total provider_keys (providers st1) < fuel"
    using st1(1,2) assms(2) by (simp_all add: state_ok_def)
  note F = find_next_age_wcoj_survivor_def [of env fuel st, unfolded st1_def [symmetric] Let_def]
  have "searched env st1 (find_next_age_wcoj_survivor env fuel st)"
  proof (cases "actual_engine st1")
    case AGE_WCOJ_ENGINE_AUTO
    with st1(1) show ?thesis by (simp add: state_ok_def)
  next
    case AGE_WCOJ_ENGINE_PROGRESSIVE
    with progressive_searches [OF st1(1) this ps(3)] show ?thesis by (simp add: F)
  next
    case AGE_WCOJ_ENGINE_LEAPFROG
    with aligned_searched [OF provider.leapfrog_aligns [OF ps, where t_len = "env_t_len env" and s = "counters st1"] st1(1)] show ?thesis by (simp add: F)
  next
    case AGE_WCOJ_ENGINE_MERGE
    with aligned_searched [OF provider.merge_aligns [OF ps, where t_len = "env_t_len env" and s = "counters st1"] st1(1)] show ?thesis by (simp add: F)
  qed
  then show ?thesis by (rule searched_cong) (simp_all add: st1(2,3))
qed

end
