(* ===== verification/Wcoj_Frame.thy ===== *)
theory Wcoj_Frame
  imports Wcoj_Join
begin

text \<open>
  What a search for a survivor leaves alone. The locale \<open>posting_source\<close> states that the cursor operations of a
  provider do not change some part \<open>src\<close> of it, and every engine of \<open>Wcoj_Align\<close> then keeps that part of every
  provider, in order. It is interpreted on the dispatching operations, where the part is the kind of the
  provider, its child plan and the groups that are buffered so far.
\<close>

locale posting_source =
  fixes ops :: "('p, 's) AgeWCOJPostingProviderOps"
    and src :: "'p \<Rightarrow> 'c"
  assumes first_src: "op_first_distinct ops p s = Inr (b, p', s') \<Longrightarrow> src p' = src p"
    and next_src: "op_next_distinct ops p s = Inr (b, p', s') \<Longrightarrow> src p' = src p"
    and seek_src: "op_seek_ge ops p t s = Inr (b, p', s') \<Longrightarrow> src p' = src p"
begin

lemma initialize_src: "initialize_age_wcoj_providers ops ps s = Inr (b, ps', s') \<Longrightarrow> map src ps' = map src ps"
proof (induction ps arbitrary: s b ps')
  case (Cons p ps)
  from Cons.prems obtain found p1 s1 where r: "op_first_distinct ops p s = Inr (found, p1, s1)" by (auto simp: bindE_eq_Inr)
  with Cons.prems Cons.IH first_src [OF r] show ?case by (cases found) (auto simp: bindE_eq_Inr)
qed simp

lemma leapfrog_round_src: "leapfrog_round ops key m ps s = Inr (b, al, ps', s') \<Longrightarrow> map src ps' = map src ps"
proof (induction ps arbitrary: s b al ps')
  case (Cons p ps)
  from Cons.prems obtain found p1 s1 where r: "(if sint (key p) < sint m then op_seek_ge ops p m s else Inr (True, p, s)) = Inr (found, p1, s1)"
    by (auto simp: bindE_eq_Inr)
  then have "src p1 = src p" by (auto dest: seek_src split: if_splits)
  with Cons.prems Cons.IH r show ?case by (cases found) (auto simp: bindE_eq_Inr)
qed simp

lemma leapfrog_loop_src: "leapfrog_loop ops key fuel ps s = Inr (m, ps', s') \<Longrightarrow> map src ps' = map src ps"
  by (induction fuel arbitrary: ps s) (auto simp: leapfrog_loop.simps bindE_eq_Inr dest: leapfrog_round_src split: if_splits)

lemma merge_round_src: "merge_round ops key m ps s = Inr (b, ps', s') \<Longrightarrow> map src ps' = map src ps"
proof (induction ps arbitrary: s b ps')
  case (Cons p ps)
  from Cons.prems obtain found p1 s1 where r: "(if key p = m then op_next_distinct ops p s else Inr (True, p, s)) = Inr (found, p1, s1)"
    by (auto simp: bindE_eq_Inr)
  then have "src p1 = src p" by (auto dest: next_src split: if_splits)
  with Cons.prems Cons.IH r show ?case by (cases found) (auto simp: bindE_eq_Inr)
qed simp

lemma merge_loop_src: "merge_loop ops key fuel ps s = Inr (m, ps', s') \<Longrightarrow> map src ps' = map src ps"
  by (induction fuel arbitrary: ps s) (auto simp: merge_loop.simps bindE_eq_Inr dest: merge_round_src split: if_splits)

lemma update_src: "arr_get ps i = Inr p \<Longrightarrow> src p1 = src p \<Longrightarrow> map src (ps[i := p1]) = map src ps"
  by (auto simp: arr_get_def map_update split: if_splits) (metis list_update_id map_update)

lemma probe_stages_src: "probe_stages ops key tick seed c stage is ps s = Inr (r, ps', s') \<Longrightarrow> map src ps' = map src ps"
proof (induction "is" arbitrary: stage ps s)
  case (Cons i "is")
  then obtain p found p1 s1 where p: "arr_get ps i = Inr p" "op_seek_ge ops p c s = Inr (found, p1, s1)" by (auto simp: bindE_eq_Inr)
  note ps1 = update_src [OF p(1) seek_src [OF p(2)]]
  from Cons.prems p show ?case
    by (auto simp: Let_def bindE_eq_Inr ps1 split: if_splits dest: Cons.IH update_src [OF _ seek_src])
qed simp

lemma progressive_loop_src: "progressive_loop ops key tick seed stages fuel ps s = Inr (m, ps', s') \<Longrightarrow> map src ps' = map src ps"
proof (induction fuel arbitrary: ps s)
  case (Suc fuel)
  then obtain q r ps1 s1 where "arr_get ps seed = Inr q" and
    r: "probe_stages ops key tick seed (key q) 1 stages ps (tick (Survived 0) (tick Probed s)) = Inr (r, ps1, s1)"
    by (auto simp: progressive_loop.simps bindE_eq_Inr)
  with Suc probe_stages_src [OF r] show ?case by (cases r) (auto simp: progressive_loop.simps)
qed (simp add: progressive_loop.simps)

lemma leapfrog_src: "align_age_wcoj_leapfrog ops key fuel ps s = Inr (m, ps', s') \<Longrightarrow> map src ps' = map src ps"
  by (auto simp: align_age_wcoj_leapfrog_def bindE_eq_Inr dest!: initialize_src leapfrog_loop_src split: if_splits)

lemma merge_src: "align_age_wcoj_merge ops key fuel ps s = Inr (m, ps', s') \<Longrightarrow> map src ps' = map src ps"
  by (auto simp: align_age_wcoj_merge_def bindE_eq_Inr dest!: initialize_src merge_loop_src split: if_splits)

end

subsection \<open>The child plan and the groups of a provider\<close>

definition plan_source ::
    "'t AgeWCOJPostingProvider \<Rightarrow> AgeWCOJProviderKind \<times> 't list \<times> ('t \<Rightarrow> graphid option) \<times> ('t \<Rightarrow> graphid option) option \<times> 't AgeWCOJTupleGroup list" where
  "plan_source p = (provider_kind p, plan_input p, key_attr p, edge_attr p, batch_groups p)"

lemma plan_source_updates [simp]:
  "plan_source (p\<lparr>plan_rows := a\<rparr>) = plan_source p" "plan_source (p\<lparr>rows_scanned := i\<rparr>) = plan_source p"
  "plan_source (p\<lparr>current_slot := c\<rparr>) = plan_source p" "plan_source (p\<lparr>current_key := k\<rparr>) = plan_source p"
  "plan_source (p\<lparr>last_key := k\<rparr>) = plan_source p" "plan_source (p\<lparr>has_current := b\<rparr>) = plan_source p"
  "plan_source (p\<lparr>has_last_key := b\<rparr>) = plan_source p" "plan_source (p\<lparr>exhausted := b\<rparr>) = plan_source p"
  "plan_source (p\<lparr>provider_rows := r\<rparr>) = plan_source p" "plan_source (p\<lparr>provider_bags := g\<rparr>) = plan_source p"
  "plan_source (p\<lparr>terminals := ts\<rparr>) = plan_source p" "plan_source (p\<lparr>terminal_count := n\<rparr>) = plan_source p"
  "plan_source (p\<lparr>terminal_capacity := i\<rparr>) = plan_source p" "plan_source (p\<lparr>terminal_bytes := i\<rparr>) = plan_source p"
  "plan_source (p\<lparr>terminal_index := n\<rparr>) = plan_source p" "plan_source (p\<lparr>terminal_filter := f\<rparr>) = plan_source p"
  "plan_source (p\<lparr>built := b\<rparr>) = plan_source p"
  by (simp_all add: plan_source_def)

lemma fetch_row_source: "plan_stream_fetch_row p s = Inr (b, p', s') \<Longrightarrow> plan_source p' = plan_source p"
proof -
  have "fetch_loop rs p s = Inr (b, p', s') \<Longrightarrow> plan_source p' = plan_source p" for rs
    by (induction rs arbitrary: p s) (auto simp: Let_def split: option.splits if_splits)
  then show "plan_stream_fetch_row p s = Inr (b, p', s') \<Longrightarrow> plan_source p' = plan_source p" by (simp add: plan_stream_fetch_row_def)
qed

lemma plan_first_source: "plan_stream_first_distinct p s = Inr (b, p', s') \<Longrightarrow> plan_source p' = plan_source p"
  by (auto simp: plan_stream_first_distinct_def dest: fetch_row_source split: if_splits)

lemma skip_group_source: "skip_group k p s = Inr (b, p', s') \<Longrightarrow> plan_source p' = plan_source p"
proof (induction k p s rule: skip_group.induct)
  case (1 k p s)
  from "1.prems" obtain found p1 s1 where f: "plan_stream_fetch_row p s = Inr (found, p1, s1)"
    by (subst (asm) skip_group.simps) (auto simp: bindE_eq_Inr)
  from "1.prems" "1.IH" [OF f] f fetch_row_source [OF f] show ?case by (subst (asm) skip_group.simps) (auto split: if_splits)
qed

lemma plan_next_source: "plan_stream_next_distinct p s = Inr (b, p', s') \<Longrightarrow> plan_source p' = plan_source p"
  by (auto simp: plan_stream_next_distinct_def bindE_eq_Inr dest!: plan_first_source skip_group_source split: if_splits)

lemma seek_loop_source: "seek_loop t p s = Inr (b, p', s') \<Longrightarrow> plan_source p' = plan_source p"
proof (induction t p s rule: seek_loop.induct)
  case (1 t p s)
  show ?case
  proof (cases "sint (current_key p) < sint t")
    case True
    with "1.prems" obtain found p1 s1 where f: "plan_stream_next_distinct p s = Inr (found, p1, s1)"
      by (subst (asm) seek_loop.simps) (auto simp: bindE_eq_Inr)
    from "1.prems" "1.IH" [OF True f] True f plan_next_source [OF f] show ?thesis by (subst (asm) seek_loop.simps) (auto split: if_splits)
  next
    case False
    with "1.prems" show ?thesis by (subst (asm) seek_loop.simps) simp
  qed
qed

lemma plan_seek_source: "plan_stream_seek_ge p t s = Inr (b, p', s') \<Longrightarrow> plan_source p' = plan_source p"
  by (auto simp: plan_stream_seek_ge_def bindE_eq_Inr dest!: plan_first_source seek_loop_source split: if_splits)

lemma source_row_loop_source: "source_row_loop t_len rs p s = Inr (p', s') \<Longrightarrow> plan_source p' = plan_source p"
  by (induction rs arbitrary: p s) (auto simp: Let_def append_age_wcoj_source_row_def bindE_eq_Inr split: option.splits)

lemma append_terminal_source: "append_age_wcoj_terminal p t = Inr p' \<Longrightarrow> plan_source p' = plan_source p"
  by (auto simp: append_age_wcoj_terminal_def Let_def bindE_eq_Inr split: if_splits)

lemma collect_payloads_source: "collect_payloads lim ts p s = Inr (b, p', s') \<Longrightarrow> plan_source p' = plan_source p"
  by (induction ts arbitrary: p s) (auto simp: Let_def bindE_eq_Inr split: if_splits dest!: append_terminal_source)

lemma collect_bags_source: "collect_bags lim bs p s = Inr (b, p', s') \<Longrightarrow> plan_source p' = plan_source p"
  by (induction bs arbitrary: p s) (auto simp: bindE_eq_Inr split: if_splits dest!: collect_payloads_source)

lemma materialize_source: "materialize_adjacency_source_bags t_len qs p s = Inr (b, p', s') \<Longrightarrow> plan_source p' = plan_source p"
  by (auto simp: materialize_adjacency_source_bags_def bindE_eq_Inr Let_def split: if_splits prod.splits dest!: source_row_loop_source)

lemma deduplicate_source: "deduplicate_adjacency_terminals qg p = Inr p' \<Longrightarrow> plan_source p' = plan_source p"
  by (auto simp: deduplicate_adjacency_terminals_def bindE_eq_Inr split: if_splits)

lemma build_filtered_source:
  "build_adjacency_provider_filtered t_len qs qg p f lim s = Inr (r, p', s') \<Longrightarrow> plan_source p' = plan_source p"
  by (auto simp: build_adjacency_provider_filtered_def set_adjacency_terminal_filter_def collect_adjacency_terminals_def bindE_eq_Inr Let_def
      split: if_splits dest!: materialize_source collect_bags_source deduplicate_source)

lemma adjacency_first_source: "adjacency_first_distinct t_len qs qg p s = Inr (b, p', s') \<Longrightarrow> plan_source p' = plan_source p"
  by (auto simp: adjacency_first_distinct_def build_adjacency_provider_def bindE_eq_Inr split: if_splits dest!: build_filtered_source)

lemma move_terminal_source: "move_terminal i p s = Inr (b, p', s') \<Longrightarrow> plan_source p' = plan_source p"
  by (auto simp: move_terminal_def bindE_eq_Inr split: if_splits)

interpretation dispatch: posting_source "dispatch t_len qs qg" plan_source
proof unfold_locales
  fix p p' :: "'a AgeWCOJPostingProvider" and s s' b t
  note ops = dispatch_def provider_ops_def plan_stream_ops_def adjacency_ops_def
  show "op_first_distinct (dispatch t_len qs qg) p s = Inr (b, p', s') \<Longrightarrow> plan_source p' = plan_source p"
    by (auto simp: ops dest: plan_first_source adjacency_first_source split: AgeWCOJProviderKind.splits)
  show "op_next_distinct (dispatch t_len qs qg) p s = Inr (b, p', s') \<Longrightarrow> plan_source p' = plan_source p"
    by (auto simp: ops adjacency_next_distinct_def bindE_eq_Inr dest!: plan_next_source adjacency_first_source move_terminal_source
        split: AgeWCOJProviderKind.splits if_splits)
  show "op_seek_ge (dispatch t_len qs qg) p t s = Inr (b, p', s') \<Longrightarrow> plan_source p' = plan_source p"
    by (auto simp: ops adjacency_seek_ge_def bindE_eq_Inr dest!: plan_seek_source adjacency_first_source move_terminal_source
        split: AgeWCOJProviderKind.splits if_splits)
qed

subsection \<open>The search\<close>

abbreviation sources ::
    "'t AgeWCOJJoinScanState \<Rightarrow> (AgeWCOJProviderKind \<times> 't list \<times> ('t \<Rightarrow> graphid option) \<times> ('t \<Rightarrow> graphid option) option \<times> 't AgeWCOJTupleGroup list) list" where
  "sources st \<equiv> map plan_source (providers st)"

lemma rescan_sources [simp]: "sources (rescan_age_wcoj_providers st) = sources st"
  by (simp add: rescan_age_wcoj_providers_def provider_rescan_def plan_stream_rescan_def adjacency_rescan_def split: AgeWCOJProviderKind.split)

lemma switch_sources [simp]: "providers (switch_to_merge r st) = providers st"
  by (simp add: switch_to_merge_def)

lemma update_sources: "arr_get ps i = Inr p \<Longrightarrow> plan_source p1 = plan_source p \<Longrightarrow> map plan_source (ps[i := p1]) = map plan_source ps"
  by (rule dispatch.update_src)

lemma update_source_at: "map plan_source qs = map plan_source ps \<Longrightarrow> arr_get ps i = Inr p \<Longrightarrow> plan_source p1 = plan_source p \<Longrightarrow>
  map plan_source (qs[i := p1]) = map plan_source ps"
  using update_sources [of ps i p p1] by (simp add: map_update)

lemma filter_stages_sources: "filter_stages env is sc fc cc st = Inr (r, st') \<Longrightarrow> sources st' = sources st"
proof (induction "is" arbitrary: fc cc st)
  case (Cons i "is")
  show ?case
  proof (cases "cc = 0")
    case False
    with Cons.prems obtain p where p: "arr_get (providers st) i = Inr p" by (auto simp: bindE_eq_Inr)
    show ?thesis
    proof (cases "provider_kind p = AGE_WCOJ_PROVIDER_ADJACENCY")
      case True
      from Cons.prems False p True obtain seed r1 p1 s1 cc1 ts s2 where q: "arr_get (providers st) (seed_index st) = Inr seed"
        "build_adjacency_provider_filtered (env_t_len env) (env_qsort_rows env) (env_qsort_gids env) p (Some (take cc (terminals seed))) 0
           (count_exact_set cc (counters st)) = Inr (r1, p1, s1)"
        "(if r1 = AGE_WCOJ_ADJACENCY_BUILD_EMPTY then Inr (0, terminals seed, s1)
          else intersect_age_wcoj_graphids (terminals seed) cc (terminals p1) (terminal_count p1) s1) = Inr (cc1, ts, s2)"
        by (auto simp: bindE_eq_Inr)
      define st1 where "st1 = st\<lparr>providers := (providers st)[i := p1, seed_index st := seed\<lparr>terminals := ts\<rparr>], counters := s2\<rparr>"
      have st1: "sources st1 = sources st" unfolding st1_def
        using update_source_at [OF update_sources [OF p build_filtered_source [OF q(2)]] q(1)] by simp
      from Cons.prems p False True q have "(if fc + 1 = 1 \<and> requested_engine st1 = AGE_WCOJ_ENGINE_AUTO \<and>
            int cc1 * AGE_WCOJ_PROGRESSIVE_DENSE_DENOMINATOR \<ge> int sc * AGE_WCOJ_PROGRESSIVE_DENSE_NUMERATOR
          then Inr (None, switch_to_merge ''dense progressive exact-set overlap'' (rescan_age_wcoj_providers st1))
          else filter_stages env is sc (fc + 1) cc1 st1) = Inr (r, st')"
        unfolding st1_def by (simp add: Let_def)
      then show ?thesis using Cons.IH [of "fc + 1" cc1 st1] st1 by (auto split: if_splits)
    qed (use Cons p False in auto)
  qed (use Cons.prems in auto)
qed simp

lemma install_sources: "install_candidates n st = Inr (b, st') \<Longrightarrow> sources st' = sources st"
  by (auto simp: install_candidates_def Let_def bindE_eq_Inr intro!: update_sources)

lemma prepare_sources:
  assumes "prepare_age_wcoj_progressive_exact_set env st = Inr (b, st')"
  shows "sources st' = sources st"
proof (cases "progressive_setup_done st")
  case False
  define st0 where "st0 = st\<lparr>progressive_setup_done := True\<rparr>"
  note P = assms [unfolded prepare_age_wcoj_progressive_exact_set_def if_not_P [OF False] st0_def [symmetric] Let_def]
  from P obtain seed where seed: "arr_get (providers st0) (seed_index st0) = Inr seed" by (auto simp: bindE_eq_Inr)
  have st0: "sources st0 = sources st" by (simp add: st0_def)
  show ?thesis
  proof (cases "provider_kind seed = AGE_WCOJ_PROVIDER_ADJACENCY")
    case True
    from P seed True obtain r q1 s1 where q: "build_adjacency_provider_filtered (env_t_len env) (env_qsort_rows env) (env_qsort_gids env) seed None
        AGE_WCOJ_PROGRESSIVE_MAX_SEED_POSTINGS (counters st0) = Inr (r, q1, s1)" by (auto simp: bindE_eq_Inr)
    define st1 where "st1 = st0\<lparr>providers := (providers st0)[seed_index st0 := q1], counters := s1\<rparr>"
    have st1: "sources st1 = sources st" using update_sources [OF seed build_filtered_source [OF q]] st0 by (simp add: st1_def)
    note P1 = P [unfolded seed bindE_simps q prod.case st1_def [symmetric]]
    show ?thesis using P1 True st1
      by (cases r) (auto simp: bindE_eq_Inr split: option.splits if_splits dest!: filter_stages_sources install_sources)
  qed (use P seed st0 in auto)
qed (use assms in \<open>simp add: prepare_age_wcoj_progressive_exact_set_def\<close>)

lemma find_next_sources:
  assumes "find_next_age_wcoj_survivor env fuel st = Inr (m, st')"
  shows "sources st' = sources st"
proof -
  define st1 where "st1 = maybe_fallback_from_progressive st"
  have st1: "providers st1 = providers st" by (simp add: st1_def maybe_fallback_from_progressive_def)
  note F = assms [unfolded find_next_age_wcoj_survivor_def st1_def [symmetric] Let_def]
  show ?thesis
  proof (cases "actual_engine st1")
    case AGE_WCOJ_ENGINE_PROGRESSIVE
    with F obtain some st2 where p: "prepare_age_wcoj_progressive_exact_set env st1 = Inr (some, st2)"
      by (auto simp: align_age_wcoj_progressive_def bindE_eq_Inr)
    with F AGE_WCOJ_ENGINE_PROGRESSIVE prepare_sources [OF p] st1 show ?thesis
      by (auto simp: align_age_wcoj_progressive_def bindE_eq_Inr split: if_splits
          dest!: dispatch.merge_src dispatch.initialize_src dispatch.progressive_loop_src)
  qed (use F st1 in \<open>auto simp: bindE_eq_Inr dest!: dispatch.merge_src dispatch.leapfrog_src\<close>)
qed

end
