(* ===== verification/Wcoj_Block.thy ===== *)
theory Wcoj_Block
  imports Wcoj_Frame
begin

text \<open>
  The survivor blocks of the worst-case optimal join (\<open>src/backend/executor/cypher_wcoj_join.c\<close>):
  \<open>prepare_age_wcoj_survivor_block\<close> fills a block with survivors, and for each of them
  \<open>buffer_age_wcoj_survivor\<close> copies the rows of every plan stream provider into a group and moves every provider
  on; \<open>prepare_age_wcoj_group\<close> hands the survivors of a block out one by one. The prefetch of adjacency
  payloads, which follows the filling of a block, is not modelled, so the groups are those of the plan streams.
\<close>

subsection \<open>Tuple groups\<close>

definition empty_group :: "'t AgeWCOJTupleGroup" where
  "empty_group = \<lparr>group_tuples = [], group_edge_ids = [], group_edge_id_valid = [], group_capacity = 0\<rparr>"

definition sizeof_MinimalTuple :: int where "sizeof_MinimalTuple = 8"

definition append_age_wcoj_tuple_group :: "'t AgeWCOJTupleGroup \<Rightarrow> 't \<Rightarrow> bool \<Rightarrow> graphid \<Rightarrow> 't AgeWCOJTupleGroup result" where
  "append_age_wcoj_tuple_group g slot edge_id_valid edge_id =
     bindE (if int (length (group_tuples g)) = group_capacity g then
              if group_capacity g > (MaxAllocSize div sizeof_MinimalTuple) div 2
              then Inl (Ereport ''AGE WCOJ duplicate group is too large'')
              else Inr (g\<lparr>group_capacity := (if group_capacity g = 0 then 8 else group_capacity g * 2)\<rparr>)
            else Inr g) (\<lambda>g1.
     if int (length (group_tuples g1)) < group_capacity g1
     then Inr (g1\<lparr>group_tuples := group_tuples g1 @ [slot], group_edge_ids := group_edge_ids g1 @ [edge_id],
                  group_edge_id_valid := group_edge_id_valid g1 @ [edge_id_valid]\<rparr>)
     else Inl BadAccess)"

definition edge_of :: "'t AgeWCOJPostingProvider \<Rightarrow> 't \<Rightarrow> graphid option" where
  "edge_of p t = (case edge_attr p of None \<Rightarrow> None | Some f \<Rightarrow> f t)"

text \<open>The loop of \<open>plan_stream_buffer_group\<close>.\<close>

function buffer_rows ::
    "graphid \<Rightarrow> 't AgeWCOJTupleGroup \<Rightarrow> 't AgeWCOJPostingProvider \<Rightarrow> wcoj_stats \<Rightarrow> ('t AgeWCOJTupleGroup \<times> 't AgeWCOJPostingProvider \<times> wcoj_stats) result" where
  "buffer_rows terminal g p s =
     (case current_slot p of
        None \<Rightarrow> Inl BadAccess
      | Some t \<Rightarrow>
          bindE (append_age_wcoj_tuple_group g t (edge_of p t \<noteq> None) (case edge_of p t of None \<Rightarrow> 0 | Some e \<Rightarrow> e)) (\<lambda>g1.
          bindE (plan_stream_fetch_row p s) (\<lambda>(found, p1, s1).
            if \<not> found \<or> current_key p1 \<noteq> terminal then Inr (g1, p1, record_provider_advance s1)
            else buffer_rows terminal g1 p1 s1)))"
  by pat_completeness auto
termination by (relation "measure (\<lambda>(k, g, p, s). length (plan_rows p))") (auto dest: fetch_row_shorter)

declare buffer_rows.simps [simp del]

definition plan_stream_buffer_group :: "'t AgeWCOJPostingProvider \<Rightarrow> graphid \<Rightarrow> nat \<Rightarrow> nat \<Rightarrow> wcoj_stats \<Rightarrow> 't cursor_step" where
  "plan_stream_buffer_group p terminal survivor_index capacity s =
     (if batch_groups p = [] \<or> survivor_index \<ge> capacity then Inl (Ereport ''invalid AGE WCOJ survivor block group index'')
      else bindE (plan_stream_first_distinct p s) (\<lambda>(found, p1, s1).
        if \<not> found \<or> current_key p1 \<noteq> terminal then Inr (False, p1, s1)
        else bindE (arr_get (batch_groups p1) survivor_index) (\<lambda>g.
             bindE (buffer_rows terminal g p1 s1) (\<lambda>(g1, p2, s2).
               Inr (group_tuples g1 \<noteq> [], p2\<lparr>batch_groups := (batch_groups p2)[survivor_index := g1]\<rparr>, s2)))))"

subsection \<open>Filling a block\<close>

text \<open>The loop of \<open>buffer_age_wcoj_survivor\<close>; the flag says whether every provider can go on.\<close>

fun buffer_sources ::
    "'t join_env \<Rightarrow> graphid \<Rightarrow> nat \<Rightarrow> nat \<Rightarrow> 't AgeWCOJPostingProvider list \<Rightarrow> wcoj_stats \<Rightarrow> (bool \<times> 't AgeWCOJPostingProvider list \<times> wcoj_stats) result" where
  "buffer_sources env matched_key survivor_index capacity [] s = Inr (True, [], s)"
| "buffer_sources env matched_key survivor_index capacity (p # ps) s =
     (if \<not> has_current p \<or> current_key p \<noteq> matched_key then Inl (Ereport ''AGE WCOJ provider lost an aligned survivor'')
      else bindE (case provider_kind p of
             AGE_WCOJ_PROVIDER_PLAN_STREAM \<Rightarrow>
               bindE (plan_stream_buffer_group p matched_key survivor_index capacity s) (\<lambda>(buffered, p1, s1).
                 if \<not> buffered then Inl (Ereport ''AGE WCOJ could not buffer a plan-stream group'')
                 else Inr (\<not> exhausted p1, p1, s1))
           | AGE_WCOJ_PROVIDER_ADJACENCY \<Rightarrow> op_next_distinct (env_ops env) p s) (\<lambda>(c, p1, s1).
           bindE (buffer_sources env matched_key survivor_index capacity ps s1) (\<lambda>(cs, ps1, s2). Inr (c \<and> cs, p1 # ps1, s2))))"

definition buffer_age_wcoj_survivor ::
    "'t join_env \<Rightarrow> graphid \<Rightarrow> nat \<Rightarrow> 't AgeWCOJJoinScanState \<Rightarrow> (bool \<times> 't AgeWCOJJoinScanState) result" where
  "buffer_age_wcoj_survivor env matched_key survivor_index st =
     (if survivor_index < survivor_block_capacity st \<and> survivor_index \<le> length (survivor_block st) then
        let st0 = st\<lparr>survivor_block := take survivor_index (survivor_block st) @ [matched_key]\<rparr>
        in bindE (buffer_sources env matched_key survivor_index (survivor_block_capacity st) (providers st0) (counters st0)) (\<lambda>(c, ps, s).
             Inr (c, st0\<lparr>providers := ps, counters := s\<rparr>))
      else Inl BadAccess)"

definition reset_age_wcoj_survivor_block :: "'t AgeWCOJJoinScanState \<Rightarrow> 't AgeWCOJJoinScanState" where
  "reset_age_wcoj_survivor_block st =
     st\<lparr>survivor_block := [], survivor_block_index := 0, survivor_block_capacity := 0,
        providers := map (\<lambda>p. p\<lparr>batch_groups := []\<rparr>) (providers st)\<rparr>"

definition allocate_age_wcoj_survivor_block :: "nat \<Rightarrow> 't AgeWCOJJoinScanState \<Rightarrow> 't AgeWCOJJoinScanState result" where
  "allocate_age_wcoj_survivor_block capacity st =
     (if capacity = 0 then Inl (Ereport ''invalid AGE WCOJ survivor block capacity'')
      else Inr (st\<lparr>survivor_block_capacity := capacity,
             providers := map (\<lambda>p. case provider_kind p of
               AGE_WCOJ_PROVIDER_PLAN_STREAM \<Rightarrow> p\<lparr>batch_groups := replicate capacity empty_group\<rparr>
             | AGE_WCOJ_PROVIDER_ADJACENCY \<Rightarrow> p) (providers st)\<rparr>))"

text \<open>The loop of \<open>prepare_age_wcoj_survivor_block\<close>, which ends after \<open>capacity\<close> survivors at the latest:
  that many rounds are enough.\<close>

primrec fill_block :: "'t join_env \<Rightarrow> nat \<Rightarrow> nat \<Rightarrow> nat \<Rightarrow> graphid \<Rightarrow> 't AgeWCOJJoinScanState \<Rightarrow> 't AgeWCOJJoinScanState result" where
  "fill_block env fuel capacity 0 matched_key st = Inl OutOfFuel"
| "fill_block env fuel capacity (Suc rounds) matched_key st =
     bindE (buffer_age_wcoj_survivor env matched_key (length (survivor_block st)) st) (\<lambda>(can_continue, st1).
       if \<not> can_continue then Inr (st1\<lparr>survivor_input_exhausted := True\<rparr>)
       else if length (survivor_block st1) \<ge> capacity \<or> env_block_full env st1 then Inr st1
       else bindE (find_next_age_wcoj_survivor env fuel st1) (\<lambda>(m, st2).
              case m of
                None \<Rightarrow> Inr (st2\<lparr>survivor_input_exhausted := True\<rparr>)
              | Some k \<Rightarrow> fill_block env fuel capacity rounds k st2))"

definition count_block :: "wcoj_stats \<Rightarrow> wcoj_stats" where
  "count_block s = s\<lparr>survivor_blocks := increment_counter (survivor_blocks s)\<rparr>"

definition prepare_age_wcoj_survivor_block ::
    "'t join_env \<Rightarrow> nat \<Rightarrow> 't AgeWCOJJoinScanState \<Rightarrow> (bool \<times> 't AgeWCOJJoinScanState) result" where
  "prepare_age_wcoj_survivor_block env fuel st =
     (let st0 = reset_age_wcoj_survivor_block st
      in if survivor_input_exhausted st0 then Inr (False, st0)
         else bindE (find_next_age_wcoj_survivor env fuel st0) (\<lambda>(m, st1).
           case m of
             None \<Rightarrow> Inr (False, st1\<lparr>survivor_input_exhausted := True\<rparr>)
           | Some k \<Rightarrow>
               bindE (allocate_age_wcoj_survivor_block (env_block_capacity env st1) st1) (\<lambda>st2.
               bindE (fill_block env fuel (env_block_capacity env st1) (env_block_capacity env st1) k st2) (\<lambda>st3.
                 Inr (survivor_block st3 \<noteq> [], st3\<lparr>counters := count_block (counters st3), survivor_block_index := 0\<rparr>)))))"

subsection \<open>Handing out the survivors\<close>

text \<open>The part of \<open>prepare_age_wcoj_group\<close> that takes the next survivor of the current block, or of a new
  one: the key and its index in the block.\<close>

definition next_block_survivor ::
    "'t join_env \<Rightarrow> nat \<Rightarrow> 't AgeWCOJJoinScanState \<Rightarrow> ((graphid \<times> nat) option \<times> 't AgeWCOJJoinScanState) result" where
  "next_block_survivor env fuel st =
     (if scan_exhausted st then Inr (None, st)
      else bindE (if survivor_block_index st \<ge> length (survivor_block st) then prepare_age_wcoj_survivor_block env fuel st
                  else Inr (True, st)) (\<lambda>(some, st1).
        if \<not> some then Inr (None, st1\<lparr>scan_exhausted := True\<rparr>)
        else bindE (arr_get (survivor_block st1) (survivor_block_index st1)) (\<lambda>k.
             Inr (Some (k, survivor_block_index st1), st1\<lparr>survivor_block_index := survivor_block_index st1 + 1\<rparr>))))"

text \<open>\<open>plan_stream_materialize_group\<close> when the payloads are buffered: the group of the active survivor, if it
  has rows.\<close>

definition buffered_group :: "nat \<Rightarrow> nat \<Rightarrow> 't AgeWCOJPostingProvider \<Rightarrow> 't AgeWCOJTupleGroup option result" where
  "buffered_group active_survivor_index survivor_block_count p =
     (if batch_groups p = [] \<or> active_survivor_index \<ge> survivor_block_count
      then Inl (Ereport ''invalid AGE WCOJ buffered plan-stream group'')
      else bindE (arr_get (batch_groups p) active_survivor_index) (\<lambda>g. Inr (if group_tuples g = [] then None else Some g)))"

fun collect_groups :: "nat \<Rightarrow> nat \<Rightarrow> 't AgeWCOJPostingProvider list \<Rightarrow> 't AgeWCOJTupleGroup option list result" where
  "collect_groups active_survivor_index survivor_block_count [] = Inr []"
| "collect_groups active_survivor_index survivor_block_count (p # ps) =
     bindE (case provider_kind p of
              AGE_WCOJ_PROVIDER_PLAN_STREAM \<Rightarrow> buffered_group active_survivor_index survivor_block_count p
            | AGE_WCOJ_PROVIDER_ADJACENCY \<Rightarrow> Inr None) (\<lambda>g.
     bindE (collect_groups active_survivor_index survivor_block_count ps) (\<lambda>gs. Inr (g # gs)))"

text \<open>The whole scan, as the sequence of survivors with their groups; \<open>n\<close> bounds the number of calls.\<close>

primrec scan_survivors ::
    "'t join_env \<Rightarrow> nat \<Rightarrow> nat \<Rightarrow> 't AgeWCOJJoinScanState \<Rightarrow> ((graphid \<times> 't AgeWCOJTupleGroup option list) list \<times> 't AgeWCOJJoinScanState) result" where
  "scan_survivors env fuel 0 st = Inl OutOfFuel"
| "scan_survivors env fuel (Suc n) st =
     bindE (next_block_survivor env fuel st) (\<lambda>(m, st1).
       case m of
         None \<Rightarrow> Inr ([], st1)
       | Some (k, i) \<Rightarrow>
           bindE (collect_groups i (length (survivor_block st1)) (providers st1)) (\<lambda>gs.
           bindE (scan_survivors env fuel n st1) (\<lambda>(rest, st2). Inr ((k, gs) # rest, st2))))"

end
