(* ===== verification/Wcoj_Scan.thy ===== *)
theory Wcoj_Scan
  imports Wcoj_Block
begin

text \<open>
  The worst-case optimal join delivers exactly the keys that all its sources have in common, in increasing
  order, each with the rows of every plan stream that have the key. The lemmas follow \<open>Wcoj_Block\<close>: copying
  the rows of one source, buffering one survivor, filling one block, and the scan.
\<close>

subsection \<open>Copying the rows of one source\<close>

definition edge_in :: "('t \<Rightarrow> graphid option) option \<Rightarrow> 't \<Rightarrow> graphid option" where
  "edge_in ea t = (case ea of None \<Rightarrow> None | Some f \<Rightarrow> f t)"

text \<open>A group that holds the rows \<open>ts\<close> with their edges.\<close>

definition group_of :: "('t \<Rightarrow> graphid option) option \<Rightarrow> 't list \<Rightarrow> 't AgeWCOJTupleGroup \<Rightarrow> bool" where
  "group_of ea ts g \<longleftrightarrow> group_tuples g = ts \<and> group_edge_id_valid g = map (\<lambda>t. edge_in ea t \<noteq> None) ts \<and>
     group_edge_ids g = map (\<lambda>t. case edge_in ea t of None \<Rightarrow> 0 | Some e \<Rightarrow> e) ts \<and> int (length ts) \<le> group_capacity g"

lemma group_of_empty: "group_of ea [] empty_group"
  by (simp add: group_of_def empty_group_def)

lemma append_group_ok:
  assumes "group_of (edge_attr p) ts g" "length ts < 67108864"
  shows "\<exists>g'. append_age_wcoj_tuple_group g t (edge_of p t \<noteq> None) (case edge_of p t of None \<Rightarrow> 0 | Some e \<Rightarrow> e) = Inr g' \<and>
    group_of (edge_attr p) (ts @ [t]) g'"
  using assms by (auto simp: append_age_wcoj_tuple_group_def group_of_def edge_in_def edge_of_def MaxAllocSize_def sizeof_MinimalTuple_def)

lemma rows_with_Cons: "rows_with f k (t # ts) = (if f t = Some k then [t] else []) @ rows_with f k ts"
  by (simp add: rows_with_def)

lemma no_rows:
  assumes "plan_ok p" "k \<notin> plan_keys p"
  shows "rows_with (key_attr p) k (all_rows p) = []"
proof -
  have "t \<notin> set (all_rows p) \<or> key_attr p t \<noteq> Some k" for t
    using assms by (auto simp: all_rows_def plan_ok_def plan_keys_def List.map_filter_def image_def split: if_splits)
  then show ?thesis by (auto simp: rows_with_def filter_empty_conv)
qed

lemma rows_ahead:
  assumes "plan_ok p" "has_current p" "plan_stream_fetch_row p s = Inr (b, p1, s1)"
  obtains t where "current_slot p = Some t" "key_attr p t = Some (current_key p)" "key_attr p1 = key_attr p" "edge_attr p1 = edge_attr p"
    "rows_with (key_attr p) k (all_rows p) = rows_with (key_attr p) k [t] @ rows_with (key_attr p) k (all_rows p1)"
    "length (all_rows p1) < length (all_rows p)"
proof -
  from assms(1,2) obtain t where t: "current_slot p = Some t" "key_attr p t = Some (current_key p)" by (auto simp: plan_ok_def)
  from fetch_loop_passes [OF assms(3) [unfolded plan_stream_fetch_row_def] refl] obtain d where
    d: "same_plan p p1" "plan_rows p = d @ all_rows p1" "\<forall>t \<in> set d. key_attr p t = None" by blast
  have "rows_with (key_attr p) k d = []" using d(3) by (simp add: rows_with_def filter_empty_conv)
  then have "rows_with (key_attr p) k (all_rows p) = rows_with (key_attr p) k [t] @ rows_with (key_attr p) k (all_rows p1)"
    using assms(2) t(1) d(2) by (simp add: all_rows_def [of p] rows_with_def)
  with t d that assms(2) show thesis by (simp add: same_plan_def all_rows_def [of p])
qed

text \<open>Buffering moves the cursor like \<open>skip_group\<close>.\<close>

lemma buffer_rows_law:
  "plan_ok p \<Longrightarrow> has_current p \<Longrightarrow> current_key p = k \<Longrightarrow> group_of (edge_attr p) ts g \<Longrightarrow> length ts + length (all_rows p) \<le> 67108864 \<Longrightarrow>
   \<exists>g'. buffer_rows k g p s = bindE (skip_group k p s) (\<lambda>(b, p', s'). Inr (g', p', s')) \<and>
     group_of (edge_attr p) (ts @ rows_with (key_attr p) k (all_rows p)) g'"
proof (induction k p s arbitrary: g ts rule: skip_group.induct)
  case (1 k p s)
  note ok = "1.prems"(1,2)
  have live: "\<not> exhausted p" using ok by (auto simp: plan_ok_def)
  obtain b p1 s1 where f: "plan_stream_fetch_row p s = Inr (b, p1, s1)" "plan_ok p1" "b \<longrightarrow> has_current p1"
    using ok(1) live by (cases rule: fetch_row_cases [where s = s]) auto
  obtain t where t: "current_slot p = Some t" "key_attr p t = Some k" "key_attr p1 = key_attr p" "edge_attr p1 = edge_attr p"
    "rows_with (key_attr p) k (all_rows p) = [t] @ rows_with (key_attr p) k (all_rows p1)" "length (all_rows p1) < length (all_rows p)"
    using rows_ahead [OF ok f(1), of k] "1.prems"(3) by (auto simp: rows_with_Cons rows_with_def)
  have "length ts < 67108864" using "1.prems"(5) ok(2) by (simp add: all_rows_def)
  from append_group_ok [OF "1.prems"(4) this, of t] obtain g1 where
    g1: "append_age_wcoj_tuple_group g t (edge_of p t \<noteq> None) (case edge_of p t of None \<Rightarrow> 0 | Some e \<Rightarrow> e) = Inr g1"
      "group_of (edge_attr p) (ts @ [t]) g1" by blast
  show ?case
  proof (cases "b \<and> current_key p1 = k")
    case True
    have "\<exists>g'. buffer_rows k g1 p1 s1 = bindE (skip_group k p1 s1) (\<lambda>(b, p', s'). Inr (g', p', s')) \<and>
        group_of (edge_attr p1) ((ts @ [t]) @ rows_with (key_attr p1) k (all_rows p1)) g'"
      by (rule "1.IH" [OF f(1) refl refl]) (use True f t g1(2) "1.prems"(5) in auto)
    then obtain g' where "buffer_rows k g1 p1 s1 = bindE (skip_group k p1 s1) (\<lambda>(b, p', s'). Inr (g', p', s'))"
      "group_of (edge_attr p) (ts @ [t] @ rows_with (key_attr p) k (all_rows p1)) g'" by (auto simp: t(3,4))
    then show ?thesis using True f(1) t(1,5) g1(1)
      by (intro exI [of _ g']) (subst buffer_rows.simps, subst skip_group.simps, simp)
  next
    case False
    have "skip_group k p s = Inr (b, p1, record_provider_advance s1)" using False f(1) by (subst skip_group.simps) auto
    moreover from this have "k \<notin> plan_keys p1"
      using moves_to_result [OF skip_group_law [OF ok "1.prems"(3), of s, unfolded \<open>skip_group k p s = _\<close>]]
        after_least_least [OF plan_positioned [OF ok]] "1.prems"(3) by auto
    with no_rows [OF f(2)] t(3) have "rows_with (key_attr p) k (all_rows p1) = []" by simp
    ultimately show ?thesis using False f(1) t(1,5) g1
      by (intro exI [of _ g1]) (subst buffer_rows.simps, auto)
  qed
qed

lemma skip_group_end: "skip_group k p s = Inr (False, p', s') \<Longrightarrow> exhausted p'"
proof (induction k p s rule: skip_group.induct)
  case (1 k p s)
  from "1.prems" obtain found p1 s1 where f: "plan_stream_fetch_row p s = Inr (found, p1, s1)"
    by (subst (asm) skip_group.simps) (auto simp: bindE_eq_Inr)
  have "exhausted p1" if "\<not> found"
  proof -
    have "fetch_loop rs q s2 = Inr (False, p1, s1) \<Longrightarrow> exhausted p1" for rs q s2
      by (induction rs arbitrary: q s2) (auto simp: Let_def split: option.splits if_splits)
    with f that show ?thesis by (simp add: plan_stream_fetch_row_def)
  qed
  with "1.prems" "1.IH" [OF f] f show ?case by (subst (asm) skip_group.simps) (auto split: if_splits)
qed

subsection \<open>Buffering one survivor\<close>

lemma regroup_keeps [simp]:
  "provider_ok qs qg (p\<lparr>batch_groups := gs\<rparr>) = provider_ok qs qg p" "provider_keys (p\<lparr>batch_groups := gs\<rparr>) = provider_keys p"
  "fresh (p\<lparr>batch_groups := gs\<rparr>) = fresh p"
  by (simp_all add: provider_ok_def plan_ok_def intact_def all_rows_def plan_keys_def adj_ok_def unbuilt_def built_ok_def within_limits_def
      provider_keys_def adj_keys_def postings_def fresh_def split: AgeWCOJProviderKind.split)

text \<open>What identifies the source of a provider.\<close>

definition plan_id :: "'t AgeWCOJPostingProvider \<Rightarrow> AgeWCOJProviderKind \<times> 't list \<times> ('t \<Rightarrow> graphid option) \<times> ('t \<Rightarrow> graphid option) option" where
  "plan_id p = (provider_kind p, plan_input p, key_attr p, edge_attr p)"

lemma plan_source_id: "plan_source p' = plan_source p \<longleftrightarrow> plan_id p' = plan_id p \<and> batch_groups p' = batch_groups p"
  by (auto simp: plan_source_def plan_id_def)

lemma plan_id_groups [simp]: "plan_id (p\<lparr>batch_groups := gs\<rparr>) = plan_id p"
  by (simp add: plan_id_def)

abbreviation input_rows :: "'t AgeWCOJPostingProvider \<Rightarrow> graphid \<Rightarrow> 't list" where
  "input_rows p k \<equiv> rows_with (key_attr p) k (plan_input p)"

lemma buffer_group_law:
  assumes ok: "plan_ok p" "intact p" "length (plan_rows p) < 67108864" and at: "has_current p" "current_key p = k"
    and room: "i < cap" "length (batch_groups p) = cap" "batch_groups p ! i = empty_group"
  shows "\<exists>p' s' g. plan_stream_buffer_group p k i cap s = Inr (True, p', s') \<and> provider_ok qs qg p' \<and> provider_keys p' = provider_keys p - {k} \<and>
    (exhausted p' \<longrightarrow> provider_keys p' = {}) \<and> plan_id p' = plan_id p \<and> batch_groups p' = (batch_groups p)[i := g] \<and>
    group_of (edge_attr p) (input_rows p k) g \<and> input_rows p k \<noteq> []"
proof -
  have len: "length ([] :: 'a list) + length (all_rows p) \<le> 67108864" using ok(3) at(1) by (simp add: all_rows_def)
  from buffer_rows_law [OF ok(1) at group_of_empty len, of s] obtain g where
    g: "buffer_rows k empty_group p s = bindE (skip_group k p s) (\<lambda>(b, p', s'). Inr (g, p', s'))"
      "group_of (edge_attr p) (rows_with (key_attr p) k (all_rows p)) g" by auto
  have "k \<in> plan_keys p" using at by (simp add: plan_keys_def)
  then have rows: "rows_with (key_attr p) k (all_rows p) = input_rows p k" using ok(2) by (simp add: intact_def)
  from ok(1) at obtain t where "current_slot p = Some t" "key_attr p t = Some k" by (auto simp: plan_ok_def)
  then have some: "rows_with (key_attr p) k (all_rows p) \<noteq> []" using at(1) by (simp add: all_rows_def rows_with_def)
  have nxt: "plan_stream_next_distinct p s = skip_group k p s" using at by (simp add: plan_stream_next_distinct_def plan_stream_first_distinct_def)
  have "moves_to has_current current_key plan_keys plan_ok (plan_keys p - {k}) (skip_group k p s)"
    using skip_group_law [OF ok(1) at, of s] after_least_least [OF plan_positioned [OF ok(1) at(1)]] at(2) by simp
  then obtain b p1 s1 where r: "skip_group k p s = Inr (b, p1, s1)" "plan_ok p1" "plan_keys p1 = plan_keys p - {k}" "b \<longleftrightarrow> plan_keys p - {k} \<noteq> {}"
    "b \<longrightarrow> has_current p1" unfolding moves_to_def by blast
  have fr: "frame p p1" using next_frame [of p s b p1 s1] nxt r(1) ok(1) by simp
  have src: "plan_id p1 = plan_id p" "batch_groups p1 = batch_groups p" using skip_group_source [OF r(1)] by (simp_all add: plan_source_id)
  have p1: "provider_ok qs qg p1" "provider_keys p1 = plan_keys p1" using framed_provider [OF r(2) ok(2,3) fr] by simp_all
  have "exhausted p1 \<longrightarrow> plan_keys p1 = {}" using r(2-5) by (auto simp: plan_ok_def)
  moreover have "provider_keys p = plan_keys p" by (rule plan_keys_provider [OF ok(1)])
  moreover have "plan_stream_buffer_group p k i cap s = Inr (True, p1\<lparr>batch_groups := (batch_groups p1)[i := g]\<rparr>, s1)"
    using at room g r(1) rows some by (auto simp: plan_stream_buffer_group_def plan_stream_first_distinct_def group_of_def)
  ultimately show ?thesis using p1 r(3) src g(2) rows some
    by (intro exI [of _ "p1\<lparr>batch_groups := (batch_groups p1)[i := g]\<rparr>"] exI [of _ s1] exI [of _ g]) simp
qed

text \<open>From \<open>p\<close> to \<open>p'\<close> the survivor \<open>k\<close> is buffered at index \<open>i\<close>.\<close>

definition buffered :: "'t join_env \<Rightarrow> graphid \<Rightarrow> nat \<Rightarrow> 't AgeWCOJPostingProvider \<Rightarrow> 't AgeWCOJPostingProvider \<Rightarrow> bool" where
  "buffered env k i p p' \<longleftrightarrow> env_ok env p' \<and> provider_keys p' = provider_keys p - {k} \<and> plan_id p' = plan_id p \<and>
     (provider_kind p = AGE_WCOJ_PROVIDER_PLAN_STREAM \<longrightarrow>
       (\<exists>g. batch_groups p' = (batch_groups p)[i := g] \<and> group_of (edge_attr p) (input_rows p k) g \<and> input_rows p k \<noteq> []))"

definition positioned :: "graphid \<Rightarrow> 't AgeWCOJPostingProvider \<Rightarrow> bool" where
  "positioned k p \<longleftrightarrow> has_current p \<and> current_key p = k \<and> least_gid k (provider_keys p)"

definition has_room :: "nat \<Rightarrow> nat \<Rightarrow> 't AgeWCOJPostingProvider \<Rightarrow> bool" where
  "has_room i cap p \<longleftrightarrow> (provider_kind p = AGE_WCOJ_PROVIDER_PLAN_STREAM \<longrightarrow> length (batch_groups p) = cap \<and> batch_groups p ! i = empty_group)"

lemma buffer_one:
  assumes "env_ok env p" "positioned k p" "has_room i cap p" "i < cap"
  shows "\<exists>c p' s'. (case provider_kind p of
       AGE_WCOJ_PROVIDER_PLAN_STREAM \<Rightarrow> bindE (plan_stream_buffer_group p k i cap s) (\<lambda>(b, p1, s1).
         if \<not> b then Inl (Ereport ''AGE WCOJ could not buffer a plan-stream group'') else Inr (\<not> exhausted p1, p1, s1))
     | AGE_WCOJ_PROVIDER_ADJACENCY \<Rightarrow> op_next_distinct (env_ops env) p s) = Inr (c, p', s') \<and>
     buffered env k i p p' \<and> (\<not> c \<longrightarrow> provider_keys p' = {})"
  using assms(1)
proof (cases rule: provider_cases [where t_len = "env_t_len env"])
  case plan
  then have kind: "provider_kind p = AGE_WCOJ_PROVIDER_PLAN_STREAM" by (simp add: plan_ok_def)
  with buffer_group_law [OF plan(1-3), of k i cap s "env_qsort_rows env" "env_qsort_gids env"] assms(2-4) show ?thesis
    by (fastforce simp: positioned_def has_room_def buffered_def)
next
  case adj
  then have kind: "provider_kind p = AGE_WCOJ_PROVIDER_ADJACENCY" by (simp add: adj_ok_def)
  have "after_least (provider_keys p) = provider_keys p - {k}" using assms(2) after_least_least by (auto simp: positioned_def)
  with provider.next_law [OF assms(1), of "env_t_len env" s] obtain b p1 s1 where
    r: "op_next_distinct (env_ops env) p s = Inr (b, p1, s1)" "env_ok env p1" "provider_keys p1 = provider_keys p - {k}" "b \<longleftrightarrow> provider_keys p - {k} \<noteq> {}"
    unfolding moves_to_def by metis
  moreover have "plan_id p1 = plan_id p" using dispatch.next_src [OF r(1)] by (simp add: plan_source_id)
  ultimately show ?thesis using kind by (simp add: buffered_def)
qed

lemma buffer_sources_law:
  assumes "list_all (env_ok env) ps" "list_all (positioned k) ps" "list_all (has_room i cap) ps" "i < cap"
  shows "\<exists>c ps' s'. buffer_sources env k i cap ps s = Inr (c, ps', s') \<and> list_all2 (buffered env k i) ps ps' \<and>
     (\<not> c \<longrightarrow> (\<exists>p \<in> set ps'. provider_keys p = {}))"
  using assms(1-3)
proof (induction ps arbitrary: s)
  case (Cons p ps)
  from buffer_one [of env p k i cap s] Cons.prems assms(4) obtain c p1 s1 where r: "(case provider_kind p of
       AGE_WCOJ_PROVIDER_PLAN_STREAM \<Rightarrow> bindE (plan_stream_buffer_group p k i cap s) (\<lambda>(b, p1, s1).
         if \<not> b then Inl (Ereport ''AGE WCOJ could not buffer a plan-stream group'') else Inr (\<not> exhausted p1, p1, s1))
     | AGE_WCOJ_PROVIDER_ADJACENCY \<Rightarrow> op_next_distinct (env_ops env) p s) = Inr (c, p1, s1)"
     "buffered env k i p p1" "\<not> c \<longrightarrow> provider_keys p1 = {}" by auto
  from Cons.IH [of s1] Cons.prems obtain cs ps1 s2 where q: "buffer_sources env k i cap ps s1 = Inr (cs, ps1, s2)" "list_all2 (buffered env k i) ps ps1"
    "\<not> cs \<longrightarrow> (\<exists>p \<in> set ps1. provider_keys p = {})" by auto
  have "has_current p \<and> current_key p = k" using Cons.prems(2) by (simp add: positioned_def)
  then have "buffer_sources env k i cap (p # ps) s = Inr (c \<and> cs, p1 # ps1, s2)" by (simp add: r(1) q(1))
  with r q show ?case by auto
qed (auto intro: exI [of _ True])

subsection \<open>Filling a block\<close>

text \<open>The groups of a source hold the rows of the survivors \<open>block\<close> and are empty after them.\<close>

fun filled ::
    "nat \<Rightarrow> graphid list \<Rightarrow> AgeWCOJProviderKind \<times> 't list \<times> ('t \<Rightarrow> graphid option) \<times> ('t \<Rightarrow> graphid option) option \<times> 't AgeWCOJTupleGroup list \<Rightarrow> bool" where
  "filled cap block (kind, input, ka, ea, gs) \<longleftrightarrow> (kind = AGE_WCOJ_PROVIDER_PLAN_STREAM \<longrightarrow> length gs = cap \<and>
     (\<forall>j < cap. if j < length block then group_of ea (rows_with ka (block ! j) input) (gs ! j) \<and> rows_with ka (block ! j) input \<noteq> [] else gs ! j = empty_group))"

definition block_ok :: "'t AgeWCOJJoinScanState \<Rightarrow> bool" where
  "block_ok st \<longleftrightarrow> length (survivor_block st) \<le> survivor_block_capacity st \<and> list_all (filled (survivor_block_capacity st) (survivor_block st)) (sources st)"

definition ids :: "'t AgeWCOJJoinScanState \<Rightarrow> (AgeWCOJProviderKind \<times> 't list \<times> ('t \<Rightarrow> graphid option) \<times> ('t \<Rightarrow> graphid option) option) list" where
  "ids st = map plan_id (providers st)"

text \<open>Between \<open>st\<close> and \<open>st'\<close> the survivors \<open>new\<close> have been taken, in increasing order.\<close>

definition taken :: "graphid list \<Rightarrow> graphid set \<Rightarrow> graphid set \<Rightarrow> bool" where
  "taken new S S' \<longleftrightarrow> gid_sorted new \<and> set new \<union> S' = S \<and> (\<forall>x \<in> set new. \<forall>y \<in> S'. sint x < sint y)"

lemma taken_Cons: "least_gid k S \<Longrightarrow> taken new (S - {k}) S' \<Longrightarrow> taken (k # new) S S'"
proof -
  assume l: "least_gid k S" and t: "taken new (S - {k}) S'"
  have "sint k < sint x" if "x \<in> S - {k}" for x
    using l that unfolding least_gid_def by (metis DiffE insertI1 order.not_eq_order_implies_strict sint_inject)
  with l t show ?thesis by (auto simp: taken_def least_gid_def)
qed

lemma sources_ids: "sources st' = sources st \<Longrightarrow> ids st' = ids st"
proof -
  have "ids st = map (\<lambda>(kind, input, ka, ea, gs). (kind, input, ka, ea)) (sources st)" for st :: "'a AgeWCOJJoinScanState"
    by (simp add: ids_def plan_id_def plan_source_def)
  then show "sources st' = sources st \<Longrightarrow> ids st' = ids st" by (simp only:)
qed

lemma filled_next:
  assumes "filled cap block (plan_source p)" "buffered env k (length block) p p'" "length block < cap"
  shows "filled cap (block @ [k]) (plan_source p')"
proof -
  have same: "plan_id p' = plan_id p" using assms(2) by (simp add: buffered_def)
  show ?thesis
  proof (cases "provider_kind p = AGE_WCOJ_PROVIDER_PLAN_STREAM")
    case True
    with assms(2) obtain g where g: "batch_groups p' = (batch_groups p)[length block := g]" "group_of (edge_attr p) (input_rows p k) g" "input_rows p k \<noteq> []"
      by (auto simp: buffered_def)
    with True assms(1,3) same show ?thesis
      by (auto simp: plan_source_def plan_id_def nth_append nth_list_update less_Suc_eq)
  qed (use same in \<open>simp add: plan_source_def plan_id_def\<close>)
qed

lemma buffered_common:
  assumes "list_all2 (buffered env k i) ps ps'" "ps \<noteq> []"
  shows "common_keys provider_keys ps' = common_keys provider_keys ps - {k}" "list_all (env_ok env) ps'" "map plan_id ps' = map plan_id ps"
    "length ps' = length ps"
proof -
  have len: "length ps' = length ps" and b: "\<And>j. j < length ps \<Longrightarrow> buffered env k i (ps ! j) (ps' ! j)"
    using assms(1) by (auto simp: list_all2_conv_all_nth)
  have c: "common_keys provider_keys qs = {x. \<forall>i < length qs. x \<in> provider_keys (qs ! i)}" for qs :: "'a AgeWCOJPostingProvider list"
    by (simp add: common_keys_def INTER_eq all_set_conv_all_nth)
  have ks: "provider_keys (ps' ! j) = provider_keys (ps ! j) - {k}" "env_ok env (ps' ! j)" "plan_id (ps' ! j) = plan_id (ps ! j)" if "j < length ps" for j
    using b [OF that] by (simp_all add: buffered_def)
  show "common_keys provider_keys ps' = common_keys provider_keys ps - {k}"
    unfolding c len using assms(2) by (auto simp: ks(1))
  show "list_all (env_ok env) ps'" using ks(2) len by (simp add: list_all_length)
  show "map plan_id ps' = map plan_id ps" using ks(3) len by (intro nth_equalityI) simp_all
  show "length ps' = length ps" by (fact len)
qed

definition advanced :: "'t join_env \<Rightarrow> 't AgeWCOJJoinScanState \<Rightarrow> 't AgeWCOJJoinScanState \<Rightarrow> bool" where
  "advanced env st st' \<longleftrightarrow> state_ok env st' \<and> ids st' = ids st \<and> scan_exhausted st' = scan_exhausted st \<and>
     keys_total provider_keys (providers st') \<le> keys_total provider_keys (providers st)"

lemma advanced_trans [trans]: "advanced env a b \<Longrightarrow> advanced env b c \<Longrightarrow> advanced env a c"
  by (simp add: advanced_def)

lemma find_next_advances:
  assumes "state_ok env st" "keys_total provider_keys (providers st) < fuel"
  obtains m st' where "find_next_age_wcoj_survivor env fuel st = Inr (m, st')" "advanced env st st'" "sources st' = sources st" "same_block st st'"
    "survivors st' = survivors st" "m = None \<Longrightarrow> survivors st = {}"
    "\<And>k. m = Some k \<Longrightarrow> least_gid k (survivors st) \<and> list_all (positioned k) (providers st')"
proof -
  from find_next_law [OF assms] obtain m st' where r: "find_next_age_wcoj_survivor env fuel st = Inr (m, st')" "state_ok env st'" "survivors st' = survivors st"
    "same_block st st'" "keys_total provider_keys (providers st') \<le> keys_total provider_keys (providers st)"
    "case m of None \<Rightarrow> survivors st = {}
     | Some k \<Rightarrow> least_gid k (survivors st) \<and> (\<forall>p \<in> set (providers st'). has_current p \<and> current_key p = k \<and> least_gid k (provider_keys p))"
    unfolding searched_def by blast
  note src = find_next_sources [OF r(1)]
  have "advanced env st st'" unfolding advanced_def using r(2,4,5) sources_ids [OF src] by (simp add: same_block_def)
  with r src show thesis by (intro that [of m st']) (auto simp: list_all_iff positioned_def)
qed

lemma buffered_total: "list_all2 (buffered env k i) ps ps' \<Longrightarrow> list_all (env_ok env) ps \<Longrightarrow> keys_total provider_keys ps' \<le> keys_total provider_keys ps"
  by (induction rule: list_all2_induct) (auto simp: keys_total_def buffered_def intro!: add_mono card_mono provider.finite_keys)

lemma buffer_survivor_law:
  assumes ok: "state_ok env st" and at: "list_all (positioned k) (providers st)" and bl: "block_ok st" "length (survivor_block st) < survivor_block_capacity st"
  obtains c st' where "buffer_age_wcoj_survivor env k (length (survivor_block st)) st = Inr (c, st')" "advanced env st st'" "block_ok st'"
    "survivor_block st' = survivor_block st @ [k]" "survivor_block_capacity st' = survivor_block_capacity st"
    "survivor_input_exhausted st' = survivor_input_exhausted st" "survivor_block_index st' = survivor_block_index st"
    "survivors st' = survivors st - {k}" "\<not> c \<Longrightarrow> survivors st' = {}"
proof -
  let ?ps = "providers st" let ?i = "length (survivor_block st)" let ?cap = "survivor_block_capacity st"
  have S: "list_all (env_ok env) ?ps" "?ps \<noteq> []" using ok by (simp_all add: state_ok_def)
  have "list_all (has_room ?i ?cap) ?ps" using bl by (auto simp: list_all_iff block_ok_def plan_source_def has_room_def)
  from buffer_sources_law [OF S(1) at this bl(2), of "counters st"] obtain c ps' s' where
    r: "buffer_sources env k ?i ?cap ?ps (counters st) = Inr (c, ps', s')" "list_all2 (buffered env k ?i) ?ps ps'" "\<not> c \<longrightarrow> (\<exists>p \<in> set ps'. provider_keys p = {})" by blast
  define st' where "st' = st\<lparr>survivor_block := survivor_block st @ [k], providers := ps', counters := s'\<rparr>"
  note b = buffered_common [OF r(2) S(2)]
  have run: "buffer_age_wcoj_survivor env k ?i st = Inr (c, st')" using bl(2) r(1) by (simp add: buffer_age_wcoj_survivor_def st'_def Let_def)
  have "\<not> fresh p" if "p \<in> set ?ps" for p using at that by (auto simp: list_all_iff positioned_def fresh_def)
  then have "\<not> list_all fresh ?ps" using S(2) by (cases ?ps) auto
  then have "state_ok env st'" using ok b(2,4) S(2) unfolding state_ok_def st'_def by (cases ps') auto
  then have adv: "advanced env st st'" using b(3) buffered_total [OF r(2) S(1)] by (simp add: advanced_def ids_def st'_def)
  have "filled ?cap (survivor_block st @ [k]) (plan_source (ps' ! j))" if "j < length ps'" for j
    using filled_next [of ?cap "survivor_block st" "?ps ! j" env k "ps' ! j"] bl r(2) that by (auto simp: block_ok_def list_all_length list_all2_conv_all_nth)
  then have "block_ok st'" using bl(2) by (simp add: block_ok_def st'_def list_all_length)
  moreover have "\<not> c \<Longrightarrow> survivors st' = {}" using r(3) common_empty [of _ ps' provider_keys] by (auto simp: st'_def)
  ultimately show thesis using run adv b(1) by (intro that [of c st']) (simp_all add: st'_def)
qed

lemma fill_block_law:
  assumes "state_ok env st" "keys_total provider_keys (providers st) < fuel" "list_all (positioned k) (providers st)" "least_gid k (survivors st)"
    and "block_ok st" "length (survivor_block st) < cap" "survivor_block_capacity st = cap" "cap \<le> length (survivor_block st) + rounds"
  shows "\<exists>st' new. fill_block env fuel cap rounds k st = Inr st' \<and> advanced env st st' \<and> block_ok st' \<and> survivor_block st' = survivor_block st @ new \<and>
    new \<noteq> [] \<and> taken new (survivors st) (survivors st') \<and> (survivor_input_exhausted st' \<longrightarrow> survivor_input_exhausted st \<or> survivors st' = {})"
  using assms
proof (induction rounds arbitrary: k st)
  case (Suc rounds)
  obtain c st1 where b: "buffer_age_wcoj_survivor env k (length (survivor_block st)) st = Inr (c, st1)" "advanced env st st1" "block_ok st1"
    "survivor_block st1 = survivor_block st @ [k]" "survivor_block_capacity st1 = survivor_block_capacity st"
    "survivor_input_exhausted st1 = survivor_input_exhausted st" "survivor_block_index st1 = survivor_block_index st"
    "survivors st1 = survivors st - {k}" "\<not> c \<Longrightarrow> survivors st1 = {}"
    using buffer_survivor_law [OF Suc.prems(1,3,5)] Suc.prems(6,7) by metis
  have t: "taken [k] (survivors st) (survivors st1)"
    using taken_Cons [OF Suc.prems(4), of "[]" "survivors st1"] b(8) by (simp add: taken_def)
  have ex: "advanced env st (st2\<lparr>survivor_input_exhausted := True\<rparr>) \<and> block_ok (st2\<lparr>survivor_input_exhausted := True\<rparr>)"
    if "advanced env st st2" "block_ok st2" for st2 using that by (simp add: advanced_def state_ok_def ids_def block_ok_def)
  show ?case
  proof (cases "\<not> c")
    case True
    with b t ex show ?thesis by (intro exI [of _ "st1\<lparr>survivor_input_exhausted := True\<rparr>"] exI [of _ "[k]"]) simp
  next
    case c: False
    show ?thesis
    proof (cases "length (survivor_block st1) \<ge> cap \<or> env_block_full env st1")
      case True
      with c b t show ?thesis by (intro exI [of _ st1] exI [of _ "[k]"]) auto
    next
      case False
      have st1: "state_ok env st1" "keys_total provider_keys (providers st1) < fuel" using b(2) Suc.prems(2) by (auto simp: advanced_def)
      from st1 obtain m st2 where f: "find_next_age_wcoj_survivor env fuel st1 = Inr (m, st2)" "advanced env st1 st2" "sources st2 = sources st1"
        "same_block st1 st2" "survivors st2 = survivors st1" "m = None \<Longrightarrow> survivors st1 = {}"
        "\<And>k. m = Some k \<Longrightarrow> least_gid k (survivors st1) \<and> list_all (positioned k) (providers st2)" by (rule find_next_advances) blast
      have bl2: "block_ok st2" "survivor_block st2 = survivor_block st @ [k]" "survivor_block_capacity st2 = cap"
        "survivor_input_exhausted st2 = survivor_input_exhausted st"
        using b(3-6) f(3,4) Suc.prems(7) by (simp_all add: block_ok_def same_block_def)
      have adv2: "advanced env st st2" using b(2) f(2) by (rule advanced_trans)
      show ?thesis
      proof (cases m)
        case None
        with c False b(1) f(1,5,6) t ex [OF adv2 bl2(1)] bl2(2) show ?thesis
          by (intro exI [of _ "st2\<lparr>survivor_input_exhausted := True\<rparr>"] exI [of _ "[k]"]) simp
      next
        case (Some k')
        have "state_ok env st2" "keys_total provider_keys (providers st2) < fuel" using f(2) st1(2) by (auto simp: advanced_def)
        from Suc.IH [OF this, of k'] f(5,7) Some bl2 False b(4) Suc.prems(8) obtain st' new where
          r: "fill_block env fuel cap rounds k' st2 = Inr st'" "advanced env st2 st'" "block_ok st'" "survivor_block st' = survivor_block st2 @ new"
            "taken new (survivors st2) (survivors st')" "survivor_input_exhausted st' \<longrightarrow> survivor_input_exhausted st2 \<or> survivors st' = {}" by auto
        have "taken (k # new) (survivors st) (survivors st')" using r(5) f(5) b(8) by (intro taken_Cons [OF Suc.prems(4)]) simp
        moreover have "fill_block env fuel cap (Suc rounds) k st = Inr st'" using c False b(1) f(1) Some r(1) by simp
        ultimately show ?thesis using advanced_trans [OF adv2 r(2)] r(3,4,6) bl2(2,4) by (intro exI [of _ st'] exI [of _ "k # new"]) simp
      qed
    qed
  qed
qed simp

subsection \<open>The scan\<close>

lemma reset_keeps:
  assumes "state_ok env st"
  shows "advanced env st (reset_age_wcoj_survivor_block st)" "survivors (reset_age_wcoj_survivor_block st) = survivors st"
  using assms by (simp_all add: advanced_def state_ok_def reset_age_wcoj_survivor_block_def ids_def keys_total_def common_keys_def list_all_iff o_def)

lemma allocate_keeps:
  assumes "state_ok env st" "0 < cap" "list_all (positioned k) (providers st)" "survivor_block st = []"
  obtains st' where "allocate_age_wcoj_survivor_block cap st = Inr st'" "advanced env st st'" "survivors st' = survivors st"
    "list_all (positioned k) (providers st')" "survivor_block st' = []" "survivor_block_capacity st' = cap" "block_ok st'"
    "survivor_input_exhausted st' = survivor_input_exhausted st"
proof -
  define f where "f p = (case provider_kind p of AGE_WCOJ_PROVIDER_PLAN_STREAM \<Rightarrow> p\<lparr>batch_groups := replicate cap empty_group\<rparr>
    | AGE_WCOJ_PROVIDER_ADJACENCY \<Rightarrow> p)" for p :: "'a AgeWCOJPostingProvider"
  have f: "env_ok env (f p) = env_ok env p" "provider_keys (f p) = provider_keys p" "fresh (f p) = fresh p" "plan_id (f p) = plan_id p"
    "positioned k (f p) = positioned k p" "filled cap [] (plan_source (f p))" for p
    by (simp_all add: f_def positioned_def plan_source_def split: AgeWCOJProviderKind.split)
  let ?st = "st\<lparr>survivor_block_capacity := cap, providers := map f (providers st)\<rparr>"
  have "allocate_age_wcoj_survivor_block cap st = Inr ?st" using assms(2) by (simp add: allocate_age_wcoj_survivor_block_def f_def [abs_def])
  moreover have "advanced env st ?st" using assms(1) by (simp add: advanced_def state_ok_def ids_def keys_total_def list_all_iff o_def f)
  ultimately show thesis using assms(3,4) by (intro that [of ?st]) (simp_all add: common_keys_def list_all_iff block_ok_def f)
qed

lemma prepare_block_law:
  assumes ok: "state_ok env st" "keys_total provider_keys (providers st) < fuel" and ex: "survivor_input_exhausted st \<Longrightarrow> survivors st = {}"
    and cap: "\<And>st. 0 < env_block_capacity env st"
  shows "\<exists>b st'. prepare_age_wcoj_survivor_block env fuel st = Inr (b, st') \<and> advanced env st st' \<and> (survivor_input_exhausted st' \<longrightarrow> survivors st' = {}) \<and>
    survivor_block_index st' = 0 \<and> (\<not> b \<longrightarrow> survivors st = {} \<and> survivors st' = {} \<and> survivor_block st' = []) \<and>
    (b \<longrightarrow> survivor_block st' \<noteq> [] \<and> block_ok st' \<and> taken (survivor_block st') (survivors st) (survivors st'))"
proof -
  define st0 where "st0 = reset_age_wcoj_survivor_block st"
  have st0: "advanced env st st0" "survivors st0 = survivors st" using reset_keeps [OF ok(1)] by (simp_all add: st0_def)
  have f0: "survivor_block st0 = []" "survivor_block_index st0 = 0" "survivor_input_exhausted st0 = survivor_input_exhausted st"
    by (simp_all add: st0_def reset_age_wcoj_survivor_block_def)
  note P = prepare_age_wcoj_survivor_block_def [of env fuel st, folded st0_def, unfolded Let_def]
  show ?thesis
  proof (cases "survivor_input_exhausted st0")
    case True
    with ex st0 f0 show ?thesis unfolding P by (intro exI [of _ False] exI [of _ st0]) simp
  next
    case live: False
    have ok0: "state_ok env st0" "keys_total provider_keys (providers st0) < fuel" using st0(1) ok(2) by (auto simp: advanced_def)
    from ok0 obtain m st1 where f: "find_next_age_wcoj_survivor env fuel st0 = Inr (m, st1)" "advanced env st0 st1" "sources st1 = sources st0"
      "same_block st0 st1" "survivors st1 = survivors st0" "m = None \<Longrightarrow> survivors st0 = {}"
      "\<And>k. m = Some k \<Longrightarrow> least_gid k (survivors st0) \<and> list_all (positioned k) (providers st1)" by (rule find_next_advances) blast
    have f1: "survivor_block st1 = []" "survivor_block_index st1 = 0" "\<not> survivor_input_exhausted st1" using f(4) f0 live by (simp_all add: same_block_def)
    have adv1: "advanced env st st1" using st0(1) f(2) by (rule advanced_trans)
    show ?thesis
    proof (cases m)
      case None
      moreover have "advanced env st (st1\<lparr>survivor_input_exhausted := True\<rparr>)" using adv1 by (simp add: advanced_def state_ok_def ids_def)
      ultimately show ?thesis unfolding P using live f(1,5,6) st0(2) f1
        by (intro exI [of _ False] exI [of _ "st1\<lparr>survivor_input_exhausted := True\<rparr>"]) simp
    next
      case (Some k)
      let ?cap = "env_block_capacity env st1"
      have ok1: "state_ok env st1" using f(2) by (simp add: advanced_def)
      obtain st2 where a: "allocate_age_wcoj_survivor_block ?cap st1 = Inr st2" "advanced env st1 st2" "survivors st2 = survivors st1"
        "list_all (positioned k) (providers st2)" "survivor_block st2 = []" "survivor_block_capacity st2 = ?cap" "block_ok st2"
        "survivor_input_exhausted st2 = survivor_input_exhausted st1"
        using allocate_keeps [OF ok1 cap] f(7) [OF Some] f1(1) by metis
      have "state_ok env st2" "keys_total provider_keys (providers st2) < fuel" using a(2) f(2) ok0(2) by (auto simp: advanced_def)
      from fill_block_law [OF this a(4), of ?cap ?cap] f(5,7) Some a cap [of st1] obtain st3 new where
        r: "fill_block env fuel ?cap ?cap k st2 = Inr st3" "advanced env st2 st3" "block_ok st3" "survivor_block st3 = new" "new \<noteq> []"
          "taken new (survivors st2) (survivors st3)" "survivor_input_exhausted st3 \<longrightarrow> survivors st3 = {}" using f1(3) by auto
      define st4 where "st4 = st3\<lparr>counters := count_block (counters st3), survivor_block_index := 0\<rparr>"
      have "advanced env st st3" using advanced_trans [OF advanced_trans [OF adv1 a(2)] r(2)] .
      then have "advanced env st st4" "block_ok st4" using r(3) by (simp_all add: advanced_def state_ok_def ids_def block_ok_def st4_def)
      moreover have "prepare_age_wcoj_survivor_block env fuel st = Inr (True, st4)" unfolding P using live f(1) Some a(1) r(1,4,5) by (simp add: st4_def)
      ultimately show ?thesis using r(4-7) a(3) f(5) st0(2) by (intro exI [of _ True] exI [of _ st4]) (simp add: st4_def)
    qed
  qed
qed

text \<open>The survivors that are still to be handed out.\<close>

definition pending :: "'t AgeWCOJJoinScanState \<Rightarrow> graphid set" where
  "pending st = set (drop (survivor_block_index st) (survivor_block st)) \<union> survivors st"

definition scan_inv :: "'t join_env \<Rightarrow> nat \<Rightarrow> 't AgeWCOJJoinScanState \<Rightarrow> bool" where
  "scan_inv env fuel st \<longleftrightarrow> state_ok env st \<and> keys_total provider_keys (providers st) < fuel \<and>
     (survivor_input_exhausted st \<longrightarrow> survivors st = {}) \<and> (survivor_block_index st < length (survivor_block st) \<longrightarrow> block_ok st) \<and>
     taken (drop (survivor_block_index st) (survivor_block st)) (pending st) (survivors st) \<and> (scan_exhausted st \<longrightarrow> pending st = {})"

text \<open>Taking the survivor at the index of a block.\<close>

lemma take_survivor:
  assumes inv: "state_ok env st" "keys_total provider_keys (providers st) < fuel" "survivor_input_exhausted st \<longrightarrow> survivors st = {}" "block_ok st"
    and i: "survivor_block_index st < length (survivor_block st)" "\<not> scan_exhausted st"
    and t: "taken (drop (survivor_block_index st) (survivor_block st)) (pending st) (survivors st)"
  defines "k \<equiv> survivor_block st ! survivor_block_index st" and "st' \<equiv> st\<lparr>survivor_block_index := survivor_block_index st + 1\<rparr>"
  shows "arr_get (survivor_block st) (survivor_block_index st) = Inr k" "least_gid k (pending st)" "pending st' = pending st - {k}" "scan_inv env fuel st'" "block_ok st'"
proof -
  let ?B = "survivor_block st" let ?i = "survivor_block_index st"
  have d: "drop ?i ?B = k # drop (?i + 1) ?B" using i(1) by (simp add: k_def Cons_nth_drop_Suc)
  show "arr_get ?B ?i = Inr k" using i(1) by (simp add: k_def)
  from t have s: "gid_sorted (k # drop (?i + 1) ?B)" "\<forall>x \<in> set (k # drop (?i + 1) ?B). \<forall>y \<in> survivors st. sint x < sint y" by (simp_all add: taken_def d)
  then have k: "\<forall>x \<in> set (drop (?i + 1) ?B) \<union> survivors st. sint k < sint x" by auto
  then have "\<forall>x \<in> set (drop (?i + 1) ?B) \<union> survivors st. sint k \<le> sint x" by (meson less_imp_le)
  then show "least_gid k (pending st)" unfolding least_gid_def pending_def d by auto
  have p: "pending st' = set (drop (?i + 1) ?B) \<union> survivors st" by (simp add: pending_def st'_def)
  also have "\<dots> = pending st - {k}" unfolding pending_def d using k by auto
  finally show "pending st' = pending st - {k}" .
  show "block_ok st'" using inv(4) by (simp add: block_ok_def st'_def)
  moreover have "taken (drop (?i + 1) ?B) (pending st') (survivors st)" using s p by (simp add: taken_def)
  moreover have "state_ok env st'" using inv(1) by (simp add: state_ok_def st'_def)
  ultimately show "scan_inv env fuel st'" using inv(2,3) i(2) by (simp add: scan_inv_def st'_def)
qed

lemma next_survivor_law:
  assumes inv: "scan_inv env fuel st" and cap: "\<And>st. 0 < env_block_capacity env st"
  obtains (ended) st' where "next_block_survivor env fuel st = Inr (None, st')" "pending st = {}"
  | (survivor) k i st' where "next_block_survivor env fuel st = Inr (Some (k, i), st')" "least_gid k (pending st)" "pending st' = pending st - {k}"
      "scan_inv env fuel st'" "block_ok st'" "i < length (survivor_block st')" "survivor_block st' ! i = k" "ids st' = ids st"
proof -
  let ?go = "survivor_block_index st \<ge> length (survivor_block st)"
  have I: "state_ok env st" "keys_total provider_keys (providers st) < fuel" "survivor_input_exhausted st \<longrightarrow> survivors st = {}"
    "\<not> ?go \<longrightarrow> block_ok st" "taken (drop (survivor_block_index st) (survivor_block st)) (pending st) (survivors st)" "scan_exhausted st \<longrightarrow> pending st = {}"
    using inv by (simp_all add: scan_inv_def)
  have hand: thesis if "next_block_survivor env fuel st = bindE (arr_get (survivor_block st1) (survivor_block_index st1)) (\<lambda>k.
        Inr (Some (k, survivor_block_index st1), st1\<lparr>survivor_block_index := survivor_block_index st1 + 1\<rparr>))"
      "state_ok env st1" "keys_total provider_keys (providers st1) < fuel" "survivor_input_exhausted st1 \<longrightarrow> survivors st1 = {}" "block_ok st1"
      "survivor_block_index st1 < length (survivor_block st1)" "\<not> scan_exhausted st1"
      "taken (drop (survivor_block_index st1) (survivor_block st1)) (pending st1) (survivors st1)" "ids st1 = ids st" "pending st1 = pending st" for st1
    using take_survivor [OF that(2-8)] that(1,6,9,10)
    by (intro survivor [of "survivor_block st1 ! survivor_block_index st1" "survivor_block_index st1" "st1\<lparr>survivor_block_index := survivor_block_index st1 + 1\<rparr>"])
      (simp_all add: ids_def)
  show thesis
  proof (cases "scan_exhausted st")
    case True
    with I(6) show thesis by (intro ended [of st]) (simp_all add: next_block_survivor_def)
  next
    case live: False
    show thesis
    proof (cases ?go)
      case False
      with live I show thesis by (intro hand [of st]) (simp_all add: next_block_survivor_def)
    next
      case True
      obtain b st1 where p: "prepare_age_wcoj_survivor_block env fuel st = Inr (b, st1)" "advanced env st st1" "survivor_input_exhausted st1 \<longrightarrow> survivors st1 = {}"
        "survivor_block_index st1 = 0" "\<not> b \<longrightarrow> survivors st = {} \<and> survivors st1 = {} \<and> survivor_block st1 = []"
        "b \<longrightarrow> survivor_block st1 \<noteq> [] \<and> block_ok st1 \<and> taken (survivor_block st1) (survivors st) (survivors st1)"
        using prepare_block_law [OF I(1,2) _ cap] I(3) by metis
      have pend: "pending st = survivors st" using True by (simp add: pending_def)
      show thesis
      proof (cases b)
        case False
        with p(1,5) True live pend show thesis by (intro ended) (simp_all add: next_block_survivor_def)
      next
        case b: True
        then have t: "taken (survivor_block st1) (survivors st) (survivors st1)" "survivor_block st1 \<noteq> []" "block_ok st1" using p(6) by simp_all
        then have "pending st1 = pending st" using p(4) pend by (simp add: pending_def taken_def)
        with b p(1-4) t True live I(2) pend show thesis
          by (intro hand [of st1]) (simp_all add: next_block_survivor_def advanced_def)
      qed
    qed
  qed
qed

text \<open>The groups that are handed out for a survivor \<open>k\<close> of the sources \<open>ps\<close>.\<close>

definition groups_for :: "'t AgeWCOJPostingProvider list \<Rightarrow> graphid \<Rightarrow> 't AgeWCOJTupleGroup option list \<Rightarrow> bool" where
  "groups_for ps k gs \<longleftrightarrow> list_all2 (\<lambda>p g. case provider_kind p of
     AGE_WCOJ_PROVIDER_PLAN_STREAM \<Rightarrow> (\<exists>G. g = Some G \<and> group_of (edge_attr p) (input_rows p k) G)
   | AGE_WCOJ_PROVIDER_ADJACENCY \<Rightarrow> g = None) ps gs"

lemma groups_for_ids: "map plan_id ps = map plan_id qs \<Longrightarrow> groups_for ps k gs \<longleftrightarrow> groups_for qs k gs"
proof (induction ps arbitrary: qs gs)
  case (Cons p ps)
  then obtain q qs' where q: "qs = q # qs'" "plan_id p = plan_id q" "map plan_id ps = map plan_id qs'" by (cases qs) auto
  with Cons.IH [OF q(3)] show ?case by (cases gs) (auto simp: groups_for_def plan_id_def split: AgeWCOJProviderKind.splits)
qed simp

lemma collect_groups_law:
  assumes "list_all (filled cap block) (map plan_source ps)" "i < length block" "length block \<le> cap"
  shows "\<exists>gs. collect_groups i (length block) ps = Inr gs \<and> groups_for ps (block ! i) gs"
  using assms(1)
proof (induction ps)
  case (Cons p ps)
  then obtain gs where gs: "collect_groups i (length block) ps = Inr gs" "groups_for ps (block ! i) gs" by auto
  show ?case
  proof (cases "provider_kind p")
    case AGE_WCOJ_PROVIDER_PLAN_STREAM
    with Cons.prems assms(2,3) have "length (batch_groups p) = cap" "group_of (edge_attr p) (input_rows p (block ! i)) (batch_groups p ! i)"
      "input_rows p (block ! i) \<noteq> []" by (auto simp: plan_source_def)
    with gs AGE_WCOJ_PROVIDER_PLAN_STREAM assms(2,3) show ?thesis by (auto simp: buffered_group_def groups_for_def group_of_def)
  next
    case AGE_WCOJ_PROVIDER_ADJACENCY
    with gs show ?thesis by (simp add: groups_for_def)
  qed
qed (simp add: groups_for_def)

lemma scan_law:
  assumes cap: "\<And>st. 0 < env_block_capacity env st"
  shows "scan_inv env fuel st \<Longrightarrow> card (pending st) < n \<Longrightarrow> \<exists>out st'. scan_survivors env fuel n st = Inr (out, st') \<and> gid_sorted (map fst out) \<and>
    set (map fst out) = pending st \<and> (\<forall>(k, gs) \<in> set out. groups_for (providers st) k gs)"
proof (induction n arbitrary: st)
  case (Suc n)
  from Suc.prems(1) cap show ?case
  proof (cases rule: next_survivor_law)
    case (ended st')
    then show ?thesis by simp
  next
    case (survivor k i st')
    have fin: "finite (pending st)"
      using Suc.prems(1) provider.finite_keys [of "env_qsort_rows env" "env_qsort_gids env"]
      by (cases "providers st") (auto simp: scan_inv_def state_ok_def pending_def common_keys_def)
    have "card (pending st') < card (pending st)" using card_Diff1_less [OF fin, of k] survivor(2) unfolding survivor(3) least_gid_def by blast
    with Suc.prems(2) obtain out st2 where r: "scan_survivors env fuel n st' = Inr (out, st2)" "gid_sorted (map fst out)" "set (map fst out) = pending st'"
      "\<forall>(k, gs) \<in> set out. groups_for (providers st') k gs" using Suc.IH [OF survivor(4)] by auto
    obtain gs where gs: "collect_groups i (length (survivor_block st')) (providers st') = Inr gs" "groups_for (providers st') k gs"
      using collect_groups_law [of _ "survivor_block st'" "providers st'" i] survivor(5-7) by (auto simp: block_ok_def)
    have same: "groups_for (providers st') k' g \<longleftrightarrow> groups_for (providers st) k' g" for k' g
      using survivor(8) by (intro groups_for_ids) (simp add: ids_def)
    have "sint k < sint x" if "x \<in> pending st'" for x
      using survivor(2,3) that unfolding least_gid_def by (metis DiffE insertI1 order.not_eq_order_implies_strict sint_inject)
    then have "gid_sorted (map fst ((k, gs) # out))" using r(2,3) by auto
    moreover have "set (map fst ((k, gs) # out)) = pending st" using r(3) survivor(2,3) by (auto simp: least_gid_def)
    ultimately show ?thesis using survivor(1) gs r(1,4) same by (intro exI [of _ "(k, gs) # out"] exI [of _ st2]) simp
  qed
qed simp

subsection \<open>The join\<close>

text \<open>The keys of a source: those of its child plan's rows, or the terminals that are adjacent to them.\<close>

definition source_keys :: "'t AgeWCOJPostingProvider \<Rightarrow> graphid set" where
  "source_keys p =
     (let ks = set (List.map_filter (key_attr p) (plan_input p))
      in case provider_kind p of AGE_WCOJ_PROVIDER_PLAN_STREAM \<Rightarrow> ks | AGE_WCOJ_PROVIDER_ADJACENCY \<Rightarrow> (\<Union>k \<in> ks. set (terminal_scan p None k)))"

text \<open>The state before the first call.\<close>

definition scan_start :: "'t AgeWCOJJoinScanState \<Rightarrow> bool" where
  "scan_start st \<longleftrightarrow> list_all fresh (providers st) \<and> survivor_block st = [] \<and> \<not> survivor_input_exhausted st \<and> \<not> scan_exhausted st"

lemma fresh_keys: "fresh p \<Longrightarrow> provider_keys p = source_keys p"
  by (simp add: fresh_def provider_keys_def source_keys_def plan_keys_def adj_keys_def postings_def split: AgeWCOJProviderKind.split)

lemma start_keys: "scan_start st \<Longrightarrow> map provider_keys (providers st) = map source_keys (providers st)"
  by (simp add: scan_start_def list_all_iff fresh_keys)

lemma start_pending: "scan_start st \<Longrightarrow> pending st = (\<Inter>p \<in> set (providers st). source_keys p)"
  by (auto simp: scan_start_def pending_def common_keys_def list_all_iff fresh_keys)


definition wit_plan :: "(graphid \<times> nat) AgeWCOJPostingProvider" where
  "wit_plan = \<lparr>provider_kind = AGE_WCOJ_PROVIDER_PLAN_STREAM, plan_input = [(-2, 0), (3, 1), (3, 2), (5, 3)], plan_rows = [(-2, 0), (3, 1), (3, 2), (5, 3)],
     key_attr = (\<lambda>t. Some (fst t)), edge_attr = None, current_slot = None, current_key = 0, last_key = 0, has_current = False, has_last_key = False,
     exhausted = False, provider_rows = \<lparr>source_rows = [], source_row_capacity = 0, source_bag_bytes = 0\<rparr>, provider_bags = [], terminals = [],
     terminal_count = 0, terminal_capacity = 0, terminal_bytes = 0, terminal_index = 0, terminal_scan = (\<lambda>_ _. []), terminal_filter = None,
     built = False, rows_scanned = 0, batch_groups = []\<rparr>"

definition wit_adjacency :: "(graphid \<times> nat) AgeWCOJPostingProvider" where
  "wit_adjacency = wit_plan\<lparr>provider_kind := AGE_WCOJ_PROVIDER_ADJACENCY, plan_input := [(9, 0)], plan_rows := [(9, 0)],
     terminal_scan := (\<lambda>f k. filter (\<lambda>x. case f of None \<Rightarrow> True | Some cs \<Rightarrow> x \<in> set cs) [5, 3, 3, 7])\<rparr>"

definition wit_state :: "(graphid \<times> nat) AgeWCOJJoinScanState" where
  "wit_state = \<lparr>providers = [wit_plan, wit_adjacency], source_order = [1, 0], seed_index = 1, requested_engine = AGE_WCOJ_ENGINE_AUTO,
     actual_engine = AGE_WCOJ_ENGINE_PROGRESSIVE, fallback_reason = [], progressive_setup_done = False, counters = no_stats,
     survivor_block = [], survivor_block_capacity = 0, survivor_input_exhausted = False, survivor_block_index = 0, scan_exhausted = False\<rparr>"

definition wit_env :: "(graphid \<times> nat) join_env" where
  "wit_env = \<lparr>env_t_len = (\<lambda>_. 16), env_qsort_rows = key_insort, env_qsort_gids = sort_key sint, env_block_full = (\<lambda>_. False),
     env_block_capacity = (\<lambda>_. 1)\<rparr>"

lemma wit_ready:
  "state_ok wit_env wit_state" "scan_start wit_state" "set (map source_keys (providers wit_state)) = {{-2, 3, 5}, {3, 5, 7}}"
proof -
  have "qsort_sorts compare_age_wcoj_graphids (sort_key sint)"
    unfolding qsort_sorts_def using sorted_sort_key [of sint] by (auto simp: compare_age_wcoj_graphids_def sorted_map not_less)
  then have q: "qsorts_ok key_insort (sort_key sint)" using key_insort_sorts by (simp add: qsorts_ok_def)
  have plan: "provider_ok key_insort (sort_key sint) wit_plan"
    by (simp add: provider_ok_def plan_ok_def wit_plan_def map_filter_simps intact_def all_rows_def)
  have "scan_filters (terminal_scan wit_adjacency)" by (auto simp: scan_filters_def wit_adjacency_def)
  then have "adj_ok key_insort (sort_key sint) wit_adjacency" using q
    by (simp add: adj_ok_def unbuilt_def within_limits_def wit_adjacency_def wit_plan_def map_filter_simps)
  then have adj: "provider_ok key_insort (sort_key sint) wit_adjacency" by (simp add: provider_ok_def)
  have fr: "fresh wit_plan" "fresh wit_adjacency" by (simp_all add: fresh_def wit_plan_def wit_adjacency_def)
  have order: "{..<2} = {1, 0 :: nat}" by auto
  show "state_ok wit_env wit_state" using plan adj fr order by (simp add: state_ok_def wit_state_def wit_env_def numeral_2_eq_2)
  show "scan_start wit_state" using fr by (simp add: scan_start_def wit_state_def)
  have "source_keys wit_plan = {-2, 3, 5}" "source_keys wit_adjacency = {3, 5, 7}"
    by (simp_all add: source_keys_def wit_plan_def wit_adjacency_def map_filter_simps Let_def insert_commute)
  then show "set (map source_keys (providers wit_state)) = {{-2, 3, 5}, {3, 5, 7}}" by (simp add: wit_state_def)
qed

lemma gid_sorted_unique: "gid_sorted xs \<Longrightarrow> gid_sorted ys \<Longrightarrow> set xs = set ys \<Longrightarrow> xs = ys"
proof -
  assume s: "gid_sorted xs" "gid_sorted ys" "set xs = set ys"
  have "sorted_wrt (<) (map sint xs)" "sorted_wrt (<) (map sint ys)" using s(1,2) by (simp_all add: sorted_wrt_map)
  then have "sorted (map sint xs) \<and> distinct (map sint xs)" "sorted (map sint ys) \<and> distinct (map sint ys)" by (simp_all only: strict_sorted_iff)
  then have "map sint xs = map sint ys" using s(3) by (intro sorted_distinct_set_unique) simp_all
  then show "xs = ys" by (rule map_injective) (simp add: inj_def)
qed


end
