(* ===== verification/Binding_Node.thy ===== *)
theory Binding_Node
  imports Binding_Source
begin

text \<open>
  Binding nodes and their multiplicities (\<open>src/backend/executor/cypher_factorized_binding.c\<close>). A node
  stands for the product of its source bags, edge bags and child nodes; its multiplicity is the
  number of flat rows in that product, computed with saturating 64-bit arithmetic. Nodes live in a
  heap, since children are shared by pointer and computing a multiplicity writes to all of them.
\<close>

subsection \<open>Multiplicities\<close>

record AgeBindingMultiplicity =
  mult_count :: int
  overflowed :: bool

definition err_multiplicity :: age_error where "err_multiplicity = Ereport ''invalid AGE factorized binding multiplicity''"

definition age_binding_multiplicity_zero :: AgeBindingMultiplicity where
  "age_binding_multiplicity_zero = \<lparr>mult_count = 0, overflowed = False\<rparr>"

definition age_binding_multiplicity_one :: AgeBindingMultiplicity where
  "age_binding_multiplicity_one = \<lparr>mult_count = 1, overflowed = False\<rparr>"

definition age_binding_multiplicity_from_count :: "int \<Rightarrow> AgeBindingMultiplicity result" where
  "age_binding_multiplicity_from_count n =
     (if n < 0 then Inl err_multiplicity else Inr \<lparr>mult_count = n, overflowed = False\<rparr>)"

definition age_binding_multiplicity_product ::
    "AgeBindingMultiplicity \<Rightarrow> AgeBindingMultiplicity \<Rightarrow> AgeBindingMultiplicity result" where
  "age_binding_multiplicity_product l r =
     (let ov = (overflowed l \<or> overflowed r) in
      if mult_count l < 0 \<or> mult_count r < 0 then Inl err_multiplicity
      else if mult_count l = 0 \<or> mult_count r = 0 then Inr \<lparr>mult_count = 0, overflowed = ov\<rparr>
      else if mult_count l > PG_INT64_MAX div mult_count r then Inr \<lparr>mult_count = PG_INT64_MAX, overflowed = True\<rparr>
      else Inr \<lparr>mult_count = mult_count l * mult_count r, overflowed = ov\<rparr>)"

definition age_binding_multiplicity_product_count :: "AgeBindingMultiplicity \<Rightarrow> int \<Rightarrow> AgeBindingMultiplicity result" where
  "age_binding_multiplicity_product_count m n =
     bindE (age_binding_multiplicity_from_count n) (\<lambda>c. age_binding_multiplicity_product m c)"

definition age_binding_multiplicity_count :: "AgeBindingMultiplicity \<Rightarrow> int result" where
  "age_binding_multiplicity_count m = (if mult_count m < 0 then Inl err_multiplicity else Inr (mult_count m))"

definition age_binding_multiplicity_overflowed :: "AgeBindingMultiplicity \<Rightarrow> bool" where
  "age_binding_multiplicity_overflowed m = overflowed m"

definition age_binding_multiplicity_is_zero :: "AgeBindingMultiplicity \<Rightarrow> bool result" where
  "age_binding_multiplicity_is_zero m = bindE (age_binding_multiplicity_count m) (\<lambda>n. Inr (n = 0))"

subsection \<open>Nodes\<close>

record AgeBindingSourceBag =
  sb_key :: graphid
  sb_first_row :: int
  sb_row_count :: int
  sb_payload :: nat
  sb_payload_bytes :: int

record AgeBindingEdgeBag =
  eb_source_bag_index :: int
  eb_first_payload :: int
  eb_payload_count :: int
  eb_logical_count :: int
  eb_payload :: nat
  eb_payload_bytes :: int

text \<open>The lists hold the used entries of the arrays, so their lengths are the counts of the code.\<close>

record AgeBindingNode =
  node_key :: graphid
  key_valid :: bool
  source_bags :: "AgeBindingSourceBag list"
  source_bag_capacity :: int
  edge_bags :: "AgeBindingEdgeBag list"
  edge_bag_capacity :: int
  children :: "(nat \<times> AgeBindingMultiplicity) list"
  child_capacity :: int
  multiplicity :: AgeBindingMultiplicity
  candidate_flat_rows :: int
  materialized_flat_rows :: int
  flat_rows_avoided :: int
  memory_bytes :: int

record binding_heap =
  nodes :: "nat \<rightharpoonup> AgeBindingNode"
  node_brk :: nat

definition sizeof_AgeBindingNode :: int where "sizeof_AgeBindingNode = 120"
definition sizeof_AgeBindingSourceBag :: int where "sizeof_AgeBindingSourceBag = 32"
definition sizeof_AgeBindingEdgeBag :: int where "sizeof_AgeBindingEdgeBag = 32"
definition sizeof_AgeChildBinding :: int where "sizeof_AgeChildBinding = 24"

definition err_node :: age_error where "err_node = Ereport ''invalid AGE factorized binding node''"

definition get_node :: "binding_heap \<Rightarrow> nat \<Rightarrow> AgeBindingNode result" where
  "get_node h a = (case nodes h a of None \<Rightarrow> Inl BadAccess | Some n \<Rightarrow> Inr n)"

definition put_node :: "binding_heap \<Rightarrow> nat \<Rightarrow> AgeBindingNode \<Rightarrow> binding_heap" where
  "put_node h a n = h\<lparr>nodes := (nodes h)(a \<mapsto> n)\<rparr>"

text \<open>The growth of \<open>new_capacity\<close> until it reaches \<open>required\<close>; it starts positive.\<close>

function grow_capacity :: "int \<Rightarrow> int \<Rightarrow> int" where
  "grow_capacity new_capacity required =
     (if 0 < new_capacity \<and> new_capacity < required
      then grow_capacity (if new_capacity > PG_INT32_MAX div 2 then required else new_capacity * 2) required
      else new_capacity)"
  by pat_completeness auto
termination by (relation "measure (\<lambda>(n, r). nat (r - n))") auto

declare grow_capacity.simps [simp del]

text \<open>\<open>age_binding_enlarge_array\<close> on the capacity and the byte counter; the added cells are unused.\<close>

definition age_binding_enlarge_array :: "int \<Rightarrow> int \<Rightarrow> int \<Rightarrow> int \<Rightarrow> string \<Rightarrow> (int \<times> int) result" where
  "age_binding_enlarge_array capacity required element_size bytes detail =
     (if required \<le> 0 \<or> element_size = 0 then Inl (Ereport ''invalid AGE factorized binding array state'')
      else if capacity \<ge> required then Inr (capacity, bytes)
      else let new_capacity = grow_capacity (if capacity = 0 then 4 else capacity * 2) required
           in if new_capacity \<le> capacity \<or> new_capacity > MaxAllocSize div element_size then Inl (Ereport detail)
              else Inr (new_capacity, age_binding_add_byte_counter bytes (element_size * (new_capacity - capacity))))"

definition age_binding_create_node :: "binding_heap \<Rightarrow> graphid \<Rightarrow> bool \<Rightarrow> nat \<times> binding_heap" where
  "age_binding_create_node h key valid =
     (node_brk h,
      h\<lparr>nodes := (nodes h)(node_brk h \<mapsto>
          \<lparr>node_key = key, key_valid = valid, source_bags = [], source_bag_capacity = 0, edge_bags = [], edge_bag_capacity = 0,
           children = [], child_capacity = 0, multiplicity = age_binding_multiplicity_one, candidate_flat_rows = 1,
           materialized_flat_rows = 0, flat_rows_avoided = 0, memory_bytes = sizeof_AgeBindingNode\<rparr>),
        node_brk := Suc (node_brk h)\<rparr>)"

definition age_binding_node_base_memory :: "AgeBindingNode \<Rightarrow> int" where
  "age_binding_node_base_memory n =
     age_binding_add_byte_counter
       (age_binding_add_byte_counter
         (age_binding_add_byte_counter sizeof_AgeBindingNode (sizeof_AgeBindingSourceBag * source_bag_capacity n))
         (sizeof_AgeBindingEdgeBag * edge_bag_capacity n))
       (sizeof_AgeChildBinding * child_capacity n)"

definition age_binding_reset_node :: "binding_heap \<Rightarrow> nat option \<Rightarrow> binding_heap result" where
  "age_binding_reset_node h p =
     (case p of
        None \<Rightarrow> Inl err_node
      | Some a \<Rightarrow> bindE (get_node h a) (\<lambda>n.
          Inr (put_node h a (n\<lparr>source_bags := [], edge_bags := [], children := [], multiplicity := age_binding_multiplicity_one,
                 candidate_flat_rows := 1, materialized_flat_rows := 0, flat_rows_avoided := 0,
                 memory_bytes := age_binding_node_base_memory n\<rparr>))))"

text \<open>Freeing a node frees its arrays and leaves its children alone.\<close>

definition age_binding_free_node :: "binding_heap \<Rightarrow> nat option \<Rightarrow> binding_heap result" where
  "age_binding_free_node h p =
     (case p of
        None \<Rightarrow> Inr h
      | Some a \<Rightarrow> bindE (get_node h a) (\<lambda>_. Inr (h\<lparr>nodes := (nodes h)(a := None)\<rparr>)))"

definition account_memory :: "int \<Rightarrow> AgeBindingNode \<Rightarrow> AgeBindingNode" where
  "account_memory bytes n = n\<lparr>memory_bytes := age_binding_add_byte_counter (memory_bytes n) bytes\<rparr>"

definition age_binding_node_account_memory :: "binding_heap \<Rightarrow> nat option \<Rightarrow> int \<Rightarrow> binding_heap result" where
  "age_binding_node_account_memory h p bytes =
     (case p of None \<Rightarrow> Inl err_node | Some a \<Rightarrow> bindE (get_node h a) (\<lambda>n. Inr (put_node h a (account_memory bytes n))))"

definition age_binding_node_add_source_bag ::
    "binding_heap \<Rightarrow> nat option \<Rightarrow> graphid \<Rightarrow> int \<Rightarrow> int \<Rightarrow> nat \<Rightarrow> int \<Rightarrow> binding_heap result" where
  "age_binding_node_add_source_bag h p key row0 rows payload payload_bytes =
     (case p of
        None \<Rightarrow> Inl (Ereport ''invalid AGE factorized binding source bag'')
      | Some a \<Rightarrow>
          if row0 < 0 \<or> rows \<le> 0 then Inl (Ereport ''invalid AGE factorized binding source bag'')
          else bindE (get_node h a) (\<lambda>n.
               bindE (age_binding_enlarge_array (source_bag_capacity n) (int (length (source_bags n)) + 1) sizeof_AgeBindingSourceBag
                        (memory_bytes n) ''AGE factorized binding source bags are too large'') (\<lambda>(capacity, bytes).
               Inr (put_node h a (account_memory payload_bytes (n\<lparr>source_bag_capacity := capacity, memory_bytes := bytes,
                      source_bags := source_bags n @ [\<lparr>sb_key = key, sb_first_row = row0, sb_row_count = rows,
                        sb_payload = payload, sb_payload_bytes = payload_bytes\<rparr>]\<rparr>))))))"

definition age_binding_node_add_edge_bag ::
    "binding_heap \<Rightarrow> nat option \<Rightarrow> int \<Rightarrow> int \<Rightarrow> int \<Rightarrow> int \<Rightarrow> nat \<Rightarrow> int \<Rightarrow> binding_heap result" where
  "age_binding_node_add_edge_bag h p source_bag_index payload0 payloads logical payload payload_bytes =
     (case p of
        None \<Rightarrow> Inl (Ereport ''invalid AGE factorized binding edge bag'')
      | Some a \<Rightarrow>
          if source_bag_index < -1 \<or> payload0 < 0 \<or> payloads \<le> 0 \<or> logical \<le> 0
          then Inl (Ereport ''invalid AGE factorized binding edge bag'')
          else bindE (get_node h a) (\<lambda>n.
               if source_bag_index \<ge> int (length (source_bags n)) then Inl (Ereport ''invalid AGE factorized binding edge source bag'')
               else bindE (age_binding_enlarge_array (edge_bag_capacity n) (int (length (edge_bags n)) + 1) sizeof_AgeBindingEdgeBag
                        (memory_bytes n) ''AGE factorized binding edge bags are too large'') (\<lambda>(capacity, bytes).
               Inr (put_node h a (account_memory payload_bytes (n\<lparr>edge_bag_capacity := capacity, memory_bytes := bytes,
                      edge_bags := edge_bags n @ [\<lparr>eb_source_bag_index = source_bag_index, eb_first_payload = payload0,
                        eb_payload_count = payloads, eb_logical_count = logical, eb_payload = payload,
                        eb_payload_bytes = payload_bytes\<rparr>]\<rparr>))))))"

subsection \<open>The multiplicity of a node\<close>

text \<open>The loops over the counts of the bags.\<close>

fun product_counts :: "AgeBindingMultiplicity \<Rightarrow> int list \<Rightarrow> AgeBindingMultiplicity result" where
  "product_counts m [] = Inr m"
| "product_counts m (n # ns) = bindE (age_binding_multiplicity_product_count m n) (\<lambda>m'. product_counts m' ns)"

text \<open>The loop over the children; \<open>mcall\<close> is the recursive call.\<close>

fun product_children ::
    "(binding_heap \<Rightarrow> nat \<Rightarrow> (AgeBindingMultiplicity \<times> binding_heap) result) \<Rightarrow> nat \<Rightarrow> nat list \<Rightarrow>
     AgeBindingMultiplicity \<Rightarrow> binding_heap \<Rightarrow> (AgeBindingMultiplicity \<times> binding_heap) result" where
  "product_children mcall a [] m h = Inr (m, h)"
| "product_children mcall a (i # is) m h =
     bindE (get_node h a) (\<lambda>n.
     bindE (arr_get (children n) i) (\<lambda>(c, _).
     bindE (mcall h c) (\<lambda>(cm, h1).
     bindE (get_node h1 a) (\<lambda>n1.
     bindE (arr_set (children n1) i (c, cm)) (\<lambda>cs.
     bindE (age_binding_multiplicity_product m cm) (\<lambda>m'.
       product_children mcall a is m' (put_node h1 a (n1\<lparr>children := cs\<rparr>))))))))"

primrec age_binding_node_multiplicity :: "nat \<Rightarrow> binding_heap \<Rightarrow> nat \<Rightarrow> (AgeBindingMultiplicity \<times> binding_heap) result" where
  "age_binding_node_multiplicity 0 h a = Inl OutOfFuel"
| "age_binding_node_multiplicity (Suc fuel) h a =
     bindE (get_node h a) (\<lambda>n.
     bindE (product_counts age_binding_multiplicity_one (map sb_row_count (source_bags n))) (\<lambda>m1.
     bindE (product_counts m1 (map eb_logical_count (edge_bags n))) (\<lambda>m2.
     bindE (product_children (age_binding_node_multiplicity fuel) a [0..<length (children n)] m2 h) (\<lambda>(m, h1).
     bindE (get_node h1 a) (\<lambda>n1.
       Inr (m, put_node h1 a (n1\<lparr>multiplicity := m, candidate_flat_rows := mult_count m\<rparr>)))))))"

definition age_binding_node_add_child :: "nat \<Rightarrow> binding_heap \<Rightarrow> nat option \<Rightarrow> nat option \<Rightarrow> binding_heap result" where
  "age_binding_node_add_child fuel h p child =
     (case (p, child) of
        (Some a, Some c) \<Rightarrow>
          bindE (get_node h a) (\<lambda>n.
          bindE (age_binding_enlarge_array (child_capacity n) (int (length (children n)) + 1) sizeof_AgeChildBinding
                   (memory_bytes n) ''AGE factorized child bindings are too large'') (\<lambda>(capacity, bytes).
          let h1 = put_node h a (n\<lparr>child_capacity := capacity, memory_bytes := bytes,
                     children := children n @ [(c, age_binding_multiplicity_zero)]\<rparr>)
          in bindE (age_binding_node_multiplicity fuel h1 c) (\<lambda>(m, h2).
             bindE (get_node h2 a) (\<lambda>n2.
             bindE (arr_set (children n2) (length (children n)) (c, m)) (\<lambda>cs.
             Inr (put_node h2 a (n2\<lparr>children := cs\<rparr>)))))))
      | _ \<Rightarrow> Inl (Ereport ''invalid AGE factorized child binding''))"

definition age_binding_node_flat_cardinality :: "nat \<Rightarrow> binding_heap \<Rightarrow> nat \<Rightarrow> (int \<times> binding_heap) result" where
  "age_binding_node_flat_cardinality fuel h a =
     bindE (age_binding_node_multiplicity fuel h a) (\<lambda>(m, h1). bindE (age_binding_multiplicity_count m) (\<lambda>n. Inr (n, h1)))"

definition age_binding_node_note_flat_enumeration :: "nat \<Rightarrow> binding_heap \<Rightarrow> nat option \<Rightarrow> int \<Rightarrow> binding_heap result" where
  "age_binding_node_note_flat_enumeration fuel h p materialized_rows =
     (case p of
        None \<Rightarrow> Inl (Ereport ''invalid AGE factorized binding enumeration count'')
      | Some a \<Rightarrow>
          if materialized_rows < 0 then Inl (Ereport ''invalid AGE factorized binding enumeration count'')
          else bindE (age_binding_node_flat_cardinality fuel h a) (\<lambda>(candidate_rows, h1).
               bindE (get_node h1 a) (\<lambda>n.
               let mat = age_binding_add_counter (materialized_flat_rows n) materialized_rows
               in Inr (put_node h1 a (n\<lparr>materialized_flat_rows := mat,
                    flat_rows_avoided := (if candidate_rows > mat then candidate_rows - mat else 0)\<rparr>)))))"

definition node_field :: "(AgeBindingNode \<Rightarrow> int) \<Rightarrow> binding_heap \<Rightarrow> nat option \<Rightarrow> int result" where
  "node_field sel h p = (case p of None \<Rightarrow> Inl err_node | Some a \<Rightarrow> bindE (get_node h a) (\<lambda>n. Inr (sel n)))"

definition age_binding_node_candidate_flat_rows :: "binding_heap \<Rightarrow> nat option \<Rightarrow> int result" where
  "age_binding_node_candidate_flat_rows = node_field candidate_flat_rows"

definition age_binding_node_materialized_flat_rows :: "binding_heap \<Rightarrow> nat option \<Rightarrow> int result" where
  "age_binding_node_materialized_flat_rows = node_field materialized_flat_rows"

definition age_binding_node_flat_rows_avoided :: "binding_heap \<Rightarrow> nat option \<Rightarrow> int result" where
  "age_binding_node_flat_rows_avoided = node_field flat_rows_avoided"

definition age_binding_node_memory_bytes :: "binding_heap \<Rightarrow> nat option \<Rightarrow> int result" where
  "age_binding_node_memory_bytes = node_field memory_bytes"

subsection \<open>Multiplicities count flat rows\<close>

text \<open>\<open>m\<close> stands for \<open>k\<close> rows.\<close>

definition stands_for :: "AgeBindingMultiplicity \<Rightarrow> int \<Rightarrow> bool" where
  "stands_for m k \<longleftrightarrow> 1 \<le> k \<and> mult_count m = min k PG_INT64_MAX \<and> (overflowed m \<longleftrightarrow> PG_INT64_MAX < k)"

lemma stands_for_one [simp]: "stands_for age_binding_multiplicity_one 1"
  by (simp add: stands_for_def age_binding_multiplicity_one_def PG_INT64_MAX_def)

lemma product_stands_for:
  assumes "stands_for l j" "stands_for r k"
  shows "\<exists>m. age_binding_multiplicity_product l r = Inr m \<and> stands_for m (j * k)"
proof -
  have l: "1 \<le> j" "mult_count l = min j PG_INT64_MAX" "overflowed l \<longleftrightarrow> PG_INT64_MAX < j"
    and r: "1 \<le> k" "mult_count r = min k PG_INT64_MAX" "overflowed r \<longleftrightarrow> PG_INT64_MAX < k"
    using assms by (auto simp: stands_for_def)
  let ?c = "mult_count r"
  have pos: "1 \<le> mult_count l" "1 \<le> ?c" using l r by (simp_all add: PG_INT64_MAX_def)
  have jk: "1 \<le> j * k" "j \<le> j * k" "k \<le> j * k"
    using mult_mono [of 1 j 1 k] mult_mono [of j j 1 k] mult_mono [of 1 j k k] l(1) r(1) by simp_all
  have guard: "mult_count l > PG_INT64_MAX div ?c \<longleftrightarrow> PG_INT64_MAX < mult_count l * ?c" using pos by (intro div_less_mult) simp
  have eq: "age_binding_multiplicity_product l r =
      Inr (if mult_count l > PG_INT64_MAX div ?c then \<lparr>mult_count = PG_INT64_MAX, overflowed = True\<rparr>
           else \<lparr>mult_count = mult_count l * ?c, overflowed = overflowed l \<or> overflowed r\<rparr>)"
    using pos unfolding age_binding_multiplicity_product_def Let_def by simp
  have over: "PG_INT64_MAX < j * k \<longleftrightarrow> mult_count l > PG_INT64_MAX div ?c \<or> overflowed l \<or> overflowed r"
  proof (cases "j \<le> PG_INT64_MAX \<and> k \<le> PG_INT64_MAX")
    case True
    then show ?thesis unfolding guard l(3) r(3) using l(2) r(2) by (simp add: min_def)
  next
    case False
    then show ?thesis using jk(2,3) unfolding l(3) r(3) by linarith
  qed
  have cut: "mult_count l * ?c = min (j * k) PG_INT64_MAX" if ng: "\<not> mult_count l > PG_INT64_MAX div ?c"
  proof (cases "j \<le> PG_INT64_MAX \<and> k \<le> PG_INT64_MAX")
    case True
    then show ?thesis using ng l(2) r(2) unfolding guard by (simp add: min_def)
  next
    case False
    have "PG_INT64_MAX \<le> mult_count l * ?c"
      using False mult_mono [of PG_INT64_MAX "mult_count l" 1 ?c] mult_mono [of 1 "mult_count l" PG_INT64_MAX ?c] pos l(2) r(2) by auto
    moreover have "PG_INT64_MAX < j * k" using False jk(2,3) by linarith
    ultimately show ?thesis using ng unfolding guard by simp
  qed
  show ?thesis
  proof (cases "mult_count l > PG_INT64_MAX div ?c")
    case True
    then show ?thesis using over jk(1) unfolding eq by (simp add: stands_for_def)
  next
    case False
    then show ?thesis using over jk(1) cut unfolding eq by (simp add: stands_for_def)
  qed
qed

lemma product_counts_stands_for:
  "stands_for m j \<Longrightarrow> \<forall>n \<in> set ns. 0 < n \<and> n \<le> PG_INT64_MAX \<Longrightarrow> \<exists>m'. product_counts m ns = Inr m' \<and> stands_for m' (j * prod_list ns)"
proof (induction ns arbitrary: m j)
  case (Cons n ns)
  then have "stands_for \<lparr>mult_count = n, overflowed = False\<rparr> n" "\<not> n < 0" by (auto simp: stands_for_def)
  with product_stands_for [OF Cons.prems(1)] obtain m1 where
    "age_binding_multiplicity_product_count m n = Inr m1" "stands_for m1 (j * n)"
    by (auto simp: age_binding_multiplicity_product_count_def age_binding_multiplicity_from_count_def)
  with Cons.IH [of m1 "j * n"] Cons.prems(2) show ?case by (auto simp: mult.assoc)
qed simp

subsection \<open>The flat rows of a node\<close>

text \<open>The number of rows of the product a node stands for; only nodes without a cycle below them have one.\<close>

inductive flat_rows :: "binding_heap \<Rightarrow> nat \<Rightarrow> int \<Rightarrow> bool" for h where
  "nodes h a = Some n \<Longrightarrow> list_all2 (\<lambda>c k. flat_rows h (fst c) k) (children n) ks \<Longrightarrow>
   flat_rows h a (prod_list (map sb_row_count (source_bags n)) * prod_list (map eb_logical_count (edge_bags n)) * prod_list ks)"

text \<open>What the bags of every node satisfy, since the \<open>add\<close> operations refuse other counts.\<close>

definition node_ok :: "AgeBindingNode \<Rightarrow> bool" where
  "node_ok n \<longleftrightarrow> (\<forall>b \<in> set (source_bags n). 0 < sb_row_count b \<and> sb_row_count b \<le> PG_INT32_MAX) \<and>
     (\<forall>b \<in> set (edge_bags n). 0 < eb_logical_count b \<and> eb_logical_count b \<le> PG_INT32_MAX)"

definition heap_ok :: "binding_heap \<Rightarrow> bool" where
  "heap_ok h \<longleftrightarrow> (\<forall>a n. nodes h a = Some n \<longrightarrow> node_ok n)"

definition shape :: "AgeBindingNode \<Rightarrow> AgeBindingSourceBag list \<times> AgeBindingEdgeBag list \<times> nat list" where
  "shape n = (source_bags n, edge_bags n, map fst (children n))"

definition same_shape :: "binding_heap \<Rightarrow> binding_heap \<Rightarrow> bool" where
  "same_shape h h' \<longleftrightarrow> (\<forall>a. map_option shape (nodes h' a) = map_option shape (nodes h a))"

lemma same_shape_refl [simp]: "same_shape h h"
  by (simp add: same_shape_def)

lemma same_shape_trans: "same_shape h h1 \<Longrightarrow> same_shape h1 h2 \<Longrightarrow> same_shape h h2"
  by (simp add: same_shape_def)

lemma same_shape_get: "same_shape h h' \<Longrightarrow> nodes h a = Some n \<Longrightarrow> \<exists>n'. nodes h' a = Some n' \<and> shape n' = shape n"
  unfolding same_shape_def by (metis map_option_eq_Some)

lemma same_shape_put: "nodes h a = Some n \<Longrightarrow> shape n' = shape n \<Longrightarrow> same_shape h (put_node h a n')"
  by (simp add: same_shape_def put_node_def)

lemma node_ok_shape: "shape n' = shape n \<Longrightarrow> node_ok n \<Longrightarrow> node_ok n'"
  by (simp add: shape_def node_ok_def)

text \<open>A call that works on every heap of the shape of \<open>h\<close>.\<close>

definition counts_rows :: "binding_heap \<Rightarrow> (binding_heap \<Rightarrow> nat \<Rightarrow> (AgeBindingMultiplicity \<times> binding_heap) result) \<Rightarrow> nat \<Rightarrow> int \<Rightarrow> bool" where
  "counts_rows h mcall a k \<longleftrightarrow> (\<forall>h1. same_shape h h1 \<longrightarrow> (\<exists>m h2. mcall h1 a = Inr (m, h2) \<and> stands_for m k \<and> same_shape h1 h2))"

lemma product_children_rows:
  assumes "nodes h a = Some n" "length ks = length (children n)"
    and "\<And>i. i < length ks \<Longrightarrow> counts_rows h mcall (fst (children n ! i)) (ks ! i)"
  shows "same_shape h h1 \<Longrightarrow> stands_for m j \<Longrightarrow> i \<le> length ks \<Longrightarrow>
    \<exists>m' h2. product_children mcall a [i..<length ks] m h1 = Inr (m', h2) \<and> stands_for m' (j * prod_list (drop i ks)) \<and> same_shape h1 h2"
proof (induction "length ks - i" arbitrary: i m j h1)
  case 0
  then show ?case by simp
next
  case (Suc d)
  then have i: "i < length ks" by simp
  obtain n1 where n1: "nodes h1 a = Some n1" "shape n1 = shape n" using same_shape_get [OF Suc.prems(1) assms(1)] by blast
  define c where "c = fst (children n ! i)"
  have len: "length (children n1) = length ks" and fc: "fst (children n1 ! i) = c"
    using n1(2) assms(2) i by (auto simp: shape_def c_def dest: map_eq_imp_length_eq) (metis assms(2) length_map nth_map)
  obtain m1 h2 where r: "mcall h1 c = Inr (m1, h2)" "stands_for m1 (ks ! i)" "same_shape h1 h2"
    using assms(3) [OF i] Suc.prems(1) unfolding counts_rows_def c_def by blast
  obtain n2 where n2: "nodes h2 a = Some n2" "shape n2 = shape n1" using same_shape_get [OF r(3) n1(1)] by blast
  have len2: "length (children n2) = length ks" and fc2: "fst (children n2 ! i) = c"
    using n2(2) len fc i by (auto simp: shape_def dest: map_eq_imp_length_eq) (metis len length_map nth_map)
  obtain m2 where m2: "age_binding_multiplicity_product m m1 = Inr m2" "stands_for m2 (j * ks ! i)"
    using product_stands_for [OF Suc.prems(2) r(2)] by blast
  define h3 where "h3 = put_node h2 a (n2\<lparr>children := (children n2)[i := (c, m1)]\<rparr>)"
  have "map fst ((children n2)[i := (c, m1)]) = map fst (children n2)"
    using fc2 len2 i by (metis fst_conv list_update_id map_update nth_map)
  then have s3: "same_shape h2 h3" unfolding h3_def by (intro same_shape_put [OF n2(1)]) (simp add: shape_def)
  have "same_shape h h3" using Suc.prems(1) r(3) s3 same_shape_trans by blast
  have "d = length ks - Suc i" "Suc i \<le> length ks" using Suc.hyps(2) i by simp_all
  from Suc.hyps(1) [OF this(1) \<open>same_shape h h3\<close> m2(2) this(2)] obtain m' h4 where
    IH: "product_children mcall a [Suc i..<length ks] m2 h3 = Inr (m', h4)" "stands_for m' (j * ks ! i * prod_list (drop (Suc i) ks))" "same_shape h3 h4"
    by blast
  have "product_children mcall a [i..<length ks] m h1 = Inr (m', h4)"
    using i n1(1) len fc r(1) n2(1) len2 m2(1) IH(1) h3_def
    by (simp add: upt_conv_Cons get_node_def split_beta)
  moreover have "prod_list (drop i ks) = ks ! i * prod_list (drop (Suc i) ks)" using i by (simp add: Cons_nth_drop_Suc [symmetric])
  moreover have "same_shape h1 h4" by (rule same_shape_trans [OF r(3) same_shape_trans [OF s3 IH(3)]])
  ultimately show ?case using IH(2) by (simp add: mult.assoc)
qed

lemma multiplicity_step:
  assumes "nodes h a = Some n" "node_ok n" "length ks = length (children n)"
    and "\<And>i. i < length ks \<Longrightarrow> counts_rows h (age_binding_node_multiplicity fuel) (fst (children n ! i)) (ks ! i)"
  shows "counts_rows h (age_binding_node_multiplicity (Suc fuel)) a
    (prod_list (map sb_row_count (source_bags n)) * prod_list (map eb_logical_count (edge_bags n)) * prod_list ks)"
  unfolding counts_rows_def
proof (intro allI impI)
  fix h1 assume s1: "same_shape h h1"
  obtain n1 where n1: "nodes h1 a = Some n1" "shape n1 = shape n" using same_shape_get [OF s1 assms(1)] by blast
  have len: "length (children n1) = length ks" using n1(2) assms(3) by (auto simp: shape_def dest: map_eq_imp_length_eq)
  have ok: "node_ok n1" and bags: "source_bags n1 = source_bags n" "edge_bags n1 = edge_bags n"
    using n1(2) node_ok_shape [OF n1(2) assms(2)] by (simp_all add: shape_def)
  have le: "PG_INT32_MAX \<le> PG_INT64_MAX" by (simp add: PG_INT32_MAX_def PG_INT64_MAX_def)
  obtain m1 where m1: "product_counts age_binding_multiplicity_one (map sb_row_count (source_bags n1)) = Inr m1"
    "stands_for m1 (prod_list (map sb_row_count (source_bags n)))"
    using product_counts_stands_for [OF stands_for_one, of "map sb_row_count (source_bags n1)"] ok le bags by (force simp: node_ok_def)
  obtain m2 where m2: "product_counts m1 (map eb_logical_count (edge_bags n1)) = Inr m2"
    "stands_for m2 (prod_list (map sb_row_count (source_bags n)) * prod_list (map eb_logical_count (edge_bags n)))"
    using product_counts_stands_for [OF m1(2), of "map eb_logical_count (edge_bags n1)"] ok le bags by (force simp: node_ok_def)
  obtain m3 h2 where r: "product_children (age_binding_node_multiplicity fuel) a [0..<length ks] m2 h1 = Inr (m3, h2)"
    "stands_for m3 (prod_list (map sb_row_count (source_bags n)) * prod_list (map eb_logical_count (edge_bags n)) * prod_list ks)"
    "same_shape h1 h2"
    using product_children_rows [OF assms(1,3,4) s1 m2(2), of 0] by auto
  obtain n2 where n2: "nodes h2 a = Some n2" using same_shape_get [OF r(3) n1(1)] by blast
  have "same_shape h2 (put_node h2 a (n2\<lparr>multiplicity := m3, candidate_flat_rows := mult_count m3\<rparr>))"
    by (rule same_shape_put [OF n2]) (simp add: shape_def)
  then have "same_shape h1 (put_node h2 a (n2\<lparr>multiplicity := m3, candidate_flat_rows := mult_count m3\<rparr>))"
    using r(3) same_shape_trans by blast
  with n1(1) m1(1) m2(1) r(1,2) n2 len show "\<exists>m h2. age_binding_node_multiplicity (Suc fuel) h1 a = Inr (m, h2) \<and>
      stands_for m (prod_list (map sb_row_count (source_bags n)) * prod_list (map eb_logical_count (edge_bags n)) * prod_list ks) \<and>
      same_shape h1 h2" by (simp add: get_node_def)
qed

lemma multiplicity_counts_rows:
  assumes "flat_rows h a k" "heap_ok h"
  shows "\<exists>F. \<forall>fuel \<ge> F. counts_rows h (age_binding_node_multiplicity fuel) a k"
  using assms(1)
proof (induction rule: flat_rows.induct)
  case (1 a n ks)
  have len: "length ks = length (children n)" using 1(2) by (simp add: list_all2_lengthD)
  have "\<forall>i < length ks. \<exists>F. \<forall>fuel \<ge> F. counts_rows h (age_binding_node_multiplicity fuel) (fst (children n ! i)) (ks ! i)"
    using 1(2) len by (simp add: list_all2_conv_all_nth)
  then obtain F where F: "\<And>i fuel. i < length ks \<Longrightarrow> F i \<le> fuel \<Longrightarrow>
      counts_rows h (age_binding_node_multiplicity fuel) (fst (children n ! i)) (ks ! i)" by metis
  define G where "G = Max (insert 0 (F ` {..<length ks}))"
  have G: "F i \<le> G" if "i < length ks" for i using that unfolding G_def by (intro Max_ge) auto
  have ok: "node_ok n" using assms(2) 1(1) by (simp add: heap_ok_def)
  have "counts_rows h (age_binding_node_multiplicity fuel) a
      (prod_list (map sb_row_count (source_bags n)) * prod_list (map eb_logical_count (edge_bags n)) * prod_list ks)" if "fuel \<ge> Suc G" for fuel
  proof -
    obtain f where f: "fuel = Suc f" "f \<ge> G" using \<open>fuel \<ge> Suc G\<close> by (cases fuel) auto
    show ?thesis unfolding f(1) using multiplicity_step [OF 1(1) ok len] F G f(2) by (meson order_trans)
  qed
  then show ?case by blast
qed

text \<open>C36: the multiplicity of a node is the number of flat rows of the product it stands for, over all its
  bags and children at every depth, cut off at the largest \<open>int64\<close>; the overflow flag is set exactly
  when it is cut off. The computation ends for every node without a cycle below it and changes no bag
  and no child pointer.\<close>

theorem node_multiplicity_exact:
  assumes "flat_rows h a k" "heap_ok h"
  shows "\<exists>F. \<forall>fuel \<ge> F. \<exists>m h'. age_binding_node_multiplicity fuel h a = Inr (m, h') \<and> mult_count m = min k PG_INT64_MAX \<and>
    (overflowed m \<longleftrightarrow> PG_INT64_MAX < k) \<and> same_shape h h'"
proof -
  obtain F where F: "\<forall>fuel \<ge> F. counts_rows h (age_binding_node_multiplicity fuel) a k"
    using multiplicity_counts_rows [OF assms] by blast
  have "\<exists>m h'. age_binding_node_multiplicity fuel h a = Inr (m, h') \<and> mult_count m = min k PG_INT64_MAX \<and>
      (overflowed m \<longleftrightarrow> PG_INT64_MAX < k) \<and> same_shape h h'" if "fuel \<ge> F" for fuel
    using F that same_shape_refl [of h] unfolding counts_rows_def stands_for_def by blast
  then show ?thesis by blast
qed

text \<open>A node with one source bag of three rows.\<close>

lemma grow_4: "grow_capacity 4 1 = 4"
  by (subst grow_capacity.simps) simp

definition sample_heap :: binding_heap where
  "sample_heap = \<lparr>nodes = [0 \<mapsto>
     \<lparr>node_key = 7, key_valid = True,
      source_bags = [\<lparr>sb_key = 7, sb_first_row = 0, sb_row_count = 3, sb_payload = 0, sb_payload_bytes = 0\<rparr>], source_bag_capacity = 4,
      edge_bags = [], edge_bag_capacity = 0, children = [], child_capacity = 0, multiplicity = age_binding_multiplicity_one,
      candidate_flat_rows = 1, materialized_flat_rows = 0, flat_rows_avoided = 0, memory_bytes = 248\<rparr>], node_brk = 1\<rparr>"

lemma sample_heap_built:
  "age_binding_node_add_source_bag (snd (age_binding_create_node \<lparr>nodes = Map.empty, node_brk = 0\<rparr> 7 True)) (Some 0) 7 0 3 0 0 = Inr sample_heap"
  by (simp add: age_binding_node_add_source_bag_def age_binding_create_node_def get_node_def age_binding_enlarge_array_def grow_4
      sizeof_AgeBindingSourceBag_def MaxAllocSize_def put_node_def account_memory_def Let_def sample_heap_def sizeof_AgeBindingNode_def
      age_binding_add_byte_counter_def age_binding_add_counter_def add_counter_def PG_INT64_MAX_def)

theorem node_multiplicity_exact_witness:
  "\<exists>F. age_binding_node_add_source_bag (snd (age_binding_create_node \<lparr>nodes = Map.empty, node_brk = 0\<rparr> 7 True)) (Some 0) 7 0 3 0 0 =
       Inr sample_heap \<and>
     (\<forall>fuel \<ge> F. \<exists>m h'. age_binding_node_multiplicity fuel sample_heap 0 = Inr (m, h') \<and> mult_count m = 3 \<and> \<not> overflowed m)"
proof -
  have ok: "heap_ok sample_heap" by (simp add: heap_ok_def sample_heap_def node_ok_def PG_INT32_MAX_def)
  have n: "\<exists>n. nodes sample_heap 0 = Some n \<and> map sb_row_count (source_bags n) = [3] \<and> edge_bags n = [] \<and> children n = []"
    by (simp add: sample_heap_def)
  then have "flat_rows sample_heap 0 3" using flat_rows.intros [of sample_heap 0 _ "[]"] by force
  from node_multiplicity_exact [OF this ok] obtain F where
    "\<forall>fuel \<ge> F. \<exists>m h'. age_binding_node_multiplicity fuel sample_heap 0 = Inr (m, h') \<and> mult_count m = min 3 PG_INT64_MAX \<and>
      (overflowed m \<longleftrightarrow> PG_INT64_MAX < 3) \<and> same_shape sample_heap h'" by blast
  moreover have "min 3 PG_INT64_MAX = 3" "\<not> PG_INT64_MAX < 3" by (simp_all add: PG_INT64_MAX_def)
  ultimately show ?thesis using sample_heap_built by metis
qed

subsection \<open>The operations keep the bags valid\<close>

lemma heap_ok_put: "heap_ok h \<Longrightarrow> node_ok n \<Longrightarrow> heap_ok (put_node h a n)"
  by (simp add: heap_ok_def put_node_def)

lemma heap_ok_get: "heap_ok h \<Longrightarrow> get_node h a = Inr n \<Longrightarrow> node_ok n"
  by (auto simp: heap_ok_def get_node_def split: option.splits)

lemma heap_ok_shape: "heap_ok h \<Longrightarrow> same_shape h h' \<Longrightarrow> heap_ok h'"
  unfolding heap_ok_def same_shape_def by (metis map_option_eq_Some node_ok_shape)

lemma node_ok_updates [simp]:
  "node_ok (account_memory bytes n) = node_ok n"
  "node_ok (n\<lparr>source_bag_capacity := c, memory_bytes := b, source_bags := source_bags n @ [sb]\<rparr>) \<longleftrightarrow>
     node_ok n \<and> 0 < sb_row_count sb \<and> sb_row_count sb \<le> PG_INT32_MAX"
  "node_ok (n\<lparr>edge_bag_capacity := c, memory_bytes := b, edge_bags := edge_bags n @ [eb]\<rparr>) \<longleftrightarrow>
     node_ok n \<and> 0 < eb_logical_count eb \<and> eb_logical_count eb \<le> PG_INT32_MAX"
  by (auto simp: node_ok_def account_memory_def)

lemma create_node_ok: "heap_ok h \<Longrightarrow> age_binding_create_node h key valid = (a, h') \<Longrightarrow> heap_ok h'"
  by (auto simp: age_binding_create_node_def heap_ok_def node_ok_def split: if_splits)

lemma reset_node_ok: "heap_ok h \<Longrightarrow> age_binding_reset_node h p = Inr h' \<Longrightarrow> heap_ok h'"
  by (cases p) (auto simp: age_binding_reset_node_def bindE_eq_Inr node_ok_def intro!: heap_ok_put)

lemma free_node_ok: "heap_ok h \<Longrightarrow> age_binding_free_node h p = Inr h' \<Longrightarrow> heap_ok h'"
  by (cases p) (auto simp: age_binding_free_node_def bindE_eq_Inr heap_ok_def split: if_splits)

lemma add_source_bag_ok:
  assumes "heap_ok h" "rows \<le> PG_INT32_MAX" "age_binding_node_add_source_bag h p key row0 rows payload bytes = Inr h'"
  shows "heap_ok h'"
proof -
  obtain a where p: "p = Some a" using assms(3) by (cases p) (simp_all add: age_binding_node_add_source_bag_def)
  obtain n capacity mem where r: "0 < rows" "get_node h a = Inr n" "h' = put_node h a (account_memory bytes (n\<lparr>source_bag_capacity := capacity,
      memory_bytes := mem, source_bags := source_bags n @ [\<lparr>sb_key = key, sb_first_row = row0, sb_row_count = rows, sb_payload = payload,
        sb_payload_bytes = bytes\<rparr>]\<rparr>))"
    using assms(3) unfolding p age_binding_node_add_source_bag_def by (auto simp: bindE_eq_Inr split: if_splits)
  show ?thesis unfolding r(3) by (rule heap_ok_put [OF assms(1)]) (use heap_ok_get [OF assms(1) r(2)] r(1) assms(2) in simp)
qed

lemma add_edge_bag_ok:
  assumes "heap_ok h" "logical \<le> PG_INT32_MAX" "age_binding_node_add_edge_bag h p si payload0 payloads logical payload bytes = Inr h'"
  shows "heap_ok h'"
proof -
  obtain a where p: "p = Some a" using assms(3) by (cases p) (simp_all add: age_binding_node_add_edge_bag_def)
  obtain n capacity mem where r: "0 < logical" "get_node h a = Inr n" "h' = put_node h a (account_memory bytes (n\<lparr>edge_bag_capacity := capacity,
      memory_bytes := mem, edge_bags := edge_bags n @ [\<lparr>eb_source_bag_index = si, eb_first_payload = payload0, eb_payload_count = payloads,
        eb_logical_count = logical, eb_payload = payload, eb_payload_bytes = bytes\<rparr>]\<rparr>))"
    using assms(3) unfolding p age_binding_node_add_edge_bag_def by (auto simp: bindE_eq_Inr split: if_splits)
  show ?thesis unfolding r(3) by (rule heap_ok_put [OF assms(1)]) (use heap_ok_get [OF assms(1) r(2)] r(1) assms(2) in simp)
qed

lemma product_children_ok:
  assumes "\<And>h a m h'. heap_ok h \<Longrightarrow> mcall h a = Inr (m, h') \<Longrightarrow> heap_ok h'"
  shows "product_children mcall a is m h = Inr (m', h') \<Longrightarrow> heap_ok h \<Longrightarrow> heap_ok h'"
proof (induction "is" arbitrary: m h)
  case (Cons i "is")
  from Cons.prems(1) obtain c cm h1 n1 cs m1 where r: "mcall h c = Inr (cm, h1)" "get_node h1 a = Inr n1"
    "product_children mcall a is m1 (put_node h1 a (n1\<lparr>children := cs\<rparr>)) = Inr (m', h')"
    by (auto simp: bindE_eq_Inr)
  have h1: "heap_ok h1" using assms [OF Cons.prems(2) r(1)] .
  have "node_ok (n1\<lparr>children := cs\<rparr>)" using heap_ok_get [OF h1 r(2)] by (simp add: node_ok_def)
  from Cons.IH [OF r(3) heap_ok_put [OF h1 this]] show ?case .
qed simp

lemma multiplicity_ok: "heap_ok h \<Longrightarrow> age_binding_node_multiplicity fuel h a = Inr (m, h') \<Longrightarrow> heap_ok h'"
proof (induction fuel arbitrary: h a m h')
  case (Suc fuel)
  from Suc.prems(2) obtain n :: AgeBindingNode and m2 h1 n1 where r: "product_children (age_binding_node_multiplicity fuel) a [0..<length (children n)] m2 h = Inr (m, h1)"
    "get_node h1 a = Inr n1" "h' = put_node h1 a (n1\<lparr>multiplicity := m, candidate_flat_rows := mult_count m\<rparr>)"
    by (auto simp: bindE_eq_Inr)
  have h1: "heap_ok h1" by (rule product_children_ok [OF Suc.IH r(1) Suc.prems(1)])
  show ?case unfolding r(3) by (rule heap_ok_put [OF h1]) (use heap_ok_get [OF h1 r(2)] in \<open>simp add: node_ok_def\<close>)
qed simp

lemma add_child_ok:
  assumes "heap_ok h" "age_binding_node_add_child fuel h p child = Inr h'"
  shows "heap_ok h'"
proof -
  from assms(2) obtain a c n capacity bytes m h2 n2 cs where r: "get_node h a = Inr n"
    "age_binding_node_multiplicity fuel (put_node h a (n\<lparr>child_capacity := capacity, memory_bytes := bytes,
       children := children n @ [(c, age_binding_multiplicity_zero)]\<rparr>)) c = Inr (m, h2)"
    "get_node h2 a = Inr n2" "h' = put_node h2 a (n2\<lparr>children := cs\<rparr>)"
    by (auto simp: age_binding_node_add_child_def bindE_eq_Inr Let_def split: option.splits)
  have "node_ok (n\<lparr>child_capacity := capacity, memory_bytes := bytes, children := children n @ [(c, age_binding_multiplicity_zero)]\<rparr>)"
    using heap_ok_get [OF assms(1) r(1)] by (simp add: node_ok_def)
  from multiplicity_ok [OF heap_ok_put [OF assms(1) this] r(2)] have h2: "heap_ok h2" .
  show ?thesis unfolding r(4) by (rule heap_ok_put [OF h2]) (use heap_ok_get [OF h2 r(3)] in \<open>simp add: node_ok_def\<close>)
qed

lemmas heap_ok_ops = create_node_ok reset_node_ok free_node_ok add_source_bag_ok add_edge_bag_ok add_child_ok multiplicity_ok

end
