(* ===== verification/Binding_Enum.thy ===== *)
theory Binding_Enum
  imports Binding_Source
begin

text \<open>
  The flat enumerator of factorized bindings (\<open>src/backend/executor/cypher_factorized_binding.c\<close>):
  \<open>age_binding_begin_flat_enumerator\<close> orders the factors by their counts and
  \<open>age_binding_flat_enumerator_next\<close> walks their product depth first, one combination per call,
  dropping combinations the accept callback refuses or in which two factors of a common uniqueness
  group take the same edge.
\<close>

subsection \<open>State\<close>

text \<open>The callbacks read the state they are given and do not change it: the accept callback may also
  look at the enumerator's own indexes (as \<open>age_wcoj_source_correlation_accept\<close> does), so they are an
  argument here; the edge id callback returns \<open>None\<close> for a tuple without an edge. A uniqueness group
  is a \<open>Bitmapset\<close>.\<close>

record AgeBindingFlatEnumerator =
  factor_count :: nat
  logical_counts :: "int list"
  indexes :: "int list"
  enumeration_order :: "nat list"
  selected_edge_ids :: "graphid list"
  selected_edge_id_valid :: "bool list"
  uniqueness_groups :: "nat set list option"
  accept_callback :: "(int list \<Rightarrow> nat \<Rightarrow> int \<Rightarrow> bool) option"
  edge_id_callback :: "(nat \<Rightarrow> int \<Rightarrow> graphid option) option"
  active :: bool
  started :: bool
  starts :: int
  steps :: int
  uniqueness_rejects :: int

definition bms_overlap :: "nat set \<Rightarrow> nat set \<Rightarrow> bool" where
  "bms_overlap a b \<longleftrightarrow> a \<inter> b \<noteq> {}"

subsection \<open>Setting up\<close>

definition age_binding_reset_flat_enumerator :: "AgeBindingFlatEnumerator \<Rightarrow> AgeBindingFlatEnumerator" where
  "age_binding_reset_flat_enumerator e =
     e\<lparr>logical_counts := replicate (factor_count e) 0, indexes := replicate (factor_count e) (-1),
       enumeration_order := [0..<factor_count e], selected_edge_ids := replicate (factor_count e) 0,
       selected_edge_id_valid := replicate (factor_count e) False, uniqueness_groups := None,
       accept_callback := None, edge_id_callback := None, active := False, started := False\<rparr>"

definition age_binding_init_flat_enumerator :: "int \<Rightarrow> AgeBindingFlatEnumerator result" where
  "age_binding_init_flat_enumerator n =
     (if n \<le> 0 then Inl (Ereport ''invalid AGE factorized binding enumerator state'')
      else if n > MaxAllocSize div 4 \<or> n > MaxAllocSize div 8 \<or> n > MaxAllocSize div 1
      then Inl (Ereport ''AGE factorized binding enumerator is too large'')
      else Inr (age_binding_reset_flat_enumerator
             \<lparr>factor_count = nat n, logical_counts = replicate (nat n) 0, indexes = replicate (nat n) 0,
              enumeration_order = replicate (nat n) 0, selected_edge_ids = replicate (nat n) 0,
              selected_edge_id_valid = replicate (nat n) False, uniqueness_groups = None, accept_callback = None,
              edge_id_callback = None, active = False, started = False, starts = 0, steps = 0, uniqueness_rejects = 0\<rparr>))"

text \<open>The first loop: the counts and their product.\<close>

fun count_loop :: "(nat \<Rightarrow> int) \<Rightarrow> nat list \<Rightarrow> int list \<Rightarrow> int \<Rightarrow> (int list \<times> int) result" where
  "count_loop count_callback [] counts flat_rows = Inr (counts, flat_rows)"
| "count_loop count_callback (f # fs) counts flat_rows =
     (let count = count_callback f in
      if count < 0 then Inl (Ereport ''invalid AGE factorized binding logical count'')
      else count_loop count_callback fs (counts[f := count])
             (if count \<le> 0 then 0 else if flat_rows > PG_INT64_MAX div count then PG_INT64_MAX else flat_rows * count))"

text \<open>The second loop: insertion sort of the order by count.\<close>

primrec shift_order :: "int list \<Rightarrow> nat \<Rightarrow> nat \<Rightarrow> nat list \<Rightarrow> nat list" where
  "shift_order counts selected 0 ord = ord[0 := selected]"
| "shift_order counts selected (Suc p) ord =
     (if counts ! (ord ! p) > counts ! selected then shift_order counts selected p (ord[Suc p := ord ! p])
      else ord[Suc p := selected])"

definition order_factors :: "int list \<Rightarrow> nat \<Rightarrow> nat list \<Rightarrow> nat list" where
  "order_factors counts n ord = fold (\<lambda>i ord. shift_order counts (ord ! i) i ord) [1..<n] ord"

definition age_binding_begin_flat_enumerator ::
    "AgeBindingFlatEnumerator \<Rightarrow> (nat \<Rightarrow> int) \<Rightarrow> (int list \<Rightarrow> nat \<Rightarrow> int \<Rightarrow> bool) option \<Rightarrow>
     (nat \<Rightarrow> int \<Rightarrow> graphid option) option \<Rightarrow> nat set list option \<Rightarrow> (int \<times> AgeBindingFlatEnumerator) result" where
  "age_binding_begin_flat_enumerator e count_callback accept_cb edge_id_cb groups =
     (let e1 = (age_binding_reset_flat_enumerator e)\<lparr>accept_callback := accept_cb, edge_id_callback := edge_id_cb,
             uniqueness_groups := (if edge_id_cb \<noteq> None then groups else None), active := True,
             starts := age_binding_add_counter (starts e) 1\<rparr>
      in bindE (count_loop count_callback [0..<factor_count e1] (logical_counts e1) 1) (\<lambda>(counts, flat_rows).
           Inr (flat_rows, e1\<lparr>logical_counts := counts,
                  enumeration_order := order_factors counts (factor_count e1) (enumeration_order e1)\<rparr>)))"

subsection \<open>The next combination\<close>

definition refused :: "AgeBindingFlatEnumerator \<Rightarrow> nat \<Rightarrow> int \<Rightarrow> bool" where
  "refused e f t \<longleftrightarrow> (case accept_callback e of None \<Rightarrow> False | Some accept \<Rightarrow> \<not> accept (indexes e) f t)"

definition conflict :: "AgeBindingFlatEnumerator \<Rightarrow> nat \<Rightarrow> nat \<Rightarrow> graphid option \<Rightarrow> bool" where
  "conflict e depth f edge_id \<longleftrightarrow>
     (case (edge_id, uniqueness_groups e) of
        (Some x, Some groups) \<Rightarrow>
          list_ex (\<lambda>d. selected_edge_id_valid e ! d \<and> selected_edge_ids e ! d = x \<and>
                       bms_overlap (groups ! f) (groups ! (enumeration_order e ! d))) [0..<depth]
      | _ \<Rightarrow> False)"

text \<open>The inner loop: the first tuple from \<open>t\<close> on that is accepted.\<close>

function try_tuples :: "nat \<Rightarrow> nat \<Rightarrow> int \<Rightarrow> AgeBindingFlatEnumerator \<Rightarrow> bool \<times> AgeBindingFlatEnumerator" where
  "try_tuples depth f t e =
     (if t < logical_counts e ! f then
        let e1 = e\<lparr>indexes := (indexes e)[f := t], steps := age_binding_add_counter (steps e) 1\<rparr>
        in if refused e1 f t then try_tuples depth f (t + 1) e1
           else (case edge_id_callback e1 of
                   None \<Rightarrow> (True, e1)
                 | Some edge_id_cb \<Rightarrow>
                     (let edge_id = edge_id_cb f t
                      in if conflict e1 depth f edge_id
                         then try_tuples depth f (t + 1) (e1\<lparr>uniqueness_rejects := age_binding_add_counter (uniqueness_rejects e1) 1\<rparr>)
                         else (True, case edge_id of
                                 None \<Rightarrow> e1
                               | Some x \<Rightarrow> e1\<lparr>selected_edge_ids := (selected_edge_ids e1)[depth := x],
                                              selected_edge_id_valid := (selected_edge_id_valid e1)[depth := True]\<rparr>)))
      else (False, e))"
  by pat_completeness auto
termination by (relation "measure (\<lambda>(depth, f, t, e). nat (logical_counts e ! f - t))") auto

declare try_tuples.simps [simp del]

primrec enum_loop :: "nat \<Rightarrow> nat \<Rightarrow> AgeBindingFlatEnumerator \<Rightarrow> (bool \<times> AgeBindingFlatEnumerator) result" where
  "enum_loop 0 depth e = Inl OutOfFuel"
| "enum_loop (Suc fuel) depth e =
     (let f = enumeration_order e ! depth;
          (found, e1) = try_tuples depth f (indexes e ! f + 1)
            (e\<lparr>selected_edge_id_valid := (selected_edge_id_valid e)[depth := False]\<rparr>)
      in if found then
           if depth = factor_count e1 - 1 then Inr (True, e1)
           else enum_loop fuel (depth + 1)
                  (e1\<lparr>indexes := (indexes e1)[enumeration_order e1 ! (depth + 1) := -1],
                      selected_edge_id_valid := (selected_edge_id_valid e1)[depth + 1 := False]\<rparr>)
         else let e2 = e1\<lparr>indexes := (indexes e1)[f := -1], selected_edge_id_valid := (selected_edge_id_valid e1)[depth := False]\<rparr>
              in if depth = 0 then Inr (False, e2\<lparr>active := False, started := False\<rparr>) else enum_loop fuel (depth - 1) e2)"

definition age_binding_flat_enumerator_next ::
    "nat \<Rightarrow> AgeBindingFlatEnumerator \<Rightarrow> (bool \<times> AgeBindingFlatEnumerator) result" where
  "age_binding_flat_enumerator_next fuel e =
     (if \<not> active e then Inr (False, e)
      else enum_loop fuel (if started e then factor_count e - 1 else 0) (e\<lparr>started := True\<rparr>))"

definition age_binding_flat_enumerator_index :: "AgeBindingFlatEnumerator \<Rightarrow> int \<Rightarrow> int result" where
  "age_binding_flat_enumerator_index e f =
     (if f < 0 \<or> f \<ge> int (factor_count e) then Inl (Ereport ''invalid AGE factorized binding enumerator index'')
      else Inr (indexes e ! nat f))"

definition age_binding_flat_enumerator_starts :: "AgeBindingFlatEnumerator \<Rightarrow> int" where
  "age_binding_flat_enumerator_starts e = starts e"

definition age_binding_flat_enumerator_steps :: "AgeBindingFlatEnumerator \<Rightarrow> int" where
  "age_binding_flat_enumerator_steps e = steps e"

definition age_binding_flat_enumerator_uniqueness_rejects :: "AgeBindingFlatEnumerator \<Rightarrow> int" where
  "age_binding_flat_enumerator_uniqueness_rejects e = uniqueness_rejects e"

end
