(* ===== verification/Binding_Search.thy ===== *)
theory Binding_Search
  imports Binding_Enum
begin

text \<open>
  The flat enumerator as a depth first search: the list of combinations it has still to return
  (\<open>sols\<close>, \<open>above\<close>) as a function of the tuples chosen so far, and that every call of
  \<open>age_binding_flat_enumerator_next\<close> returns the next one.
\<close>

declare enum_loop.simps [simp del]

subsection \<open>Choices, one per depth\<close>

text \<open>\<open>e0\<close> supplies what does not change during the enumeration.\<close>

definition same_cfg :: "AgeBindingFlatEnumerator \<Rightarrow> AgeBindingFlatEnumerator \<Rightarrow> bool" where
  "same_cfg e0 e \<longleftrightarrow> factor_count e = factor_count e0 \<and> logical_counts e = logical_counts e0 \<and>
     enumeration_order e = enumeration_order e0 \<and> uniqueness_groups e = uniqueness_groups e0 \<and>
     accept_callback e = accept_callback e0 \<and> edge_id_callback e = edge_id_callback e0"

definition enum_wf :: "AgeBindingFlatEnumerator \<Rightarrow> bool" where
  "enum_wf e \<longleftrightarrow> 0 < factor_count e \<and> length (logical_counts e) = factor_count e \<and>
     distinct (enumeration_order e) \<and> set (enumeration_order e) = {0..<factor_count e}"

abbreviation fac :: "AgeBindingFlatEnumerator \<Rightarrow> nat \<Rightarrow> nat" where
  "fac e d \<equiv> enumeration_order e ! d"

abbreviation cnt :: "AgeBindingFlatEnumerator \<Rightarrow> nat \<Rightarrow> int" where
  "cnt e d \<equiv> logical_counts e ! fac e d"

text \<open>The index array when the tuples \<open>pre\<close> are chosen at depths \<open>0, 1, \<dots>\<close>.\<close>

definition idx_of :: "AgeBindingFlatEnumerator \<Rightarrow> int list \<Rightarrow> int list" where
  "idx_of e pre = fold (\<lambda>(d, t) ix. ix[fac e d := t]) (enumerate 0 pre) (replicate (factor_count e) (-1))"

definition edge_of :: "AgeBindingFlatEnumerator \<Rightarrow> nat \<Rightarrow> int \<Rightarrow> graphid option" where
  "edge_of e f t = (case edge_id_callback e of None \<Rightarrow> None | Some cb \<Rightarrow> cb f t)"

text \<open>Two chosen tuples with one edge in factors of a common uniqueness group.\<close>

definition clash :: "AgeBindingFlatEnumerator \<Rightarrow> nat \<Rightarrow> int \<Rightarrow> nat \<Rightarrow> int \<Rightarrow> bool" where
  "clash e f t g u \<longleftrightarrow>
     (case uniqueness_groups e of
        None \<Rightarrow> False
      | Some groups \<Rightarrow> edge_of e f t \<noteq> None \<and> edge_of e f t = edge_of e g u \<and> bms_overlap (groups ! f) (groups ! g))"

definition choice_ok :: "AgeBindingFlatEnumerator \<Rightarrow> int list \<Rightarrow> int \<Rightarrow> bool" where
  "choice_ok e pre t \<longleftrightarrow>
     (case accept_callback e of None \<Rightarrow> True | Some accept \<Rightarrow> accept (idx_of e (pre @ [t])) (fac e (length pre)) t) \<and>
     (\<forall>d < length pre. \<not> clash e (fac e (length pre)) t (fac e d) (pre ! d))"

lemma idx_of_Nil [simp]: "idx_of e [] = replicate (factor_count e) (-1)"
  by (simp add: idx_of_def)

lemma idx_of_snoc: "idx_of e (pre @ [t]) = (idx_of e pre)[fac e (length pre) := t]"
  by (simp add: idx_of_def enumerate_append_eq)

lemma length_idx_of [simp]: "length (idx_of e pre) = factor_count e"
  by (induction pre rule: rev_induct) (simp_all add: idx_of_snoc)

lemma fac_less: "enum_wf e \<Longrightarrow> d < factor_count e \<Longrightarrow> fac e d < factor_count e"
  unfolding enum_wf_def by (metis atLeastLessThan_iff card_atLeastLessThan diff_zero distinct_card nth_mem)

lemma length_order: "enum_wf e \<Longrightarrow> length (enumeration_order e) = factor_count e"
  unfolding enum_wf_def by (metis card_atLeastLessThan diff_zero distinct_card)

lemma fac_inj: "enum_wf e \<Longrightarrow> c < factor_count e \<Longrightarrow> d < factor_count e \<Longrightarrow> fac e c = fac e d \<longleftrightarrow> c = d"
  using length_order [of e] unfolding enum_wf_def by (simp add: nth_eq_iff_index_eq)

lemma idx_of_nth:
  assumes "enum_wf e" "length pre \<le> factor_count e" "d < factor_count e"
  shows "idx_of e pre ! fac e d = (if d < length pre then pre ! d else -1)"
  using assms(2)
proof (induction pre rule: rev_induct)
  case Nil
  then show ?case using fac_less [OF assms(1,3)] by simp
next
  case (snoc t pre)
  then show ?case using fac_inj [OF assms(1), of "length pre" d] fac_less [OF assms(1,3)] assms(3)
    by (auto simp: idx_of_snoc nth_append nth_list_update less_Suc_eq)
qed

subsection \<open>States of the search\<close>

text \<open>The edges recorded for the choices \<open>pre\<close>.\<close>

definition marks :: "AgeBindingFlatEnumerator \<Rightarrow> int list \<Rightarrow> AgeBindingFlatEnumerator \<Rightarrow> bool" where
  "marks e0 pre e \<longleftrightarrow> length (selected_edge_ids e) = factor_count e0 \<and> length (selected_edge_id_valid e) = factor_count e0 \<and>
     (\<forall>d < length pre. (selected_edge_id_valid e ! d \<longleftrightarrow> edge_of e0 (fac e0 d) (pre ! d) \<noteq> None) \<and>
        (\<forall>x. edge_of e0 (fac e0 d) (pre ! d) = Some x \<longrightarrow> selected_edge_ids e ! d = x))"

text \<open>\<open>placed\<close>: the choices \<open>pre\<close> are made and nothing beyond; \<open>trying\<close>: tuple \<open>t\<close> is the next to try after them.\<close>

definition placed :: "AgeBindingFlatEnumerator \<Rightarrow> int list \<Rightarrow> AgeBindingFlatEnumerator \<Rightarrow> bool" where
  "placed e0 pre e \<longleftrightarrow> same_cfg e0 e \<and> marks e0 pre e \<and> indexes e = idx_of e0 pre \<and> active e \<and> started e"

definition trying :: "AgeBindingFlatEnumerator \<Rightarrow> int list \<Rightarrow> int \<Rightarrow> AgeBindingFlatEnumerator \<Rightarrow> bool" where
  "trying e0 pre t e \<longleftrightarrow> same_cfg e0 e \<and> marks e0 pre e \<and> indexes e = (idx_of e0 pre)[fac e0 (length pre) := t - 1] \<and>
     active e \<and> started e"

lemma marks_snocD: "marks e0 (pre @ [t]) e \<Longrightarrow> marks e0 pre e"
  unfolding marks_def by (auto simp: nth_append)

lemma placed_trying: "placed e0 (pre @ [t]) e \<Longrightarrow> trying e0 pre (t + 1) e"
  unfolding placed_def trying_def by (auto simp: idx_of_snoc dest: marks_snocD)

lemma conflict_clash:
  assumes "trying e0 pre t e"
  shows "conflict e (length pre) (fac e0 (length pre)) (edge_of e0 (fac e0 (length pre)) s) \<longleftrightarrow>
    (\<exists>d < length pre. clash e0 (fac e0 (length pre)) s (fac e0 d) (pre ! d))"
proof -
  have m: "\<And>d x. d < length pre \<Longrightarrow> selected_edge_id_valid e ! d \<and> selected_edge_ids e ! d = x \<longleftrightarrow> edge_of e0 (fac e0 d) (pre ! d) = Some x"
    using assms unfolding trying_def marks_def by (metis not_Some_eq option.inject)
  have c: "uniqueness_groups e = uniqueness_groups e0" "enumeration_order e = enumeration_order e0"
    using assms unfolding trying_def same_cfg_def by auto
  show ?thesis
  proof (cases "edge_of e0 (fac e0 (length pre)) s")
    case (Some x)
    have "conflict e (length pre) (fac e0 (length pre)) (Some x) \<longleftrightarrow>
        (case uniqueness_groups e0 of None \<Rightarrow> False | Some groups \<Rightarrow>
          (\<exists>d < length pre. edge_of e0 (fac e0 d) (pre ! d) = Some x \<and> bms_overlap (groups ! fac e0 (length pre)) (groups ! fac e0 d)))"
      unfolding conflict_def c by (cases "uniqueness_groups e0") (auto simp: list_ex_iff m [symmetric])
    with Some show ?thesis by (auto simp: clash_def split: option.splits)
  qed (auto simp: conflict_def clash_def split: option.splits)
qed

text \<open>The inner loop finds the first acceptable tuple.\<close>

definition first_ok :: "AgeBindingFlatEnumerator \<Rightarrow> int list \<Rightarrow> int \<Rightarrow> int \<Rightarrow> bool" where
  "first_ok e0 pre t u \<longleftrightarrow> t \<le> u \<and> u < cnt e0 (length pre) \<and> choice_ok e0 pre u \<and> (\<forall>s. t \<le> s \<and> s < u \<longrightarrow> \<not> choice_ok e0 pre s)"

definition try_result :: "AgeBindingFlatEnumerator \<Rightarrow> int list \<Rightarrow> int \<Rightarrow> bool \<times> AgeBindingFlatEnumerator \<Rightarrow> bool" where
  "try_result e0 pre t r \<longleftrightarrow>
     (if fst r then \<exists>u. first_ok e0 pre t u \<and> placed e0 (pre @ [u]) (snd r)
      else (\<forall>s. t \<le> s \<and> s < cnt e0 (length pre) \<longrightarrow> \<not> choice_ok e0 pre s) \<and> (\<exists>u. trying e0 pre u (snd r)))"

lemma first_ok_step: "\<not> choice_ok e0 pre t \<Longrightarrow> first_ok e0 pre (t + 1) u \<Longrightarrow> first_ok e0 pre t u"
  unfolding first_ok_def by (metis add1_zle_eq order.order_iff_strict zle_add1_eq_le)

lemma try_result_step:
  assumes "\<not> choice_ok e0 pre t" "try_result e0 pre (t + 1) r"
  shows "try_result e0 pre t r"
proof -
  have "\<not> choice_ok e0 pre s" if "t \<le> s" "s < cnt e0 (length pre)" "\<forall>s. t + 1 \<le> s \<and> s < cnt e0 (length pre) \<longrightarrow> \<not> choice_ok e0 pre s" for s
    using that assms(1) by (cases "s = t") auto
  with assms first_ok_step [OF assms(1)] show ?thesis unfolding try_result_def by (cases "fst r") (simp_all, blast)
qed

lemma marks_None:
  assumes "marks e0 pre e" "\<not> selected_edge_id_valid e ! length pre" "edge_of e0 (fac e0 (length pre)) t = None"
  shows "marks e0 (pre @ [t]) e"
  using assms unfolding marks_def by (auto simp: nth_append less_Suc_eq)

lemma marks_Some:
  assumes "marks e0 pre e" "length pre < factor_count e0" "edge_of e0 (fac e0 (length pre)) t = Some x"
  shows "marks e0 (pre @ [t]) (e\<lparr>selected_edge_ids := (selected_edge_ids e)[length pre := x],
    selected_edge_id_valid := (selected_edge_id_valid e)[length pre := True]\<rparr>)"
  using assms unfolding marks_def by (auto simp: nth_append less_Suc_eq)

lemma marks_cong:
  "marks e0 pre e \<Longrightarrow> selected_edge_ids e' = selected_edge_ids e \<Longrightarrow> selected_edge_id_valid e' = selected_edge_id_valid e \<Longrightarrow> marks e0 pre e'"
  unfolding marks_def by simp

text \<open>One round of the inner loop.\<close>

definition round_ok :: "AgeBindingFlatEnumerator \<Rightarrow> int list \<Rightarrow> int \<Rightarrow> bool \<times> AgeBindingFlatEnumerator \<Rightarrow> bool" where
  "round_ok e0 pre t r \<longleftrightarrow>
     (if choice_ok e0 pre t then \<exists>e'. r = (True, e') \<and> placed e0 (pre @ [t]) e'
      else \<exists>e'. r = try_tuples (length pre) (fac e0 (length pre)) (t + 1) e' \<and> trying e0 pre (t + 1) e' \<and>
             \<not> selected_edge_id_valid e' ! length pre)"

text \<open>The decision on a tuple whose index is already stored.\<close>

definition decide :: "nat \<Rightarrow> nat \<Rightarrow> int \<Rightarrow> AgeBindingFlatEnumerator \<Rightarrow> bool \<times> AgeBindingFlatEnumerator" where
  "decide depth f t e1 =
     (if refused e1 f t then try_tuples depth f (t + 1) e1
      else (case edge_id_callback e1 of
              None \<Rightarrow> (True, e1)
            | Some cb \<Rightarrow>
                if conflict e1 depth f (cb f t)
                then try_tuples depth f (t + 1) (e1\<lparr>uniqueness_rejects := age_binding_add_counter (uniqueness_rejects e1) 1\<rparr>)
                else (True, case cb f t of
                        None \<Rightarrow> e1
                      | Some x \<Rightarrow> e1\<lparr>selected_edge_ids := (selected_edge_ids e1)[depth := x],
                                     selected_edge_id_valid := (selected_edge_id_valid e1)[depth := True]\<rparr>)))"

lemma try_tuples_decide:
  "t < logical_counts e ! f \<Longrightarrow> try_tuples depth f t e =
     decide depth f t (e\<lparr>indexes := (indexes e)[f := t], steps := age_binding_add_counter (steps e) 1\<rparr>)"
  by (subst try_tuples.simps) (simp only: decide_def Let_def if_True)

lemma decide_ok:
  assumes "length pre < factor_count e0" "trying e0 pre (t + 1) e" "\<not> selected_edge_id_valid e ! length pre"
  shows "round_ok e0 pre t (decide (length pre) (fac e0 (length pre)) t e)"
proof -
  define f where "f = fac e0 (length pre)"
  have cfg: "accept_callback e = accept_callback e0" "edge_id_callback e = edge_id_callback e0" and ix: "indexes e = idx_of e0 (pre @ [t])"
    and mk: "marks e0 pre e" and run: "same_cfg e0 e" "active e" "started e"
    using assms(2) unfolding trying_def same_cfg_def by (auto simp: idx_of_snoc)
  note con = conflict_clash [OF assms(2), of t, folded f_def]
  have ok: "choice_ok e0 pre t \<longleftrightarrow> \<not> refused e f t \<and> \<not> conflict e (length pre) f (edge_of e0 f t)"
    using con by (simp add: choice_ok_def refused_def cfg ix f_def split: option.splits)
  consider (ref) "refused e f t" | (plain) "\<not> refused e f t" "edge_id_callback e0 = None"
    | (cb) cb where "\<not> refused e f t" "edge_id_callback e0 = Some cb" by blast
  then show ?thesis
  proof cases
    case ref
    with assms(2,3) ok show ?thesis by (auto simp: round_ok_def decide_def f_def)
  next
    case plain
    then have "edge_of e0 f t = None" by (simp add: edge_of_def)
    then have "placed e0 (pre @ [t]) e" "choice_ok e0 pre t"
      using marks_None [OF mk assms(3)] run ix ok plain by (simp_all add: placed_def f_def conflict_def)
    with plain cfg show ?thesis by (simp add: round_ok_def decide_def f_def)
  next
    case cb
    then have eo: "cb f t = edge_of e0 f t" by (simp add: edge_of_def)
    show ?thesis
    proof (cases "conflict e (length pre) f (cb f t)")
      case True
      then have "\<not> choice_ok e0 pre t" using ok eo by simp
      moreover have "trying e0 pre (t + 1) (e\<lparr>uniqueness_rejects := age_binding_add_counter (uniqueness_rejects e) 1\<rparr>)"
        using assms(2) by (simp add: trying_def same_cfg_def marks_def)
      ultimately show ?thesis using True cb cfg assms(3) by (auto simp: round_ok_def decide_def f_def)
    next
      case False
      then have "choice_ok e0 pre t" using ok eo cb by simp
      moreover have "placed e0 (pre @ [t]) (case cb f t of None \<Rightarrow> e
          | Some x \<Rightarrow> e\<lparr>selected_edge_ids := (selected_edge_ids e)[length pre := x],
                        selected_edge_id_valid := (selected_edge_id_valid e)[length pre := True]\<rparr>)"
        using marks_None [OF mk assms(3)] marks_Some [OF mk assms(1)] run ix eo
        by (cases "cb f t") (simp_all add: placed_def same_cfg_def f_def)
      ultimately show ?thesis using False cb cfg by (simp add: round_ok_def decide_def f_def)
    qed
  qed
qed

lemma try_tuples_result:
  assumes "length pre < factor_count e0"
  shows "trying e0 pre t e \<Longrightarrow> \<not> selected_edge_id_valid e ! length pre \<Longrightarrow>
    try_result e0 pre t (try_tuples (length pre) (fac e0 (length pre)) t e)"
proof (induction "nat (cnt e0 (length pre) - t)" arbitrary: t e rule: less_induct)
  case less
  define f where "f = fac e0 (length pre)"
  have cfg: "logical_counts e = logical_counts e0" using less.prems(1) unfolding trying_def same_cfg_def by simp
  show ?case
  proof (cases "t < cnt e0 (length pre)")
    case False
    with less.prems(1) cfg show ?thesis by (subst try_tuples.simps) (auto simp: try_result_def)
  next
    case True
    have "trying e0 pre (t + 1) (e\<lparr>indexes := (indexes e)[f := t], steps := age_binding_add_counter (steps e) 1\<rparr>)"
      using less.prems(1) by (simp add: trying_def same_cfg_def marks_def f_def)
    from decide_ok [OF assms this] less.prems(2)
    have r: "round_ok e0 pre t (try_tuples (length pre) f t e)" using True cfg by (simp add: try_tuples_decide f_def)
    show ?thesis
    proof (cases "choice_ok e0 pre t")
      case ok: True
      with r True show ?thesis by (auto simp: round_ok_def try_result_def first_ok_def f_def)
    next
      case nok: False
      with r obtain e' where "try_tuples (length pre) f t e = try_tuples (length pre) f (t + 1) e'"
        "trying e0 pre (t + 1) e'" "\<not> selected_edge_id_valid e' ! length pre" by (auto simp: round_ok_def f_def)
      with less.hyps [of "t + 1" e'] True nok show ?thesis by (auto simp: f_def intro: try_result_step)
    qed
  qed
qed

subsection \<open>The combinations left\<close>

text \<open>All completions of the choices \<open>pre\<close> by \<open>k\<close> more, and those whose next tuple is \<open>t\<close> or later.\<close>

primrec sols :: "AgeBindingFlatEnumerator \<Rightarrow> nat \<Rightarrow> int list \<Rightarrow> int list list" where
  "sols e 0 pre = [pre]"
| "sols e (Suc k) pre =
     concat (map (\<lambda>t. if choice_ok e pre t then sols e k (pre @ [t]) else []) [0..cnt e (length pre) - 1])"

definition sols_from :: "AgeBindingFlatEnumerator \<Rightarrow> nat \<Rightarrow> int list \<Rightarrow> int \<Rightarrow> int list list" where
  "sols_from e k pre t = concat (map (\<lambda>t. if choice_ok e pre t then sols e k (pre @ [t]) else []) [t..cnt e (length pre) - 1])"

text \<open>What is left when the choices \<open>pre\<close> are given up from the last one on.\<close>

function above :: "AgeBindingFlatEnumerator \<Rightarrow> int list \<Rightarrow> int list list" where
  "above e pre =
     (if pre = [] then []
      else sols_from e (factor_count e - length pre) (butlast pre) (last pre + 1) @ above e (butlast pre))"
  by pat_completeness auto
termination by (relation "measure (\<lambda>(e, pre). length pre)") auto

declare above.simps [simp del]

lemma above_simps [simp]:
  "above e [] = []"
  "above e (pre @ [t]) = sols_from e (factor_count e - Suc (length pre)) pre (t + 1) @ above e pre"
  by (subst above.simps, simp)+

lemma sols_from_none: "\<forall>s. t \<le> s \<and> s < cnt e (length pre) \<longrightarrow> \<not> choice_ok e pre s \<Longrightarrow> sols_from e k pre t = []"
  by (auto simp: sols_from_def)

lemma sols_from_skip: "\<not> choice_ok e pre t \<Longrightarrow> sols_from e k pre t = sols_from e k pre (t + 1)"
  by (cases "t \<le> cnt e (length pre) - 1") (simp_all add: sols_from_def upto_rec1)

lemma sols_from_first:
  assumes "first_ok e pre t u"
  shows "sols_from e k pre t = sols e k (pre @ [u]) @ sols_from e k pre (u + 1)"
  using assms
proof (induction "nat (u - t)" arbitrary: t)
  case 0
  then have "u = t" "t \<le> cnt e (length pre) - 1" "choice_ok e pre t" by (auto simp: first_ok_def)
  then show ?case by (simp add: sols_from_def upto_rec1)
next
  case (Suc j)
  then have "t < u" by simp
  with Suc.prems have "\<not> choice_ok e pre t" "first_ok e pre (t + 1) u" by (auto simp: first_ok_def)
  with Suc.hyps show ?case by (simp add: sols_from_skip)
qed

subsection \<open>One round of the outer loop\<close>

text \<open>What happens after the tuples of a depth are used up.\<close>

definition leave :: "nat \<Rightarrow> nat \<Rightarrow> AgeBindingFlatEnumerator \<Rightarrow> (bool \<times> AgeBindingFlatEnumerator) result" where
  "leave fuel depth e = (if depth = 0 then Inr (False, e\<lparr>active := False, started := False\<rparr>) else enum_loop fuel (depth - 1) e)"

definition enter :: "nat \<Rightarrow> nat \<Rightarrow> AgeBindingFlatEnumerator \<Rightarrow> (bool \<times> AgeBindingFlatEnumerator) result" where
  "enter fuel depth e =
     (if depth = factor_count e - 1 then Inr (True, e)
      else enum_loop fuel (depth + 1) (e\<lparr>indexes := (indexes e)[enumeration_order e ! (depth + 1) := -1],
             selected_edge_id_valid := (selected_edge_id_valid e)[depth + 1 := False]\<rparr>))"

lemma enter_trying:
  assumes "placed e0 pre e" "length pre < factor_count e0"
  shows "trying e0 pre 0 (e\<lparr>indexes := (indexes e)[enumeration_order e ! length pre := -1],
    selected_edge_id_valid := (selected_edge_id_valid e)[length pre := False]\<rparr>)"
  using assms unfolding placed_def trying_def same_cfg_def marks_def by auto

lemma loop_step:
  assumes "enum_wf e0" "length pre < factor_count e0" "trying e0 pre t e"
  obtains
    (found) u e1 where "first_ok e0 pre t u" "placed e0 (pre @ [u]) e1" "\<And>q. enum_loop (Suc q) (length pre) e = enter q (length pre) e1"
  | (none) e2 where "\<forall>s. t \<le> s \<and> s < cnt e0 (length pre) \<longrightarrow> \<not> choice_ok e0 pre s" "placed e0 pre e2"
      "\<And>q. enum_loop (Suc q) (length pre) e = leave q (length pre) e2"
proof -
  define f where "f = fac e0 (length pre)"
  define e' where "e' = e\<lparr>selected_edge_id_valid := (selected_edge_id_valid e)[length pre := False]\<rparr>"
  have f: "f < factor_count e0" using fac_less [OF assms(1,2)] by (simp add: f_def)
  have e: "enumeration_order e ! length pre = f" "indexes e ! f + 1 = t"
    using assms(3) f by (auto simp: trying_def same_cfg_def f_def)
  have t': "trying e0 pre t e'" "\<not> selected_edge_id_valid e' ! length pre"
    using assms(2,3) by (auto simp: e'_def trying_def same_cfg_def marks_def)
  note r = try_tuples_result [OF assms(2) t', folded f_def]
  obtain found e1 where te: "try_tuples (length pre) f t e' = (found, e1)" by (cases "try_tuples (length pre) f t e'")
  have loop: "enum_loop (Suc q) (length pre) e =
      (if found then enter q (length pre) e1
       else leave q (length pre) (e1\<lparr>indexes := (indexes e1)[f := -1], selected_edge_id_valid := (selected_edge_id_valid e1)[length pre := False]\<rparr>))" for q
    using te by (simp add: enum_loop.simps e e'_def [symmetric] Let_def enter_def leave_def)
  show ?thesis
  proof (cases found)
    case True
    with r te obtain u where "first_ok e0 pre t u" "placed e0 (pre @ [u]) e1" by (auto simp: try_result_def)
    with loop True that(1) show ?thesis by simp
  next
    case False
    with r te obtain u where none: "\<forall>s. t \<le> s \<and> s < cnt e0 (length pre) \<longrightarrow> \<not> choice_ok e0 pre s" and u: "trying e0 pre u e1"
      by (auto simp: try_result_def)
    have "idx_of e0 pre ! f = -1" using idx_of_nth [OF assms(1), of pre "length pre"] assms(2) by (simp add: f_def)
    then have "(idx_of e0 pre)[f := -1] = idx_of e0 pre" by (metis list_update_id)
    then have "placed e0 pre (e1\<lparr>indexes := (indexes e1)[f := -1], selected_edge_id_valid := (selected_edge_id_valid e1)[length pre := False]\<rparr>)"
      using u by (auto simp: trying_def placed_def same_cfg_def marks_def f_def)
    with none loop False that(2) show ?thesis by simp
  qed
qed

subsection \<open>A call returns the next combination\<close>

text \<open>The search below the choices \<open>pre\<close>: it returns the first combination left there, or leaves the depth.\<close>

definition finds :: "AgeBindingFlatEnumerator \<Rightarrow> int list \<Rightarrow> int list list \<Rightarrow> AgeBindingFlatEnumerator \<Rightarrow> bool" where
  "finds e0 pre L e \<longleftrightarrow>
     (case L of
        [] \<Rightarrow> \<exists>q e2. placed e0 pre e2 \<and> (\<forall>m. enum_loop (q + m) (length pre) e = leave m (length pre) e2)
      | v # vs \<Rightarrow> \<exists>q e1. placed e0 v e1 \<and> length v = factor_count e0 \<and> above e0 v = vs @ above e0 pre \<and>
                   (\<forall>m. enum_loop (q + m) (length pre) e = Inr (True, e1)))"

lemma finds_NilI:
  "placed e0 pre e2 \<Longrightarrow> (\<And>m. enum_loop (q + m) (length pre) e = leave m (length pre) e2) \<Longrightarrow> finds e0 pre [] e"
  unfolding finds_def by auto

lemma finds_ConsI:
  assumes "placed e0 v e1" "length v = factor_count e0" "above e0 v = vs @ above e0 pre"
    and "\<And>m. enum_loop (q + m) (length pre) e = Inr (True, e1)"
  shows "finds e0 pre (v # vs) e"
  unfolding finds_def list.case using assms by blast

lemma finds_later:
  assumes go: "\<And>m. enum_loop (q + m) (length pre) e = enum_loop m (length pre) e'" and "finds e0 pre L e'"
  shows "finds e0 pre L e"
proof -
  have g: "enum_loop (q + p + m) (length pre) e = enum_loop (p + m) (length pre) e'" for p m using go [of "p + m"] by (simp add: add.assoc)
  show ?thesis
  proof (cases L)
    case Nil
    with assms(2) obtain p e2 where "placed e0 pre e2" "\<And>m. enum_loop (p + m) (length pre) e' = leave m (length pre) e2"
      by (auto simp: finds_def)
    with g Nil finds_NilI [of e0 pre e2 "q + p" e] show ?thesis by simp
  next
    case (Cons v vs)
    with assms(2) obtain p e1 where "placed e0 v e1" "length v = factor_count e0" "above e0 v = vs @ above e0 pre"
      "\<And>m. enum_loop (p + m) (length pre) e' = Inr (True, e1)" by (auto simp: finds_def)
    with g Cons finds_ConsI [of e0 v e1 vs pre "q + p" e] show ?thesis by simp
  qed
qed

lemma search_below:
  assumes "enum_wf e0"
  shows "factor_count e0 = Suc (length pre + k) \<Longrightarrow> trying e0 pre t e \<Longrightarrow> finds e0 pre (sols_from e0 k pre t) e"
proof (induction k arbitrary: pre t e)
  case 0
  then have last: "length pre < factor_count e0" "length pre = factor_count e0 - 1" by simp_all
  from assms last(1) 0(2) show ?case
  proof (cases rule: loop_step)
    case (found u e1)
    have "factor_count e1 = factor_count e0" using found(2) by (simp add: placed_def same_cfg_def)
    then have "enum_loop (Suc 0 + m) (length pre) e = Inr (True, e1)" for m using found(3) [of m] last(2) by (simp add: enter_def)
    from finds_ConsI [OF found(2) _ _ this] last show ?thesis unfolding sols_from_first [OF found(1)] by simp
  next
    case (none e2)
    then have "enum_loop (Suc 0 + m) (length pre) e = leave m (length pre) e2" for m by simp
    from finds_NilI [OF none(2) this] show ?thesis unfolding sols_from_none [OF none(1)] .
  qed
next
  case (Suc k)
  from Suc.prems(2) show ?case
  proof (induction "nat (cnt e0 (length pre) - t)" arbitrary: t e rule: less_induct)
    case less
    have lt: "length pre < factor_count e0" using Suc.prems(1) by simp
    from assms lt less.prems show ?case
    proof (cases rule: loop_step)
      case (none e2)
      then have "enum_loop (Suc 0 + m) (length pre) e = leave m (length pre) e2" for m by simp
      from finds_NilI [OF none(2) this] show ?thesis unfolding sols_from_none [OF none(1)] .
    next
      case (found u e1)
      define e2 where "e2 = e1\<lparr>indexes := (indexes e1)[enumeration_order e1 ! (length pre + 1) := -1],
             selected_edge_id_valid := (selected_edge_id_valid e1)[length pre + 1 := False]\<rparr>"
      have fc: "factor_count e1 = factor_count e0" using found(2) by (simp add: placed_def same_cfg_def)
      have step: "enum_loop (Suc q) (length pre) e = enum_loop q (Suc (length pre)) e2" for q
        using found(3) [of q] Suc.prems(1) by (simp add: enter_def fc e2_def)
      have t2: "trying e0 (pre @ [u]) 0 e2"
        using enter_trying [OF found(2)] Suc.prems(1) by (simp add: e2_def)
      have split: "sols_from e0 (Suc k) pre t = sols_from e0 k (pre @ [u]) 0 @ sols_from e0 (Suc k) pre (u + 1)"
        unfolding sols_from_first [OF found(1)] by (simp add: sols_from_def)
      have fk: "factor_count e0 - Suc (length pre) = Suc k" using Suc.prems(1) by simp
      note below = Suc.IH [of "pre @ [u]", OF _ t2]
      show ?thesis
      proof (cases "sols_from e0 k (pre @ [u]) 0")
        case (Cons v vs)
        with below Suc.prems(1) obtain q e3 where q: "placed e0 v e3" "length v = factor_count e0" "above e0 v = vs @ above e0 (pre @ [u])"
          "\<And>m. enum_loop (q + m) (Suc (length pre)) e2 = Inr (True, e3)" by (auto simp: finds_def)
        have "enum_loop (Suc q + m) (length pre) e = Inr (True, e3)" for m using step [of "q + m"] q(4) by simp
        from finds_ConsI [OF q(1,2) _ this] q(3) show ?thesis unfolding split Cons by (simp add: fk)
      next
        case Nil
        with below Suc.prems(1) obtain q e3 where q: "placed e0 (pre @ [u]) e3"
          "\<And>m. enum_loop (q + m) (Suc (length pre)) e2 = leave m (Suc (length pre)) e3" by (auto simp: finds_def)
        have go: "enum_loop (Suc q + m) (length pre) e = enum_loop m (length pre) e3" for m
          using step [of "q + m"] q(2) by (simp add: leave_def)
        have "finds e0 pre (sols_from e0 (Suc k) pre (u + 1)) e3"
          using found(1) by (intro less.hyps [OF _ placed_trying [OF q(1)]]) (auto simp: first_ok_def)
        from finds_later [OF go this] show ?thesis unfolding split Nil by simp
      qed
    qed
  qed
qed

text \<open>The whole search from a depth on: the next of the combinations \<open>R\<close>, or the end.\<close>

definition yields :: "AgeBindingFlatEnumerator \<Rightarrow> nat \<Rightarrow> int list list \<Rightarrow> AgeBindingFlatEnumerator \<Rightarrow> bool" where
  "yields e0 depth R e \<longleftrightarrow>
     (case R of
        [] \<Rightarrow> \<exists>q e2. \<not> active e2 \<and> (\<forall>m. enum_loop (q + m) depth e = Inr (False, e2))
      | v # vs \<Rightarrow> \<exists>q e1. placed e0 v e1 \<and> length v = factor_count e0 \<and> above e0 v = vs \<and>
                   (\<forall>m. enum_loop (q + m) depth e = Inr (True, e1)))"

lemma yields_later:
  assumes go: "\<And>m. enum_loop (q + m) d e = enum_loop m d' e'" and "yields e0 d' R e'"
  shows "yields e0 d R e"
proof -
  have g: "enum_loop (q + p + m) d e = enum_loop (p + m) d' e'" for p m using go [of "p + m"] by (simp add: add.assoc)
  from assms(2) show ?thesis unfolding yields_def by (cases R) (simp_all, (metis g)+)
qed

lemma search_next:
  assumes "enum_wf e0"
  shows "factor_count e0 = Suc (length pre + k) \<Longrightarrow> trying e0 pre t e \<Longrightarrow>
    yields e0 (length pre) (sols_from e0 k pre t @ above e0 pre) e"
proof (induction pre arbitrary: k t e rule: rev_induct)
  case Nil
  show ?case
  proof (cases "sols_from e0 k [] t")
    case Nil': Nil
    with search_below [OF assms Nil] obtain q e2 where "placed e0 [] e2" "\<And>m. enum_loop (q + m) 0 e = leave m 0 e2"
      by (auto simp: finds_def)
    with Nil' show ?thesis by (auto simp: yields_def leave_def intro!: exI [of _ q])
  next
    case (Cons v vs)
    with search_below [OF assms Nil] show ?thesis by (simp add: finds_def yields_def)
  qed
next
  case (snoc u pre)
  show ?case
  proof (cases "sols_from e0 k (pre @ [u]) t")
    case (Cons v vs)
    with search_below [OF assms snoc.prems] show ?thesis by (simp add: finds_def yields_def)
  next
    case Nil
    with search_below [OF assms snoc.prems] obtain q e2 where q: "placed e0 (pre @ [u]) e2"
      "\<And>m. enum_loop (q + m) (length (pre @ [u])) e = enum_loop m (length pre) e2" by (auto simp: finds_def leave_def)
    have fk: "factor_count e0 = Suc (length pre + Suc k)" using snoc.prems(1) by simp
    from yields_later [OF q(2) snoc.IH [OF fk placed_trying [OF q(1)]]] Nil fk show ?thesis by simp
  qed
qed

subsection \<open>Running the enumerator\<close>

text \<open>\<open>while (age_binding_flat_enumerator_next(&state->small_bag_enumerator))\<close>, collecting the indexes.\<close>

primrec run_enum :: "nat \<Rightarrow> nat \<Rightarrow> AgeBindingFlatEnumerator \<Rightarrow> int list list result" where
  "run_enum 0 fuel e = Inl OutOfFuel"
| "run_enum (Suc calls) fuel e =
     bindE (age_binding_flat_enumerator_next fuel e) (\<lambda>(found, e').
       if found then bindE (run_enum calls fuel e') (\<lambda>ixs. Inr (indexes e' # ixs)) else Inr [])"

lemma run_after:
  assumes "enum_wf e0"
  shows "yields e0 d R e \<Longrightarrow> (\<And>fuel. age_binding_flat_enumerator_next fuel e' = enum_loop fuel d e) \<Longrightarrow>
    \<exists>F. \<forall>fuel \<ge> F. \<forall>calls > length R. run_enum calls fuel e' = Inr (map (idx_of e0) R)"
proof (induction R arbitrary: d e e')
  case Nil
  then obtain q e2 where q: "\<And>m. enum_loop (q + m) d e = Inr (False, e2)" by (auto simp: yields_def)
  have "run_enum calls fuel e' = Inr []" if "fuel \<ge> q" "0 < calls" for fuel calls
    using q [of "fuel - q"] that Nil.prems(2) by (cases calls) simp_all
  then show ?case by auto
next
  case (Cons v vs)
  then obtain q e1 where q: "placed e0 v e1" "length v = factor_count e0" "above e0 v = vs" "\<And>m. enum_loop (q + m) d e = Inr (True, e1)"
    by (auto simp: yields_def)
  have fc: "factor_count e1 = factor_count e0" "active e1" "started e1" "indexes e1 = idx_of e0 v"
    using q(1) by (auto simp: placed_def same_cfg_def)
  obtain w u where v: "v = w @ [u]" using q(2) assms by (cases v rule: rev_cases) (auto simp: enum_wf_def)
  have k: "factor_count e0 = Suc (length w + 0)" using q(2) v by simp
  have R: "vs = sols_from e0 0 w (u + 1) @ above e0 w" using q(3) v k by simp
  have nx: "age_binding_flat_enumerator_next fuel e1 = enum_loop fuel (length w) e1" for fuel
  proof -
    have "e1\<lparr>started := True\<rparr> = e1" using fc(3) by (cases e1) simp
    then show ?thesis using fc(1,2) k fc(3) by (simp only: age_binding_flat_enumerator_next_def) simp
  qed
  have "yields e0 (length w) vs e1" unfolding R by (rule search_next [OF assms k placed_trying]) (use q(1) v in simp)
  from Cons.IH [OF this nx] obtain F where F: "\<forall>fuel \<ge> F. \<forall>calls > length vs. run_enum calls fuel e1 = Inr (map (idx_of e0) vs)" by blast
  have "run_enum calls fuel e' = Inr (map (idx_of e0) (v # vs))" if "fuel \<ge> max F q" "calls > length (v # vs)" for fuel calls
    using q(4) [of "fuel - q"] that Cons.prems(2) F fc by (cases calls) simp_all
  then show ?case by blast
qed

subsection \<open>Which combinations are returned\<close>

lemma all_from_split: "n < m \<Longrightarrow> (\<forall>d. n \<le> d \<and> d < m \<longrightarrow> P d) \<longleftrightarrow> P n \<and> (\<forall>d. Suc n \<le> d \<and> d < m \<longrightarrow> P d)"
  by (auto simp: Suc_le_eq) (metis le_eq_less_or_eq)

lemma in_sols:
  "v \<in> set (sols e k pre) \<longleftrightarrow> length v = length pre + k \<and> take (length pre) v = pre \<and>
     (\<forall>d. length pre \<le> d \<and> d < length v \<longrightarrow> 0 \<le> v ! d \<and> v ! d < cnt e d \<and> choice_ok e (take d v) (v ! d))"
proof (induction k arbitrary: pre)
  case 0
  show ?case by auto
next
  case (Suc k)
  have ext: "take (Suc (length pre)) v = pre @ [t] \<longleftrightarrow> take (length pre) v = pre \<and> v ! length pre = t" if "length pre < length v" for t
    using that by (simp add: take_Suc_conv_app_nth)
  have "v \<in> set (sols e (Suc k) pre) \<longleftrightarrow>
      (\<exists>t. 0 \<le> t \<and> t < cnt e (length pre) \<and> choice_ok e pre t \<and> v \<in> set (sols e k (pre @ [t])))" by auto
  also have "\<dots> \<longleftrightarrow> length v = length pre + Suc k \<and> take (length pre) v = pre \<and> 0 \<le> v ! length pre \<and> v ! length pre < cnt e (length pre) \<and>
      choice_ok e pre (v ! length pre) \<and>
      (\<forall>d. Suc (length pre) \<le> d \<and> d < length v \<longrightarrow> 0 \<le> v ! d \<and> v ! d < cnt e d \<and> choice_ok e (take d v) (v ! d))"
    unfolding Suc.IH by (cases "length v = length pre + Suc k") (auto simp: ext)
  also have "\<dots> \<longleftrightarrow> length v = length pre + Suc k \<and> take (length pre) v = pre \<and>
      (\<forall>d. length pre \<le> d \<and> d < length v \<longrightarrow> 0 \<le> v ! d \<and> v ! d < cnt e d \<and> choice_ok e (take d v) (v ! d))"
    using all_from_split [of "length pre" "length v" "\<lambda>d. 0 \<le> v ! d \<and> v ! d < cnt e d \<and> choice_ok e (take d v) (v ! d)"]
    by (cases "length v = length pre + Suc k"; cases "take (length pre) v = pre") simp_all
  finally show ?case .
qed

lemma distinct_sols: "distinct (sols e k pre)"
proof (induction k arbitrary: pre)
  case (Suc k)
  have "distinct (concat (map (\<lambda>t. if choice_ok e pre t then sols e k (pre @ [t]) else []) ts))" if "distinct ts" for ts
    using that
  proof (induction ts)
    case (Cons t ts)
    have "x \<notin> set (sols e k (pre @ [u]))" if "u \<noteq> t" "x \<in> set (sols e k (pre @ [t]))" for x u
      using that by (auto simp: in_sols)
    with Cons Suc.IH show ?case by auto metis
  qed simp
  then show ?case by simp
qed simp

text \<open>The index arrays the accept callback sees while depth \<open>d\<close> is decided.\<close>

definition masked :: "AgeBindingFlatEnumerator \<Rightarrow> nat \<Rightarrow> int list \<Rightarrow> int list" where
  "masked e d ix = map (\<lambda>f. if f \<in> set (take (Suc d) (enumeration_order e)) then ix ! f else -1) [0..<factor_count e]"

definition combination :: "AgeBindingFlatEnumerator \<Rightarrow> int list \<Rightarrow> bool" where
  "combination e ix \<longleftrightarrow> length ix = factor_count e \<and> (\<forall>f < factor_count e. 0 \<le> ix ! f \<and> ix ! f < logical_counts e ! f) \<and>
     (\<forall>accept. accept_callback e = Some accept \<longrightarrow>
        (\<forall>d < factor_count e. accept (masked e d ix) (fac e d) (ix ! fac e d))) \<and>
     (\<forall>f < factor_count e. \<forall>g < factor_count e. f \<noteq> g \<longrightarrow> \<not> clash e f (ix ! f) g (ix ! g))"

definition choices :: "AgeBindingFlatEnumerator \<Rightarrow> int list \<Rightarrow> int list" where
  "choices e ix = map (\<lambda>d. ix ! fac e d) [0..<factor_count e]"

lemma fac_onto: "enum_wf e \<Longrightarrow> f < factor_count e \<Longrightarrow> \<exists>d < factor_count e. fac e d = f"
  using length_order [of e] unfolding enum_wf_def by (metis atLeastLessThan_iff in_set_conv_nth zero_le)

lemma idx_of_choices: "enum_wf e \<Longrightarrow> length ix = factor_count e \<Longrightarrow> idx_of e (choices e ix) = ix"
proof (rule nth_equalityI)
  fix f assume a: "enum_wf e" "length ix = factor_count e" "f < length (idx_of e (choices e ix))"
  then obtain d where "d < factor_count e" "fac e d = f" using fac_onto [of e f] by auto
  with a idx_of_nth [of e "choices e ix" d] show "idx_of e (choices e ix) ! f = ix ! f" by (simp add: choices_def)
qed simp

lemma choices_idx_of: "enum_wf e \<Longrightarrow> length v = factor_count e \<Longrightarrow> choices e (idx_of e v) = v"
  by (rule nth_equalityI) (simp_all add: choices_def idx_of_nth)

lemma idx_of_take:
  assumes "enum_wf e" "length v = factor_count e" "d < factor_count e"
  shows "idx_of e (take (Suc d) v) = masked e d (idx_of e v)"
proof (rule nth_equalityI)
  fix f assume "f < length (idx_of e (take (Suc d) v))"
  then obtain c where c: "c < factor_count e" "fac e c = f" using fac_onto [OF assms(1), of f] by auto
  have "f \<in> set (take (Suc d) (enumeration_order e)) \<longleftrightarrow> c \<le> d"
  proof
    assume "f \<in> set (take (Suc d) (enumeration_order e))"
    then obtain b where "b \<le> d" "fac e b = f" using length_order [OF assms(1)] assms(3) by (auto simp: in_set_conv_nth less_Suc_eq_le)
    with c fac_inj [OF assms(1), of b c] assms(3) show "c \<le> d" by simp
  next
    assume "c \<le> d"
    with c length_order [OF assms(1)] show "f \<in> set (take (Suc d) (enumeration_order e))"
      by (auto simp: in_set_conv_nth intro!: exI [of _ c])
  qed
  with c idx_of_nth [OF assms(1), of "take (Suc d) v" c] idx_of_nth [OF assms(1), of v c] assms(2,3) fac_less [OF assms(1) c(1)]
  show "idx_of e (take (Suc d) v) ! f = masked e d (idx_of e v) ! f" by (auto simp: masked_def)
qed (simp add: masked_def)

lemma clash_sym: "clash e f t g u \<Longrightarrow> clash e g u f t"
  by (auto simp: clash_def bms_overlap_def split: option.splits)

lemma combination_choices:
  assumes "enum_wf e" "length v = factor_count e"
  shows "combination e (idx_of e v) \<longleftrightarrow> (\<forall>d < factor_count e. 0 \<le> v ! d \<and> v ! d < cnt e d \<and> choice_ok e (take d v) (v ! d))"
proof -
  have nth: "idx_of e v ! fac e d = v ! d" if "d < factor_count e" for d using idx_of_nth [OF assms(1), of v d] that assms(2) by simp
  have all: "(\<forall>f < factor_count e. P f) \<longleftrightarrow> (\<forall>d < factor_count e. P (fac e d))" for P
    using fac_onto [OF assms(1)] fac_less [OF assms(1)] by metis
  have acc: "(case accept_callback e of None \<Rightarrow> True | Some accept \<Rightarrow> accept (idx_of e (take d v @ [v ! d])) (fac e (length (take d v))) (v ! d)) \<longleftrightarrow>
      (\<forall>accept. accept_callback e = Some accept \<longrightarrow> accept (masked e d (idx_of e v)) (fac e d) (v ! d))" if "d < factor_count e" for d
    using that assms(2) idx_of_take [OF assms that] by (simp add: take_Suc_conv_app_nth [symmetric] min_def split: option.splits)
  have pairs: "(\<forall>f < factor_count e. \<forall>g < factor_count e. f \<noteq> g \<longrightarrow> \<not> clash e f (idx_of e v ! f) g (idx_of e v ! g)) \<longleftrightarrow>
      (\<forall>d < factor_count e. \<forall>c < d. \<not> clash e (fac e d) (v ! d) (fac e c) (v ! c))" (is "?l \<longleftrightarrow> ?r")
  proof -
    have "?l \<longleftrightarrow> (\<forall>d < factor_count e. \<forall>c < factor_count e. d \<noteq> c \<longrightarrow> \<not> clash e (fac e d) (v ! d) (fac e c) (v ! c))"
      unfolding all [where P = "\<lambda>f. \<forall>g < factor_count e. f \<noteq> g \<longrightarrow> \<not> clash e f (idx_of e v ! f) g (idx_of e v ! g)"]
        all [where P = "\<lambda>g. fac e d \<noteq> g \<longrightarrow> \<not> clash e (fac e d) (idx_of e v ! fac e d) g (idx_of e v ! g)" for d]
      by (auto simp: nth fac_inj [OF assms(1)])
    also have "\<dots> \<longleftrightarrow> ?r"
    proof (intro iffI allI impI)
      fix d c assume r: ?r and "d < factor_count e" "c < factor_count e" "d \<noteq> c"
      then consider "c < d" | "d < c" by linarith
      then show "\<not> clash e (fac e d) (v ! d) (fac e c) (v ! c)"
        using r \<open>d < factor_count e\<close> \<open>c < factor_count e\<close> clash_sym by cases blast+
    qed simp
    finally show ?thesis .
  qed
  have bounds: "(\<forall>f < factor_count e. 0 \<le> idx_of e v ! f \<and> idx_of e v ! f < logical_counts e ! f) \<longleftrightarrow>
      (\<forall>d < factor_count e. 0 \<le> v ! d \<and> v ! d < cnt e d)"
    unfolding all [where P = "\<lambda>f. 0 \<le> idx_of e v ! f \<and> idx_of e v ! f < logical_counts e ! f"] by (simp add: nth)
  have "choice_ok e (take d v) (v ! d) \<longleftrightarrow>
      (\<forall>accept. accept_callback e = Some accept \<longrightarrow> accept (masked e d (idx_of e v)) (fac e d) (v ! d)) \<and>
      (\<forall>c < d. \<not> clash e (fac e d) (v ! d) (fac e c) (v ! c))" if "d < factor_count e" for d
    unfolding choice_ok_def acc [OF that] using that assms(2) by (simp add: min_def)
  then show ?thesis unfolding combination_def bounds pairs by (auto simp: nth)
qed

lemma sols_combinations:
  assumes "enum_wf e"
  shows "distinct (map (idx_of e) (sols e (factor_count e) [])) \<and>
    set (map (idx_of e) (sols e (factor_count e) [])) = {ix. combination e ix}"
proof
  have s: "v \<in> set (sols e (factor_count e) []) \<longleftrightarrow> length v = factor_count e \<and> combination e (idx_of e v)" for v
    using combination_choices [OF assms, of v] by (auto simp: in_sols)
  have "inj_on (idx_of e) (set (sols e (factor_count e) []))"
    by (rule inj_on_inverseI [where g = "choices e"]) (use choices_idx_of [OF assms] s in blast)
  then show "distinct (map (idx_of e) (sols e (factor_count e) []))" by (simp add: distinct_map distinct_sols)
  have "ix \<in> idx_of e ` set (sols e (factor_count e) [])" if "combination e ix" for ix
  proof -
    have l: "length ix = factor_count e" using that by (simp add: combination_def)
    then have "choices e ix \<in> set (sols e (factor_count e) [])" using s that idx_of_choices [OF assms l] by (simp add: choices_def)
    then show ?thesis using idx_of_choices [OF assms l] by (metis image_eqI)
  qed
  then show "set (map (idx_of e) (sols e (factor_count e) [])) = {ix. combination e ix}" using s by auto
qed

subsection \<open>Beginning an enumeration\<close>

lemma length_shift_order [simp]: "length (shift_order counts sel p ord) = length ord"
  by (induction p arbitrary: ord) simp_all

lemma mset_shift_order: "p < length ord \<Longrightarrow> mset (shift_order counts sel p ord) = mset (ord[p := sel])"
proof (induction p arbitrary: ord)
  case (Suc p)
  have "(ord[Suc p := ord ! p])[p := sel] = (ord[Suc p := sel])[Suc p := ord[Suc p := sel] ! p, p := ord[Suc p := sel] ! Suc p]"
    using Suc.prems by (simp add: list_update_swap)
  then have "mset ((ord[Suc p := ord ! p])[p := sel]) = mset (ord[Suc p := sel])"
    using mset_swap [of p "ord[Suc p := sel]" "Suc p"] Suc.prems by (simp add: list_update_swap)
  with Suc show ?case by simp
qed simp

lemma order_factors_mset: "length ord = n \<Longrightarrow> mset (order_factors counts n ord) = mset ord \<and> length (order_factors counts n ord) = n"
proof -
  have "mset (fold (\<lambda>i ord. shift_order counts (ord ! i) i ord) is ord) = mset ord \<and>
      length (fold (\<lambda>i ord. shift_order counts (ord ! i) i ord) is ord) = length ord"
    if "\<forall>i \<in> set is. i < length ord" for "is" ord
    using that by (induction "is" arbitrary: ord) (simp_all add: mset_shift_order)
  then show "length ord = n \<Longrightarrow> ?thesis" by (simp add: order_factors_def)
qed

lemma count_loop_result:
  assumes "count_loop cb fs counts r = Inr (counts', r')" "0 \<le> x" "r = min x PG_INT64_MAX" "\<forall>f \<in> set fs. f < length counts" "distinct fs"
  shows "length counts' = length counts \<and> (\<forall>f < length counts. counts' ! f = (if f \<in> set fs then cb f else counts ! f)) \<and>
    r' = min (x * prod_list (map cb fs)) PG_INT64_MAX"
  using assms
proof (induction cb fs counts r arbitrary: x rule: count_loop.induct)
  case (2 cb f fs counts r)
  have nn: "0 \<le> cb f" using "2.prems"(1) by (auto simp: Let_def split: if_splits)
  have step: "(if cb f \<le> 0 then 0 else if r > PG_INT64_MAX div cb f then PG_INT64_MAX else r * cb f) = min (x * cb f) PG_INT64_MAX"
  proof (cases "cb f = 0")
    case False
    then have "\<not> cb f \<le> 0" "0 < cb f" using nn by simp_all
    then show ?thesis unfolding "2.prems"(3) if_not_P [OF \<open>\<not> cb f \<le> 0\<close>] by (intro saturating_mult "2.prems"(2)) simp_all
  qed simp
  from "2.prems"(1) nn have "count_loop cb fs (counts[f := cb f]) (min (x * cb f) PG_INT64_MAX) = Inr (counts', r')"
    by (simp add: Let_def step [symmetric])
  with "2.IH" [OF refl, of "x * cb f"] "2.prems"(2,4,5) nn step
  have "length counts' = length counts \<and> (\<forall>g < length counts. counts' ! g = (if g \<in> set fs then cb g else counts[f := cb f] ! g)) \<and>
      r' = min (x * cb f * prod_list (map cb fs)) PG_INT64_MAX" by simp
  then show ?case using "2.prems"(4,5) by (auto simp: mult.assoc nth_list_update)
qed simp

lemma begin_result:
  assumes "age_binding_begin_flat_enumerator e counts_cb accept edge groups = Inr (rows, e0)" "0 < factor_count e"
  shows "enum_wf e0" "trying e0 [] 0 (e0\<lparr>started := True\<rparr>)" "active e0" "\<not> started e0" "factor_count e0 = factor_count e"
    "\<forall>f < factor_count e. logical_counts e0 ! f = counts_cb f" "accept_callback e0 = accept" "edge_id_callback e0 = edge"
    "rows = min (prod_list (map counts_cb [0..<factor_count e])) PG_INT64_MAX"
proof -
  let ?n = "factor_count e"
  obtain counts where c: "count_loop counts_cb [0..<?n] (replicate ?n 0) 1 = Inr (counts, rows)"
    and e0: "e0 = (age_binding_reset_flat_enumerator e)\<lparr>accept_callback := accept, edge_id_callback := edge,
      uniqueness_groups := (if edge \<noteq> None then groups else None), active := True, starts := age_binding_add_counter (starts e) 1,
      logical_counts := counts, enumeration_order := order_factors counts ?n [0..<?n]\<rparr>"
    using assms(1) by (auto simp: age_binding_begin_flat_enumerator_def age_binding_reset_flat_enumerator_def bindE_eq_Inr Let_def)
  have r: "length counts = ?n" "\<forall>f < ?n. counts ! f = counts_cb f" "rows = min (prod_list (map counts_cb [0..<?n])) PG_INT64_MAX"
    using count_loop_result [OF c, of 1] by (auto simp: PG_INT64_MAX_def)
  have o: "mset (order_factors counts ?n [0..<?n]) = mset [0..<?n]" using order_factors_mset [of "[0..<?n]" ?n counts] by simp
  have "distinct (order_factors counts ?n [0..<?n])" "set (order_factors counts ?n [0..<?n]) = {0..<?n}"
    using mset_eq_imp_distinct_iff [OF o] mset_eq_setD [OF o] by simp_all
  then show wf: "enum_wf e0" using assms(2) r(1) by (simp add: enum_wf_def e0 age_binding_reset_flat_enumerator_def)
  show "active e0" "\<not> started e0" "factor_count e0 = ?n" "accept_callback e0 = accept" "edge_id_callback e0 = edge"
    "\<forall>f < ?n. logical_counts e0 ! f = counts_cb f" using r(2) by (simp_all add: e0 age_binding_reset_flat_enumerator_def)
  show "rows = min (prod_list (map counts_cb [0..<?n])) PG_INT64_MAX" by (rule r(3))
  have "replicate ?n (-1 :: int) ! fac e0 0 = -1" using fac_less [OF wf, of 0] assms(2) by (simp add: e0 age_binding_reset_flat_enumerator_def)
  then have "(replicate ?n (-1 :: int))[fac e0 0 := -1] = replicate ?n (-1)" by (metis list_update_id)
  then show "trying e0 [] 0 (e0\<lparr>started := True\<rparr>)"
    by (simp add: trying_def same_cfg_def marks_def) (simp add: e0 age_binding_reset_flat_enumerator_def)
qed



end
