(* ===== verification/Binding_NodeEnum.thy ===== *)
theory Binding_NodeEnum
  imports Binding_Node Binding_Search
begin

text \<open>
  The flat enumerator of a binding node (\<open>src/backend/executor/cypher_factorized_binding.c\<close>): its factors
  are the source bags, edge bags and children of the node. It is a simpler copy of the flat
  enumerator, without callbacks and with the factors in their own order, and its steps are simulated
  by that enumerator's.
\<close>

subsection \<open>State\<close>

datatype AgeBindingNodeFlatFactorKind =
  AGE_BINDING_NODE_FLAT_SOURCE_BAG | AGE_BINDING_NODE_FLAT_EDGE_BAG | AGE_BINDING_NODE_FLAT_CHILD

record AgeBindingNodeFlatFactor =
  factor_kind :: AgeBindingNodeFlatFactorKind
  factor_index :: int
  factor_logical_count :: int

record AgeBindingNodeFlatEnumerator =
  ne_node :: "nat option"
  factors :: "AgeBindingNodeFlatFactor list"
  factor_capacity :: int
  ne_indexes :: "int list"
  ne_active :: bool
  ne_started :: bool
  ne_candidate_flat_rows :: int
  emitted_rows :: int
  ne_starts :: int
  ne_steps :: int
  ne_memory_bytes :: int

definition sizeof_AgeBindingNodeFlatFactor :: int where "sizeof_AgeBindingNodeFlatFactor = 12"

definition age_binding_init_node_flat_enumerator :: AgeBindingNodeFlatEnumerator where
  "age_binding_init_node_flat_enumerator =
     \<lparr>ne_node = None, factors = [], factor_capacity = 0, ne_indexes = [], ne_active = False, ne_started = False,
      ne_candidate_flat_rows = 0, emitted_rows = 0, ne_starts = 0, ne_steps = 0, ne_memory_bytes = 0\<rparr>"

definition age_binding_reset_node_flat_enumerator :: "AgeBindingNodeFlatEnumerator \<Rightarrow> AgeBindingNodeFlatEnumerator" where
  "age_binding_reset_node_flat_enumerator e =
     e\<lparr>ne_node := None, factors := [], ne_indexes := [], ne_active := False, ne_started := False,
       ne_candidate_flat_rows := 0, emitted_rows := 0\<rparr>"

definition age_binding_cleanup_node_flat_enumerator :: "AgeBindingNodeFlatEnumerator \<Rightarrow> AgeBindingNodeFlatEnumerator" where
  "age_binding_cleanup_node_flat_enumerator e = age_binding_init_node_flat_enumerator"

definition age_binding_node_flat_enumerator_reserve ::
    "AgeBindingNodeFlatEnumerator \<Rightarrow> int \<Rightarrow> AgeBindingNodeFlatEnumerator result" where
  "age_binding_node_flat_enumerator_reserve e required =
     (if required \<le> factor_capacity e then Inr e
      else let new_capacity = grow_capacity (if factor_capacity e = 0 then 4 else factor_capacity e * 2) required;
               added = new_capacity - factor_capacity e
           in if new_capacity \<le> factor_capacity e \<or> new_capacity > MaxAllocSize div sizeof_AgeBindingNodeFlatFactor \<or>
                 new_capacity > MaxAllocSize div 4
              then Inl (Ereport ''AGE factorized binding node enumerator is too large'')
              else Inr (e\<lparr>factor_capacity := new_capacity,
                     ne_memory_bytes := age_binding_add_byte_counter
                       (age_binding_add_byte_counter (ne_memory_bytes e) (sizeof_AgeBindingNodeFlatFactor * added)) (4 * added)\<rparr>))"

definition age_binding_node_flat_enumerator_add_factor ::
    "AgeBindingNodeFlatFactorKind \<Rightarrow> int \<Rightarrow> int \<Rightarrow> AgeBindingNodeFlatEnumerator \<Rightarrow> AgeBindingNodeFlatEnumerator result" where
  "age_binding_node_flat_enumerator_add_factor kind fi logical e =
     (if logical < 0 then Inl (Ereport ''invalid AGE factorized binding node factor'')
      else bindE (age_binding_node_flat_enumerator_reserve e (int (length (factors e)) + 1)) (\<lambda>e1.
        Inr (e1\<lparr>factors := factors e1 @ [\<lparr>factor_kind = kind, factor_index = fi, factor_logical_count = logical\<rparr>],
                ne_indexes := ne_indexes e1 @ [-1]\<rparr>)))"

text \<open>A loop of \<open>age_binding_begin_node_flat_enumerator\<close>.\<close>

fun add_factors :: "AgeBindingNodeFlatFactorKind \<Rightarrow> int \<Rightarrow> int list \<Rightarrow> AgeBindingNodeFlatEnumerator \<Rightarrow> AgeBindingNodeFlatEnumerator result" where
  "add_factors kind i [] e = Inr e"
| "add_factors kind i (c # cs) e = bindE (age_binding_node_flat_enumerator_add_factor kind i c e) (add_factors kind (i + 1) cs)"

text \<open>The conversion of an \<open>int64\<close> argument to the parameter type \<open>int\<close>.\<close>

definition to_int32 :: "int \<Rightarrow> int" where "to_int32 i = sint (word_of_int i :: 32 word)"

definition age_binding_begin_node_flat_enumerator ::
    "nat \<Rightarrow> binding_heap \<Rightarrow> AgeBindingNodeFlatEnumerator \<Rightarrow> nat \<Rightarrow> (int \<times> AgeBindingNodeFlatEnumerator \<times> binding_heap) result" where
  "age_binding_begin_node_flat_enumerator fuel h e a =
     bindE (age_binding_node_multiplicity fuel h a) (\<lambda>(candidate, h1).
     bindE (get_node h1 a) (\<lambda>n.
     let e1 = (age_binding_reset_node_flat_enumerator e)\<lparr>ne_node := Some a, ne_candidate_flat_rows := mult_count candidate,
                ne_active := mult_count candidate > 0, ne_starts := age_binding_add_counter (ne_starts e) 1\<rparr>
     in bindE (add_factors AGE_BINDING_NODE_FLAT_SOURCE_BAG 0 (map sb_row_count (source_bags n)) e1) (\<lambda>e2.
        bindE (add_factors AGE_BINDING_NODE_FLAT_EDGE_BAG 0 (map eb_logical_count (edge_bags n)) e2) (\<lambda>e3.
        bindE (add_factors AGE_BINDING_NODE_FLAT_CHILD 0 (map (\<lambda>c. to_int32 (mult_count (snd c))) (children n)) e3) (\<lambda>e4.
        Inr (mult_count candidate, e4, h1))))))"

primrec node_enum_loop :: "nat \<Rightarrow> nat \<Rightarrow> AgeBindingNodeFlatEnumerator \<Rightarrow> (bool \<times> AgeBindingNodeFlatEnumerator) result" where
  "node_enum_loop 0 depth e = Inl OutOfFuel"
| "node_enum_loop (Suc fuel) depth e =
     (let t = ne_indexes e ! depth + 1
      in if t < factor_logical_count (factors e ! depth) then
           let e1 = e\<lparr>ne_indexes := (ne_indexes e)[depth := t], ne_steps := age_binding_add_counter (ne_steps e) 1\<rparr>
           in if depth = length (factors e) - 1
              then Inr (True, e1\<lparr>emitted_rows := age_binding_add_counter (emitted_rows e1) 1\<rparr>)
              else node_enum_loop fuel (depth + 1) (e1\<lparr>ne_indexes := (ne_indexes e1)[depth + 1 := -1]\<rparr>)
         else let e2 = e\<lparr>ne_indexes := (ne_indexes e)[depth := -1]\<rparr>
              in if depth = 0 then Inr (False, e2\<lparr>ne_active := False, ne_started := False\<rparr>) else node_enum_loop fuel (depth - 1) e2)"

declare node_enum_loop.simps [simp del]

definition age_binding_node_flat_enumerator_next ::
    "nat \<Rightarrow> AgeBindingNodeFlatEnumerator \<Rightarrow> (bool \<times> AgeBindingNodeFlatEnumerator) result" where
  "age_binding_node_flat_enumerator_next fuel e =
     (if \<not> ne_active e then Inr (False, e)
      else if factors e = [] then
        if ne_started e then Inr (False, e\<lparr>ne_active := False, ne_started := False\<rparr>)
        else Inr (True, e\<lparr>ne_started := True, emitted_rows := age_binding_add_counter (emitted_rows e) 1\<rparr>)
      else node_enum_loop fuel (if ne_started e then length (factors e) - 1 else 0) (e\<lparr>ne_started := True\<rparr>))"

fun find_factor :: "AgeBindingNodeFlatFactorKind \<Rightarrow> int \<Rightarrow> AgeBindingNodeFlatFactor list \<Rightarrow> int list \<Rightarrow> int result" where
  "find_factor kind fi (f # fs) (i # is) = (if factor_kind f = kind \<and> factor_index f = fi then Inr i else find_factor kind fi fs is)"
| "find_factor kind fi _ _ = Inl (Ereport ''AGE factorized binding node factor was not found'')"

definition age_binding_node_flat_enumerator_index ::
    "AgeBindingNodeFlatEnumerator \<Rightarrow> AgeBindingNodeFlatFactorKind \<Rightarrow> int \<Rightarrow> int result" where
  "age_binding_node_flat_enumerator_index e kind fi =
     (if fi < 0 then Inl (Ereport ''invalid AGE factorized binding node enumerator index'') else find_factor kind fi (factors e) (ne_indexes e))"

definition age_binding_node_flat_enumerator_candidate_rows :: "AgeBindingNodeFlatEnumerator \<Rightarrow> int" where
  "age_binding_node_flat_enumerator_candidate_rows e = ne_candidate_flat_rows e"

definition age_binding_node_flat_enumerator_emitted_rows :: "AgeBindingNodeFlatEnumerator \<Rightarrow> int" where
  "age_binding_node_flat_enumerator_emitted_rows e = emitted_rows e"

definition age_binding_node_flat_enumerator_starts :: "AgeBindingNodeFlatEnumerator \<Rightarrow> int" where
  "age_binding_node_flat_enumerator_starts e = ne_starts e"

definition age_binding_node_flat_enumerator_steps :: "AgeBindingNodeFlatEnumerator \<Rightarrow> int" where
  "age_binding_node_flat_enumerator_steps e = ne_steps e"

definition age_binding_node_flat_enumerator_memory_bytes :: "AgeBindingNodeFlatEnumerator \<Rightarrow> int" where
  "age_binding_node_flat_enumerator_memory_bytes e = ne_memory_bytes e"

subsection \<open>Simulation by the flat enumerator\<close>

text \<open>The flat enumerator without callbacks that a node enumerator corresponds to.\<close>

definition flat_of :: "AgeBindingNodeFlatEnumerator \<Rightarrow> AgeBindingFlatEnumerator" where
  "flat_of e = \<lparr>factor_count = length (factors e), logical_counts = map factor_logical_count (factors e), indexes = ne_indexes e,
     enumeration_order = [0..<length (factors e)], selected_edge_ids = replicate (length (factors e)) 0,
     selected_edge_id_valid = replicate (length (factors e)) False, uniqueness_groups = None, accept_callback = None, edge_id_callback = None,
     active = ne_active e, started = ne_started e, starts = ne_starts e, steps = ne_steps e, uniqueness_rejects = 0\<rparr>"

lemma try_tuples_flat:
  assumes "d < length (factors e)"
  shows "try_tuples d d t (flat_of e) =
    (if t < factor_logical_count (factors e ! d)
     then (True, flat_of (e\<lparr>ne_indexes := (ne_indexes e)[d := t], ne_steps := age_binding_add_counter (ne_steps e) 1\<rparr>))
     else (False, flat_of e))"
  using assms by (subst try_tuples.simps) (simp add: flat_of_def refused_def Let_def)

lemma replicate_update: "(replicate n x)[i := x] = replicate n x"
  by (metis list_update_beyond list_update_id not_le_imp_less nth_replicate length_replicate)

lemma node_loop_simulated:
  "length (ne_indexes e) = length (factors e) \<Longrightarrow> d < length (factors e) \<Longrightarrow>
   enum_loop fuel d (flat_of e) = map_sum id (map_prod id flat_of) (node_enum_loop fuel d e)"
proof (induction fuel arbitrary: d e)
  case 0
  then show ?case by (simp add: enum_loop.simps node_enum_loop.simps)
next
  case (Suc fuel)
  let ?t = "ne_indexes e ! d + 1"
  have same: "(flat_of e)\<lparr>selected_edge_id_valid := (selected_edge_id_valid (flat_of e))[d := False]\<rparr> = flat_of e"
    by (simp add: flat_of_def replicate_update)
  have at: "enumeration_order (flat_of e) ! d = d" "indexes (flat_of e) ! d + 1 = ?t" using Suc.prems(2) by (simp_all add: flat_of_def)
  show ?case
  proof (cases "?t < factor_logical_count (factors e ! d)")
    case True
    define e1 where "e1 = e\<lparr>ne_indexes := (ne_indexes e)[d := ?t], ne_steps := age_binding_add_counter (ne_steps e) 1\<rparr>"
    have tr: "try_tuples d d ?t (flat_of e) = (True, flat_of e1)" using try_tuples_flat [OF Suc.prems(2), of ?t] True by (simp add: e1_def)
    show ?thesis
    proof (cases "d = length (factors e) - 1")
      case last: True
      have n: "length (factors e) = Suc d" using last Suc.prems(2) by simp
      have "factor_count (flat_of e1) = Suc d" using n by (simp add: flat_of_def e1_def)
      then have "enum_loop (Suc fuel) d (flat_of e) = Inr (True, flat_of e1)"
        using tr by (simp add: enum_loop.simps same at Let_def)
      moreover have "node_enum_loop (Suc fuel) d e = Inr (True, e1\<lparr>emitted_rows := age_binding_add_counter (emitted_rows e1) 1\<rparr>)"
        using True n by (simp add: node_enum_loop.simps Let_def e1_def)
      moreover have "flat_of (e1\<lparr>emitted_rows := x\<rparr>) = flat_of e1" for x by (simp add: flat_of_def)
      ultimately show ?thesis by simp
    next
      case False
      then have lt: "Suc d < length (factors e)" using Suc.prems(2) by simp
      have "enumeration_order (flat_of e1) ! Suc d = Suc d" using lt by (simp add: flat_of_def e1_def)
      then have nx: "(flat_of e1)\<lparr>indexes := (indexes (flat_of e1))[enumeration_order (flat_of e1) ! Suc d := -1],
           selected_edge_id_valid := (selected_edge_id_valid (flat_of e1))[Suc d := False]\<rparr> =
          flat_of (e1\<lparr>ne_indexes := (ne_indexes e1)[Suc d := -1]\<rparr>)"
        by (simp add: flat_of_def replicate_update)
      have IH: "enum_loop fuel (Suc d) (flat_of (e1\<lparr>ne_indexes := (ne_indexes e1)[Suc d := -1]\<rparr>)) =
          map_sum id (map_prod id flat_of) (node_enum_loop fuel (Suc d) (e1\<lparr>ne_indexes := (ne_indexes e1)[Suc d := -1]\<rparr>))"
        by (rule Suc.IH) (use Suc.prems(1) lt in \<open>simp_all add: e1_def\<close>)
      have "factor_count (flat_of e1) = length (factors e)" by (simp add: flat_of_def e1_def)
      then have "enum_loop (Suc fuel) d (flat_of e) =
          enum_loop fuel (Suc d) (flat_of (e1\<lparr>ne_indexes := (ne_indexes e1)[Suc d := -1]\<rparr>))"
        using tr False nx by (simp add: enum_loop.simps same at Let_def)
      moreover have "node_enum_loop (Suc fuel) d e = node_enum_loop fuel (Suc d) (e1\<lparr>ne_indexes := (ne_indexes e1)[Suc d := -1]\<rparr>)"
        using True False by (simp add: node_enum_loop.simps Let_def e1_def)
      ultimately show ?thesis using IH by (simp only:)
    qed
  next
    case False
    define e2 where "e2 = e\<lparr>ne_indexes := (ne_indexes e)[d := -1]\<rparr>"
    have tr: "try_tuples d d ?t (flat_of e) = (False, flat_of e)" using try_tuples_flat [OF Suc.prems(2), of ?t] False by simp
    have nx: "(flat_of e)\<lparr>indexes := (indexes (flat_of e))[d := -1], selected_edge_id_valid := (selected_edge_id_valid (flat_of e))[d := False]\<rparr> = flat_of e2"
      by (simp add: flat_of_def e2_def replicate_update)
    have fin: "(flat_of e2)\<lparr>active := False, started := False\<rparr> = flat_of (e2\<lparr>ne_active := False, ne_started := False\<rparr>)"
      by (simp add: flat_of_def)
    have step: "enum_loop (Suc fuel) d (flat_of e) = (if d = 0 then Inr (False, flat_of (e2\<lparr>ne_active := False, ne_started := False\<rparr>)) else enum_loop fuel (d - 1) (flat_of e2))"
      by (simp only: enum_loop.simps same at tr nx fin Let_def prod.case if_False)
    have nstep: "node_enum_loop (Suc fuel) d e = (if d = 0 then Inr (False, e2\<lparr>ne_active := False, ne_started := False\<rparr>) else node_enum_loop fuel (d - 1) e2)"
      using False by (simp add: node_enum_loop.simps Let_def e2_def)
    have "enum_loop fuel (d - 1) (flat_of e2) = map_sum id (map_prod id flat_of) (node_enum_loop fuel (d - 1) e2)"
      by (rule Suc.IH) (use Suc.prems in \<open>simp_all add: e2_def\<close>)
    then show ?thesis unfolding step nstep by (cases "d = 0") (simp, simp only: if_False)
  qed
qed

lemma node_next_simulated:
  assumes "length (ne_indexes e) = length (factors e)" "factors e \<noteq> []"
  shows "age_binding_flat_enumerator_next fuel (flat_of e) =
    map_sum id (map_prod id flat_of) (age_binding_node_flat_enumerator_next fuel e)"
proof -
  have s: "(flat_of e)\<lparr>started := True\<rparr> = flat_of (e\<lparr>ne_started := True\<rparr>)" by (simp add: flat_of_def)
  have f: "factor_count (flat_of e) = length (factors e)" "active (flat_of e) = ne_active e" "started (flat_of e) = ne_started e"
    by (simp_all add: flat_of_def)
  show ?thesis
    unfolding age_binding_flat_enumerator_next_def age_binding_node_flat_enumerator_next_def s f
    using node_loop_simulated [of "e\<lparr>ne_started := True\<rparr>" _ fuel] assms by (simp add: Suc_le_eq)
qed

subsection \<open>Enumerating a node\<close>

text \<open>A caller that takes every row: \<open>age_binding_node_flat_enumerator_next\<close> until it returns false.\<close>

primrec run_node :: "nat \<Rightarrow> nat \<Rightarrow> AgeBindingNodeFlatEnumerator \<Rightarrow> int list list result" where
  "run_node 0 fuel e = Inl OutOfFuel"
| "run_node (Suc calls) fuel e =
     bindE (age_binding_node_flat_enumerator_next fuel e) (\<lambda>(found, e').
       if found then bindE (run_node calls fuel e') (\<lambda>ixs. Inr (ne_indexes e' # ixs)) else Inr [])"

lemma node_loop_shape:
  "node_enum_loop fuel d e = Inr (b, e') \<Longrightarrow> factors e' = factors e \<and> length (ne_indexes e') = length (ne_indexes e)"
proof (induction fuel arbitrary: d e)
  case (Suc fuel)
  from Suc.prems show ?case
    by (subst (asm) node_enum_loop.simps) (auto simp: Let_def split: if_splits dest!: Suc.IH)
qed (simp add: node_enum_loop.simps)

lemma node_next_shape:
  "age_binding_node_flat_enumerator_next fuel e = Inr (b, e') \<Longrightarrow>
   factors e' = factors e \<and> length (ne_indexes e') = length (ne_indexes e)"
  by (auto simp: age_binding_node_flat_enumerator_next_def split: if_splits dest!: node_loop_shape)

lemma run_node_simulated:
  "length (ne_indexes e) = length (factors e) \<Longrightarrow> factors e \<noteq> [] \<Longrightarrow> run_node calls fuel e = run_enum calls fuel (flat_of e)"
proof (induction calls arbitrary: e)
  case (Suc calls)
  note sim = node_next_simulated [OF Suc.prems, of fuel]
  show ?case
  proof (cases "age_binding_node_flat_enumerator_next fuel e")
    case (Inl x)
    then show ?thesis using sim by simp
  next
    case (Inr r)
    obtain b e' where r: "r = (b, e')" by (cases r)
    have "run_node calls fuel e' = run_enum calls fuel (flat_of e')"
      using node_next_shape [of fuel e b e'] Inr r Suc.prems by (intro Suc.IH) simp_all
    moreover have "indexes (flat_of e') = ne_indexes e'" by (simp add: flat_of_def)
    ultimately show ?thesis using sim Inr r by simp
  qed
qed simp

definition factor_list :: "AgeBindingNodeFlatFactorKind \<Rightarrow> int \<Rightarrow> int list \<Rightarrow> AgeBindingNodeFlatFactor list" where
  "factor_list kind i cs = map (\<lambda>(j, c). \<lparr>factor_kind = kind, factor_index = i + int j, factor_logical_count = c\<rparr>) (enumerate 0 cs)"

lemma factor_list_simps [simp]:
  "factor_list kind i [] = []"
  "factor_list kind i (c # cs) = \<lparr>factor_kind = kind, factor_index = i, factor_logical_count = c\<rparr> # factor_list kind (i + 1) cs"
  by (simp_all add: factor_list_def enumerate_Suc_eq [of 0] case_prod_beta o_def add.assoc)

lemma reserve_keeps:
  "age_binding_node_flat_enumerator_reserve e k = Inr e' \<Longrightarrow>
   factors e' = factors e \<and> ne_indexes e' = ne_indexes e \<and> ne_active e' = ne_active e \<and> ne_started e' = ne_started e"
  by (auto simp: age_binding_node_flat_enumerator_reserve_def Let_def split: if_splits)

lemma add_factors_result:
  "add_factors kind i cs e = Inr e' \<Longrightarrow>
   factors e' = factors e @ factor_list kind i cs \<and> ne_indexes e' = ne_indexes e @ replicate (length cs) (-1) \<and>
   ne_active e' = ne_active e \<and> ne_started e' = ne_started e"
proof (induction cs arbitrary: i e)
  case (Cons c cs)
  then obtain e1 where e1: "age_binding_node_flat_enumerator_add_factor kind i c e = Inr e1" "add_factors kind (i + 1) cs e1 = Inr e'"
    by (auto simp: bindE_eq_Inr)
  have "factors e1 = factors e @ [\<lparr>factor_kind = kind, factor_index = i, factor_logical_count = c\<rparr>] \<and>
      ne_indexes e1 = ne_indexes e @ [-1] \<and> ne_active e1 = ne_active e \<and> ne_started e1 = ne_started e"
    using e1(1) by (auto simp: age_binding_node_flat_enumerator_add_factor_def bindE_eq_Inr split: if_splits dest!: reserve_keeps)
  with Cons.IH [OF e1(2)] show ?case by simp
qed simp

definition node_factors :: "AgeBindingNode \<Rightarrow> AgeBindingNodeFlatFactor list" where
  "node_factors n =
     factor_list AGE_BINDING_NODE_FLAT_SOURCE_BAG 0 (map sb_row_count (source_bags n)) @
     factor_list AGE_BINDING_NODE_FLAT_EDGE_BAG 0 (map eb_logical_count (edge_bags n)) @
     factor_list AGE_BINDING_NODE_FLAT_CHILD 0 (map (\<lambda>c. to_int32 (mult_count (snd c))) (children n))"

lemma length_factor_list [simp]: "length (factor_list kind i cs) = length cs"
  by (simp add: factor_list_def)

lemma begin_node_result:
  assumes "age_binding_begin_node_flat_enumerator fuel h e a = Inr (rows, e0, h1)"
  shows "\<exists>n. get_node h1 a = Inr n \<and> factors e0 = node_factors n \<and> ne_indexes e0 = replicate (length (node_factors n)) (-1) \<and>
    ne_active e0 = (rows > 0) \<and> \<not> ne_started e0"
  using assms
  by (auto simp: age_binding_begin_node_flat_enumerator_def bindE_eq_Inr Let_def node_factors_def age_binding_reset_node_flat_enumerator_def
      replicate_add dest!: add_factors_result)

lemma flat_of_start:
  assumes "ne_indexes e0 = replicate (length (factors e0)) (-1)" "factors e0 \<noteq> []" "ne_active e0" "\<not> ne_started e0"
  shows "enum_wf (flat_of e0)" "trying (flat_of e0) [] 0 ((flat_of e0)\<lparr>started := True\<rparr>)"
proof -
  show "enum_wf (flat_of e0)" using assms(2) by (simp add: enum_wf_def flat_of_def)
  have "(replicate (length (factors e0)) (-1 :: int))[0 := -1] = replicate (length (factors e0)) (-1)" by (rule replicate_update)
  then show "trying (flat_of e0) [] 0 ((flat_of e0)\<lparr>started := True\<rparr>)"
    using assms by (simp add: trying_def same_cfg_def marks_def flat_of_def)
qed

lemma flat_of_combination:
  "combination (flat_of e) ix \<longleftrightarrow>
   length ix = length (factors e) \<and> (\<forall>f < length (factors e). 0 \<le> ix ! f \<and> ix ! f < factor_logical_count (factors e ! f))"
  by (auto simp: combination_def flat_of_def clash_def)

text \<open>All index vectors below the factor counts.\<close>

definition factor_rows :: "AgeBindingNodeFlatFactor list \<Rightarrow> int list set" where
  "factor_rows fs = {ix. length ix = length fs \<and> (\<forall>f < length fs. 0 \<le> ix ! f \<and> ix ! f < factor_logical_count (fs ! f))}"

lemma started_node_runs:
  assumes "ne_indexes e0 = replicate (length (factors e0)) (-1)" "factors e0 \<noteq> []" "ne_active e0" "\<not> ne_started e0"
  shows "\<exists>L F. distinct L \<and> set L = factor_rows (factors e0) \<and> (\<forall>fuel \<ge> F. \<forall>calls > length L. run_node calls fuel e0 = Inr L)"
proof -
  let ?e = "flat_of e0"
  note b = flat_of_start [OF assms]
  obtain k where k: "factor_count ?e = Suc k" using assms(2) by (cases "factors e0") (simp_all add: flat_of_def)
  have y: "yields ?e 0 (sols ?e (factor_count ?e) []) (?e\<lparr>started := True\<rparr>)"
    using search_next [OF b(1), of "[]" k 0] b(2) k by (simp add: sols_from_def)
  have "age_binding_flat_enumerator_next fuel ?e = enum_loop fuel 0 (?e\<lparr>started := True\<rparr>)" for fuel
    using assms(2-4) by (simp add: age_binding_flat_enumerator_next_def flat_of_def)
  from run_after [OF b(1) y this] obtain F where
    "\<forall>fuel \<ge> F. \<forall>calls > length (sols ?e (factor_count ?e) []). run_enum calls fuel ?e = Inr (map (idx_of ?e) (sols ?e (factor_count ?e) []))"
    by blast
  moreover have "run_node calls fuel e0 = run_enum calls fuel ?e" for calls fuel
    using assms by (intro run_node_simulated) simp_all
  ultimately show ?thesis
    using sols_combinations [OF b(1)] unfolding flat_of_combination factor_rows_def
    by (intro exI [of _ "map (idx_of ?e) (sols ?e (factor_count ?e) [])"] exI [of _ F]) simp
qed



text \<open>A child with \<open>2 ^ 32\<close> rows becomes a factor of none, because the count is converted to \<open>int\<close>: the
  enumeration of a node with such a child ends at once although the node has rows.\<close>

lemma to_int32_truncates: "to_int32 4294967296 = 0"
  by (simp add: to_int32_def)

lemma child_count_truncated:
  assumes "age_binding_begin_node_flat_enumerator fuel h e a = Inr (rows, e0, h1)" "0 < rows"
    and "get_node h1 a = Inr n" "(c, m) \<in> set (children n)" "mult_count m = 2 ^ 32"
  shows "\<exists>F. \<forall>fuel \<ge> F. run_node 1 fuel e0 = Inr []"
proof -
  obtain n' where "get_node h1 a = Inr n'" and n': "factors e0 = node_factors n'"
    "ne_indexes e0 = replicate (length (node_factors n')) (-1)" "ne_active e0 = (0 < rows)" "\<not> ne_started e0"
    using begin_node_result [OF assms(1)] by blast
  then have "n' = n" using assms(3) by simp
  with n' assms(2) have n: "factors e0 = node_factors n" "ne_indexes e0 = replicate (length (factors e0)) (-1)" "ne_active e0" "\<not> ne_started e0"
    by simp_all
  obtain i where i: "i < length (children n)" "children n ! i = (c, m)" using assms(4) by (auto simp: in_set_conv_nth)
  let ?i = "length (source_bags n) + length (edge_bags n) + i"
  have z: "?i < length (factors e0)" "factor_logical_count (factors e0 ! ?i) = 0"
    using i assms(5) by (simp_all add: n(1) node_factors_def nth_append) (simp add: factor_list_def nth_enumerate_eq to_int32_truncates)
  have "ix \<notin> factor_rows (factors e0)" for ix
  proof
    assume "ix \<in> factor_rows (factors e0)"
    then have "0 \<le> ix ! ?i \<and> ix ! ?i < factor_logical_count (factors e0 ! ?i)" using z(1) unfolding factor_rows_def by blast
    with z(2) show False by linarith
  qed
  then have "factor_rows (factors e0) = {}" by blast
  moreover have "factors e0 \<noteq> []" using z(1) by auto
  from started_node_runs [OF n(2) this n(3,4)] obtain L F where
    "set L = factor_rows (factors e0)" "\<forall>fuel \<ge> F. \<forall>calls > length L. run_node calls fuel e0 = Inr L" by blast
  ultimately show ?thesis by (intro exI [of _ F]) (simp del: run_node.simps)
qed

end
