(* ===== verification/Spec2Isabelle.thy ===== *)
theory Spec2Isabelle
  imports Graphid_DS Agtype_Arith Agtype_Relate Agtype_Path Agtype_RawEntity Wcoj_Scan Binding_NodeEnum
begin

text \<open>
  Apache AGE, the graph extension of PostgreSQL: its data types and the core of its join executor.

  \<^bold>\<open>The program.\<close> AGE stores the vertices and edges of a graph in tables, one per label, and answers Cypher queries by
  turning them into query trees and custom plans of the PostgreSQL server. Its own logic has four layers.

  \<^item> \<open>graphid\<close> (\<open>graphid.c\<close>, \<open>age_graphid_ds.c\<close>): the 64-bit identifier of an entity, and lists and stacks of identifiers
    for the path search.
  \<^item> \<open>agtype\<close> (\<open>agtype.h\<close>, \<open>agtype.c\<close>, \<open>agtype_util.c\<close>, \<open>agtype_ext.c\<close>, \<open>agtype_raw.c\<close>, \<open>agtype_parser.c\<close>,
    \<open>agtype_ops.c\<close> under \<open>src/backend/utils/adt\<close>): the type of every Cypher value. A value exists in three forms: text, an in-memory tree
    (\<open>agtype_value\<close>) and the stored form, a sequence of bytes in which every container has a header and one entry word
    per child. The parser calls semantic actions that push tokens into a parse state; the parse state builds the tree;
    the serializer writes it; iterators walk the stored form for output, comparison, search and the operators.
  \<^item> The parser, analyzer and planner of Cypher, which build trees and plans of the server.
  \<^item> The executor (\<open>src/backend/executor\<close>): the joins work on sorted arrays of graphids (\<open>cypher_wcoj_join.c\<close>) and
    keep intermediate results factorized, as products of bags (\<open>cypher_factorized_binding.c\<close>), which an enumerator
    turns into flat rows.

  The development models the first two layers and the two files of the last one.

  \<^bold>\<open>Conventions.\<close> (\<open>Age_Prelude\<close>) C integers are words of their width where they can wrap, and integers where the code
  guards every operation. A pointer into a byte buffer is the list of the bytes from there to the end of the allocation,
  and a read beyond it is the error \<open>BadAccess\<close>; an \<open>ereport\<close> is an error value \<open>Inl\<close>. So \<open>Inr\<close> as a
  result says that no error is raised and that no read leaves its buffer. Routines of PostgreSQL and the C library are the
  fields of the parameter \<open>pg_env\<close> (\<open>Agtype_Value\<close>) and of \<open>num_text\<close> (\<open>Agtype_In\<close>); what is relied on is
  stated as a hypothesis (\<open>qsort_ok\<close>: the sort returns a sorted permutation; \<open>scan_filters\<close>: an adjacency scan with
  a filter drops no payload whose terminal passes it) and every property with such a hypothesis has a witness in which the
  parameter is a concrete function.

  \<^bold>\<open>Graphids.\<close> \<open>Graphid\<close>: packing, text, order, hash and the OID cache with its invalidation, as a step relation whose
  reachable states never return a stale OID. \<open>Graphid_DS\<close>: linked lists over an explicit heap of cells and the array
  stack; both interpret the locale \<open>lifo_stack\<close>, and the properties of long sequences of operations follow from its laws.

  \<^bold>\<open>The agtype data model and its stored form.\<close>
  \<^item> \<open>Agtype_Value\<close>: the values, headers, entries and the offset arithmetic of \<open>agtype.h\<close>.
  \<^item> \<open>Agtype_Build\<close>: the parse state (\<open>push_agtype_value_scalar\<close>, \<open>append_*\<close>, \<open>uniqueify_agtype_object\<close>); objects
    end with sorted distinct keys and the last value of each key.
  \<^item> \<open>Agtype_Entries\<close>, \<open>Agtype_Convert\<close>, \<open>Agtype_Encode\<close>: the serializer. The layout is the function \<open>enc\<close>, and
    the writers, their fast paths included, produce it.
  \<^item> \<open>Agtype_Read\<close>, \<open>Agtype_Roundtrip\<close>, \<open>Agtype_Decode\<close>: \<open>fill_agtype_value\<close>, the iterator, \<open>push_agtype_value\<close>,
    deserialization of vertices, edges and paths, and the round trips of containers and scalars.
  \<^item> \<open>Agtype_Compare\<close>, \<open>Agtype_Order\<close>: equality, the orders and hashing; what is and what is not a linear order.
  \<^item> \<open>Agtype_Find\<close>, \<open>Agtype_Search\<close>, \<open>Agtype_Contains\<close>: search by key and by element, and containment.

  \<^item> \<open>Agtype_Raw\<close>, \<open>Agtype_RawEntity\<close>: the builder that writes storage without a tree (\<open>agtype_raw.c\<close>). Each writer appends
    one child to the layout; a list of copied scalars is the list the serializer writes, unless a numeric is misaligned;
    vertices and edges are read back as they were built, four stray bytes behind each container notwithstanding.

  \<^bold>\<open>Text.\<close> \<open>Agtype_Lex\<close>, \<open>Agtype_Text\<close>: the lexer, equal to the number grammar of its comment, inverse to
  \<open>escape_agtype\<close>. \<open>Agtype_Parser\<close>, \<open>Agtype_Parse\<close>: the parser and its termination. \<open>Agtype_In\<close>, \<open>Agtype_Entity\<close>:
  the semantic actions with typecasts; the locale \<open>parse_invariant\<close> says when a parse keeps an invariant and is
  interpreted on the actions of \<open>agtype_in\<close>. \<open>Agtype_Out\<close>, \<open>Agtype_Print\<close>: the printer prints \<open>ptext\<close>.

  \<^bold>\<open>Operators.\<close> \<open>Agtype_Access\<close>, \<open>Agtype_ContainOps\<close>: the containment operators with their fast path and its
  cache. \<open>Agtype_Exists\<close>: the existence operators. \<open>Agtype_Concat\<close>, \<open>Agtype_Delete\<close>: concatenation and deletion.
  \<open>Agtype_Float\<close>: arithmetic on doubles, which rounds to the nearest. \<open>Agtype_Arith\<close>: the arithmetic operators. \<open>Agtype_Relate\<close>: the
  comparison operators, which agree with the order. \<open>Agtype_Path\<close>: the path operators.
  Their laws have one shape: the stored operands are the images (\<open>cimage\<close>) of values, and the result is the image of
  the value that a function on values gives.

  \<^bold>\<open>Joins.\<close> \<open>Exec_Base\<close>: saturating counters and checked arrays. \<open>Binding_Source\<close>, \<open>Binding_Node\<close>: rows, bags and
  nodes of factorized bindings and their multiplicities. \<open>Binding_Enum\<close>, \<open>Binding_Search\<close>, \<open>Binding_NodeEnum\<close>: the
  enumerators return every combination once, and the node enumerator simulates the flat one. \<open>Wcoj_Intersect\<close>: intersection
  by galloping and merging. \<open>Wcoj_Provider\<close>, \<open>Wcoj_Adjacency\<close>: cursors over the keys of a join input; the locale
  \<open>posting_provider\<close> is the contract of the operation table in the C code and is interpreted on the plan stream, on the
  adjacency provider and on the dispatch between them. \<open>Wcoj_Align\<close>, \<open>Wcoj_Join\<close>: the three engines, proved once in
  that locale, and the choice between them. \<open>Wcoj_Frame\<close>, \<open>Wcoj_Block\<close>, \<open>Wcoj_Scan\<close>: blocks of survivors with their
  groups of rows, and the scan as a whole, which delivers the intersection of its sources.

  \<^bold>\<open>Fuel.\<close> Recursions of the code that no structure bounds take fuel, and running out of it is the error \<open>OutOfFuel\<close>, which
  the theorems exclude. The parser needs the length of its input plus one; reading a value \<open>need\<close> of the value (the tokens and
  nesting below it), printing \<open>pneed\<close>, containment \<open>dneed\<close> of both operands; concatenation and deletion the \<open>need\<close>
  of their operands. An alignment engine needs one more than the keys ahead of its providers, a scan one call more than
  there are results; the enumerators' fuel is shown to exist, since every call ends.

  \<^bold>\<open>Not modelled.\<close> The Cypher grammar (generated), analyzer and planner build and rewrite trees of the server;
  the adjacency access method, the global graph contexts and the updating executor nodes work on its buffers, heap tuples,
  snapshots and catalogs. They have next to no logic apart from server structures that are not in this repository. The VLE
  search is left out for its dependence on the graph contexts. Of \<open>agtype.c\<close> only input, output and the builders of vertices,
  edges and lists (from arguments of type agtype) are modelled; paths, maps, casts, list, string and mathematical functions and the
  aggregates are not. Of the joins the prefetch and the spilling of adjacency payloads, and the custom scan nodes around the
  two modelled files, are left out. Memory contexts appear only where the code counts bytes.
\<close>

end
